(* ===== verification/Prelude.thy ===== *)
theory Prelude
  imports Main "HOL-Library.Word"
begin

text \<open>
  Shared vocabulary of the development: the error values of the Go code, the state of a
  Go context, bytes and texts, and the generic facts on lists that the component
  theories use.

  \<^item> \<^verbatim>\<open>go_error\<close> below is the type of every error the modelled code creates or
    passes on. An error is its data, not its rendered text: where the code stores
    \<^verbatim>\<open>err.Error()\<close> in a message, the model takes the rendering as a parameter.
  \<^item> \<^verbatim>\<open>ctx_state\<close> is what a Go context answers at one moment.
  \<^item> Slices are lists. A nil window and an empty window are the same list; no modelled
    branch depends on the difference.
\<close>

section \<open>Errors and contexts\<close>

text \<open>
  An error made by \<^verbatim>\<open>fmt.Errorf\<close> is its format text with its arguments; one that wraps
  another with the verb \<^verbatim>\<open>w\<close> is a \<^verbatim>\<open>WrappedError\<close>.
\<close>

datatype format_arg = StrArg string | IntArg int

datatype go_error =
    CtxCanceled
  | CtxDeadlineExceeded
  | ErrorText string
  | FormattedError string "format_arg list"
  | WrappedError string go_error
  | JoinedErrors "go_error list"
  | ToolFailed string go_error
  | BufferFullError
  | SessionInputQueueFull
  | SessionRunnerClosed
  | SessionDeltaOverflow
  | SessionSendFailed string string "go_error option"

datatype ctx_state = CtxLive | CtxDone go_error

fun ctx_err :: "ctx_state \<Rightarrow> go_error option" where
  "ctx_err CtxLive = None"
| "ctx_err (CtxDone e) = Some e"

type_synonym 'a result = "go_error + 'a"

type_synonym byte = "8 word"

section \<open>Generic list facts\<close>

named_theorems window_simps \<open>facts about windows of a list, \<open>take n (drop s xs)\<close>\<close>

definition window :: "nat \<Rightarrow> nat \<Rightarrow> 'a list \<Rightarrow> 'a list" where
  "window s n xs = take n (drop s xs)"

lemma window_zero [simp]: "window s 0 xs = []"
  by (simp add: window_def)

lemma length_window [window_simps]: "s + n \<le> length xs \<Longrightarrow> length (window s n xs) = n"
  by (simp add: window_def)

lemma window_append_left [window_simps]: "s + n \<le> length xs \<Longrightarrow> window s n (xs @ ys) = window s n xs"
  by (simp add: window_def)

lemma window_end [window_simps]: "window (length xs) n (xs @ ys) = take n ys"
  by (simp add: window_def)

lemma window_drop [window_simps]: "d \<le> s \<Longrightarrow> window (s - d) n (drop d xs) = window s n xs"
  by (simp add: window_def)

lemma window_take [window_simps]: "s + n \<le> m \<Longrightarrow> window s n (take m xs) = window s n xs"
  by (simp add: window_def drop_take min_def)

lemma window_map [window_simps]: "window s n (map f xs) = map f (window s n xs)"
  by (simp add: window_def drop_map take_map)

lemma window_Suc [window_simps]:
  "s + n < length xs \<Longrightarrow> window s (Suc n) xs = window s n xs @ [xs ! (s + n)]"
  by (simp add: window_def take_Suc_conv_app_nth)

lemma window_update_beyond [window_simps]:
  "s + n \<le> i \<Longrightarrow> window s n (xs[i := x]) = window s n xs"
  by (simp add: window_def drop_update_swap)

text \<open>Insertion at an index, Go's \<^verbatim>\<open>append\<close>, \<^verbatim>\<open>copy\<close> and store idiom.\<close>

definition insert_at :: "nat \<Rightarrow> 'a \<Rightarrow> 'a list \<Rightarrow> 'a list" where
  "insert_at i x xs = take i xs @ x # drop i xs"

lemma length_insert_at [simp]: "length (insert_at i x xs) = Suc (length xs)"
  by (simp add: insert_at_def)

lemma insert_at_nth [window_simps]: "i \<le> length xs \<Longrightarrow> insert_at i x xs ! i = x"
  by (simp add: insert_at_def nth_append)

lemma window_insert_at_before [window_simps]:
  assumes "s + n \<le> i" "i \<le> length xs"
  shows "window s n (insert_at i x xs) = window s n xs"
proof -
  have "window s n (insert_at i x xs) = window s n (take i xs)"
    using assms by (simp add: insert_at_def window_append_left)
  also have "\<dots> = window s n xs"
    using assms by (simp add: window_take)
  finally show ?thesis .
qed

lemma window_insert_at_after [window_simps]:
  assumes "i \<le> s" "i \<le> length xs"
  shows "window (Suc s) n (insert_at i x xs) = window s n xs"
proof -
  have "drop (Suc s) (insert_at i x xs) = drop s xs"
    using assms by (simp add: insert_at_def Suc_diff_le)
  then show ?thesis by (simp add: window_def)
qed

lemma filter_insert_at [simp]:
  "filter P (insert_at i x xs) = filter P (take i xs) @ filter P [x] @ filter P (drop i xs)"
  by (simp add: insert_at_def)

lemma upt_join: "i \<le> j \<Longrightarrow> j \<le> k \<Longrightarrow> [i..<j] @ [j..<k] = [i..<k]"
  using upt_add_eq_append [of i j "k - j"] by simp

end
