(* ===== verification/Messages.thy ===== *)
theory Messages
  imports Prelude
begin

text \<open>
  The message contracts of \<^verbatim>\<open>go-agent-loop/pkg/messages\<close>: roles and participants, content
  parts and full messages (\<^verbatim>\<open>agent_messages.go\<close>), stream message types and values
  (\<^verbatim>\<open>stream_types.go\<close>, \<^verbatim>\<open>terminal_values.go\<close>, \<^verbatim>\<open>tool_values.go\<close>, \<^verbatim>\<open>audio_values.go\<close>,
  \<^verbatim>\<open>session_values.go\<close>) and the requests participants exchange
  (\<^verbatim>\<open>participant_messages.go\<close>). Every payload type of the source is a constructor of
  \<^verbatim>\<open>stream_value\<close>; the inner JSON tag of a payload (its \<^verbatim>\<open>Type\<close> field) is fixed by
  the constructor and left out. A nil interface value is \<^verbatim>\<open>None\<close> of the
  \<^verbatim>\<open>sm_value\<close> field. The payloads the code tests for a nil pointer (ERROR,
  MESSAGE.END, RESPONSE.CREATE, RESPONSE.CANCEL) carry an option.
\<close>

section \<open>Roles, participants and vocabulary\<close>

datatype role = RoleUnset | RoleUser | RoleAssistant | RoleTool | RoleSystem | RoleOther string

datatype participant_id = PUnset | PSystem | PUser | PTool | PModel | PKernel

datatype control_plane_type =
    CPStop | CPPause | CPResume | CPInterrupt | CPSessionClose | CPPing

datatype terminal_reason =
    TRUnset | TRProviderAuthoredCompletion | TRLoopSynthesizedCompletion | TRCancellation
  | TRReplayDivergence | TRReplayIncomplete | TRReplayComplete | TRSessionClose
  | TRPartialOutput | TRProviderClose | TRTerminalFailure

datatype terminal_provenance =
    TPUnset | TPProvider | TPLoop | TPRoom | TPGateway | TPSession | TPReplay | TPCLI

datatype terminal_output_state = TOUnset | TOComplete | TOPartial | TONone | TONotApplicable

datatype terminal_source = TSUnset | TSProvider | TSLoopSynthesized

datatype response_purpose = PurposeNone | PurposeToolAcknowledgement | PurposeToolContinuation

text \<open>The string the code stores where it writes \<^verbatim>\<open>string(reason)\<close>.\<close>

fun terminal_reason_string :: "terminal_reason \<Rightarrow> string" where
  "terminal_reason_string TRUnset = ''''"
| "terminal_reason_string TRProviderAuthoredCompletion = ''provider_authored_completion''"
| "terminal_reason_string TRLoopSynthesizedCompletion = ''loop_synthesized_completion''"
| "terminal_reason_string TRCancellation = ''cancellation''"
| "terminal_reason_string TRReplayDivergence = ''replay_divergence''"
| "terminal_reason_string TRReplayIncomplete = ''replay_incomplete''"
| "terminal_reason_string TRReplayComplete = ''replay_complete''"
| "terminal_reason_string TRSessionClose = ''session_close''"
| "terminal_reason_string TRPartialOutput = ''partial_output''"
| "terminal_reason_string TRProviderClose = ''provider_close''"
| "terminal_reason_string TRTerminalFailure = ''terminal_failure''"

fun participant_string :: "participant_id \<Rightarrow> string" where
  "participant_string PUnset = ''''"
| "participant_string PSystem = ''system''"
| "participant_string PUser = ''user''"
| "participant_string PTool = ''tool''"
| "participant_string PModel = ''model''"
| "participant_string PKernel = ''kernel''"

section \<open>Content parts, tool calls and full messages\<close>

record token_usage =
  tu_prompt :: int
  tu_completion :: int
  tu_total :: int
  tu_reasoning :: int

definition zero_usage :: token_usage where
  "zero_usage = \<lparr>tu_prompt = 0, tu_completion = 0, tu_total = 0, tu_reasoning = 0\<rparr>"

datatype content_part =
    ControlPlanePart control_plane_type
  | TextPart string
  | ImagePart string "byte list" string
  | AudioPart string "byte list" string
  | TranscriptPart string
  | VideoPart string "byte list" string
  | FilePart string "byte list" string string
  | EmbeddingPart string "byte list" string
  | UsageInfoPart token_usage
  | ReasoningPart string

record tool_call =
  tc_id :: string
  tc_name :: string
  tc_arguments :: string

record message =
  m_role :: role
  m_parts :: "content_part list"
  m_refusal :: string
  m_tool_calls :: "tool_call list"
  m_tool_call_id :: string
  m_name :: string
  m_index :: "int option"
  m_global_index :: nat
  m_actor_provided_id :: string
  m_actor_provided_index :: int
  m_actor_stream_id :: string
  m_actor_id :: participant_id

definition zero_message :: message where
  "zero_message = \<lparr>m_role = RoleUnset, m_parts = [], m_refusal = '''', m_tool_calls = [],
     m_tool_call_id = '''', m_name = '''', m_index = None, m_global_index = 0,
     m_actor_provided_id = '''', m_actor_provided_index = 0, m_actor_stream_id = '''',
     m_actor_id = PUnset\<rparr>"

fun is_text_part :: "content_part \<Rightarrow> bool" where
  "is_text_part (TextPart _) = True"
| "is_text_part _ = False"

fun is_reasoning_part :: "content_part \<Rightarrow> bool" where
  "is_reasoning_part (ReasoningPart _) = True"
| "is_reasoning_part _ = False"

fun is_image_part :: "content_part \<Rightarrow> bool" where
  "is_image_part (ImagePart _ _ _) = True"
| "is_image_part _ = False"

fun is_control_part :: "content_part \<Rightarrow> bool" where
  "is_control_part (ControlPlanePart _) = True"
| "is_control_part _ = False"

fun text_of_part :: "content_part \<Rightarrow> string" where
  "text_of_part (TextPart t) = t"
| "text_of_part _ = ''''"

definition text_content :: "message \<Rightarrow> string" where
  "text_content m = concat (map text_of_part (m_parts m))"

fun reasoning_of_parts :: "content_part list \<Rightarrow> string" where
  "reasoning_of_parts [] = ''''"
| "reasoning_of_parts (ReasoningPart r # ps) = r"
| "reasoning_of_parts (p # ps) = reasoning_of_parts ps"

definition reasoning_content :: "message \<Rightarrow> string" where
  "reasoning_content m = reasoning_of_parts (m_parts m)"

definition new_text_message :: "role \<Rightarrow> string \<Rightarrow> message" where
  "new_text_message r t = zero_message\<lparr>m_role := r, m_parts := [TextPart t]\<rparr>"

definition new_reasoning_message :: "role \<Rightarrow> string \<Rightarrow> message" where
  "new_reasoning_message r t = zero_message\<lparr>m_role := r, m_parts := [ReasoningPart t]\<rparr>"

definition has_text :: "message \<Rightarrow> bool" where
  "has_text m = list_ex is_text_part (m_parts m)"

text \<open>
  The loop of \<^verbatim>\<open>HasOnlyReasoning\<close>: it returns false at the first user-facing part it
  lists, and otherwise whether a reasoning part was seen. Transcript and control parts
  fall through its type switch.
\<close>

fun only_reasoning_parts :: "bool \<Rightarrow> content_part list \<Rightarrow> bool" where
  "only_reasoning_parts seen [] = seen"
| "only_reasoning_parts seen (p # ps) =
     (case p of
        ReasoningPart _ \<Rightarrow> only_reasoning_parts True ps
      | TextPart _ \<Rightarrow> False
      | ImagePart _ _ _ \<Rightarrow> False
      | AudioPart _ _ _ \<Rightarrow> False
      | VideoPart _ _ _ \<Rightarrow> False
      | FilePart _ _ _ _ \<Rightarrow> False
      | EmbeddingPart _ _ _ \<Rightarrow> False
      | UsageInfoPart _ \<Rightarrow> only_reasoning_parts seen ps
      | TranscriptPart _ \<Rightarrow> only_reasoning_parts seen ps
      | ControlPlanePart _ \<Rightarrow> only_reasoning_parts seen ps)"

definition has_only_reasoning :: "message \<Rightarrow> bool" where
  "has_only_reasoning m =
     (if length (m_tool_calls m) > 0 then False else only_reasoning_parts False (m_parts m))"

section \<open>Stream messages\<close>

datatype stream_type =
    StreamUnset
  | StreamMessageStart | StreamMessageEnd
  | StreamTextStart | StreamTextDelta | StreamTextEnd
  | StreamToolCallStart | StreamToolCallDelta | StreamToolCallEnd
  | StreamAudioStart | StreamAudioDelta | StreamAudioEnd
  | StreamImageStart | StreamImageDelta | StreamImageEnd
  | StreamVideoStart | StreamVideoDelta | StreamVideoEnd
  | StreamFileStart | StreamFileDelta | StreamFileEnd
  | StreamEmbeddingStart | StreamEmbeddingDelta | StreamEmbeddingEnd
  | StreamReasoningStart | StreamReasoningDelta | StreamReasoningEnd
  | StreamVADSpeechStarted | StreamVADSpeechStopped
  | StreamTranscriptStart | StreamTranscriptDelta | StreamTranscriptEnd
  | StreamInputItemAdded
  | StreamPong
  | StreamSessionOpen | StreamSessionClose | StreamSessionCreated | StreamSessionUpdated
  | StreamSessionUpdate
  | StreamResponseCancel | StreamResponseCreate
  | StreamDelegationCreated | StreamContextAppend
  | StreamRefusal | StreamLoopEnd | StreamUsageInfo | StreamError | StreamSystemFullMessage

record message_end_value =
  me_usage :: token_usage
  me_status :: string
  me_status_details :: string
  me_provider_error_code :: string
  me_provider_error_message :: string
  me_terminal_reason :: terminal_reason
  me_terminal_provenance :: terminal_provenance
  me_output_state :: terminal_output_state
  me_terminal_source :: terminal_source

record error_value =
  ev_message :: string
  ev_classification :: string
  ev_non_terminal :: bool
  ev_terminal_reason :: terminal_reason
  ev_terminal_provenance :: terminal_provenance
  ev_output_state :: terminal_output_state
  ev_error_type :: string
  ev_code :: string
  ev_param :: string
  ev_event_id :: string
  ev_err :: "go_error option"

record session_close_value =
  sc_session_id :: string
  sc_reason :: string
  sc_classification :: string
  sc_terminal_reason :: terminal_reason
  sc_terminal_provenance :: terminal_provenance
  sc_output_state :: terminal_output_state

record tool_parameter =
  tp_name :: string
  tp_type :: string
  tp_description :: string
  tp_required :: bool

record tool_definition =
  td_name :: string
  td_description :: string
  td_parameters :: "tool_parameter list"
  td_parameter_schema :: "byte list"
  td_parameters_closed :: bool

record session_update_config =
  su_instructions :: string
  su_model :: string
  su_modalities :: "string list"
  su_tools :: "tool_definition list"

record response_create_value =
  rc_purpose :: response_purpose
  rc_instructions :: string

datatype context_append_kind = CAInstructions | CAThinking | CACommentary

record transcript_fragment =
  tf_speaker :: role
  tf_text :: string
  tf_start_ms :: int
  tf_end_ms :: int

record delegation_created_value =
  dc_id :: string
  dc_target :: string
  dc_offset_ms :: int
  dc_task :: string
  dc_transcript :: "transcript_fragment list"

datatype stream_value =
    VMessageStart
  | VMessageEnd "message_end_value option"
  | VTextStart | VTextDelta string | VTextEnd
  | VToolCallStart string string
  | VToolCallDelta string
  | VToolCallEnd string string string  \<comment> \<open>call id, name, arguments\<close>
  | VAudioStart | VAudioDelta "byte list" string | VAudioEnd
  | VImageStart string | VImageDelta "byte list" | VImageEnd
  | VVideoStart string | VVideoDelta "byte list" | VVideoEnd
  | VFileStart string string | VFileDelta "byte list" | VFileEnd  \<comment> \<open>media type, name\<close>
  | VEmbeddingStart string | VEmbeddingDelta "byte list" | VEmbeddingEnd
  | VReasoningStart | VReasoningDelta string | VReasoningEnd
  | VVADSpeechStarted | VVADSpeechStopped
  | VTranscriptStart | VTranscriptDelta string string | VTranscriptEnd string string
  | VInputItemAdded string
  | VPong int
  | VSessionOpen string string
  | VSessionClose session_close_value
  | VSessionCreated string string
  | VSessionUpdated string
  | VSessionUpdate session_update_config
  | VResponseCancel "bool option"  \<comment> \<open>\<^verbatim>\<open>KeepPlayback\<close>\<close>
  | VResponseCreate "response_create_value option"
  | VDelegationCreated delegation_created_value
  | VContextAppend context_append_kind "string option" string
  | VRefusal string
  | VLoopEnd
  | VUsageInfo token_usage
  | VError "error_value option"
  | VInferenceResult string message

record stream_message =
  sm_type :: stream_type
  sm_role :: role
  sm_tool_call_id :: string
  sm_response_id :: string
  sm_response_purpose :: response_purpose
  sm_value :: "stream_value option"
  sm_global_index :: nat
  sm_actor_provided_id :: string
  sm_actor_provided_index :: int
  sm_actor_stream_id :: string
  sm_actor_id :: participant_id
  sm_loop_pass_id :: int

definition zero_stream_message :: stream_message where
  "zero_stream_message = \<lparr>sm_type = StreamUnset, sm_role = RoleUnset, sm_tool_call_id = '''',
     sm_response_id = '''', sm_response_purpose = PurposeNone, sm_value = None,
     sm_global_index = 0, sm_actor_provided_id = '''', sm_actor_provided_index = 0,
     sm_actor_stream_id = '''', sm_actor_id = PUnset, sm_loop_pass_id = 0\<rparr>"

text \<open>A stream message literal with a type, role and value and zero other fields.\<close>

definition mk_delta :: "stream_type \<Rightarrow> role \<Rightarrow> stream_value \<Rightarrow> stream_message" where
  "mk_delta ty r v = zero_stream_message\<lparr>sm_type := ty, sm_role := r, sm_value := Some v\<rparr>"

section \<open>Terminal values\<close>

definition new_message_end_value :: "token_usage \<Rightarrow> message_end_value" where
  "new_message_end_value u = \<lparr>me_usage = u, me_status = '''', me_status_details = '''',
     me_provider_error_code = '''', me_provider_error_message = '''',
     me_terminal_reason = TRUnset, me_terminal_provenance = TPUnset,
     me_output_state = TOUnset, me_terminal_source = TSUnset\<rparr>"

definition new_message_end_value_with_terminal ::
    "token_usage \<Rightarrow> terminal_reason \<Rightarrow> terminal_provenance \<Rightarrow> terminal_output_state
     \<Rightarrow> message_end_value" where
  "new_message_end_value_with_terminal u r p out =
     (new_message_end_value u)\<lparr>me_terminal_reason := r, me_terminal_provenance := p,
       me_output_state := out\<rparr>"

definition new_synthesized_message_end_value :: "token_usage \<Rightarrow> message_end_value" where
  "new_synthesized_message_end_value u =
     (new_message_end_value_with_terminal u TRLoopSynthesizedCompletion TPLoop TOComplete)
       \<lparr>me_terminal_source := TSLoopSynthesized\<rparr>"

definition message_end_terminal_source :: "message_end_value option \<Rightarrow> terminal_source" where
  "message_end_terminal_source v =
     (case v of None \<Rightarrow> TSProvider
      | Some e \<Rightarrow> if me_terminal_source e = TSUnset then TSProvider else me_terminal_source e)"

definition new_error_value :: "string \<Rightarrow> error_value" where
  "new_error_value msg = \<lparr>ev_message = msg, ev_classification = '''', ev_non_terminal = False,
     ev_terminal_reason = TRUnset, ev_terminal_provenance = TPUnset, ev_output_state = TOUnset,
     ev_error_type = '''', ev_code = '''', ev_param = '''', ev_event_id = '''', ev_err = None\<rparr>"

definition new_error_value_with_classification :: "string \<Rightarrow> string \<Rightarrow> error_value" where
  "new_error_value_with_classification msg cl = (new_error_value msg)\<lparr>ev_classification := cl\<rparr>"

definition new_non_terminal_error_value :: "string \<Rightarrow> string \<Rightarrow> error_value" where
  "new_non_terminal_error_value msg cl =
     (new_error_value msg)\<lparr>ev_classification := cl, ev_non_terminal := True\<rparr>"

text \<open>\<^verbatim>\<open>err.Error()\<close> is the parameter \<^verbatim>\<open>render\<close>.\<close>

definition new_tool_execution_error_value ::
    "(go_error \<Rightarrow> string) \<Rightarrow> go_error \<Rightarrow> error_value" where
  "new_tool_execution_error_value render e =
     (new_non_terminal_error_value (render e) ''tool_execution'')\<lparr>ev_err := Some e\<rparr>"

definition new_error_value_with_terminal ::
    "string \<Rightarrow> string \<Rightarrow> terminal_reason \<Rightarrow> terminal_provenance \<Rightarrow> terminal_output_state
     \<Rightarrow> error_value" where
  "new_error_value_with_terminal msg cl r p out =
     (new_error_value msg)\<lparr>ev_classification := cl, ev_terminal_reason := r,
       ev_terminal_provenance := p, ev_output_state := out\<rparr>"

definition new_error_value_with_error ::
    "(go_error \<Rightarrow> string) \<Rightarrow> go_error option \<Rightarrow> error_value" where
  "new_error_value_with_error render err =
     (case err of None \<Rightarrow> new_error_value ''''
      | Some e \<Rightarrow> (new_error_value (render e))\<lparr>ev_err := Some e\<rparr>)"

definition is_non_terminal :: "error_value option \<Rightarrow> bool" where
  "is_non_terminal v = (case v of None \<Rightarrow> False | Some e \<Rightarrow> ev_non_terminal e)"

definition is_terminal :: "error_value option \<Rightarrow> bool" where
  "is_terminal v = (case v of None \<Rightarrow> True | Some e \<Rightarrow> \<not> ev_non_terminal e)"

lemma is_non_terminal_iff: "is_non_terminal v \<longleftrightarrow> \<not> is_terminal v"
  by (simp add: is_terminal_def is_non_terminal_def split: option.splits)

definition new_session_close_value_with_terminal ::
    "string \<Rightarrow> string \<Rightarrow> string \<Rightarrow> terminal_reason \<Rightarrow> terminal_provenance
     \<Rightarrow> terminal_output_state \<Rightarrow> session_close_value" where
  "new_session_close_value_with_terminal sid reason cl r p out =
     \<lparr>sc_session_id = sid, sc_reason = reason, sc_classification = cl, sc_terminal_reason = r,
      sc_terminal_provenance = p, sc_output_state = out\<rparr>"

definition tool_acknowledgement_instructions :: string where
  "tool_acknowledgement_instructions =
     ''Briefly acknowledge that the requested operation is still in progress. Do not claim success or invent a result.''"

definition new_tool_acknowledgement_response_create_value :: response_create_value where
  "new_tool_acknowledgement_response_create_value =
     \<lparr>rc_purpose = PurposeToolAcknowledgement, rc_instructions = tool_acknowledgement_instructions\<rparr>"

definition new_tool_continuation_response_create_value :: response_create_value where
  "new_tool_continuation_response_create_value =
     \<lparr>rc_purpose = PurposeToolContinuation, rc_instructions = ''''\<rparr>"

definition is_tool_continuation :: "response_create_value option \<Rightarrow> bool" where
  "is_tool_continuation v =
     (case v of None \<Rightarrow> False | Some c \<Rightarrow> rc_purpose c = PurposeToolContinuation)"

definition is_tool_acknowledgement :: "response_create_value option \<Rightarrow> bool" where
  "is_tool_acknowledgement v =
     (case v of None \<Rightarrow> False | Some c \<Rightarrow> rc_purpose c = PurposeToolAcknowledgement)"

definition cancel_stops_playback :: "stream_message \<Rightarrow> bool" where
  "cancel_stops_playback m =
     (if sm_type m \<noteq> StreamResponseCancel then False
      else (case sm_value m of
              Some (VResponseCancel (Some keep)) \<Rightarrow> \<not> keep
            | _ \<Rightarrow> True))"

section \<open>Requests between participants\<close>

record kernel_delta_request =
  kd_source :: participant_id
  kd_delta :: stream_message

record tool_call_response =
  tr_tool_call_id :: string
  tr_name :: string
  tr_content :: string
  tr_parts :: "content_part list"

record inference_result =
  ir_message :: message
  ir_tool_calls :: "tool_call list"
  ir_usage :: token_usage

record tool_batch_request =
  tb_calls :: "tool_call list"
  tb_loop_pass_id :: int

text \<open>
  The sampling parameters of a request. Temperature and frequency penalty are floats the
  loop only copies, so their type is a parameter \<^verbatim>\<open>'f\<close>.
\<close>

record 'f inference_defaults =
  id_max_tokens :: "int option"
  id_temperature :: "'f option"
  id_stop_sequences :: "string list"
  id_frequency_penalty :: "'f option"

record 'f inference_request =
  iq_messages :: "message list"
  iq_tools :: "tool_definition list"
  iq_loop_pass_id :: int
  iq_max_tokens :: "int option"
  iq_temperature :: "'f option"
  iq_stop_sequences :: "string list"
  iq_frequency_penalty :: "'f option"

definition new_inference_request ::
    "message list \<Rightarrow> tool_definition list \<Rightarrow> int \<Rightarrow> 'f inference_defaults option
     \<Rightarrow> 'f inference_request" where
  "new_inference_request msgs tools pass defaults =
     (let req = \<lparr>iq_messages = msgs, iq_tools = tools, iq_loop_pass_id = pass,
                 iq_max_tokens = None, iq_temperature = None, iq_stop_sequences = [],
                 iq_frequency_penalty = None\<rparr>
      in (case defaults of None \<Rightarrow> req
          | Some d \<Rightarrow> req\<lparr>iq_max_tokens := id_max_tokens d, iq_temperature := id_temperature d,
              iq_stop_sequences := id_stop_sequences d,
              iq_frequency_penalty := id_frequency_penalty d\<rparr>))"

record user_response =
  ur_message :: message
  ur_error :: "go_error option"

definition full_message_delta :: "participant_id \<Rightarrow> message \<Rightarrow> stream_message" where
  "full_message_delta src m =
     zero_stream_message\<lparr>sm_type := StreamSystemFullMessage,
       sm_value := Some (VInferenceResult (participant_string src) m)\<rparr>"

section \<open>Delivery class of a delta\<close>

definition must_deliver_type :: "stream_type \<Rightarrow> bool" where
  "must_deliver_type ty =
     (case ty of
        StreamToolCallStart \<Rightarrow> True
      | StreamToolCallDelta \<Rightarrow> True
      | StreamToolCallEnd \<Rightarrow> True
      | StreamMessageStart \<Rightarrow> True
      | StreamMessageEnd \<Rightarrow> True
      | StreamError \<Rightarrow> True
      | StreamSessionClose \<Rightarrow> True
      | StreamLoopEnd \<Rightarrow> True
      | StreamSystemFullMessage \<Rightarrow> True
      | StreamDelegationCreated \<Rightarrow> True
      | _ \<Rightarrow> False)"

definition must_deliver :: "stream_message \<Rightarrow> bool" where
  "must_deliver m = (if sm_role m = RoleTool then True else must_deliver_type (sm_type m))"

lemma must_deliver_full_message [simp]: "must_deliver (full_message_delta src m)"
  by (simp add: must_deliver_def must_deliver_type_def full_message_delta_def)

text \<open>A message of reasoning and a transcript counts as reasoning only.\<close>

lemma reasoning_with_transcript:
  "has_only_reasoning (zero_message\<lparr>m_parts := [ReasoningPart ''r'', TranscriptPart ''said'']\<rparr>)"
  by (simp add: has_only_reasoning_def zero_message_def)

end
