(* ===== verification/Tool_Order.thy ===== *)
theory Tool_Order
  imports Messages "HOL-Library.List_Lexorder" "HOL-Library.Char_ord"
    "HOL-Library.Multiset"
begin

text \<open>
  The canonical order of tool definitions, \<^verbatim>\<open>messages/tool_order.go\<close>. Go compares
  strings bytewise, which is the lexicographic order on character lists here.
  \<^verbatim>\<open>sort.SliceStable\<close> is the library's stable sort by a key. Copying a slice is the
  identity on values; an absent (nil) list of definitions is the empty list.
\<close>

definition canonical_parameters :: "tool_definition \<Rightarrow> tool_definition" where
  "canonical_parameters d = d\<lparr>td_parameters := sort_key tp_name (td_parameters d)\<rparr>"

definition canonical_tool_definitions :: "tool_definition list \<Rightarrow> tool_definition list" where
  "canonical_tool_definitions ds = map canonical_parameters (sort_key td_name ds)"

lemma canonical_parameters_name [simp]: "td_name (canonical_parameters d) = td_name d"
  by (simp add: canonical_parameters_def)

lemma canonical_parameters_idem [simp]:
  "canonical_parameters (canonical_parameters d) = canonical_parameters d"
  by (simp add: canonical_parameters_def sort_key_id_if_sorted sorted_sort_key)

lemma canonical_sorted: "sorted (map td_name (canonical_tool_definitions ds))"
  by (simp add: canonical_tool_definitions_def comp_def)

lemma canonical_mset: "mset (canonical_tool_definitions ds) = mset (map canonical_parameters ds)"
  by (simp add: canonical_tool_definitions_def)

lemma canonical_stable:
  "filter (\<lambda>d. td_name d = n) (canonical_tool_definitions ds)
     = map canonical_parameters (filter (\<lambda>d. td_name d = n) ds)"
  by (simp add: canonical_tool_definitions_def filter_map comp_def sort_key_stable)

lemma canonical_idem:
  "canonical_tool_definitions (canonical_tool_definitions ds) = canonical_tool_definitions ds"
proof -
  have "sort_key td_name (canonical_tool_definitions ds) = canonical_tool_definitions ds"
    by (rule sort_key_id_if_sorted [OF canonical_sorted])
  then have "canonical_tool_definitions (canonical_tool_definitions ds)
      = map canonical_parameters (canonical_tool_definitions ds)"
    by (subst canonical_tool_definitions_def) simp
  then show ?thesis by (simp add: canonical_tool_definitions_def comp_def)
qed

text \<open>
  the canonical snapshot is deterministic. Two lists of the same definitions with
  distinct names have one snapshot. Every snapshot holds each definition once with its
  parameters sorted, is sorted by name, keeps the order of definitions of one name, and is
  its own snapshot.
\<close>

theorem canonical_tools_deterministic:
  assumes "mset ds = mset ds'" "distinct (map td_name ds)"
  shows "canonical_tool_definitions ds = canonical_tool_definitions ds'
   \<and> sorted (map td_name (canonical_tool_definitions xs))
   \<and> mset (canonical_tool_definitions xs) = mset (map canonical_parameters xs)
   \<and> filter (\<lambda>d. td_name d = n) (canonical_tool_definitions xs)
       = map canonical_parameters (filter (\<lambda>d. td_name d = n) xs)
   \<and> canonical_tool_definitions (canonical_tool_definitions xs) = canonical_tool_definitions xs"
proof -
  have "inj_on td_name (set ds)" using assms(2) by (simp add: distinct_map)
  then have "sort_key td_name ds = sort_key td_name ds'"
    using assms(1) by (intro sort_key_inj_key_eq) simp_all
  then have "canonical_tool_definitions ds = canonical_tool_definitions ds'"
    by (simp add: canonical_tool_definitions_def)
  then show ?thesis
    by (simp only: canonical_sorted canonical_mset canonical_stable canonical_idem simp_thms)
qed

definition named_tool :: "string \<Rightarrow> tool_definition" where
  "named_tool n = \<lparr>td_name = n, td_description = '''', td_parameters = [],
     td_parameter_schema = [], td_parameters_closed = False\<rparr>"

lemma canonical_tools_deterministic_witness:
  "canonical_tool_definitions [named_tool ''b'', named_tool ''a'']
     = canonical_tool_definitions [named_tool ''a'', named_tool ''b'']"
  using canonical_tools_deterministic
    [of "[named_tool ''b'', named_tool ''a'']" "[named_tool ''a'', named_tool ''b'']"]
  by (simp add: named_tool_def add_mset_commute)

end
