(* ===== verification/Fifo.thy ===== *)
theory Fifo
  imports Prelude
begin

text \<open>
  The interface of a bounded first-in first-out queue. The typed message buffers of the
  loop, the command lane of the audio stages and the audio frame buffer all promise it, and
  the facts about a whole run of puts and gets are proved here once, from the laws of one
  put and one get. A put that returns \<^verbatim>\<open>None\<close> was refused (the queue is full or the
  implementation sheds the value); a get that returns \<^verbatim>\<open>None\<close> found nothing.
\<close>

datatype 'a queue_op = Put 'a | Get

text \<open>
  A run of a queue: the values accepted in order, the values delivered in order, and the
  queue after the run.
\<close>

fun run_queue ::
    "('a \<Rightarrow> 'q \<Rightarrow> 'q option) \<Rightarrow> ('q \<Rightarrow> ('a \<times> 'q) option) \<Rightarrow> 'a queue_op list \<Rightarrow> 'q
     \<Rightarrow> 'a list \<times> 'a list \<times> 'q" where
  "run_queue put get [] q = ([], [], q)"
| "run_queue put get (Put x # ops) q =
     (case put x q of
        None \<Rightarrow> run_queue put get ops q
      | Some q' \<Rightarrow> (case run_queue put get ops q' of (acc, out, r) \<Rightarrow> (x # acc, out, r)))"
| "run_queue put get (Get # ops) q =
     (case get q of
        None \<Rightarrow> run_queue put get ops q
      | Some (x, q') \<Rightarrow> (case run_queue put get ops q' of (acc, out, r) \<Rightarrow> (acc, x # out, r)))"

lemma queue_ops_induct [case_names Nil Put Get]:
  assumes "P []" "\<And>x ops. P ops \<Longrightarrow> P (Put x # ops)" "\<And>ops. P ops \<Longrightarrow> P (Get # ops)"
  shows "P ops"
proof (induction ops)
  case (Cons op ops)
  then show ?case by (cases op) (simp_all add: assms)
qed (rule assms)

locale bounded_fifo =
  fixes put :: "'a \<Rightarrow> 'q \<Rightarrow> 'q option"
    and get :: "'q \<Rightarrow> ('a \<times> 'q) option"
    and contents :: "'q \<Rightarrow> 'a list"
    and limit :: "'q \<Rightarrow> nat"
    and invar :: "'q \<Rightarrow> bool"
  assumes put_contents: "invar q \<Longrightarrow> put x q = Some q' \<Longrightarrow> contents q' = contents q @ [x]"
    and put_limit: "invar q \<Longrightarrow> put x q = Some q' \<Longrightarrow> limit q' = limit q"
    and put_room: "invar q \<Longrightarrow> put x q = Some q' \<Longrightarrow> length (contents q) < limit q"
    and put_invar: "invar q \<Longrightarrow> put x q = Some q' \<Longrightarrow> invar q'"
    and get_contents: "invar q \<Longrightarrow> get q = Some (x, q') \<Longrightarrow> contents q = x # contents q'"
    and get_limit: "invar q \<Longrightarrow> get q = Some (x, q') \<Longrightarrow> limit q' = limit q"
    and get_empty: "invar q \<Longrightarrow> get q = None \<longleftrightarrow> contents q = []"
    and get_invar: "invar q \<Longrightarrow> get q = Some (x, q') \<Longrightarrow> invar q'"
begin

lemma run_conserves:
  "run_queue put get ops q = (acc, out, r) \<Longrightarrow> invar q \<Longrightarrow> contents q @ acc = out @ contents r \<and> invar r"
proof (induction ops arbitrary: q acc out r rule: queue_ops_induct)
  case (Put x ops)
  show ?case
  proof (cases "put x q")
    case (Some q')
    then show ?thesis
      using Put.IH [of q'] Put.prems put_contents [OF Put.prems(2) Some] put_invar [OF Put.prems(2) Some]
      by (auto split: prod.splits)
  qed (use Put.IH [of q] Put.prems in simp)
next
  case (Get ops)
  show ?case
  proof (cases "get q")
    case (Some p)
    then have "get q = Some (fst p, snd p)" by simp
    note step = get_contents [OF Get.prems(2) this] get_invar [OF Get.prems(2) this]
    show ?thesis
      using Get.IH [of "snd p"] Get.prems step Some by (auto split: prod.splits)
  qed (use Get.IH [of q] Get.prems in simp)
qed simp

lemma put_bounded:
  assumes "invar q" "put x q = Some q'"
  shows "length (contents q') \<le> limit q'"
  using put_room [OF assms] put_contents [OF assms] put_limit [OF assms] by simp

lemma run_bounded:
  "run_queue put get ops q = (acc, out, r) \<Longrightarrow> invar q \<Longrightarrow> length (contents q) \<le> limit q \<Longrightarrow>
   length (contents r) \<le> limit r \<and> limit r = limit q"
proof (induction ops arbitrary: q acc out r rule: queue_ops_induct)
  case (Put x ops)
  show ?case
  proof (cases "put x q")
    case (Some q')
    then show ?thesis
      using Put.IH [of q'] Put.prems put_bounded [OF Put.prems(2) Some]
        put_limit [OF Put.prems(2) Some] put_invar [OF Put.prems(2) Some]
      by (auto split: prod.splits)
  qed (use Put.IH [of q] Put.prems in simp)
next
  case (Get ops)
  show ?case
  proof (cases "get q")
    case (Some p)
    then have "get q = Some (fst p, snd p)" by simp
    note step = get_contents [OF Get.prems(2) this] get_invar [OF Get.prems(2) this]
      get_limit [OF Get.prems(2) this]
    show ?thesis
      using Get.IH [of "snd p"] Get.prems step Some by (auto split: prod.splits)
  qed (use Get.IH [of q] Get.prems in simp)
qed simp

lemma delivered_is_prefix:
  assumes "run_queue put get ops q = (acc, out, r)" "invar q" "contents q = []"
  shows "\<exists>rest. acc = out @ rest"
  using run_conserves [OF assms(1,2)] assms(3) by auto

end

text \<open>
  A queue that refuses a value only when it is full. The audio frame buffer is a
  \<^verbatim>\<open>bounded_fifo\<close> only: it also refuses stale and oversized frames.
\<close>

locale fifo_queue =
  fixes put :: "'a \<Rightarrow> 'q \<Rightarrow> 'q option"
    and get :: "'q \<Rightarrow> ('a \<times> 'q) option"
    and contents :: "'q \<Rightarrow> 'a list"
    and limit :: "'q \<Rightarrow> nat"
  assumes put_contents: "put x q = Some q' \<Longrightarrow> contents q' = contents q @ [x]"
    and put_limit: "put x q = Some q' \<Longrightarrow> limit q' = limit q"
    and put_accepts: "put x q \<noteq> None \<longleftrightarrow> length (contents q) < limit q"
    and get_contents: "get q = Some (x, q') \<Longrightarrow> contents q = x # contents q'"
    and get_limit: "get q = Some (x, q') \<Longrightarrow> limit q' = limit q"
    and get_empty: "get q = None \<longleftrightarrow> contents q = []"

sublocale fifo_queue \<subseteq> bounded: bounded_fifo put get contents limit "\<lambda>q. True"
proof
  fix x q q'
  assume "put x q = Some q'"
  then show "contents q' = contents q @ [x]" "limit q' = limit q"
    by (rule put_contents, rule put_limit)
next
  fix x q q'
  assume "put x q = Some q'"
  then have "put x q \<noteq> None" by simp
  then show "length (contents q) < limit q" by (simp only: put_accepts)
qed (simp_all add: get_contents get_limit get_empty)

end
