(* ===== verification/Typed_Buffer.thy ===== *)
theory Typed_Buffer
  imports Messages Fifo
begin

text \<open>
  The participant buffers of \<^verbatim>\<open>messages/buffers.go\<close>. A buffer is the contents of its Go
  channel, its capacity, the cumulative count of buffer-full drops and the values the
  \<^verbatim>\<open>OnDrop\<close> callback was given.

  A Go \<^verbatim>\<open>select\<close> is one atomic step. Where several of its cases are ready Go picks one at
  random, so the operations take the pick as an argument: the theorems hold for every
  pick. A context is sampled at each \<^verbatim>\<open>select\<close>. A wait that is not over yet is \<^verbatim>\<open>None\<close>;
  the functions with a schedule run the wait against what the other goroutines do.
\<close>

section \<open>The buffer and its non-blocking operations\<close>

datatype write_status =
    WriteSucceeded | WriteCancelled | WriteTimedOut | WriteBufferFull | WriteStopped

record write_outcome =
  wo_status :: write_status
  wo_err :: "go_error option"

definition outcome_ok :: "write_outcome \<Rightarrow> bool" where
  "outcome_ok out \<longleftrightarrow> wo_status out = WriteSucceeded"

definition plain_outcome :: "write_status \<Rightarrow> write_outcome" where
  "plain_outcome s = \<lparr>wo_status = s, wo_err = None\<rparr>"

record 'a typed_buffer =
  tbuf_queue :: "'a list"
  tbuf_cap :: nat
  tbuf_drops :: nat
  tbuf_dropped :: "'a list"

definition new_typed_buffer :: "int \<Rightarrow> 'a typed_buffer" where
  "new_typed_buffer capacity =
     \<lparr>tbuf_queue = [], tbuf_cap = (if capacity \<le> 0 then 64 else nat capacity),
      tbuf_drops = 0, tbuf_dropped = []\<rparr>"

definition buffer_write_context_outcome :: "go_error \<Rightarrow> write_outcome" where
  "buffer_write_context_outcome err =
     (if err = CtxDeadlineExceeded
      then \<lparr>wo_status = WriteTimedOut, wo_err = Some err\<rparr>
      else \<lparr>wo_status = WriteCancelled, wo_err = Some err\<rparr>)"

text \<open>The send case \<^verbatim>\<open>b.ch <- data\<close>: ready exactly when the channel has room.\<close>

definition chan_send :: "'a \<Rightarrow> 'a typed_buffer \<Rightarrow> 'a typed_buffer option" where
  "chan_send x b =
     (if length (tbuf_queue b) < tbuf_cap b
      then Some (b\<lparr>tbuf_queue := tbuf_queue b @ [x]\<rparr>) else None)"

text \<open>The receive case, and \<^verbatim>\<open>Read\<close>, which polls it.\<close>

definition read_buffer :: "'a typed_buffer \<Rightarrow> ('a \<times> 'a typed_buffer) option" where
  "read_buffer b =
     (case tbuf_queue b of [] \<Rightarrow> None | x # xs \<Rightarrow> Some (x, b\<lparr>tbuf_queue := xs\<rparr>))"

definition drop_value :: "'a \<Rightarrow> 'a typed_buffer \<Rightarrow> write_outcome \<times> 'a typed_buffer" where
  "drop_value x b =
     (plain_outcome WriteBufferFull,
      b\<lparr>tbuf_drops := Suc (tbuf_drops b), tbuf_dropped := tbuf_dropped b @ [x]\<rparr>)"

definition shed :: "'a \<Rightarrow> 'a typed_buffer \<Rightarrow> write_outcome \<times> 'a typed_buffer" where
  "shed x b = drop_value x b"

definition try_write :: "'a \<Rightarrow> 'a typed_buffer \<Rightarrow> write_outcome \<times> 'a typed_buffer" where
  "try_write x b =
     (case chan_send x b of
        Some b' \<Rightarrow> (plain_outcome WriteSucceeded, b')
      | None \<Rightarrow> drop_value x b)"

text \<open>
  \<^verbatim>\<open>WriteContext\<close> looks at the context first (\<^verbatim>\<open>c1\<close>) and again in the second
  \<^verbatim>\<open>select\<close> (\<^verbatim>\<open>c2\<close>); \<^verbatim>\<open>send_first\<close> is Go's pick when both cases are ready.
\<close>

definition write_context ::
    "ctx_state \<Rightarrow> ctx_state \<Rightarrow> bool \<Rightarrow> 'a \<Rightarrow> 'a typed_buffer
     \<Rightarrow> write_outcome \<times> 'a typed_buffer" where
  "write_context c1 c2 send_first x b =
     (case c1 of
        CtxDone e \<Rightarrow> (buffer_write_context_outcome e, b)
      | CtxLive \<Rightarrow>
          (case (chan_send x b, c2) of
             (Some b', CtxLive) \<Rightarrow> (plain_outcome WriteSucceeded, b')
           | (Some b', CtxDone e) \<Rightarrow>
               if send_first then (plain_outcome WriteSucceeded, b')
               else (buffer_write_context_outcome e, b)
           | (None, CtxDone e) \<Rightarrow> (buffer_write_context_outcome e, b)
           | (None, CtxLive) \<Rightarrow> drop_value x b))"

definition write_bool ::
    "ctx_state \<Rightarrow> ctx_state \<Rightarrow> bool \<Rightarrow> 'a \<Rightarrow> 'a typed_buffer \<Rightarrow> bool \<times> 'a typed_buffer" where
  "write_bool c1 c2 send_first x b =
     (case write_context c1 c2 send_first x b of (out, b') \<Rightarrow> (outcome_ok out, b'))"

definition has_data :: "'a typed_buffer \<Rightarrow> bool" where
  "has_data b \<longleftrightarrow> length (tbuf_queue b) > 0"

definition buffer_len :: "'a typed_buffer \<Rightarrow> nat" where
  "buffer_len b = length (tbuf_queue b)"

section \<open>Waiting writes and reads\<close>

datatype select_case = SendCase | DoneCase | CtxCase

text \<open>
  One evaluation of the \<^verbatim>\<open>select\<close> of \<^verbatim>\<open>WriteWaitContextOrDone\<close>. \<^verbatim>\<open>ctx\<close> is
  \<^verbatim>\<open>None\<close> for a nil context and \<^verbatim>\<open>is_done\<close> is \<^verbatim>\<open>None\<close> for a nil done channel.
  \<^verbatim>\<open>None\<close> as the result means no case is ready.
\<close>

definition wait_select ::
    "select_case \<Rightarrow> ctx_state option \<Rightarrow> bool option \<Rightarrow> 'a \<Rightarrow> 'a typed_buffer
     \<Rightarrow> (write_outcome \<times> 'a typed_buffer) option" where
  "wait_select pick ctx is_done x b =
     (let sends = (case chan_send x b of Some b' \<Rightarrow> Some (plain_outcome WriteSucceeded, b')
                   | None \<Rightarrow> None);
          stops = (if is_done = Some True then Some (plain_outcome WriteStopped, b) else None);
          cancels = (case ctx of Some (CtxDone e) \<Rightarrow> Some (buffer_write_context_outcome e, b)
                     | _ \<Rightarrow> None);
          chosen = (case pick of SendCase \<Rightarrow> sends | DoneCase \<Rightarrow> stops | CtxCase \<Rightarrow> cancels)
      in (case chosen of Some r \<Rightarrow> Some r
          | None \<Rightarrow> (case sends of Some r \<Rightarrow> Some r
              | None \<Rightarrow> (case stops of Some r \<Rightarrow> Some r | None \<Rightarrow> cancels))))"

text \<open>
  What happens between two looks of a waiting write: another goroutine reads or writes the
  channel, the consumer's done channel is closed, or the context ends.
\<close>

datatype 'a wait_event = OtherRead | OtherWrite 'a | DoneClosed | CtxEnds go_error

fun apply_event ::
    "'a wait_event \<Rightarrow> ctx_state option \<times> bool option \<times> 'a typed_buffer
     \<Rightarrow> ctx_state option \<times> bool option \<times> 'a typed_buffer" where
  "apply_event OtherRead (c, d, b) =
     (c, d, case read_buffer b of None \<Rightarrow> b | Some (_, b') \<Rightarrow> b')"
| "apply_event (OtherWrite y) (c, d, b) = (c, d, snd (try_write y b))"
| "apply_event DoneClosed (c, d, b) = (c, map_option (\<lambda>_. True) d, b)"
| "apply_event (CtxEnds e) (c, d, b) =
     ((case c of Some CtxLive \<Rightarrow> Some (CtxDone e) | _ \<Rightarrow> c), d, b)"

fun write_wait ::
    "select_case \<Rightarrow> 'a wait_event list \<Rightarrow> ctx_state option \<Rightarrow> bool option \<Rightarrow> 'a \<Rightarrow> 'a typed_buffer
     \<Rightarrow> (write_outcome \<times> 'a typed_buffer) option" where
  "write_wait pick [] c d x b = wait_select pick c d x b"
| "write_wait pick (e # es) c d x b =
     (case wait_select pick c d x b of
        Some r \<Rightarrow> Some r
      | None \<Rightarrow> (case apply_event e (c, d, b) of (c', d', b') \<Rightarrow> write_wait pick es c' d' x b'))"

text \<open>\<^verbatim>\<open>WriteStreamDelta\<close> and \<^verbatim>\<open>WriteKernelDelta\<close>: wait for a delta that must be delivered.\<close>

definition write_stream_delta ::
    "select_case \<Rightarrow> stream_message wait_event list \<Rightarrow> ctx_state \<Rightarrow> stream_message
     \<Rightarrow> stream_message typed_buffer \<Rightarrow> (write_outcome \<times> stream_message typed_buffer) option" where
  "write_stream_delta pick es c msg b =
     (if must_deliver msg then write_wait pick es (Some c) None msg b
      else Some (write_context c c (pick = SendCase) msg b))"

definition write_kernel_delta ::
    "select_case \<Rightarrow> kernel_delta_request wait_event list \<Rightarrow> ctx_state \<Rightarrow> kernel_delta_request
     \<Rightarrow> kernel_delta_request typed_buffer
     \<Rightarrow> (write_outcome \<times> kernel_delta_request typed_buffer) option" where
  "write_kernel_delta pick es c req b =
     (if must_deliver (kd_delta req) then write_wait pick es (Some c) None req b
      else Some (write_context c c (pick = SendCase) req b))"

text \<open>
  \<^verbatim>\<open>ReadContext\<close>: one evaluation of its \<^verbatim>\<open>select\<close>. \<^verbatim>\<open>None\<close> means it still waits;
  \<^verbatim>\<open>read_first\<close> is Go's pick when both cases are ready.
\<close>

definition read_context ::
    "bool \<Rightarrow> ctx_state \<Rightarrow> 'a typed_buffer \<Rightarrow> ('a result \<times> 'a typed_buffer) option" where
  "read_context read_first c b =
     (case (read_buffer b, c) of
        (Some (x, b'), CtxLive) \<Rightarrow> Some (Inr x, b')
      | (Some (x, b'), CtxDone e) \<Rightarrow> if read_first then Some (Inr x, b') else Some (Inl e, b)
      | (None, CtxDone e) \<Rightarrow> Some (Inl e, b)
      | (None, CtxLive) \<Rightarrow> None)"

section \<open>Terminal writes\<close>

text \<open>
  \<^verbatim>\<open>WriteTerminal\<close> alternates a send attempt and an eviction. The list \<^verbatim>\<open>races\<close> holds,
  for each round, what other goroutines do between the failed send and the eviction, and
  between the eviction and the next send; when it is used up nobody else touches the
  channel. \<^verbatim>\<open>False\<close> is the answer for a nil buffer.
\<close>

definition evict_oldest :: "'a typed_buffer \<Rightarrow> 'a typed_buffer" where
  "evict_oldest b =
     (case tbuf_queue b of
        [] \<Rightarrow> b
      | y # ys \<Rightarrow> b\<lparr>tbuf_queue := ys, tbuf_drops := Suc (tbuf_drops b),
                    tbuf_dropped := tbuf_dropped b @ [y]\<rparr>)"

definition race :: "'a wait_event list \<Rightarrow> 'a typed_buffer \<Rightarrow> 'a typed_buffer" where
  "race es b = snd (snd (fold apply_event es (None, None, b)))"

fun write_terminal_loop ::
    "'a \<Rightarrow> ('a wait_event list \<times> 'a wait_event list) list \<Rightarrow> 'a typed_buffer
     \<Rightarrow> bool \<times> 'a typed_buffer" where
  "write_terminal_loop x [] b =
     (case chan_send x b of
        Some b' \<Rightarrow> (True, b')
      | None \<Rightarrow>
          (case chan_send x (evict_oldest b) of Some b' \<Rightarrow> (True, b') | None \<Rightarrow> (False, b)))"
| "write_terminal_loop x ((r1, r2) # rs) b =
     (case chan_send x b of
        Some b' \<Rightarrow> (True, b')
      | None \<Rightarrow> write_terminal_loop x rs (race r2 (evict_oldest (race r1 b))))"

definition write_terminal ::
    "'a \<Rightarrow> ('a wait_event list \<times> 'a wait_event list) list \<Rightarrow> 'a typed_buffer option
     \<Rightarrow> bool \<times> 'a typed_buffer option" where
  "write_terminal x races buf =
     (case buf of None \<Rightarrow> (False, None)
      | Some b \<Rightarrow> (case write_terminal_loop x races b of (ok, b') \<Rightarrow> (ok, Some b')))"

section \<open>Facts about one operation\<close>

named_theorems buffer_simps \<open>the buffer operations, unfolded\<close>

declare chan_send_def [buffer_simps] drop_value_def [buffer_simps] try_write_def [buffer_simps]
  plain_outcome_def [buffer_simps] outcome_ok_def [buffer_simps]
  buffer_write_context_outcome_def [buffer_simps]

definition buffer_ok :: "'a typed_buffer \<Rightarrow> bool" where
  "buffer_ok b \<longleftrightarrow> 0 < tbuf_cap b \<and> length (tbuf_queue b) \<le> tbuf_cap b
     \<and> length (tbuf_dropped b) = tbuf_drops b"

lemma new_buffer_ok: "buffer_ok (new_typed_buffer capacity)"
  by (simp add: buffer_ok_def new_typed_buffer_def)

text \<open>
  The history order of buffers: the second buffer is reachable from the first by the
  buffer's own operations, so its capacity is the same and its drop record only grew.
\<close>

definition drops_grew :: "'a typed_buffer \<Rightarrow> 'a typed_buffer \<Rightarrow> bool" where
  "drops_grew b b' \<longleftrightarrow> tbuf_cap b' = tbuf_cap b \<and>
     (\<exists>new. tbuf_dropped b' = tbuf_dropped b @ new \<and> tbuf_drops b' = tbuf_drops b + length new)"

lemma drops_grew_refl [simp]: "drops_grew b b"
  by (simp add: drops_grew_def)

lemma drops_grew_trans: "drops_grew a b \<Longrightarrow> drops_grew b c \<Longrightarrow> drops_grew a c"
  by (auto simp: drops_grew_def)

lemma chan_send_ok:
  "chan_send x b = Some b' \<Longrightarrow> buffer_ok b \<Longrightarrow> buffer_ok b' \<and> drops_grew b b'"
  by (auto simp: buffer_simps buffer_ok_def drops_grew_def split: if_splits)

lemma read_buffer_ok:
  "read_buffer b = Some (x, b') \<Longrightarrow> buffer_ok b \<Longrightarrow> buffer_ok b' \<and> drops_grew b b'"
  by (auto simp: read_buffer_def buffer_ok_def drops_grew_def split: list.splits)

lemma drop_value_ok: "buffer_ok b \<Longrightarrow> buffer_ok (snd (drop_value x b)) \<and> drops_grew b (snd (drop_value x b))"
  by (simp add: buffer_simps buffer_ok_def drops_grew_def)

lemma try_write_ok:
  "buffer_ok b \<Longrightarrow> buffer_ok (snd (try_write x b)) \<and> drops_grew b (snd (try_write x b))"
  by (auto simp: try_write_def drop_value_ok dest: chan_send_ok split: option.splits)

lemma write_context_ok:
  assumes "buffer_ok b"
  shows "buffer_ok (snd (write_context c1 c2 pick x b))
       \<and> drops_grew b (snd (write_context c1 c2 pick x b))"
  using assms drop_value_ok [OF assms, of x] chan_send_ok [of x b]
  by (auto simp: write_context_def split: ctx_state.splits option.splits)

lemma evict_oldest_ok: "buffer_ok b \<Longrightarrow> buffer_ok (evict_oldest b) \<and> drops_grew b (evict_oldest b)"
  by (auto simp: evict_oldest_def buffer_ok_def drops_grew_def split: list.splits)

lemma apply_event_ok:
  assumes "apply_event e (c, d, b) = (c', d', b')" "buffer_ok b"
  shows "buffer_ok b' \<and> drops_grew b b'"
proof (cases e)
  case OtherRead
  then show ?thesis
    using assms read_buffer_ok [of b] by (cases "read_buffer b") auto
next
  case (OtherWrite y)
  then show ?thesis using assms try_write_ok [of b y] by auto
qed (use assms in auto)

lemma race_ok: "buffer_ok b \<Longrightarrow> buffer_ok (race es b) \<and> drops_grew b (race es b)"
proof -
  have "buffer_ok b \<Longrightarrow>
        buffer_ok (snd (snd (fold apply_event es (c, d, b)))) \<and>
        drops_grew b (snd (snd (fold apply_event es (c, d, b))))" for c d
  proof (induction es arbitrary: c d b)
    case (Cons e es)
    obtain c' d' b' where step: "apply_event e (c, d, b) = (c', d', b')"
      by (cases "apply_event e (c, d, b)") auto
    show ?case
      using Cons.IH [of b' c' d'] apply_event_ok [OF step] Cons.prems drops_grew_trans
      by (auto simp: step)
  qed simp
  then show "buffer_ok b \<Longrightarrow> ?thesis" by (simp add: race_def)
qed

section \<open>A buffer is a bounded queue\<close>

interpretation tbq: fifo_queue chan_send read_buffer tbuf_queue tbuf_cap
  by unfold_locales (auto simp: chan_send_def read_buffer_def split: if_splits list.splits)

section \<open>Waiting and terminal writes\<close>

lemma wait_select_live:
  "wait_select pick (Some CtxLive) None x b =
     (case chan_send x b of Some b' \<Rightarrow> Some (plain_outcome WriteSucceeded, b') | None \<Rightarrow> None)"
  by (cases pick) (simp_all add: wait_select_def split: option.splits)

lemma wait_select_no_drop:
  "wait_select pick c d x b = Some (out, b') \<Longrightarrow>
   wo_status out \<noteq> WriteBufferFull \<and> tbuf_drops b' = tbuf_drops b \<and>
   (outcome_ok out \<longrightarrow> tbuf_queue b' = tbuf_queue b @ [x])"
  by (cases pick)
     (auto simp: wait_select_def Let_def buffer_simps split: option.splits if_splits ctx_state.splits)

lemma evict_makes_room:
  assumes "buffer_ok b" "chan_send x b = None"
  shows "\<exists>b'. chan_send x (evict_oldest b) = Some b'"
  using assms
  by (cases "tbuf_queue b") (auto simp: chan_send_def buffer_ok_def evict_oldest_def split: if_splits)

lemma chan_send_last:
  "chan_send x b = Some b' \<Longrightarrow> tbuf_queue b' = tbuf_queue b @ [x]"
  by (auto simp: chan_send_def split: if_splits)

lemma write_terminal_loop_lands:
  assumes "buffer_ok b"
  shows "\<exists>b' before. write_terminal_loop x races b = (True, b') \<and> tbuf_queue b' = before @ [x]
           \<and> buffer_ok b' \<and> drops_grew b b'"
  using assms
proof (induction x races b rule: write_terminal_loop.induct)
  case (1 x b)
  show ?case
  proof (cases "chan_send x b")
    case (Some b')
    then show ?thesis using chan_send_ok [OF Some 1] chan_send_last [OF Some] by simp
  next
    case None
    then obtain b' where sent: "chan_send x (evict_oldest b) = Some b'"
      using evict_makes_room [OF 1] by blast
    have "buffer_ok b' \<and> drops_grew b b'"
      using chan_send_ok [OF sent] evict_oldest_ok [OF 1]
        drops_grew_trans [of b "evict_oldest b" b'] by simp
    then show ?thesis using None sent chan_send_last [OF sent] by simp
  qed
next
  case (2 x r1 r2 rs b)
  show ?case
  proof (cases "chan_send x b")
    case (Some b')
    then show ?thesis using chan_send_ok [OF Some 2(2)] chan_send_last [OF Some] by simp
  next
    case None
    let ?b = "race r2 (evict_oldest (race r1 b))"
    have ok: "buffer_ok ?b" and grew: "drops_grew b ?b"
      using race_ok [OF 2(2), of r1] evict_oldest_ok [of "race r1 b"]
        race_ok [of "evict_oldest (race r1 b)" r2]
      by (auto intro: drops_grew_trans)
    obtain b' before where "write_terminal_loop x rs ?b = (True, b')"
      "tbuf_queue b' = before @ [x]" "buffer_ok b'" "drops_grew ?b b'"
      using 2(1) [OF None ok] by blast
    then show ?thesis using drops_grew_trans [OF grew] None by simp
  qed
qed

lemma wait_select_status:
  "wait_select pick c None x b = Some (out, b') \<Longrightarrow>
   wo_status out \<in> {WriteSucceeded, WriteCancelled, WriteTimedOut}"
  by (cases pick)
     (auto simp: wait_select_def Let_def buffer_simps split: option.splits if_splits ctx_state.splits)

lemma write_wait_after_read:
  assumes "buffer_ok b"
  shows "\<exists>b'. write_wait pick (OtherRead # es) (Some CtxLive) None x b
              = Some (plain_outcome WriteSucceeded, b')"
proof (cases "chan_send x b")
  case None
  then obtain y ys where "tbuf_queue b = y # ys"
    using assms by (cases "tbuf_queue b") (auto simp: chan_send_def buffer_ok_def)
  then have "\<exists>b1. read_buffer b = Some (y, b1) \<and> chan_send x b1 \<noteq> None"
    using assms by (auto simp: read_buffer_def chan_send_def buffer_ok_def)
  then obtain b1 b2 where "read_buffer b = Some (y, b1)" "chan_send x b1 = Some b2"
    by auto
  then show ?thesis using None by (cases es) (simp_all add: wait_select_live)
qed (simp add: wait_select_live)

lemma write_wait_status:
  "write_wait pick es c None x b = Some (out, b') \<Longrightarrow>
   outcome_ok out \<and> (\<exists>before. tbuf_queue b' = before @ [x])
   \<or> wo_status out \<in> {WriteCancelled, WriteTimedOut}"
proof (induction es arbitrary: c b)
  case Nil
  then show ?case
    using wait_select_no_drop wait_select_status by (fastforce simp: outcome_ok_def)
next
  case (Cons e es)
  show ?case
  proof (cases "wait_select pick c None x b")
    case None
    obtain c' b1 where "apply_event e (c, None, b) = (c', None, b1)"
      by (cases e) auto
    then show ?thesis using Cons None by simp
  next
    case (Some r)
    then show ?thesis
      using Cons.prems wait_select_no_drop [of pick c None x b out b']
        wait_select_status [of pick c x b out b']
      by (auto simp: outcome_ok_def)
  qed
qed

section \<open>Runs of the buffer's operations\<close>

text \<open>
  What a run of the package's operations does to the values: one was accepted into the channel,
  refused because the channel was full, read out of it, or evicted from it by a terminal write. The
  first three are told by the outcome the operation returned, the evictions by the drop record. A
  terminal write that others interrupt is the sequence of its two selects.
\<close>

datatype 'a buffer_op =
    CallTryWrite 'a
  | CallWriteContext ctx_state ctx_state bool 'a
  | CallWait select_case "ctx_state option" "bool option" 'a
  | CallShed 'a
  | CallTerminal 'a
  | TerminalSend 'a
  | TerminalEvict
  | CallRead
  | CallReadContext bool ctx_state

datatype 'a buffer_event = Accepted 'a | Refused 'a | Taken 'a | Evicted 'a

definition write_events :: "'a \<Rightarrow> write_outcome \<Rightarrow> 'a buffer_event list" where
  "write_events x out =
     (case wo_status out of WriteSucceeded \<Rightarrow> [Accepted x] | WriteBufferFull \<Rightarrow> [Refused x] | _ \<Rightarrow> [])"

definition eviction_events :: "'a typed_buffer \<Rightarrow> 'a typed_buffer \<Rightarrow> 'a buffer_event list" where
  "eviction_events b b' = map Evicted (drop (length (tbuf_dropped b)) (tbuf_dropped b'))"

fun buffer_call :: "'a buffer_op \<Rightarrow> 'a typed_buffer \<Rightarrow> 'a buffer_event list \<times> 'a typed_buffer" where
  "buffer_call (CallTryWrite x) b = map_prod (write_events x) id (try_write x b)"
| "buffer_call (CallWriteContext c1 c2 first x) b =
     map_prod (write_events x) id (write_context c1 c2 first x b)"
| "buffer_call (CallWait pick c d x) b =
     (case wait_select pick c d x b of None \<Rightarrow> ([], b) | Some r \<Rightarrow> map_prod (write_events x) id r)"
| "buffer_call (CallShed x) b = map_prod (write_events x) id (shed x b)"
| "buffer_call (CallTerminal x) b =
     (case write_terminal x [] (Some b) of
        (ok, Some b') \<Rightarrow> (eviction_events b b' @ (if ok then [Accepted x] else []), b')
      | (_, None) \<Rightarrow> ([], b))"
| "buffer_call (TerminalSend x) b =
     (case chan_send x b of None \<Rightarrow> ([], b) | Some b' \<Rightarrow> ([Accepted x], b'))"
| "buffer_call TerminalEvict b = (eviction_events b (evict_oldest b), evict_oldest b)"
| "buffer_call CallRead b =
     (case read_buffer b of None \<Rightarrow> ([], b) | Some (x, b') \<Rightarrow> ([Taken x], b'))"
| "buffer_call (CallReadContext first c) b =
     (case read_context first c b of Some (Inr x, b') \<Rightarrow> ([Taken x], b') | _ \<Rightarrow> ([], b))"

fun buffer_calls ::
    "'a buffer_op list \<Rightarrow> 'a typed_buffer \<Rightarrow> 'a buffer_event list \<times> 'a typed_buffer" where
  "buffer_calls [] b = ([], b)"
| "buffer_calls (c # cs) b =
     (case buffer_call c b of (evs, b1) \<Rightarrow> map_prod ((@) evs) id (buffer_calls cs b1))"

definition accepted_values :: "'a buffer_event list \<Rightarrow> 'a list" where
  "accepted_values evs = concat (map (\<lambda>e. case e of Accepted x \<Rightarrow> [x] | _ \<Rightarrow> []) evs)"

definition read_values :: "'a buffer_event list \<Rightarrow> 'a list" where
  "read_values evs = concat (map (\<lambda>e. case e of Taken x \<Rightarrow> [x] | _ \<Rightarrow> []) evs)"

definition left_values :: "'a buffer_event list \<Rightarrow> 'a list" where
  "left_values evs = concat (map (\<lambda>e. case e of Taken x \<Rightarrow> [x] | Evicted x \<Rightarrow> [x] | _ \<Rightarrow> []) evs)"

definition lost_values :: "'a buffer_event list \<Rightarrow> 'a list" where
  "lost_values evs = concat (map (\<lambda>e. case e of Refused x \<Rightarrow> [x] | Evicted x \<Rightarrow> [x] | _ \<Rightarrow> []) evs)"

definition is_terminal_call :: "'a buffer_op \<Rightarrow> bool" where
  "is_terminal_call c = (case c of CallTerminal _ \<Rightarrow> True | TerminalEvict \<Rightarrow> True | _ \<Rightarrow> False)"

lemmas event_defs = accepted_values_def read_values_def left_values_def lost_values_def

text \<open>What one operation, and then a run, keeps.\<close>

definition call_accounted :: "'a typed_buffer \<Rightarrow> 'a buffer_event list \<Rightarrow> 'a typed_buffer \<Rightarrow> bool" where
  "call_accounted b evs b' \<longleftrightarrow>
     tbuf_queue b @ accepted_values evs = left_values evs @ tbuf_queue b'
     \<and> tbuf_dropped b' = tbuf_dropped b @ lost_values evs \<and> tbuf_drops b' = tbuf_drops b + length (lost_values evs)
     \<and> tbuf_cap b' = tbuf_cap b \<and> buffer_ok b'"

lemma accountedI:
  assumes "buffer_ok b" "tbuf_queue b @ accepted_values evs = left_values evs @ tbuf_queue b'"
    and "tbuf_dropped b' = tbuf_dropped b @ lost_values evs" "tbuf_drops b' = tbuf_drops b + length (lost_values evs)"
    and "tbuf_cap b' = tbuf_cap b" "length (tbuf_queue b') \<le> tbuf_cap b"
  shows "call_accounted b evs b'"
  using assms by (simp add: call_accounted_def buffer_ok_def)

lemma nothing_accounted: "buffer_ok b \<Longrightarrow> call_accounted b [] b"
  by (intro accountedI) (auto simp: event_defs buffer_ok_def)

lemma send_accounted: "buffer_ok b \<Longrightarrow> chan_send x b = Some b' \<Longrightarrow> call_accounted b [Accepted x] b'"
  by (intro accountedI) (auto simp: event_defs chan_send_def split: if_splits)

lemma refuse_accounted: "buffer_ok b \<Longrightarrow> call_accounted b [Refused x] (snd (drop_value x b))"
  by (intro accountedI) (auto simp: event_defs drop_value_def buffer_ok_def)

lemma read_accounted: "buffer_ok b \<Longrightarrow> read_buffer b = Some (x, b') \<Longrightarrow> call_accounted b [Taken x] b'"
  by (intro accountedI) (auto simp: event_defs read_buffer_def buffer_ok_def split: list.splits)

lemma evict_accounted: "buffer_ok b \<Longrightarrow> call_accounted b (eviction_events b (evict_oldest b)) (evict_oldest b)"
  by (intro accountedI)
    (auto simp: event_defs eviction_events_def evict_oldest_def buffer_ok_def split: list.splits)

lemma accounted_append:
  "call_accounted b evs b1 \<Longrightarrow> call_accounted b1 evs' b2 \<Longrightarrow> call_accounted b (evs @ evs') b2"
proof -
  assume one: "call_accounted b evs b1" and two: "call_accounted b1 evs' b2"
  have "tbuf_queue b @ accepted_values evs @ accepted_values evs' = left_values evs @ left_values evs' @ tbuf_queue b2"
    using one two unfolding call_accounted_def by (metis append_assoc)
  then show ?thesis using one two by (simp add: call_accounted_def event_defs)
qed

lemma write_events_simps [simp]:
  "write_events x (plain_outcome WriteSucceeded) = [Accepted x]"
  "write_events x (plain_outcome WriteBufferFull) = [Refused x]"
  "write_events x (plain_outcome WriteStopped) = []"
  "write_events x (buffer_write_context_outcome e) = []"
  by (simp_all add: write_events_def plain_outcome_def buffer_write_context_outcome_def)

lemma drop_value_outcome: "fst (drop_value x b) = plain_outcome WriteBufferFull"
  by (simp add: drop_value_def)

lemma drop_accounted:
  "buffer_ok b \<Longrightarrow> map_prod (write_events x) id (drop_value x b) = (evs, b') \<Longrightarrow> call_accounted b evs b'"
  using refuse_accounted [of b x] drop_value_outcome [of x b] by (cases "drop_value x b") auto

lemma terminal_accounted:
  assumes "buffer_ok b" "buffer_call (CallTerminal x) b = (evs, b')"
  shows "call_accounted b evs b'"
proof (cases "chan_send x b")
  case (Some b1)
  then have "evs = [Accepted x]" "b' = b1"
    using assms(2) by (auto simp: write_terminal_def eviction_events_def chan_send_def split: if_splits)
  then show ?thesis using send_accounted [OF assms(1) Some] by simp
next
  case None
  obtain b2 where sent: "chan_send x (evict_oldest b) = Some b2"
    using evict_makes_room [OF assms(1) None] by blast
  have "tbuf_dropped b2 = tbuf_dropped (evict_oldest b)" using sent by (auto simp: chan_send_def split: if_splits)
  then have "evs = eviction_events b (evict_oldest b) @ [Accepted x]" "b' = b2"
    using assms(2) None sent by (auto simp: write_terminal_def eviction_events_def)
  then show ?thesis
    using accounted_append [OF evict_accounted [OF assms(1)] send_accounted [OF _ sent]]
      evict_oldest_ok [OF assms(1)] by simp
qed

lemma buffer_call_accounted:
  assumes "buffer_ok b" "buffer_call c b = (evs, b')"
  shows "call_accounted b evs b'"
proof (cases c)
  case (CallTerminal x)
  then show ?thesis using terminal_accounted [OF assms(1)] assms(2) by simp
next
  case (CallWait pick c d x)
  then show ?thesis
    using assms nothing_accounted [OF assms(1)] send_accounted [OF assms(1)]
    by (cases pick)
      (auto simp: wait_select_def Let_def split: option.splits if_splits ctx_state.splits)
next
  case (CallWriteContext c1 c2 first x)
  then show ?thesis
    using assms nothing_accounted [OF assms(1)] send_accounted [OF assms(1)] drop_accounted [OF assms(1)]
    by (auto simp: write_context_def split: option.splits if_splits ctx_state.splits)
next
  case (CallTryWrite x)
  then show ?thesis
    using assms send_accounted [OF assms(1)] drop_accounted [OF assms(1)]
    by (auto simp: try_write_def split: option.splits)
next
  case (CallShed x)
  then show ?thesis using assms drop_accounted [OF assms(1)] by (simp add: shed_def)
next
  case (CallReadContext first c)
  then show ?thesis
    using assms nothing_accounted [OF assms(1)] read_accounted [OF assms(1)]
    by (auto simp: read_context_def split: option.splits if_splits ctx_state.splits)
qed (use assms nothing_accounted [OF assms(1)] send_accounted [OF assms(1)] read_accounted [OF assms(1)]
       evict_accounted [OF assms(1)] in \<open>auto split: option.splits\<close>)

lemma buffer_calls_accounted:
  "buffer_ok b \<Longrightarrow> buffer_calls cs b = (evs, b') \<Longrightarrow> call_accounted b evs b'"
proof (induction cs arbitrary: b evs)
  case (Cons c cs)
  obtain evs1 b1 where one: "buffer_call c b = (evs1, b1)" by fastforce
  obtain evs2 where rest: "buffer_calls cs b1 = (evs2, b')" "evs = evs1 @ evs2"
    using Cons.prems(2) one by (cases "buffer_calls cs b1") auto
  note first = buffer_call_accounted [OF Cons.prems(1) one]
  then have "call_accounted b1 evs2 b'" using Cons.IH [OF _ rest(1)] by (simp add: call_accounted_def)
  then show ?case using accounted_append [OF first] rest(2) by simp
qed (simp add: nothing_accounted)

lemma write_left: "left_values (write_events x out) = []" "read_values (write_events x out) = []"
  by (cases "wo_status out"; simp add: write_events_def event_defs)+

lemma no_eviction_call:
  assumes "buffer_call c b = (evs, b')" "\<not> is_terminal_call c"
  shows "left_values evs = read_values evs"
proof (cases c)
  case (CallWait pick d e x)
  then show ?thesis
  proof (cases "wait_select pick d e x b")
    case (Some r)
    then show ?thesis using assms(1) CallWait by (cases r) (auto simp: write_left)
  qed (use assms(1) CallWait in \<open>simp add: event_defs\<close>)
next
  case (CallTryWrite x)
  then show ?thesis using assms(1) by (cases "try_write x b") (auto simp: write_left)
next
  case (CallWriteContext c1 c2 first x)
  then show ?thesis using assms(1) by (cases "write_context c1 c2 first x b") (auto simp: write_left)
next
  case (CallShed x)
  then show ?thesis using assms(1) by (cases "shed x b") (auto simp: write_left)
qed (use assms in \<open>auto simp: is_terminal_call_def event_defs split: option.splits sum.splits\<close>)

lemma no_eviction:
  "buffer_calls cs b = (evs, b') \<Longrightarrow> list_all (\<lambda>c. \<not> is_terminal_call c) cs \<Longrightarrow>
   left_values evs = read_values evs"
proof (induction cs arbitrary: b evs)
  case (Cons c cs)
  obtain evs1 b1 where one: "buffer_call c b = (evs1, b1)" by fastforce
  obtain evs2 where rest: "buffer_calls cs b1 = (evs2, b')" "evs = evs1 @ evs2"
    using Cons.prems(1) one by (cases "buffer_calls cs b1") auto
  then have "left_values evs2 = read_values evs2" using Cons.IH Cons.prems(2) by simp
  then show ?case using no_eviction_call [OF one] Cons.prems(2) rest(2) by (simp add: event_defs)
qed (simp add: event_defs)

text \<open>
  C39: a buffer is first-in first-out and accounts for every value. Over any sequence of the
  package's writes, waits, sheds, terminal writes and reads: the values queued before followed by
  those whose write succeeded are exactly the values that left the queue, read or evicted, in order,
  followed by those still queued; the drop record and the drop count grow by exactly the values
  refused by a full buffer and those evicted, in order; the queue never exceeds its capacity; and
  without a terminal write nothing is evicted, so everything accepted is delivered in order or
  still queued.
\<close>

theorem buffer_run_fifo:
  assumes "buffer_ok b" "buffer_calls calls b = (evs, b')"
  shows "tbuf_queue b @ accepted_values evs = left_values evs @ tbuf_queue b'
    \<and> tbuf_dropped b' = tbuf_dropped b @ lost_values evs \<and> tbuf_drops b' = tbuf_drops b + length (lost_values evs)
    \<and> length (tbuf_queue b') \<le> tbuf_cap b
    \<and> (list_all (\<lambda>c. \<not> is_terminal_call c) calls \<longrightarrow>
         tbuf_queue b @ accepted_values evs = read_values evs @ tbuf_queue b')"
  using buffer_calls_accounted [OF assms] no_eviction [OF assms(2)]
  by (auto simp: call_accounted_def buffer_ok_def)

lemma buffer_run_fifo_witness:
  "\<exists>evs b'. buffer_calls [CallTryWrite 1, CallWriteContext CtxLive CtxLive True 2, CallTryWrite 3, CallRead,
       CallWait SendCase None None 4, CallTerminal 5] (new_typed_buffer 2) = (evs, b')
   \<and> evs = [Accepted 1, Accepted 2, Refused 3, Taken 1, Accepted 4, Evicted 2, Accepted (5 :: int)]
   \<and> [] @ accepted_values evs = left_values evs @ tbuf_queue b' \<and> tbuf_dropped b' = [3, 2]
   \<and> tbuf_queue b' = [4, 5]"
proof -
  let ?calls = "[CallTryWrite 1, CallWriteContext CtxLive CtxLive True 2, CallTryWrite 3, CallRead,
       CallWait SendCase None None 4, CallTerminal (5 :: int)]"
  let ?evs = "[Accepted 1, Accepted 2, Refused 3, Taken 1, Accepted 4, Evicted 2, Accepted (5 :: int)]"
  obtain b' where run: "buffer_calls ?calls (new_typed_buffer 2) = (?evs, b')" and queue: "tbuf_queue b' = [4, 5]"
    by (simp add: buffer_simps write_context_def wait_select_def read_buffer_def write_terminal_def
        evict_oldest_def eviction_events_def write_events_def new_typed_buffer_def)
  show ?thesis
    using buffer_run_fifo [OF new_buffer_ok run] run queue
    by (intro exI [of _ ?evs] exI [of _ b']) (simp add: new_typed_buffer_def event_defs)
qed

text \<open>
  A delta that must be delivered is never dropped. Whatever the other goroutines do
  while its write waits, a write that returns either made the delta the newest value of the
  queue or failed because the context ended, and never with a full buffer; and under a
  context that stays live it returns with success as soon as the consumer has read one
  value of a full buffer.
\<close>

theorem must_deliver_never_dropped:
  assumes "must_deliver msg" "buffer_ok b"
  shows "(\<forall>out b'. write_stream_delta pick es c msg b = Some (out, b') \<longrightarrow>
            (outcome_ok out \<and> (\<exists>before. tbuf_queue b' = before @ [msg]))
            \<or> wo_status out \<in> {WriteCancelled, WriteTimedOut})
       \<and> (\<exists>b'. write_stream_delta pick (OtherRead # es) CtxLive msg b
                = Some (plain_outcome WriteSucceeded, b'))"
  using write_wait_status [of pick es "Some c" msg b] write_wait_after_read [OF assms(2)] assms(1)
  by (auto simp: write_stream_delta_def)

definition text_delta_message :: "string \<Rightarrow> stream_message" where
  "text_delta_message t = mk_delta StreamTextDelta RoleAssistant (VTextDelta t)"

lemma must_deliver_never_dropped_witness:
  "\<exists>b'. write_stream_delta DoneCase [OtherRead] CtxLive (mk_delta StreamLoopEnd RoleUnset VLoopEnd)
          ((new_typed_buffer 1)\<lparr>tbuf_queue := [text_delta_message ''a'']\<rparr>)
        = Some (plain_outcome WriteSucceeded, b')"
proof -
  have "must_deliver (mk_delta StreamLoopEnd RoleUnset VLoopEnd)"
    by (simp add: must_deliver_def must_deliver_type_def mk_delta_def zero_stream_message_def)
  moreover have "buffer_ok ((new_typed_buffer 1)\<lparr>tbuf_queue := [text_delta_message ''a'']\<rparr>)"
    by (simp add: buffer_ok_def new_typed_buffer_def)
  ultimately show ?thesis using must_deliver_never_dropped by blast
qed

text \<open>
  \<^verbatim>\<open>WriteTerminal\<close> always lands. On a buffer of this package, under any finite
  interference by other readers and writers, it returns true with the terminal record the
  newest queued value; every record it evicted is in the drop record and the drop count
  grew by exactly their number.
\<close>

theorem write_terminal_lands:
  assumes "buffer_ok b"
  shows "\<exists>b' before evicted. write_terminal x races (Some b) = (True, Some b')
     \<and> tbuf_queue b' = before @ [x] \<and> length (tbuf_queue b') \<le> tbuf_cap b
     \<and> tbuf_dropped b' = tbuf_dropped b @ evicted
     \<and> tbuf_drops b' = tbuf_drops b + length evicted"
proof -
  obtain b' before where "write_terminal_loop x races b = (True, b')"
    "tbuf_queue b' = before @ [x]" "buffer_ok b'" "drops_grew b b'"
    using write_terminal_loop_lands [OF assms] by blast
  then show ?thesis
    by (auto simp: write_terminal_def drops_grew_def buffer_ok_def)
qed

lemma write_terminal_lands_witness:
  "\<exists>b' before evicted. write_terminal 3 [([OtherRead, OtherWrite 9], [OtherWrite 8])]
       (Some ((new_typed_buffer 2)\<lparr>tbuf_queue := [1::int, 2]\<rparr>)) = (True, Some b')
     \<and> tbuf_queue b' = before @ [3] \<and> length (tbuf_queue b') \<le> 2
     \<and> tbuf_dropped b' = [] @ evicted \<and> tbuf_drops b' = 0 + length evicted"
proof -
  have "buffer_ok ((new_typed_buffer 2)\<lparr>tbuf_queue := [1::int, 2]\<rparr>)"
    by (simp add: buffer_ok_def new_typed_buffer_def)
  from write_terminal_lands [OF this, of 3 "[([OtherRead, OtherWrite 9], [OtherWrite 8])]"]
  show ?thesis by (simp add: new_typed_buffer_def)
qed

end
