(* ===== verification/Loop_State.thy ===== *)
theory Loop_State
  imports Messages
begin

text \<open>
  The state of the agent loop, \<^verbatim>\<open>state/state_loop.go\<close>, \<^verbatim>\<open>state/todo_queue.go\<close> and the
  interaction values of \<^verbatim>\<open>messages/interaction_events.go\<close>.

  The output inboxes of \<^verbatim>\<open>output_buffers\<close> are the requests the loop wrote to them, in
  the order it wrote them: no subsystem looks at the outcome of such a write, so the loop
  state does not depend on what becomes of it. What a write does to a channel is in
  \<^verbatim>\<open>Typed_Buffer\<close>. Positions and counts are naturals: the code only ever subtracts what it
  has just compared. The tick observation of the audio devices (\<^verbatim>\<open>Audio\<close>), the agent's todo
  queue of one execution and the loop lifecycle label are carried by the state and read by
  no modelled operation; the queue's own operations are modelled here.
\<close>

section \<open>Interaction events\<close>

datatype interaction_event_type =
    IEStart | IETextDelta | IEFinalMessage | IEToolCallRequest | IEToolResultAccepted
  | IEUsage | IEError | IECancellation | IEEnd

record interaction_error =
  xe_code :: string
  xe_message :: string
  xe_classification :: string
  xe_retryable :: bool

record interaction_cancellation =
  xc_reason :: string
  xc_message :: string
  xc_classification :: string
  xc_output_state :: string

record interaction_event =
  ie_interaction_id :: string
  ie_sequence :: int
  ie_type :: interaction_event_type
  ie_provider :: string
  ie_model :: string
  ie_text_delta :: string
  ie_final_message :: "message option"
  ie_tool_call :: "tool_call option"
  ie_usage :: "token_usage option"
  ie_error :: "interaction_error option"
  ie_cancellation :: "interaction_cancellation option"

record interaction_state =
  is_active_id :: string
  is_provider :: string
  is_model :: string
  is_latest_sequence :: int
  is_pending_calls :: "tool_call list"
  is_final_message :: "message option"
  is_usage :: "token_usage option"
  is_terminal_error :: "interaction_error option"
  is_cancellation :: "interaction_cancellation option"
  is_completed :: bool

definition zero_interaction :: interaction_state where
  "zero_interaction = \<lparr>is_active_id = '''', is_provider = '''', is_model = '''',
     is_latest_sequence = 0, is_pending_calls = [], is_final_message = None, is_usage = None,
     is_terminal_error = None, is_cancellation = None, is_completed = False\<rparr>"

section \<open>Inputs, outputs, history\<close>

datatype execution_mode = ModeAskOnce | ModeStreaming | ModeTurnTaking | DuplexSession

datatype lifecycle = LoopCreated | LoopRunning | LoopPaused | LoopCompleted | LoopError

record 'f output_buffers =
  out_tool :: "tool_batch_request list"
  out_user :: "message list"
  out_model :: "'f inference_request list"
  out_kernel :: "kernel_delta_request list"

record input_buffers =
  in_terminate :: bool
  in_user_output :: "message list"
  in_user_delta :: "stream_message list"
  in_user_control :: "message list"
  in_tool_output :: "message list"
  in_tool_delta :: "stream_message list"
  in_tool_control :: "message list"
  in_model_output :: "message list"
  in_model_delta :: "stream_message list"
  in_model_control :: "message list"
  in_interactions :: "interaction_event list"

record history =
  h_conversation :: "message list"
  h_deltas :: "stream_message list"
  h_model_start :: nat
  h_model_count :: nat
  h_held :: "message list"
  h_tool_start :: nat
  h_tool_count :: nat
  h_next_index :: nat
  h_pass :: int

record 'f loop_state =
  ls_inputs :: input_buffers
  ls_outputs :: "'f output_buffers"
  ls_history :: history
  ls_interaction :: interaction_state
  ls_mode :: execution_mode
  ls_session_id :: string
  ls_tools :: "tool_definition list"
  ls_tools_available :: bool
  ls_lifecycle :: lifecycle
  ls_defaults :: "'f inference_defaults option"
  ls_todo :: "string list"

definition empty_inputs :: input_buffers where
  "empty_inputs = \<lparr>in_terminate = False, in_user_output = [], in_user_delta = [],
     in_user_control = [], in_tool_output = [], in_tool_delta = [], in_tool_control = [],
     in_model_output = [], in_model_delta = [], in_model_control = [], in_interactions = []\<rparr>"

definition empty_history :: history where
  "empty_history = \<lparr>h_conversation = [], h_deltas = [], h_model_start = 0, h_model_count = 0,
     h_held = [], h_tool_start = 0, h_tool_count = 0, h_next_index = 0, h_pass = 0\<rparr>"

definition empty_outputs :: "'f output_buffers" where
  "empty_outputs = \<lparr>out_tool = [], out_user = [], out_model = [], out_kernel = []\<rparr>"

text \<open>\<^verbatim>\<open>NewSharedState\<close>, with the mode and tools the constructor of the loop sets.\<close>

definition new_loop_state :: "execution_mode \<Rightarrow> tool_definition list \<Rightarrow> bool \<Rightarrow> 'f loop_state" where
  "new_loop_state mode tools available =
     \<lparr>ls_inputs = empty_inputs, ls_outputs = empty_outputs, ls_history = empty_history,
      ls_interaction = zero_interaction, ls_mode = mode, ls_session_id = '''',
      ls_tools = tools, ls_tools_available = available, ls_lifecycle = LoopCreated,
      ls_defaults = None, ls_todo = []\<rparr>"

section \<open>Writing requests\<close>

definition write_kernel :: "participant_id \<Rightarrow> stream_message \<Rightarrow> 'f loop_state \<Rightarrow> 'f loop_state" where
  "write_kernel src d ls =
     ls_outputs_update (out_kernel_update (\<lambda>xs. xs @ [\<lparr>kd_source = src, kd_delta = d\<rparr>])) ls"

definition write_full_message :: "participant_id \<Rightarrow> message \<Rightarrow> 'f loop_state \<Rightarrow> 'f loop_state" where
  "write_full_message src m ls = write_kernel src (full_message_delta src m) ls"

definition write_model_request :: "'f inference_request \<Rightarrow> 'f loop_state \<Rightarrow> 'f loop_state" where
  "write_model_request r ls = ls_outputs_update (out_model_update (\<lambda>xs. xs @ [r])) ls"

definition write_user_request :: "message \<Rightarrow> 'f loop_state \<Rightarrow> 'f loop_state" where
  "write_user_request m ls = ls_outputs_update (out_user_update (\<lambda>xs. xs @ [m])) ls"

definition write_tool_batch :: "tool_batch_request \<Rightarrow> 'f loop_state \<Rightarrow> 'f loop_state" where
  "write_tool_batch r ls = ls_outputs_update (out_tool_update (\<lambda>xs. xs @ [r])) ls"

named_theorems request_simps \<open>the request writers, unfolded\<close>

declare write_kernel_def [request_simps] write_full_message_def [request_simps]
  write_model_request_def [request_simps] write_user_request_def [request_simps]
  write_tool_batch_def [request_simps]

text \<open>The full messages recorded on the kernel stream, with their source.\<close>

definition full_messages :: "kernel_delta_request list \<Rightarrow> message list" where
  "full_messages rs =
     concat (map (\<lambda>r. case sm_value (kd_delta r) of
                        Some (VInferenceResult _ m) \<Rightarrow> [m] | _ \<Rightarrow> []) rs)"

lemma full_messages_append [simp]: "full_messages (xs @ ys) = full_messages xs @ full_messages ys"
  by (simp add: full_messages_def)

lemma full_messages_record [simp]:
  "full_messages [\<lparr>kd_source = s, kd_delta = full_message_delta s m\<rparr>] = [m]"
  by (simp add: full_messages_def full_message_delta_def)

lemma full_messages_Cons [simp]:
  "full_messages (\<lparr>kd_source = s, kd_delta = full_message_delta s m\<rparr> # rs) = m # full_messages rs"
  by (simp add: full_messages_def full_message_delta_def)

section \<open>Control plane parts\<close>

definition has_control_plane_part :: "message \<Rightarrow> bool" where
  "has_control_plane_part m = list_ex is_control_part (m_parts m)"

definition has_control :: "control_plane_type \<Rightarrow> message \<Rightarrow> bool" where
  "has_control c m = list_ex (\<lambda>p. p = ControlPlanePart c) (m_parts m)"

definition is_interrupt_message :: "message \<Rightarrow> bool" where
  "is_interrupt_message m = has_control CPInterrupt m"

definition has_interrupt_message :: "message list \<Rightarrow> bool" where
  "has_interrupt_message ms = list_ex is_interrupt_message ms"

definition is_ping_message :: "message \<Rightarrow> bool" where
  "is_ping_message m = has_control CPPing m"

text \<open>\<^verbatim>\<open>extractControlPlaneType\<close>: the first control part's type, if any.\<close>

fun first_control :: "content_part list \<Rightarrow> control_plane_type option" where
  "first_control [] = None"
| "first_control (p # ps) = (case p of ControlPlanePart c \<Rightarrow> Some c | _ \<Rightarrow> first_control ps)"

definition extract_control_plane_type :: "message \<Rightarrow> control_plane_type option" where
  "extract_control_plane_type m = first_control (m_parts m)"

section \<open>The todo queue\<close>

definition todo_enqueue :: "string \<Rightarrow> string list \<Rightarrow> string list" where
  "todo_enqueue msg q = q @ [msg]"

fun todo_dequeue :: "string list \<Rightarrow> (string \<times> string list) option" where
  "todo_dequeue [] = None"
| "todo_dequeue (m # q) = Some (m, q)"

section \<open>Held user turns\<close>

text \<open>
  \<^verbatim>\<open>PlaceHeldUserMessages\<close> of \<^verbatim>\<open>subsystems/coordinator_delta.go\<close>. Every caller in the loop
  records each message on the kernel's full-message stream.
\<close>

definition place_held_user_messages :: "'f loop_state \<Rightarrow> 'f loop_state" where
  "place_held_user_messages ls =
     (let held = h_held (ls_history ls);
          recorded = fold (write_full_message PUser) held ls
      in ls_history_update (\<lambda>h. h\<lparr>h_conversation := h_conversation h @ held, h_held := []\<rparr>) recorded)"

lemma fold_write_full_message:
  "fold (write_full_message src) ms ls =
     ls_outputs_update (out_kernel_update (\<lambda>xs. xs @ map (\<lambda>m. \<lparr>kd_source = src,
        kd_delta = full_message_delta src m\<rparr>) ms)) ls"
proof (induction ms arbitrary: ls)
  case Nil
  then show ?case by simp
next
  case (Cons m ms)
  then show ?case by (simp add: request_simps comp_def)
qed

lemma full_messages_map [simp]:
  "full_messages (map (\<lambda>m. \<lparr>kd_source = src, kd_delta = full_message_delta src m\<rparr>) ms) = ms"
  by (induction ms) (simp_all add: full_messages_def full_message_delta_def)

lemma place_held_history [simp]:
  "ls_history (place_held_user_messages ls) =
     (ls_history ls)\<lparr>h_conversation := h_conversation (ls_history ls) @ h_held (ls_history ls),
                     h_held := []\<rparr>"
  by (simp add: place_held_user_messages_def Let_def fold_write_full_message)

lemma place_held_kernel:
  "out_kernel (ls_outputs (place_held_user_messages ls)) = out_kernel (ls_outputs ls)
     @ map (\<lambda>m. \<lparr>kd_source = PUser, kd_delta = full_message_delta PUser m\<rparr>) (h_held (ls_history ls))"
  by (simp add: place_held_user_messages_def Let_def fold_write_full_message)

lemma place_held_other [simp]:
  "out_model (ls_outputs (place_held_user_messages ls)) = out_model (ls_outputs ls)"
  "out_tool (ls_outputs (place_held_user_messages ls)) = out_tool (ls_outputs ls)"
  "out_user (ls_outputs (place_held_user_messages ls)) = out_user (ls_outputs ls)"
  "ls_inputs (place_held_user_messages ls) = ls_inputs ls"
  "ls_mode (place_held_user_messages ls) = ls_mode ls"
  "ls_tools (place_held_user_messages ls) = ls_tools ls"
  "ls_defaults (place_held_user_messages ls) = ls_defaults ls"
  "ls_session_id (place_held_user_messages ls) = ls_session_id ls"
  "ls_tools_available (place_held_user_messages ls) = ls_tools_available ls"
  "ls_interaction (place_held_user_messages ls) = ls_interaction ls"
  by (simp_all add: place_held_user_messages_def Let_def fold_write_full_message)

end
