(* ===== verification/Reconstruction.thy ===== *)
theory Reconstruction
  imports Messages
begin

text \<open>
  Rebuilding full messages from stream deltas, \<^verbatim>\<open>messages/reconstruction.go\<close>: the
  assistant message of a model turn, and one message per tool result of a tool batch. The
  string builders of the source are texts that grow at the end; a chunk list is kept as
  the source keeps it and concatenated when the parts are built.
\<close>

section \<open>Binary content\<close>

record binary_accumulator =
  ba_chunks :: "byte list list"
  ba_media :: string

definition empty_accumulator :: binary_accumulator where
  "empty_accumulator = \<lparr>ba_chunks = [], ba_media = ''''\<rparr>"

definition ba_add :: "byte list \<Rightarrow> binary_accumulator \<Rightarrow> binary_accumulator" where
  "ba_add content a = a\<lparr>ba_chunks := ba_chunks a @ [content]\<rparr>"

definition ba_present :: "binary_accumulator \<Rightarrow> bool" where
  "ba_present a \<longleftrightarrow> length (ba_chunks a) > 0"

definition ba_bytes :: "binary_accumulator \<Rightarrow> byte list" where
  "ba_bytes a = concat (ba_chunks a)"

record media_state =
  md_image :: binary_accumulator
  md_audio :: binary_accumulator
  md_video :: binary_accumulator
  md_file :: binary_accumulator
  md_file_name :: string
  md_embedding :: binary_accumulator

definition empty_media :: media_state where
  "empty_media = \<lparr>md_image = empty_accumulator, md_audio = empty_accumulator,
     md_video = empty_accumulator, md_file = empty_accumulator, md_file_name = '''',
     md_embedding = empty_accumulator\<rparr>"

definition append_image_part :: "media_state \<Rightarrow> content_part list \<Rightarrow> content_part list" where
  "append_image_part m parts =
     (if ba_present (md_image m)
      then parts @ [ImagePart '''' (ba_bytes (md_image m)) (ba_media (md_image m))] else parts)"

definition append_trailing_parts :: "media_state \<Rightarrow> content_part list \<Rightarrow> content_part list" where
  "append_trailing_parts m parts =
     (let parts1 = (if ba_present (md_video m)
                    then parts @ [VideoPart '''' (ba_bytes (md_video m)) (ba_media (md_video m))]
                    else parts);
          parts2 = (if ba_present (md_file m)
                    then parts1 @ [FilePart '''' (ba_bytes (md_file m)) (md_file_name m)
                                     (ba_media (md_file m))]
                    else parts1)
      in (if ba_present (md_embedding m)
          then parts2 @ [EmbeddingPart '''' (ba_bytes (md_embedding m)) (ba_media (md_embedding m))]
          else parts2))"

section \<open>The assistant message of a model turn\<close>

record model_reconstruction =
  mr_tool_id :: string
  mr_tool_name :: string
  mr_text :: string
  mr_has_text :: bool
  mr_reasoning :: string
  mr_transcript :: string
  mr_refusal :: string
  mr_calls :: "tool_call list"
  mr_media :: media_state

definition empty_model_reconstruction :: model_reconstruction where
  "empty_model_reconstruction = \<lparr>mr_tool_id = '''', mr_tool_name = '''', mr_text = '''',
     mr_has_text = False, mr_reasoning = '''', mr_transcript = '''', mr_refusal = '''',
     mr_calls = [], mr_media = empty_media\<rparr>"

definition newline :: string where
  "newline = [CHR 0x0A]"

definition thinking_open :: string where
  "thinking_open = ''<thinking>'' @ newline"

definition thinking_close :: string where
  "thinking_close = newline @ ''</thinking>''"

definition end_tool_call ::
    "string \<Rightarrow> string \<Rightarrow> string \<Rightarrow> model_reconstruction \<Rightarrow> model_reconstruction" where
  "end_tool_call vid vname vargs st =
     (let cid = (if vid = '''' then mr_tool_id st else vid);
          name = (if vname = '''' then mr_tool_name st else vname)
      in st\<lparr>mr_calls := mr_calls st @ [\<lparr>tc_id = cid, tc_name = name, tc_arguments = vargs\<rparr>],
            mr_tool_id := '''', mr_tool_name := ''''\<rparr>)"

text \<open>\<^verbatim>\<open>applyTextual\<close>: \<^verbatim>\<open>None\<close> when the value is not one of its kinds.\<close>

definition apply_textual ::
    "stream_value option \<Rightarrow> model_reconstruction \<Rightarrow> model_reconstruction option" where
  "apply_textual value st =
     (case value of
        Some VTextStart \<Rightarrow> Some (st\<lparr>mr_has_text := True\<rparr>)
      | Some (VTextDelta t) \<Rightarrow> Some (st\<lparr>mr_has_text := True, mr_text := mr_text st @ t\<rparr>)
      | Some VReasoningStart \<Rightarrow> Some (st\<lparr>mr_reasoning := mr_reasoning st @ thinking_open\<rparr>)
      | Some (VReasoningDelta t) \<Rightarrow> Some (st\<lparr>mr_reasoning := mr_reasoning st @ t\<rparr>)
      | Some VReasoningEnd \<Rightarrow> Some (st\<lparr>mr_reasoning := mr_reasoning st @ thinking_close\<rparr>)
      | Some (VToolCallStart i n) \<Rightarrow> Some (st\<lparr>mr_tool_id := i, mr_tool_name := n\<rparr>)
      | Some (VToolCallEnd i n a) \<Rightarrow> Some (end_tool_call i n a st)
      | Some (VRefusal m) \<Rightarrow> Some (st\<lparr>mr_refusal := m\<rparr>)
      | Some (VTranscriptDelta t _) \<Rightarrow> Some (st\<lparr>mr_transcript := mr_transcript st @ t\<rparr>)
      | Some (VTranscriptEnd t _) \<Rightarrow> Some (if t \<noteq> '''' then st\<lparr>mr_transcript := t\<rparr> else st)
      | _ \<Rightarrow> None)"

definition apply_media :: "stream_value option \<Rightarrow> media_state \<Rightarrow> media_state" where
  "apply_media value m =
     (case value of
        Some (VAudioDelta b ty) \<Rightarrow>
          (let m1 = m\<lparr>md_audio := ba_add b (md_audio m)\<rparr>
           in if ty \<noteq> '''' then m1\<lparr>md_audio := (md_audio m1)\<lparr>ba_media := ty\<rparr>\<rparr> else m1)
      | Some (VImageStart ty) \<Rightarrow> m\<lparr>md_image := (md_image m)\<lparr>ba_media := ty\<rparr>\<rparr>
      | Some (VImageDelta b) \<Rightarrow> m\<lparr>md_image := ba_add b (md_image m)\<rparr>
      | Some (VVideoStart ty) \<Rightarrow> m\<lparr>md_video := (md_video m)\<lparr>ba_media := ty\<rparr>\<rparr>
      | Some (VVideoDelta b) \<Rightarrow> m\<lparr>md_video := ba_add b (md_video m)\<rparr>
      | Some (VFileStart ty n) \<Rightarrow>
          m\<lparr>md_file := (md_file m)\<lparr>ba_media := ty\<rparr>, md_file_name := n\<rparr>
      | Some (VFileDelta b) \<Rightarrow> m\<lparr>md_file := ba_add b (md_file m)\<rparr>
      | Some (VEmbeddingStart ty) \<Rightarrow> m\<lparr>md_embedding := (md_embedding m)\<lparr>ba_media := ty\<rparr>\<rparr>
      | Some (VEmbeddingDelta b) \<Rightarrow> m\<lparr>md_embedding := ba_add b (md_embedding m)\<rparr>
      | _ \<Rightarrow> m)"

definition model_parts :: "model_reconstruction \<Rightarrow> content_part list" where
  "model_parts st =
     (let p1 = (if mr_has_text st \<or> mr_text st \<noteq> '''' then [TextPart (mr_text st)] else []);
          p2 = (if mr_reasoning st \<noteq> '''' then p1 @ [ReasoningPart (mr_reasoning st)] else p1);
          p3 = (if mr_transcript st \<noteq> '''' then p2 @ [TranscriptPart (mr_transcript st)] else p2);
          audio = md_audio (mr_media st);
          p4 = (if ba_present audio
                then p3 @ [AudioPart '''' (ba_bytes audio)
                            (if ba_media audio = '''' then ''audio/pcm'' else ba_media audio)]
                else p3)
      in append_trailing_parts (mr_media st) (append_image_part (mr_media st) p4))"

definition apply_model_delta :: "stream_message \<Rightarrow> model_reconstruction \<Rightarrow> model_reconstruction" where
  "apply_model_delta d st =
     (case apply_textual (sm_value d) st of
        Some st' \<Rightarrow> st'
      | None \<Rightarrow> st\<lparr>mr_media := apply_media (sm_value d) (mr_media st)\<rparr>)"

definition reconstruct_model_message :: "stream_message list \<Rightarrow> message" where
  "reconstruct_model_message deltas =
     (let st = fold apply_model_delta deltas empty_model_reconstruction
      in zero_message\<lparr>m_role := RoleAssistant, m_refusal := mr_refusal st,
           m_tool_calls := mr_calls st, m_parts := model_parts st\<rparr>)"

section \<open>The messages of a tool batch\<close>

record tool_reconstruction =
  tl_text :: string
  tl_media :: media_state

definition empty_tool_reconstruction :: tool_reconstruction where
  "empty_tool_reconstruction = \<lparr>tl_text = '''', tl_media = empty_media\<rparr>"

record tool_batch =
  bt_per_tool :: "string \<rightharpoonup> tool_reconstruction"
  bt_order :: "string list"

definition empty_tool_batch :: tool_batch where
  "empty_tool_batch = \<lparr>bt_per_tool = Map.empty, bt_order = []\<rparr>"

definition ensure_tool :: "string \<Rightarrow> tool_batch \<Rightarrow> tool_batch" where
  "ensure_tool i b =
     (case bt_per_tool b i of
        None \<Rightarrow> b\<lparr>bt_order := bt_order b @ [i],
                  bt_per_tool := (bt_per_tool b)(i \<mapsto> empty_tool_reconstruction)\<rparr>
      | Some _ \<Rightarrow> b)"

text \<open>A store through the pointer \<^verbatim>\<open>ensure\<close> returns.\<close>

definition change_tool ::
    "string \<Rightarrow> (tool_reconstruction \<Rightarrow> tool_reconstruction) \<Rightarrow> tool_batch \<Rightarrow> tool_batch" where
  "change_tool i f b =
     (case bt_per_tool b i of None \<Rightarrow> b
      | Some st \<Rightarrow> b\<lparr>bt_per_tool := (bt_per_tool b)(i \<mapsto> f st)\<rparr>)"

definition apply_tool_content :: "stream_value option \<Rightarrow> tool_reconstruction \<Rightarrow> tool_reconstruction" where
  "apply_tool_content value st =
     (let m = tl_media st in
      (case value of
         Some (VTextDelta t) \<Rightarrow> st\<lparr>tl_text := tl_text st @ t\<rparr>
       | Some (VImageDelta b) \<Rightarrow> st\<lparr>tl_media := m\<lparr>md_image := ba_add b (md_image m)\<rparr>\<rparr>
       | Some (VAudioDelta b _) \<Rightarrow> st\<lparr>tl_media := m\<lparr>md_audio := ba_add b (md_audio m)\<rparr>\<rparr>
       | Some (VVideoDelta b) \<Rightarrow> st\<lparr>tl_media := m\<lparr>md_video := ba_add b (md_video m)\<rparr>\<rparr>
       | Some (VFileDelta b) \<Rightarrow> st\<lparr>tl_media := m\<lparr>md_file := ba_add b (md_file m)\<rparr>\<rparr>
       | Some (VEmbeddingDelta b) \<Rightarrow> st\<lparr>tl_media := m\<lparr>md_embedding := ba_add b (md_embedding m)\<rparr>\<rparr>
       | _ \<Rightarrow> st))"

text \<open>
  What a content start stores into the state of its tool; \<^verbatim>\<open>None\<close> when the value
  starts no content. TEXT.START only creates the state.
\<close>

definition start_tool_content :: "stream_value option \<Rightarrow> (media_state \<Rightarrow> media_state) option" where
  "start_tool_content value =
     (case value of
        Some VTextStart \<Rightarrow> Some (\<lambda>m. m)
      | Some (VImageStart ty) \<Rightarrow> Some (\<lambda>m. m\<lparr>md_image := (md_image m)\<lparr>ba_media := ty\<rparr>\<rparr>)
      | Some VAudioStart \<Rightarrow> Some (\<lambda>m. m\<lparr>md_audio := (md_audio m)\<lparr>ba_media := ''audio/pcm''\<rparr>\<rparr>)
      | Some (VVideoStart ty) \<Rightarrow> Some (\<lambda>m. m\<lparr>md_video := (md_video m)\<lparr>ba_media := ty\<rparr>\<rparr>)
      | Some (VFileStart ty n) \<Rightarrow>
          Some (\<lambda>m. m\<lparr>md_file := (md_file m)\<lparr>ba_media := ty\<rparr>, md_file_name := n\<rparr>)
      | Some (VEmbeddingStart ty) \<Rightarrow> Some (\<lambda>m. m\<lparr>md_embedding := (md_embedding m)\<lparr>ba_media := ty\<rparr>\<rparr>)
      | _ \<Rightarrow> None)"

definition apply_tool_delta :: "stream_message \<Rightarrow> tool_batch \<Rightarrow> tool_batch" where
  "apply_tool_delta d b =
     (if sm_value d = Some VMessageStart then empty_tool_batch
      else (case start_tool_content (sm_value d) of
              Some f \<Rightarrow> change_tool (sm_tool_call_id d) (\<lambda>st. st\<lparr>tl_media := f (tl_media st)\<rparr>)
                          (ensure_tool (sm_tool_call_id d) b)
            | None \<Rightarrow> change_tool (sm_tool_call_id d) (apply_tool_content (sm_value d)) b))"

definition tool_parts :: "tool_reconstruction \<Rightarrow> content_part list" where
  "tool_parts st =
     (let p1 = (if tl_text st \<noteq> '''' then [TextPart (tl_text st)] else []);
          p2 = append_image_part (tl_media st) p1;
          audio = md_audio (tl_media st);
          p3 = (if ba_present audio then p2 @ [AudioPart '''' (ba_bytes audio) (ba_media audio)]
                else p2);
          p4 = append_trailing_parts (tl_media st) p3
      in (if length p4 = 0 then [TextPart ''''] else p4))"

definition tool_message :: "string \<Rightarrow> tool_reconstruction \<Rightarrow> message" where
  "tool_message i st =
     zero_message\<lparr>m_role := RoleTool, m_parts := tool_parts st, m_tool_call_id := i\<rparr>"

definition tool_batch_messages :: "tool_batch \<Rightarrow> message list" where
  "tool_batch_messages b =
     concat (map (\<lambda>i. case bt_per_tool b i of None \<Rightarrow> [] | Some st \<Rightarrow> [tool_message i st])
                 (bt_order b))"

definition reconstruct_tool_messages :: "stream_message list \<Rightarrow> message list" where
  "reconstruct_tool_messages deltas =
     tool_batch_messages (fold apply_tool_delta deltas empty_tool_batch)"

section \<open>Facts about the model message\<close>

text \<open>The text and the calls a delta contributes on its own.\<close>

definition delta_text :: "stream_message \<Rightarrow> string" where
  "delta_text d = (case sm_value d of Some (VTextDelta t) \<Rightarrow> t | _ \<Rightarrow> '''')"

definition delta_calls :: "stream_message \<Rightarrow> tool_call list" where
  "delta_calls d =
     (case sm_value d of
        Some (VToolCallEnd i n a) \<Rightarrow> [\<lparr>tc_id = i, tc_name = n, tc_arguments = a\<rparr>]
      | _ \<Rightarrow> [])"

lemma apply_model_text: "mr_text (apply_model_delta d st) = mr_text st @ delta_text d"
  by (simp add: apply_model_delta_def apply_textual_def delta_text_def end_tool_call_def Let_def
        split: option.splits stream_value.splits)

lemma fold_model_text:
  "mr_text (fold apply_model_delta ds st) = mr_text st @ concat (map delta_text ds)"
  by (induction ds arbitrary: st) (simp_all add: apply_model_text)

lemma text_of_append_image [simp]:
  "concat (map text_of_part (append_image_part m ps)) = concat (map text_of_part ps)"
  by (simp add: append_image_part_def)

lemma text_of_append_trailing [simp]:
  "concat (map text_of_part (append_trailing_parts m ps)) = concat (map text_of_part ps)"
  by (simp add: append_trailing_parts_def Let_def)

lemma text_of_model_parts: "concat (map text_of_part (model_parts st)) = mr_text st"
  by (simp add: model_parts_def Let_def)

definition starts_text :: "stream_message \<Rightarrow> bool" where
  "starts_text d = (case sm_value d of Some VTextStart \<Rightarrow> True | Some (VTextDelta _) \<Rightarrow> True | _ \<Rightarrow> False)"

lemma apply_model_has_text: "mr_has_text (apply_model_delta d st) \<longleftrightarrow> mr_has_text st \<or> starts_text d"
  by (simp add: apply_model_delta_def apply_textual_def starts_text_def end_tool_call_def Let_def
        split: option.splits stream_value.splits)

lemma fold_model_has_text:
  "mr_has_text (fold apply_model_delta ds st) \<longleftrightarrow> mr_has_text st \<or> list_ex starts_text ds"
  by (induction ds arbitrary: st) (auto simp: apply_model_has_text)

lemma delta_text_needs_start: "delta_text d \<noteq> '''' \<Longrightarrow> starts_text d"
  by (simp add: delta_text_def starts_text_def split: option.splits stream_value.splits)

text \<open>A call end that names its own call.\<close>

definition self_named :: "stream_message \<Rightarrow> bool" where
  "self_named d = (case sm_value d of Some (VToolCallEnd i n _) \<Rightarrow> i \<noteq> '''' \<and> n \<noteq> '''' | _ \<Rightarrow> True)"

lemma apply_model_calls:
  "self_named d \<Longrightarrow> mr_calls (apply_model_delta d st) = mr_calls st @ delta_calls d"
  by (simp add: apply_model_delta_def apply_textual_def delta_calls_def self_named_def
        end_tool_call_def Let_def split: option.splits stream_value.splits)

lemma fold_model_calls:
  "list_all self_named ds \<Longrightarrow>
   mr_calls (fold apply_model_delta ds st) = mr_calls st @ concat (map delta_calls ds)"
  by (induction ds arbitrary: st) (simp_all add: apply_model_calls)

definition delta_audio :: "stream_message \<Rightarrow> byte list" where
  "delta_audio d = (case sm_value d of Some (VAudioDelta b _) \<Rightarrow> b | _ \<Rightarrow> [])"

fun audio_of_part :: "content_part \<Rightarrow> byte list" where
  "audio_of_part (AudioPart _ b _) = b"
| "audio_of_part _ = []"

definition audio_content :: "message \<Rightarrow> byte list" where
  "audio_content m = concat (map audio_of_part (m_parts m))"

lemma apply_media_audio:
  "ba_bytes (md_audio (apply_media (sm_value d) m)) = ba_bytes (md_audio m) @ delta_audio d"
  by (simp add: apply_media_def delta_audio_def ba_bytes_def ba_add_def Let_def
        split: option.splits stream_value.splits)

lemma textual_no_audio: "apply_textual (sm_value d) st \<noteq> None \<Longrightarrow> delta_audio d = []"
  by (simp add: apply_textual_def delta_audio_def split: option.splits stream_value.splits)

lemma textual_keeps_media: "apply_textual v st = Some st' \<Longrightarrow> mr_media st' = mr_media st"
  by (auto simp: apply_textual_def end_tool_call_def Let_def
        split: option.splits stream_value.splits if_splits)

lemma apply_model_audio:
  "ba_bytes (md_audio (mr_media (apply_model_delta d st)))
     = ba_bytes (md_audio (mr_media st)) @ delta_audio d"
  using textual_no_audio [of d st] textual_keeps_media [of "sm_value d" st]
  by (simp add: apply_model_delta_def apply_media_audio split: option.splits)

lemma fold_model_audio:
  "ba_bytes (md_audio (mr_media (fold apply_model_delta ds st)))
     = ba_bytes (md_audio (mr_media st)) @ concat (map delta_audio ds)"
  by (induction ds arbitrary: st) (simp_all add: apply_model_audio)

lemma audio_of_append_image [simp]:
  "concat (map audio_of_part (append_image_part m ps)) = concat (map audio_of_part ps)"
  by (simp add: append_image_part_def)

lemma audio_of_append_trailing [simp]:
  "concat (map audio_of_part (append_trailing_parts m ps)) = concat (map audio_of_part ps)"
  by (simp add: append_trailing_parts_def Let_def)

lemma audio_of_model_parts:
  "concat (map audio_of_part (model_parts st)) = ba_bytes (md_audio (mr_media st))"
  by (simp add: model_parts_def Let_def ba_present_def ba_bytes_def)

lemma reconstruct_text_content:
  "text_content (reconstruct_model_message ds) = concat (map delta_text ds)"
  by (simp add: text_content_def reconstruct_model_message_def Let_def text_of_model_parts
        fold_model_text empty_model_reconstruction_def)

lemma reconstruct_calls:
  "list_all self_named ds \<Longrightarrow>
   m_tool_calls (reconstruct_model_message ds) = concat (map delta_calls ds)"
  by (simp add: reconstruct_model_message_def Let_def fold_model_calls
        empty_model_reconstruction_def)

lemma reconstruct_audio_content:
  "audio_content (reconstruct_model_message ds) = concat (map delta_audio ds)"
  by (simp add: audio_content_def reconstruct_model_message_def Let_def audio_of_model_parts
        fold_model_audio)
     (simp add: empty_model_reconstruction_def empty_media_def empty_accumulator_def ba_bytes_def)

lemma reconstruct_role: "m_role (reconstruct_model_message ds) = RoleAssistant"
  by (simp add: reconstruct_model_message_def Let_def)

text \<open>
  the assistant message carries exactly what the model streamed. Its text is the
  concatenation of all text deltas, its audio the concatenation of all audio deltas, its
  tool calls are the ended calls in order when each end names its call; a partial stream
  gives a prefix of the text and of the calls of the whole one.
\<close>

theorem reconstruct_model_content:
  assumes "list_all self_named (ds @ rest)"
  shows "m_role (reconstruct_model_message ds) = RoleAssistant
    \<and> text_content (reconstruct_model_message ds) = concat (map delta_text ds)
    \<and> audio_content (reconstruct_model_message ds) = concat (map delta_audio ds)
    \<and> m_tool_calls (reconstruct_model_message ds) = concat (map delta_calls ds)
    \<and> text_content (reconstruct_model_message (ds @ rest))
        = text_content (reconstruct_model_message ds) @ concat (map delta_text rest)
    \<and> m_tool_calls (reconstruct_model_message (ds @ rest))
        = m_tool_calls (reconstruct_model_message ds) @ concat (map delta_calls rest)"
  using assms reconstruct_calls [of "ds @ rest"] reconstruct_calls [of ds]
  by (simp add: reconstruct_text_content reconstruct_audio_content reconstruct_role)

lemma reconstruct_model_content_witness:
  "text_content (reconstruct_model_message
      [mk_delta StreamTextDelta RoleAssistant (VTextDelta ''ab''),
       mk_delta StreamToolCallEnd RoleAssistant (VToolCallEnd ''1'' ''f'' ''{}'')]) = ''ab''
   \<and> m_tool_calls (reconstruct_model_message
      [mk_delta StreamTextDelta RoleAssistant (VTextDelta ''ab''),
       mk_delta StreamToolCallEnd RoleAssistant (VToolCallEnd ''1'' ''f'' ''{}'')])
     = [\<lparr>tc_id = ''1'', tc_name = ''f'', tc_arguments = ''{}''\<rparr>]"
  using reconstruct_model_content [of "[mk_delta StreamTextDelta RoleAssistant (VTextDelta ''ab''),
       mk_delta StreamToolCallEnd RoleAssistant (VToolCallEnd ''1'' ''f'' ''{}'')]" "[]"]
  by (simp add: self_named_def mk_delta_def zero_stream_message_def delta_text_def delta_calls_def)

section \<open>Facts about a tool batch\<close>

definition batch_ok :: "tool_batch \<Rightarrow> bool" where
  "batch_ok b \<longleftrightarrow> distinct (bt_order b) \<and> set (bt_order b) = dom (bt_per_tool b)"

lemma empty_batch_ok: "batch_ok empty_tool_batch"
  by (simp add: batch_ok_def empty_tool_batch_def)

lemma ensure_tool_ok: "batch_ok b \<Longrightarrow> batch_ok (ensure_tool i b)"
  by (auto simp: batch_ok_def ensure_tool_def split: option.splits)

lemma change_tool_ok: "batch_ok b \<Longrightarrow> batch_ok (change_tool i f b)"
  by (auto simp: batch_ok_def change_tool_def split: option.splits)

lemma apply_tool_delta_ok: "batch_ok b \<Longrightarrow> batch_ok (apply_tool_delta d b)"
  by (simp add: apply_tool_delta_def empty_batch_ok ensure_tool_ok change_tool_ok
        split: option.splits)

lemma fold_tool_delta_ok: "batch_ok b \<Longrightarrow> batch_ok (fold apply_tool_delta ds b)"
  by (induction ds arbitrary: b) (simp_all add: apply_tool_delta_ok)

text \<open>The part of a batch that concerns one tool call, and the deltas that touch it.\<close>

definition project_tool :: "string \<Rightarrow> tool_batch \<Rightarrow> tool_batch" where
  "project_tool i b = \<lparr>bt_per_tool = (\<lambda>j. if j = i then bt_per_tool b j else None),
     bt_order = filter (\<lambda>j. j = i) (bt_order b)\<rparr>"

definition concerns_tool :: "string \<Rightarrow> stream_message \<Rightarrow> bool" where
  "concerns_tool i d \<longleftrightarrow> sm_value d = Some VMessageStart \<or> sm_tool_call_id d = i"

lemma project_empty [simp]: "project_tool i empty_tool_batch = empty_tool_batch"
  by (simp add: project_tool_def empty_tool_batch_def fun_eq_iff)

lemma project_ensure_same: "project_tool i (ensure_tool i b) = ensure_tool i (project_tool i b)"
  by (auto simp: project_tool_def ensure_tool_def fun_eq_iff split: option.splits)

lemma project_change_same: "project_tool i (change_tool i f b) = change_tool i f (project_tool i b)"
  by (auto simp: project_tool_def change_tool_def fun_eq_iff split: option.splits)

lemma project_ensure_other: "j \<noteq> i \<Longrightarrow> project_tool i (ensure_tool j b) = project_tool i b"
  by (auto simp: project_tool_def ensure_tool_def fun_eq_iff split: option.splits)

lemma project_change_other: "j \<noteq> i \<Longrightarrow> project_tool i (change_tool j f b) = project_tool i b"
  by (auto simp: project_tool_def change_tool_def fun_eq_iff split: option.splits)

lemma project_apply:
  "project_tool i (apply_tool_delta d b) =
     (if concerns_tool i d then apply_tool_delta d (project_tool i b) else project_tool i b)"
  by (auto simp: apply_tool_delta_def concerns_tool_def project_ensure_same project_change_same
        project_ensure_other project_change_other split: option.splits)

lemma project_fold:
  "project_tool i (fold apply_tool_delta ds b) =
     fold apply_tool_delta (filter (concerns_tool i) ds) (project_tool i b)"
  by (induction ds arbitrary: b) (simp_all add: project_apply)

lemma batch_messages_project:
  "filter (\<lambda>m. m_tool_call_id m = i) (tool_batch_messages b) = tool_batch_messages (project_tool i b)"
proof -
  have "filter (\<lambda>m. m_tool_call_id m = i)
          (concat (map (\<lambda>i. case bt_per_tool b i of None \<Rightarrow> [] | Some st \<Rightarrow> [tool_message i st]) js))
      = concat (map (\<lambda>j. case (if j = i then bt_per_tool b j else None) of None \<Rightarrow> []
                         | Some st \<Rightarrow> [tool_message j st]) (filter (\<lambda>j. j = i) js))" for js
    by (induction js) (auto simp: tool_message_def zero_message_def split: option.splits)
  then show ?thesis by (simp add: tool_batch_messages_def project_tool_def)
qed

lemma batch_messages_ids: "batch_ok b \<Longrightarrow> map m_tool_call_id (tool_batch_messages b) = bt_order b"
proof -
  assume ok: "batch_ok b"
  have "set js \<subseteq> dom (bt_per_tool b) \<Longrightarrow>
     map m_tool_call_id (concat (map (\<lambda>i. case bt_per_tool b i of None \<Rightarrow> []
        | Some st \<Rightarrow> [tool_message i st]) js)) = js" for js
    by (induction js) (auto simp: tool_message_def zero_message_def)
  then show ?thesis using ok by (simp add: tool_batch_messages_def batch_ok_def)
qed

lemma tool_parts_nonempty: "tool_parts st \<noteq> []"
  by (simp add: tool_parts_def Let_def)

text \<open>
  the results of concurrent tools do not mix. However the deltas of a batch are
  interleaved, the message rebuilt for one tool call is the one its own deltas give on
  their own; every call has at most one message, and every message has content.
\<close>

theorem reconstruct_tools_isolated:
  "filter (\<lambda>m. m_tool_call_id m = i) (reconstruct_tool_messages ds)
     = reconstruct_tool_messages (filter (concerns_tool i) ds)
   \<and> distinct (map m_tool_call_id (reconstruct_tool_messages ds))
   \<and> list_all (\<lambda>m. m_role m = RoleTool \<and> m_parts m \<noteq> []) (reconstruct_tool_messages ds)"
proof -
  let ?b = "fold apply_tool_delta ds empty_tool_batch"
  have ok: "batch_ok ?b" by (simp add: fold_tool_delta_ok empty_batch_ok)
  have "list_all (\<lambda>m. m_role m = RoleTool \<and> m_parts m \<noteq> []) (tool_batch_messages b)" for b
    by (auto simp: tool_batch_messages_def list_all_iff tool_message_def tool_parts_nonempty
          split: option.splits)
  then show ?thesis
    using batch_messages_ids [OF ok] ok
    by (simp add: reconstruct_tool_messages_def batch_messages_project project_fold batch_ok_def)
qed

end
