(* ===== verification/Ordering.thy ===== *)
theory Ordering
  imports Loop_State Reconstruction
begin

text \<open>
  The ordering layer, \<^verbatim>\<open>engine/ordering.go\<close> and \<^verbatim>\<open>engine/ordering_history.go\<close>: it takes one
  item of the participant outboxes, numbers it, assembles the message a MESSAGE.END
  completes, and folds each tick's inputs into the two histories. The runners' outboxes are
  queues of the ordering state; a runner that was not configured has \<^verbatim>\<open>None\<close>.
\<close>

section \<open>State and receive\<close>

datatype tick_input =
    InputModelDelta stream_message
  | InputToolDelta stream_message
  | InputInteraction interaction_event
  | InputUser user_response

datatype tick_error =
    StreamDeltaError "error_value option"
  | TickGoError go_error
  | HelperFailed int tick_error

text \<open>\<^verbatim>\<open>StreamDeltaError.Error\<close> and \<^verbatim>\<open>Unwrap\<close>, for a non-nil receiver.\<close>

definition stream_delta_error_text :: "error_value option \<Rightarrow> string" where
  "stream_delta_error_text v = (case v of Some e \<Rightarrow> ev_message e | None \<Rightarrow> ''stream error'')"

definition stream_delta_error_cause :: "error_value option \<Rightarrow> go_error option" where
  "stream_delta_error_cause v = (case v of Some e \<Rightarrow> ev_err e | None \<Rightarrow> None)"

record global_ordering =
  go_model_outbox :: "stream_message list"
  go_tool_outbox :: "stream_message list option"
  go_user_outbox :: "user_response list option"
  go_interaction_outbox :: "interaction_event list option"
  go_tool_batch_active :: bool
  go_settled_compacted :: nat
  go_settled_messages :: nat

definition new_global_ordering :: global_ordering where
  "new_global_ordering = \<lparr>go_model_outbox = [], go_tool_outbox = None, go_user_outbox = None,
     go_interaction_outbox = None, go_tool_batch_active = False, go_settled_compacted = 0,
     go_settled_messages = 0\<rparr>"

text \<open>A receive from an outbox: the item taken and the ordering without it, when it is ready.\<close>

definition take_model :: "global_ordering \<Rightarrow> (tick_input \<times> global_ordering) option" where
  "take_model go = (case go_model_outbox go of [] \<Rightarrow> None
     | d # ds \<Rightarrow> Some (InputModelDelta d, go\<lparr>go_model_outbox := ds\<rparr>))"

definition take_tool :: "global_ordering \<Rightarrow> (tick_input \<times> global_ordering) option" where
  "take_tool go = (case go_tool_outbox go of Some (d # ds) \<Rightarrow>
       Some (InputToolDelta d, go\<lparr>go_tool_outbox := Some ds\<rparr>) | _ \<Rightarrow> None)"

definition take_interaction :: "global_ordering \<Rightarrow> (tick_input \<times> global_ordering) option" where
  "take_interaction go = (case go_interaction_outbox go of Some (e # es) \<Rightarrow>
       Some (InputInteraction e, go\<lparr>go_interaction_outbox := Some es\<rparr>) | _ \<Rightarrow> None)"

definition take_user :: "global_ordering \<Rightarrow> (tick_input \<times> global_ordering) option" where
  "take_user go = (case go_user_outbox go of Some (u # us) \<Rightarrow>
       Some (InputUser u, go\<lparr>go_user_outbox := Some us\<rparr>) | _ \<Rightarrow> None)"

text \<open>
  One evaluation of a \<^verbatim>\<open>select\<close>: the list of its ready cases and Go's random pick among
  them. \<^verbatim>\<open>None\<close> when none is ready.
\<close>

definition select_ready :: "nat \<Rightarrow> 'a option list \<Rightarrow> 'a option" where
  "select_ready pick cases =
     (let ready = concat (map (\<lambda>c. case c of None \<Rightarrow> [] | Some x \<Rightarrow> [x]) cases)
      in if ready = [] then None else Some (ready ! (pick mod length ready)))"

definition ctx_case :: "ctx_state \<Rightarrow> global_ordering \<Rightarrow> ((go_error + tick_input) \<times> global_ordering) option" where
  "ctx_case c go = (case c of CtxLive \<Rightarrow> None | CtxDone e \<Rightarrow> Some (Inl e, go))"

definition item_case ::
    "(tick_input \<times> global_ordering) option \<Rightarrow> ((go_error + tick_input) \<times> global_ordering) option" where
  "item_case t = map_option (\<lambda>(i, go). (Inr i, go)) t"

text \<open>
  \<^verbatim>\<open>receiveTickInput\<close>: the first \<^verbatim>\<open>select\<close> prefers deltas and interaction events, the
  second also takes a user message and waits. \<^verbatim>\<open>later\<close> is the ordering state at the
  second \<^verbatim>\<open>select\<close>, since outboxes may have filled in between, and \<^verbatim>\<open>c2\<close> the context
  then. \<^verbatim>\<open>None\<close>: it still waits.
\<close>

definition receive_tick_input ::
    "nat \<Rightarrow> nat \<Rightarrow> ctx_state \<Rightarrow> ctx_state \<Rightarrow> global_ordering \<Rightarrow> global_ordering
     \<Rightarrow> ((go_error + tick_input) \<times> global_ordering) option" where
  "receive_tick_input pick1 pick2 c1 c2 go later =
     (case select_ready pick1 [ctx_case c1 go, item_case (take_model go),
             item_case (take_tool go), item_case (take_interaction go)] of
        Some r \<Rightarrow> Some r
      | None \<Rightarrow> select_ready pick2 [ctx_case c2 later, item_case (take_model later),
             item_case (take_tool later), item_case (take_interaction later),
             item_case (take_user later)])"

section \<open>Numbering and assembly\<close>

definition assign_stream_ordering ::
    "stream_message \<Rightarrow> participant_id \<Rightarrow> 'f loop_state \<Rightarrow> stream_message \<times> 'f loop_state" where
  "assign_stream_ordering d actor ls =
     (d\<lparr>sm_global_index := h_next_index (ls_history ls), sm_actor_id := actor\<rparr>,
      ls_history_update (h_next_index_update Suc) ls)"

definition assign_message_ordering ::
    "message \<Rightarrow> participant_id \<Rightarrow> 'f loop_state \<Rightarrow> message \<times> 'f loop_state" where
  "assign_message_ordering m actor ls =
     (m\<lparr>m_global_index := h_next_index (ls_history ls), m_actor_id := actor\<rparr>,
      ls_history_update (h_next_index_update Suc) ls)"

definition model_window :: "history \<Rightarrow> stream_message list" where
  "model_window h = window (h_model_start h) (h_model_count h) (h_deltas h)"

definition tool_window :: "history \<Rightarrow> stream_message list" where
  "tool_window h = window (h_tool_start h) (h_tool_count h) (h_deltas h)"

definition model_deltas_for_current_response :: "'f loop_state \<Rightarrow> stream_message list" where
  "model_deltas_for_current_response ls =
     (let h = ls_history ls;
          out = (if h_model_start h + h_model_count h \<le> length (h_deltas h)
                 then model_window h else [])
      in out @ in_model_delta (ls_inputs ls))"

definition tool_deltas_for_current_batch :: "'f loop_state \<Rightarrow> stream_message list" where
  "tool_deltas_for_current_batch ls =
     (let h = ls_history ls;
          out = (if h_tool_start h + h_tool_count h \<le> length (h_deltas h)
                 then tool_window h else [])
      in out @ in_tool_delta (ls_inputs ls))"

definition stale_delta :: "stream_message \<Rightarrow> 'f loop_state \<Rightarrow> bool" where
  "stale_delta d ls \<longleftrightarrow> sm_loop_pass_id d > 0 \<and> sm_loop_pass_id d < h_pass (ls_history ls)"

text \<open>The payload of a terminal ERROR delta; a nil payload is terminal.\<close>

definition terminal_error :: "stream_message \<Rightarrow> error_value option option" where
  "terminal_error d =
     (case sm_value d of
        Some (VError ev) \<Rightarrow> if is_terminal ev then Some ev else None
      | _ \<Rightarrow> None)"

definition is_error_delta :: "stream_message \<Rightarrow> bool" where
  "is_error_delta d = (case sm_value d of Some (VError _) \<Rightarrow> True | _ \<Rightarrow> False)"

definition append_model_output :: "message \<Rightarrow> 'f loop_state \<Rightarrow> 'f loop_state" where
  "append_model_output m ls =
     (case assign_message_ordering m PModel ls of
        (m', ls') \<Rightarrow> ls_inputs_update (in_model_output_update (\<lambda>xs. xs @ [m'])) ls')"

definition append_tool_output :: "message \<Rightarrow> 'f loop_state \<Rightarrow> 'f loop_state" where
  "append_tool_output m ls =
     (case assign_message_ordering m PTool ls of
        (m', ls') \<Rightarrow> ls_inputs_update (in_tool_output_update (\<lambda>xs. xs @ [m'])) ls')"

definition rollback_model_deltas :: "history \<Rightarrow> history" where
  "rollback_model_deltas h =
     h\<lparr>h_deltas := (if h_model_start h < length (h_deltas h)
                   then take (h_model_start h) (h_deltas h) else h_deltas h),
       h_model_count := 0\<rparr>"

text \<open>
  The value switch at the end of \<^verbatim>\<open>consumeModelDelta\<close>: REASONING.END emits the reasoning
  parts, MESSAGE.END the message without them.
\<close>

definition assemble_model_output :: "stream_message \<Rightarrow> 'f loop_state \<Rightarrow> 'f loop_state" where
  "assemble_model_output d ls =
     (case sm_value d of
        Some VReasoningEnd \<Rightarrow>
          (let msg = reconstruct_model_message (model_deltas_for_current_response ls);
               parts = filter is_reasoning_part (m_parts msg)
           in if length parts > 0
              then append_model_output (zero_message\<lparr>m_role := RoleAssistant, m_parts := parts\<rparr>) ls
              else ls)
      | Some (VMessageEnd _) \<Rightarrow>
          (let msg = reconstruct_model_message (model_deltas_for_current_response ls)
           in append_model_output
                (msg\<lparr>m_parts := filter (\<lambda>p. \<not> is_reasoning_part p) (m_parts msg)\<rparr>) ls)
      | _ \<Rightarrow> ls)"

definition record_model_delta :: "stream_message \<Rightarrow> 'f loop_state \<Rightarrow> stream_message \<times> 'f loop_state" where
  "record_model_delta d ls =
     (case assign_stream_ordering d PModel ls of
        (a, ls1) \<Rightarrow> (a, ls_inputs_update (in_model_delta_update (\<lambda>xs. xs @ [a])) ls1))"

definition record_tool_delta :: "stream_message \<Rightarrow> 'f loop_state \<Rightarrow> stream_message \<times> 'f loop_state" where
  "record_tool_delta d ls =
     (case assign_stream_ordering d PTool ls of
        (a, ls1) \<Rightarrow> (a, ls_inputs_update (in_tool_delta_update (\<lambda>xs. xs @ [a])) ls1))"

definition consume_model_delta ::
    "stream_message \<Rightarrow> global_ordering \<Rightarrow> 'f loop_state
     \<Rightarrow> tick_error option \<times> global_ordering \<times> 'f loop_state" where
  "consume_model_delta d go ls =
     (if stale_delta d ls then (None, go, ls)
      else (case terminal_error d of
         Some ev \<Rightarrow>
           (Some (StreamDeltaError ev), go\<lparr>go_model_outbox := []\<rparr>,
            ls_history_update rollback_model_deltas ls)
       | None \<Rightarrow>
           (case record_model_delta d ls of (a, ls1) \<Rightarrow>
              if sm_response_purpose a = PurposeToolAcknowledgement then (None, go, ls1)
              else (None, go, assemble_model_output a ls1))))"

definition start_tool_batch :: "history \<Rightarrow> history" where
  "start_tool_batch h = h\<lparr>h_tool_start := length (h_deltas h), h_tool_count := 0\<rparr>"

definition mark_tool_failure :: "stream_message \<Rightarrow> 'f loop_state \<Rightarrow> 'f loop_state" where
  "mark_tool_failure d ls =
     (if is_error_delta d \<and> ls_mode ls \<noteq> DuplexSession
      then ls_inputs_update (in_terminate_update (\<lambda>_. True)) ls else ls)"

text \<open>The value switch at the end of \<^verbatim>\<open>consumeToolDelta\<close>.\<close>

definition assemble_tool_output ::
    "stream_message \<Rightarrow> global_ordering \<Rightarrow> 'f loop_state \<Rightarrow> global_ordering \<times> 'f loop_state" where
  "assemble_tool_output a go ls =
     (case sm_value a of
        Some VMessageStart \<Rightarrow>
          (go\<lparr>go_tool_batch_active := True\<rparr>, ls_history_update start_tool_batch ls)
      | Some (VMessageEnd _) \<Rightarrow>
          (go\<lparr>go_tool_batch_active := False\<rparr>,
           fold append_tool_output
             (reconstruct_tool_messages (tool_deltas_for_current_batch ls)) ls)
      | _ \<Rightarrow> (go, ls))"

definition consume_tool_delta ::
    "stream_message \<Rightarrow> global_ordering \<Rightarrow> 'f loop_state
     \<Rightarrow> tick_error option \<times> global_ordering \<times> 'f loop_state" where
  "consume_tool_delta d go ls =
     (if stale_delta d ls then (None, go, ls)
      else (case terminal_error d of
         Some ev \<Rightarrow> (Some (StreamDeltaError ev), go, ls)
       | None \<Rightarrow>
           (case record_tool_delta d (mark_tool_failure d ls) of
              (a, ls1) \<Rightarrow> (None, assemble_tool_output a go ls1))))"

definition apply_tick_input ::
    "tick_input \<Rightarrow> global_ordering \<Rightarrow> 'f loop_state
     \<Rightarrow> tick_error option \<times> global_ordering \<times> 'f loop_state" where
  "apply_tick_input input go ls =
     (case input of
        InputModelDelta d \<Rightarrow> consume_model_delta d go ls
      | InputToolDelta d \<Rightarrow> consume_tool_delta d go ls
      | InputInteraction e \<Rightarrow>
          (None, go, ls_inputs_update (in_interactions_update (\<lambda>xs. xs @ [e])) ls)
      | InputUser u \<Rightarrow>
          (case ur_error u of
             Some e \<Rightarrow> (Some (TickGoError e), go, ls)
           | None \<Rightarrow>
               (case assign_message_ordering (ur_message u) PUser ls of (m, ls1) \<Rightarrow>
                  (None, go,
                   if has_control_plane_part m
                   then ls_inputs_update (in_user_control_update (\<lambda>xs. xs @ [m])) ls1
                   else ls_inputs_update (in_user_output_update (\<lambda>xs. xs @ [m])) ls1))))"

definition flush_inputs :: "'f loop_state \<Rightarrow> 'f loop_state" where
  "flush_inputs ls = ls_inputs_update (\<lambda>i. i\<lparr>in_tool_control := [], in_tool_output := [],
     in_tool_delta := [], in_user_control := [], in_user_output := [], in_user_delta := [],
     in_model_control := [], in_model_output := [], in_model_delta := [], in_interactions := [],
     in_terminate := False\<rparr>) ls"

section \<open>Folding a tick into history\<close>

definition is_model_history_delta :: "stream_message \<Rightarrow> bool" where
  "is_model_history_delta d \<longleftrightarrow>
     sm_actor_id d = PModel \<or> (sm_actor_id d = PUnset \<and> sm_role d = RoleAssistant)"

definition is_acknowledgement_delta :: "stream_message \<Rightarrow> bool" where
  "is_acknowledgement_delta d \<longleftrightarrow> sm_response_purpose d = PurposeToolAcknowledgement"

definition shift_tool_delta_start :: "bool \<Rightarrow> nat \<Rightarrow> history \<Rightarrow> history" where
  "shift_tool_delta_start active inserted_at h =
     (if (active \<or> h_tool_count h > 0) \<and> inserted_at \<le> h_tool_start h
      then h\<lparr>h_tool_start := Suc (h_tool_start h)\<rparr> else h)"

text \<open>One iteration of the model delta loop of \<^verbatim>\<open>UpdateWorldHistory\<close>, at its index.\<close>

definition place_model_delta :: "bool \<Rightarrow> nat \<Rightarrow> stream_message \<Rightarrow> history \<Rightarrow> history" where
  "place_model_delta active idx d h =
     (if idx < length (h_deltas h) \<and> is_model_history_delta (h_deltas h ! idx)
      then h\<lparr>h_deltas := (h_deltas h)[idx := d]\<rparr>
      else if idx < length (h_deltas h)
      then shift_tool_delta_start active idx (h\<lparr>h_deltas := insert_at idx d (h_deltas h)\<rparr>)
      else h\<lparr>h_deltas := h_deltas h @ [d]\<rparr>)"

fun write_model_deltas :: "bool \<Rightarrow> nat \<Rightarrow> stream_message list \<Rightarrow> history \<Rightarrow> nat \<times> history" where
  "write_model_deltas active written [] h = (written, h)"
| "write_model_deltas active written (d # ds) h =
     (if is_acknowledgement_delta d then write_model_deltas active written ds h
      else write_model_deltas active (Suc written) ds
             (place_model_delta active (h_model_start h + h_model_count h + written) d h))"

text \<open>
  \<^verbatim>\<open>dropStaleModelDeltas\<close>: everything after the model window but model deltas is kept; the
  deltas removed before the tool window move its start.
\<close>

definition drop_stale_model_deltas :: "history \<Rightarrow> history" where
  "drop_stale_model_deltas h =
     (let stop = h_model_start h + h_model_count h in
      if stop \<ge> length (h_deltas h) then h
      else (let removed = length (filter is_model_history_delta
                             (drop stop (take (h_tool_start h) (h_deltas h))))
            in h\<lparr>h_deltas := take stop (h_deltas h)
                    @ filter (\<lambda>d. \<not> is_model_history_delta d) (drop stop (h_deltas h)),
                 h_tool_start := (if removed > 0 then h_tool_start h - removed
                                  else h_tool_start h)\<rparr>))"

definition settled_history_limit :: nat where
  "settled_history_limit = 4096"

definition compact_audio_delta :: "stream_message \<Rightarrow> stream_message" where
  "compact_audio_delta d =
     (case sm_value d of
        Some (VAudioDelta content ty) \<Rightarrow>
          if length content > 0 then d\<lparr>sm_value := Some (VAudioDelta [] ty)\<rparr> else d
      | _ \<Rightarrow> d)"

text \<open>A loop \<^verbatim>\<open>for index := lo; index < hi; index++\<close> that rewrites each element.\<close>

definition rewrite_range :: "nat \<Rightarrow> nat \<Rightarrow> ('a \<Rightarrow> 'a) \<Rightarrow> 'a list \<Rightarrow> 'a list" where
  "rewrite_range lo hi f xs =
     map (\<lambda>(i, x). if lo \<le> i \<and> i < hi then f x else x) (enumerate 0 xs)"

definition settle_history :: "global_ordering \<Rightarrow> history \<Rightarrow> global_ordering \<times> history" where
  "settle_history go h =
     (let settled0 = min (h_model_start h) (length (h_deltas h));
          settled = (if go_tool_batch_active go then min settled0 (h_tool_start h) else settled0);
          h1 = h\<lparr>h_deltas := rewrite_range (go_settled_compacted go) settled
                               compact_audio_delta (h_deltas h)\<rparr>;
          go1 = go\<lparr>go_settled_compacted := max (go_settled_compacted go) settled\<rparr>
      in if settled \<le> settled_history_limit then (go1, h1)
         else (let d = settled - settled_history_limit div 2;
                   h2 = h1\<lparr>h_deltas := drop d (h_deltas h1),
                            h_model_start := h_model_start h1 - d\<rparr>;
                   h3 = (if h_tool_start h2 \<ge> d then h2\<lparr>h_tool_start := h_tool_start h2 - d\<rparr>
                         else h2\<lparr>h_tool_start := 0, h_tool_count := 0\<rparr>)
               in (go1\<lparr>go_settled_compacted := go_settled_compacted go1 - d\<rparr>, h3)))"

fun drop_audio_bytes :: "content_part \<Rightarrow> content_part" where
  "drop_audio_bytes (AudioPart url _ media) = AudioPart url [] media"
| "drop_audio_bytes p = p"

definition without_audio_bytes :: "message \<Rightarrow> message" where
  "without_audio_bytes m = m\<lparr>m_parts := map drop_audio_bytes (m_parts m)\<rparr>"

text \<open>The index of the latest assistant message, the backwards scan of the source.\<close>

fun latest_assistant :: "message list \<Rightarrow> nat \<Rightarrow> nat option" where
  "latest_assistant buffer 0 = None"
| "latest_assistant buffer (Suc n) =
     (if m_role (buffer ! n) = RoleAssistant then Some n else latest_assistant buffer n)"

definition compact_settled_assistant_audio ::
    "execution_mode \<Rightarrow> global_ordering \<Rightarrow> history \<Rightarrow> global_ordering \<times> history" where
  "compact_settled_assistant_audio mode go h =
     (if mode \<noteq> DuplexSession then (go, h)
      else (let buffer = h_conversation h
            in (case latest_assistant buffer (length buffer) of
                  None \<Rightarrow> (go, h)
                | Some latest \<Rightarrow>
                    (go\<lparr>go_settled_messages := max (go_settled_messages go) latest\<rparr>,
                     h\<lparr>h_conversation := rewrite_range (min (go_settled_messages go) (length buffer))
                          latest
                          (\<lambda>m. if m_role m = RoleAssistant then without_audio_bytes m else m)
                          buffer\<rparr>))))"

definition append_outputs :: "input_buffers \<Rightarrow> history \<Rightarrow> history" where
  "append_outputs i h =
     h\<lparr>h_conversation := ((h_conversation h @ in_tool_output i) @ in_user_output i)
                         @ in_model_output i\<rparr>"

definition append_model_deltas :: "bool \<Rightarrow> stream_message list \<Rightarrow> history \<Rightarrow> history" where
  "append_model_deltas active ds h =
     (case write_model_deltas active 0 ds h of
        (written, h1) \<Rightarrow>
          if written > 0
          then drop_stale_model_deltas (h1\<lparr>h_model_count := h_model_count h1 + written\<rparr>)
          else h1)"

definition append_tool_user_deltas :: "input_buffers \<Rightarrow> history \<Rightarrow> history" where
  "append_tool_user_deltas i h =
     h\<lparr>h_deltas := (h_deltas h @ in_tool_delta i) @ in_user_delta i,
       h_tool_count := h_tool_count h + length (in_tool_delta i)\<rparr>"

definition update_world_history ::
    "global_ordering \<Rightarrow> 'f loop_state \<Rightarrow> global_ordering \<times> 'f loop_state" where
  "update_world_history go ls =
     (let i = ls_inputs ls;
          h1 = append_outputs i (ls_history ls);
          h2 = append_model_deltas (go_tool_batch_active go) (in_model_delta i) h1;
          h3 = append_tool_user_deltas i h2;
          (go1, h4) = settle_history go h3;
          (go2, h5) = compact_settled_assistant_audio (ls_mode ls) go1 h4
      in (go2, ls\<lparr>ls_history := h5\<rparr>))"

section \<open>The model window\<close>

definition model_window_ok :: "history \<Rightarrow> bool" where
  "model_window_ok h \<longleftrightarrow> h_model_start h + h_model_count h \<le> length (h_deltas h)"

definition new_model_deltas :: "stream_message list \<Rightarrow> stream_message list" where
  "new_model_deltas ds = filter (\<lambda>d. \<not> is_acknowledgement_delta d) ds"

lemma place_model_delta_keeps [simp]:
  "h_model_start (place_model_delta active idx d h) = h_model_start h"
  "h_model_count (place_model_delta active idx d h) = h_model_count h"
  "h_conversation (place_model_delta active idx d h) = h_conversation h"
  "h_next_index (place_model_delta active idx d h) = h_next_index h"
  "h_pass (place_model_delta active idx d h) = h_pass h"
  "h_held (place_model_delta active idx d h) = h_held h"
  by (simp_all add: place_model_delta_def shift_tool_delta_start_def)

lemma place_model_delta_window:
  assumes "s + n \<le> length (h_deltas h)"
  shows "window s (Suc n) (h_deltas (place_model_delta active (s + n) d h))
           = window s n (h_deltas h) @ [d]
       \<and> Suc (s + n) \<le> length (h_deltas (place_model_delta active (s + n) d h))"
  using assms
  by (auto simp: place_model_delta_def shift_tool_delta_start_def window_simps nth_append
        window_append_left)

lemma new_model_deltas_Cons:
  "new_model_deltas (d # ds) =
     (if is_acknowledgement_delta d then new_model_deltas ds else d # new_model_deltas ds)"
  by (simp add: new_model_deltas_def)

lemma write_model_deltas_window:
  "h_model_start h + h_model_count h + w \<le> length (h_deltas h) \<Longrightarrow>
   write_model_deltas active w ds h = (w', h') \<Longrightarrow>
   w' = w + length (new_model_deltas ds)
   \<and> h_model_start h' = h_model_start h \<and> h_model_count h' = h_model_count h
   \<and> h_model_start h + h_model_count h + w' \<le> length (h_deltas h')
   \<and> window (h_model_start h) (h_model_count h + w') (h_deltas h')
       = window (h_model_start h) (h_model_count h + w) (h_deltas h) @ new_model_deltas ds"
proof (induction active w ds h arbitrary: w' h' rule: write_model_deltas.induct)
  case (1 active written h)
  then show ?case by (simp add: new_model_deltas_def)
next
  case (2 active w d ds h)
  show ?case
  proof (cases "is_acknowledgement_delta d")
    case True
    then have "write_model_deltas active w ds h = (w', h')" using 2(4) by simp
    from 2(1) [OF True 2(3) this] show ?thesis
      unfolding new_model_deltas_Cons if_P [OF True] .
  next
    case False
    let ?h = "place_model_delta active (h_model_start h + h_model_count h + w) d h"
    have step: "window (h_model_start h) (Suc (h_model_count h + w)) (h_deltas ?h)
        = window (h_model_start h) (h_model_count h + w) (h_deltas h) @ [d]"
      "h_model_start ?h + h_model_count ?h + Suc w \<le> length (h_deltas ?h)"
      using place_model_delta_window [of "h_model_start h" "h_model_count h + w" h active d] 2(3)
      by (simp_all add: add.assoc)
    have "write_model_deltas active (Suc w) ds ?h = (w', h')" using 2(4) False by simp
    from 2(2) [OF False step(2) this] show ?thesis
      by (elim conjE) (simp add: new_model_deltas_Cons False step(1))
  qed
qed

lemma drop_stale_keeps [simp]:
  "h_model_start (drop_stale_model_deltas h) = h_model_start h"
  "h_model_count (drop_stale_model_deltas h) = h_model_count h"
  "h_conversation (drop_stale_model_deltas h) = h_conversation h"
  "h_next_index (drop_stale_model_deltas h) = h_next_index h"
  "h_pass (drop_stale_model_deltas h) = h_pass h"
  "h_held (drop_stale_model_deltas h) = h_held h"
  "h_tool_count (drop_stale_model_deltas h) = h_tool_count h"
  by (simp_all add: drop_stale_model_deltas_def Let_def)

lemma drop_stale_window:
  assumes "model_window_ok h"
  shows "model_window (drop_stale_model_deltas h) = model_window h
       \<and> model_window_ok (drop_stale_model_deltas h)"
  using assms
  by (auto simp: drop_stale_model_deltas_def Let_def model_window_def model_window_ok_def
        window_append_left window_take)

lemma append_model_deltas_window:
  assumes "model_window_ok h"
  shows "model_window (append_model_deltas active ds h) = model_window h @ new_model_deltas ds
       \<and> model_window_ok (append_model_deltas active ds h)"
proof -
  obtain w h1 where written: "write_model_deltas active 0 ds h = (w, h1)" by fastforce
  have facts: "w = length (new_model_deltas ds)" "h_model_start h1 = h_model_start h"
    "h_model_count h1 = h_model_count h"
    "h_model_start h + h_model_count h + w \<le> length (h_deltas h1)"
    "window (h_model_start h) (h_model_count h + w) (h_deltas h1)
       = model_window h @ new_model_deltas ds"
    using write_model_deltas_window [OF _ written] assms
    by (auto simp: model_window_ok_def model_window_def)
  then have "model_window_ok (h1\<lparr>h_model_count := h_model_count h1 + w\<rparr>)"
    "model_window (h1\<lparr>h_model_count := h_model_count h1 + w\<rparr>) = model_window h @ new_model_deltas ds"
    by (simp_all add: model_window_ok_def model_window_def add.assoc)
  then show ?thesis
    using facts drop_stale_window [of "h1\<lparr>h_model_count := h_model_count h1 + w\<rparr>"]
    by (cases "w = 0") (simp_all add: append_model_deltas_def written model_window_def model_window_ok_def)
qed

lemma append_tool_user_window:
  "model_window_ok h \<Longrightarrow> model_window (append_tool_user_deltas i h) = model_window h
     \<and> model_window_ok (append_tool_user_deltas i h)"
  by (simp add: append_tool_user_deltas_def model_window_def model_window_ok_def window_append_left)

lemma length_rewrite_range [simp]: "length (rewrite_range lo hi f xs) = length xs"
  by (simp add: rewrite_range_def)

lemma rewrite_range_nth:
  assumes "i < length xs"
  shows "rewrite_range lo hi f xs ! i = (if lo \<le> i \<and> i < hi then f (xs ! i) else xs ! i)"
  using assms by (simp add: rewrite_range_def nth_enumerate_eq)

lemma window_rewrite_range [window_simps]:
  assumes "hi \<le> s"
  shows "window s n (rewrite_range lo hi f xs) = window s n xs"
proof (rule nth_equalityI)
  show "length (window s n (rewrite_range lo hi f xs)) = length (window s n xs)"
    by (simp add: window_def)
  show "window s n (rewrite_range lo hi f xs) ! i = window s n xs ! i"
    if "i < length (window s n (rewrite_range lo hi f xs))" for i
    using that assms by (auto simp: window_def rewrite_range_nth)
qed

definition settled_prefix :: "global_ordering \<Rightarrow> history \<Rightarrow> nat" where
  "settled_prefix go h =
     (if go_tool_batch_active go
      then min (min (h_model_start h) (length (h_deltas h))) (h_tool_start h)
      else min (h_model_start h) (length (h_deltas h)))"

lemma settled_prefix_le: "settled_prefix go h \<le> h_model_start h"
  by (simp add: settled_prefix_def min_def)

lemma settle_history_cases:
  assumes "settle_history go h = (go', h')"
  obtains (Short) "settled_prefix go h \<le> settled_history_limit"
      "h' = h\<lparr>h_deltas := rewrite_range (go_settled_compacted go) (settled_prefix go h)
                 compact_audio_delta (h_deltas h)\<rparr>"
  | (Long) d where "settled_history_limit < settled_prefix go h"
      "d = settled_prefix go h - settled_history_limit div 2" "d \<le> h_model_start h"
      "h_model_start h' = h_model_start h - d" "h_model_count h' = h_model_count h"
      "h_deltas h' = drop d (rewrite_range (go_settled_compacted go) (settled_prefix go h)
                 compact_audio_delta (h_deltas h))"
      "h_tool_start h' = (if d \<le> h_tool_start h then h_tool_start h - d else 0)"
      "h_tool_count h' = (if d \<le> h_tool_start h then h_tool_count h else 0)"
proof (cases "settled_prefix go h \<le> settled_history_limit")
  case True
  then show thesis
    using assms Short by (simp add: settle_history_def Let_def flip: settled_prefix_def)
next
  case False
  have "settled_prefix go h - settled_history_limit div 2 \<le> h_model_start h"
    using settled_prefix_le [of go h] by simp
  then show thesis
    using assms False Long [OF _ refl] by (auto simp: settle_history_def Let_def simp flip: settled_prefix_def)
qed

lemma settle_window:
  assumes "settle_history go h = (go', h')" "model_window_ok h"
  shows "model_window h' = model_window h \<and> model_window_ok h'"
  using assms(1)
proof (cases rule: settle_history_cases)
  case Short
  then show ?thesis
    using assms(2) by (simp add: model_window_def model_window_ok_def
        window_rewrite_range [OF settled_prefix_le])
next
  case (Long d)
  show ?thesis
    using Long(3-6) assms(2) by (simp add: model_window_def model_window_ok_def window_drop
        window_rewrite_range [OF settled_prefix_le])
qed

lemma compact_assistant_window:
  "compact_settled_assistant_audio mode go h = (go', h') \<Longrightarrow>
   model_window h' = model_window h \<and> model_window_ok h' = model_window_ok h
   \<and> h_deltas h' = h_deltas h"
  by (auto simp: compact_settled_assistant_audio_def Let_def model_window_def model_window_ok_def
        split: if_splits option.splits)

lemma update_world_window:
  assumes "update_world_history go ls = (go', ls')" "model_window_ok (ls_history ls)"
  shows "model_window (ls_history ls')
           = model_window (ls_history ls) @ new_model_deltas (in_model_delta (ls_inputs ls))
       \<and> model_window_ok (ls_history ls')"
proof -
  let ?i = "ls_inputs ls"
  let ?h1 = "append_outputs ?i (ls_history ls)"
  let ?h2 = "append_model_deltas (go_tool_batch_active go) (in_model_delta ?i) ?h1"
  let ?h3 = "append_tool_user_deltas ?i ?h2"
  have h1: "model_window ?h1 = model_window (ls_history ls)" "model_window_ok ?h1"
    using assms(2) by (simp_all add: append_outputs_def model_window_def model_window_ok_def)
  have h3: "model_window ?h3 = model_window (ls_history ls) @ new_model_deltas (in_model_delta ?i)"
    "model_window_ok ?h3"
    using append_model_deltas_window [OF h1(2)] append_tool_user_window h1(1) by auto
  obtain go1 h4 where settle: "settle_history go ?h3 = (go1, h4)" by fastforce
  obtain go2 h5 where compact: "compact_settled_assistant_audio (ls_mode ls) go1 h4 = (go2, h5)"
    by fastforce
  have "ls' = ls\<lparr>ls_history := h5\<rparr>"
    using assms(1) by (simp add: update_world_history_def Let_def settle compact)
  then show ?thesis
    using settle_window [OF settle h3(2)] compact_assistant_window [OF compact] h3(1) by simp
qed

section \<open>What one input changes\<close>

lemma assign_stream_simps [simp]:
  "sm_value (fst (assign_stream_ordering d actor ls)) = sm_value d"
  "sm_response_purpose (fst (assign_stream_ordering d actor ls)) = sm_response_purpose d"
  "sm_global_index (fst (assign_stream_ordering d actor ls)) = h_next_index (ls_history ls)"
  "ls_inputs (snd (assign_stream_ordering d actor ls)) = ls_inputs ls"
  "ls_history (snd (assign_stream_ordering d actor ls))
     = (ls_history ls)\<lparr>h_next_index := Suc (h_next_index (ls_history ls))\<rparr>"
  by (simp_all add: assign_stream_ordering_def)

lemma reconstruct_values:
  assumes "map sm_value ds = map sm_value ds'"
  shows "reconstruct_model_message ds = reconstruct_model_message ds'"
proof -
  have "fold apply_model_delta ds st = fold apply_model_delta ds' st" for st
    using assms
  proof (induction ds arbitrary: ds' st)
    case (Cons d ds)
    then obtain d' rest where parts: "ds' = d' # rest" "sm_value d = sm_value d'"
      "map sm_value ds = map sm_value rest" by auto
    have "apply_model_delta d = apply_model_delta d'"
      unfolding apply_model_delta_def fun_eq_iff by (simp only: parts(2) simp_thms)
    then show ?case using Cons.IH [OF parts(3)] parts(1) by simp
  qed simp
  then show ?thesis by (simp add: reconstruct_model_message_def)
qed

text \<open>The histories agree on everything the model window depends on.\<close>

definition same_model_history :: "history \<Rightarrow> history \<Rightarrow> bool" where
  "same_model_history h h' \<longleftrightarrow> h_deltas h' = h_deltas h \<and> h_model_start h' = h_model_start h
     \<and> h_model_count h' = h_model_count h \<and> h_pass h' = h_pass h
     \<and> h_conversation h' = h_conversation h \<and> h_held h' = h_held h"

lemma same_model_history_refl [simp]: "same_model_history h h"
  by (simp add: same_model_history_def)

lemma same_model_history_trans:
  "same_model_history a b \<Longrightarrow> same_model_history b c \<Longrightarrow> same_model_history a c"
  by (simp add: same_model_history_def)

lemma append_model_output_same [simp]:
  "same_model_history (ls_history ls) (ls_history (append_model_output m ls))"
  "in_model_delta (ls_inputs (append_model_output m ls)) = in_model_delta (ls_inputs ls)"
  by (simp_all add: append_model_output_def assign_message_ordering_def same_model_history_def)

lemma append_tool_output_same [simp]:
  "same_model_history (ls_history ls) (ls_history (append_tool_output m ls))"
  "in_model_delta (ls_inputs (append_tool_output m ls)) = in_model_delta (ls_inputs ls)"
  by (simp_all add: append_tool_output_def assign_message_ordering_def same_model_history_def)

lemma fold_tool_output_same [simp]:
  "same_model_history (ls_history ls) (ls_history (fold append_tool_output ms ls))
   \<and> in_model_delta (ls_inputs (fold append_tool_output ms ls)) = in_model_delta (ls_inputs ls)"
proof (induction ms arbitrary: ls)
  case (Cons m ms)
  show ?case
    using Cons.IH [of "append_tool_output m ls"]
      same_model_history_trans [OF append_tool_output_same(1) [of ls m]] by simp
qed simp

lemma assemble_model_output_same [simp]:
  "same_model_history (ls_history ls) (ls_history (assemble_model_output d ls))"
  "in_model_delta (ls_inputs (assemble_model_output d ls)) = in_model_delta (ls_inputs ls)"
  by (simp_all add: assemble_model_output_def Let_def split: option.splits stream_value.splits)

text \<open>The model delta of an input that reaches the model history.\<close>

definition accepted_model_delta :: "int \<Rightarrow> tick_input \<Rightarrow> stream_message list" where
  "accepted_model_delta pass input =
     (case input of
        InputModelDelta d \<Rightarrow>
          if sm_loop_pass_id d > 0 \<and> sm_loop_pass_id d < pass then []
          else if is_acknowledgement_delta d then [] else [d]
      | _ \<Rightarrow> [])"

lemma consume_model_delta_effect:
  assumes "consume_model_delta d go ls = (None, go', ls')"
  shows "same_model_history (ls_history ls) (ls_history ls')
       \<and> map sm_value (new_model_deltas (in_model_delta (ls_inputs ls')))
         = map sm_value (new_model_deltas (in_model_delta (ls_inputs ls)))
           @ map sm_value (accepted_model_delta (h_pass (ls_history ls)) (InputModelDelta d))"
proof -
  define ls1 where "ls1 = snd (record_model_delta d ls)"
  define a where "a = fst (record_model_delta d ls)"
  have rec: "record_model_delta d ls = (a, ls1)" by (simp add: a_def ls1_def)
  have facts: "same_model_history (ls_history ls) (ls_history ls1)"
    "in_model_delta (ls_inputs ls1) = in_model_delta (ls_inputs ls) @ [a]"
    "sm_value a = sm_value d" "sm_response_purpose a = sm_response_purpose d"
    by (simp_all add: a_def ls1_def record_model_delta_def assign_stream_ordering_def
        same_model_history_def)
  show ?thesis
    using assms facts same_model_history_trans [OF facts(1) assemble_model_output_same(1)]
    by (auto simp: consume_model_delta_def rec stale_delta_def accepted_model_delta_def
          new_model_deltas_def is_acknowledgement_delta_def split: if_splits option.splits)
qed

lemma start_tool_batch_same [simp]: "same_model_history h (start_tool_batch h)"
  by (simp add: same_model_history_def start_tool_batch_def)

lemma assemble_tool_output_same:
  "assemble_tool_output a go ls = (go', ls') \<Longrightarrow>
   same_model_history (ls_history ls) (ls_history ls')
   \<and> in_model_delta (ls_inputs ls') = in_model_delta (ls_inputs ls)"
  using fold_tool_output_same [of ls "reconstruct_tool_messages (tool_deltas_for_current_batch ls)"]
  by (auto simp: assemble_tool_output_def split: option.splits stream_value.splits)

lemma record_tool_delta_same:
  "record_tool_delta d ls = (a, ls') \<Longrightarrow>
   same_model_history (ls_history ls) (ls_history ls')
   \<and> in_model_delta (ls_inputs ls') = in_model_delta (ls_inputs ls)"
  by (auto simp: record_tool_delta_def assign_stream_ordering_def same_model_history_def)

lemma mark_tool_failure_same [simp]:
  "ls_history (mark_tool_failure d ls) = ls_history ls"
  "in_model_delta (ls_inputs (mark_tool_failure d ls)) = in_model_delta (ls_inputs ls)"
  by (simp_all add: mark_tool_failure_def)

lemma consume_tool_delta_effect:
  assumes "consume_tool_delta d go ls = (None, go', ls')"
  shows "same_model_history (ls_history ls) (ls_history ls')
       \<and> in_model_delta (ls_inputs ls') = in_model_delta (ls_inputs ls)"
proof (cases "stale_delta d ls")
  case False
  obtain a ls1 where rec: "record_tool_delta d (mark_tool_failure d ls) = (a, ls1)" by fastforce
  have "assemble_tool_output a go ls1 = (go', ls')"
    using assms False by (simp add: consume_tool_delta_def rec split: option.splits)
  then show ?thesis
    using assemble_tool_output_same record_tool_delta_same [OF rec] same_model_history_trans
    by fastforce
qed (use assms in \<open>simp add: consume_tool_delta_def\<close>)

lemma apply_tick_input_effect:
  assumes "apply_tick_input input go ls = (None, go', ls')"
  shows "same_model_history (ls_history ls) (ls_history ls')
       \<and> map sm_value (new_model_deltas (in_model_delta (ls_inputs ls')))
         = map sm_value (new_model_deltas (in_model_delta (ls_inputs ls)))
           @ map sm_value (accepted_model_delta (h_pass (ls_history ls)) input)"
proof (cases input)
  case (InputModelDelta d)
  then show ?thesis
    using assms consume_model_delta_effect by (simp add: apply_tick_input_def)
next
  case (InputToolDelta d)
  then show ?thesis
    using assms consume_tool_delta_effect [of d go ls go' ls']
    by (simp add: apply_tick_input_def accepted_model_delta_def)
next
  case (InputInteraction e)
  then show ?thesis
    using assms by (auto simp: apply_tick_input_def accepted_model_delta_def)
next
  case (InputUser u)
  then show ?thesis
    using assms
    by (auto simp: apply_tick_input_def accepted_model_delta_def assign_message_ordering_def
          same_model_history_def split: option.splits if_splits)
qed

section \<open>A run of ticks of the ordering layer\<close>

text \<open>
  The ordering layer's share of a sequence of engine ticks: apply one input, fold it into
  history, flush. The subsystems run between the last two; \<^verbatim>\<open>None\<close> is a failed tick.
\<close>

fun ordering_ticks ::
    "tick_input list \<Rightarrow> global_ordering \<Rightarrow> 'f loop_state \<Rightarrow> (global_ordering \<times> 'f loop_state) option" where
  "ordering_ticks [] go ls = Some (go, ls)"
| "ordering_ticks (input # inputs) go ls =
     (case apply_tick_input input go ls of
        (Some e, _, _) \<Rightarrow> None
      | (None, go1, ls1) \<Rightarrow>
          (case update_world_history go1 ls1 of
             (go2, ls2) \<Rightarrow> ordering_ticks inputs go2 (flush_inputs ls2)))"

lemma settle_keeps:
  assumes "settle_history go h = (go', h')"
  shows "h_pass h' = h_pass h \<and> h_held h' = h_held h \<and> h_next_index h' = h_next_index h
       \<and> h_conversation h' = h_conversation h"
proof -
  have "h_pass (snd (settle_history go h)) = h_pass h"
    "h_held (snd (settle_history go h)) = h_held h"
    "h_next_index (snd (settle_history go h)) = h_next_index h"
    "h_conversation (snd (settle_history go h)) = h_conversation h"
    by (simp_all add: settle_history_def Let_def)
  then show ?thesis by (simp add: assms)
qed

lemma compact_keeps:
  "compact_settled_assistant_audio mode go h = (go', h') \<Longrightarrow>
   h_pass h' = h_pass h \<and> h_held h' = h_held h \<and> h_next_index h' = h_next_index h"
  by (auto simp: compact_settled_assistant_audio_def Let_def split: if_splits option.splits)

lemma write_model_deltas_keeps:
  "write_model_deltas active w ds h = (w', h') \<Longrightarrow>
   h_pass h' = h_pass h \<and> h_held h' = h_held h \<and> h_next_index h' = h_next_index h
   \<and> h_conversation h' = h_conversation h"
proof (induction active w ds h arbitrary: w' h' rule: write_model_deltas.induct)
  case (2 active w d ds h)
  then show ?case by (cases "is_acknowledgement_delta d") auto
qed simp

lemma append_model_deltas_keeps [simp]:
  "h_pass (append_model_deltas active ds h) = h_pass h"
  "h_held (append_model_deltas active ds h) = h_held h"
  "h_next_index (append_model_deltas active ds h) = h_next_index h"
  "h_conversation (append_model_deltas active ds h) = h_conversation h"
proof -
  obtain w h1 where written: "write_model_deltas active 0 ds h = (w, h1)" by fastforce
  show "h_pass (append_model_deltas active ds h) = h_pass h"
    "h_held (append_model_deltas active ds h) = h_held h"
    "h_next_index (append_model_deltas active ds h) = h_next_index h"
    "h_conversation (append_model_deltas active ds h) = h_conversation h"
    using write_model_deltas_keeps [OF written] by (simp_all add: append_model_deltas_def written)
qed

lemma update_world_keeps:
  assumes "update_world_history go ls = (go', ls')"
  shows "h_pass (ls_history ls') = h_pass (ls_history ls)
       \<and> h_held (ls_history ls') = h_held (ls_history ls)
       \<and> h_next_index (ls_history ls') = h_next_index (ls_history ls)
       \<and> ls_inputs ls' = ls_inputs ls \<and> ls_outputs ls' = ls_outputs ls
       \<and> ls_mode ls' = ls_mode ls"
proof -
  let ?h3 = "append_tool_user_deltas (ls_inputs ls)
    (append_model_deltas (go_tool_batch_active go) (in_model_delta (ls_inputs ls))
      (append_outputs (ls_inputs ls) (ls_history ls)))"
  obtain go1 h4 where settle: "settle_history go ?h3 = (go1, h4)" by fastforce
  obtain go2 h5 where compact: "compact_settled_assistant_audio (ls_mode ls) go1 h4 = (go2, h5)"
    by fastforce
  have "ls' = ls\<lparr>ls_history := h5\<rparr>"
    using assms by (simp add: update_world_history_def Let_def settle compact)
  moreover have "h_pass ?h3 = h_pass (ls_history ls)" "h_held ?h3 = h_held (ls_history ls)"
    "h_next_index ?h3 = h_next_index (ls_history ls)"
    by (simp_all add: append_tool_user_deltas_def append_outputs_def)
  ultimately show ?thesis
    using settle_keeps [OF settle] compact_keeps [OF compact] by simp
qed

lemma flush_inputs_empty [simp]:
  "ls_inputs (flush_inputs ls) = empty_inputs" "ls_history (flush_inputs ls) = ls_history ls"
  "ls_outputs (flush_inputs ls) = ls_outputs ls" "ls_mode (flush_inputs ls) = ls_mode ls"
  by (simp_all add: flush_inputs_def empty_inputs_def)

definition streamed_deltas :: "int \<Rightarrow> tick_input list \<Rightarrow> stream_message list" where
  "streamed_deltas pass inputs = concat (map (accepted_model_delta pass) inputs)"

lemma ordering_ticks_window:
  "ordering_ticks inputs go ls = Some (go', ls') \<Longrightarrow> model_window_ok (ls_history ls) \<Longrightarrow>
   ls_inputs ls = empty_inputs \<Longrightarrow>
   map sm_value (model_window (ls_history ls')) = map sm_value (model_window (ls_history ls))
     @ map sm_value (streamed_deltas (h_pass (ls_history ls)) inputs)
   \<and> model_window_ok (ls_history ls') \<and> ls_inputs ls' = empty_inputs
   \<and> h_pass (ls_history ls') = h_pass (ls_history ls)"
proof (induction inputs arbitrary: go ls)
  case Nil
  then show ?case by (simp add: streamed_deltas_def)
next
  case (Cons input inputs)
  let ?pass = "h_pass (ls_history ls)"
  obtain go1 ls1 where applied: "apply_tick_input input go ls = (None, go1, ls1)"
    using Cons.prems(1) by (cases "apply_tick_input input go ls") (auto split: option.splits)
  obtain go2 ls2 where updated: "update_world_history go1 ls1 = (go2, ls2)" by fastforce
  have eff: "same_model_history (ls_history ls) (ls_history ls1)"
    "map sm_value (new_model_deltas (in_model_delta (ls_inputs ls1)))
       = map sm_value (accepted_model_delta ?pass input)"
    using apply_tick_input_effect [OF applied] Cons.prems(3)
    by (simp_all add: empty_inputs_def new_model_deltas_def)
  then have win1: "model_window (ls_history ls1) = model_window (ls_history ls)"
    "model_window_ok (ls_history ls1)" "h_pass (ls_history ls1) = ?pass"
    using Cons.prems(2) by (simp_all add: same_model_history_def model_window_def model_window_ok_def)
  have win2: "map sm_value (model_window (ls_history ls2)) = map sm_value (model_window (ls_history ls))
      @ map sm_value (accepted_model_delta ?pass input)"
    "model_window_ok (ls_history ls2)" "h_pass (ls_history ls2) = ?pass"
    using update_world_window [OF updated win1(2)] update_world_keeps [OF updated] win1 eff
    by simp_all
  have "ordering_ticks inputs go2 (flush_inputs ls2) = Some (go', ls')"
    using Cons.prems(1) by (simp add: applied updated)
  from Cons.IH [OF this] show ?case
    using win2 by (simp add: streamed_deltas_def)
qed

lemma delta_facts_of_values:
  assumes "map sm_value ds = map sm_value ds'"
  shows "map delta_text ds = map delta_text ds'" "map delta_audio ds = map delta_audio ds'"
proof -
  have "map (case_option [] f \<circ> sm_value) ds = map (case_option [] f \<circ> sm_value) ds'" for f :: "stream_value \<Rightarrow> 'b list"
    using assms by (metis map_map)
  then show "map delta_text ds = map delta_text ds'" "map delta_audio ds = map delta_audio ds'"
    unfolding delta_text_def delta_audio_def comp_def by blast+
qed

lemma text_content_no_reasoning:
  "concat (map text_of_part (filter (\<lambda>p. \<not> is_reasoning_part p) ps)) = concat (map text_of_part ps)"
proof (induction ps)
  case (Cons p ps)
  then show ?case by (cases p) simp_all
qed simp

lemma audio_content_no_reasoning:
  "concat (map audio_of_part (filter (\<lambda>p. \<not> is_reasoning_part p) ps)) = concat (map audio_of_part ps)"
proof (induction ps)
  case (Cons p ps)
  then show ?case by (cases p) simp_all
qed simp

text \<open>
  C4: a streamed answer is assembled exactly, whatever is interleaved with it. Start a
  response with an empty model window and let any sequence of ticks that all succeed
  consume model, tool, user and interaction inputs. When its MESSAGE.END arrives, one
  model message is emitted: an assistant message whose text and audio are the
  concatenation of the accepted model deltas in order, whose tool calls are those of these
  deltas, and which carries no reasoning part. Deltas of a superseded pass and
  acknowledgement deltas contribute nothing.
\<close>

theorem streamed_message_assembled:
  assumes "ordering_ticks inputs go ls = Some (go1, ls1)"
    and "model_window_ok (ls_history ls)" "model_window (ls_history ls) = []"
    and "ls_inputs ls = empty_inputs"
    and "sm_value e = Some (VMessageEnd v)" "\<not> stale_delta e ls1"
    and "\<not> is_acknowledgement_delta e"
    and "streamed = streamed_deltas (h_pass (ls_history ls)) inputs"
  shows "\<exists>ls2 m. consume_model_delta e go1 ls1 = (None, go1, ls2)
    \<and> in_model_output (ls_inputs ls2) = [m] \<and> m_role m = RoleAssistant \<and> m_actor_id m = PModel
    \<and> text_content m = concat (map delta_text streamed)
    \<and> audio_content m = concat (map delta_audio streamed)
    \<and> m_tool_calls m = m_tool_calls (reconstruct_model_message (streamed @ [e]))
    \<and> list_all (\<lambda>p. \<not> is_reasoning_part p) (m_parts m)"
proof -
  have run: "map sm_value (model_window (ls_history ls1)) = map sm_value streamed"
    "model_window_ok (ls_history ls1)" "ls_inputs ls1 = empty_inputs"
    using ordering_ticks_window [OF assms(1,2,4)] assms(3,8) by simp_all
  let ?a = "fst (record_model_delta e ls1)" and ?ls = "snd (record_model_delta e ls1)"
  let ?msg = "reconstruct_model_message (streamed @ [e])"
  have rec: "sm_value ?a = Some (VMessageEnd v)" "sm_response_purpose ?a = sm_response_purpose e"
    "model_deltas_for_current_response ?ls = model_window (ls_history ls1) @ [?a]"
    "in_model_output (ls_inputs ?ls) = []"
    using assms(5) run(2,3)
    by (simp_all add: record_model_delta_def assign_stream_ordering_def empty_inputs_def
        model_deltas_for_current_response_def model_window_def model_window_ok_def Let_def)
  have msg: "reconstruct_model_message (model_deltas_for_current_response ?ls) = ?msg"
    using run(1) rec assms(5) by (intro reconstruct_values) simp
  let ?m = "(?msg\<lparr>m_parts := filter (\<lambda>p. \<not> is_reasoning_part p) (m_parts ?msg)\<rparr>)
      \<lparr>m_global_index := h_next_index (ls_history ?ls), m_actor_id := PModel\<rparr>"
  have "consume_model_delta e go1 ls1 = (None, go1, assemble_model_output ?a ?ls)"
    using assms(5,6,7) rec(2)
    by (simp add: consume_model_delta_def terminal_error_def is_acknowledgement_delta_def
        case_prod_beta)
  moreover have "in_model_output (ls_inputs (assemble_model_output ?a ?ls)) = [?m]"
    using rec(1,4) msg
    by (simp add: assemble_model_output_def append_model_output_def assign_message_ordering_def
        Let_def)
  moreover have "delta_text e = ''''" "delta_audio e = []"
    using assms(5) by (simp_all add: delta_text_def delta_audio_def)
  then have "text_content ?m = concat (map delta_text streamed)"
    "audio_content ?m = concat (map delta_audio streamed)"
    using reconstruct_text_content [of "streamed @ [e]"] reconstruct_audio_content [of "streamed @ [e]"]
    by (simp_all add: text_content_def audio_content_def text_content_no_reasoning
        audio_content_no_reasoning)
  ultimately show ?thesis
    by (intro exI [of _ "assemble_model_output ?a ?ls"] exI [of _ ?m]) (simp add: reconstruct_role list_all_iff)
qed

section \<open>Numbering\<close>

definition tick_indices :: "input_buffers \<Rightarrow> nat list" where
  "tick_indices i = map sm_global_index (in_model_delta i @ in_tool_delta i)
     @ map m_global_index (in_model_output i @ in_tool_output i @ in_user_output i
         @ in_user_control i)"

definition numbered :: "nat \<Rightarrow> 'f loop_state \<Rightarrow> bool" where
  "numbered n ls \<longleftrightarrow> n \<le> h_next_index (ls_history ls)
     \<and> tick_indices (ls_inputs ls) = [n..<h_next_index (ls_history ls)]"

lemma append_model_output_inputs:
  "ls_inputs (append_model_output m ls) = (ls_inputs ls)\<lparr>in_model_output :=
     in_model_output (ls_inputs ls) @ [m\<lparr>m_global_index := h_next_index (ls_history ls), m_actor_id := PModel\<rparr>]\<rparr>"
  "h_next_index (ls_history (append_model_output m ls)) = Suc (h_next_index (ls_history ls))"
  by (simp_all add: append_model_output_def assign_message_ordering_def)

lemma append_tool_output_inputs:
  "ls_inputs (append_tool_output m ls) = (ls_inputs ls)\<lparr>in_tool_output :=
     in_tool_output (ls_inputs ls) @ [m\<lparr>m_global_index := h_next_index (ls_history ls), m_actor_id := PTool\<rparr>]\<rparr>"
  "h_next_index (ls_history (append_tool_output m ls)) = Suc (h_next_index (ls_history ls))"
  by (simp_all add: append_tool_output_def assign_message_ordering_def)

lemma fold_tool_output_indices:
  "\<exists>out. ls_inputs (fold append_tool_output ms ls)
       = (ls_inputs ls)\<lparr>in_tool_output := in_tool_output (ls_inputs ls) @ out\<rparr>
     \<and> map m_global_index out
       = [h_next_index (ls_history ls)..<h_next_index (ls_history ls) + length ms]
     \<and> h_next_index (ls_history (fold append_tool_output ms ls))
       = h_next_index (ls_history ls) + length ms"
proof (induction ms arbitrary: ls)
  case Nil
  then show ?case by simp
next
  case (Cons m ms)
  let ?n = "h_next_index (ls_history ls)"
  let ?m = "m\<lparr>m_global_index := ?n, m_actor_id := PTool\<rparr>"
  obtain out where "ls_inputs (fold append_tool_output ms (append_tool_output m ls))
      = (ls_inputs ls)\<lparr>in_tool_output := in_tool_output (ls_inputs ls) @ ?m # out\<rparr>"
    "map m_global_index out = [Suc ?n..<?n + length (m # ms)]"
    "h_next_index (ls_history (fold append_tool_output ms (append_tool_output m ls)))
      = Suc ?n + length ms"
    using Cons.IH [of "append_tool_output m ls"]
    by (auto simp: append_tool_output_inputs simp del: upt_Suc)
  then show ?case
    by (intro exI [of _ "?m # out"]) (simp add: upt_conv_Cons del: upt_Suc)
qed

lemma consume_model_delta_indices:
  assumes "consume_model_delta d go ls = (r, go', ls')" "ls_inputs ls = empty_inputs"
  shows "numbered (h_next_index (ls_history ls)) ls'"
proof -
  define ls1 where "ls1 = snd (record_model_delta d ls)"
  define a where "a = fst (record_model_delta d ls)"
  have rec: "record_model_delta d ls = (a, ls1)" by (simp add: a_def ls1_def)
  have ls1: "ls_inputs ls1 = empty_inputs\<lparr>in_model_delta := [a]\<rparr>"
    "sm_global_index a = h_next_index (ls_history ls)"
    "h_next_index (ls_history ls1) = Suc (h_next_index (ls_history ls))"
    using assms(2) by (simp_all add: a_def ls1_def record_model_delta_def assign_stream_ordering_def
        empty_inputs_def)
  have out: "numbered (h_next_index (ls_history ls)) (assemble_model_output a ls1)"
    using ls1 by (simp add: numbered_def assemble_model_output_def Let_def append_model_output_inputs
        tick_indices_def empty_inputs_def split: option.splits stream_value.splits)
  show ?thesis
    using assms out ls1
    by (auto simp: numbered_def consume_model_delta_def rec tick_indices_def empty_inputs_def
          rollback_model_deltas_def split: if_splits option.splits)
qed

lemma consume_tool_delta_indices:
  assumes "consume_tool_delta d go ls = (r, go', ls')" "ls_inputs ls = empty_inputs"
  shows "numbered (h_next_index (ls_history ls)) ls'"
proof -
  obtain a ls1 where rec: "record_tool_delta d (mark_tool_failure d ls) = (a, ls1)" by fastforce
  have ls1: "in_tool_delta (ls_inputs ls1) = [a]" "in_model_delta (ls_inputs ls1) = []"
    "in_tool_output (ls_inputs ls1) = []" "in_model_output (ls_inputs ls1) = []"
    "in_user_output (ls_inputs ls1) = []" "in_user_control (ls_inputs ls1) = []"
    "sm_global_index a = h_next_index (ls_history ls)"
    "h_next_index (ls_history ls1) = Suc (h_next_index (ls_history ls))"
    using rec assms(2)
    by (auto simp: record_tool_delta_def assign_stream_ordering_def mark_tool_failure_def
        empty_inputs_def)
  let ?ms = "reconstruct_tool_messages (tool_deltas_for_current_batch ls1)"
  obtain out where out: "ls_inputs (fold append_tool_output ?ms ls1)
        = (ls_inputs ls1)\<lparr>in_tool_output := in_tool_output (ls_inputs ls1) @ out\<rparr>"
      "map m_global_index out
        = [h_next_index (ls_history ls1)..<h_next_index (ls_history ls1) + length ?ms]"
      "h_next_index (ls_history (fold append_tool_output ?ms ls1))
        = h_next_index (ls_history ls1) + length ?ms"
    using fold_tool_output_indices [of ?ms ls1] by blast
  have "numbered (h_next_index (ls_history ls)) (snd (assemble_tool_output a go ls1))"
    using ls1 out
    by (simp add: numbered_def assemble_tool_output_def start_tool_batch_def tick_indices_def
        upt_conv_Cons del: upt_Suc split: option.splits stream_value.splits)
  then show ?thesis
    using assms
    by (auto simp: numbered_def consume_tool_delta_def rec tick_indices_def empty_inputs_def
          split: if_splits option.splits)
qed

lemma apply_tick_input_indices:
  assumes "apply_tick_input input go ls = (r, go', ls')" "ls_inputs ls = empty_inputs"
  shows "numbered (h_next_index (ls_history ls)) ls'"
proof (cases input)
  case (InputModelDelta d)
  then show ?thesis using assms consume_model_delta_indices by (simp add: apply_tick_input_def)
next
  case (InputToolDelta d)
  then show ?thesis using assms consume_tool_delta_indices by (simp add: apply_tick_input_def)
next
  case (InputInteraction e)
  then show ?thesis using assms by (auto simp: numbered_def apply_tick_input_def tick_indices_def empty_inputs_def)
next
  case (InputUser u)
  then show ?thesis using assms
    by (auto simp: numbered_def apply_tick_input_def tick_indices_def empty_inputs_def assign_message_ordering_def
        split: option.splits if_splits)
qed

text \<open>The numbers given in a run of ticks, in the order they were given.\<close>

fun run_indices :: "tick_input list \<Rightarrow> global_ordering \<Rightarrow> 'f loop_state \<Rightarrow> nat list" where
  "run_indices [] go ls = []"
| "run_indices (input # inputs) go ls =
     (case apply_tick_input input go ls of
        (_, go1, ls1) \<Rightarrow> tick_indices (ls_inputs ls1) @
          (case update_world_history go1 ls1 of
             (go2, ls2) \<Rightarrow> run_indices inputs go2 (flush_inputs ls2)))"

text \<open>
  C3: numbering is total and gap free. Over any run of successful ticks the numbers given to
  consumed deltas and assembled messages are exactly the consecutive range from the first
  free number, each used once and in the order of consumption.
\<close>

theorem global_indices_gap_free:
  assumes "ls_inputs ls = empty_inputs" "ordering_ticks inputs go ls = Some (go', ls')"
  shows "run_indices inputs go ls = [h_next_index (ls_history ls)..<h_next_index (ls_history ls')]
       \<and> h_next_index (ls_history ls) \<le> h_next_index (ls_history ls')"
  using assms
proof (induction inputs arbitrary: go ls)
  case (Cons input inputs)
  obtain go1 ls1 where applied: "apply_tick_input input go ls = (None, go1, ls1)"
    using Cons.prems(2) by (cases "apply_tick_input input go ls") (auto split: option.splits)
  obtain go2 ls2 where updated: "update_world_history go1 ls1 = (go2, ls2)" by fastforce
  let ?n = "h_next_index (ls_history ls)" and ?n1 = "h_next_index (ls_history ls1)"
  have rest: "run_indices inputs go2 (flush_inputs ls2) = [?n1..<h_next_index (ls_history ls')]"
    "?n1 \<le> h_next_index (ls_history ls')"
    using Cons.IH [of "flush_inputs ls2" go2] Cons.prems(2) update_world_keeps [OF updated]
    by (simp_all add: applied updated)
  have first: "numbered ?n ls1"
    by (rule apply_tick_input_indices [OF applied Cons.prems(1)])
  then show ?case using rest
    by (simp add: applied updated numbered_def upt_join)
qed simp

section \<open>Stale deltas and terminal errors\<close>

text \<open>
  deltas of a superseded pass change nothing, and a terminal ERROR removes the response
  it ends. A delta whose pass is older than the current one is dropped without error, from
  either runner. A terminal ERROR of the model fails the tick with its value, empties the
  model outbox and cuts the history back to where the response began, leaving every
  earlier delta.
\<close>

theorem stale_and_failed_deltas:
  assumes "0 < sm_loop_pass_id d" "sm_loop_pass_id d < h_pass (ls_history ls)"
    and "sm_loop_pass_id e = 0" "sm_value e = Some (VError ev)" "is_terminal ev"
    and "model_window_ok (ls_history ls)"
  shows "consume_model_delta d go ls = (None, go, ls)
    \<and> consume_tool_delta d go ls = (None, go, ls)
    \<and> (\<exists>ls'. consume_model_delta e go ls
          = (Some (StreamDeltaError ev), go\<lparr>go_model_outbox := []\<rparr>, ls')
        \<and> h_deltas (ls_history ls') = take (h_model_start (ls_history ls)) (h_deltas (ls_history ls))
        \<and> model_window (ls_history ls') = [] \<and> model_window_ok (ls_history ls')
        \<and> ls_inputs ls' = ls_inputs ls)"
  using assms
  by (auto simp: consume_model_delta_def consume_tool_delta_def stale_delta_def terminal_error_def
      rollback_model_deltas_def model_window_def model_window_ok_def)

definition sample_state :: "unit loop_state" where
  "sample_state = ls_history_update (\<lambda>h. h\<lparr>h_deltas := [mk_delta StreamTextStart RoleUser VTextStart,
     mk_delta StreamTextStart RoleAssistant VTextStart], h_model_start := 1, h_model_count := 1,
     h_pass := 3\<rparr>) (new_loop_state ModeStreaming [] False)"

definition sample_stale :: stream_message where
  "sample_stale = (mk_delta StreamTextDelta RoleAssistant (VTextDelta ''x''))\<lparr>sm_loop_pass_id := 2\<rparr>"

definition sample_failure :: stream_message where
  "sample_failure = mk_delta StreamError RoleUnset (VError None)"

lemma stale_and_failed_deltas_witness:
  "consume_model_delta sample_stale new_global_ordering sample_state
     = (None, new_global_ordering, sample_state)
   \<and> consume_tool_delta sample_stale new_global_ordering sample_state
     = (None, new_global_ordering, sample_state)
   \<and> (\<exists>ls'. consume_model_delta sample_failure new_global_ordering sample_state
          = (Some (StreamDeltaError None), new_global_ordering\<lparr>go_model_outbox := []\<rparr>, ls')
        \<and> h_deltas (ls_history ls')
          = take (h_model_start (ls_history sample_state)) (h_deltas (ls_history sample_state))
        \<and> model_window (ls_history ls') = [] \<and> model_window_ok (ls_history ls')
        \<and> ls_inputs ls' = ls_inputs sample_state)"
  by (rule stale_and_failed_deltas)
     (simp_all add: sample_state_def sample_stale_def sample_failure_def mk_delta_def
        zero_stream_message_def is_terminal_def model_window_ok_def new_loop_state_def)

section \<open>The settled prefix is bounded\<close>

lemma settle_keeps_active:
  assumes "settle_history go h = (go', h')"
  shows "go_tool_batch_active go' = go_tool_batch_active go"
proof -
  have "go_tool_batch_active (fst (settle_history go h)) = go_tool_batch_active go"
    by (simp add: settle_history_def Let_def)
  then show ?thesis by (simp add: assms)
qed

lemma settled_prefix_cong:
  assumes "go_tool_batch_active go' = go_tool_batch_active go" "h_model_start h' = h_model_start h"
    "length (h_deltas h') = length (h_deltas h)" "h_tool_start h' = h_tool_start h"
  shows "settled_prefix go' h' = settled_prefix go h"
  unfolding settled_prefix_def assms ..

lemma settle_bounds:
  assumes "settle_history go h = (go', h')"
  shows "settled_prefix go' h' \<le> settled_history_limit"
  using assms
proof (cases rule: settle_history_cases)
  case Short
  have "settled_prefix go' h' = settled_prefix go h"
    by (rule settled_prefix_cong [OF settle_keeps_active [OF assms]]) (simp_all add: Short(2))
  then show ?thesis using Short(1) by simp
next
  case (Long d)
  have "h_tool_start h' \<le> h_tool_start h - d" "length (h_deltas h') = length (h_deltas h) - d"
    "h_model_start h' = h_model_start h - d"
    using Long(4,6,7) by simp_all
  then have "settled_prefix go' h' \<le> settled_prefix go h - d"
    unfolding settled_prefix_def settle_keeps_active [OF assms]
    by (cases "go_tool_batch_active go") (auto simp: min_def)
  then show ?thesis using Long(1,2) by (simp add: settled_history_limit_def)
qed

lemma settled_prefix_compact:
  assumes "compact_settled_assistant_audio mode go h = (go', h')"
  shows "settled_prefix go' h' = settled_prefix go h"
proof (rule settled_prefix_cong)
  have "go_tool_batch_active (fst (compact_settled_assistant_audio mode go h)) = go_tool_batch_active go"
    "h_model_start (snd (compact_settled_assistant_audio mode go h)) = h_model_start h"
    "h_deltas (snd (compact_settled_assistant_audio mode go h)) = h_deltas h"
    "h_tool_start (snd (compact_settled_assistant_audio mode go h)) = h_tool_start h"
    by (simp_all add: compact_settled_assistant_audio_def Let_def split: option.split)
  then show "go_tool_batch_active go' = go_tool_batch_active go" "h_model_start h' = h_model_start h"
    "length (h_deltas h') = length (h_deltas h)" "h_tool_start h' = h_tool_start h"
    by (simp_all add: assms)
qed

text \<open>
  the delta history is bounded by its live windows. Whatever a tick added, after it is
  folded in at most 4096 deltas precede the live windows: the settled prefix, up to the
  model window or an active tool batch's start, whichever is first, is within the limit.
\<close>

theorem settled_history_bounded:
  assumes "update_world_history go ls = (go', ls')"
  shows "settled_prefix go' (ls_history ls') \<le> 4096"
proof -
  let ?h3 = "append_tool_user_deltas (ls_inputs ls)
    (append_model_deltas (go_tool_batch_active go) (in_model_delta (ls_inputs ls))
      (append_outputs (ls_inputs ls) (ls_history ls)))"
  obtain go1 h4 where settle: "settle_history go ?h3 = (go1, h4)" by fastforce
  obtain go2 h5 where compact: "compact_settled_assistant_audio (ls_mode ls) go1 h4 = (go2, h5)"
    by fastforce
  have "ls' = ls\<lparr>ls_history := h5\<rparr>" "go' = go2"
    using assms by (simp_all add: update_world_history_def Let_def settle compact)
  then show ?thesis
    using settle_bounds [OF settle] settled_prefix_compact [OF compact]
    by (simp add: settled_history_limit_def)
qed

lemma settled_history_bounded_witness:
  "settled_prefix (fst (update_world_history new_global_ordering sample_state))
     (ls_history (snd (update_world_history new_global_ordering sample_state))) \<le> 4096"
  by (rule settled_history_bounded) simp

section \<open>The tool window\<close>

text \<open>
  The tool window and what keeps it whole: it lies behind the model window, and it holds no
  delta the model path would overwrite or drop.
\<close>

definition tool_window_ok :: "history \<Rightarrow> bool" where
  "tool_window_ok h \<longleftrightarrow> h_tool_start h + h_tool_count h = length (h_deltas h)
     \<and> 0 < h_tool_count h \<and> h_model_start h + h_model_count h \<le> h_tool_start h
     \<and> list_all (\<lambda>d. \<not> is_model_history_delta d) (drop (h_tool_start h) (h_deltas h))"

lemma tool_window_suffix: "tool_window_ok h \<Longrightarrow> tool_window h = drop (h_tool_start h) (h_deltas h)"
  by (auto simp: tool_window_ok_def tool_window_def window_def intro!: take_all)

lemma list_all_drop_nth:
  assumes "list_all P (drop s xs)" "s \<le> i" "i < length xs"
  shows "P (xs ! i)"
proof -
  have "xs ! i = drop s xs ! (i - s)" "i - s < length (drop s xs)"
    using assms(2,3) by simp_all
  then show ?thesis using assms(1) by (metis list_all_length)
qed

lemma place_model_delta_tool:
  assumes "idx \<le> h_tool_start h" "h_tool_start h < length (h_deltas h)"
    and "list_all (\<lambda>d. \<not> is_model_history_delta d) (drop (h_tool_start h) (h_deltas h))"
  shows "h_tool_count (place_model_delta True idx d h) = h_tool_count h
    \<and> Suc idx \<le> h_tool_start (place_model_delta True idx d h)
    \<and> drop (h_tool_start (place_model_delta True idx d h)) (h_deltas (place_model_delta True idx d h))
        = drop (h_tool_start h) (h_deltas h)"
proof (cases "is_model_history_delta (h_deltas h ! idx)")
  case True
  have "idx < h_tool_start h"
    using list_all_drop_nth [OF assms(3) order_refl assms(2)] assms(1) True
    by (cases "idx = h_tool_start h") auto
  then show ?thesis using True assms(2) by (simp add: place_model_delta_def)
next
  case False
  have "drop (Suc (h_tool_start h)) (insert_at idx d (h_deltas h)) = drop (h_tool_start h) (h_deltas h)"
    using assms(1,2) by (simp add: insert_at_def Suc_diff_le)
  then show ?thesis
    using False assms(1,2) by (simp add: place_model_delta_def shift_tool_delta_start_def)
qed

lemma write_model_deltas_tool:
  "write_model_deltas True w ds h = (w', h') \<Longrightarrow>
   h_model_start h + h_model_count h + w \<le> h_tool_start h \<Longrightarrow>
   h_tool_start h < length (h_deltas h) \<Longrightarrow>
   list_all (\<lambda>d. \<not> is_model_history_delta d) (drop (h_tool_start h) (h_deltas h)) \<Longrightarrow>
   h_tool_count h' = h_tool_count h \<and> h_tool_start h' < length (h_deltas h')
   \<and> h_model_start h' + h_model_count h' + w' \<le> h_tool_start h'
   \<and> drop (h_tool_start h') (h_deltas h') = drop (h_tool_start h) (h_deltas h)"
proof (induction ds arbitrary: w h)
  case (Cons d ds)
  show ?case
  proof (cases "is_acknowledgement_delta d")
    case True
    then show ?thesis using Cons by simp
  next
    case False
    let ?idx = "h_model_start h + h_model_count h + w"
    let ?h = "place_model_delta True ?idx d h"
    have step: "h_tool_count ?h = h_tool_count h" "Suc ?idx \<le> h_tool_start ?h"
      "drop (h_tool_start ?h) (h_deltas ?h) = drop (h_tool_start h) (h_deltas h)"
      using place_model_delta_tool [OF Cons.prems(2,3,4), of d] by simp_all
    have "drop (h_tool_start ?h) (h_deltas ?h) \<noteq> []" using step(3) Cons.prems(3) by simp
    then have "h_tool_start ?h < length (h_deltas ?h)" by simp
    moreover have "write_model_deltas True (Suc w) ds ?h = (w', h')"
      using Cons.prems(1) False by simp
    ultimately show ?thesis
      using Cons.IH [of "Suc w" ?h] step Cons.prems(4) by simp
  qed
qed simp

lemma filter_length_split: "length (filter P xs) + length (filter (\<lambda>x. \<not> P x) xs) = length xs"
  by (induction xs) simp_all

lemma drop_stale_tool:
  assumes "h_model_start h + h_model_count h \<le> h_tool_start h" "h_tool_start h < length (h_deltas h)"
    and "list_all (\<lambda>d. \<not> is_model_history_delta d) (drop (h_tool_start h) (h_deltas h))"
  shows "h_model_start h + h_model_count h \<le> h_tool_start (drop_stale_model_deltas h)
    \<and> drop (h_tool_start (drop_stale_model_deltas h)) (h_deltas (drop_stale_model_deltas h))
        = drop (h_tool_start h) (h_deltas h)"
proof -
  let ?stop = "h_model_start h + h_model_count h" and ?ts = "h_tool_start h" and ?ds = "h_deltas h"
  let ?keep = "\<lambda>d. \<not> is_model_history_delta d"
  define mid where "mid = drop ?stop (take ?ts ?ds)"
  define removed where "removed = length (filter is_model_history_delta mid)"
  have "drop ?stop ?ds = mid @ drop ?ts ?ds"
    using assms(1,2) by (simp add: mid_def drop_take) (metis append_take_drop_id drop_drop le_add_diff_inverse2)
  then have rest: "filter ?keep (drop ?stop ?ds) = filter ?keep mid @ drop ?ts ?ds"
    using assms(3) by (simp add: filter_id_conv list_all_iff)
  have len: "length mid = ?ts - ?stop" using assms(1,2) by (simp add: mid_def)
  have ts: "?ts - removed = ?stop + length (filter ?keep mid)"
    using filter_length_split [of is_model_history_delta mid] len assms(1) by (simp add: removed_def)
  have "h_tool_start (drop_stale_model_deltas h) = ?ts - removed"
    "h_deltas (drop_stale_model_deltas h) = take ?stop ?ds @ filter ?keep mid @ drop ?ts ?ds"
    using assms(1,2) rest
    by (simp_all add: drop_stale_model_deltas_def Let_def removed_def mid_def)
  then show ?thesis using ts assms(1,2) by simp
qed

lemma append_model_deltas_tool:
  assumes "tool_window_ok h"
  shows "tool_window_ok (append_model_deltas True ds h)
       \<and> tool_window (append_model_deltas True ds h) = tool_window h"
proof -
  obtain w h1 where written: "write_model_deltas True 0 ds h = (w, h1)" by fastforce
  have w: "h_tool_count h1 = h_tool_count h" "h_tool_start h1 < length (h_deltas h1)"
    "h_model_start h1 + h_model_count h1 + w \<le> h_tool_start h1"
    "drop (h_tool_start h1) (h_deltas h1) = drop (h_tool_start h) (h_deltas h)"
    using write_model_deltas_tool [OF written] assms by (simp_all add: tool_window_ok_def)
  let ?h1 = "h1\<lparr>h_model_count := h_model_count h1 + w\<rparr>"
  define h2 where "h2 = append_model_deltas True ds h"
  have h2: "h_tool_count h2 = h_tool_count h"
    "h_model_start h2 + h_model_count h2 \<le> h_tool_start h2"
    "drop (h_tool_start h2) (h_deltas h2) = drop (h_tool_start h) (h_deltas h)"
    using w drop_stale_tool [of ?h1] assms
    by (cases "w = 0"; simp add: h2_def append_model_deltas_def written tool_window_ok_def add.assoc)+
  have "length (h_deltas h2) - h_tool_start h2 = h_tool_count h"
    using arg_cong [OF h2(3), of length] assms by (auto simp: tool_window_ok_def)
  then have "h_tool_start h2 + h_tool_count h2 = length (h_deltas h2)"
    using assms unfolding h2(1) tool_window_ok_def by linarith
  then have "tool_window_ok h2"
    using h2(1,2) assms unfolding tool_window_ok_def h2(3) by simp
  then show ?thesis
    using h2 assms tool_window_suffix by (simp add: h2_def)
qed

lemma settle_tool_window:
  assumes "settle_history go h = (go', h')" "tool_window_ok h" "go_tool_batch_active go"
  shows "tool_window_ok h' \<and> tool_window h' = tool_window h"
proof -
  have le: "settled_prefix go h \<le> h_tool_start h"
    using assms(3) by (simp add: settled_prefix_def)
  have same: "drop (h_tool_start h) (rewrite_range lo (settled_prefix go h) f (h_deltas h))
      = drop (h_tool_start h) (h_deltas h)" for lo f
    using window_rewrite_range [OF le, of "length (h_deltas h)" lo f "h_deltas h"]
    by (simp add: window_def)
  show ?thesis
    using assms(1)
  proof (cases rule: settle_history_cases)
    case Short
    have "tool_window_ok h'"
      using assms(2) same unfolding Short(2) by (simp add: tool_window_ok_def)
    then show ?thesis
      using tool_window_suffix assms(2) same unfolding Short(2) by simp
  next
    case (Long d)
    have d: "d \<le> h_tool_start h" using le Long(2) by simp
    have start: "h_tool_start h' = h_tool_start h - d" "h_tool_count h' = h_tool_count h"
      using Long(7,8) d by simp_all
    have deltas: "drop (h_tool_start h') (h_deltas h') = drop (h_tool_start h) (h_deltas h)"
      using d same by (simp add: start Long(6))
    have "h_model_start h' + h_model_count h' \<le> h_tool_start h'"
      using assms(2) d Long(3) unfolding start Long(4,5) tool_window_ok_def by linarith
    moreover have "h_tool_start h' + h_tool_count h' = length (h_deltas h')"
      using assms(2) d by (simp add: start Long(6) tool_window_ok_def)
    ultimately have "tool_window_ok h'"
      using assms(2) deltas by (simp add: tool_window_ok_def start(2))
    then show ?thesis using tool_window_suffix assms(2) deltas by simp
  qed
qed

text \<open>
  a running tool batch keeps its deltas together. While a batch is active, its window
  lies behind the model window, and no user deltas are added, folding a tick into history
  appends exactly the tick's tool deltas to the tool window, whatever model deltas arrive,
  overwrite old ones or are inserted before the batch, and whatever is discarded from the
  settled prefix.
\<close>

theorem tool_window_grows:
  assumes "update_world_history go ls = (go', ls')" "go_tool_batch_active go"
    and "tool_window_ok (ls_history ls)" "in_user_delta (ls_inputs ls) = []"
    and "list_all (\<lambda>d. sm_actor_id d = PTool) (in_tool_delta (ls_inputs ls))"
  shows "tool_window (ls_history ls') = tool_window (ls_history ls) @ in_tool_delta (ls_inputs ls)
       \<and> tool_window_ok (ls_history ls')"
proof -
  let ?i = "ls_inputs ls"
  let ?h1 = "append_outputs ?i (ls_history ls)"
  let ?h2 = "append_model_deltas True (in_model_delta ?i) ?h1"
  let ?h3 = "append_tool_user_deltas ?i ?h2"
  have h1: "tool_window_ok ?h1" "tool_window ?h1 = tool_window (ls_history ls)"
    using assms(3) by (simp_all add: append_outputs_def tool_window_ok_def tool_window_def)
  have h2: "tool_window_ok ?h2" "tool_window ?h2 = tool_window (ls_history ls)"
    using append_model_deltas_tool [OF h1(1)] h1(2) by simp_all
  have "list_all (\<lambda>d. \<not> is_model_history_delta d) (in_tool_delta ?i)"
    using assms(5) by (auto simp: list_all_iff is_model_history_delta_def)
  then have "tool_window_ok ?h3"
    using h2(1) assms(4) by (auto simp: tool_window_ok_def append_tool_user_deltas_def)
  moreover have "tool_window ?h3 = tool_window (ls_history ls) @ in_tool_delta ?i"
    using h2 tool_window_suffix [OF calculation] tool_window_suffix [OF h2(1)] assms(4)
    by (auto simp: append_tool_user_deltas_def tool_window_ok_def)
  moreover obtain go1 h4 where settle: "settle_history go ?h3 = (go1, h4)" by fastforce
  moreover obtain go2 h5 where compact: "compact_settled_assistant_audio (ls_mode ls) go1 h4 = (go2, h5)"
    by fastforce
  ultimately have h4: "tool_window_ok h4"
    "tool_window h4 = tool_window (ls_history ls) @ in_tool_delta ?i"
    using settle_tool_window [OF settle _ assms(2)] by simp_all
  have "h_tool_start h5 = h_tool_start h4" "h_tool_count h5 = h_tool_count h4" "h_deltas h5 = h_deltas h4"
    "h_model_start h5 = h_model_start h4" "h_model_count h5 = h_model_count h4"
    using compact by (auto simp: compact_settled_assistant_audio_def Let_def split: if_splits option.splits)
  moreover have "ls' = ls\<lparr>ls_history := h5\<rparr>"
    using assms(1,2) by (simp add: update_world_history_def Let_def settle compact)
  ultimately show ?thesis
    using h4 by (simp add: tool_window_def tool_window_ok_def)
qed

definition sample_tool_delta :: "stream_value \<Rightarrow> stream_message" where
  "sample_tool_delta v = (mk_delta StreamTextDelta RoleTool v)\<lparr>sm_tool_call_id := ''c'', sm_actor_id := PTool\<rparr>"

definition sample_batch_state :: "unit loop_state" where
  "sample_batch_state = ls_inputs_update (in_tool_delta_update (\<lambda>_. [sample_tool_delta (VTextDelta ''r'')]))
     (ls_inputs_update (in_model_delta_update (\<lambda>_. [mk_delta StreamTextDelta RoleAssistant (VTextDelta ''m'')]))
       (ls_history_update (\<lambda>h. h\<lparr>h_deltas := [sample_tool_delta VMessageStart], h_tool_count := 1\<rparr>)
          (new_loop_state DuplexSession [] True)))"

lemma tool_window_grows_witness:
  "tool_window (ls_history (snd (update_world_history
       (new_global_ordering\<lparr>go_tool_batch_active := True\<rparr>) sample_batch_state)))
     = tool_window (ls_history sample_batch_state) @ in_tool_delta (ls_inputs sample_batch_state)
   \<and> tool_window_ok (ls_history (snd (update_world_history
       (new_global_ordering\<lparr>go_tool_batch_active := True\<rparr>) sample_batch_state)))"
  by (rule tool_window_grows [of "new_global_ordering\<lparr>go_tool_batch_active := True\<rparr>" _
        "fst (update_world_history (new_global_ordering\<lparr>go_tool_batch_active := True\<rparr>) sample_batch_state)"])
     (simp_all add: sample_batch_state_def new_loop_state_def empty_history_def empty_inputs_def
        tool_window_ok_def is_model_history_delta_def sample_tool_delta_def mk_delta_def
        zero_stream_message_def)

definition harmless_input :: "tick_input \<Rightarrow> bool" where
  "harmless_input i = (case i of
     InputModelDelta d \<Rightarrow> terminal_error d = None
   | InputToolDelta d \<Rightarrow> terminal_error d = None
   | InputUser u \<Rightarrow> ur_error u = None
   | InputInteraction e \<Rightarrow> True)"

lemma harmless_input_succeeds: "harmless_input i \<Longrightarrow> fst (apply_tick_input i go ls) = None"
  by (simp add: harmless_input_def apply_tick_input_def consume_model_delta_def
      consume_tool_delta_def case_prod_beta split: tick_input.splits)

lemma ordering_ticks_total:
  "list_all harmless_input inputs \<Longrightarrow> \<exists>go' ls'. ordering_ticks inputs go ls = Some (go', ls')"
proof (induction inputs arbitrary: go ls)
  case (Cons i inputs)
  obtain go1 ls1 where "apply_tick_input i go ls = (None, go1, ls1)"
    using harmless_input_succeeds [of i go ls] Cons.prems
    by (cases "apply_tick_input i go ls") simp
  then show ?case using Cons by (simp add: case_prod_beta)
qed simp

lemma streamed_message_assembled_witness:
  "\<exists>go1 ls1 ls2 m. ordering_ticks
       [InputModelDelta (mk_delta StreamTextDelta RoleAssistant (VTextDelta ''hi'')),
        InputToolDelta (mk_delta StreamTextStart RoleTool VTextStart),
        InputModelDelta (mk_delta StreamTextDelta RoleAssistant (VTextDelta '' you''))]
       new_global_ordering (new_loop_state DuplexSession [] True :: unit loop_state) = Some (go1, ls1)
     \<and> consume_model_delta (mk_delta StreamMessageEnd RoleAssistant (VMessageEnd None)) go1 ls1
         = (None, go1, ls2)
     \<and> in_model_output (ls_inputs ls2) = [m] \<and> text_content m = ''hi you''"
proof -
  let ?inputs = "[InputModelDelta (mk_delta StreamTextDelta RoleAssistant (VTextDelta ''hi'')),
        InputToolDelta (mk_delta StreamTextStart RoleTool VTextStart),
        InputModelDelta (mk_delta StreamTextDelta RoleAssistant (VTextDelta '' you''))]"
  let ?ls = "new_loop_state DuplexSession [] True :: unit loop_state"
  let ?e = "mk_delta StreamMessageEnd RoleAssistant (VMessageEnd None)"
  obtain go1 ls1 where run: "ordering_ticks ?inputs new_global_ordering ?ls = Some (go1, ls1)"
    using ordering_ticks_total [of ?inputs new_global_ordering ?ls]
    by (auto simp: harmless_input_def terminal_error_def mk_delta_def zero_stream_message_def)
  have start: "model_window_ok (ls_history ?ls)" "model_window (ls_history ?ls) = []"
    "ls_inputs ?ls = empty_inputs"
    by (simp_all add: new_loop_state_def empty_history_def model_window_ok_def model_window_def)
  have stop: "sm_value ?e = Some (VMessageEnd None)" "\<not> stale_delta ?e ls1"
    "\<not> is_acknowledgement_delta ?e"
    by (simp_all add: mk_delta_def zero_stream_message_def stale_delta_def is_acknowledgement_delta_def)
  have heard: "concat (map delta_text (streamed_deltas (h_pass (ls_history ?ls)) ?inputs)) = ''hi you''"
    by (simp add: streamed_deltas_def accepted_model_delta_def mk_delta_def zero_stream_message_def
        is_acknowledgement_delta_def delta_text_def)
  show ?thesis
    using streamed_message_assembled [OF run start stop refl] run unfolding heard by blast
qed

lemma global_indices_gap_free_witness:
  "\<exists>go' ls'. run_indices [InputModelDelta (mk_delta StreamTextDelta RoleAssistant (VTextDelta ''hi'')),
        InputModelDelta (mk_delta StreamMessageEnd RoleAssistant (VMessageEnd None))]
       new_global_ordering (new_loop_state DuplexSession [] True :: unit loop_state)
      = [0..<h_next_index (ls_history ls')]
   \<and> ordering_ticks [InputModelDelta (mk_delta StreamTextDelta RoleAssistant (VTextDelta ''hi'')),
        InputModelDelta (mk_delta StreamMessageEnd RoleAssistant (VMessageEnd None))]
       new_global_ordering (new_loop_state DuplexSession [] True :: unit loop_state) = Some (go', ls')"
proof -
  let ?inputs = "[InputModelDelta (mk_delta StreamTextDelta RoleAssistant (VTextDelta ''hi'')),
        InputModelDelta (mk_delta StreamMessageEnd RoleAssistant (VMessageEnd None))]"
  let ?ls = "new_loop_state DuplexSession [] True :: unit loop_state"
  obtain go' ls' where run: "ordering_ticks ?inputs new_global_ordering ?ls = Some (go', ls')"
    using ordering_ticks_total [of ?inputs new_global_ordering ?ls]
    by (auto simp: harmless_input_def terminal_error_def mk_delta_def zero_stream_message_def)
  have zero: "ls_inputs ?ls = empty_inputs" "h_next_index (ls_history ?ls) = 0"
    by (simp_all add: new_loop_state_def empty_history_def)
  show ?thesis using global_indices_gap_free [OF zero(1) run] run unfolding zero(2) by blast
qed

end
