(* ===== verification/Interrupt.thy ===== *)
theory Interrupt
  imports Ordering
begin

text \<open>
  The interrupt subsystem, \<^verbatim>\<open>subsystems/interrupt_handler.go\<close>. It runs before the
  coordinator: on a tick that carries an interrupt control message it saves the partial
  response, cancels the runners, answers every tool call that was cut off, places the held
  user turns, adds the interrupt's own text and starts a new pass. Cancelling a runner is
  recorded in \<^verbatim>\<open>cancel_requests\<close>; the log lines are left out.
\<close>

section \<open>Operations\<close>

definition part_has_content :: "content_part \<Rightarrow> bool" where
  "part_has_content p =
     (case p of
        TextPart t \<Rightarrow> t \<noteq> ''''
      | ReasoningPart r \<Rightarrow> r \<noteq> ''''
      | ImagePart url bytes _ \<Rightarrow> length bytes > 0 \<or> url \<noteq> ''''
      | AudioPart url bytes _ \<Rightarrow> length bytes > 0 \<or> url \<noteq> ''''
      | VideoPart url bytes _ \<Rightarrow> length bytes > 0 \<or> url \<noteq> ''''
      | FilePart url bytes _ _ \<Rightarrow> length bytes > 0 \<or> url \<noteq> ''''
      | _ \<Rightarrow> False)"

definition has_content :: "message \<Rightarrow> bool" where
  "has_content m \<longleftrightarrow> (if length (m_tool_calls m) > 0 then True else list_ex part_has_content (m_parts m))"

definition interrupted_tool_result_text :: string where
  "interrupted_tool_result_text = ''cancelled: interrupted before the tool returned a result''"

text \<open>
  The backwards scan of \<^verbatim>\<open>cancelledToolResults\<close> over the first \<^verbatim>\<open>n\<close> messages: the
  index of the latest assistant message with tool calls, unless a user message comes
  first.
\<close>

fun open_calls_at :: "message list \<Rightarrow> nat \<Rightarrow> nat option" where
  "open_calls_at msgs 0 = None"
| "open_calls_at msgs (Suc n) =
     (if m_role (msgs ! n) = RoleAssistant \<and> length (m_tool_calls (msgs ! n)) > 0 then Some n
      else if m_role (msgs ! n) = RoleUser then None
      else open_calls_at msgs n)"

definition answered_ids :: "message list \<Rightarrow> string list" where
  "answered_ids ms = map m_tool_call_id (filter (\<lambda>m. m_role m = RoleTool) ms)"

definition cancelled_result :: "tool_call \<Rightarrow> message" where
  "cancelled_result c =
     zero_message\<lparr>m_role := RoleTool, m_tool_call_id := tc_id c, m_name := tc_name c,
       m_parts := [TextPart interrupted_tool_result_text]\<rparr>"

definition cancelled_tool_results :: "message list \<Rightarrow> message list" where
  "cancelled_tool_results msgs =
     (case open_calls_at msgs (length msgs) of
        None \<Rightarrow> []
      | Some at \<Rightarrow>
          (let answered = answered_ids (drop (Suc at) msgs)
           in map cancelled_result
                (filter (\<lambda>c. tc_id c \<notin> set answered) (m_tool_calls (msgs ! at)))))"

definition save_partial_response :: "'f loop_state \<Rightarrow> 'f loop_state" where
  "save_partial_response ls =
     (let h = ls_history ls in
      if h_model_count h > 0 \<and> h_model_start h + h_model_count h \<le> length (h_deltas h)
      then (let partial = reconstruct_model_message (model_window h)
            in if has_content partial
               then ls_history_update (h_conversation_update (\<lambda>c. c @ [partial])) ls else ls)
      else ls)"

definition add_cancelled_result :: "message \<Rightarrow> 'f loop_state \<Rightarrow> 'f loop_state" where
  "add_cancelled_result r ls =
     ls_history_update (h_conversation_update (\<lambda>c. c @ [r])) (write_full_message PTool r ls)"

text \<open>The text of the first interrupt message, when it has one.\<close>

definition interrupt_text :: "message list \<Rightarrow> string" where
  "interrupt_text controls =
     (case filter is_interrupt_message controls of [] \<Rightarrow> '''' | m # _ \<Rightarrow> text_content m)"

definition add_interrupt_text :: "'f loop_state \<Rightarrow> 'f loop_state" where
  "add_interrupt_text ls =
     (let t = interrupt_text (in_user_control (ls_inputs ls))
      in if t \<noteq> ''''
         then ls_history_update (h_conversation_update (\<lambda>c. c @ [new_text_message RoleUser t])) ls
         else ls)"

text \<open>Step 4 and 5: a new pass with an empty model window, and the request that resumes it.\<close>

definition begin_new_pass :: "history \<Rightarrow> history" where
  "begin_new_pass h = h\<lparr>h_pass := h_pass h + 1, h_model_start := length (h_deltas h),
     h_model_count := 0\<rparr>"

definition resume_request :: "'f loop_state \<Rightarrow> 'f inference_request" where
  "resume_request ls =
     \<lparr>iq_messages = h_conversation (ls_history ls), iq_tools = ls_tools ls,
      iq_loop_pass_id = h_pass (ls_history ls), iq_max_tokens = None, iq_temperature = None,
      iq_stop_sequences = [], iq_frequency_penalty = None\<rparr>"

record cancel_requests =
  cr_model :: nat
  cr_tool :: nat

definition interrupt_execute :: "cancel_requests \<Rightarrow> 'f loop_state \<Rightarrow> cancel_requests \<times> 'f loop_state" where
  "interrupt_execute cr ls =
     (if \<not> has_interrupt_message (in_user_control (ls_inputs ls)) then (cr, ls)
      else (let ls1 = save_partial_response ls;
                cr1 = cr\<lparr>cr_model := Suc (cr_model cr), cr_tool := Suc (cr_tool cr)\<rparr>;
                ls2 = fold add_cancelled_result
                        (cancelled_tool_results (h_conversation (ls_history ls1))) ls1;
                ls3 = place_held_user_messages ls2;
                ls4 = add_interrupt_text ls3;
                ls5 = ls_history_update begin_new_pass ls4
            in (cr1, write_model_request (resume_request ls5) ls5)))"

section \<open>Tool calls without a result\<close>

text \<open>
  What the results are for, said without the handler's scan: a call of an assistant message is open
  when no tool message after it carries its identity, and the conversation has moved on from a
  message when a user message or further tool calls came after it.
\<close>

definition call_open :: "message list \<Rightarrow> nat \<Rightarrow> tool_call \<Rightarrow> bool" where
  "call_open msgs i c \<longleftrightarrow> i < length msgs \<and> m_role (msgs ! i) = RoleAssistant
     \<and> c \<in> set (m_tool_calls (msgs ! i))
     \<and> \<not> list_ex (\<lambda>m. m_role m = RoleTool \<and> m_tool_call_id m = tc_id c) (drop (Suc i) msgs)"

definition moves_on :: "message \<Rightarrow> bool" where
  "moves_on m \<longleftrightarrow> m_role m = RoleUser \<or> m_role m = RoleAssistant \<and> m_tool_calls m \<noteq> []"

definition moved_on :: "message list \<Rightarrow> nat \<Rightarrow> bool" where
  "moved_on msgs i \<longleftrightarrow> list_ex moves_on (drop (Suc i) msgs)"

lemma scan_finds:
  "open_calls_at msgs n = Some i \<longleftrightarrow>
     i < n \<and> m_role (msgs ! i) = RoleAssistant \<and> m_tool_calls (msgs ! i) \<noteq> []
     \<and> (\<forall>j. i < j \<and> j < n \<longrightarrow> \<not> moves_on (msgs ! j))"
proof (induction n)
  case (Suc n)
  have "i < Suc n \<longleftrightarrow> i = n \<or> i < n" by auto
  then show ?case using Suc by (auto simp: moves_on_def less_Suc_eq split: if_splits)
qed simp

lemma drop_nth: "(\<forall>m \<in> set (drop (Suc i) msgs). P m) \<longleftrightarrow> (\<forall>j. i < j \<and> j < length msgs \<longrightarrow> P (msgs ! j))"
proof -
  have "(\<forall>m \<in> set (drop (Suc i) msgs). P m) \<longleftrightarrow> (\<forall>k < length msgs - Suc i. P (msgs ! (Suc i + k)))"
    by (simp add: all_set_conv_all_nth)
  also have "\<dots> \<longleftrightarrow> (\<forall>j. i < j \<and> j < length msgs \<longrightarrow> P (msgs ! j))"
  proof (intro iffI allI impI)
    fix j assume all: "\<forall>k < length msgs - Suc i. P (msgs ! (Suc i + k))" and j: "i < j \<and> j < length msgs"
    then have "j - Suc i < length msgs - Suc i" "Suc i + (j - Suc i) = j" by linarith+
    then show "P (msgs ! j)" using all by metis
  qed simp
  finally show ?thesis .
qed

lemma scan_is_current:
  "open_calls_at msgs (length msgs) = Some i \<longleftrightarrow>
     i < length msgs \<and> m_role (msgs ! i) = RoleAssistant \<and> m_tool_calls (msgs ! i) \<noteq> [] \<and> \<not> moved_on msgs i"
  unfolding scan_finds moved_on_def list_ex_iff using drop_nth [of i msgs "\<lambda>m. \<not> moves_on m"] by blast

lemma open_call_id:
  "call_open msgs i c \<longleftrightarrow> i < length msgs \<and> m_role (msgs ! i) = RoleAssistant
     \<and> c \<in> set (m_tool_calls (msgs ! i)) \<and> tc_id c \<notin> set (answered_ids (drop (Suc i) msgs))"
proof -
  have "list_ex (\<lambda>m. m_role m = RoleTool \<and> m_tool_call_id m = tc_id c) ms
      \<longleftrightarrow> tc_id c \<in> set (answered_ids ms)" for ms
    by (induction ms) (auto simp: answered_ids_def)
  then show ?thesis by (simp add: call_open_def)
qed

text \<open>
  The calls an interrupt has to answer: the open ones of the messages the conversation has not
  moved on from, in order.
\<close>

definition open_now :: "message list \<Rightarrow> tool_call list" where
  "open_now msgs = concat (map (\<lambda>i. if moved_on msgs i then []
     else filter (call_open msgs i) (m_tool_calls (msgs ! i))) [0..<length msgs])"

lemma concat_single:
  assumes "at < n" "\<And>i. i \<noteq> at \<Longrightarrow> i < n \<Longrightarrow> f i = []"
  shows "concat (map f [0..<n]) = f at"
proof -
  have "[0..<n] = [0..<at] @ at # [Suc at..<n]"
    using assms(1) by (metis le_add1 less_imp_add_positive upt_add_eq_append upt_conv_Cons zero_order(1))
  moreover have "concat (map f [0..<at]) = []" "concat (map f [Suc at..<n]) = []"
    using assms by simp_all
  ultimately show ?thesis by (simp del: concat_eq_Nil_conv)
qed

lemma cancelled_are_open: "cancelled_tool_results msgs = map cancelled_result (open_now msgs)"
proof (cases "open_calls_at msgs (length msgs)")
  case None
  have "(if moved_on msgs i then [] else filter (call_open msgs i) (m_tool_calls (msgs ! i))) = []" for i
    using scan_is_current [of msgs i] None by (auto simp: filter_empty_conv call_open_def)
  then show ?thesis using None by (simp add: cancelled_tool_results_def open_now_def)
next
  case (Some at)
  note current = scan_is_current [THEN iffD1, OF Some]
  have "open_now msgs = (if moved_on msgs at then [] else filter (call_open msgs at) (m_tool_calls (msgs ! at)))"
    unfolding open_now_def
  proof (rule concat_single)
    show "(if moved_on msgs i then [] else filter (call_open msgs i) (m_tool_calls (msgs ! i))) = []"
      if "i \<noteq> at" for i
      using scan_is_current [of msgs i] Some that by (auto simp: filter_empty_conv call_open_def)
  qed (use current in simp)
  also have "\<dots> = filter (\<lambda>c. tc_id c \<notin> set (answered_ids (drop (Suc at) msgs))) (m_tool_calls (msgs ! at))"
    using current by (auto simp: open_call_id intro: filter_cong)
  finally show ?thesis using Some by (simp add: cancelled_tool_results_def Let_def)
qed

lemma open_now_iff: "c \<in> set (open_now msgs) \<longleftrightarrow> (\<exists>i. call_open msgs i c \<and> \<not> moved_on msgs i)"
  by (auto simp: open_now_def call_open_def split: if_splits)

lemma open_call_prefix:
  assumes "call_open (msgs @ extra) i c" "i < length msgs"
  shows "call_open msgs i c" "m \<in> set extra \<Longrightarrow> m_role m = RoleTool \<Longrightarrow> m_tool_call_id m \<noteq> tc_id c"
  using assms by (auto simp: call_open_def nth_append list_ex_iff)

text \<open>After them a call is open only where the conversation had moved on from it before.\<close>

lemma left_open_moved_on:
  assumes "call_open (msgs @ cancelled_tool_results msgs @ extra) i c" "i < length msgs"
  shows "call_open msgs i c \<and> moved_on msgs i"
proof -
  note here = open_call_prefix [OF assms]
  have "moved_on msgs i"
  proof (rule ccontr)
    assume "\<not> moved_on msgs i"
    then have "cancelled_result c \<in> set (cancelled_tool_results msgs @ extra)"
      using here(1) open_now_iff [of c msgs] by (auto simp: cancelled_are_open)
    then show False using here(2) [of "cancelled_result c"] by (simp add: cancelled_result_def)
  qed
  then show ?thesis using here(1) by blast
qed

text \<open>
  Only the latest message with tool calls is answered: with a call of an earlier one without its
  result, that call stays open.
\<close>

definition calling :: "string \<Rightarrow> message" where
  "calling i = zero_message\<lparr>m_role := RoleAssistant,
     m_tool_calls := [\<lparr>tc_id = i, tc_name = ''f'', tc_arguments = ''''\<rparr>]\<rparr>"

lemma earlier_call_stays_open:
  "map m_tool_call_id (cancelled_tool_results [calling ''a'', calling ''b'']) = [''b'']"
  "call_open ([calling ''a'', calling ''b''] @ cancelled_tool_results [calling ''a'', calling ''b'']) 0
     \<lparr>tc_id = ''a'', tc_name = ''f'', tc_arguments = ''''\<rparr>"
  by code_simp+

section \<open>What an interrupt does\<close>

lemma fold_add_cancelled:
  "fold add_cancelled_result rs ls =
     ls_history_update (h_conversation_update (\<lambda>c. c @ rs))
       (ls_outputs_update (out_kernel_update (\<lambda>xs. xs @ map (\<lambda>m. \<lparr>kd_source = PTool,
          kd_delta = full_message_delta PTool m\<rparr>) rs)) ls)"
proof (induction rs arbitrary: ls)
  case (Cons r rs)
  have "fold add_cancelled_result (r # rs) ls = fold add_cancelled_result rs (add_cancelled_result r ls)"
    by simp
  also have "\<dots> = ls_history_update (h_conversation_update (\<lambda>c. c @ rs))
       (ls_outputs_update (out_kernel_update (\<lambda>xs. xs @ map (\<lambda>m. \<lparr>kd_source = PTool,
          kd_delta = full_message_delta PTool m\<rparr>) rs)) (add_cancelled_result r ls))"
    by (rule Cons.IH)
  also have "\<dots> = ls_history_update (h_conversation_update (\<lambda>c. c @ r # rs))
       (ls_outputs_update (out_kernel_update (\<lambda>xs. xs @ map (\<lambda>m. \<lparr>kd_source = PTool,
          kd_delta = full_message_delta PTool m\<rparr>) (r # rs))) ls)"
    by (simp add: add_cancelled_result_def request_simps comp_def)
  finally show ?case .
qed simp

text \<open>
  C37: an interrupt answers the calls it cut off, loses no held turn, and retires the old pass. The
  conversation grows by the partial response, if it has content, one cancelled result for exactly
  the open calls of the message the conversation has not moved on from, the held turns in arrival
  order and the interrupt's text. So a call is left open only if it was open before and a user
  message or further tool calls already followed its message. The cancelled results and held turns
  are recorded on the kernel stream in that order; the pass number grows by one, so every delta of
  the old pass is stale; the model window is empty; and one request with the whole conversation is
  sent.
\<close>

theorem interrupt_resumes:
  assumes "has_interrupt_message (in_user_control (ls_inputs ls))"
    and "interrupt_execute cr ls = (cr', ls')"
  shows "\<exists>partial cancelled asked.
     h_conversation (ls_history ls')
       = ((h_conversation (ls_history ls) @ partial) @ cancelled) @ h_held (ls_history ls) @ asked
   \<and> partial = (if h_model_count (ls_history ls) > 0 \<and> model_window_ok (ls_history ls)
           \<and> has_content (reconstruct_model_message (model_window (ls_history ls)))
        then [reconstruct_model_message (model_window (ls_history ls))] else [])
   \<and> cancelled = map cancelled_result (open_now (h_conversation (ls_history ls) @ partial))
   \<and> (\<forall>i c. i < length (h_conversation (ls_history ls) @ partial) \<and> call_open (h_conversation (ls_history ls')) i c
        \<longrightarrow> call_open (h_conversation (ls_history ls) @ partial) i c
          \<and> moved_on (h_conversation (ls_history ls) @ partial) i)
   \<and> asked = (if interrupt_text (in_user_control (ls_inputs ls)) = '''' then []
        else [new_text_message RoleUser (interrupt_text (in_user_control (ls_inputs ls)))])
   \<and> full_messages (out_kernel (ls_outputs ls'))
       = full_messages (out_kernel (ls_outputs ls)) @ cancelled @ h_held (ls_history ls)
   \<and> h_held (ls_history ls') = []
   \<and> h_pass (ls_history ls') = h_pass (ls_history ls) + 1
   \<and> model_window (ls_history ls') = [] \<and> model_window_ok (ls_history ls')
   \<and> out_model (ls_outputs ls') = out_model (ls_outputs ls) @ [resume_request ls']
   \<and> cr_model cr' = Suc (cr_model cr) \<and> cr_tool cr' = Suc (cr_tool cr)"
proof -
  let ?conv = "h_conversation (ls_history ls)"
  let ?ls1 = "save_partial_response ls"
  define partial where "partial = (if h_model_count (ls_history ls) > 0 \<and> model_window_ok (ls_history ls)
           \<and> has_content (reconstruct_model_message (model_window (ls_history ls)))
        then [reconstruct_model_message (model_window (ls_history ls))] else [])"
  have ls1: "?ls1 = ls_history_update (h_conversation_update (\<lambda>c. c @ partial)) ls"
    by (simp add: save_partial_response_def partial_def Let_def model_window_ok_def)
  define cancelled where "cancelled = cancelled_tool_results (?conv @ partial)"
  define ls2 where "ls2 = fold add_cancelled_result cancelled ?ls1"
  define ls3 where "ls3 = place_held_user_messages ls2"
  have ls2: "ls_history ls2 = (ls_history ls)\<lparr>h_conversation := (?conv @ partial) @ cancelled\<rparr>"
    "ls_inputs ls2 = ls_inputs ls" "out_model (ls_outputs ls2) = out_model (ls_outputs ls)"
    "full_messages (out_kernel (ls_outputs ls2)) = full_messages (out_kernel (ls_outputs ls)) @ cancelled"
    by (simp_all add: ls2_def fold_add_cancelled ls1)
  have ls3: "ls_history ls3 = (ls_history ls)\<lparr>h_conversation := ((?conv @ partial) @ cancelled) @ h_held (ls_history ls),
      h_held := []\<rparr>" "ls_inputs ls3 = ls_inputs ls"
    "out_model (ls_outputs ls3) = out_model (ls_outputs ls)"
    "full_messages (out_kernel (ls_outputs ls3))
       = full_messages (out_kernel (ls_outputs ls)) @ cancelled @ h_held (ls_history ls)"
    by (simp_all add: ls3_def ls2 place_held_kernel)
  define ls5 where "ls5 = ls_history_update begin_new_pass (add_interrupt_text ls3)"
  define asked where "asked = (if interrupt_text (in_user_control (ls_inputs ls)) = '''' then []
        else [new_text_message RoleUser (interrupt_text (in_user_control (ls_inputs ls)))])"
  have ls5: "h_conversation (ls_history ls5)
      = ((?conv @ partial) @ cancelled) @ h_held (ls_history ls) @ asked"
    "h_held (ls_history ls5) = []" "h_pass (ls_history ls5) = h_pass (ls_history ls) + 1"
    "model_window (ls_history ls5) = []" "model_window_ok (ls_history ls5)"
    "out_model (ls_outputs ls5) = out_model (ls_outputs ls)"
    "full_messages (out_kernel (ls_outputs ls5))
       = full_messages (out_kernel (ls_outputs ls)) @ cancelled @ h_held (ls_history ls)"
    by (simp_all add: ls5_def asked_def add_interrupt_text_def Let_def ls3 begin_new_pass_def
        model_window_def model_window_ok_def)
  have run: "ls' = write_model_request (resume_request ls5) ls5"
    "cr' = cr\<lparr>cr_model := Suc (cr_model cr), cr_tool := Suc (cr_tool cr)\<rparr>"
    using assms by (simp_all add: interrupt_execute_def Let_def cancelled_def ls1 ls2_def ls3_def ls5_def)
  have same: "ls_history ls' = ls_history ls5" "resume_request ls' = resume_request ls5"
    "out_model (ls_outputs ls') = out_model (ls_outputs ls5) @ [resume_request ls5]"
    "out_kernel (ls_outputs ls') = out_kernel (ls_outputs ls5)"
    by (simp_all add: run(1) write_model_request_def resume_request_def)
  have exactly: "cancelled = map cancelled_result (open_now (?conv @ partial))"
    unfolding cancelled_def by (rule cancelled_are_open)
  have left_open: "\<forall>i c. i < length (?conv @ partial)
      \<and> call_open (((?conv @ partial) @ cancelled) @ h_held (ls_history ls) @ asked) i c
      \<longrightarrow> call_open (?conv @ partial) i c \<and> moved_on (?conv @ partial) i"
    using left_open_moved_on [of "?conv @ partial" "h_held (ls_history ls) @ asked"]
    unfolding cancelled_def append_assoc by blast
  show ?thesis
    unfolding same ls5 run(2)
    by (rule exI [of _ partial], rule exI [of _ cancelled], rule exI [of _ asked], intro conjI)
       (rule partial_def exactly left_open asked_def refl ls5 | simp)+
qed

definition sample_interrupted :: "unit loop_state" where
  "sample_interrupted = ls_inputs_update (in_user_control_update (\<lambda>_.
       [zero_message\<lparr>m_role := RoleUser, m_parts := [ControlPlanePart CPInterrupt, TextPart ''stop'']\<rparr>]))
     (ls_history_update (\<lambda>h. h\<lparr>
         h_conversation := [new_text_message RoleUser ''go'',
           zero_message\<lparr>m_role := RoleAssistant,
             m_tool_calls := [\<lparr>tc_id = ''a'', tc_name = ''f'', tc_arguments = ''''\<rparr>,
                              \<lparr>tc_id = ''b'', tc_name = ''g'', tc_arguments = ''''\<rparr>]\<rparr>,
           zero_message\<lparr>m_role := RoleTool, m_tool_call_id := ''b''\<rparr>],
         h_held := [new_text_message RoleUser ''held'']\<rparr>)
       (new_loop_state ModeTurnTaking [] True))"

lemma interrupt_resumes_witness:
  "\<exists>cr' ls'. interrupt_execute \<lparr>cr_model = 0, cr_tool = 0\<rparr> sample_interrupted = (cr', ls')
   \<and> h_conversation (ls_history ls') = h_conversation (ls_history sample_interrupted)
       @ [cancelled_result \<lparr>tc_id = ''a'', tc_name = ''f'', tc_arguments = ''''\<rparr>,
          new_text_message RoleUser ''held'', new_text_message RoleUser ''stop'']
   \<and> h_pass (ls_history ls') = 1"
proof -
  obtain cr' ls' where run: "interrupt_execute \<lparr>cr_model = 0, cr_tool = 0\<rparr> sample_interrupted = (cr', ls')"
    by fastforce
  have int: "has_interrupt_message (in_user_control (ls_inputs sample_interrupted))"
    by (simp add: sample_interrupted_def has_interrupt_message_def is_interrupt_message_def
        has_control_def zero_message_def)
  have said: "interrupt_text (in_user_control (ls_inputs sample_interrupted)) = ''stop''"
    by (simp add: sample_interrupted_def interrupt_text_def is_interrupt_message_def
        has_control_def zero_message_def text_content_def)
  have cut: "open_now (h_conversation (ls_history sample_interrupted) @ [])
      = [\<lparr>tc_id = ''a'', tc_name = ''f'', tc_arguments = ''''\<rparr>]"
    by code_simp
  have rest: "h_model_count (ls_history sample_interrupted) = 0" "h_pass (ls_history sample_interrupted) = 0"
    "h_held (ls_history sample_interrupted) = [new_text_message RoleUser ''held'']"
    by (simp_all add: sample_interrupted_def new_loop_state_def empty_history_def)
  show ?thesis
    using interrupt_resumes [OF int run] run by (auto simp: said cut rest simp del: append_Nil2)
qed

text \<open>
  The resumed request carries no inference defaults, unlike the coordinator's requests: with a
  token limit configured, the two differ.
\<close>

lemma interrupt_drops_defaults:
  assumes "ls_defaults ls = Some d" "id_max_tokens d = Some n"
  shows "iq_max_tokens (resume_request ls) = None
    \<and> iq_max_tokens (new_inference_request (h_conversation (ls_history ls)) (ls_tools ls)
          (h_pass (ls_history ls)) (ls_defaults ls)) = Some n"
  using assms by (simp add: resume_request_def new_inference_request_def Let_def)

end
