(* ===== verification/Go_Text.thy ===== *)
theory Go_Text
  imports Prelude
begin

text \<open>
  What the loop uses of Go's \<^verbatim>\<open>strings\<close> package: \<^verbatim>\<open>TrimSpace\<close>, on UTF-8 bytes. The white
  space runes are the Unicode property's, each as its encoding.
\<close>

definition white_spaces :: "string list" where
  "white_spaces =
     [[CHR 0x09], [CHR 0x0A], [CHR 0x0B], [CHR 0x0C], [CHR 0x0D], [CHR 0x20],
      [CHR 0xC2, CHR 0x85], [CHR 0xC2, CHR 0xA0], [CHR 0xE1, CHR 0x9A, CHR 0x80],
      [CHR 0xE2, CHR 0x80, CHR 0x80], [CHR 0xE2, CHR 0x80, CHR 0x81],
      [CHR 0xE2, CHR 0x80, CHR 0x82], [CHR 0xE2, CHR 0x80, CHR 0x83],
      [CHR 0xE2, CHR 0x80, CHR 0x84], [CHR 0xE2, CHR 0x80, CHR 0x85],
      [CHR 0xE2, CHR 0x80, CHR 0x86], [CHR 0xE2, CHR 0x80, CHR 0x87],
      [CHR 0xE2, CHR 0x80, CHR 0x88], [CHR 0xE2, CHR 0x80, CHR 0x89],
      [CHR 0xE2, CHR 0x80, CHR 0x8A], [CHR 0xE2, CHR 0x80, CHR 0xA8],
      [CHR 0xE2, CHR 0x80, CHR 0xA9], [CHR 0xE2, CHR 0x80, CHR 0xAF],
      [CHR 0xE2, CHR 0x81, CHR 0x9F], [CHR 0xE3, CHR 0x80, CHR 0x80]]"

definition leading_space :: "string list \<Rightarrow> string \<Rightarrow> string option" where
  "leading_space spaces s = find (\<lambda>w. w \<noteq> [] \<and> take (length w) s = w) spaces"

lemma leading_space_some:
  "leading_space spaces s = Some w \<Longrightarrow> w \<noteq> [] \<and> take (length w) s = w"
  by (auto simp: leading_space_def find_Some_iff)

function trim_leading :: "string list \<Rightarrow> string \<Rightarrow> string" where
  "trim_leading spaces s =
     (case leading_space spaces s of None \<Rightarrow> s | Some w \<Rightarrow> trim_leading spaces (drop (length w) s))"
  by auto
termination
proof (relation "measure (\<lambda>(spaces, s). length s)")
  fix spaces s w
  assume "leading_space spaces s = Some w"
  then have "w \<noteq> []" "take (length w) s = w" using leading_space_some by auto
  then have "0 < length w" "s \<noteq> []" by auto
  then show "((spaces, drop (length w) s), (spaces, s)) \<in> measure (\<lambda>(spaces, s). length s)"
    by simp
qed simp

declare trim_leading.simps [simp del]

definition trim_space :: "string \<Rightarrow> string" where
  "trim_space s = rev (trim_leading (map rev white_spaces) (rev (trim_leading white_spaces s)))"

lemma trim_space_empty [simp]: "trim_space '''' = ''''"
proof -
  have "leading_space spaces [] = None" for spaces
    by (auto simp: leading_space_def find_None_iff)
  then have "trim_leading spaces [] = []" for spaces by (simp add: trim_leading.simps)
  then show ?thesis by (simp add: trim_space_def)
qed

lemma trim_leading_none: "leading_space spaces s = None \<Longrightarrow> trim_leading spaces s = s"
  by (simp add: trim_leading.simps)

end
