(* ===== verification/Coordinator.thy ===== *)
theory Coordinator
  imports Interrupt Go_Text "HOL-Library.AList" "HOL-Library.Multiset"
begin

text \<open>
  The coordinator, \<^verbatim>\<open>subsystems/coordinator.go\<close> and \<^verbatim>\<open>subsystems/coordinator_delta.go\<close>: it
  turns a tick's inputs into the next tool batch, model request or final answer, holds user
  turns that arrive in the middle of an exchange, and assembles interleaved provider
  responses. The delta coordinator forwards the tick's deltas to the kernel and closes the
  stream.

  The assemblies of the source are pointers that three fields and a map share; they live in
  a store here and are named by their position in it. The response map is an association
  list: the code only asks it for a key, for its size, and whether some other key is there,
  and none of the answers depends on Go's map order.
\<close>

section \<open>State\<close>

record response_assembly =
  ra_key :: string
  ra_deltas :: "stream_message list"
  ra_implicit_calls :: bool

record coordinator =
  co_store :: "response_assembly list"
  co_responses :: "(string \<times> nat) list"
  co_order :: "string list"
  co_latest :: "nat option"
  co_anonymous :: "nat option"
  co_overlap :: bool
  co_open :: bool
  co_batches :: nat
  co_held_needs :: bool

definition new_coordinator :: coordinator where
  "new_coordinator = \<lparr>co_store = [], co_responses = [], co_order = [], co_latest = None,
     co_anonymous = None, co_overlap = False, co_open = False, co_batches = 0,
     co_held_needs = False\<rparr>"

section \<open>Open exchanges\<close>

text \<open>\<^verbatim>\<open>opensModelResponse\<close>.\<close>

definition opens_response_type :: "stream_type \<Rightarrow> bool" where
  "opens_response_type ty \<longleftrightarrow> ty \<in>
     {StreamMessageStart,
      StreamTextStart, StreamTextDelta, StreamTextEnd,
      StreamToolCallStart, StreamToolCallDelta, StreamToolCallEnd,
      StreamAudioStart, StreamAudioDelta, StreamAudioEnd,
      StreamImageStart, StreamImageDelta, StreamImageEnd,
      StreamVideoStart, StreamVideoDelta, StreamVideoEnd,
      StreamFileStart, StreamFileDelta, StreamFileEnd,
      StreamReasoningStart, StreamReasoningDelta, StreamReasoningEnd,
      StreamTranscriptStart, StreamTranscriptDelta, StreamTranscriptEnd,
      StreamRefusal}"

definition opens_model_response :: "stream_message \<Rightarrow> bool" where
  "opens_model_response d \<longleftrightarrow>
     (sm_role d = RoleUnset \<or> sm_role d = RoleAssistant) \<and> opens_response_type (sm_type d)"

definition is_message_end :: "stream_message \<Rightarrow> bool" where
  "is_message_end d = (case sm_value d of Some (VMessageEnd _) \<Rightarrow> True | _ \<Rightarrow> False)"

definition track_tool_delta :: "stream_message \<Rightarrow> coordinator \<Rightarrow> coordinator" where
  "track_tool_delta d co =
     (if is_message_end d \<and> co_batches co > 0 then co\<lparr>co_batches := co_batches co - 1\<rparr> else co)"

definition track_model_delta :: "stream_message \<Rightarrow> coordinator \<Rightarrow> coordinator" where
  "track_model_delta d co =
     (if is_acknowledgement_delta d then co
      else (case sm_value d of
         Some (VMessageEnd _) \<Rightarrow> co\<lparr>co_open := False\<rparr>
       | Some (VError ev) \<Rightarrow> if is_terminal ev then co\<lparr>co_open := False\<rparr> else co
       | _ \<Rightarrow> if opens_model_response d then co\<lparr>co_open := True\<rparr> else co))"

definition track_open_exchange :: "'f loop_state \<Rightarrow> coordinator \<Rightarrow> coordinator" where
  "track_open_exchange ls co =
     (let co1 = (if has_interrupt_message (in_user_control (ls_inputs ls))
                 then co\<lparr>co_open := False, co_batches := 0, co_held_needs := False\<rparr> else co);
          co2 = fold track_tool_delta (in_tool_delta (ls_inputs ls)) co1
      in fold track_model_delta (in_model_delta (ls_inputs ls)) co2)"

definition holding_user_turns :: "coordinator \<Rightarrow> bool" where
  "holding_user_turns co \<longleftrightarrow> co_open co \<or> co_batches co > 0"

text \<open>
  \<^verbatim>\<open>holdUserTurns\<close>: the tick's user messages are the tail of the conversation.
\<close>

definition hold_user_turns :: "'f loop_state \<Rightarrow> 'f loop_state" where
  "hold_user_turns ls =
     ls_history_update (\<lambda>h.
       let buffer = h_conversation h;
           tail = length buffer - length (in_user_output (ls_inputs ls))
       in h\<lparr>h_held := h_held h @ drop tail buffer, h_conversation := take tail buffer\<rparr>) ls"

section \<open>Response assembly\<close>

definition max_tracked_model_responses :: nat where
  "max_tracked_model_responses = 16"

definition is_tool_call_delta :: "stream_type \<Rightarrow> bool" where
  "is_tool_call_delta ty \<longleftrightarrow>
     ty = StreamToolCallStart \<or> ty = StreamToolCallDelta \<or> ty = StreamToolCallEnd"

definition is_terminal_only_model_error :: "stream_message \<Rightarrow> bool" where
  "is_terminal_only_model_error d =
     (if sm_type d \<noteq> StreamMessageEnd then False
      else (case sm_value d of
              Some (VMessageEnd (Some v)) \<Rightarrow>
                me_status v \<noteq> '''' \<or> me_provider_error_code v \<noteq> ''''
                \<or> me_provider_error_message v \<noteq> ''''
            | _ \<Rightarrow> False))"

definition assembly_key :: "coordinator \<Rightarrow> nat \<Rightarrow> string" where
  "assembly_key co a = ra_key (co_store co ! a)"

definition anonymous_response_key :: "coordinator \<Rightarrow> string" where
  "anonymous_response_key co =
     (case co_anonymous co of Some a \<Rightarrow> assembly_key co a | None \<Rightarrow> ''anonymous'')"

definition has_active_model_response :: "string \<Rightarrow> coordinator \<Rightarrow> bool" where
  "has_active_model_response excluding co =
     (if list_ex (\<lambda>(k, _). k \<noteq> excluding) (co_responses co) then True
      else (case co_anonymous co of Some a \<Rightarrow> assembly_key co a \<noteq> excluding | None \<Rightarrow> False))"

text \<open>\<^verbatim>\<open>startModelResponse\<close>: no assembly for a delta that does not start a response.\<close>

definition start_model_response ::
    "stream_message \<Rightarrow> coordinator \<Rightarrow> (nat option) result \<times> coordinator" where
  "start_model_response d co =
     (if sm_type d \<noteq> StreamMessageStart then (Inr None, co)
      else (let rid = trim_space (sm_response_id d);
                key = (if rid = '''' then anonymous_response_key co else rid);
                co1 = (if has_active_model_response key co then co\<lparr>co_overlap := True\<rparr> else co)
            in if rid \<noteq> '''' \<and> map_of (co_responses co1) key = None
                  \<and> length (co_responses co1) \<ge> max_tracked_model_responses
               then (Inl (FormattedError ''model response assembly limit %d exceeded''
                            [IntArg (int max_tracked_model_responses)]), co1)
               else (let a = length (co_store co1);
                         co2 = co1\<lparr>co_store := co_store co1 @
                                 [\<lparr>ra_key = key, ra_deltas = [], ra_implicit_calls = False\<rparr>]\<rparr>;
                         co3 = (if rid = '''' then co2\<lparr>co_anonymous := Some a\<rparr>
                                else co2\<lparr>co_responses := AList.update key a (co_responses co2),
                                         co_order := co_order co2 @ [key]\<rparr>)
                     in (Inr (Some a), co3\<lparr>co_latest := Some a\<rparr>))))"

definition only_model_response :: "coordinator \<Rightarrow> nat option" where
  "only_model_response co = (case co_responses co of [(_, a)] \<Rightarrow> Some a | _ \<Rightarrow> None)"

definition model_response_for_delta :: "stream_message \<Rightarrow> coordinator \<Rightarrow> (nat option) result" where
  "model_response_for_delta d co =
     (let rid = trim_space (sm_response_id d) in
      if rid \<noteq> '''' then
        (case map_of (co_responses co) rid of
           Some a \<Rightarrow> Inr (Some a)
         | None \<Rightarrow>
             if is_terminal_only_model_error d \<and> length (co_responses co) = 0
                \<and> co_anonymous co \<noteq> None
             then Inr (co_anonymous co)
             else if length (co_responses co) = 0 \<and> co_anonymous co = None
                \<and> is_terminal_only_model_error d
             then Inr None
             else Inl (FormattedError ''model response delta references unknown response %q''
                         [StrArg rid]))
      else (case co_latest co of
              Some a \<Rightarrow> Inr (Some a)
            | None \<Rightarrow> Inr (only_model_response co)))"

definition model_response_assembly_for_delta ::
    "stream_message \<Rightarrow> coordinator \<Rightarrow> (nat option) result \<times> coordinator" where
  "model_response_assembly_for_delta d co =
     (if is_acknowledgement_delta d then (Inr None, co)
      else (case start_model_response d co of
              (Inr None, co1) \<Rightarrow> (model_response_for_delta d co1, co1)
            | r \<Rightarrow> r))"

definition delete_model_response_key :: "string \<Rightarrow> coordinator \<Rightarrow> coordinator" where
  "delete_model_response_key key co =
     co\<lparr>co_responses := AList.delete key (co_responses co), co_order := remove1 key (co_order co)\<rparr>"

text \<open>The backwards scan of \<^verbatim>\<open>restoreLatestModelResponse\<close> over the response order.\<close>

fun latest_active :: "(string \<times> nat) list \<Rightarrow> string list \<Rightarrow> nat option" where
  "latest_active responses [] = None"
| "latest_active responses (k # ks) =
     (case map_of responses k of Some a \<Rightarrow> Some a | None \<Rightarrow> latest_active responses ks)"

definition restore_latest_model_response :: "coordinator \<Rightarrow> coordinator" where
  "restore_latest_model_response co =
     co\<lparr>co_latest := (case latest_active (co_responses co) (rev (co_order co)) of
                        Some a \<Rightarrow> Some a | None \<Rightarrow> co_anonymous co)\<rparr>"

definition remove_model_response :: "nat \<Rightarrow> coordinator \<Rightarrow> coordinator" where
  "remove_model_response a co =
     (let co1 = (if co_anonymous co = Some a then co\<lparr>co_anonymous := None\<rparr> else co);
          key = assembly_key co1 a;
          co2 = (if map_of (co_responses co1) key = Some a
                 then delete_model_response_key key co1 else co1)
      in if co_latest co2 = Some a then restore_latest_model_response co2 else co2)"

text \<open>
  The responses a completed one is joined with: itself, and, when its tool events were
  unscoped, every active response whose tool events were.
\<close>

definition joined_assemblies :: "nat \<Rightarrow> coordinator \<Rightarrow> nat list" where
  "joined_assemblies a co =
     (let candidates = map (map_of (co_responses co)) (co_order co);
          joins = (\<lambda>c. case c of
                     None \<Rightarrow> False
                   | Some b \<Rightarrow> b = a \<or> (ra_implicit_calls (co_store co ! a)
                                        \<and> ra_implicit_calls (co_store co ! b)));
          chosen = map the (filter joins candidates)
      in if chosen = [] then [a] else chosen)"

definition complete_model_response :: "nat \<Rightarrow> coordinator \<Rightarrow> message \<times> coordinator" where
  "complete_model_response a co =
     (let joined = joined_assemblies a co;
          deltas = concat (map (\<lambda>b. ra_deltas (co_store co ! b)) joined)
      in (reconstruct_model_message deltas, fold remove_model_response joined co))"

definition record_response_delta :: "nat \<Rightarrow> stream_message \<Rightarrow> coordinator \<Rightarrow> coordinator" where
  "record_response_delta a d co =
     (let ra = co_store co ! a;
          ra1 = ra\<lparr>ra_deltas := ra_deltas ra @ [d]\<rparr>;
          ra2 = (if sm_response_id d = '''' \<and> is_tool_call_delta (sm_type d)
                 then ra1\<lparr>ra_implicit_calls := True\<rparr> else ra1)
      in co\<lparr>co_store := (co_store co)[a := ra2]\<rparr>)"

text \<open>\<^verbatim>\<open>observeModelResponses\<close>: the messages completed, with the error that stopped it, if any.\<close>

fun observe_model_responses ::
    "stream_message list \<Rightarrow> coordinator \<Rightarrow> go_error option \<times> message list \<times> coordinator" where
  "observe_model_responses [] co = (None, [], co)"
| "observe_model_responses (d # ds) co =
     (case model_response_assembly_for_delta d co of
        (Inl e, co1) \<Rightarrow> (Some e, [], co1)
      | (Inr None, co1) \<Rightarrow> observe_model_responses ds co1
      | (Inr (Some a), co1) \<Rightarrow>
          (let co2 = record_response_delta a d co1 in
           if sm_type d = StreamMessageEnd
           then (case complete_model_response a co2 of
                   (m, co3) \<Rightarrow> (case observe_model_responses ds co3 of
                      (e, ms, co4) \<Rightarrow> (e, m # ms, co4)))
           else observe_model_responses ds co2))"

section \<open>Replacing the engine's outputs\<close>

definition copy_model_metadata :: "message \<Rightarrow> message \<Rightarrow> message" where
  "copy_model_metadata target source =
     target\<lparr>m_global_index := m_global_index source, m_actor_provided_id := m_actor_provided_id source,
       m_actor_provided_index := m_actor_provided_index source,
       m_actor_stream_id := m_actor_stream_id source, m_actor_id := m_actor_id source\<rparr>"

definition engine_outputs_at_history_tail :: "message list \<Rightarrow> message list \<Rightarrow> bool" where
  "engine_outputs_at_history_tail conversation outputs =
     (if length outputs = 0 \<or> length conversation < length outputs then False
      else list_all2 (\<lambda>h m. m_global_index h = m_global_index m \<and> m_actor_id h = m_actor_id m)
             (drop (length conversation - length outputs) conversation) outputs)"

fun with_engine_metadata :: "message list \<Rightarrow> message list \<Rightarrow> message list" where
  "with_engine_metadata [] outputs = []"
| "with_engine_metadata (m # ms) [] = m # ms"
| "with_engine_metadata (m # ms) (e # es) = copy_model_metadata m e # with_engine_metadata ms es"

definition replace_engine_model_outputs :: "message list \<Rightarrow> 'f loop_state \<Rightarrow> 'f loop_state" where
  "replace_engine_model_outputs completed ls =
     (let outputs = in_model_output (ls_inputs ls);
          conv = h_conversation (ls_history ls);
          conv1 = (if engine_outputs_at_history_tail conv outputs
                   then take (length conv - length outputs) conv else conv);
          msgs = with_engine_metadata completed outputs
      in ls_history_update (\<lambda>h. h\<lparr>h_conversation := conv1 @ msgs\<rparr>)
           (ls_inputs_update (in_model_output_update (\<lambda>_. msgs)) ls))"

section \<open>Dispatch\<close>

definition has_session_close_control :: "'f loop_state \<Rightarrow> bool" where
  "has_session_close_control ls =
     list_ex (\<lambda>m. extract_control_plane_type m = Some CPSessionClose
                  \<or> extract_control_plane_type m = Some CPStop) (in_user_control (ls_inputs ls))"

definition reset_model_delta_window :: "'f loop_state \<Rightarrow> 'f loop_state" where
  "reset_model_delta_window ls =
     ls_history_update (\<lambda>h. h\<lparr>h_model_start := length (h_deltas h), h_model_count := 0\<rparr>) ls"

definition ensure_session_pass :: "'f loop_state \<Rightarrow> int \<times> 'f loop_state" where
  "ensure_session_pass ls =
     (let ls1 = (if h_pass (ls_history ls) = 0
                 then ls_history_update (\<lambda>h. h\<lparr>h_pass := 1\<rparr>) ls else ls)
      in (h_pass (ls_history ls1), ls1))"

definition bump_pass :: "'f loop_state \<Rightarrow> 'f loop_state" where
  "bump_pass ls = ls_history_update (\<lambda>h. h\<lparr>h_pass := h_pass h + 1\<rparr>) ls"

definition next_tool_batch_pass :: "'f loop_state \<Rightarrow> int \<times> 'f loop_state" where
  "next_tool_batch_pass ls =
     (if ls_mode ls = DuplexSession then ensure_session_pass ls
      else (h_pass (ls_history (bump_pass ls)), bump_pass ls))"

definition next_tool_continuation_pass :: "'f loop_state \<Rightarrow> int \<times> 'f loop_state" where
  "next_tool_continuation_pass ls =
     (if ls_mode ls = DuplexSession then ensure_session_pass ls
      else (h_pass (ls_history (bump_pass ls)), bump_pass ls))"

text \<open>\<^verbatim>\<open>dispatchInferenceOver\<close> and \<^verbatim>\<open>dispatchInference\<close>.\<close>

definition dispatch_inference_over :: "message list \<Rightarrow> 'f loop_state \<Rightarrow> 'f loop_state" where
  "dispatch_inference_over conversation ls =
     (let ls1 = bump_pass ls
      in write_model_request (new_inference_request conversation (ls_tools ls1)
           (h_pass (ls_history ls1)) (ls_defaults ls1)) ls1)"

definition dispatch_inference :: "'f loop_state \<Rightarrow> 'f loop_state" where
  "dispatch_inference ls = dispatch_inference_over (h_conversation (ls_history ls)) ls"

definition tool_results_at_history_tail :: "message list \<Rightarrow> message list \<Rightarrow> bool" where
  "tool_results_at_history_tail conversation results =
     (if length results = 0 \<or> length conversation < length results then False
      else list_all2 (\<lambda>h r. m_role h = m_role r \<and> m_tool_call_id h = m_tool_call_id r)
             (drop (length conversation - length results) conversation) results)"

definition dispatch_tool_outputs :: "coordinator \<Rightarrow> 'f loop_state \<Rightarrow> coordinator \<times> 'f loop_state" where
  "dispatch_tool_outputs co ls =
     (let results = in_tool_output (ls_inputs ls);
          ls1 = fold (write_full_message PTool) results ls;
          ls2 = reset_model_delta_window ls1;
          (pass, ls3) = next_tool_continuation_pass ls2;
          conv0 = h_conversation (ls_history ls3);
          conv1 = (if \<not> tool_results_at_history_tail conv0 results then conv0 @ results else conv0);
          held = h_held (ls_history ls3);
          place = (\<not> holding_user_turns co \<and> length held > 0);
          conv2 = (if place \<and> ls_mode ls3 \<noteq> DuplexSession then conv1 @ held else conv1);
          co1 = (if place then co\<lparr>co_held_needs := False\<rparr> else co);
          ls4 = (if place then place_held_user_messages ls3 else ls3)
      in (co1, write_model_request
                 (new_inference_request conv2 (ls_tools ls4) pass (ls_defaults ls4)) ls4))"

text \<open>\<^verbatim>\<open>routeModelOutput\<close>: whether the message was delivered as a final response.\<close>

definition route_model_output ::
    "message \<Rightarrow> coordinator \<Rightarrow> 'f loop_state \<Rightarrow> bool \<times> coordinator \<times> 'f loop_state" where
  "route_model_output m co ls =
     (if length (m_tool_calls m) > 0 \<and> \<not> ls_tools_available ls
      then (True, co, write_user_request m ls)
      else if length (m_tool_calls m) > 0
      then (case next_tool_batch_pass ls of
              (pass, ls1) \<Rightarrow>
                (False, co\<lparr>co_batches := Suc (co_batches co)\<rparr>,
                 write_tool_batch \<lparr>tb_calls = m_tool_calls m, tb_loop_pass_id = pass\<rparr> ls1))
      else if \<not> has_only_reasoning m
      then (True, co, write_user_request m ls)
      else (False, co, ls))"

fun route_model_outputs ::
    "message list \<Rightarrow> coordinator \<Rightarrow> 'f loop_state \<Rightarrow> bool \<times> coordinator \<times> 'f loop_state" where
  "route_model_outputs [] co ls = (False, co, ls)"
| "route_model_outputs (m # ms) co ls =
     (case route_model_output m co ls of
        (final, co1, ls1) \<Rightarrow>
          (case route_model_outputs ms co1 ls1 of
             (later_final, co2, ls2) \<Rightarrow> (final \<or> later_final, co2, ls2)))"

definition set_terminate :: "'f loop_state \<Rightarrow> 'f loop_state" where
  "set_terminate ls = ls_inputs_update (in_terminate_update (\<lambda>_. True)) ls"

definition dispatch_model_outputs :: "coordinator \<Rightarrow> 'f loop_state \<Rightarrow> coordinator \<times> 'f loop_state" where
  "dispatch_model_outputs co ls =
     (let outputs = in_model_output (ls_inputs ls);
          ls1 = fold (write_full_message PModel) outputs ls;
          (final, co2, ls2) = route_model_outputs outputs co ls1;
          place = (\<not> holding_user_turns co2 \<and> length (h_held (ls_history ls2)) > 0);
          ls3 = (if place then place_held_user_messages ls2 else ls2);
          answer = (place \<and> co_held_needs co2);
          co4 = (if answer then co2\<lparr>co_held_needs := False\<rparr> else co2);
          ls4 = (if answer then dispatch_inference ls3 else ls3);
          final1 = (if answer then False else final);
          ls5 = (if final1 \<and> ls_mode ls4 \<noteq> DuplexSession then set_terminate ls4 else ls4)
      in (co4, reset_model_delta_window ls5))"

definition dispatch_user_outputs :: "coordinator \<Rightarrow> 'f loop_state \<Rightarrow> coordinator \<times> 'f loop_state" where
  "dispatch_user_outputs co ls =
     (if holding_user_turns co
      then (let ls1 = hold_user_turns ls in
            if ls_mode ls1 \<noteq> DuplexSession then (co\<lparr>co_held_needs := True\<rparr>, ls1)
            else (co, dispatch_inference_over
                        (h_conversation (ls_history ls1) @ h_held (ls_history ls1)) ls1))
      else (let ls1 = fold (write_full_message PUser) (in_user_output (ls_inputs ls)) ls;
                ls2 = reset_model_delta_window ls1
            in (co, dispatch_inference ls2)))"

definition dispatch :: "coordinator \<Rightarrow> 'f loop_state \<Rightarrow> coordinator \<times> 'f loop_state" where
  "dispatch co ls =
     (if length (in_tool_output (ls_inputs ls)) > 0 then dispatch_tool_outputs co ls
      else if length (in_model_output (ls_inputs ls)) > 0 then dispatch_model_outputs co ls
      else if ls_mode ls = DuplexSession \<and> has_session_close_control ls then (co, set_terminate ls)
      else if length (in_user_output (ls_inputs ls)) > 0 then dispatch_user_outputs co ls
      else (co, ls))"

definition coordinator_execute ::
    "coordinator \<Rightarrow> 'f loop_state \<Rightarrow> go_error option \<times> coordinator \<times> 'f loop_state" where
  "coordinator_execute co ls =
     (let co1 = track_open_exchange ls co in
      (case observe_model_responses (in_model_delta (ls_inputs ls)) co1 of
         (Some e, completed, co2) \<Rightarrow> (Some e, co2, ls)
       | (None, completed, co2) \<Rightarrow>
           (let ls1 = (if co_overlap co2 then replace_engine_model_outputs completed ls else ls);
                (co3, ls2) = dispatch co2 ls1;
                ls3 = (if in_terminate (ls_inputs ls2) then place_held_user_messages ls2 else ls2)
            in (None, co3, ls3))))"

section \<open>The delta coordinator\<close>

definition session_close_reason_stop :: string where
  "session_close_reason_stop = ''stop''"

fun session_close_reason_of_parts :: "content_part list \<Rightarrow> string" where
  "session_close_reason_of_parts [] = ''''"
| "session_close_reason_of_parts (p # ps) =
     (case p of
        ControlPlanePart CPSessionClose \<Rightarrow> ''client_close''
      | ControlPlanePart CPStop \<Rightarrow> session_close_reason_stop
      | _ \<Rightarrow> session_close_reason_of_parts ps)"

definition extract_session_close_reason :: "message \<Rightarrow> string" where
  "extract_session_close_reason m = session_close_reason_of_parts (m_parts m)"

fun session_close_reason :: "message list \<Rightarrow> string" where
  "session_close_reason [] = ''client_close''"
| "session_close_reason (m # ms) =
     (if extract_session_close_reason m \<noteq> '''' then extract_session_close_reason m
      else session_close_reason ms)"

definition new_loop_session_close_value :: "string \<Rightarrow> string \<Rightarrow> session_close_value" where
  "new_loop_session_close_value sid reason =
     (let terminal = (if reason = session_close_reason_stop then TRCancellation else TRSessionClose)
      in new_session_close_value_with_terminal sid reason (terminal_reason_string terminal)
           terminal TPLoop TONotApplicable)"

definition session_close_delta :: "'f loop_state \<Rightarrow> stream_message" where
  "session_close_delta ls =
     mk_delta StreamSessionClose RoleUnset
       (VSessionClose (new_loop_session_close_value (ls_session_id ls)
          (session_close_reason (in_user_control (ls_inputs ls)))))"

definition loop_end_delta :: stream_message where
  "loop_end_delta = mk_delta StreamLoopEnd RoleUnset VLoopEnd"

definition coordinator_delta_execute :: "'f loop_state \<Rightarrow> 'f loop_state" where
  "coordinator_delta_execute ls =
     (let ls1 = fold (write_kernel PModel) (in_model_delta (ls_inputs ls)) ls;
          ls2 = fold (write_kernel PTool) (in_tool_delta (ls_inputs ls)) ls1;
          ls3 = fold (write_kernel PUser) (in_user_delta (ls_inputs ls)) ls2
      in if \<not> in_terminate (ls_inputs ls3) then ls3
         else (let ls4 = place_held_user_messages ls3;
                   ls5 = (if ls_mode ls4 = DuplexSession
                          then write_kernel PSystem (session_close_delta ls4) ls4 else ls4)
               in write_kernel PSystem loop_end_delta ls5))"

section \<open>User turns\<close>

text \<open>Everything but assistant messages, in history or held.\<close>

definition turns :: "'f loop_state \<Rightarrow> message multiset" where
  "turns ls = mset (filter (\<lambda>m. m_role m \<noteq> RoleAssistant)
     (h_conversation (ls_history ls) @ h_held (ls_history ls)))"

named_theorems turns_simps \<open>what the dispatch steps do to the user turns\<close>

lemma turns_history:
  "h_conversation (ls_history ls') = h_conversation (ls_history ls) \<Longrightarrow>
   h_held (ls_history ls') = h_held (ls_history ls) \<Longrightarrow> turns ls' = turns ls"
  by (simp add: turns_def)

lemma turns_place [turns_simps]: "turns (place_held_user_messages ls) = turns ls"
  by (simp add: turns_def)

lemma turns_hold [turns_simps]: "turns (hold_user_turns ls) = turns ls"
proof -
  let ?c = "h_conversation (ls_history ls)"
  let ?n = "length ?c - length (in_user_output (ls_inputs ls))"
  have "mset ?c = mset (take ?n ?c) + mset (drop ?n ?c)"
    by (simp flip: mset_append)
  then show ?thesis
    by (simp add: turns_def hold_user_turns_def Let_def ac_simps)
qed

lemma fold_full_history [simp]:
  "ls_history (fold (write_full_message src) ms ls) = ls_history ls"
  "ls_inputs (fold (write_full_message src) ms ls) = ls_inputs ls"
  "ls_mode (fold (write_full_message src) ms ls) = ls_mode ls"
  "ls_tools (fold (write_full_message src) ms ls) = ls_tools ls"
  "ls_defaults (fold (write_full_message src) ms ls) = ls_defaults ls"
  "ls_tools_available (fold (write_full_message src) ms ls) = ls_tools_available ls"
  "out_model (ls_outputs (fold (write_full_message src) ms ls)) = out_model (ls_outputs ls)"
  "out_tool (ls_outputs (fold (write_full_message src) ms ls)) = out_tool (ls_outputs ls)"
  "out_user (ls_outputs (fold (write_full_message src) ms ls)) = out_user (ls_outputs ls)"
  by (simp_all add: fold_write_full_message)

lemma turns_steps [turns_simps]:
  "turns (fold (write_full_message src) ms ls) = turns ls"
  "turns (reset_model_delta_window ls) = turns ls"
  "turns (bump_pass ls) = turns ls"
  "turns (snd (ensure_session_pass ls)) = turns ls"
  "turns (snd (next_tool_batch_pass ls)) = turns ls"
  "turns (snd (next_tool_continuation_pass ls)) = turns ls"
  "turns (set_terminate ls) = turns ls"
  "turns (write_model_request r ls) = turns ls"
  "turns (write_user_request m ls) = turns ls"
  "turns (write_tool_batch b ls) = turns ls"
  "turns (dispatch_inference_over c ls) = turns ls"
  "turns (dispatch_inference ls) = turns ls"
  by (rule turns_history;
      simp add: reset_model_delta_window_def bump_pass_def ensure_session_pass_def Let_def
        next_tool_batch_pass_def next_tool_continuation_pass_def set_terminate_def
        request_simps dispatch_inference_over_def dispatch_inference_def)+

lemma turns_route [turns_simps]: "turns (snd (snd (route_model_output m co ls))) = turns ls"
  by (simp add: route_model_output_def turns_simps case_prod_beta)

lemma turns_routes [turns_simps]: "turns (snd (snd (route_model_outputs ms co ls))) = turns ls"
  by (induction ms arbitrary: co ls) (simp_all add: turns_simps case_prod_beta)

lemma turns_dispatch [turns_simps]: "turns (snd (dispatch co ls)) = turns ls"
  by (simp add: dispatch_def dispatch_tool_outputs_def dispatch_model_outputs_def
      dispatch_user_outputs_def Let_def case_prod_beta turns_simps)

lemma observe_all_assistant:
  "observe_model_responses ds co = (e, ms, co') \<Longrightarrow> list_all (\<lambda>m. m_role m = RoleAssistant) ms"
proof (induction ds co arbitrary: e ms co' rule: observe_model_responses.induct)
  case (2 d ds co)
  then show ?case
    by (auto simp: Let_def complete_model_response_def reconstruct_role
          split: prod.splits sum.splits option.splits if_splits)
qed simp

lemma metadata_all_assistant:
  "list_all (\<lambda>m. m_role m = RoleAssistant) ms \<Longrightarrow>
   list_all (\<lambda>m. m_role m = RoleAssistant) (with_engine_metadata ms es)"
  by (induction ms es rule: with_engine_metadata.induct) (simp_all add: copy_model_metadata_def)

lemma no_turns_of_assistants:
  "list_all (\<lambda>m. m_role m = RoleAssistant) ms \<Longrightarrow> filter (\<lambda>m. m_role m \<noteq> RoleAssistant) ms = []"
  by (induction ms) simp_all

lemma turns_replace:
  assumes "list_all (\<lambda>m. m_role m = RoleAssistant) completed"
    and "h_conversation (ls_history ls) = base @ in_model_output (ls_inputs ls)"
    and "list_all (\<lambda>m. m_role m = RoleAssistant) (in_model_output (ls_inputs ls))"
  shows "turns (replace_engine_model_outputs completed ls) = turns ls"
  unfolding turns_def
  by (simp add: replace_engine_model_outputs_def Let_def assms(2) no_turns_of_assistants [OF assms(3)]
      no_turns_of_assistants [OF metadata_all_assistant [OF assms(1)]] del: filter_empty_conv mset_filter)

lemma coordinator_turns:
  assumes "coordinator_execute co ls = (None, co', ls')"
    and "h_conversation (ls_history ls) = base @ in_model_output (ls_inputs ls)"
    and "list_all (\<lambda>m. m_role m = RoleAssistant) (in_model_output (ls_inputs ls))"
  shows "turns ls' = turns ls \<and> (in_terminate (ls_inputs ls') \<longrightarrow> h_held (ls_history ls') = [])"
proof -
  obtain completed co2 where obs:
    "observe_model_responses (in_model_delta (ls_inputs ls)) (track_open_exchange ls co)
       = (None, completed, co2)"
    using assms(1)
    by (cases "observe_model_responses (in_model_delta (ls_inputs ls)) (track_open_exchange ls co)")
       (auto simp: coordinator_execute_def split: option.splits)
  define ls1 where "ls1 = (if co_overlap co2 then replace_engine_model_outputs completed ls else ls)"
  obtain co3 ls2 where disp: "dispatch co2 ls1 = (co3, ls2)" by fastforce
  have ls': "ls' = (if in_terminate (ls_inputs ls2) then place_held_user_messages ls2 else ls2)"
    using assms(1) by (simp add: coordinator_execute_def obs Let_def disp flip: ls1_def)
  have "turns ls1 = turns ls"
    using turns_replace [OF observe_all_assistant [OF obs] assms(2,3)] by (simp add: ls1_def)
  moreover have "turns ls2 = turns ls1"
    using turns_dispatch [of co2 ls1] by (simp add: disp)
  ultimately show ?thesis by (simp add: ls' turns_place)
qed

text \<open>
  C2: the coordinator never loses or repeats a user turn. On every tick it completes, in
  every mode and branch, the messages other than the assistant's that are in the
  conversation or held afterwards are exactly those before; and when the tick ends the
  loop, none is left held.
\<close>

theorem user_turns_conserved:
  assumes "coordinator_execute co ls = (None, co', ls')"
    and "h_conversation (ls_history ls) = base @ in_model_output (ls_inputs ls)"
    and "list_all (\<lambda>m. m_role m = RoleAssistant) (in_model_output (ls_inputs ls))"
  shows "turns ls' = turns ls \<and> (in_terminate (ls_inputs ls') \<longrightarrow> h_held (ls_history ls') = [])"
  by (rule coordinator_turns [OF assms])

section \<open>Interleaved responses\<close>

definition response_of :: "stream_message \<Rightarrow> string" where
  "response_of d = trim_space (sm_response_id d)"

text \<open>
  A well scoped delta sequence: every delta names its response, a response starts once with
  MESSAGE.START before its other deltas, at most 16 are open at a time, and nothing follows
  its MESSAGE.END. The lists are the open responses and those seen.
\<close>

fun well_scoped :: "string list \<Rightarrow> string list \<Rightarrow> stream_message list \<Rightarrow> bool" where
  "well_scoped active seen [] = True"
| "well_scoped active seen (d # ds) =
     (response_of d \<noteq> '''' \<and> \<not> is_acknowledgement_delta d
      \<and> (if sm_type d = StreamMessageStart
         then response_of d \<notin> set seen \<and> length active < 16
              \<and> well_scoped (active @ [response_of d]) (response_of d # seen) ds
         else if sm_type d = StreamMessageEnd
         then response_of d \<in> set active \<and> well_scoped (remove1 (response_of d) active) seen ds
         else response_of d \<in> set active \<and> well_scoped active seen ds))"

text \<open>What each response should become: the message of its own deltas, in order of completion.\<close>

fun separate_messages :: "stream_message list \<Rightarrow> stream_message list \<Rightarrow> message list" where
  "separate_messages before [] = []"
| "separate_messages before (d # ds) =
     (if sm_type d = StreamMessageEnd
      then [reconstruct_model_message
              (filter (\<lambda>x. response_of x = response_of d) (before @ [d]))] else [])
     @ separate_messages (before @ [d]) ds"

definition tracks :: "stream_message list \<Rightarrow> string list \<Rightarrow> coordinator \<Rightarrow> bool" where
  "tracks ps active co \<longleftrightarrow>
     map fst (co_responses co) = active \<and> co_order co = active \<and> distinct active
   \<and> co_anonymous co = None
   \<and> (\<forall>(r, a) \<in> set (co_responses co). a < length (co_store co)
        \<and> co_store co ! a = \<lparr>ra_key = r, ra_deltas = filter (\<lambda>x. response_of x = r) ps,
                              ra_implicit_calls = False\<rparr>)"

lemma tracks_lookup:
  assumes "tracks ps active co" "r \<in> set active"
  obtains a where "map_of (co_responses co) r = Some a" "a < length (co_store co)"
    "co_store co ! a = \<lparr>ra_key = r, ra_deltas = filter (\<lambda>x. response_of x = r) ps,
       ra_implicit_calls = False\<rparr>" "(r, a) \<in> set (co_responses co)"
proof -
  obtain a where a: "(r, a) \<in> set (co_responses co)"
    using assms by (auto simp: tracks_def)
  moreover have "map_of (co_responses co) r = Some a"
    using a assms(1) by (auto simp: tracks_def intro: map_of_is_SomeI)
  ultimately show thesis using assms(1) that [of a] by (auto simp: tracks_def)
qed

lemma response_named: "response_of d \<noteq> '''' \<Longrightarrow> sm_response_id d \<noteq> ''''"
  by (auto simp: response_of_def)

lemma tracks_same_key:
  assumes "tracks ps active co" "(r, a) \<in> set (co_responses co)" "(r', a) \<in> set (co_responses co)"
  shows "r = r'"
proof -
  have "ra_key (co_store co ! a) = r" "ra_key (co_store co ! a) = r'"
    using assms by (auto simp: tracks_def)
  then show ?thesis by simp
qed

lemma tracks_record:
  assumes "tracks ps active co" "map_of (co_responses co) (response_of d) = Some a"
    and "response_of d \<noteq> ''''"
  shows "tracks (ps @ [d]) active (record_response_delta a d co)"
proof -
  have a: "(response_of d, a) \<in> set (co_responses co)" by (rule map_of_SomeD [OF assms(2)])
  have store: "b < length (co_store (record_response_delta a d co))
      \<and> co_store (record_response_delta a d co) ! b
        = \<lparr>ra_key = r, ra_deltas = filter (\<lambda>x. response_of x = r) (ps @ [d]), ra_implicit_calls = False\<rparr>"
    if rb: "(r, b) \<in> set (co_responses co)" for r b
  proof (cases "b = a")
    case True
    then have "r = response_of d" using tracks_same_key [OF assms(1) rb] a by simp
    then show ?thesis
      using True assms(1) rb response_named [OF assms(3)]
      by (auto simp: tracks_def record_response_delta_def Let_def)
  next
    case False
    have "distinct (map fst (co_responses co))" using assms(1) by (auto simp: tracks_def)
    then have "r \<noteq> response_of d"
      using False eq_key_imp_eq_value rb a by metis
    then show ?thesis
      using False assms(1) rb by (auto simp: tracks_def record_response_delta_def Let_def)
  qed
  then show ?thesis
    using assms(1) unfolding tracks_def by (auto simp: record_response_delta_def Let_def)
qed

lemma update_append: "k \<notin> fst ` set xs \<Longrightarrow> AList.update k v xs = xs @ [(k, v)]"
  by (induction xs) auto

lemma start_tracks:
  assumes "tracks ps active co" "set active \<subseteq> set seen" "set (map response_of ps) \<subseteq> set seen"
    and "sm_type d = StreamMessageStart" "response_of d \<noteq> ''''" "response_of d \<notin> set seen"
    and "length active < 16"
  shows "\<exists>a co1. start_model_response d co = (Inr (Some a), co1)
     \<and> tracks ps (active @ [response_of d]) co1
     \<and> map_of (co_responses co1) (response_of d) = Some a"
proof -
  let ?r = "response_of d" and ?a = "length (co_store co)"
  define co0 where "co0 = (if has_active_model_response ?r co then co\<lparr>co_overlap := True\<rparr> else co)"
  have co0: "co_responses co0 = co_responses co" "co_store co0 = co_store co" "co_order co0 = co_order co"
    "co_anonymous co0 = co_anonymous co"
    by (simp_all add: co0_def)
  have new: "?r \<notin> fst ` set (co_responses co)"
    using assms(1,2,6) by (auto simp: tracks_def simp flip: set_map)
  have len: "length (co_responses co) < 16"
    using assms(1,7) by (auto simp: tracks_def dest: arg_cong [of _ _ length])
  have none: "filter (\<lambda>x. response_of x = ?r) ps = []"
    using assms(3,6) by (auto simp: filter_empty_conv)
  let ?co1 = "co0\<lparr>co_store := co_store co @ [\<lparr>ra_key = ?r, ra_deltas = [], ra_implicit_calls = False\<rparr>],
      co_responses := co_responses co @ [(?r, ?a)], co_order := co_order co @ [?r], co_latest := Some ?a\<rparr>"
  have "start_model_response d co = (Inr (Some ?a), ?co1)"
    using assms(4,5) new len co0
    by (simp add: start_model_response_def Let_def update_append map_of_eq_None_iff
        max_tracked_model_responses_def flip: response_of_def co0_def)
  moreover have "tracks ps (active @ [?r]) ?co1"
    using assms(1,2,6) none co0(4) unfolding tracks_def by (auto simp: nth_append)
  moreover have "map_of (co_responses ?co1) ?r = Some ?a"
    using iffD2 [OF map_of_eq_None_iff new] by (simp add: map_add_def)
  ultimately show ?thesis by blast
qed

lemma joined_single:
  assumes "tracks ps active co" "r \<in> set active" "map_of (co_responses co) r = Some a"
  shows "joined_assemblies a co = [a]"
proof -
  let ?m = "map_of (co_responses co)"
  have ra: "(r, a) \<in> set (co_responses co)" by (rule map_of_SomeD [OF assms(3)])
  then have no: "ra_implicit_calls (co_store co ! a) = False" using assms(1) by (auto simp: tracks_def)
  have key: "(case ?m k of None \<Rightarrow> False | Some b \<Rightarrow> b = a) \<longleftrightarrow> k = r" for k
    using tracks_same_key [OF assms(1) _ ra] assms(3)
    by (auto dest: map_of_SomeD split: option.split)
  have "filter (\<lambda>k. k = r) ks = [r]" if "distinct ks" "r \<in> set ks" for ks
    using that by (induction ks) (auto simp: filter_empty_conv)
  then have "filter (\<lambda>k. k = r) active = [r]"
    using assms(1,2) by (simp add: tracks_def)
  then show ?thesis
    using assms(1,3) key
    by (simp add: joined_assemblies_def Let_def no filter_map comp_def tracks_def)
qed

lemma complete_tracks:
  assumes "tracks ps active co" "r \<in> set active" "map_of (co_responses co) r = Some a"
  shows "\<exists>co'. complete_model_response a co
      = (reconstruct_model_message (filter (\<lambda>x. response_of x = r) ps), co')
    \<and> tracks ps (remove1 r active) co'"
proof -
  have ra: "(r, a) \<in> set (co_responses co)" by (rule map_of_SomeD [OF assms(3)])
  have store: "co_store co ! a = \<lparr>ra_key = r, ra_deltas = filter (\<lambda>x. response_of x = r) ps,
      ra_implicit_calls = False\<rparr>"
    using assms(1) ra by (auto simp: tracks_def)
  let ?co = "remove_model_response a co"
  have facts: "co_responses ?co = AList.delete r (co_responses co)" "co_order ?co = remove1 r (co_order co)"
    "co_store ?co = co_store co" "co_anonymous ?co = None"
    using assms(1,3) store
    by (simp_all add: remove_model_response_def Let_def assembly_key_def tracks_def
        delete_model_response_key_def restore_latest_model_response_def)
  have "map fst (AList.delete r xs) = remove1 r (map fst xs)" if "distinct (map fst xs)" for xs :: "(string \<times> nat) list"
    using that by (induction xs) (auto simp: AList.delete_eq remove1_idem simp flip: set_map)
  then have "tracks ps (remove1 r active) ?co"
    using assms(1) facts unfolding tracks_def by (auto simp: AList.delete_eq)
  then show ?thesis
    using joined_single [OF assms] store by (simp add: complete_model_response_def Let_def)
qed

lemma observe_separates:
  "tracks ps active co \<Longrightarrow> set active \<subseteq> set seen \<Longrightarrow> set (map response_of ps) \<subseteq> set seen \<Longrightarrow>
   well_scoped active seen ds \<Longrightarrow>
   \<exists>co'. observe_model_responses ds co = (None, separate_messages ps ds, co')"
proof (induction ds arbitrary: ps active seen co)
  case (Cons d ds)
  let ?r = "response_of d"
  have named: "?r \<noteq> ''''" "\<not> is_acknowledgement_delta d" using Cons.prems(4) by auto
  show ?case
  proof (cases "sm_type d = StreamMessageStart")
    case True
    then have new: "?r \<notin> set seen" "length active < 16"
      "well_scoped (active @ [?r]) (?r # seen) ds"
      using Cons.prems(4) by auto
    obtain a co1 where start: "start_model_response d co = (Inr (Some a), co1)"
      "tracks ps (active @ [?r]) co1" "map_of (co_responses co1) ?r = Some a"
      using start_tracks [OF Cons.prems(1,2,3) True named(1) new(1,2)] by blast
    have "tracks (ps @ [d]) (active @ [?r]) (record_response_delta a d co1)"
      by (rule tracks_record [OF start(2,3) named(1)])
    moreover have "set (active @ [?r]) \<subseteq> set (?r # seen)"
      "set (map response_of (ps @ [d])) \<subseteq> set (?r # seen)"
      using Cons.prems(2,3) by auto
    ultimately have "\<exists>co'. observe_model_responses ds (record_response_delta a d co1)
        = (None, separate_messages (ps @ [d]) ds, co')"
      using Cons.IH new(3) by blast
    then show ?thesis
      using True named(2) start(1) by (auto simp: model_response_assembly_for_delta_def Let_def)
  next
    case False
    then have r: "?r \<in> set active" using Cons.prems(4) by (auto split: if_splits)
    obtain a where a: "map_of (co_responses co) ?r = Some a"
      using tracks_lookup [OF Cons.prems(1) r] by blast
    have found: "model_response_assembly_for_delta d co = (Inr (Some a), co)"
      using False named a
      by (simp add: model_response_assembly_for_delta_def start_model_response_def
          model_response_for_delta_def Let_def flip: response_of_def)
    let ?co = "record_response_delta a d co"
    have rec: "tracks (ps @ [d]) active ?co" by (rule tracks_record [OF Cons.prems(1) a named(1)])
    have ps: "set (map response_of (ps @ [d])) \<subseteq> set seen" using Cons.prems(2,3) r by auto
    show ?thesis
    proof (cases "sm_type d = StreamMessageEnd")
      case True
      have "map_of (co_responses ?co) ?r = Some a" by (simp add: record_response_delta_def Let_def a)
      from complete_tracks [OF rec r this] obtain co' where finished:
        "complete_model_response a ?co
           = (reconstruct_model_message (filter (\<lambda>x. response_of x = ?r) (ps @ [d])), co')"
        "tracks (ps @ [d]) (remove1 ?r active) co'" by blast
      have "set (remove1 ?r active) \<subseteq> set seen" using Cons.prems(2) set_remove1_subset by fast
      then obtain co2 where "observe_model_responses ds co' = (None, separate_messages (ps @ [d]) ds, co2)"
        using Cons.IH [OF finished(2) _ ps] Cons.prems(4) False True by auto
      then show ?thesis using True found finished(1) by (simp add: Let_def)
    next
      case mid: False
      then obtain co2 where "observe_model_responses ds ?co = (None, separate_messages (ps @ [d]) ds, co2)"
        using Cons.IH [OF rec Cons.prems(2) ps] Cons.prems(4) False by auto
      then show ?thesis using mid found by (simp add: Let_def)
    qed
  qed
qed simp

text \<open>
  interleaved responses stay apart. For every well scoped sequence of deltas of at most
  16 concurrently open responses, in any interleaving, the coordinator reports no error and
  completes, in the order of their MESSAGE.END, exactly the message each response's own
  deltas give.
\<close>

theorem interleaved_responses_separate:
  assumes "well_scoped [] [] ds"
  shows "\<exists>co'. observe_model_responses ds new_coordinator = (None, separate_messages [] ds, co')"
  by (rule observe_separates [OF _ _ _ assms]) (simp_all add: tracks_def new_coordinator_def)

definition scoped_delta :: "string \<Rightarrow> stream_type \<Rightarrow> stream_value \<Rightarrow> stream_message" where
  "scoped_delta rid ty v = (mk_delta ty RoleAssistant v)\<lparr>sm_response_id := rid\<rparr>"

definition two_responses :: "stream_message list" where
  "two_responses =
     [scoped_delta ''a'' StreamMessageStart VMessageStart,
      scoped_delta ''b'' StreamMessageStart VMessageStart,
      scoped_delta ''a'' StreamTextDelta (VTextDelta ''x''),
      scoped_delta ''b'' StreamTextDelta (VTextDelta ''y''),
      scoped_delta ''b'' StreamMessageEnd (VMessageEnd None),
      scoped_delta ''a'' StreamTextDelta (VTextDelta ''z''),
      scoped_delta ''a'' StreamMessageEnd (VMessageEnd None)]"

lemma trim_plain_ids: "trim_space ''a'' = ''a''" "trim_space ''b'' = ''b''"
  by (simp_all add: trim_space_def trim_leading.simps leading_space_def white_spaces_def)

lemma interleaved_responses_separate_witness:
  "\<exists>ms co'. observe_model_responses two_responses new_coordinator = (None, ms, co')
     \<and> map text_content ms = [''y'', ''xz'']"
proof -
  have "well_scoped [] [] two_responses"
    by (simp add: two_responses_def scoped_delta_def mk_delta_def zero_stream_message_def
        response_of_def trim_plain_ids is_acknowledgement_delta_def)
  moreover have "map text_content (separate_messages [] two_responses) = [''y'', ''xz'']"
    by (simp add: two_responses_def scoped_delta_def mk_delta_def zero_stream_message_def
        response_of_def trim_plain_ids reconstruct_text_content delta_text_def)
  ultimately show ?thesis using interleaved_responses_separate [of two_responses] by auto
qed

section \<open>A user turn in the middle of an exchange\<close>

lemma observe_none [simp]: "observe_model_responses [] co = (None, [], co)"
  by simp

lemma replace_nothing:
  "in_model_output (ls_inputs ls) = [] \<Longrightarrow> replace_engine_model_outputs [] ls = ls"
  by (simp add: replace_engine_model_outputs_def engine_outputs_at_history_tail_def Let_def)

text \<open>
  a user turn does not retire an open exchange. In a turn-based mode, a tick that
  brings only user turns while a response is open or a tool batch is outstanding moves the
  turns behind the ones already held and changes nothing else: no pass is started, so no
  delta of the exchange becomes stale, no request is written, and the coordinator
  remembers to answer.
\<close>

theorem user_turn_held:
  assumes "ls_mode ls \<noteq> DuplexSession" "holding_user_turns co"
    and "ls_inputs ls = empty_inputs\<lparr>in_user_output := users\<rparr>" "users \<noteq> []"
    and "h_conversation (ls_history ls) = base @ users"
  shows "\<exists>co' ls'. coordinator_execute co ls = (None, co', ls')
    \<and> ls_history ls' = (ls_history ls)\<lparr>h_conversation := base,
                          h_held := h_held (ls_history ls) @ users\<rparr>
    \<and> ls_outputs ls' = ls_outputs ls \<and> \<not> in_terminate (ls_inputs ls')
    \<and> holding_user_turns co' \<and> co_held_needs co'"
proof -
  have track: "track_open_exchange ls co = co"
    by (simp add: track_open_exchange_def assms(3) empty_inputs_def has_interrupt_message_def Let_def)
  have same: "(if co_overlap co then replace_engine_model_outputs [] ls else ls) = ls"
    using assms(3) replace_nothing [of ls] by (simp add: empty_inputs_def)
  have "dispatch co ls = (co\<lparr>co_held_needs := True\<rparr>, hold_user_turns ls)"
    using assms by (simp add: dispatch_def empty_inputs_def dispatch_user_outputs_def Let_def
        hold_user_turns_def)
  then have "coordinator_execute co ls = (None, co\<lparr>co_held_needs := True\<rparr>, hold_user_turns ls)"
    using assms(3)
    by (simp add: coordinator_execute_def track same Let_def empty_inputs_def hold_user_turns_def)
  then show ?thesis
    using assms(2,3,5)
    by (simp add: hold_user_turns_def Let_def empty_inputs_def holding_user_turns_def)
qed

text \<open>
  C38: a held user turn is answered when the exchange completes. In a turn-based mode, when
  the last response of the exchange arrives as a final answer and nothing is open any more,
  the answer goes to the user, the held turns follow it in history and on the kernel
  stream, and one new pass over the whole conversation is requested instead of the loop
  ending with them unanswered.
\<close>

theorem held_turn_answered:
  assumes "ls_mode ls \<noteq> DuplexSession" "in_model_output (ls_inputs ls) = [m]"
    and "m_tool_calls m = []" "\<not> has_only_reasoning m"
    and "in_tool_output (ls_inputs ls) = []" "\<not> in_terminate (ls_inputs ls)"
    and "\<not> holding_user_turns co" "co_held_needs co" "h_held (ls_history ls) \<noteq> []"
  shows "\<exists>co' ls'. dispatch co ls = (co', ls')
    \<and> h_conversation (ls_history ls') = h_conversation (ls_history ls) @ h_held (ls_history ls)
    \<and> h_held (ls_history ls') = [] \<and> \<not> co_held_needs co' \<and> \<not> in_terminate (ls_inputs ls')
    \<and> out_user (ls_outputs ls') = out_user (ls_outputs ls) @ [m]
    \<and> full_messages (out_kernel (ls_outputs ls'))
        = full_messages (out_kernel (ls_outputs ls)) @ m # h_held (ls_history ls)
    \<and> h_pass (ls_history ls') = h_pass (ls_history ls) + 1
    \<and> out_model (ls_outputs ls') = out_model (ls_outputs ls)
        @ [new_inference_request (h_conversation (ls_history ls')) (ls_tools ls)
             (h_pass (ls_history ls')) (ls_defaults ls)]"
  using assms
  by (simp add: dispatch_def dispatch_model_outputs_def route_model_output_def Let_def
      write_user_request_def write_full_message_def write_kernel_def dispatch_inference_def
      dispatch_inference_over_def bump_pass_def write_model_request_def reset_model_delta_window_def
      place_held_kernel)

definition user_says :: "string \<Rightarrow> message" where
  "user_says t = new_text_message RoleUser t"

definition sample_busy :: coordinator where
  "sample_busy = new_coordinator\<lparr>co_open := True\<rparr>"

definition sample_user_tick :: "unit loop_state" where
  "sample_user_tick = (ls_history_update (\<lambda>h. h\<lparr>h_conversation := [user_says ''one'', user_says ''two'']\<rparr>)
     (new_loop_state ModeTurnTaking [] True))\<lparr>ls_inputs := empty_inputs\<lparr>in_user_output := [user_says ''two'']\<rparr>\<rparr>"

lemma user_turn_held_witness:
  "\<exists>co' ls'. coordinator_execute sample_busy sample_user_tick = (None, co', ls')
    \<and> ls_history ls' = (ls_history sample_user_tick)\<lparr>h_conversation := [user_says ''one''],
                          h_held := h_held (ls_history sample_user_tick) @ [user_says ''two'']\<rparr>
    \<and> ls_outputs ls' = ls_outputs sample_user_tick \<and> \<not> in_terminate (ls_inputs ls')
    \<and> holding_user_turns co' \<and> co_held_needs co'"
  by (rule user_turn_held)
     (simp_all add: sample_user_tick_def sample_busy_def holding_user_turns_def new_loop_state_def)

definition sample_answer :: message where
  "sample_answer = new_text_message RoleAssistant ''done''"

definition sample_answer_tick :: "unit loop_state" where
  "sample_answer_tick = (ls_history_update (\<lambda>h. h\<lparr>h_conversation := [user_says ''one'', sample_answer],
       h_held := [user_says ''two'']\<rparr>)
     (new_loop_state ModeTurnTaking [] True))\<lparr>ls_inputs := empty_inputs\<lparr>in_model_output := [sample_answer]\<rparr>\<rparr>"

lemma held_turn_answered_witness:
  "\<exists>co' ls'. dispatch (new_coordinator\<lparr>co_held_needs := True\<rparr>) sample_answer_tick = (co', ls')
    \<and> h_conversation (ls_history ls')
        = h_conversation (ls_history sample_answer_tick) @ h_held (ls_history sample_answer_tick)
    \<and> h_held (ls_history ls') = [] \<and> \<not> co_held_needs co' \<and> \<not> in_terminate (ls_inputs ls')
    \<and> out_user (ls_outputs ls') = out_user (ls_outputs sample_answer_tick) @ [sample_answer]
    \<and> full_messages (out_kernel (ls_outputs ls'))
        = full_messages (out_kernel (ls_outputs sample_answer_tick))
          @ sample_answer # h_held (ls_history sample_answer_tick)
    \<and> h_pass (ls_history ls') = h_pass (ls_history sample_answer_tick) + 1
    \<and> out_model (ls_outputs ls') = out_model (ls_outputs sample_answer_tick)
        @ [new_inference_request (h_conversation (ls_history ls')) (ls_tools sample_answer_tick)
             (h_pass (ls_history ls')) (ls_defaults sample_answer_tick)]"
  by (rule held_turn_answered)
     (simp_all add: sample_answer_tick_def new_loop_state_def empty_inputs_def sample_answer_def
        new_text_message_def zero_message_def has_only_reasoning_def holding_user_turns_def
        new_coordinator_def)

section \<open>Tool batches and passes\<close>

definition requests_tools :: "message \<Rightarrow> bool" where
  "requests_tools m \<longleftrightarrow> m_tool_calls m \<noteq> []"

lemma route_model_outputs_batches:
  assumes "ls_tools_available ls"
  shows "map tb_calls (out_tool (ls_outputs (snd (snd (route_model_outputs ms co ls)))))
      = map tb_calls (out_tool (ls_outputs ls)) @ map m_tool_calls (filter requests_tools ms)
    \<and> co_batches (fst (snd (route_model_outputs ms co ls)))
      = co_batches co + length (filter requests_tools ms)
    \<and> out_user (ls_outputs (snd (snd (route_model_outputs ms co ls))))
      = out_user (ls_outputs ls)
        @ filter (\<lambda>m. \<not> requests_tools m \<and> \<not> has_only_reasoning m) ms"
  using assms
proof (induction ms arbitrary: co ls)
  case (Cons m ms)
  have avail: "ls_tools_available (snd (snd (route_model_output m co ls)))"
    using Cons.prems
    by (simp add: route_model_output_def next_tool_batch_pass_def ensure_session_pass_def Let_def
        bump_pass_def request_simps case_prod_beta)
  show ?case
    using Cons.IH [OF avail, of "fst (snd (route_model_output m co ls))"] Cons.prems
    by (simp add: route_model_output_def next_tool_batch_pass_def ensure_session_pass_def Let_def
        bump_pass_def request_simps case_prod_beta requests_tools_def)
qed simp

text \<open>
  every tool request becomes exactly one batch. On a tick with model outputs, when the
  loop has tools, the batches written are the call lists of the outputs that request tools,
  in order, and the count of outstanding batches grows by their number; the outputs without
  calls that are not mere reasoning go to the user, in order; in a duplex session this tick
  never ends the loop, and batches all carry the session's pass.
\<close>

theorem tool_requests_batched:
  assumes "ls_tools_available ls" "outputs = in_model_output (ls_inputs ls)"
  shows "map tb_calls (out_tool (ls_outputs (snd (dispatch_model_outputs co ls))))
      = map tb_calls (out_tool (ls_outputs ls)) @ map m_tool_calls (filter requests_tools outputs)
    \<and> co_batches (fst (dispatch_model_outputs co ls)) = co_batches co + length (filter requests_tools outputs)
    \<and> out_user (ls_outputs (snd (dispatch_model_outputs co ls))) = out_user (ls_outputs ls)
        @ filter (\<lambda>m. \<not> requests_tools m \<and> \<not> has_only_reasoning m) outputs"
  using route_model_outputs_batches [of "fold (write_full_message PModel) outputs ls" outputs co] assms
  by (simp add: dispatch_model_outputs_def Let_def case_prod_beta reset_model_delta_window_def
      set_terminate_def dispatch_inference_def dispatch_inference_over_def bump_pass_def request_simps)

definition sample_request :: message where
  "sample_request = zero_message\<lparr>m_role := RoleAssistant,
     m_tool_calls := [\<lparr>tc_id = ''1'', tc_name = ''f'', tc_arguments = ''''\<rparr>]\<rparr>"

definition sample_request_tick :: "unit loop_state" where
  "sample_request_tick = (new_loop_state DuplexSession [] True)\<lparr>ls_inputs :=
     empty_inputs\<lparr>in_model_output := [sample_request, sample_answer]\<rparr>\<rparr>"

lemma tool_requests_batched_witness:
  "map tb_calls (out_tool (ls_outputs (snd (dispatch_model_outputs new_coordinator sample_request_tick))))
     = [m_tool_calls sample_request]
   \<and> co_batches (fst (dispatch_model_outputs new_coordinator sample_request_tick)) = 1
   \<and> out_user (ls_outputs (snd (dispatch_model_outputs new_coordinator sample_request_tick)))
     = [sample_answer]"
  using tool_requests_batched [of sample_request_tick "[sample_request, sample_answer]" new_coordinator]
  by (simp add: sample_request_tick_def new_loop_state_def empty_outputs_def new_coordinator_def
      requests_tools_def sample_request_def sample_answer_def new_text_message_def zero_message_def
      has_only_reasoning_def)

section \<open>When the loop ends\<close>

definition delivered :: "bool \<Rightarrow> message \<Rightarrow> bool" where
  "delivered available m \<longleftrightarrow> (m_tool_calls m \<noteq> [] \<and> \<not> available)
     \<or> (m_tool_calls m = [] \<and> \<not> has_only_reasoning m)"

lemma route_model_output_final:
  "fst (route_model_output m co ls) \<longleftrightarrow> delivered (ls_tools_available ls) m"
  "ls_tools_available (snd (snd (route_model_output m co ls))) = ls_tools_available ls"
  "ls_inputs (snd (snd (route_model_output m co ls))) = ls_inputs ls"
  "ls_mode (snd (snd (route_model_output m co ls))) = ls_mode ls"
  "h_held (ls_history (snd (snd (route_model_output m co ls)))) = h_held (ls_history ls)"
  "co_held_needs (fst (snd (route_model_output m co ls))) = co_held_needs co"
  "co_open (fst (snd (route_model_output m co ls))) = co_open co"
  by (auto simp: route_model_output_def delivered_def next_tool_batch_pass_def
      ensure_session_pass_def Let_def bump_pass_def request_simps case_prod_beta)

lemma route_model_outputs_final:
  "(fst (route_model_outputs ms co ls) \<longleftrightarrow> list_ex (delivered (ls_tools_available ls)) ms)
   \<and> ls_inputs (snd (snd (route_model_outputs ms co ls))) = ls_inputs ls
   \<and> ls_mode (snd (snd (route_model_outputs ms co ls))) = ls_mode ls
   \<and> h_held (ls_history (snd (snd (route_model_outputs ms co ls)))) = h_held (ls_history ls)
   \<and> co_held_needs (fst (snd (route_model_outputs ms co ls))) = co_held_needs co
   \<and> co_open (fst (snd (route_model_outputs ms co ls))) = co_open co"
proof (induction ms arbitrary: co ls)
  case (Cons m ms)
  show ?case
    using Cons.IH [of "fst (snd (route_model_output m co ls))" "snd (snd (route_model_output m co ls))"]
    by (simp add: route_model_output_final case_prod_beta)
qed simp

lemma dispatch_inference_inputs [simp]:
  "ls_inputs (dispatch_inference ls) = ls_inputs ls" "ls_mode (dispatch_inference ls) = ls_mode ls"
  by (simp_all add: dispatch_inference_def dispatch_inference_over_def bump_pass_def request_simps Let_def)

lemma place_held_terminate [simp]:
  "in_terminate (ls_inputs (reset_model_delta_window ls)) = in_terminate (ls_inputs ls)"
  by (simp add: reset_model_delta_window_def)

lemma user_turns_conserved_witness:
  "\<exists>co' ls'. coordinator_execute sample_busy sample_user_tick = (None, co', ls')
    \<and> turns ls' = {#user_says ''one'', user_says ''two''#}"
proof -
  obtain co' ls' where run: "coordinator_execute sample_busy sample_user_tick = (None, co', ls')"
    using user_turn_held [of sample_user_tick sample_busy "[user_says ''two'']" "[user_says ''one'']"]
    by (auto simp: sample_user_tick_def sample_busy_def holding_user_turns_def new_loop_state_def)
  have "turns ls' = turns sample_user_tick"
    using user_turns_conserved [OF run, of "[user_says ''one'', user_says ''two'']"]
    by (simp add: sample_user_tick_def new_loop_state_def empty_inputs_def)
  then show ?thesis
    using run by (simp add: turns_def sample_user_tick_def new_loop_state_def empty_history_def
        user_says_def new_text_message_def zero_message_def)
qed

text \<open>
  when a tick with model outputs ends the loop. It ends it exactly when the loop is
  turn based, some output was delivered to the user (an answer, or a tool request nobody
  can execute), and no held user turn is answered instead; a duplex session is never ended
  by an answer. An end already requested stays requested.
\<close>

theorem loop_end_rule:
  "in_terminate (ls_inputs (snd (dispatch_model_outputs co ls))) \<longleftrightarrow>
     in_terminate (ls_inputs ls)
     \<or> (ls_mode ls \<noteq> DuplexSession
        \<and> list_ex (delivered (ls_tools_available ls)) (in_model_output (ls_inputs ls))
        \<and> \<not> (co_held_needs co \<and> h_held (ls_history ls) \<noteq> []
             \<and> \<not> holding_user_turns (fst (dispatch_model_outputs co ls))))"
proof -
  let ?ms = "in_model_output (ls_inputs ls)"
  let ?ls1 = "fold (write_full_message PModel) ?ms ls"
  let ?co2 = "fst (snd (route_model_outputs ?ms co ?ls1))"
  have "holding_user_turns (fst (dispatch_model_outputs co ls)) = holding_user_turns ?co2"
    by (simp add: dispatch_model_outputs_def Let_def case_prod_beta holding_user_turns_def)
  then show ?thesis
    using route_model_outputs_final [of ?ms co ?ls1]
    by (auto simp: dispatch_model_outputs_def Let_def case_prod_beta set_terminate_def)
qed

section \<open>Closing the stream\<close>

definition as_requests :: "participant_id \<Rightarrow> stream_message list \<Rightarrow> kernel_delta_request list" where
  "as_requests src ds = map (\<lambda>d. \<lparr>kd_source = src, kd_delta = d\<rparr>) ds"

lemma fold_write_kernel:
  "fold (write_kernel src) ds ls =
     ls_outputs_update (out_kernel_update (\<lambda>xs. xs @ as_requests src ds)) ls"
proof (induction ds arbitrary: ls)
  case (Cons d ds)
  then show ?case by (simp add: write_kernel_def as_requests_def comp_def)
qed (simp add: as_requests_def)

text \<open>
  the kernel sees a tick's deltas in order, and the end of the loop last. The delta
  coordinator appends the model's deltas, the tools' and the user's; when the loop ends it
  then appends the turns still held, in a duplex session one SESSION.CLOSE, and one
  LOOP.END as the very last record, and no turn stays held. A loop that goes on gets none
  of these.
\<close>

theorem delta_coordinator_order:
  "out_kernel (ls_outputs (coordinator_delta_execute ls)) = out_kernel (ls_outputs ls)
     @ as_requests PModel (in_model_delta (ls_inputs ls))
     @ as_requests PTool (in_tool_delta (ls_inputs ls))
     @ as_requests PUser (in_user_delta (ls_inputs ls))
     @ (if in_terminate (ls_inputs ls)
        then map (\<lambda>m. \<lparr>kd_source = PUser, kd_delta = full_message_delta PUser m\<rparr>) (h_held (ls_history ls))
          @ (if ls_mode ls = DuplexSession then as_requests PSystem [session_close_delta ls] else [])
          @ as_requests PSystem [loop_end_delta]
        else [])
   \<and> h_conversation (ls_history (coordinator_delta_execute ls)) @ h_held (ls_history (coordinator_delta_execute ls))
     = h_conversation (ls_history ls) @ h_held (ls_history ls)
   \<and> h_held (ls_history (coordinator_delta_execute ls))
     = (if in_terminate (ls_inputs ls) then [] else h_held (ls_history ls))"
  by (simp add: coordinator_delta_execute_def Let_def fold_write_kernel place_held_kernel
      write_kernel_def session_close_delta_def as_requests_def)

section \<open>A response started twice\<close>

text \<open>
  A second MESSAGE.START of a response that is still open replaces its assembly but adds
  its key to the order again, so the completed response is joined with itself: its tool
  call appears twice in the message the coordinator dispatches. Here another response is
  open, so the coordinator uses its own assemblies.
\<close>

definition started_twice :: "stream_message list" where
  "started_twice =
     [scoped_delta ''b'' StreamMessageStart VMessageStart,
      scoped_delta ''a'' StreamMessageStart VMessageStart,
      scoped_delta ''a'' StreamMessageStart VMessageStart,
      scoped_delta ''a'' StreamToolCallEnd (VToolCallEnd ''1'' ''f'' ''{}''),
      scoped_delta ''a'' StreamMessageEnd (VMessageEnd None)]"

lemma restarted_response_doubles_calls:
  "(case observe_model_responses started_twice new_coordinator of
      (e, ms, co) \<Rightarrow> e = None \<and> co_overlap co
        \<and> map (map tc_id \<circ> m_tool_calls) ms = [[''1'', ''1'']])"
  by (simp add: started_twice_def scoped_delta_def mk_delta_def zero_stream_message_def
        model_response_assembly_for_delta_def start_model_response_def Let_def trim_plain_ids
        is_acknowledgement_delta_def new_coordinator_def has_active_model_response_def
        max_tracked_model_responses_def model_response_for_delta_def record_response_delta_def
        is_tool_call_delta_def complete_model_response_def joined_assemblies_def nth_append
        remove_model_response_def assembly_key_def delete_model_response_key_def
        restore_latest_model_response_def reconstruct_calls self_named_def delta_calls_def)

end
