(* ===== verification/Event_Sink.thy ===== *)
theory Event_Sink
  imports Prelude
begin

text \<open>
  The interface of a place events are sent to: a send either admits its event, after all the
  events admitted before, or refuses it with an error and leaves what was admitted alone. \<^verbatim>\<open>view\<close> is what \<^verbatim>\<open>sent\<close> shows of an
  event: a runner stamps its own ordering fields on a message, and the ingress has a second
  lane.
  The session ingress, the user runner's outbox and the interaction runner's outbox promise
  it; the tool result forwarder, the context pressure notifier and the batch writer rely on
  it.
\<close>

type_synonym ('e, 'q) sink = "'e \<Rightarrow> 'q \<Rightarrow> go_error option \<times> 'q"

text \<open>A loop that sends each event and returns at the first error.\<close>

fun send_each :: "('e, 'q) sink \<Rightarrow> 'e list \<Rightarrow> 'q \<Rightarrow> go_error option \<times> 'q" where
  "send_each send [] q = (None, q)"
| "send_each send (e # es) q =
     (case send e q of
        (Some err, q') \<Rightarrow> (Some err, q')
      | (None, q') \<Rightarrow> send_each send es q')"

locale event_sink =
  fixes send :: "'e \<Rightarrow> 'q \<Rightarrow> go_error option \<times> 'q"
    and sent :: "'q \<Rightarrow> 'v list"
    and view :: "'e \<Rightarrow> 'v list"
  assumes send_admits: "send d q = (None, q') \<Longrightarrow> sent q' = sent q @ view d"
    and send_refuses: "send d q = (Some e, q') \<Longrightarrow> sent q' = sent q"
begin

lemma sent_after: "sent (snd (send d q)) = (if fst (send d q) = None then sent q @ view d else sent q)"
proof (cases "send d q")
  case (Pair r q')
  then show ?thesis using send_admits [of d q q'] send_refuses [of d q _ q'] by (cases r) auto
qed

lemma send_each_prefix:
  "send_each send es q = (r, q') \<Longrightarrow>
   \<exists>n \<le> length es. sent q' = sent q @ concat (map view (take n es)) \<and> (r = None \<longrightarrow> n = length es)"
proof (induction es arbitrary: q)
  case (Cons e es)
  show ?case
  proof (cases "send e q")
    case (Pair re q1)
    show ?thesis
    proof (cases re)
      case None
      then obtain n where "n \<le> length es" "sent q' = sent q1 @ concat (map view (take n es))" "r = None \<longrightarrow> n = length es"
        using Cons.IH [of q1] Cons.prems Pair by auto
      then show ?thesis using None Pair send_admits [of e q q1] by (intro exI [of _ "Suc n"]) simp
    next
      case (Some err)
      then have "r = Some err" "q' = q1" "sent q1 = sent q"
        using Cons.prems Pair send_refuses [of e q err q1] by auto
      then show ?thesis by (intro exI [of _ 0]) simp
    qed
  qed
qed simp

end

end
