(* ===== verification/Forwarder.thy ===== *)
theory Forwarder
  imports Loop_State Event_Sink
begin

text \<open>
  The tool result forwarder, \<^verbatim>\<open>subsystems/tool_result_forwarder.go\<close>: in a duplex session it
  sends each assembled tool result to the provider once, and one continuation request after
  a batch. What it sends into is the interface of \<^verbatim>\<open>Event_Sink\<close>; the exactly-once lemmas are
  proved from its laws, and the session model runner's ingress interprets them.
\<close>

section \<open>Operations\<close>

definition tool_results_contain_image :: "message list \<Rightarrow> bool" where
  "tool_results_contain_image results = list_ex (\<lambda>r. list_ex is_image_part (m_parts r)) results"

definition serialized_tool_output :: "message \<Rightarrow> string" where
  "serialized_tool_output m =
     (if \<not> list_ex is_text_part (m_parts m) then '''' else concat (map text_of_part (m_parts m)))"

text \<open>The name lookup of \<^verbatim>\<open>resolveToolName\<close> in one message's calls, and over the history backwards.\<close>

fun call_name :: "string \<Rightarrow> tool_call list \<Rightarrow> string option" where
  "call_name i [] = None"
| "call_name i (c # cs) =
     (if tc_id c = i \<and> tc_name c \<noteq> '''' then Some (tc_name c) else call_name i cs)"

fun history_call_name :: "string \<Rightarrow> message list \<Rightarrow> string" where
  "history_call_name i [] = ''''"
| "history_call_name i (m # ms) =
     (case call_name i (m_tool_calls m) of Some n \<Rightarrow> n | None \<Rightarrow> history_call_name i ms)"

definition resolve_tool_name :: "message list \<Rightarrow> message \<Rightarrow> string" where
  "resolve_tool_name conversation m =
     (if m_name m \<noteq> '''' then m_name m
      else history_call_name (m_tool_call_id m) (rev conversation))"

definition tool_result_event :: "message list \<Rightarrow> message \<Rightarrow> stream_message" where
  "tool_result_event conversation m =
     mk_delta StreamToolCallEnd RoleUnset
       (VToolCallEnd (m_tool_call_id m) (resolve_tool_name conversation m) (serialized_tool_output m))"

definition continuation_event :: stream_message where
  "continuation_event =
     mk_delta StreamResponseCreate RoleUnset
       (VResponseCreate (Some new_tool_continuation_response_create_value))"

text \<open>
  The loop of \<^verbatim>\<open>Execute\<close> over the results: the error that stopped it, the forwarded IDs,
  whether a result was delivered, and the sink.
\<close>

fun forward_results ::
    "(stream_message, 'q) sink \<Rightarrow> message list \<Rightarrow> bool \<Rightarrow> message list \<Rightarrow> string list \<Rightarrow> bool \<Rightarrow> 'q
     \<Rightarrow> go_error option \<times> string list \<times> bool \<times> 'q" where
  "forward_results send conv rich [] forwarded delivered q = (None, forwarded, delivered, q)"
| "forward_results send conv rich (m # ms) forwarded delivered q =
     (if m_tool_call_id m = '''' then forward_results send conv rich ms forwarded delivered q
      else if rich then forward_results send conv rich ms forwarded delivered q
      else if m_tool_call_id m \<in> set forwarded
      then forward_results send conv rich ms forwarded delivered q
      else (case send (tool_result_event conv m) q of
              (Some e, q') \<Rightarrow> (Some e, forwarded, delivered, q')
            | (None, q') \<Rightarrow>
                forward_results send conv rich ms (forwarded @ [m_tool_call_id m]) True q'))"

definition forwarder_execute ::
    "(stream_message, 'q) sink option \<Rightarrow> 'f loop_state \<Rightarrow> string list \<Rightarrow> 'q \<Rightarrow> go_error option \<times> string list \<times> 'q" where
  "forwarder_execute sink ls forwarded q =
     (case sink of
        None \<Rightarrow> (None, forwarded, q)
      | Some send \<Rightarrow>
          if ls_mode ls \<noteq> DuplexSession then (None, forwarded, q)
          else (let results = in_tool_output (ls_inputs ls) in
                if length results = 0 then (None, forwarded, q)
                else (case forward_results send (h_conversation (ls_history ls))
                             (tool_results_contain_image results) results forwarded False q of
                        (Some e, forwarded', delivered, q') \<Rightarrow> (Some e, forwarded', q')
                      | (None, forwarded', delivered, q') \<Rightarrow>
                          if delivered
                          then (case send continuation_event q' of (r, q'') \<Rightarrow> (r, forwarded', q''))
                          else (None, forwarded', q'))))"

text \<open>
  A sequence of ticks; an error is reported to the engine and the state is kept. Between two
  ticks the receiver works on what it was sent: \<^verbatim>\<open>idle\<close> is its step.
\<close>

fun forwarder_run ::
    "(stream_message, 'q) sink \<Rightarrow> ('i \<Rightarrow> 'q \<Rightarrow> 'q) \<Rightarrow> ('f loop_state \<times> 'i) list \<Rightarrow> string list \<Rightarrow> 'q
     \<Rightarrow> string list \<times> 'q" where
  "forwarder_run send idle [] forwarded q = (forwarded, q)"
| "forwarder_run send idle ((ls, i) # ticks) forwarded q =
     (case forwarder_execute (Some send) ls forwarded q of
        (r, forwarded', q') \<Rightarrow> forwarder_run send idle ticks forwarded' (idle i q'))"

section \<open>The sink interface\<close>

definition result_ids :: "stream_message list \<Rightarrow> string list" where
  "result_ids sent = concat (map (\<lambda>d. case sm_value d of
     Some (VToolCallEnd i _ _) \<Rightarrow> [i] | _ \<Rightarrow> []) sent)"

lemma result_ids_append [simp]: "result_ids (xs @ ys) = result_ids xs @ result_ids ys"
  by (simp add: result_ids_def)

lemma result_ids_events [simp]:
  "result_ids [tool_result_event conv m] = [m_tool_call_id m]" "result_ids [continuation_event] = []"
  by (simp_all add: result_ids_def tool_result_event_def continuation_event_def mk_delta_def)

text \<open>
  The forwarder's sink shows every event it sends, and the receiver's own steps do not change
  what was sent.
\<close>

definition forwardable :: "stream_message \<Rightarrow> bool" where
  "forwardable d \<longleftrightarrow> sm_type d = StreamToolCallEnd \<or> sm_type d = StreamResponseCreate"

lemma forwardable_events [simp]:
  "forwardable (tool_result_event conv m)" "forwardable continuation_event"
  by (simp_all add: forwardable_def tool_result_event_def continuation_event_def mk_delta_def)

locale result_sink = event_sink send sent view
  for send :: "stream_message \<Rightarrow> 'q \<Rightarrow> go_error option \<times> 'q"
  and sent :: "'q \<Rightarrow> stream_message list" and view :: "stream_message \<Rightarrow> stream_message list" +
  fixes idle :: "'i \<Rightarrow> 'q \<Rightarrow> 'q"
  assumes shows_results: "forwardable d \<Longrightarrow> view d = [d]"
    and idle_keeps: "sent (idle i q) = sent q"
begin

lemma forward_results_ids:
  "forward_results send conv rich ms forwarded delivered q = (r, forwarded', delivered', q') \<Longrightarrow>
   distinct forwarded \<Longrightarrow> result_ids (sent q) = forwarded \<Longrightarrow>
   distinct forwarded' \<and> result_ids (sent q') = forwarded'"
proof (induction ms arbitrary: forwarded delivered q)
  case (Cons m ms)
  show ?case
  proof (cases "m_tool_call_id m = '''' \<or> rich \<or> m_tool_call_id m \<in> set forwarded")
    case True
    then show ?thesis using Cons by (auto split: if_splits)
  next
    case False
    show ?thesis
    proof (cases "send (tool_result_event conv m) q")
      case (Pair res q1)
      show ?thesis
      proof (cases res)
        case None
        then have "sent q1 = sent q @ [tool_result_event conv m]" using Pair send_admits shows_results by simp
        then show ?thesis
          using Cons.IH [of "forwarded @ [m_tool_call_id m]" True q1] Cons.prems False Pair None
          by simp
      next
        case (Some e)
        then show ?thesis using Cons.prems False Pair send_refuses by auto
      qed
    qed
  qed
qed simp

lemma execute_ids:
  assumes "forwarder_execute (Some send) ls forwarded q = (r, forwarded', q')"
    and "distinct forwarded" "result_ids (sent q) = forwarded"
  shows "distinct forwarded' \<and> result_ids (sent q') = forwarded'"
proof (cases "ls_mode ls = DuplexSession \<and> length (in_tool_output (ls_inputs ls)) > 0")
  case True
  obtain r1 f1 d1 q1 where run: "forward_results send (h_conversation (ls_history ls))
      (tool_results_contain_image (in_tool_output (ls_inputs ls))) (in_tool_output (ls_inputs ls))
      forwarded False q = (r1, f1, d1, q1)"
    using prod_cases4 by blast
  have ids: "distinct f1" "result_ids (sent q1) = f1"
    using forward_results_ids [OF run assms(2,3)] by simp_all
  obtain r2 q2 where last: "send continuation_event q1 = (r2, q2)" by fastforce
  have "result_ids (sent q2) = result_ids (sent q1)"
    using shows_results [of continuation_event] send_admits [of continuation_event q1 q2] send_refuses [of continuation_event q1 _ q2] last
    by (cases r2) auto
  then show ?thesis
    using assms(1) True ids run last
    by (auto simp: forwarder_execute_def split: option.splits if_splits)
next
  case False
  then have "forwarder_execute (Some send) ls forwarded q = (None, forwarded, q)"
    by (auto simp: forwarder_execute_def)
  then show ?thesis using assms by simp
qed

lemma run_ids:
  "forwarder_run send idle ticks forwarded q = (forwarded', q') \<Longrightarrow> distinct forwarded \<Longrightarrow>
   result_ids (sent q) = forwarded \<Longrightarrow> distinct forwarded' \<and> result_ids (sent q') = forwarded'"
proof (induction ticks arbitrary: forwarded q)
  case (Cons tick ticks)
  obtain ls i where tick: "tick = (ls, i)" by fastforce
  obtain r f q1 where step: "forwarder_execute (Some send) ls forwarded q = (r, f, q1)"
    using prod_cases3 by blast
  then show ?case
    using Cons.IH [of f "idle i q1"] Cons.prems execute_ids [OF step] by (simp add: tick idle_keeps)
qed simp

end

text \<open>A sink that also has room for a known number of forwarded events.\<close>

locale roomy_sink = result_sink send sent view idle
  for send :: "stream_message \<Rightarrow> 'q \<Rightarrow> go_error option \<times> 'q"
  and sent :: "'q \<Rightarrow> stream_message list" and view :: "stream_message \<Rightarrow> stream_message list"
  and idle :: "'i \<Rightarrow> 'q \<Rightarrow> 'q" +
  fixes room :: "'q \<Rightarrow> nat"
  assumes send_with_room: "forwardable d \<Longrightarrow> room q > 0 \<Longrightarrow> fst (send d q) = None"
    and room_used: "forwardable d \<Longrightarrow> room q \<le> Suc (room (snd (send d q)))"
begin

lemma forward_results_all:
  "\<forall>m \<in> set ms. m_tool_call_id m \<noteq> '''' \<Longrightarrow> distinct (forwarded @ map m_tool_call_id ms) \<Longrightarrow>
   length ms \<le> room q \<Longrightarrow>
   \<exists>q'. forward_results send conv False ms forwarded delivered q
           = (None, forwarded @ map m_tool_call_id ms, delivered \<or> ms \<noteq> [], q')
      \<and> sent q' = sent q @ map (tool_result_event conv) ms \<and> room q \<le> room q' + length ms"
proof (induction ms arbitrary: forwarded delivered q)
  case (Cons m ms)
  obtain q1 where step: "send (tool_result_event conv m) q = (None, q1)"
    using send_with_room [of "tool_result_event conv m" q] Cons.prems(3) by (auto simp: prod_eq_iff)
  have room: "room q \<le> Suc (room q1)"
    using room_used [of "tool_result_event conv m" q] step by simp
  have sent1: "sent q1 = sent q @ [tool_result_event conv m]"
    using send_admits [OF step] shows_results by simp
  obtain q' where "forward_results send conv False ms (forwarded @ [m_tool_call_id m]) True q1
        = (None, (forwarded @ [m_tool_call_id m]) @ map m_tool_call_id ms, True \<or> ms \<noteq> [], q')"
      "sent q' = sent q1 @ map (tool_result_event conv) ms" "room q1 \<le> room q' + length ms"
    using Cons.IH [of "forwarded @ [m_tool_call_id m]" q1 True] Cons.prems room by auto
  then show ?case using Cons.prems step sent1 room by (intro exI [of _ q']) auto
qed simp

lemma execute_forwards_batch:
  assumes "ls_mode ls = DuplexSession" "in_tool_output (ls_inputs ls) = ms" "ms \<noteq> []"
    and "\<not> tool_results_contain_image ms"
    and "\<forall>m \<in> set ms. m_tool_call_id m \<noteq> ''''" "distinct (forwarded @ map m_tool_call_id ms)"
    and "length ms < room q"
  shows "fst (forwarder_execute (Some send) ls forwarded q) = None
    \<and> fst (snd (forwarder_execute (Some send) ls forwarded q)) = forwarded @ map m_tool_call_id ms
    \<and> sent (snd (snd (forwarder_execute (Some send) ls forwarded q)))
        = sent q @ map (tool_result_event (h_conversation (ls_history ls))) ms @ [continuation_event]"
proof -
  obtain q' where run: "forward_results send (h_conversation (ls_history ls)) False ms forwarded False q
        = (None, forwarded @ map m_tool_call_id ms, False \<or> ms \<noteq> [], q')"
      "sent q' = sent q @ map (tool_result_event (h_conversation (ls_history ls))) ms"
      "room q \<le> room q' + length ms"
    using forward_results_all [of ms forwarded q "h_conversation (ls_history ls)" False] assms
    by auto
  obtain q'' where last: "send continuation_event q' = (None, q'')"
    using send_with_room [of continuation_event q'] run(3) assms(7) by (auto simp: prod_eq_iff)
  have "sent q'' = sent q' @ [continuation_event]"
    using send_admits [OF last] shows_results by simp
  then show ?thesis
    using assms(1-4) run last by (simp add: forwarder_execute_def)
qed

end

end
