(* ===== verification/Session_Ingress.thy ===== *)
theory Session_Ingress
  imports Forwarder Fifo "HOL-Library.Sublist"
begin

text \<open>
  The ordered ingress of a session runner, \<^verbatim>\<open>participants/model_runner_ingress.go\<close>: one
  bounded queue for every kind of user input, a small priority lane for cancels, and the two
  counters that keep a cancel from overtaking a control input and an inference request from
  overtaking a queued tool result.

  Callers run concurrently. The atomic actions of an admission are definitions of their own;
  \<^verbatim>\<open>ingress_admit\<close> composes them as \<^verbatim>\<open>admit\<close> does for one caller, and the step relation
  \<^verbatim>\<open>ingress_step\<close> interleaves them for any number of callers and the runner.
\<close>

section \<open>State and atomic actions\<close>

datatype audio_policy = PolicyDefault | PolicyInterrupt | PolicyDoNotInterrupt

definition interrupts_response :: "audio_policy \<Rightarrow> bool" where
  "interrupts_response p \<longleftrightarrow> p \<noteq> PolicyDoNotInterrupt"

datatype session_input =
    SessionAudio "byte list" audio_policy
  | SessionEvent stream_message
  | SessionMessage message bool

datatype admission = AdmitOrFail | AdmitWaiting

record ingress =
  ig_ordered :: "session_input list"
  ig_priority :: "stream_message list"
  ig_controls :: int
  ig_tools :: nat
  ig_stopped :: bool

definition ingress_capacity :: nat where
  "ingress_capacity = 72"

definition cancel_lane_capacity :: nat where
  "cancel_lane_capacity = 4"

definition new_ingress :: ingress where
  "new_ingress = \<lparr>ig_ordered = [], ig_priority = [], ig_controls = 0, ig_tools = 0,
     ig_stopped = False\<rparr>"

definition is_control_input :: "session_input \<Rightarrow> bool" where
  "is_control_input i = (case i of SessionAudio _ _ \<Rightarrow> False | _ \<Rightarrow> True)"

definition is_session_tool_event :: "stream_message \<Rightarrow> bool" where
  "is_session_tool_event d \<longleftrightarrow> sm_type d = StreamToolCallEnd \<or> sm_type d = StreamResponseCreate"

definition is_tool_input :: "session_input \<Rightarrow> bool" where
  "is_tool_input i = (case i of SessionEvent d \<Rightarrow> is_session_tool_event d | _ \<Rightarrow> False)"

definition count_control :: "int \<Rightarrow> session_input \<Rightarrow> ingress \<Rightarrow> ingress" where
  "count_control n i q =
     (if is_control_input i then q\<lparr>ig_controls := ig_controls q + n\<rparr> else q)"

definition tool_queued :: "session_input \<Rightarrow> ingress \<Rightarrow> ingress" where
  "tool_queued i q = (if is_tool_input i then q\<lparr>ig_tools := ig_tools q + 1\<rparr> else q)"

definition tool_consumed :: "ingress \<Rightarrow> ingress" where
  "tool_consumed q = (if ig_tools q > 0 then q\<lparr>ig_tools := ig_tools q - 1\<rparr> else q)"

definition tool_pending :: "ingress \<Rightarrow> bool" where
  "tool_pending q \<longleftrightarrow> ig_tools q > 0"

text \<open>The three guards of \<^verbatim>\<open>admitPriorityCancel\<close> and its send.\<close>

definition may_overtake :: "stream_message \<Rightarrow> ingress \<Rightarrow> bool" where
  "may_overtake d q \<longleftrightarrow>
     \<not> (sm_type d \<noteq> StreamResponseCancel \<or> ig_controls q > 0 \<or> ig_stopped q)"

definition priority_send :: "stream_message \<Rightarrow> ingress \<Rightarrow> ingress option" where
  "priority_send d q =
     (if length (ig_priority q) < cancel_lane_capacity
      then Some (q\<lparr>ig_priority := ig_priority q @ [d]\<rparr>) else None)"

definition admit_priority_cancel :: "stream_message \<Rightarrow> ingress \<Rightarrow> bool \<times> ingress" where
  "admit_priority_cancel d q =
     (if \<not> may_overtake d q then (False, q)
      else (case priority_send d q of Some q' \<Rightarrow> (True, q') | None \<Rightarrow> (False, q)))"

definition ordered_send :: "session_input \<Rightarrow> ingress \<Rightarrow> ingress option" where
  "ordered_send i q =
     (if length (ig_ordered q) < ingress_capacity
      then Some (q\<lparr>ig_ordered := ig_ordered q @ [i]\<rparr>) else None)"

definition ordered_take :: "ingress \<Rightarrow> (session_input \<times> ingress) option" where
  "ordered_take q =
     (case ig_ordered q of [] \<Rightarrow> None | i # is \<Rightarrow> Some (i, q\<lparr>ig_ordered := is\<rparr>))"

definition ingress_start :: "ingress \<Rightarrow> ingress" where
  "ingress_start q = q\<lparr>ig_stopped := False\<rparr>"

definition ingress_stop :: "ingress \<Rightarrow> ingress" where
  "ingress_stop q = q\<lparr>ig_stopped := True\<rparr>"

section \<open>One caller's admission\<close>

text \<open>
  The last \<^verbatim>\<open>select\<close> of \<^verbatim>\<open>send\<close>. The context is \<^verbatim>\<open>None\<close> for nil; \<^verbatim>\<open>pick\<close> is Go's choice
  among the ready cases: 0 the send, 1 the cancellation, any other the stop. \<^verbatim>\<open>None\<close> means
  the caller waits.
\<close>

definition ctx_done :: "ctx_state option \<Rightarrow> go_error option" where
  "ctx_done c = (case c of Some (CtxDone e) \<Rightarrow> Some e | _ \<Rightarrow> None)"

definition ingress_send ::
    "ctx_state option \<Rightarrow> admission \<Rightarrow> nat \<Rightarrow> session_input \<Rightarrow> ingress
     \<Rightarrow> (go_error option \<times> ingress) option" where
  "ingress_send c adm pick i q =
     (let sends = map_option (\<lambda>q'. (None, q')) (ordered_send i q);
          cancels = map_option (\<lambda>e. (Some e, q)) (ctx_done c);
          stops = (if ig_stopped q then Some (Some SessionRunnerClosed, q) else None)
      in case adm of
           AdmitWaiting \<Rightarrow>
             if ig_stopped q then Some (Some SessionRunnerClosed, q)
             else (let chosen = (if pick = 0 then sends else if pick = 1 then cancels else stops)
                   in case chosen of Some r \<Rightarrow> Some r
                      | None \<Rightarrow> (case sends of Some r \<Rightarrow> Some r
                          | None \<Rightarrow> (case cancels of Some r \<Rightarrow> Some r | None \<Rightarrow> stops)))
         | AdmitOrFail \<Rightarrow>
             (let chosen = (if pick = 0 then sends else cancels)
              in case chosen of Some r \<Rightarrow> Some r
                 | None \<Rightarrow> (case sends of Some r \<Rightarrow> Some r
                     | None \<Rightarrow> (case cancels of Some r \<Rightarrow> Some r
                         | None \<Rightarrow> Some (Some SessionInputQueueFull, q)))))"

text \<open>\<^verbatim>\<open>push\<close>; \<^verbatim>\<open>c1\<close> and \<^verbatim>\<open>c2\<close> are the context at its first look and in the \<^verbatim>\<open>select\<close>.\<close>

definition ingress_push ::
    "ctx_state option \<Rightarrow> ctx_state option \<Rightarrow> admission \<Rightarrow> nat \<Rightarrow> session_input \<Rightarrow> ingress
     \<Rightarrow> (go_error option \<times> ingress) option" where
  "ingress_push c1 c2 adm pick i q =
     (case ctx_done c1 of
        Some e \<Rightarrow> Some (Some e, q)
      | None \<Rightarrow>
          (case ingress_send c2 adm pick i (tool_queued i q) of
             None \<Rightarrow> None
           | Some (None, q') \<Rightarrow> Some (None, q')
           | Some (Some e, q') \<Rightarrow> Some (Some e, if is_tool_input i then tool_consumed q' else q')))"

definition ingress_admit ::
    "ctx_state option \<Rightarrow> ctx_state option \<Rightarrow> admission \<Rightarrow> nat \<Rightarrow> session_input \<Rightarrow> ingress
     \<Rightarrow> (go_error option \<times> ingress) option" where
  "ingress_admit c1 c2 adm pick i q =
     (if c1 = None \<and> adm = AdmitWaiting
      then Some (Some (ErrorText ''waiting session admission requires a context''), q)
      else (let (overtook, q1) =
                  (case i of SessionEvent d \<Rightarrow> admit_priority_cancel d q | _ \<Rightarrow> (False, q))
            in if overtook then Some (None, q1)
               else (case ingress_push c1 c2 adm pick i (count_control 1 i q1) of
                       None \<Rightarrow> None
                     | Some (None, q2) \<Rightarrow> Some (None, q2)
                     | Some (Some e, q2) \<Rightarrow> Some (Some e, count_control (- 1) i q2))))"

definition enqueue_session_input ::
    "bool \<Rightarrow> ctx_state option \<Rightarrow> ctx_state option \<Rightarrow> admission \<Rightarrow> nat \<Rightarrow> session_input \<Rightarrow> ingress
     \<Rightarrow> (go_error option \<times> ingress) option" where
  "enqueue_session_input session_mode c1 c2 adm pick i q =
     (if \<not> session_mode
      then Some (Some (ErrorText ''model runner is not in session mode''), q)
      else ingress_admit c1 c2 adm pick i q)"

text \<open>The runner's dequeue of the ordered lane, with \<^verbatim>\<open>consumed\<close>.\<close>

definition runner_take :: "ingress \<Rightarrow> (session_input \<times> ingress) option" where
  "runner_take q =
     (case ordered_take q of None \<Rightarrow> None | Some (i, q') \<Rightarrow> Some (i, count_control (- 1) i q'))"

section \<open>The ordered lane is a bounded queue\<close>

interpretation igq: fifo_queue ordered_send ordered_take ig_ordered "\<lambda>q. ingress_capacity"
  by unfold_locales
    (auto simp: ordered_send_def ordered_take_def split: list.splits if_splits)

section \<open>Concurrent callers\<close>

text \<open>
  Where a caller stands: it arrived; it passed the guards of the priority lane; it is counted
  and waits for the lock; it holds the lock with its tool event counted; its push failed and
  it will take back its count. \<^verbatim>\<open>taken\<close> are inputs the runner dequeued and has not reported
  consumed, \<^verbatim>\<open>unforwarded\<close> the number of tool events it took and has not forwarded.
\<close>

datatype caller =
    Arrived session_input | Overtaking stream_message | Counted session_input
  | Holding session_input | Failed session_input

record ingress_config =
  cf_ingress :: ingress
  cf_callers :: "caller list"
  cf_taken :: "session_input list"
  cf_unforwarded :: nat

definition initial_config :: ingress_config where
  "initial_config = \<lparr>cf_ingress = new_ingress, cf_callers = [], cf_taken = [], cf_unforwarded = 0\<rparr>"

definition holds_lock :: "caller \<Rightarrow> bool" where
  "holds_lock c = (case c of Holding _ \<Rightarrow> True | _ \<Rightarrow> False)"

inductive ingress_step :: "ingress_config \<Rightarrow> ingress_config \<Rightarrow> bool" where
  arrive: "ingress_step cf (cf\<lparr>cf_callers := Arrived i # cf_callers cf\<rparr>)"
| overtake: "cf_callers cf = xs @ Arrived (SessionEvent d) # ys \<Longrightarrow> may_overtake d (cf_ingress cf) \<Longrightarrow>
    ingress_step cf (cf\<lparr>cf_callers := xs @ Overtaking d # ys\<rparr>)"
| lane: "cf_callers cf = xs @ Overtaking d # ys \<Longrightarrow> priority_send d (cf_ingress cf) = Some q \<Longrightarrow>
    ingress_step cf (cf\<lparr>cf_callers := xs @ ys, cf_ingress := q\<rparr>)"
| lane_full: "cf_callers cf = xs @ Overtaking d # ys \<Longrightarrow> priority_send d (cf_ingress cf) = None \<Longrightarrow>
    ingress_step cf (cf\<lparr>cf_callers := xs @ Counted (SessionEvent d) # ys,
                       cf_ingress := count_control 1 (SessionEvent d) (cf_ingress cf)\<rparr>)"
| count: "cf_callers cf = xs @ Arrived i # ys \<Longrightarrow>
    (\<forall>d. i = SessionEvent d \<longrightarrow> \<not> may_overtake d (cf_ingress cf)) \<Longrightarrow>
    ingress_step cf (cf\<lparr>cf_callers := xs @ Counted i # ys,
                       cf_ingress := count_control 1 i (cf_ingress cf)\<rparr>)"
| lock: "cf_callers cf = xs @ Counted i # ys \<Longrightarrow> \<not> list_ex holds_lock (cf_callers cf) \<Longrightarrow>
    ingress_step cf (cf\<lparr>cf_callers := xs @ Holding i # ys,
                       cf_ingress := tool_queued i (cf_ingress cf)\<rparr>)"
| already_done: "cf_callers cf = xs @ Counted i # ys \<Longrightarrow> \<not> list_ex holds_lock (cf_callers cf) \<Longrightarrow>
    ingress_step cf (cf\<lparr>cf_callers := xs @ Failed i # ys\<rparr>)"
| push: "cf_callers cf = xs @ Holding i # ys \<Longrightarrow> ordered_send i (cf_ingress cf) = Some q \<Longrightarrow>
    ingress_step cf (cf\<lparr>cf_callers := xs @ ys, cf_ingress := q\<rparr>)"
| refuse: "cf_callers cf = xs @ Holding i # ys \<Longrightarrow>
    ingress_step cf (cf\<lparr>cf_callers := xs @ Failed i # ys,
      cf_ingress := (if is_tool_input i then tool_consumed (cf_ingress cf) else cf_ingress cf)\<rparr>)"
| give_up: "cf_callers cf = xs @ Failed i # ys \<Longrightarrow>
    ingress_step cf (cf\<lparr>cf_callers := xs @ ys,
                       cf_ingress := count_control (- 1) i (cf_ingress cf)\<rparr>)"
| take: "ordered_take (cf_ingress cf) = Some (i, q) \<Longrightarrow>
    ingress_step cf (cf\<lparr>cf_ingress := q, cf_taken := i # cf_taken cf,
                       cf_unforwarded := cf_unforwarded cf + (if is_tool_input i then 1 else 0)\<rparr>)"
| report: "cf_taken cf = xs @ i # ys \<Longrightarrow>
    ingress_step cf (cf\<lparr>cf_taken := xs @ ys,
                       cf_ingress := count_control (- 1) i (cf_ingress cf)\<rparr>)"
| forwarded: "cf_unforwarded cf > 0 \<Longrightarrow>
    ingress_step cf (cf\<lparr>cf_unforwarded := cf_unforwarded cf - 1,
                       cf_ingress := tool_consumed (cf_ingress cf)\<rparr>)"
| take_cancel: "ig_priority (cf_ingress cf) = d # ds \<Longrightarrow>
    ingress_step cf (cf\<lparr>cf_ingress := (cf_ingress cf)\<lparr>ig_priority := ds\<rparr>\<rparr>)"
| start: "ingress_step cf (cf\<lparr>cf_ingress := ingress_start (cf_ingress cf)\<rparr>)"
| stop: "ingress_step cf (cf\<lparr>cf_ingress := ingress_stop (cf_ingress cf)\<rparr>)"

inductive ingress_reachable :: "ingress_config \<Rightarrow> bool" where
  reach_init: "ingress_reachable initial_config"
| reach_step: "ingress_reachable cf \<Longrightarrow> ingress_step cf cf' \<Longrightarrow> ingress_reachable cf'"

text \<open>The inputs each counter stands for.\<close>

fun counted_input :: "caller \<Rightarrow> session_input list" where
  "counted_input (Counted i) = [i]"
| "counted_input (Holding i) = [i]"
| "counted_input (Failed i) = [i]"
| "counted_input _ = []"

fun tool_counted_input :: "caller \<Rightarrow> session_input list" where
  "tool_counted_input (Holding i) = [i]"
| "tool_counted_input _ = []"

definition controls_in :: "session_input list \<Rightarrow> nat" where
  "controls_in is = length (filter is_control_input is)"

definition tools_in :: "session_input list \<Rightarrow> nat" where
  "tools_in is = length (filter is_tool_input is)"

lemma controls_in_simps [simp]:
  "controls_in [] = 0"
  "controls_in (i # is) = (if is_control_input i then 1 else 0) + controls_in is"
  "controls_in (is @ js) = controls_in is + controls_in js"
  by (simp_all add: controls_in_def)

lemma tools_in_simps [simp]:
  "tools_in [] = 0"
  "tools_in (i # is) = (if is_tool_input i then 1 else 0) + tools_in is"
  "tools_in (is @ js) = tools_in is + tools_in js"
  by (simp_all add: tools_in_def)

definition ingress_ok :: "ingress_config \<Rightarrow> bool" where
  "ingress_ok cf \<longleftrightarrow>
     ig_controls (cf_ingress cf) = int (controls_in (ig_ordered (cf_ingress cf))
        + controls_in (concat (map counted_input (cf_callers cf))) + controls_in (cf_taken cf))
     \<and> ig_tools (cf_ingress cf) = tools_in (ig_ordered (cf_ingress cf))
        + tools_in (concat (map tool_counted_input (cf_callers cf))) + cf_unforwarded cf
     \<and> length (ig_ordered (cf_ingress cf)) \<le> ingress_capacity
     \<and> length (ig_priority (cf_ingress cf)) \<le> cancel_lane_capacity"

lemmas ingress_action_defs = count_control_def tool_queued_def tool_consumed_def
  ingress_start_def ingress_stop_def

lemma ordered_send_simp:
  "ordered_send i q = Some q' \<longleftrightarrow>
     length (ig_ordered q) < ingress_capacity \<and> q' = q\<lparr>ig_ordered := ig_ordered q @ [i]\<rparr>"
  by (auto simp: ordered_send_def)

lemma priority_send_simp:
  "priority_send d q = Some q' \<longleftrightarrow>
     length (ig_priority q) < cancel_lane_capacity \<and> q' = q\<lparr>ig_priority := ig_priority q @ [d]\<rparr>"
  by (auto simp: priority_send_def)

lemma ordered_take_simp:
  "ordered_take q = Some (i, q') \<longleftrightarrow>
     (\<exists>is. ig_ordered q = i # is \<and> q' = q\<lparr>ig_ordered := is\<rparr>)"
  by (auto simp: ordered_take_def split: list.splits)

lemma ingress_ok_step: "ingress_step cf cf' \<Longrightarrow> ingress_ok cf \<Longrightarrow> ingress_ok cf'"
  by (induction rule: ingress_step.induct)
    (auto simp: ingress_ok_def ingress_action_defs ordered_send_simp priority_send_simp
       ordered_take_simp)

lemma ingress_ok_initial: "ingress_ok initial_config"
  by (simp add: ingress_ok_def initial_config_def new_ingress_def)

lemma ingress_ok_reachable: "ingress_reachable cf \<Longrightarrow> ingress_ok cf"
  by (induction rule: ingress_reachable.induct) (rule ingress_ok_initial, rule ingress_ok_step)

lemma controls_in_zero: "controls_in is = 0 \<longleftrightarrow> (\<forall>i \<in> set is. \<not> is_control_input i)"
  by (induction "is") auto

lemma tools_in_pos: "0 < tools_in is \<longleftrightarrow> (\<exists>i \<in> set is. is_tool_input i)"
  by (induction "is") auto

section \<open>What the counters guarantee\<close>

text \<open>
  What a run serves. \<open>dequeued\<close> is the input the runner took in a step, from the head of the
  lane that became shorter; \<open>ingress_run\<close> collects them, in the order the runner got them.
\<close>

definition dequeued :: "ingress_config \<Rightarrow> ingress_config \<Rightarrow> session_input list" where
  "dequeued cf cf' =
     (if length (ig_ordered (cf_ingress cf')) < length (ig_ordered (cf_ingress cf))
      then [hd (ig_ordered (cf_ingress cf))]
      else if length (ig_priority (cf_ingress cf')) < length (ig_priority (cf_ingress cf))
      then [SessionEvent (hd (ig_priority (cf_ingress cf)))] else [])"

inductive ingress_run :: "ingress_config \<Rightarrow> session_input list \<Rightarrow> ingress_config \<Rightarrow> bool" where
  run_none: "ingress_run cf [] cf"
| run_step: "ingress_run cf served cf1 \<Longrightarrow> ingress_step cf1 cf2 \<Longrightarrow>
    ingress_run cf (served @ dequeued cf1 cf2) cf2"

lemma run_reachable: "ingress_run cf served cf' \<Longrightarrow> ingress_reachable cf \<Longrightarrow> ingress_reachable cf'"
  by (induction rule: ingress_run.induct) (auto intro: ingress_reachable.reach_step)

text \<open>
  What is left of the inputs \<open>Q\<close> that were queued when the cancel's call began: a suffix at
  the front of the ordered lane, without a control once the cancel is past the guard.
\<close>

definition left_of :: "session_input list \<Rightarrow> stream_message \<Rightarrow> session_input list \<Rightarrow> ingress_config \<Rightarrow> bool" where
  "left_of Q d served cf \<longleftrightarrow>
     (\<exists>taken rest new. Q = taken @ rest \<and> ig_ordered (cf_ingress cf) = rest @ new \<and> subseq taken served
        \<and> (d \<in> set (ig_priority (cf_ingress cf)) \<or> Overtaking d \<in> set (cf_callers cf)
             \<longrightarrow> controls_in rest = 0))"

lemma ordered_kept [simp]:
  "ig_ordered (count_control n i q) = ig_ordered q"
  "ig_ordered (tool_queued i q) = ig_ordered q"
  "ig_ordered (tool_consumed q) = ig_ordered q"
  "ig_stopped (count_control n i q) = ig_stopped q"
  "ig_stopped (tool_queued i q) = ig_stopped q"
  by (simp_all add: ingress_action_defs)

lemma priority_kept [simp]:
  "ig_priority (count_control n i q) = ig_priority q"
  "ig_priority (tool_queued i q) = ig_priority q"
  "ig_priority (tool_consumed q) = ig_priority q"
  by (simp_all add: ingress_action_defs)

lemma left_ofI:
  assumes "Q = taken @ rest" "ig_ordered (cf_ingress cf) = rest @ new" "subseq taken served"
    and "d \<in> set (ig_priority (cf_ingress cf)) \<or> Overtaking d \<in> set (cf_callers cf) \<Longrightarrow> controls_in rest = 0"
  shows "left_of Q d served cf"
  using assms unfolding left_of_def by blast

lemma guard_means_no_control:
  assumes "ingress_ok cf" "may_overtake d (cf_ingress cf)"
  shows "controls_in (ig_ordered (cf_ingress cf)) = 0"
  using assms by (auto simp: ingress_ok_def may_overtake_def)

text \<open>Every step but the runner's takes leaves what is left in place.\<close>

lemma left_of_step:
  assumes left: "left_of Q d served cf1" and ok: "ingress_ok cf1" and step: "ingress_step cf1 cf2"
    and other: "SessionEvent d \<notin> set (dequeued cf1 cf2)"
  shows "left_of Q d (served @ dequeued cf1 cf2) cf2"
proof -
  obtain taken rest new where Q: "Q = taken @ rest"
      and lane: "ig_ordered (cf_ingress cf1) = rest @ new" and sub: "subseq taken served"
      and past: "d \<in> set (ig_priority (cf_ingress cf1)) \<or> Overtaking d \<in> set (cf_callers cf1)
        \<Longrightarrow> controls_in rest = 0"
    using left unfolding left_of_def by blast
  have sub': "subseq taken (served @ xs)" for xs
    using sub by (rule list_emb_prefix)
  show ?thesis using step
  proof cases
    case (overtake xs d' ys)
    have "controls_in rest = 0"
      using guard_means_no_control [OF ok overtake(3)] lane by simp
    moreover have "dequeued cf1 cf2 = []" using overtake by (simp add: dequeued_def)
    ultimately show ?thesis
      using left_ofI [OF Q, of cf2 new served d] overtake lane sub by simp
  next
    case (push xs i ys q)
    show ?thesis
      using left_ofI [OF Q, of cf2 "new @ [i]", OF _ sub] push lane past
      by (auto simp: dequeued_def ordered_send_simp)
  next
    case (take i q)
    have gone: "dequeued cf1 cf2 = [i]"
      using take by (auto simp: dequeued_def ordered_take_simp)
    show ?thesis
    proof (cases rest)
      case Nil
      show ?thesis
        using left_ofI [of Q taken "[]" cf2 "tl new", OF _ _ sub'] take lane Q Nil
        by (auto simp: ordered_take_simp)
    next
      case (Cons j js)
      then have "i = j" using take lane by (auto simp: ordered_take_simp)
      then have "subseq (taken @ [j]) (served @ dequeued cf1 cf2)"
        using gone sub by (simp add: subseq_append')
      then show ?thesis
        using left_ofI [of Q "taken @ [j]" js cf2 new] take lane Q Cons past
        by (auto simp: ordered_take_simp split: if_splits)
    qed
  next
    case (take_cancel d' ds)
    show ?thesis
      using left_ofI [OF Q _ sub', of cf2 new] take_cancel lane past by auto
  next
    case (lane_full xs d' ys)
    then show ?thesis
      using left_ofI [OF Q _ sub, of cf2 new d] lane past by (cases "d = d'") (auto simp: dequeued_def)
  next
    case (refuse xs i ys)
    then show ?thesis
      using left_ofI [OF Q _ sub, of cf2 new d] lane past
      by (cases "is_tool_input i") (auto simp: dequeued_def)
  qed (use left_ofI [OF Q _ sub, of cf2 new] lane past in
        \<open>auto simp: dequeued_def priority_send_simp ingress_action_defs\<close>)
qed

lemma left_of_run:
  assumes "ingress_run cf served cf'" "ingress_reachable cf" "SessionEvent d \<notin> set served"
    and "d \<notin> set (ig_priority (cf_ingress cf))" "Overtaking d \<notin> set (cf_callers cf)"
  shows "left_of (ig_ordered (cf_ingress cf)) d served cf'"
  using assms
proof (induction rule: ingress_run.induct)
  case (run_none cf)
  then show ?case by (intro left_ofI [where taken = "[]" and new = "[]"]) auto
next
  case (run_step cf served cf1 cf2)
  then have "ingress_ok cf1" by (blast intro: ingress_ok_reachable run_reachable)
  with run_step show ?case by (auto intro: left_of_step)
qed

lemma serving_step:
  assumes step: "ingress_step cf1 cf2" and serves: "dequeued cf1 cf2 = [SessionEvent d]"
  shows "d \<in> set (ig_priority (cf_ingress cf1))
    \<or> (\<exists>is. ig_ordered (cf_ingress cf1) = SessionEvent d # is)"
  using step serves
  by cases (auto simp: dequeued_def priority_send_simp ordered_send_simp ordered_take_simp
      ingress_action_defs split: if_splits)

lemma run_serves_final:
  assumes "ingress_run cf (served @ [i]) cf'" "i \<notin> set served"
  shows "\<exists>cf1 cf2. ingress_run cf served cf1 \<and> ingress_step cf1 cf2 \<and> dequeued cf1 cf2 = [i]"
proof -
  have "ingress_run cf out cf' \<Longrightarrow> out = served @ [i] \<Longrightarrow>
      \<exists>cf1 cf2. ingress_run cf served cf1 \<and> ingress_step cf1 cf2 \<and> dequeued cf1 cf2 = [i]" for out
  proof (induction rule: ingress_run.induct)
    case (run_step cf out cf1 cf2)
    show ?case
    proof (cases "dequeued cf1 cf2")
      case Nil
      then show ?thesis using run_step by simp
    next
      case (Cons j js)
      then have "js = []" by (auto simp: dequeued_def split: if_splits)
      then show ?thesis using run_step Cons by auto
    qed
  qed simp
  then show ?thesis using assms by blast
qed

lemma send_keeps_priority:
  "ingress_send c adm pick i q = Some (r, q') \<Longrightarrow> ig_priority q' = ig_priority q"
  by (auto simp: ingress_send_def Let_def ordered_send_def map_option_case
      split: option.splits admission.splits if_splits)

lemma push_keeps_priority:
  "ingress_push c1 c2 adm pick i q = Some (r, q') \<Longrightarrow> ig_priority q' = ig_priority q"
  by (auto simp: ingress_push_def dest!: send_keeps_priority split: option.splits if_splits)

lemma lane_means_no_control:
  assumes "ingress_ok cf" "d \<notin> set (ig_priority (cf_ingress cf))"
    and "ingress_admit c1 c2 adm pick (SessionEvent d) (cf_ingress cf) = Some (r, q)"
    and "d \<in> set (ig_priority q)"
  shows "controls_in (ig_ordered q) = 0"
proof -
  obtain took q1 where lane: "admit_priority_cancel d (cf_ingress cf) = (took, q1)"
    by fastforce
  show ?thesis
  proof (cases took)
    case True
    then have "may_overtake d (cf_ingress cf)" "ig_ordered q1 = ig_ordered (cf_ingress cf)" "q = q1 \<or> q = cf_ingress cf"
      using lane assms(3)
      by (auto simp: admit_priority_cancel_def ingress_admit_def priority_send_simp
          split: if_splits option.splits)
    then show ?thesis using guard_means_no_control [OF assms(1)] by auto
  next
    case False
    then have "q1 = cf_ingress cf"
      using lane by (auto simp: admit_priority_cancel_def split: if_splits option.splits)
    then have "ig_priority q = ig_priority (cf_ingress cf)"
      using assms(3) False lane
      by (auto simp: ingress_admit_def dest!: push_keeps_priority split: option.splits if_splits)
    then show ?thesis using assms(2,4) by simp
  qed
qed

text \<open>
  C5: a cancel never overtakes a control input that was queued when its call began. In every
  interleaving of callers and the runner, from a configuration in which the cancel is in no
  lane and past no guard, the first time the runner gets the cancel it has already got every
  control input that was then in the ordered lane, in order: what the cancel overtook is audio.
  An uninterrupted admission puts the cancel into the priority lane only with no control
  queued, and both lanes stay within their capacities.
\<close>

theorem cancel_overtakes_only_audio:
  assumes "ingress_reachable cf"
    and "SessionEvent d \<notin> set (ig_ordered (cf_ingress cf))"
    and "d \<notin> set (ig_priority (cf_ingress cf))" "Overtaking d \<notin> set (cf_callers cf)"
    and "ingress_run cf (served @ [SessionEvent d]) cf'" "SessionEvent d \<notin> set served"
  shows "subseq (filter is_control_input (ig_ordered (cf_ingress cf))) served
    \<and> (\<forall>c1 c2 adm pick r q. ingress_admit c1 c2 adm pick (SessionEvent d) (cf_ingress cf) = Some (r, q)
          \<and> d \<in> set (ig_priority q) \<longrightarrow> list_all (\<lambda>i. \<not> is_control_input i) (ig_ordered q))
    \<and> length (ig_ordered (cf_ingress cf')) \<le> 72 \<and> length (ig_priority (cf_ingress cf')) \<le> 4"
proof (intro conjI allI impI)
  obtain cf1 cf2 where run: "ingress_run cf served cf1" and step: "ingress_step cf1 cf2"
      and serves: "dequeued cf1 cf2 = [SessionEvent d]"
    using run_serves_final [OF assms(5,6)] by blast
  obtain taken rest new where Q: "ig_ordered (cf_ingress cf) = taken @ rest"
      and lane: "ig_ordered (cf_ingress cf1) = rest @ new" and sub: "subseq taken served"
      and past: "d \<in> set (ig_priority (cf_ingress cf1)) \<Longrightarrow> controls_in rest = 0"
    using left_of_run [OF run assms(1,6,3,4)] unfolding left_of_def by blast
  have "filter is_control_input rest = []"
    using serving_step [OF step serves] past lane assms(2) Q
    by (cases rest) (auto simp: controls_in_def)
  then have "filter is_control_input (ig_ordered (cf_ingress cf)) = filter is_control_input taken"
    using Q by simp
  then show "subseq (filter is_control_input (ig_ordered (cf_ingress cf))) served"
    using sub subseq_order.trans [OF subseq_filter_left] by metis
next
  fix c1 c2 adm pick r q
  assume "ingress_admit c1 c2 adm pick (SessionEvent d) (cf_ingress cf) = Some (r, q)
    \<and> d \<in> set (ig_priority q)"
  then have "controls_in (ig_ordered q) = 0"
    using lane_means_no_control [OF ingress_ok_reachable [OF assms(1)] assms(3)] by blast
  then show "list_all (\<lambda>i. \<not> is_control_input i) (ig_ordered q)"
    by (simp add: controls_in_zero list_all_iff)
next
  have "ingress_ok cf'"
    using run_reachable [OF assms(5,1)] by (rule ingress_ok_reachable)
  then show "length (ig_ordered (cf_ingress cf')) \<le> 72" "length (ig_priority (cf_ingress cf')) \<le> 4"
    by (auto simp: ingress_ok_def ingress_capacity_def cancel_lane_capacity_def)
qed

definition sample_audio :: session_input where
  "sample_audio = SessionAudio [1, 2] PolicyInterrupt"

definition audio_queued :: ingress_config where
  "audio_queued = \<lparr>cf_ingress = new_ingress\<lparr>ig_ordered := [sample_audio]\<rparr>, cf_callers = [],
     cf_taken = [], cf_unforwarded = 0\<rparr>"

lemma audio_queued_reachable: "ingress_reachable audio_queued"
proof -
  define c1 where "c1 = initial_config\<lparr>cf_callers := [Arrived sample_audio]\<rparr>"
  define c2 where "c2 = initial_config\<lparr>cf_callers := [Counted sample_audio]\<rparr>"
  define c3 where "c3 = initial_config\<lparr>cf_callers := [Holding sample_audio]\<rparr>"
  note defs = c1_def c2_def c3_def initial_config_def new_ingress_def sample_audio_def
    ingress_action_defs is_control_input_def is_tool_input_def
  have "ingress_step initial_config c1"
    using ingress_step.arrive [of initial_config sample_audio] by (simp add: defs)
  moreover have "ingress_step c1 c2"
    using ingress_step.count [of c1 "[]" sample_audio "[]"] by (simp add: defs)
  moreover have "ingress_step c2 c3"
    using ingress_step.lock [of c2 "[]" sample_audio "[]"] by (simp add: defs holds_lock_def)
  moreover have "ingress_step c3 audio_queued"
    using ingress_step.push [of c3 "[]" sample_audio "[]" "new_ingress\<lparr>ig_ordered := [sample_audio]\<rparr>"]
    by (simp add: defs audio_queued_def ordered_send_def ingress_capacity_def)
  ultimately show ?thesis
    by (meson ingress_reachable.intros)
qed

definition cancel_event :: stream_message where
  "cancel_event = mk_delta StreamResponseCancel RoleUnset (VResponseCancel (Some False))"

text \<open>
  in every interleaving, while a tool result or continuation is queued in the ordered lane,
  or dequeued and not yet forwarded, the runner sees a pending tool event; once nothing is
  queued, under way or unforwarded, it sees none.
\<close>

theorem queued_tool_event_is_pending:
  assumes "ingress_reachable cf"
  shows "((\<exists>i \<in> set (ig_ordered (cf_ingress cf)). is_tool_input i) \<or> cf_unforwarded cf > 0
            \<longrightarrow> tool_pending (cf_ingress cf))
    \<and> ((\<forall>i \<in> set (ig_ordered (cf_ingress cf)). \<not> is_tool_input i) \<and> cf_unforwarded cf = 0
         \<and> cf_callers cf = [] \<longrightarrow> \<not> tool_pending (cf_ingress cf))"
proof -
  have count: "ig_tools (cf_ingress cf) = tools_in (ig_ordered (cf_ingress cf))
      + tools_in (concat (map tool_counted_input (cf_callers cf))) + cf_unforwarded cf"
    using ingress_ok_reachable [OF assms] by (simp add: ingress_ok_def)
  show ?thesis
    using tools_in_pos [of "ig_ordered (cf_ingress cf)"]
    by (auto simp: tool_pending_def count)
qed

theorem queued_tool_event_is_pending_witness: "\<not> tool_pending (cf_ingress audio_queued)"
  using queued_tool_event_is_pending [OF audio_queued_reachable]
  by (simp add: audio_queued_def sample_audio_def is_tool_input_def)

section \<open>One caller's admission is a run of its steps\<close>

lemma ingress_send_result:
  assumes "ingress_send c adm pick i q = Some (r, q')"
  shows "(r = None \<and> ordered_send i q = Some q') \<or> (r \<noteq> None \<and> q' = q)"
  using assms
  by (cases "ordered_send i q"; cases "ctx_done c")
    (auto simp: ingress_send_def Let_def dest: sym split: admission.splits if_splits)

lemma pushed_or_failed:
  assumes admit: "ingress_push c1 c2 adm pick i q = Some (r, q')"
    and free: "\<not> list_ex holds_lock cs"
  shows "ingress_step\<^sup>*\<^sup>* (cf\<lparr>cf_callers := Counted i # cs, cf_ingress := q\<rparr>)
    (cf\<lparr>cf_callers := (if r = None then cs else Failed i # cs), cf_ingress := q'\<rparr>)"
    (is "ingress_step\<^sup>*\<^sup>* ?counted ?end")
proof (cases "ctx_done c1")
  case (Some e)
  then have "r = Some e" "q' = q" using admit by (auto simp: ingress_push_def)
  then have final: "?end = ?counted\<lparr>cf_callers := [] @ Failed i # cs\<rparr>" by simp
  have "ingress_step ?counted (?counted\<lparr>cf_callers := [] @ Failed i # cs\<rparr>)"
    by (rule ingress_step.already_done) (use free in \<open>simp_all add: holds_lock_def\<close>)
  then show ?thesis unfolding final by (rule r_into_rtranclp)
next
  case None
  let ?held = "cf\<lparr>cf_callers := Holding i # cs, cf_ingress := tool_queued i q\<rparr>"
  have lock: "ingress_step ?counted ?held"
    using ingress_step.lock [of ?counted "[]" i cs] free by (simp add: holds_lock_def)
  obtain r2 q2 where sent: "ingress_send c2 adm pick i (tool_queued i q) = Some (r2, q2)"
    using admit None by (auto simp: ingress_push_def split: option.splits)
  show ?thesis
  proof (cases r2)
    case r2: None
    then have "r = None" "ordered_send i (tool_queued i q) = Some q'"
      using admit None sent ingress_send_result [OF sent] by (auto simp: ingress_push_def)
    then have "ingress_step ?held ?end"
      using ingress_step.push [of ?held "[]" i cs q'] by simp
    then show ?thesis using lock by simp
  next
    case (Some e)
    then have "r = Some e" "q' = (if is_tool_input i then tool_consumed (tool_queued i q)
        else tool_queued i q)"
      using admit None sent ingress_send_result [OF sent] by (auto simp: ingress_push_def)
    then have "ingress_step ?held ?end"
      using ingress_step.refuse [of ?held "[]" i cs] by (cases "is_tool_input i") simp_all
    then show ?thesis using lock by simp
  qed
qed

lemma counted_admission_runs:
  assumes push: "ingress_push c1 c2 adm pick i (count_control 1 i q) = Some (r, q2)"
    and free: "\<not> list_ex holds_lock cs"
    and count: "ingress_step\<^sup>*\<^sup>* start (cf\<lparr>cf_callers := Counted i # cs, cf_ingress := count_control 1 i q\<rparr>)"
  shows "ingress_step\<^sup>*\<^sup>* start
    (cf\<lparr>cf_callers := cs, cf_ingress := (if r = None then q2 else count_control (- 1) i q2)\<rparr>)"
proof -
  note run = rtranclp_trans [OF count pushed_or_failed [OF push free]]
  show ?thesis
  proof (cases r)
    case None
    then show ?thesis using run by simp
  next
    case (Some e)
    let ?failed = "cf\<lparr>cf_callers := Failed i # cs, cf_ingress := q2\<rparr>"
    have "ingress_step ?failed (cf\<lparr>cf_callers := cs, cf_ingress := count_control (- 1) i q2\<rparr>)"
      using ingress_step.give_up [of ?failed "[]" i cs] by simp
    then show ?thesis using run Some by (simp add: rtranclp.rtrancl_into_rtrancl)
  qed
qed

lemma ingress_admit_counted:
  assumes "c1 \<noteq> None \<or> adm = AdmitOrFail" "\<forall>d. i = SessionEvent d \<longrightarrow> fst (admit_priority_cancel d q) = False"
    and "ingress_admit c1 c2 adm pick i q = Some (r, q')"
  shows "\<exists>q2. ingress_push c1 c2 adm pick i (count_control 1 i q) = Some (r, q2)
    \<and> q' = (if r = None then q2 else count_control (- 1) i q2)"
proof -
  have start: "(case i of SessionEvent d \<Rightarrow> admit_priority_cancel d q | _ \<Rightarrow> (False, q)) = (False, q)"
    using assms(2)
    by (cases i) (auto simp: admit_priority_cancel_def split: option.splits if_splits)
  then show ?thesis
    using assms(1,3) by (auto simp: ingress_admit_def start split: option.splits)
qed

text \<open>
  the admission of one caller, as the code composes it, is a run of the atomic steps:
  whatever it returns, the configuration it leaves is reached from the one it found by steps
  of the interleaving semantics, so the counter guarantees above hold of it.
\<close>

theorem admit_is_a_run:
  assumes admit: "ingress_admit c1 c2 adm pick i q = Some (r, q')"
    and ctx: "c1 \<noteq> None \<or> adm = AdmitOrFail"
    and free: "\<not> list_ex holds_lock (cf_callers cf)"
    and here: "cf_ingress cf = q"
  shows "ingress_step\<^sup>*\<^sup>* cf (cf\<lparr>cf_ingress := q'\<rparr>)"
proof -
  let ?cs = "cf_callers cf"
  let ?arrived = "cf\<lparr>cf_callers := Arrived i # ?cs\<rparr>"
  have arrive: "ingress_step cf ?arrived" by (rule ingress_step.arrive)
  have finish: "ingress_step\<^sup>*\<^sup>* cf (cf\<lparr>cf_ingress := q'\<rparr>)"
    if refused: "\<forall>d. i = SessionEvent d \<longrightarrow> fst (admit_priority_cancel d q) = False"
      and count: "ingress_step\<^sup>*\<^sup>* cf (cf\<lparr>cf_callers := Counted i # ?cs, cf_ingress := count_control 1 i q\<rparr>)"
  proof -
    obtain q2 where push: "ingress_push c1 c2 adm pick i (count_control 1 i q) = Some (r, q2)"
        and q': "q' = (if r = None then q2 else count_control (- 1) i q2)"
      using ingress_admit_counted [OF ctx refused admit] by blast
    have "ingress_step\<^sup>*\<^sup>* cf (cf\<lparr>cf_callers := ?cs, cf_ingress := q'\<rparr>)"
      unfolding q' by (rule counted_admission_runs [OF push free count])
    then show ?thesis by simp
  qed
  show ?thesis
  proof (cases "\<exists>d. i = SessionEvent d \<and> may_overtake d q")
    case True
    then obtain d where d: "i = SessionEvent d" "may_overtake d q" by blast
    let ?over = "cf\<lparr>cf_callers := Overtaking d # ?cs\<rparr>"
    have over: "ingress_step ?arrived ?over"
      using ingress_step.overtake [of ?arrived "[]" d ?cs] d here by simp
    show ?thesis
    proof (cases "priority_send d q")
      case (Some q1)
      then have "q' = q1" using admit d ctx by (auto simp: ingress_admit_def admit_priority_cancel_def)
      moreover have "ingress_step ?over (cf\<lparr>cf_ingress := q1\<rparr>)"
        using ingress_step.lane [of ?over "[]" d ?cs q1] Some here by simp
      ultimately show ?thesis
        using arrive over by (meson converse_rtranclp_into_rtranclp rtranclp.rtrancl_refl)
    next
      case None
      have "ingress_step ?over (cf\<lparr>cf_callers := Counted i # ?cs, cf_ingress := count_control 1 i q\<rparr>)"
        using ingress_step.lane_full [of ?over "[]" d ?cs] None here d by simp
      then have count: "ingress_step\<^sup>*\<^sup>* cf (cf\<lparr>cf_callers := Counted i # ?cs, cf_ingress := count_control 1 i q\<rparr>)"
        using arrive over by (meson converse_rtranclp_into_rtranclp rtranclp.rtrancl_refl)
      have refused: "\<forall>d. i = SessionEvent d \<longrightarrow> fst (admit_priority_cancel d q) = False"
        using d None by (simp add: admit_priority_cancel_def)
      show ?thesis by (rule finish [OF refused count])
    qed
  next
    case False
    then have "ingress_step ?arrived (cf\<lparr>cf_callers := Counted i # ?cs, cf_ingress := count_control 1 i q\<rparr>)"
      using ingress_step.count [of ?arrived "[]" i ?cs] here by simp
    then have count: "ingress_step\<^sup>*\<^sup>* cf (cf\<lparr>cf_callers := Counted i # ?cs, cf_ingress := count_control 1 i q\<rparr>)"
      using arrive by (meson converse_rtranclp_into_rtranclp rtranclp.rtrancl_refl)
    have refused: "\<forall>d. i = SessionEvent d \<longrightarrow> fst (admit_priority_cancel d q) = False"
      using False by (simp add: admit_priority_cancel_def)
    show ?thesis by (rule finish [OF refused count])
  qed
qed

theorem admit_is_a_run_witness:
  "ingress_step\<^sup>*\<^sup>* audio_queued (audio_queued\<lparr>cf_ingress :=
     (cf_ingress audio_queued)\<lparr>ig_priority := [cancel_event]\<rparr>\<rparr>)"
proof (rule admit_is_a_run)
  show "ingress_admit None None AdmitOrFail 0 (SessionEvent cancel_event) (cf_ingress audio_queued)
      = Some (None, (cf_ingress audio_queued)\<lparr>ig_priority := [cancel_event]\<rparr>)"
    by (simp add: ingress_admit_def admit_priority_cancel_def may_overtake_def priority_send_def
          cancel_event_def mk_delta_def audio_queued_def new_ingress_def cancel_lane_capacity_def)
qed (simp_all add: audio_queued_def)

text \<open>
  An instance of the overtaking: a response request and then audio are queued; the runner takes
  the request and reports it, a cancel is admitted, and the runner gets it before the audio.
\<close>

definition request_input :: session_input where
  "request_input = SessionEvent (mk_delta StreamResponseCreate RoleUnset (VResponseCreate None))"

definition request_queued :: ingress_config where
  "request_queued = \<lparr>cf_ingress = \<lparr>ig_ordered = [request_input, sample_audio], ig_priority = [],
       ig_controls = 1, ig_tools = 1, ig_stopped = False\<rparr>,
     cf_callers = [], cf_taken = [], cf_unforwarded = 0\<rparr>"

lemmas sample_ingress_defs = request_queued_def request_input_def sample_audio_def cancel_event_def
  mk_delta_def initial_config_def new_ingress_def ingress_action_defs is_control_input_def
  is_tool_input_def is_session_tool_event_def ingress_capacity_def cancel_lane_capacity_def

lemma run_reaches: "ingress_step\<^sup>*\<^sup>* cf cf' \<Longrightarrow> ingress_reachable cf \<Longrightarrow> ingress_reachable cf'"
  by (induction rule: rtranclp_induct) (auto intro: ingress_reachable.reach_step)

lemma request_queued_reachable: "ingress_reachable request_queued"
proof -
  let ?q = "\<lparr>ig_ordered = [request_input], ig_priority = [], ig_controls = 1, ig_tools = 1,
    ig_stopped = False\<rparr>"
  have "ingress_admit None None AdmitOrFail 0 request_input (cf_ingress initial_config) = Some (None, ?q)"
    by (simp add: ingress_admit_def admit_priority_cancel_def may_overtake_def ingress_push_def
        ingress_send_def ctx_done_def ordered_send_def sample_ingress_defs)
  then have "ingress_step\<^sup>*\<^sup>* initial_config (initial_config\<lparr>cf_ingress := ?q\<rparr>)"
    by (rule admit_is_a_run) (simp_all add: initial_config_def)
  then have one: "ingress_reachable (initial_config\<lparr>cf_ingress := ?q\<rparr>)"
    by (rule run_reaches) (rule ingress_reachable.reach_init)
  have "ingress_admit None None AdmitOrFail 0 sample_audio ?q = Some (None, cf_ingress request_queued)"
    by (simp add: ingress_admit_def ingress_push_def
        ingress_send_def ctx_done_def ordered_send_def sample_ingress_defs)
  then have "ingress_step\<^sup>*\<^sup>* (initial_config\<lparr>cf_ingress := ?q\<rparr>)
      ((initial_config\<lparr>cf_ingress := ?q\<rparr>)\<lparr>cf_ingress := cf_ingress request_queued\<rparr>)"
    by (rule admit_is_a_run) (simp_all add: initial_config_def)
  from run_reaches [OF this one] show ?thesis by (simp add: initial_config_def request_queued_def)
qed

definition cancel_served :: ingress_config where
  "cancel_served = request_queued\<lparr>cf_ingress := (cf_ingress request_queued)\<lparr>ig_ordered := [sample_audio],
     ig_controls := 0\<rparr>, cf_unforwarded := 1\<rparr>"

lemma cancel_served_run:
  "ingress_run request_queued ([request_input] @ [SessionEvent cancel_event]) cancel_served"
proof -
  define c1 where "c1 = cancel_served\<lparr>cf_taken := [request_input],
    cf_ingress := (cf_ingress cancel_served)\<lparr>ig_controls := 1\<rparr>\<rparr>"
  define c3 where "c3 = cancel_served\<lparr>cf_callers := [Arrived (SessionEvent cancel_event)]\<rparr>"
  define c4 where "c4 = cancel_served\<lparr>cf_callers := [Overtaking cancel_event]\<rparr>"
  define c5 where "c5 = cancel_served\<lparr>cf_ingress := (cf_ingress cancel_served)\<lparr>ig_priority := [cancel_event]\<rparr>\<rparr>"
  note defs = c1_def c3_def c4_def c5_def cancel_served_def sample_ingress_defs dequeued_def
  have "ingress_step request_queued c1"
    using ingress_step.take [of request_queued] by (simp add: defs ordered_take_def)
  with run_none have r1: "ingress_run request_queued [request_input] c1"
    using run_step [of request_queued "[]" request_queued c1] by (simp add: defs)
  have "ingress_step c1 cancel_served"
    using ingress_step.report [of c1 "[]" request_input "[]"] by (simp add: defs)
  with r1 have r2: "ingress_run request_queued [request_input] cancel_served"
    using run_step [of request_queued "[request_input]" c1 cancel_served] by (simp add: defs)
  have "ingress_step cancel_served c3"
    using ingress_step.arrive [of cancel_served] by (simp add: c3_def cancel_served_def request_queued_def)
  with r2 have r3: "ingress_run request_queued [request_input] c3"
    using run_step [of request_queued "[request_input]" cancel_served c3] by (simp add: defs)
  have "ingress_step c3 c4"
    using ingress_step.overtake [of c3 "[]" cancel_event "[]"] by (simp add: defs may_overtake_def)
  with r3 have r4: "ingress_run request_queued [request_input] c4"
    using run_step [of request_queued "[request_input]" c3 c4] by (simp add: defs)
  have "ingress_step c4 c5"
    using ingress_step.lane [of c4 "[]" cancel_event "[]"] by (simp add: defs priority_send_def)
  with r4 have r5: "ingress_run request_queued [request_input] c5"
    using run_step [of request_queued "[request_input]" c4 c5] by (simp add: defs)
  have "ingress_step c5 cancel_served"
    using ingress_step.take_cancel [of c5] by (simp add: defs)
  with r5 show ?thesis
    using run_step [of request_queued "[request_input]" c5 cancel_served] by (simp add: defs)
qed

theorem cancel_overtakes_only_audio_witness:
  "ingress_run request_queued ([request_input] @ [SessionEvent cancel_event]) cancel_served
   \<and> subseq (filter is_control_input [request_input, sample_audio]) [request_input]
   \<and> length (ig_ordered (cf_ingress cancel_served)) \<le> 72"
proof -
  have "SessionEvent cancel_event \<noteq> request_input" "SessionEvent cancel_event \<noteq> sample_audio"
    by (simp_all add: sample_ingress_defs zero_stream_message_def)
  moreover have "ig_ordered (cf_ingress request_queued) = [request_input, sample_audio]"
    "ig_priority (cf_ingress request_queued) = []" "cf_callers request_queued = []"
    by (simp_all add: request_queued_def)
  ultimately show ?thesis
    using cancel_overtakes_only_audio [OF request_queued_reachable _ _ _ cancel_served_run]
      cancel_served_run
    by simp
qed

section \<open>The forwarder's sink\<close>

text \<open>
  The enqueuer the loop gives the tool result forwarder: admission without waiting. The log
  beside the ingress holds the inputs the runner has taken, in order. \<^verbatim>\<open>ingress_move\<close> is what
  the runner and the other callers do between two ticks of the forwarder; the other callers
  send no tool results.
\<close>

type_synonym ingress_log = "ingress \<times> session_input list"

definition tool_events :: "session_input list \<Rightarrow> stream_message list" where
  "tool_events is = concat (map (\<lambda>i. case i of
     SessionEvent d \<Rightarrow> if forwardable d then [d] else [] | _ \<Rightarrow> []) is)"

lemma tool_events_simps [simp]:
  "tool_events [] = []"
  "tool_events (is @ js) = tool_events is @ tool_events js"
  "tool_events (SessionEvent d # is) = (if forwardable d then [d] else []) @ tool_events is"
  by (simp_all add: tool_events_def)

lemma tool_events_Cons: "tool_events (i # is) = tool_events [i] @ tool_events is"
  by (simp add: tool_events_def)

lemma tool_events_other: "\<not> is_tool_input i \<Longrightarrow> tool_events [i] = []"
  by (cases i) (simp_all add: tool_events_def is_tool_input_def is_session_tool_event_def forwardable_def)

definition logged_events :: "ingress_log \<Rightarrow> stream_message list" where
  "logged_events s = tool_events (snd s @ ig_ordered (fst s))"

definition enqueue_event :: "nat \<Rightarrow> stream_message \<Rightarrow> ingress_log \<Rightarrow> go_error option \<times> ingress_log" where
  "enqueue_event pick d s =
     (case enqueue_session_input True (Some CtxLive) (Some CtxLive) AdmitOrFail pick
             (SessionEvent d) (fst s) of
        None \<Rightarrow> (Some SessionInputQueueFull, s)
      | Some (r, q') \<Rightarrow> (r, (q', snd s)))"

datatype ingress_move =
    RunnerTakes | RunnerTakesCancel | RunnerForwards | RunnerStops | RunnerStarts
  | OtherAdmits session_input

definition ingress_idle_move :: "ingress_move \<Rightarrow> ingress_log \<Rightarrow> ingress_log" where
  "ingress_idle_move mv s =
     (case mv of
        RunnerTakes \<Rightarrow> (case runner_take (fst s) of None \<Rightarrow> s | Some (i, q) \<Rightarrow> (q, snd s @ [i]))
      | RunnerTakesCancel \<Rightarrow> ((fst s)\<lparr>ig_priority := tl (ig_priority (fst s))\<rparr>, snd s)
      | RunnerForwards \<Rightarrow> (tool_consumed (fst s), snd s)
      | RunnerStops \<Rightarrow> (ingress_stop (fst s), snd s)
      | RunnerStarts \<Rightarrow> (ingress_start (fst s), snd s)
      | OtherAdmits i \<Rightarrow>
          if is_tool_input i then s
          else (case ingress_admit (Some CtxLive) (Some CtxLive) AdmitOrFail 0 i (fst s) of
                  None \<Rightarrow> s | Some (r, q) \<Rightarrow> (q, snd s)))"

definition ingress_idle :: "ingress_move list \<Rightarrow> ingress_log \<Rightarrow> ingress_log" where
  "ingress_idle mvs s = fold ingress_idle_move mvs s"

lemma live_push_ordered:
  assumes "ingress_push (Some CtxLive) (Some CtxLive) AdmitOrFail pick i q = Some (r, q')"
  shows "ig_ordered q' = (if r = None then ig_ordered q @ [i] else ig_ordered q)"
    and "r = None \<longleftrightarrow> length (ig_ordered q) < ingress_capacity"
proof -
  have unfolded: "ingress_push (Some CtxLive) (Some CtxLive) AdmitOrFail pick i q =
      (if length (ig_ordered q) < ingress_capacity
       then Some (None, (tool_queued i q)\<lparr>ig_ordered := ig_ordered q @ [i]\<rparr>)
       else Some (Some SessionInputQueueFull,
                  if is_tool_input i then tool_consumed (tool_queued i q) else tool_queued i q))"
    by (simp add: ingress_push_def ingress_send_def ctx_done_def ordered_send_def Let_def)
  show "ig_ordered q' = (if r = None then ig_ordered q @ [i] else ig_ordered q)"
    and "r = None \<longleftrightarrow> length (ig_ordered q) < ingress_capacity"
    using assms unfolding unfolded by (auto split: if_splits)
qed

lemma priority_cancel_ordered:
  "ig_ordered (snd (admit_priority_cancel d q)) = ig_ordered q"
  "fst (admit_priority_cancel d q) \<Longrightarrow> sm_type d = StreamResponseCancel"
  by (auto simp: admit_priority_cancel_def priority_send_def may_overtake_def
      split: option.splits if_splits)

lemma live_admit_ordered:
  assumes admit: "ingress_admit (Some CtxLive) (Some CtxLive) AdmitOrFail pick i q = Some (r, q')"
  shows "(ig_ordered q' = ig_ordered q @ [i] \<and> r = None \<and> length (ig_ordered q) < ingress_capacity)
    \<or> (ig_ordered q' = ig_ordered q \<and> r \<noteq> None \<and> \<not> length (ig_ordered q) < ingress_capacity)
    \<or> (ig_ordered q' = ig_ordered q \<and> r = None
        \<and> (\<exists>d. i = SessionEvent d \<and> sm_type d = StreamResponseCancel))"
proof -
  define lane where "lane = (case i of SessionEvent d \<Rightarrow> admit_priority_cancel d q | _ \<Rightarrow> (False, q))"
  have kept: "ig_ordered (snd lane) = ig_ordered q"
    and cancel: "fst lane \<Longrightarrow> \<exists>d. i = SessionEvent d \<and> sm_type d = StreamResponseCancel"
    using priority_cancel_ordered by (cases i; simp add: lane_def)+
  show ?thesis
  proof (cases "fst lane")
    case True
    then have "r = None" "q' = snd lane"
      using admit by (auto simp: ingress_admit_def lane_def [symmetric] split: prod.splits)
    then show ?thesis using kept cancel True by simp
  next
    case False
    then obtain q2 where
        push: "ingress_push (Some CtxLive) (Some CtxLive) AdmitOrFail pick i
          (count_control 1 i (snd lane)) = Some (r, q2)"
        and "ig_ordered q' = ig_ordered q2"
      using admit by (auto simp: ingress_admit_def lane_def [symmetric] split: prod.splits option.splits)
    then show ?thesis using live_push_ordered [OF push] kept by (cases r) auto
  qed
qed

lemma live_admit_answers:
  "ingress_admit (Some CtxLive) c2 AdmitOrFail pick i q \<noteq> None"
  by (auto simp: ingress_admit_def ingress_push_def ingress_send_def Let_def
      split: prod.splits option.splits)

lemma idle_move_keeps: "logged_events (ingress_idle_move mv s) = logged_events s"
proof (cases mv)
  case RunnerTakes
  show ?thesis
  proof (cases "ig_ordered (fst s)")
    case (Cons i "is")
    then show ?thesis
      using tool_events_Cons [of i "is"] RunnerTakes
      by (simp add: ingress_idle_move_def runner_take_def ordered_take_def logged_events_def)
  qed (simp add: RunnerTakes ingress_idle_move_def runner_take_def ordered_take_def)
next
  case (OtherAdmits i)
  obtain r q where admit:
      "ingress_admit (Some CtxLive) (Some CtxLive) AdmitOrFail 0 i (fst s) = Some (r, q)"
    using live_admit_answers by fastforce
  show ?thesis
  proof (cases "is_tool_input i")
    case False
    then have "logged_events (q, snd s) = logged_events s"
      using live_admit_ordered [OF admit] tool_events_other [OF False]
      by (auto simp: logged_events_def)
    then show ?thesis using OtherAdmits admit False by (simp add: ingress_idle_move_def)
  qed (simp add: OtherAdmits ingress_idle_move_def)
qed (simp_all add: ingress_idle_move_def logged_events_def ingress_start_def ingress_stop_def)

definition ingress_room :: "ingress_log \<Rightarrow> nat" where
  "ingress_room s = ingress_capacity - length (ig_ordered (fst s))"

lemma enqueue_event_effect:
  "logged_events (snd (enqueue_event pick d s)) = logged_events s
     @ (if fst (enqueue_event pick d s) = None \<and> forwardable d then [d] else [])"
  "forwardable d \<Longrightarrow> fst (enqueue_event pick d s) = None \<longleftrightarrow> ingress_room s > 0"
  "ingress_room s \<le> Suc (ingress_room (snd (enqueue_event pick d s)))"
proof -
  obtain r q where admit: "ingress_admit (Some CtxLive) (Some CtxLive) AdmitOrFail pick
      (SessionEvent d) (fst s) = Some (r, q)"
    using live_admit_answers by fastforce
  have result: "enqueue_event pick d s = (r, (q, snd s))"
    using admit by (simp add: enqueue_event_def enqueue_session_input_def)
  consider (admitted) "ig_ordered q = ig_ordered (fst s) @ [SessionEvent d]" "r = None"
        "length (ig_ordered (fst s)) < ingress_capacity"
    | (full) "ig_ordered q = ig_ordered (fst s)" "r \<noteq> None"
        "\<not> length (ig_ordered (fst s)) < ingress_capacity"
    | (lane) "ig_ordered q = ig_ordered (fst s)" "r = None" "sm_type d = StreamResponseCancel"
    using live_admit_ordered [OF admit] by blast
  then show "logged_events (snd (enqueue_event pick d s)) = logged_events s
     @ (if fst (enqueue_event pick d s) = None \<and> forwardable d then [d] else [])"
    by cases (simp_all add: result logged_events_def forwardable_def)
  show "fst (enqueue_event pick d s) = None \<longleftrightarrow> ingress_room s > 0" if "forwardable d"
  proof -
    have "sm_type d \<noteq> StreamResponseCancel" using that by (auto simp: forwardable_def)
    then show ?thesis
      using live_admit_ordered [OF admit] by (auto simp: result ingress_room_def)
  qed
  show "ingress_room s \<le> Suc (ingress_room (snd (enqueue_event pick d s)))"
    using live_admit_ordered [OF admit] by (auto simp: result ingress_room_def)
qed

lemma ingress_idle_keeps: "logged_events (ingress_idle mvs s) = logged_events s"
  by (induction mvs arbitrary: s) (simp_all add: ingress_idle_def idle_move_keeps)

interpretation igs: roomy_sink "enqueue_event pick" logged_events
  "\<lambda>d. if forwardable d then [d] else []" ingress_idle ingress_room
proof unfold_locales
  fix d s s'
  assume "enqueue_event pick d s = (None, s')"
  then show "logged_events s' = logged_events s @ (if forwardable d then [d] else [])"
    using enqueue_event_effect(1) [of pick d s] by simp
next
  fix d s e s'
  assume "enqueue_event pick d s = (Some e, s')"
  then show "logged_events s' = logged_events s"
    using enqueue_event_effect(1) [of pick d s] by simp
qed (simp_all add: enqueue_event_effect ingress_idle_keeps)

text \<open>
  C6: over any sequence of ticks, with the runner and the other callers working on the
  ingress in between, the tool result forwarder delivers each tool call's result to the
  session at most once, and it remembers exactly the calls whose results were admitted.
\<close>

theorem tool_results_forwarded_once:
  "distinct (result_ids (logged_events
      (snd (forwarder_run (enqueue_event pick) ingress_idle ticks [] (new_ingress, [])))))
   \<and> fst (forwarder_run (enqueue_event pick) ingress_idle ticks [] (new_ingress, []))
     = result_ids (logged_events
         (snd (forwarder_run (enqueue_event pick) ingress_idle ticks [] (new_ingress, []))))"
proof -
  obtain forwarded s where
      run: "forwarder_run (enqueue_event pick) ingress_idle ticks [] (new_ingress, []) = (forwarded, s)"
    using prod.exhaust by blast
  have init: "result_ids (logged_events (new_ingress, [])) = []"
    by (simp add: logged_events_def new_ingress_def result_ids_def)
  show ?thesis
    using igs.run_ids [OF run _ init] by (simp add: run)
qed

text \<open>
  C31: on a duplex tick with a batch of text results, not forwarded before and with room in the
  ingress, the forwarder admits one TOOLCALL.END per result, in call order, and then exactly
  one request for the continuation.
\<close>

theorem tool_batch_forwarded:
  assumes "ls_mode ls = DuplexSession" "in_tool_output (ls_inputs ls) = ms" "ms \<noteq> []"
    and "\<not> tool_results_contain_image ms"
    and "\<forall>m \<in> set ms. m_tool_call_id m \<noteq> ''''" "distinct (forwarded @ map m_tool_call_id ms)"
    and "length (ig_ordered (fst s)) + length ms < ingress_capacity"
  shows "fst (forwarder_execute (Some (enqueue_event pick)) ls forwarded s) = None
    \<and> fst (snd (forwarder_execute (Some (enqueue_event pick)) ls forwarded s))
        = forwarded @ map m_tool_call_id ms
    \<and> logged_events (snd (snd (forwarder_execute (Some (enqueue_event pick)) ls forwarded s)))
        = logged_events s @ map (tool_result_event (h_conversation (ls_history ls))) ms
          @ [continuation_event]"
proof -
  have room: "length ms < ingress_room s" using assms(7) by (simp add: ingress_room_def)
  show ?thesis by (rule igs.execute_forwards_batch [OF assms(1-6) room])
qed

definition sample_result :: "string \<Rightarrow> string \<Rightarrow> message" where
  "sample_result i t = (new_text_message RoleTool t)\<lparr>m_tool_call_id := i\<rparr>"

definition sample_results_tick :: "unit loop_state" where
  "sample_results_tick = (new_loop_state DuplexSession [] True)\<lparr>ls_inputs :=
     empty_inputs\<lparr>in_tool_output := [sample_result ''c1'' ''sunny'', sample_result ''c2'' ''12C'']\<rparr>\<rparr>"

theorem tool_batch_forwarded_witness:
  "fst (forwarder_execute (Some (enqueue_event 0)) sample_results_tick [] (new_ingress, [])) = None
   \<and> fst (snd (forwarder_execute (Some (enqueue_event 0)) sample_results_tick [] (new_ingress, [])))
        = [] @ map m_tool_call_id [sample_result ''c1'' ''sunny'', sample_result ''c2'' ''12C'']
   \<and> logged_events (snd (snd (forwarder_execute (Some (enqueue_event 0)) sample_results_tick [] (new_ingress, []))))
        = logged_events (new_ingress, [])
          @ map (tool_result_event (h_conversation (ls_history sample_results_tick)))
              [sample_result ''c1'' ''sunny'', sample_result ''c2'' ''12C'']
          @ [continuation_event]"
  by (rule tool_batch_forwarded)
    (simp_all add: sample_results_tick_def new_loop_state_def sample_result_def new_text_message_def
      zero_message_def tool_results_contain_image_def new_ingress_def ingress_capacity_def)

end
