(* ===== verification/Session_State.thy ===== *)
theory Session_State
  imports Messages Go_Text
begin

text \<open>
  The lifecycle state of one provider session, package
  \<^verbatim>\<open>participants/internal/sessionstate\<close>: the session, the current response, the tool
  continuation, the progress acknowledgement, the ledger of past response identities, the
  deferred control events and the barge-in onset detector. The decisions of the package are
  functions of the state; the session runner acts on them.
\<close>

section \<open>Phases\<close>

datatype session_phase = SessionAwaitingOpen | SessionIsOpen | SessionIsClosed

datatype response_phase =
    ResponseIdle | ResponseInFlight | ResponseCancelling | ResponseCompleted | ResponseInterrupted

record response =
  rs_phase :: response_phase
  rs_id :: string
  rs_output :: bool

datatype continuation_phase =
    ContinuationNone | ContinuationRequested | ContinuationBoundTagged
  | ContinuationBoundGuessed | ContinuationEnded

record continuation =
  cn_phase :: continuation_phase
  cn_id :: string
  cn_echoed :: bool

datatype ack_phase = AckNone | AckOutstanding | AckCancelled | AckEnded

record acknowledgement =
  ak_phase :: ack_phase
  ak_start :: "stream_message option"

record batch_failures =
  bf_failures :: "stream_message list"
  bf_rejected :: bool

datatype id_status = IdUnknown | IdCancelled | IdRetired | IdTerminal

record id_ledger =
  lg_status :: "string \<rightharpoonup> id_status"
  lg_order :: "string list"

text \<open>
  The held onset: the detector's durations in nanoseconds, the held frames, and the release
  timer. A timer is named by how many were armed before it.
\<close>

record held_onset =
  on_speech :: int
  on_quiet :: int
  on_frames :: "byte list list"
  on_timer :: "nat option"
  on_armed :: nat

record session_state =
  st_session :: session_phase
  st_response :: response
  st_continuation :: continuation
  st_ack :: acknowledgement
  st_ids :: id_ledger
  st_batch :: batch_failures
  st_deferred :: "stream_message list"
  st_onset :: held_onset

definition new_session_state :: session_state where
  "new_session_state = \<lparr>st_session = SessionAwaitingOpen,
     st_response = \<lparr>rs_phase = ResponseIdle, rs_id = '''', rs_output = False\<rparr>,
     st_continuation = \<lparr>cn_phase = ContinuationNone, cn_id = '''', cn_echoed = False\<rparr>,
     st_ack = \<lparr>ak_phase = AckNone, ak_start = None\<rparr>,
     st_ids = \<lparr>lg_status = Map.empty, lg_order = []\<rparr>,
     st_batch = \<lparr>bf_failures = [], bf_rejected = False\<rparr>,
     st_deferred = [],
     st_onset = \<lparr>on_speech = 0, on_quiet = 0, on_frames = [], on_timer = None, on_armed = 0\<rparr>\<rparr>"

definition observe_open :: "session_phase \<Rightarrow> bool \<times> session_phase" where
  "observe_open p = (if p \<noteq> SessionAwaitingOpen then (False, p) else (True, SessionIsOpen))"

section \<open>The current response\<close>

definition response_in_flight :: "response \<Rightarrow> bool" where
  "response_in_flight r \<longleftrightarrow> rs_phase r = ResponseInFlight \<or> rs_phase r = ResponseCancelling"

definition response_cancel_sent :: "response \<Rightarrow> bool" where
  "response_cancel_sent r \<longleftrightarrow> rs_phase r = ResponseCancelling \<or> rs_phase r = ResponseInterrupted"

definition response_completed :: "response \<Rightarrow> bool" where
  "response_completed r \<longleftrightarrow> rs_phase r = ResponseCompleted"

definition response_start :: "string \<Rightarrow> response \<Rightarrow> response" where
  "response_start i r = r\<lparr>rs_phase := ResponseInFlight, rs_id := i, rs_output := False\<rparr>"

definition response_cancel :: "response \<Rightarrow> response" where
  "response_cancel r =
     (case rs_phase r of
        ResponseInFlight \<Rightarrow> r\<lparr>rs_phase := ResponseCancelling\<rparr>
      | ResponseIdle \<Rightarrow> r\<lparr>rs_phase := ResponseInterrupted\<rparr>
      | _ \<Rightarrow> r)"

definition response_clear_cancel :: "response \<Rightarrow> response" where
  "response_clear_cancel r =
     (case rs_phase r of
        ResponseCancelling \<Rightarrow> r\<lparr>rs_phase := ResponseInFlight\<rparr>
      | ResponseInterrupted \<Rightarrow> r\<lparr>rs_phase := ResponseIdle\<rparr>
      | _ \<Rightarrow> r)"

definition response_end :: "bool \<Rightarrow> response \<Rightarrow> response" where
  "response_end acknowledgement r =
     (if acknowledgement then r\<lparr>rs_phase := ResponseIdle, rs_output := False, rs_id := ''''\<rparr>
      else if response_cancel_sent r then r\<lparr>rs_phase := ResponseInterrupted, rs_id := ''''\<rparr>
      else r\<lparr>rs_phase := ResponseCompleted, rs_id := ''''\<rparr>)"

section \<open>The tool continuation\<close>

definition continuation_requested :: "continuation \<Rightarrow> bool" where
  "continuation_requested c \<longleftrightarrow> cn_phase c = ContinuationRequested"

definition continuation_bound :: "continuation \<Rightarrow> bool" where
  "continuation_bound c \<longleftrightarrow>
     cn_phase c = ContinuationBoundTagged \<or> cn_phase c = ContinuationBoundGuessed"

definition continuation_owns :: "string \<Rightarrow> continuation \<Rightarrow> bool" where
  "continuation_owns i c \<longleftrightarrow> continuation_bound c \<and> (i = '''' \<or> i = cn_id c)"

definition continuation_request :: "continuation \<Rightarrow> continuation" where
  "continuation_request c = c\<lparr>cn_phase := ContinuationRequested, cn_id := ''''\<rparr>"

definition on_response_start :: "string \<Rightarrow> bool \<Rightarrow> bool \<Rightarrow> continuation \<Rightarrow> continuation" where
  "on_response_start i tagged acknowledgement c =
     (let c1 = (if tagged then c\<lparr>cn_echoed := True\<rparr> else c);
          guessed = (\<not> tagged \<and> \<not> cn_echoed c1 \<and> continuation_requested c1)
      in if acknowledgement \<or> (\<not> tagged \<and> \<not> guessed) then c1
         else (let c2 = c1\<lparr>cn_phase := ContinuationBoundGuessed, cn_id := i\<rparr>
               in if tagged then c2\<lparr>cn_phase := ContinuationBoundTagged\<rparr> else c2))"

definition continuation_end :: "continuation \<Rightarrow> continuation" where
  "continuation_end c =
     (if continuation_bound c then c\<lparr>cn_phase := ContinuationEnded, cn_id := ''''\<rparr> else c)"

definition continuation_rejected :: "continuation \<Rightarrow> continuation" where
  "continuation_rejected c =
     (if cn_phase c = ContinuationBoundGuessed then continuation_request c else c)"

definition continuation_take_ended :: "continuation \<Rightarrow> bool \<times> continuation" where
  "continuation_take_ended c =
     (if cn_phase c \<noteq> ContinuationEnded then (False, c)
      else (True, c\<lparr>cn_phase := ContinuationNone\<rparr>))"

definition continuation_reset :: "continuation \<Rightarrow> continuation" where
  "continuation_reset c = c\<lparr>cn_phase := ContinuationNone, cn_id := ''''\<rparr>"

section \<open>The acknowledgement\<close>

definition ack_outstanding :: "acknowledgement \<Rightarrow> bool" where
  "ack_outstanding a \<longleftrightarrow> ak_phase a = AckOutstanding \<or> ak_phase a = AckCancelled"

definition ack_cancelled :: "acknowledgement \<Rightarrow> bool" where
  "ack_cancelled a \<longleftrightarrow> ak_phase a = AckCancelled"

definition ack_request :: "acknowledgement \<Rightarrow> acknowledgement" where
  "ack_request a = a\<lparr>ak_phase := AckOutstanding\<rparr>"

definition ack_observe_tagged :: "acknowledgement \<Rightarrow> acknowledgement" where
  "ack_observe_tagged a = (if \<not> ack_outstanding a then a\<lparr>ak_phase := AckOutstanding\<rparr> else a)"

definition ack_cancel :: "acknowledgement \<Rightarrow> acknowledgement" where
  "ack_cancel a = (if ak_phase a = AckOutstanding then a\<lparr>ak_phase := AckCancelled\<rparr> else a)"

definition ack_end :: "acknowledgement \<Rightarrow> acknowledgement" where
  "ack_end a = (if ack_outstanding a then a\<lparr>ak_phase := AckEnded\<rparr> else a)"

definition ack_reject :: "acknowledgement \<Rightarrow> acknowledgement" where
  "ack_reject a = a\<lparr>ak_phase := AckNone\<rparr>"

definition ack_take_ended :: "acknowledgement \<Rightarrow> bool \<times> acknowledgement" where
  "ack_take_ended a =
     (if ak_phase a \<noteq> AckEnded then (False, a) else (True, a\<lparr>ak_phase := AckNone\<rparr>))"

section \<open>The identity ledger\<close>

definition id_retention :: nat where
  "id_retention = 128"

definition status_closed :: "id_status \<Rightarrow> bool" where
  "status_closed s \<longleftrightarrow> s = IdRetired \<or> s = IdTerminal"

definition ledger_get :: "string \<Rightarrow> id_ledger \<Rightarrow> id_status" where
  "ledger_get i l = (case lg_status l i of None \<Rightarrow> IdUnknown | Some s \<Rightarrow> s)"

definition ledger_closed :: "string \<Rightarrow> id_ledger \<Rightarrow> bool" where
  "ledger_closed i l = status_closed (ledger_get i l)"

definition ledger_mark :: "string \<Rightarrow> id_status \<Rightarrow> id_ledger \<Rightarrow> id_ledger" where
  "ledger_mark i s l =
     (if i = '''' then l
      else (case lg_status l i of
              Some old \<Rightarrow>
                if \<not> status_closed old then l\<lparr>lg_status := (lg_status l)(i \<mapsto> s)\<rparr> else l
            | None \<Rightarrow>
                (let l1 = l\<lparr>lg_status := (lg_status l)(i \<mapsto> s), lg_order := lg_order l @ [i]\<rparr>
                 in if length (lg_order l1) > id_retention
                    then l1\<lparr>lg_status := (lg_status l1)(hd (lg_order l1) := None),
                            lg_order := tl (lg_order l1)\<rparr>
                    else l1)))"

section \<open>The session's messages\<close>

definition response_id :: "string \<Rightarrow> string" where
  "response_id v = trim_space v"

definition is_continuation_create :: "stream_message \<Rightarrow> bool" where
  "is_continuation_create d =
     (sm_type d = StreamResponseCreate
      \<and> (case sm_value d of Some (VResponseCreate v) \<Rightarrow> is_tool_continuation v | _ \<Rightarrow> False))"

definition is_acknowledgement_create :: "stream_message \<Rightarrow> bool" where
  "is_acknowledgement_create d =
     (sm_type d = StreamResponseCreate
      \<and> (case sm_value d of Some (VResponseCreate v) \<Rightarrow> is_tool_acknowledgement v | _ \<Rightarrow> False))"

definition is_response_stream_type :: "stream_type \<Rightarrow> bool" where
  "is_response_stream_type ty \<longleftrightarrow> ty \<in>
     {StreamMessageStart, StreamMessageEnd,
      StreamTextStart, StreamTextDelta, StreamTextEnd,
      StreamToolCallStart, StreamToolCallDelta, StreamToolCallEnd,
      StreamAudioStart, StreamAudioDelta, StreamAudioEnd,
      StreamImageStart, StreamImageDelta, StreamImageEnd,
      StreamVideoStart, StreamVideoDelta, StreamVideoEnd,
      StreamFileStart, StreamFileDelta, StreamFileEnd,
      StreamReasoningStart, StreamReasoningDelta, StreamReasoningEnd,
      StreamTranscriptStart, StreamTranscriptDelta, StreamTranscriptEnd,
      StreamRefusal, StreamUsageInfo}"

definition is_customer_output_delta :: "stream_message \<Rightarrow> bool" where
  "is_customer_output_delta d =
     (if sm_role d = RoleUser
         \<and> (sm_type d = StreamTranscriptDelta \<or> sm_type d = StreamTranscriptEnd) then False
      else sm_type d \<in>
        {StreamTextDelta, StreamReasoningDelta, StreamAudioDelta, StreamImageDelta,
         StreamVideoDelta, StreamFileDelta, StreamEmbeddingDelta, StreamTranscriptDelta,
         StreamRefusal})"

definition interrupted_message_end_value :: "bool \<Rightarrow> stream_value option \<Rightarrow> stream_value option" where
  "interrupted_message_end_value has_output v =
     (case v of
        Some (VMessageEnd (Some e)) \<Rightarrow>
          Some (VMessageEnd (Some (new_message_end_value_with_terminal (me_usage e)
             TRPartialOutput TPLoop (if has_output then TOPartial else TONone))))
      | _ \<Rightarrow> v)"

section \<open>Decisions on the whole state\<close>

definition cancel_pending :: "session_state \<Rightarrow> bool" where
  "cancel_pending s \<longleftrightarrow>
     rs_phase (st_response s) = ResponseCancelling \<or> ack_cancelled (st_ack s)"

definition response_active :: "session_state \<Rightarrow> bool" where
  "response_active s \<longleftrightarrow> response_in_flight (st_response s) \<or> ack_outstanding (st_ack s)"

definition cancel_target :: "session_state \<Rightarrow> bool" where
  "cancel_target s \<longleftrightarrow>
     response_active s \<and> \<not> continuation_bound (st_continuation s) \<and> \<not> cancel_pending s"

definition note_cancel_sent :: "session_state \<Rightarrow> session_state" where
  "note_cancel_sent s =
     (let s1 = s\<lparr>st_response := response_cancel (st_response s), st_ack := ack_cancel (st_ack s)\<rparr>
      in s1\<lparr>st_ids := ledger_mark (rs_id (st_response s1)) IdCancelled (st_ids s1)\<rparr>)"

definition retire_response :: "session_state \<Rightarrow> session_state" where
  "retire_response s =
     s\<lparr>st_ids := ledger_mark (rs_id (st_response s)) IdRetired (st_ids s),
       st_ack := ack_end (st_ack s), st_continuation := continuation_end (st_continuation s)\<rparr>"

definition begin_response :: "string \<Rightarrow> session_state \<Rightarrow> bool \<times> session_state" where
  "begin_response i s =
     (if i \<noteq> '''' \<and> ledger_closed i (st_ids s) then (False, s)
      else if response_in_flight (st_response s)
      then (let current = rs_id (st_response s) in
            if current = i then (False, s)
            else if current \<noteq> '''' \<and> i = '''' then (False, s)
            else if current \<noteq> '''' then (True, retire_response s)
            else (True, s))
      else (True, s))"

definition start_response :: "string \<Rightarrow> bool \<Rightarrow> bool \<Rightarrow> session_state \<Rightarrow> session_state" where
  "start_response i acknowledgement tagged s =
     (case begin_response i s of
        (False, s1) \<Rightarrow> s1
      | (True, s1) \<Rightarrow>
          (let s2 = s1\<lparr>st_response := response_start i (st_response s1),
                       st_continuation :=
                         on_response_start i tagged acknowledgement (st_continuation s1)\<rparr>
           in if acknowledgement \<and> ack_cancelled (st_ack s2)
              then s2\<lparr>st_response := response_cancel (st_response s2),
                      st_ids := ledger_mark i IdCancelled (st_ids s2)\<rparr>
              else s2))"

definition owns_response_end :: "string \<Rightarrow> session_state \<Rightarrow> bool" where
  "owns_response_end i s =
     (let r = st_response s in
      if i = '''' then response_in_flight r \<or> \<not> response_completed r
      else (let st = ledger_get i (st_ids s) in
            if st = IdRetired \<or> st = IdTerminal then False
            else if st = IdCancelled \<and> rs_id r \<noteq> i then False
            else if response_in_flight r then rs_id r = i
            else \<not> response_completed r))"

text \<open>\<^verbatim>\<open>EndResponse\<close>: whether it ended the current response, the message as rewritten, the state.\<close>

definition end_response ::
    "stream_message \<Rightarrow> string \<Rightarrow> bool \<Rightarrow> session_state \<Rightarrow> bool \<times> stream_message \<times> session_state" where
  "end_response m i acknowledgement s =
     (if \<not> owns_response_end i s then (False, m, s)
      else (let r = st_response s;
                owned = (if i = '''' then rs_id r else i);
                m1 = (if response_cancel_sent r
                      then m\<lparr>sm_value := interrupted_message_end_value (rs_output r) (sm_value m)\<rparr>
                      else m);
                s1 = s\<lparr>st_response := response_end acknowledgement r,
                       st_ids := ledger_mark owned IdTerminal (st_ids s),
                       st_continuation := continuation_end (st_continuation s)\<rparr>
            in (True, m1, if acknowledgement then s1\<lparr>st_ack := ack_end (st_ack s1)\<rparr> else s1)))"

definition stale_customer_output :: "stream_message \<Rightarrow> session_state \<Rightarrow> bool" where
  "stale_customer_output m s =
     (if \<not> is_customer_output_delta m then False
      else (let i = response_id (sm_response_id m) in
            if i = '''' then response_cancel_sent (st_response s) \<or> ack_cancelled (st_ack s)
            else if ledger_get i (st_ids s) \<noteq> IdUnknown then True
            else rs_id (st_response s) \<noteq> '''' \<and> rs_id (st_response s) \<noteq> i))"

definition tag_continuation :: "stream_message \<Rightarrow> string \<Rightarrow> session_state \<Rightarrow> stream_message" where
  "tag_continuation m i s =
     (if \<not> is_response_stream_type (sm_type m) \<or> sm_response_purpose m \<noteq> PurposeNone
         \<or> \<not> continuation_owns i (st_continuation s)
      then m else m\<lparr>sm_response_purpose := PurposeToolContinuation\<rparr>)"

definition defer_response_request :: "stream_message \<Rightarrow> session_state \<Rightarrow> bool" where
  "defer_response_request d s =
     (let create = is_continuation_create d in
      if (create \<or> sm_type d = StreamMessageEnd) \<and> cancel_pending s then True
      else create \<and> response_in_flight (st_response s))"

definition hold_for_acknowledgement :: "stream_message \<Rightarrow> session_state \<Rightarrow> bool \<times> session_state" where
  "hold_for_acknowledgement d s =
     (if sm_type d \<noteq> StreamResponseCreate then (False, s)
      else if is_acknowledgement_create d
      then (response_in_flight (st_response s) \<or> continuation_requested (st_continuation s)
            \<or> continuation_bound (st_continuation s) \<or> ack_outstanding (st_ack s), s)
      else if ack_outstanding (st_ack s) then (True, s\<lparr>st_deferred := st_deferred s @ [d]\<rparr>)
      else (False, s))"

definition take_deferred :: "session_state \<Rightarrow> stream_message list \<times> session_state" where
  "take_deferred s = (st_deferred s, s\<lparr>st_deferred := []\<rparr>)"

definition take_failures :: "session_state \<Rightarrow> stream_message list \<times> session_state" where
  "take_failures s =
     (bf_failures (st_batch s), s\<lparr>st_batch := (st_batch s)\<lparr>bf_failures := []\<rparr>\<rparr>)"

section \<open>The onset detector\<close>

text \<open>
  \<^verbatim>\<open>Observe\<close>: the level of the frame and its threshold are floats, and \<^verbatim>\<open>loud\<close> is whether
  the level clears it. Durations are nanoseconds, unbounded here: Go's 64 bits hold the product
  of a second and the samples of any frame below nine thousand million samples.
\<close>

definition default_sample_rate :: int where
  "default_sample_rate = 24000"

definition detector_observe ::
    "bool \<Rightarrow> byte list \<Rightarrow> int \<Rightarrow> int \<Rightarrow> int \<Rightarrow> held_onset \<Rightarrow> bool \<times> bool \<times> held_onset" where
  "detector_observe loud pcm rate min_speech hangover h =
     (let samples = length pcm div 2 in
      if samples = 0 then (False, False, h)
      else (let rate1 = (if rate \<le> 0 then default_sample_rate else rate);
                duration = int samples * 1000000000 div rate1
            in if \<not> loud
               then (let h1 = h\<lparr>on_quiet := on_quiet h + duration\<rparr>
                     in (False, False,
                         if on_quiet h1 > hangover then h1\<lparr>on_speech := 0\<rparr> else h1))
               else (let h1 = h\<lparr>on_quiet := 0, on_speech := on_speech h + duration\<rparr>
                     in (on_speech h1 \<ge> min_speech, True, h1))))"

definition onset_hold :: "byte list \<Rightarrow> held_onset \<Rightarrow> held_onset" where
  "onset_hold pcm h =
     (let h1 = (if length (on_frames h) = 0
                then h\<lparr>on_timer := Some (on_armed h), on_armed := Suc (on_armed h)\<rparr> else h)
      in h1\<lparr>on_frames := on_frames h1 @ [pcm]\<rparr>)"

definition onset_take :: "held_onset \<Rightarrow> byte list list \<times> held_onset" where
  "onset_take h = (on_frames h, h\<lparr>on_frames := [], on_timer := None\<rparr>)"

section \<open>Runs of session events\<close>

text \<open>
  Everything the runner does to the state, one event per operation: a run is a list of them.
\<close>

datatype session_event =
    EvOpen | EvClose
  | EvStart string bool bool  \<comment> \<open>identity, acknowledgement, tagged\<close>
  | EvEnd stream_message string bool
  | EvOutput
  | EvCancelSent
  | EvContinuationRequested | EvContinuationRejected | EvContinuationTaken | EvContinuationReset
  | EvAckRequested | EvAckTagged | EvAckStart "stream_message option" | EvAckRejected | EvAckTaken
  | EvHold stream_message | EvDefer stream_message | EvTakeDeferred
  | EvFailure stream_message | EvRejected bool | EvTakeFailures
  | EvFrame bool "byte list" int int int | EvHoldFrame "byte list" | EvTakeFrames

fun session_apply :: "session_event \<Rightarrow> session_state \<Rightarrow> session_state" where
  "session_apply EvOpen s = s\<lparr>st_session := snd (observe_open (st_session s))\<rparr>"
| "session_apply EvClose s = s\<lparr>st_session := SessionIsClosed\<rparr>"
| "session_apply (EvStart i a t) s = start_response i a t s"
| "session_apply (EvEnd m i a) s = snd (snd (end_response m i a s))"
| "session_apply EvOutput s = s\<lparr>st_response := (st_response s)\<lparr>rs_output := True\<rparr>\<rparr>"
| "session_apply EvCancelSent s = note_cancel_sent s"
| "session_apply EvContinuationRequested s =
     s\<lparr>st_continuation := continuation_request (st_continuation s)\<rparr>"
| "session_apply EvContinuationRejected s =
     s\<lparr>st_continuation := continuation_rejected (st_continuation s)\<rparr>"
| "session_apply EvContinuationTaken s =
     s\<lparr>st_continuation := snd (continuation_take_ended (st_continuation s))\<rparr>"
| "session_apply EvContinuationReset s =
     s\<lparr>st_continuation := continuation_reset (st_continuation s)\<rparr>"
| "session_apply EvAckRequested s =
     s\<lparr>st_ack := ack_request (st_ack s), st_response := response_clear_cancel (st_response s)\<rparr>"
| "session_apply EvAckTagged s = s\<lparr>st_ack := ack_observe_tagged (st_ack s)\<rparr>"
| "session_apply (EvAckStart d) s = s\<lparr>st_ack := (st_ack s)\<lparr>ak_start := d\<rparr>\<rparr>"
| "session_apply EvAckRejected s = s\<lparr>st_ack := ack_reject (st_ack s)\<rparr>"
| "session_apply EvAckTaken s = s\<lparr>st_ack := snd (ack_take_ended (st_ack s))\<rparr>"
| "session_apply (EvHold d) s = snd (hold_for_acknowledgement d s)"
| "session_apply (EvDefer d) s = s\<lparr>st_deferred := st_deferred s @ [d]\<rparr>"
| "session_apply EvTakeDeferred s = snd (take_deferred s)"
| "session_apply (EvFailure d) s =
     s\<lparr>st_batch := (st_batch s)\<lparr>bf_failures := bf_failures (st_batch s) @ [d]\<rparr>\<rparr>"
| "session_apply (EvRejected b) s = s\<lparr>st_batch := (st_batch s)\<lparr>bf_rejected := b\<rparr>\<rparr>"
| "session_apply EvTakeFailures s = snd (take_failures s)"
| "session_apply (EvFrame loud pcm rate min_speech hangover) s =
     s\<lparr>st_onset := snd (snd (detector_observe loud pcm rate min_speech hangover (st_onset s)))\<rparr>"
| "session_apply (EvHoldFrame pcm) s = s\<lparr>st_onset := onset_hold pcm (st_onset s)\<rparr>"
| "session_apply EvTakeFrames s = s\<lparr>st_onset := snd (onset_take (st_onset s))\<rparr>"

definition session_run :: "session_event list \<Rightarrow> session_state \<Rightarrow> session_state" where
  "session_run evs s = fold session_apply evs s"

lemma session_run_simps [simp]:
  "session_run [] s = s" "session_run (e # evs) s = session_run evs (session_apply e s)"
  by (simp_all add: session_run_def)

section \<open>The ledger\<close>

definition ledger_ok :: "id_ledger \<Rightarrow> bool" where
  "ledger_ok l \<longleftrightarrow> distinct (lg_order l) \<and> set (lg_order l) = dom (lg_status l)
     \<and> length (lg_order l) \<le> id_retention \<and> [] \<notin> set (lg_order l)
     \<and> (\<forall>i. lg_status l i \<noteq> Some IdUnknown)"

text \<open>The identity is remembered, with at most \<^verbatim>\<open>n\<close> identities recorded after it.\<close>

definition remembered :: "string \<Rightarrow> nat \<Rightarrow> id_ledger \<Rightarrow> bool" where
  "remembered r n l \<longleftrightarrow> (\<exists>ys zs. lg_order l = ys @ r # zs \<and> length zs \<le> n)"

lemma ledger_mark_cases:
  obtains (same) "ledger_mark i s l = l"
      "i = [] \<or> (\<exists>old. lg_status l i = Some old \<and> status_closed old)"
  | (changed) old where "lg_status l i = Some old" "\<not> status_closed old"
      "ledger_mark i s l = l\<lparr>lg_status := (lg_status l)(i \<mapsto> s)\<rparr>"
  | (added) "lg_status l i = None" "i \<noteq> ''''" "Suc (length (lg_order l)) \<le> id_retention"
      "ledger_mark i s l = l\<lparr>lg_status := (lg_status l)(i \<mapsto> s), lg_order := lg_order l @ [i]\<rparr>"
  | (evicted) "lg_status l i = None" "i \<noteq> ''''" "id_retention < Suc (length (lg_order l))"
      "ledger_mark i s l = l\<lparr>lg_status := ((lg_status l)(i \<mapsto> s))(hd (lg_order l @ [i]) := None),
         lg_order := tl (lg_order l @ [i])\<rparr>"
proof (cases "i = ''''")
  case False
  show ?thesis
  proof (cases "lg_status l i")
    case None
    then show ?thesis
      using False added evicted
      by (cases "length (lg_order l @ [i]) > id_retention") (auto simp: ledger_mark_def Let_def)
  next
    case (Some old)
    then show ?thesis
      using False same changed by (cases "status_closed old") (auto simp: ledger_mark_def)
  qed
qed (use same in \<open>simp add: ledger_mark_def\<close>)

lemma ledger_mark_ok:
  assumes "ledger_ok l" "s \<noteq> IdUnknown"
  shows "ledger_ok (ledger_mark i s l)"
proof (cases rule: ledger_mark_cases [where i = i and s = s and l = l])
  case (changed old)
  then show ?thesis using assms by (auto simp: ledger_ok_def)
next
  case added
  then show ?thesis using assms by (auto simp: ledger_ok_def domIff)
next
  case evicted
  obtain x xs where order: "lg_order l = x # xs"
    using evicted assms by (cases "lg_order l") (auto simp: id_retention_def)
  then show ?thesis using assms evicted(1,2,4) by (auto simp: ledger_ok_def domIff)
qed (use assms in simp)

lemma remembered_status: "ledger_ok l \<Longrightarrow> remembered r n l \<Longrightarrow> lg_status l r \<noteq> None"
  by (metis domIff in_set_conv_decomp ledger_ok_def remembered_def)

lemma ledger_mark_remembers:
  assumes "ledger_ok l" "remembered r n l" "Suc n < id_retention"
  shows "remembered r (Suc n) (ledger_mark i s l)"
    and "ledger_closed r l \<Longrightarrow> ledger_closed r (ledger_mark i s l)"
    and "ledger_get r l \<noteq> IdUnknown \<Longrightarrow> s \<noteq> IdUnknown \<Longrightarrow> ledger_get r (ledger_mark i s l) \<noteq> IdUnknown"
proof -
  obtain ys zs where split: "lg_order l = ys @ r # zs" "length zs \<le> n"
    using assms(2) by (auto simp: remembered_def)
  have evict: "\<exists>y ys'. ys = y # ys' \<and> y \<noteq> r" if "id_retention < Suc (length (lg_order l))"
    using that split assms(1,3) by (cases ys) (auto simp: ledger_ok_def)
  have known: "lg_status l r \<noteq> None" using remembered_status assms by blast
  show "remembered r (Suc n) (ledger_mark i s l)"
  proof (cases rule: ledger_mark_cases [where i = i and s = s and l = l])
    case evicted
    then obtain y ys' where "ys = y # ys'" using evict by blast
    then show ?thesis
      using split evicted(4) unfolding remembered_def
      by (intro exI [of _ ys'] exI [of _ "zs @ [i]"]) simp
  qed (use split in \<open>auto simp: remembered_def intro: exI [of _ ys]\<close>)
  have kept: "lg_status (ledger_mark i s l) r = lg_status l r
      \<or> (\<exists>old. lg_status l r = Some old \<and> \<not> status_closed old \<and> lg_status (ledger_mark i s l) r = Some s)"
  proof (cases rule: ledger_mark_cases [where i = i and s = s and l = l])
    case evicted
    then obtain y ys' where "ys = y # ys'" "y \<noteq> r" using evict by blast
    then show ?thesis using evicted known split by auto
  qed (use known in auto)
  show "ledger_closed r (ledger_mark i s l)" if "ledger_closed r l"
    using kept that by (auto simp: ledger_closed_def ledger_get_def)
  show "ledger_get r (ledger_mark i s l) \<noteq> IdUnknown"
    if "ledger_get r l \<noteq> IdUnknown" "s \<noteq> IdUnknown"
    using kept that by (auto simp: ledger_get_def)
qed

lemma ledger_mark_new:
  assumes "ledger_ok l" "ledger_get i l = IdUnknown" "i \<noteq> ''''"
  shows "remembered i 0 (ledger_mark i s l)" and "ledger_get i (ledger_mark i s l) = s"
proof -
  have new: "lg_status l i = None"
    using assms(1,2) by (auto simp: ledger_get_def ledger_ok_def split: option.splits)
  have "remembered i 0 (ledger_mark i s l) \<and> ledger_get i (ledger_mark i s l) = s"
  proof (cases rule: ledger_mark_cases [where i = i and s = s and l = l])
    case evicted
    obtain x xs where order: "lg_order l = x # xs"
      using evicted assms(1) by (cases "lg_order l") (auto simp: id_retention_def)
    have "x \<noteq> i" using order new assms(1) by (auto simp: ledger_ok_def)
    then show ?thesis using evicted(4) order by (auto simp: remembered_def ledger_get_def)
  next
    case added
    then show ?thesis by (auto simp: remembered_def ledger_get_def)
  qed (use new assms(3) in auto)
  then show "remembered i 0 (ledger_mark i s l)" "ledger_get i (ledger_mark i s l) = s" by simp_all
qed

section \<open>The invariant of a session\<close>

definition binding_ok :: "session_state \<Rightarrow> bool" where
  "binding_ok s \<longleftrightarrow> (continuation_bound (st_continuation s) \<longrightarrow>
     response_in_flight (st_response s)
     \<and> (cn_id (st_continuation s) = '''' \<or> cn_id (st_continuation s) = rs_id (st_response s)))"

definition onset_ok :: "held_onset \<Rightarrow> bool" where
  "onset_ok h \<longleftrightarrow> (on_timer h = None \<longleftrightarrow> on_frames h = [])"

definition session_ok :: "session_state \<Rightarrow> bool" where
  "session_ok s \<longleftrightarrow> ledger_ok (st_ids s) \<and> binding_ok s \<and> onset_ok (st_onset s)"

lemma session_ok_new: "session_ok new_session_state"
  by (simp add: session_ok_def ledger_ok_def binding_ok_def onset_ok_def new_session_state_def
        continuation_bound_def)

lemmas session_phase_defs = response_in_flight_def response_cancel_sent_def response_completed_def
  response_start_def response_cancel_def response_clear_cancel_def response_end_def
  continuation_requested_def continuation_bound_def continuation_request_def on_response_start_def
  continuation_end_def continuation_rejected_def continuation_take_ended_def continuation_reset_def

lemma end_continuation_unbound [simp]: "\<not> continuation_bound (continuation_end c)"
  by (simp add: continuation_end_def continuation_bound_def)

lemma started_in_flight [simp]:
  "response_in_flight (response_start i r)" "rs_id (response_start i r) = i"
  by (simp_all add: response_start_def response_in_flight_def)

lemma cancelled_response [simp]:
  "response_in_flight (response_cancel r) = response_in_flight r"
  "rs_id (response_cancel r) = rs_id r"
  by (cases "rs_phase r"; simp add: response_cancel_def response_in_flight_def)+

lemma cleared_response [simp]:
  "response_in_flight (response_clear_cancel r) = response_in_flight r"
  "rs_id (response_clear_cancel r) = rs_id r"
  by (cases "rs_phase r"; simp add: response_clear_cancel_def response_in_flight_def)+

lemma bound_after_start:
  "continuation_bound (on_response_start i tagged a c) \<Longrightarrow>
   cn_id (on_response_start i tagged a c) = i \<or> continuation_bound c
     \<and> cn_id (on_response_start i tagged a c) = cn_id c"
  by (auto simp: on_response_start_def continuation_bound_def Let_def split: if_splits)

lemma begin_response_state:
  "snd (begin_response i s) = s \<or> snd (begin_response i s) = retire_response s"
  by (simp add: begin_response_def Let_def)

lemma begin_response_unbinds:
  assumes "binding_ok s" "fst (begin_response i s)"
    and "continuation_bound (st_continuation (snd (begin_response i s)))"
  shows "cn_id (st_continuation (snd (begin_response i s))) = ''''"
  using assms
  by (auto simp: begin_response_def binding_ok_def retire_response_def Let_def split: if_splits)

lemma retire_ok:
  "session_ok s \<Longrightarrow> session_ok (retire_response s)"
  by (simp add: session_ok_def retire_response_def ledger_mark_ok binding_ok_def)

lemma start_response_ok:
  assumes "session_ok s"
  shows "session_ok (start_response i a t s)"
proof -
  obtain opened s1 where starts: "begin_response i s = (opened, s1)" by fastforce
  have s1: "session_ok s1"
    using begin_response_state [of i s] starts assms retire_ok by auto
  show ?thesis
  proof (cases opened)
    case True
    have unbound: "continuation_bound (st_continuation s1) \<Longrightarrow> cn_id (st_continuation s1) = ''''"
      using begin_response_unbinds [of s i] starts True assms by (simp add: session_ok_def)
    then have "binding_ok (s1\<lparr>st_response := response_start i (st_response s1),
        st_continuation := on_response_start i t a (st_continuation s1)\<rparr>)"
      using bound_after_start [of i t a "st_continuation s1"] by (auto simp: binding_ok_def)
    then show ?thesis
      using starts True s1
      by (auto simp: start_response_def session_ok_def ledger_mark_ok binding_ok_def Let_def)
  qed (use starts s1 in \<open>simp add: start_response_def\<close>)
qed

lemma end_response_ok: "session_ok s \<Longrightarrow> session_ok (snd (snd (end_response m i a s)))"
  by (simp add: end_response_def session_ok_def binding_ok_def ledger_mark_ok Let_def)

lemma note_cancel_ok: "session_ok s \<Longrightarrow> session_ok (note_cancel_sent s)"
  by (simp add: note_cancel_sent_def session_ok_def binding_ok_def ledger_mark_ok Let_def)

lemma observe_onset_ok:
  "onset_ok h \<Longrightarrow> onset_ok (snd (snd (detector_observe loud pcm rate sp ho h)))"
  by (simp add: detector_observe_def onset_ok_def Let_def)

lemma hold_onset_ok: "onset_ok h \<Longrightarrow> onset_ok (onset_hold pcm h)"
  by (auto simp: onset_hold_def onset_ok_def Let_def)

lemma continuation_steps [simp]:
  "\<not> continuation_bound (continuation_request c)"
  "\<not> continuation_bound (continuation_reset c)"
  "continuation_bound (snd (continuation_take_ended c)) = continuation_bound c"
  "cn_id (snd (continuation_take_ended c)) = cn_id c"
  by (simp_all add: continuation_request_def continuation_reset_def continuation_bound_def
        continuation_take_ended_def)

lemma continuation_rejected_bound:
  "continuation_bound (continuation_rejected c) \<Longrightarrow>
   continuation_bound c \<and> cn_id (continuation_rejected c) = cn_id c"
  by (simp add: continuation_rejected_def split: if_splits)

lemma output_kept [simp]: "response_in_flight (r\<lparr>rs_output := b\<rparr>) = response_in_flight r"
  by (simp add: response_in_flight_def)

lemma hold_ok: "session_ok s \<Longrightarrow> session_ok (snd (hold_for_acknowledgement d s))"
  by (simp add: hold_for_acknowledgement_def session_ok_def binding_ok_def)

lemma rejected_ok:
  "session_ok s \<Longrightarrow>
   session_ok (s\<lparr>st_continuation := continuation_rejected (st_continuation s)\<rparr>)"
  using continuation_rejected_bound [of "st_continuation s"]
  by (simp add: session_ok_def binding_ok_def)

lemma taken_onset_ok: "onset_ok (snd (onset_take h))"
  by (simp add: onset_take_def onset_ok_def)

lemma session_apply_ok: "session_ok s \<Longrightarrow> session_ok (session_apply ev s)"
proof (cases ev)
  case (EvFrame loud pcm rate sp ho)
  then show "session_ok s \<Longrightarrow> ?thesis"
    using observe_onset_ok by (simp add: session_ok_def binding_ok_def)
next
  case (EvStart i a t)
  then show "session_ok s \<Longrightarrow> ?thesis" by (simp add: start_response_ok)
next
  case (EvEnd m i a)
  then show "session_ok s \<Longrightarrow> ?thesis" by (simp add: end_response_ok)
next
  case EvCancelSent
  then show "session_ok s \<Longrightarrow> ?thesis" by (simp add: note_cancel_ok)
next
  case EvContinuationRejected
  then show "session_ok s \<Longrightarrow> ?thesis" by (simp add: rejected_ok)
next
  case (EvHold d)
  then show "session_ok s \<Longrightarrow> ?thesis" by (simp add: hold_ok)
next
  case (EvHoldFrame pcm)
  then show "session_ok s \<Longrightarrow> ?thesis" using hold_onset_ok by (simp add: session_ok_def binding_ok_def)
next
  case EvTakeFrames
  then show "session_ok s \<Longrightarrow> ?thesis" using taken_onset_ok by (simp add: session_ok_def binding_ok_def)
qed (simp_all add: session_ok_def binding_ok_def take_deferred_def take_failures_def)

lemma session_run_ok: "session_ok s \<Longrightarrow> session_ok (session_run evs s)"
  by (induction evs arbitrary: s) (simp_all add: session_apply_ok)

text \<open>
  in every run of a session the identity ledger holds at most 128 identities, each once and
  none empty; a bound tool continuation is always the live response, so speech never selects
  it for a cancel; and onset audio is held exactly while its release timer is armed.
\<close>

theorem session_invariant:
  "let s = session_run evs new_session_state in
     length (lg_order (st_ids s)) \<le> 128 \<and> distinct (lg_order (st_ids s))
     \<and> set (lg_order (st_ids s)) = dom (lg_status (st_ids s)) \<and> '''' \<notin> set (lg_order (st_ids s))
     \<and> \<not> (continuation_bound (st_continuation s) \<and> \<not> response_in_flight (st_response s))
     \<and> \<not> (continuation_bound (st_continuation s) \<and> cancel_target s)
     \<and> (on_timer (st_onset s) = None \<longleftrightarrow> on_frames (st_onset s) = [])"
  using session_run_ok [OF session_ok_new, of evs]
  by (auto simp: Let_def session_ok_def ledger_ok_def binding_ok_def onset_ok_def id_retention_def
        cancel_target_def)

section \<open>What the ledger keeps over a run\<close>

text \<open>How many identities an event can record: only starts, ends and cancels record one.\<close>

fun event_marks :: "session_event \<Rightarrow> nat" where
  "event_marks (EvStart i a t) = 1"
| "event_marks (EvEnd m i a) = 1"
| "event_marks EvCancelSent = 1"
| "event_marks _ = 0"

lemma note_cancel_ids:
  "st_ids (note_cancel_sent s) = ledger_mark (rs_id (st_response s)) IdCancelled (st_ids s)"
  by (simp add: note_cancel_sent_def Let_def)

lemma start_response_mark:
  "st_ids (start_response i a t s) = st_ids s
   \<or> st_ids (start_response i a t s) = ledger_mark (rs_id (st_response s)) IdRetired (st_ids s)
   \<or> st_ids (start_response i a t s) = ledger_mark i IdCancelled (st_ids s)"
  by (auto simp: start_response_def begin_response_def retire_response_def ack_end_def
        ack_cancelled_def ack_outstanding_def Let_def)

lemma end_response_mark:
  "st_ids (snd (snd (end_response m i a s))) = st_ids s
   \<or> (\<exists>j. st_ids (snd (snd (end_response m i a s))) = ledger_mark j IdTerminal (st_ids s))"
  by (auto simp: end_response_def Let_def)

lemma session_apply_mark:
  "st_ids (session_apply ev s) = st_ids s
   \<or> event_marks ev = 1 \<and> (\<exists>i t. t \<noteq> IdUnknown \<and> st_ids (session_apply ev s) = ledger_mark i t (st_ids s))"
proof (cases ev)
  case (EvStart i a t)
  then show ?thesis
    using start_response_mark [of i a t s] by (simp, metis id_status.distinct(1,3))
next
  case (EvEnd m i a)
  then show ?thesis
    using end_response_mark [of m i a s] by (simp, metis id_status.distinct(5))
next
  case EvCancelSent
  then show ?thesis by (simp add: note_cancel_ids, metis id_status.distinct(1))
qed (simp_all add: hold_for_acknowledgement_def take_deferred_def take_failures_def)

lemma session_apply_remembers:
  assumes "session_ok s" "remembered r n (st_ids s)" "n + event_marks ev < id_retention"
    and "ledger_get r (st_ids s) \<noteq> IdUnknown"
  shows "remembered r (n + event_marks ev) (st_ids (session_apply ev s))"
    and "ledger_get r (st_ids (session_apply ev s)) \<noteq> IdUnknown"
    and "ledger_closed r (st_ids s) \<Longrightarrow> ledger_closed r (st_ids (session_apply ev s))"
proof -
  have ok: "ledger_ok (st_ids s)" using assms(1) by (simp add: session_ok_def)
  have wider: "remembered r (n + k) l" if "remembered r n l" for k l
    using that unfolding remembered_def by (meson trans_le_add1)
  from session_apply_mark [of ev s]
  have "remembered r (n + event_marks ev) (st_ids (session_apply ev s))
    \<and> ledger_get r (st_ids (session_apply ev s)) \<noteq> IdUnknown
    \<and> (ledger_closed r (st_ids s) \<longrightarrow> ledger_closed r (st_ids (session_apply ev s)))"
  proof (elim disjE conjE exE)
    assume "st_ids (session_apply ev s) = st_ids s"
    then show ?thesis using assms(2,4) wider by simp
  next
    fix i t
    assume "event_marks ev = 1" "t \<noteq> IdUnknown"
      and "st_ids (session_apply ev s) = ledger_mark i t (st_ids s)"
    then show ?thesis using ledger_mark_remembers [OF ok assms(2)] assms(3,4) by simp
  qed
  then show "remembered r (n + event_marks ev) (st_ids (session_apply ev s))"
    and "ledger_get r (st_ids (session_apply ev s)) \<noteq> IdUnknown"
    and "ledger_closed r (st_ids s) \<Longrightarrow> ledger_closed r (st_ids (session_apply ev s))"
    by simp_all
qed

lemma session_run_remembers:
  assumes "session_ok s" "remembered r n (st_ids s)"
    and "n + sum_list (map event_marks evs) < id_retention"
    and "ledger_get r (st_ids s) \<noteq> IdUnknown"
  shows "ledger_get r (st_ids (session_run evs s)) \<noteq> IdUnknown
    \<and> (ledger_closed r (st_ids s) \<longrightarrow> ledger_closed r (st_ids (session_run evs s)))"
  using assms
proof (induction evs arbitrary: s n)
  case (Cons ev evs)
  have room: "n + event_marks ev < id_retention" using Cons.prems(3) by simp
  note step = session_apply_remembers [OF Cons.prems(1,2) room Cons.prems(4)]
  show ?case
    using Cons.IH [OF session_apply_ok [OF Cons.prems(1)] step(1) _ step(2)] Cons.prems(3) step(3)
    by (simp add: add.assoc)
qed simp

text \<open>
  C26: once a cancel is sent for a live identified response, its customer output stays
  suppressed: in whatever order events follow, as long as fewer than 128 of them start, end or
  cancel a response, a text, audio or other output delta with its identity is stale.
\<close>

theorem cancelled_output_suppressed:
  assumes "r \<noteq> ''''" "rs_id (st_response (session_run before new_session_state)) = r"
    and "ledger_get r (st_ids (session_run before new_session_state)) = IdUnknown"
    and "sum_list (map event_marks evs) < 128"
    and "is_customer_output_delta m" "response_id (sm_response_id m) = r"
  shows "stale_customer_output m (session_run (before @ EvCancelSent # evs) new_session_state)"
proof -
  define s where "s = session_run before new_session_state"
  have ok: "session_ok s" unfolding s_def by (rule session_run_ok [OF session_ok_new])
  have ids: "st_ids (note_cancel_sent s) = ledger_mark r IdCancelled (st_ids s)"
    using assms(2) by (simp add: note_cancel_ids s_def)
  have "remembered r 0 (st_ids (note_cancel_sent s))"
    and "ledger_get r (st_ids (note_cancel_sent s)) = IdCancelled"
    using ledger_mark_new [of "st_ids s" r IdCancelled] ok assms(1,3)
    by (simp_all add: ids s_def [symmetric] session_ok_def)
  then have "ledger_get r (st_ids (session_run evs (note_cancel_sent s))) \<noteq> IdUnknown"
    using session_run_remembers [OF note_cancel_ok [OF ok], of r 0 evs] assms(4)
    by (simp add: id_retention_def)
  then show ?thesis
    using assms(1,5,6) by (simp add: stale_customer_output_def s_def session_run_def Let_def)
qed

text \<open>
  C29: the end of an identified response is owned once: after it, while fewer than 128 starts,
  ends and cancels follow, a start with that identity opens nothing and an end with it is
  refused, and neither changes the session's state; its late output is stale.
\<close>

theorem response_ends_once:
  assumes "r \<noteq> ''''" "ledger_get r (st_ids (session_run before new_session_state)) = IdUnknown"
    and "fst (end_response m0 r a0 (session_run before new_session_state))"
    and "sum_list (map event_marks evs) < 128"
  shows "let s = session_run (before @ EvEnd m0 r a0 # evs) new_session_state in
     start_response r a t s = s \<and> end_response m r a s = (False, m, s)
     \<and> (is_customer_output_delta m \<and> response_id (sm_response_id m) = r \<longrightarrow> stale_customer_output m s)"
proof -
  define s where "s = session_run before new_session_state"
  define s1 where "s1 = snd (snd (end_response m0 r a0 s))"
  define s2 where "s2 = session_run evs s1"
  have ok: "session_ok s" unfolding s_def by (rule session_run_ok [OF session_ok_new])
  have ids: "st_ids s1 = ledger_mark r IdTerminal (st_ids s)"
    using assms(1,3) unfolding s1_def s_def by (auto simp: end_response_def Let_def split: if_splits)
  have "remembered r 0 (st_ids s1)" "ledger_get r (st_ids s1) = IdTerminal"
    using ledger_mark_new [of "st_ids s" r IdTerminal] ok assms(1,2)
    by (simp_all add: ids s_def [symmetric] session_ok_def)
  moreover have "session_ok s1" using end_response_ok [OF ok] by (simp add: s1_def)
  ultimately have closed: "ledger_closed r (st_ids s2)"
    using session_run_remembers [of s1 r 0 evs] assms(4)
    by (simp add: s2_def id_retention_def ledger_closed_def status_closed_def)
  then have "start_response r a t s2 = s2" "end_response m r a s2 = (False, m, s2)"
    using assms(1)
    by (auto simp: start_response_def begin_response_def end_response_def owns_response_end_def
          ledger_closed_def status_closed_def)
  moreover have "stale_customer_output m s2"
    if "is_customer_output_delta m" "response_id (sm_response_id m) = r"
    using closed that assms(1)
    by (auto simp: stale_customer_output_def ledger_closed_def status_closed_def Let_def)
  moreover have "session_run (before @ EvEnd m0 r a0 # evs) new_session_state = s2"
    by (simp add: session_run_def s2_def s1_def s_def)
  ultimately show ?thesis by (simp add: Let_def)
qed

lemma trim_padded: "trim_space '' r1 '' = ''r1''"
  by code_simp

lemma cancelled_output_suppressed_witness:
  "stale_customer_output
     (zero_stream_message\<lparr>sm_type := StreamTextDelta, sm_role := RoleAssistant, sm_response_id := '' r1 ''\<rparr>)
     (session_run ([EvOpen, EvStart ''r1'' False False, EvOutput] @ EvCancelSent
        # [EvEnd zero_stream_message ''r1'' False, EvStart ''r2'' False False]) new_session_state)"
  by (rule cancelled_output_suppressed [of "''r1''" "[EvOpen, EvStart ''r1'' False False, EvOutput]"])
    (simp_all add: new_session_state_def start_response_def begin_response_def response_start_def
       on_response_start_def ledger_closed_def ledger_get_def status_closed_def observe_open_def
       response_in_flight_def continuation_requested_def is_customer_output_delta_def
       response_id_def trim_padded ack_cancelled_def)

lemma response_ends_once_witness:
  "let s = session_run ([EvStart ''r1'' False False] @ EvEnd zero_stream_message ''r1'' False
             # [EvStart ''r2'' False False]) new_session_state in
     start_response ''r1'' False False s = s
     \<and> end_response zero_stream_message ''r1'' False s = (False, zero_stream_message, s)"
proof -
  let ?s = "session_run [EvStart ''r1'' False False] new_session_state"
  have "ledger_get ''r1'' (st_ids ?s) = IdUnknown"
    and "fst (end_response zero_stream_message ''r1'' False ?s)"
    by (simp_all add: new_session_state_def start_response_def begin_response_def response_start_def
       on_response_start_def ledger_closed_def ledger_get_def status_closed_def end_response_def
       owns_response_end_def response_in_flight_def continuation_requested_def ack_cancelled_def Let_def)
  then show ?thesis
    using response_ends_once [of "''r1''" "[EvStart ''r1'' False False]" zero_stream_message False
      "[EvStart ''r2'' False False]" False False zero_stream_message]
    unfolding Let_def by simp
qed

section \<open>One cancel per response\<close>

text \<open>
  The events that do not concern the end of the live response \<^verbatim>\<open>r\<close>: everything except an owned
  start or end, and a newly accepted acknowledgement request, which withdraws the cancel.
\<close>

fun leaves_response :: "string \<Rightarrow> session_event \<Rightarrow> bool" where
  "leaves_response r (EvStart i a t) = (i = r \<or> i = '''')"
| "leaves_response r (EvEnd m i a) = (i \<noteq> '''' \<and> i \<noteq> r)"
| "leaves_response r EvAckRequested = False"
| "leaves_response r _ = True"

lemma leaves_response_step:
  assumes "r \<noteq> ''''" "rs_id (st_response s) = r" "rs_phase (st_response s) = ResponseCancelling"
    and "leaves_response r ev"
  shows "rs_id (st_response (session_apply ev s)) = r
    \<and> rs_phase (st_response (session_apply ev s)) = ResponseCancelling"
  using assms
  by (cases ev)
    (auto simp: start_response_def begin_response_def end_response_def owns_response_end_def
       note_cancel_sent_def response_cancel_def response_in_flight_def hold_for_acknowledgement_def
       take_deferred_def take_failures_def Let_def)

lemma leaves_response_run:
  assumes "r \<noteq> ''''" "rs_id (st_response s) = r" "rs_phase (st_response s) = ResponseCancelling"
    and "list_all (leaves_response r) evs"
  shows "rs_phase (st_response (session_run evs s)) = ResponseCancelling"
  using assms leaves_response_step [OF assms(1)] by (induction evs arbitrary: s) auto

text \<open>
  After a cancel of a live identified response, whatever arrives short of its own end or
  replacement, interrupting speech finds no cancel target and an end-of-turn or continuation
  request is deferred.
\<close>

lemma one_cancel_per_response:
  assumes "rs_phase (st_response s) = ResponseInFlight" "rs_id (st_response s) = r" "r \<noteq> ''''"
    and "list_all (leaves_response r) evs"
  shows "\<not> cancel_target (session_run (EvCancelSent # evs) s)
    \<and> defer_response_request (zero_stream_message\<lparr>sm_type := StreamMessageEnd\<rparr>)
        (session_run (EvCancelSent # evs) s)"
proof -
  have "rs_phase (st_response (note_cancel_sent s)) = ResponseCancelling"
    and "rs_id (st_response (note_cancel_sent s)) = r"
    using assms(1,2) by (simp_all add: note_cancel_sent_def response_cancel_def Let_def)
  then have "rs_phase (st_response (session_run (EvCancelSent # evs) s)) = ResponseCancelling"
    using leaves_response_run [OF assms(3)] assms(4) by simp
  then show ?thesis
    by (simp add: cancel_target_def cancel_pending_def defer_response_request_def)
qed

section \<open>A replaced untagged response\<close>

text \<open>
  \<^verbatim>\<open>beginResponse\<close> retires a live response only when it has an identity. A continuation bound
  to an untagged response therefore stays bound when an identified response replaces it, and
  untagged output of the replacement is attributed to the continuation.
\<close>

lemma untagged_continuation_survives_replacement:
  "let s = session_run [EvContinuationRequested, EvStart '''' False False, EvStart ''r2'' False False]
             new_session_state in
     rs_id (st_response s) = ''r2'' \<and> continuation_owns '''' (st_continuation s)
     \<and> \<not> cancel_target s"
  by (simp add: new_session_state_def start_response_def begin_response_def response_start_def
       on_response_start_def ledger_closed_def ledger_get_def status_closed_def
       continuation_request_def continuation_owns_def continuation_bound_def cancel_target_def
       response_in_flight_def continuation_requested_def ack_cancelled_def Let_def)

end
