(* ===== verification/Subsystems.thy ===== *)
theory Subsystems
  imports Loop_State Typed_Buffer Event_Sink "HOL-Library.Sublist"
begin

text \<open>
  The smaller subsystems of a tick: ping replies (\<^verbatim>\<open>subsystems/ping_pong.go\<close>), the normalized
  interaction events (\<^verbatim>\<open>subsystems/interaction_events.go\<close>), the recorder
  (\<^verbatim>\<open>subsystems/recorder.go\<close>), the token limit (\<^verbatim>\<open>subsystems/token_counter.go\<close>) and the
  context pressure warning (\<^verbatim>\<open>subsystems/context_pressure_notifier.go\<close>). The user's token
  counter, the clock and the persistence back end are not in the repository: they are
  parameters.
\<close>

section \<open>Ping replies\<close>

definition pong_delta :: "int \<Rightarrow> stream_message" where
  "pong_delta now_ms = mk_delta StreamPong RoleUnset (VPong now_ms)"

text \<open>The loop of \<^verbatim>\<open>Execute\<close>; the clock is read once per ping.\<close>

fun answer_pings :: "int list \<Rightarrow> message list \<Rightarrow> 'f loop_state \<Rightarrow> 'f loop_state" where
  "answer_pings now [] ls = ls"
| "answer_pings now (m # ms) ls =
     (if is_ping_message m
      then answer_pings (tl now) ms (write_kernel PSystem (pong_delta (hd (now @ [0]))) ls)
      else answer_pings now ms ls)"

definition ping_pong_execute :: "int list \<Rightarrow> 'f loop_state \<Rightarrow> 'f loop_state" where
  "ping_pong_execute now ls =
     (if ls_mode ls \<noteq> DuplexSession then ls
      else answer_pings now (in_user_control (ls_inputs ls)) ls)"

section \<open>Interaction events\<close>

definition validate_interaction_event :: "interaction_state \<Rightarrow> interaction_event \<Rightarrow> go_error option" where
  "validate_interaction_event cur ev =
     (if ie_interaction_id ev = ''''
      then Some (ErrorText ''interaction event is missing interaction ID'')
      else if ie_sequence ev \<le> 0
      then Some (FormattedError ''interaction %q has invalid sequence %d''
                   [StrArg (ie_interaction_id ev), IntArg (ie_sequence ev)])
      else if is_active_id cur = ''''
           \<or> (is_completed cur \<and> ie_type ev = IEStart \<and> is_active_id cur \<noteq> ie_interaction_id ev)
      then None
      else if is_active_id cur \<noteq> ie_interaction_id ev
      then Some (FormattedError ''interaction %q does not match active interaction %q''
                   [StrArg (ie_interaction_id ev), StrArg (is_active_id cur)])
      else if ie_sequence ev \<le> is_latest_sequence cur
      then Some (FormattedError ''interaction %q sequence %d is not after %d''
                   [StrArg (ie_interaction_id ev), IntArg (ie_sequence ev),
                    IntArg (is_latest_sequence cur)])
      else None)"

definition remove_pending_tool_call :: "tool_call list \<Rightarrow> string \<Rightarrow> tool_call list" where
  "remove_pending_tool_call calls i =
     (if i = '''' \<or> length calls = 0 then calls else filter (\<lambda>c. tc_id c \<noteq> i) calls)"

definition missing_payload :: "string \<Rightarrow> interaction_event \<Rightarrow> go_error" where
  "missing_payload what ev =
     FormattedError (''interaction %q sequence %d: '' @ what)
       [StrArg (ie_interaction_id ev), IntArg (ie_sequence ev)]"

definition interaction_update :: "(interaction_state \<Rightarrow> interaction_state) \<Rightarrow> 'f loop_state \<Rightarrow> 'f loop_state" where
  "interaction_update f ls = ls\<lparr>ls_interaction := f (ls_interaction ls)\<rparr>"

definition tool_start_delta :: "tool_call \<Rightarrow> stream_message" where
  "tool_start_delta call =
     (mk_delta StreamToolCallStart RoleAssistant (VToolCallStart (tc_id call) (tc_name call)))
       \<lparr>sm_tool_call_id := tc_id call\<rparr>"

definition tool_end_delta :: "tool_call \<Rightarrow> stream_message" where
  "tool_end_delta call =
     (mk_delta StreamToolCallEnd RoleAssistant
        (VToolCallEnd (tc_id call) (tc_name call) (tc_arguments call)))
       \<lparr>sm_tool_call_id := tc_id call\<rparr>"

definition apply_tool_call_request ::
    "interaction_event \<Rightarrow> 'f loop_state \<Rightarrow> go_error option \<times> 'f loop_state" where
  "apply_tool_call_request ev ls =
     (case ie_tool_call ev of
        None \<Rightarrow> (Some (missing_payload ''tool call is required'' ev), ls)
      | Some call \<Rightarrow>
          (None,
           write_kernel PModel (tool_end_delta call)
             (write_kernel PModel (tool_start_delta call)
               (interaction_update
                  (\<lambda>s. s\<lparr>is_pending_calls := is_pending_calls s @ [call]\<rparr>) ls))))"

text \<open>The state an accepted event leaves before its own effects.\<close>

definition note_event :: "interaction_event \<Rightarrow> interaction_state \<Rightarrow> interaction_state" where
  "note_event ev s =
     s\<lparr>is_latest_sequence := ie_sequence ev,
       is_provider := (if ie_provider ev \<noteq> '''' then ie_provider ev else is_provider s),
       is_model := (if ie_model ev \<noteq> '''' then ie_model ev else is_model s)\<rparr>"

definition started_interaction :: "interaction_event \<Rightarrow> interaction_state" where
  "started_interaction ev =
     zero_interaction\<lparr>is_active_id := ie_interaction_id ev, is_provider := ie_provider ev,
       is_model := ie_model ev, is_latest_sequence := ie_sequence ev\<rparr>"

definition apply_final_message ::
    "interaction_event \<Rightarrow> 'f loop_state \<Rightarrow> go_error option \<times> 'f loop_state" where
  "apply_final_message ev ls =
     (case ie_final_message ev of
        None \<Rightarrow> (Some (missing_payload ''final message is required'' ev), ls)
      | Some m \<Rightarrow>
          (None,
           write_full_message PModel m
             (write_user_request m
               (interaction_update
                  (\<lambda>s. s\<lparr>is_final_message := Some m, is_pending_calls := []\<rparr>) ls))))"

definition apply_interaction_error ::
    "interaction_event \<Rightarrow> 'f loop_state \<Rightarrow> go_error option \<times> 'f loop_state" where
  "apply_interaction_error ev ls =
     (case ie_error ev of
        None \<Rightarrow> (Some (missing_payload ''error payload is required'' ev), ls)
      | Some e \<Rightarrow>
          (None,
           write_kernel PSystem
             (mk_delta StreamError RoleUnset
                (VError (Some (new_error_value_with_classification (xe_message e) (xe_classification e)))))
             (interaction_update (\<lambda>s. s\<lparr>is_terminal_error := Some e\<rparr>) ls)))"

definition apply_cancellation ::
    "interaction_event \<Rightarrow> 'f loop_state \<Rightarrow> go_error option \<times> 'f loop_state" where
  "apply_cancellation ev ls =
     (case ie_cancellation ev of
        None \<Rightarrow> (Some (missing_payload ''cancellation payload is required'' ev), ls)
      | Some c \<Rightarrow> (None, interaction_update (\<lambda>s. s\<lparr>is_cancellation := Some c\<rparr>) ls))"

definition apply_interaction_effect ::
    "interaction_event \<Rightarrow> 'f loop_state \<Rightarrow> go_error option \<times> 'f loop_state" where
  "apply_interaction_effect ev ls =
     (case ie_type ev of
        IETextDelta \<Rightarrow>
          (None, write_kernel PModel (mk_delta StreamTextDelta RoleAssistant (VTextDelta (ie_text_delta ev))) ls)
      | IEFinalMessage \<Rightarrow> apply_final_message ev ls
      | IEToolCallRequest \<Rightarrow> apply_tool_call_request ev ls
      | IEToolResultAccepted \<Rightarrow>
          (None, case ie_tool_call ev of None \<Rightarrow> ls
             | Some call \<Rightarrow> interaction_update
                 (\<lambda>s. s\<lparr>is_pending_calls := remove_pending_tool_call (is_pending_calls s) (tc_id call)\<rparr>) ls)
      | IEUsage \<Rightarrow>
          (None, case ie_usage ev of None \<Rightarrow> ls
             | Some u \<Rightarrow> interaction_update (\<lambda>s. s\<lparr>is_usage := Some u\<rparr>) ls)
      | IEError \<Rightarrow> apply_interaction_error ev ls
      | IECancellation \<Rightarrow> apply_cancellation ev ls
      | IEEnd \<Rightarrow>
          (None, ls_inputs_update (in_terminate_update (\<lambda>_. True))
                   (interaction_update (\<lambda>s. s\<lparr>is_completed := True\<rparr>) ls))
      | IEStart \<Rightarrow> (None, ls))"

definition apply_interaction_event ::
    "interaction_event \<Rightarrow> 'f loop_state \<Rightarrow> go_error option \<times> 'f loop_state" where
  "apply_interaction_event ev ls =
     (case validate_interaction_event (ls_interaction ls) ev of
        Some e \<Rightarrow> (Some e, ls)
      | None \<Rightarrow>
          if ie_type ev = IEStart then (None, interaction_update (\<lambda>_. started_interaction ev) ls)
          else apply_interaction_effect ev (interaction_update (note_event ev) ls))"

fun apply_interaction_events ::
    "interaction_event list \<Rightarrow> 'f loop_state \<Rightarrow> go_error option \<times> 'f loop_state" where
  "apply_interaction_events [] ls = (None, ls)"
| "apply_interaction_events (ev # evs) ls =
     (case apply_interaction_event ev ls of
        (Some e, ls') \<Rightarrow> (Some e, ls')
      | (None, ls') \<Rightarrow> apply_interaction_events evs ls')"

definition interaction_events_execute :: "'f loop_state \<Rightarrow> go_error option \<times> 'f loop_state" where
  "interaction_events_execute ls = apply_interaction_events (in_interactions (ls_inputs ls)) ls"

section \<open>Recorder\<close>

text \<open>
  The recorder's own state; \<^verbatim>\<open>record\<close> is the back end, absent when it is \<^verbatim>\<open>None\<close>. Go's
  \<^verbatim>\<open>int\<close> tick counter is unbounded here.
\<close>

record recorder_state =
  rec_interval :: int
  rec_ticks :: int

type_synonym 's record_call = "message list \<Rightarrow> 's \<Rightarrow> go_error option \<times> 's"

definition recorder_flush :: "'s record_call option \<Rightarrow> message list \<Rightarrow> 's \<Rightarrow> go_error option \<times> 's" where
  "recorder_flush backend hist s = (case backend of None \<Rightarrow> (None, s) | Some f \<Rightarrow> f hist s)"

definition recorder_execute ::
    "'s record_call option \<Rightarrow> 'f loop_state \<Rightarrow> recorder_state \<Rightarrow> 's
     \<Rightarrow> go_error option \<times> recorder_state \<times> 's" where
  "recorder_execute backend ls r s =
     (case backend of
        None \<Rightarrow> (None, r, s)
      | Some f \<Rightarrow>
          let r' = r\<lparr>rec_ticks := rec_ticks r + 1\<rparr> in
          if rec_interval r' > 0 \<and> rec_ticks r' mod rec_interval r' \<noteq> 0 then (None, r', s)
          else (case f (h_conversation (ls_history ls)) s of (e, s') \<Rightarrow> (e, r', s')))"

section \<open>Token limit\<close>

text \<open>
  \<^verbatim>\<open>TokenCounterSubsystem\<close>. The removal flags of the first loop of \<^verbatim>\<open>Execute\<close>, and the kept
  messages of the second. \<^verbatim>\<open>count\<close> is the user's counter, absent when it is \<^verbatim>\<open>None\<close>.
\<close>

fun removal_flags :: "(message list \<Rightarrow> int) \<Rightarrow> int \<Rightarrow> int \<Rightarrow> message list \<Rightarrow> bool list" where
  "removal_flags count limit remaining [] = []"
| "removal_flags count limit remaining (m # ms) =
     (if remaining \<le> limit then replicate (length (m # ms)) False
      else if m_role m = RoleSystem then False # removal_flags count limit remaining ms
      else True # removal_flags count limit (remaining - count [m]) ms)"

definition kept_messages :: "message list \<Rightarrow> bool list \<Rightarrow> message list" where
  "kept_messages ms removed = map fst (filter (\<lambda>p. \<not> snd p) (zip ms removed))"

definition token_counter_execute ::
    "(message list \<Rightarrow> int) option \<Rightarrow> int \<Rightarrow> 'f loop_state \<Rightarrow> 'f loop_state" where
  "token_counter_execute counter limit ls =
     (case counter of
        None \<Rightarrow> ls
      | Some count \<Rightarrow>
          if limit \<le> 0 then ls
          else (let ms = h_conversation (ls_history ls);
                    total = count ms
                in if total \<le> limit then ls
                   else ls_history_update (h_conversation_update
                          (\<lambda>_. kept_messages ms (removal_flags count limit total ms))) ls))"

section \<open>Context pressure\<close>

definition default_pressure_warning :: string where
  "default_pressure_warning =
     ''You are approaching the context limit. Save your progress and finish your current task. You will be re-instantiated with fresh context.''"

text \<open>
  \<^verbatim>\<open>ContextPressureNotifier\<close>. The fraction is a float: the record holds what the code asks of
  it, whether it is positive and \<^verbatim>\<open>int(float64(maxTokens) * threshold)\<close>.
\<close>

record pressure_notifier =
  pn_max_tokens :: int
  pn_threshold_positive :: bool
  pn_threshold_tokens :: int
  pn_warning :: string
  pn_fired :: bool

definition new_pressure_notifier ::
    "(message list \<Rightarrow> int) option \<Rightarrow> int \<Rightarrow> bool \<Rightarrow> int \<Rightarrow> string \<Rightarrow> pressure_notifier result" where
  "new_pressure_notifier counter max_tokens positive threshold warning =
     (case counter of
        None \<Rightarrow> Inl (ErrorText ''context pressure notifier: TokenCounter is required'')
      | Some _ \<Rightarrow> Inr
          \<lparr>pn_max_tokens = max_tokens, pn_threshold_positive = positive,
           pn_threshold_tokens = threshold,
           pn_warning = (if warning = '''' then default_pressure_warning else warning),
           pn_fired = False\<rparr>)"

definition pressure_interrupt :: "pressure_notifier \<Rightarrow> message" where
  "pressure_interrupt n =
     zero_message\<lparr>m_role := RoleUser,
       m_parts := [ControlPlanePart CPInterrupt, TextPart (pn_warning n)]\<rparr>"

definition over_threshold ::
    "(message list \<Rightarrow> int) \<Rightarrow> 'f loop_state \<Rightarrow> pressure_notifier \<Rightarrow> bool" where
  "over_threshold count ls n \<longleftrightarrow>
     \<not> pn_fired n \<and> \<not> (pn_max_tokens n \<le> 0 \<or> \<not> pn_threshold_positive n)
     \<and> \<not> count (h_conversation (ls_history ls)) < pn_threshold_tokens n"

definition pressure_execute ::
    "(message list \<Rightarrow> int) \<Rightarrow> (message, 'q) sink option \<Rightarrow> 'f loop_state \<Rightarrow> pressure_notifier \<Rightarrow> 'q
     \<Rightarrow> go_error option \<times> pressure_notifier \<times> 'q" where
  "pressure_execute count writer ls n q =
     (if \<not> over_threshold count ls n then (None, n, q)
      else (case writer of
              None \<Rightarrow> (None, n\<lparr>pn_fired := True\<rparr>, q)
            | Some send \<Rightarrow>
                (case send (pressure_interrupt n) q of
                   (Some e, q') \<Rightarrow>
                     (Some (WrappedError ''context pressure notifier: failed to send interrupt'' e), n, q')
                 | (None, q') \<Rightarrow> (None, n\<lparr>pn_fired := True\<rparr>, q'))))"

text \<open>A sequence of ticks of the notifier.\<close>

fun pressure_run ::
    "(message list \<Rightarrow> int) \<Rightarrow> (message, 'q) sink option \<Rightarrow> 'f loop_state list \<Rightarrow> pressure_notifier \<Rightarrow> 'q
     \<Rightarrow> pressure_notifier \<times> 'q" where
  "pressure_run count writer [] n q = (n, q)"
| "pressure_run count writer (ls # lss) n q =
     (case pressure_execute count writer ls n q of
        (r, n', q') \<Rightarrow> pressure_run count writer lss n' q')"

section \<open>The token limit keeps system turns and the newest turns\<close>

definition without_oldest :: "nat \<Rightarrow> message list \<Rightarrow> message list" where
  "without_oldest k ms = filter (\<lambda>m. m_role m = RoleSystem) (take k ms) @ drop k ms"

lemma without_oldest_Suc:
  "without_oldest (Suc k) (m # ms) =
     (if m_role m = RoleSystem then m # without_oldest k ms else without_oldest k ms)"
  by (simp add: without_oldest_def)

lemma without_oldest_0 [simp]: "without_oldest 0 ms = ms"
  by (simp add: without_oldest_def)

lemma kept_messages_Cons:
  "kept_messages (m # ms) (b # bs) = (if b then kept_messages ms bs else m # kept_messages ms bs)"
  by (simp add: kept_messages_def)

lemma kept_all: "kept_messages ms (replicate (length ms) False) = ms"
  by (induction ms) (simp_all add: kept_messages_def)

lemma kept_is_without_oldest:
  assumes additive: "\<And>xs ys. count (xs @ ys) = count xs + count ys"
  shows "\<exists>k \<le> length ms.
     kept_messages ms (removal_flags count limit (base + count ms) ms) = without_oldest k ms
     \<and> (base + count (without_oldest k ms) \<le> limit \<or> k = length ms)
     \<and> (\<forall>j < k. base + count (without_oldest j ms) > limit)"
proof (induction ms arbitrary: base)
  case Nil
  show ?case by (simp add: kept_messages_def without_oldest_def)
next
  case (Cons m ms)
  have Cons_count: "count (x # xs) = count [x] + count xs" for x xs
    using additive [of "[x]" xs] by simp
  consider (fits) "base + count (m # ms) \<le> limit"
    | (system) "limit < base + count (m # ms)" "m_role m = RoleSystem"
    | (cut) "limit < base + count (m # ms)" "m_role m \<noteq> RoleSystem"
    by linarith
  then show ?case
  proof cases
    case fits
    then have "removal_flags count limit (base + count (m # ms)) (m # ms)
        = replicate (length (m # ms)) False"
      by (simp only: removal_flags.simps if_True)
    then show ?thesis using fits kept_all [of "m # ms"] by (intro exI [of _ 0]) simp
  next
    case system
    have total: "base + count (m # ms) = (base + count [m]) + count ms"
      by (simp add: Cons_count [of m ms])
    obtain k where k: "k \<le> length ms"
        "kept_messages ms (removal_flags count limit (base + count (m # ms)) ms) = without_oldest k ms"
        "(base + count [m]) + count (without_oldest k ms) \<le> limit \<or> k = length ms"
        "\<forall>j<k. (base + count [m]) + count (without_oldest j ms) > limit"
      using Cons.IH [of "base + count [m]"] unfolding total by blast
    have "\<forall>j < Suc k. base + count (without_oldest j (m # ms)) > limit"
    proof (intro allI impI)
      fix j assume "j < Suc k"
      then show "base + count (without_oldest j (m # ms)) > limit"
        using k(4) system Cons_count [of m "without_oldest (j - 1) ms"] by (cases j) (auto simp: without_oldest_Suc)
    qed
    then show ?thesis
      using k system Cons_count [of m "without_oldest k ms"]
      by (intro exI [of _ "Suc k"]) (auto simp: without_oldest_Suc kept_messages_Cons)
  next
    case cut
    obtain k where k: "k \<le> length ms"
        "kept_messages ms (removal_flags count limit (base + count ms) ms) = without_oldest k ms"
        "base + count (without_oldest k ms) \<le> limit \<or> k = length ms"
        "\<forall>j<k. base + count (without_oldest j ms) > limit"
      using Cons.IH [of base] by auto
    have "\<forall>j < Suc k. base + count (without_oldest j (m # ms)) > limit"
    proof (intro allI impI)
      fix j assume "j < Suc k"
      then show "base + count (without_oldest j (m # ms)) > limit"
        using k(4) cut by (cases j) (auto simp: without_oldest_Suc)
    qed
    then show ?thesis
      using k cut Cons_count [of m ms]
      by (intro exI [of _ "Suc k"]) (auto simp: without_oldest_Suc kept_messages_Cons)
  qed
qed

lemma without_oldest_system:
  "filter (\<lambda>m. m_role m = RoleSystem) (without_oldest k ms) = filter (\<lambda>m. m_role m = RoleSystem) ms"
proof -
  have "filter (\<lambda>m. m_role m = RoleSystem) (take k ms @ drop k ms)
      = filter (\<lambda>m. m_role m = RoleSystem) (without_oldest k ms)"
    unfolding without_oldest_def filter_append by simp
  then show ?thesis by simp
qed

text \<open>
  with an additive counter the token limit drops a shortest prefix of the turns, system
  turns excepted: afterwards the conversation fits the limit, or only system turns are left,
  and dropping one message less would not have been enough. System turns keep their order.
\<close>

theorem token_limit_drops_shortest_prefix:
  assumes additive: "\<And>xs ys. count (xs @ ys) = count xs + count ys"
    and limit: "0 < limit"
  shows "\<exists>k \<le> length (h_conversation (ls_history ls)).
     h_conversation (ls_history (token_counter_execute (Some count) limit ls))
       = without_oldest k (h_conversation (ls_history ls))
     \<and> (count (without_oldest k (h_conversation (ls_history ls))) \<le> limit
        \<or> k = length (h_conversation (ls_history ls)))
     \<and> (\<forall>j < k. count (without_oldest j (h_conversation (ls_history ls))) > limit)
     \<and> filter (\<lambda>m. m_role m = RoleSystem)
         (h_conversation (ls_history (token_counter_execute (Some count) limit ls)))
       = filter (\<lambda>m. m_role m = RoleSystem) (h_conversation (ls_history ls))"
proof (cases "count (h_conversation (ls_history ls)) \<le> limit")
  case True
  then show ?thesis
    using limit by (intro exI [of _ 0]) (simp add: token_counter_execute_def)
next
  case False
  let ?ms = "h_conversation (ls_history ls)"
  obtain k where k: "k \<le> length ?ms"
      "kept_messages ?ms (removal_flags count limit (count ?ms) ?ms) = without_oldest k ?ms"
      "count (without_oldest k ?ms) \<le> limit \<or> k = length ?ms"
      "\<forall>j<k. count (without_oldest j ?ms) > limit"
    using kept_is_without_oldest [OF additive, of ?ms limit 0] by auto
  then have "h_conversation (ls_history (token_counter_execute (Some count) limit ls))
      = without_oldest k ?ms"
    using False limit by (simp add: token_counter_execute_def)
  then show ?thesis using k without_oldest_system by auto
qed

definition sample_long_state :: "unit loop_state" where
  "sample_long_state = (new_loop_state ModeTurnTaking [] False)\<lparr>ls_history :=
     empty_history\<lparr>h_conversation := [new_text_message RoleSystem ''be brief'',
       new_text_message RoleUser ''one'', new_text_message RoleAssistant ''two'',
       new_text_message RoleUser ''three'']\<rparr>\<rparr>"

theorem token_limit_drops_shortest_prefix_witness:
  "\<exists>k. h_conversation (ls_history
        (token_counter_execute (Some (\<lambda>ms. int (length ms))) 2 sample_long_state))
      = without_oldest k (h_conversation (ls_history sample_long_state))
    \<and> filter (\<lambda>m. m_role m = RoleSystem) (h_conversation (ls_history
        (token_counter_execute (Some (\<lambda>ms. int (length ms))) 2 sample_long_state)))
      = filter (\<lambda>m. m_role m = RoleSystem) (h_conversation (ls_history sample_long_state))"
  using token_limit_drops_shortest_prefix [of "\<lambda>ms. int (length ms)" 2 sample_long_state] by auto

section \<open>The pressure warning is sent once\<close>

lemma pressure_fired_idle:
  "pn_fired n \<Longrightarrow> pressure_run count writer lss n q = (n, q)"
  by (induction lss) (simp_all add: pressure_execute_def over_threshold_def)

locale warning_sink = event_sink send sent view
  for send :: "message \<Rightarrow> 'q \<Rightarrow> go_error option \<times> 'q"
  and sent :: "'q \<Rightarrow> 'v list" and view :: "message \<Rightarrow> 'v list"
begin

lemma warned_once:
  "\<not> pn_fired n \<Longrightarrow> pressure_run count (Some send) lss n q = (n', q') \<Longrightarrow>
   sent q' = sent q @ (if pn_fired n' then view (pressure_interrupt n) else [])"
proof (induction lss arbitrary: n q)
  case (Cons ls lss)
  show ?case
  proof (cases "over_threshold count ls n")
    case False
    then show ?thesis using Cons by (simp add: pressure_execute_def)
  next
    case True
    obtain r q1 where step: "send (pressure_interrupt n) q = (r, q1)" by fastforce
    show ?thesis
    proof (cases r)
      case None
      then have "(n', q') = (n\<lparr>pn_fired := True\<rparr>, q1)"
        using Cons.prems True step pressure_fired_idle [of "n\<lparr>pn_fired := True\<rparr>" count "Some send" lss q1]
        by (simp add: pressure_execute_def)
      then show ?thesis using send_admits step None by simp
    next
      case (Some e)
      then have run: "pressure_run count (Some send) lss n q1 = (n', q')"
        using Cons.prems True step by (simp add: pressure_execute_def)
      show ?thesis using Cons.IH [OF Cons.prems(1) run] send_refuses [of "pressure_interrupt n" q e q1]
        step Some by simp
    qed
  qed
qed simp

end

section \<open>Accepted interaction events\<close>

lemma interaction_update_simps [simp]:
  "ls_interaction (interaction_update f ls) = f (ls_interaction ls)"
  "ls_inputs (interaction_update f ls) = ls_inputs ls"
  by (simp_all add: interaction_update_def)

lemma writers_keep_interaction [simp]:
  "ls_interaction (write_kernel src d ls) = ls_interaction ls"
  "ls_interaction (write_full_message src m ls) = ls_interaction ls"
  "ls_interaction (write_user_request m ls) = ls_interaction ls"
  "ls_inputs (write_kernel src d ls) = ls_inputs ls"
  "ls_inputs (write_full_message src m ls) = ls_inputs ls"
  "ls_inputs (write_user_request m ls) = ls_inputs ls"
  by (simp_all add: request_simps)

lemmas interaction_effect_defs = apply_interaction_effect_def apply_final_message_def
  apply_tool_call_request_def apply_interaction_error_def apply_cancellation_def

lemma effect_keeps_position:
  "is_active_id (ls_interaction (snd (apply_interaction_effect ev ls))) = is_active_id (ls_interaction ls)"
  "is_latest_sequence (ls_interaction (snd (apply_interaction_effect ev ls)))
     = is_latest_sequence (ls_interaction ls)"
  by (cases "ie_type ev";
      simp add: interaction_effect_defs split: option.split)+

lemma effect_terminates:
  "in_terminate (ls_inputs (snd (apply_interaction_effect ev ls)))
     \<longleftrightarrow> in_terminate (ls_inputs ls) \<or> ie_type ev = IEEnd"
  by (cases "ie_type ev"; simp add: interaction_effect_defs split: option.split)

lemma accepted_event:
  assumes step: "apply_interaction_event ev ls = (None, ls')"
    and active: "is_active_id (ls_interaction ls) \<noteq> ''''"
    and same: "ie_type ev = IEStart \<Longrightarrow> ie_interaction_id ev = is_active_id (ls_interaction ls)"
  shows "ie_interaction_id ev = is_active_id (ls_interaction ls)"
    and "is_latest_sequence (ls_interaction ls) < ie_sequence ev"
    and "is_active_id (ls_interaction ls') = is_active_id (ls_interaction ls)"
    and "is_latest_sequence (ls_interaction ls') = ie_sequence ev"
    and "in_terminate (ls_inputs ls') \<longleftrightarrow> in_terminate (ls_inputs ls) \<or> ie_type ev = IEEnd"
proof -
  have valid: "validate_interaction_event (ls_interaction ls) ev = None"
    using step by (auto simp: apply_interaction_event_def split: option.splits)
  show here: "ie_interaction_id ev = is_active_id (ls_interaction ls)"
    and "is_latest_sequence (ls_interaction ls) < ie_sequence ev"
    using valid active same by (auto simp: validate_interaction_event_def split: if_splits)
  have ls': "ls' = snd (apply_interaction_event ev ls)" using step by simp
  show "is_active_id (ls_interaction ls') = is_active_id (ls_interaction ls)"
    "is_latest_sequence (ls_interaction ls') = ie_sequence ev"
    "in_terminate (ls_inputs ls') \<longleftrightarrow> in_terminate (ls_inputs ls) \<or> ie_type ev = IEEnd"
    unfolding ls' using valid here
    by (simp_all add: apply_interaction_event_def effect_keeps_position effect_terminates
          note_event_def started_interaction_def)
qed

text \<open>
  in an active interaction an accepted batch of events belongs to that interaction, its
  sequence numbers strictly increase past the latest one seen, and the loop is asked to
  terminate exactly when the batch ends the interaction.
\<close>

theorem interaction_batch_in_order:
  assumes "apply_interaction_events evs ls = (None, ls')"
    and "is_active_id (ls_interaction ls) \<noteq> ''''"
    and "\<forall>ev \<in> set evs. ie_type ev = IEStart \<longrightarrow> ie_interaction_id ev = is_active_id (ls_interaction ls)"
  shows "(\<forall>ev \<in> set evs. ie_interaction_id ev = is_active_id (ls_interaction ls))
    \<and> sorted_wrt (<) (is_latest_sequence (ls_interaction ls) # map ie_sequence evs)
    \<and> is_latest_sequence (ls_interaction ls')
        = last (is_latest_sequence (ls_interaction ls) # map ie_sequence evs)
    \<and> (in_terminate (ls_inputs ls') \<longleftrightarrow>
         in_terminate (ls_inputs ls) \<or> (\<exists>ev \<in> set evs. ie_type ev = IEEnd))"
  using assms
proof (induction evs arbitrary: ls)
  case (Cons ev evs)
  obtain r ls1 where pair: "apply_interaction_event ev ls = (r, ls1)" by fastforce
  have step: "apply_interaction_event ev ls = (None, ls1)"
    using Cons.prems(1) pair by (cases r) auto
  have rest: "apply_interaction_events evs ls1 = (None, ls')"
    using Cons.prems(1) step by simp
  note head = accepted_event [OF step Cons.prems(2)]
  have here: "ie_type ev = IEStart \<Longrightarrow> ie_interaction_id ev = is_active_id (ls_interaction ls)"
    using Cons.prems(3) by simp
  have tail: "(\<forall>e \<in> set evs. ie_interaction_id e = is_active_id (ls_interaction ls1))
    \<and> sorted_wrt (<) (is_latest_sequence (ls_interaction ls1) # map ie_sequence evs)
    \<and> is_latest_sequence (ls_interaction ls')
        = last (is_latest_sequence (ls_interaction ls1) # map ie_sequence evs)
    \<and> (in_terminate (ls_inputs ls') \<longleftrightarrow>
         in_terminate (ls_inputs ls1) \<or> (\<exists>e \<in> set evs. ie_type e = IEEnd))"
    using Cons.IH [OF rest] Cons.prems head [OF here] by simp
  then show ?case using head [OF here] by auto
qed simp

definition sample_event :: "int \<Rightarrow> interaction_event_type \<Rightarrow> interaction_event" where
  "sample_event n ty = \<lparr>ie_interaction_id = ''i1'', ie_sequence = n, ie_type = ty,
     ie_provider = '''', ie_model = '''', ie_text_delta = ''hi'', ie_final_message = None,
     ie_tool_call = None, ie_usage = None, ie_error = None, ie_cancellation = None\<rparr>"

definition sample_interaction :: "unit loop_state" where
  "sample_interaction = interaction_update (\<lambda>_. started_interaction (sample_event 1 IEStart))
     (new_loop_state DuplexSession [] False)"

lemmas sample_interaction_defs = sample_interaction_def sample_event_def started_interaction_def
  zero_interaction_def interaction_update_def new_loop_state_def empty_inputs_def empty_outputs_def
  empty_history_def

definition sample_batch :: "interaction_event list" where
  "sample_batch = [sample_event 2 IETextDelta, sample_event 5 IEEnd]"

theorem interaction_batch_in_order_witness:
  "list_all (\<lambda>ev. ie_interaction_id ev = ''i1'') sample_batch
   \<and> sorted_wrt (<) ((1::int) # map ie_sequence sample_batch)
   \<and> is_latest_sequence (ls_interaction (snd (apply_interaction_events sample_batch sample_interaction)))
       = last (1 # map ie_sequence sample_batch)
   \<and> in_terminate (ls_inputs (snd (apply_interaction_events sample_batch sample_interaction)))"
proof -
  have ok: "fst (apply_interaction_events sample_batch sample_interaction) = None"
    by (simp add: sample_batch_def sample_interaction_defs apply_interaction_event_def
          validate_interaction_event_def interaction_effect_defs request_simps note_event_def)
  show ?thesis
    using interaction_batch_in_order [of sample_batch sample_interaction
        "snd (apply_interaction_events sample_batch sample_interaction)"]
      ok
    by (simp add: prod_eq_iff list_all_iff) (simp add: sample_batch_def sample_interaction_defs)
qed

end
