(* ===== verification/Go_Format.thy ===== *)
theory Go_Format
  imports Prelude
begin

text \<open>
  The texts the participants build with \<^verbatim>\<open>fmt.Sprintf\<close> and \<^verbatim>\<open>encoding/hex\<close>: decimal numerals
  and hexadecimal bytes. Both renderings are injective, which is what makes the identities
  built from them unique.
\<close>

section \<open>Decimal numerals\<close>

definition digit_char :: "nat \<Rightarrow> char" where
  "digit_char d = char_of (48 + d)"

fun decimal :: "nat \<Rightarrow> string" where
  "decimal n = (if n < 10 then [digit_char n] else decimal (n div 10) @ [digit_char (n mod 10)])"

declare decimal.simps [simp del]

definition decimal_int :: "int \<Rightarrow> string" where
  "decimal_int k = (if k < 0 then CHR ''-'' # decimal (nat (- k)) else decimal (nat k))"

text \<open>Reading a numeral back, the inverse used to prove the rendering injective.\<close>

definition read_decimal :: "string \<Rightarrow> nat" where
  "read_decimal s = foldl (\<lambda>v c. 10 * v + (of_char c - 48)) 0 s"

lemma read_digit: "d < 10 \<Longrightarrow> of_char (digit_char d) - 48 = (d :: nat)"
  by (simp add: digit_char_def)

lemma read_decimal_snoc: "read_decimal (s @ [c]) = 10 * read_decimal s + (of_char c - 48)"
  by (simp add: read_decimal_def)

lemma read_decimal_decimal [simp]: "read_decimal (decimal n) = n"
proof (induction n rule: decimal.induct)
  case (1 n)
  show ?case
  proof (cases "n < 10")
    case True
    then show ?thesis using read_digit [of n] by (simp add: decimal.simps [of n] read_decimal_def)
  next
    case False
    then have "read_decimal (decimal n) = 10 * (n div 10) + (of_char (digit_char (n mod 10)) - 48)"
      using 1 by (simp add: decimal.simps [of n] read_decimal_snoc)
    then show ?thesis using read_digit [of "n mod 10"] by simp
  qed
qed

lemma decimal_inject [simp]: "decimal m = decimal n \<longleftrightarrow> m = n"
  by (metis read_decimal_decimal)

lemma decimal_nonempty [simp]: "decimal n \<noteq> ''''"
  by (simp add: decimal.simps [of n])

section \<open>Hexadecimal bytes\<close>

definition hex_char :: "nat \<Rightarrow> char" where
  "hex_char d = (if d < 10 then char_of (48 + d) else char_of (87 + d))"

definition hex_byte :: "byte \<Rightarrow> string" where
  "hex_byte b = [hex_char (unat b div 16), hex_char (unat b mod 16)]"

definition hex_encode :: "byte list \<Rightarrow> string" where
  "hex_encode bs = concat (map hex_byte bs)"

lemma hex_char_inject: "d < 16 \<Longrightarrow> e < 16 \<Longrightarrow> hex_char d = hex_char e \<Longrightarrow> d = e"
proof -
  assume "d < 16" "e < 16" "hex_char d = hex_char e"
  moreover from this have "(of_char (hex_char d) :: nat) = of_char (hex_char e)" by simp
  ultimately show "d = e" by (simp add: hex_char_def split: if_splits)
qed

lemma hex_byte_inject:
  assumes "hex_byte a = hex_byte b"
  shows "a = b"
proof -
  have small: "unat w div 16 < 16" for w :: byte
    using unsigned_less [of w, where ?'a = nat] by (simp add: less_mult_imp_div_less)
  have "hex_char (unat a div 16) = hex_char (unat b div 16)"
    and "hex_char (unat a mod 16) = hex_char (unat b mod 16)"
    using assms by (simp_all add: hex_byte_def)
  then have "unat a div 16 = unat b div 16" "unat a mod 16 = unat b mod 16"
    using small by (auto intro: hex_char_inject)
  then have "unat a = unat b" by (metis div_mult_mod_eq)
  then show ?thesis by (simp add: unsigned_word_eqI)
qed

lemma hex_byte_length [simp]: "length (hex_byte b) = 2"
  by (simp add: hex_byte_def)

lemma hex_encode_inject: "hex_encode as = hex_encode bs \<Longrightarrow> as = bs"
proof (induction as arbitrary: bs)
  case Nil
  then show ?case by (cases bs) (auto simp: hex_encode_def hex_byte_def)
next
  case (Cons a as)
  then obtain b bs' where bs: "bs = b # bs'"
    by (cases bs) (auto simp: hex_encode_def hex_byte_def)
  then have "hex_byte a @ hex_encode as = hex_byte b @ hex_encode bs'"
    using Cons.prems by (simp add: hex_encode_def)
  then have "hex_byte a = hex_byte b" "hex_encode as = hex_encode bs'"
    by (simp_all add: append_eq_append_conv)
  then show ?case using bs Cons.IH hex_byte_inject by simp
qed

section \<open>Stream identities\<close>

text \<open>
  \<^verbatim>\<open>mustStreamID\<close>: the random bytes of one \<^verbatim>\<open>rand.Read\<close> are an argument, \<^verbatim>\<open>None\<close> when the
  read fails. \<^verbatim>\<open>actor_provided_id\<close> is the identity every runner gives the messages of a stream.
\<close>

definition must_stream_id :: "string \<Rightarrow> byte list option \<Rightarrow> string" where
  "must_stream_id prefix random =
     (case random of
        None \<Rightarrow> prefix @ ''-fallback''
      | Some bs \<Rightarrow> prefix @ ''-'' @ hex_encode bs)"

definition actor_message_id :: "string \<Rightarrow> string \<Rightarrow> nat \<Rightarrow> string" where
  "actor_message_id actor stream n = actor @ ''-'' @ stream @ ''-'' @ decimal n"

lemma actor_message_id_inject [simp]:
  "actor_message_id a s m = actor_message_id a s n \<longleftrightarrow> m = n"
  by (simp add: actor_message_id_def)

end
