(* ===== verification/Participants.thy ===== *)
theory Participants
  imports Typed_Buffer Subsystems Go_Format
begin

text \<open>
  The user, interaction and kernel participants: \<^verbatim>\<open>participants/runner.go\<close> and
  \<^verbatim>\<open>participants/kernel_runner.go\<close>. The user and interaction runners put values in an outbox
  the engine reads; the kernel runner hands the loop's deltas to the readers of a run.
\<close>

section \<open>The user runner\<close>

text \<open>
  \<^verbatim>\<open>publish\<close> holds \<^verbatim>\<open>writeMu\<close>, so stamping a message and writing it is one step. The arguments
  \<^verbatim>\<open>c1\<close>, \<^verbatim>\<open>c2\<close> and \<^verbatim>\<open>send_first\<close> are those of the buffer's \<^verbatim>\<open>Write\<close>: what the context answers at its
  two looks and Go's pick.
\<close>

record user_runner =
  un_inbox :: "message typed_buffer"
  un_outbox :: "user_response typed_buffer"
  un_channel :: "message list option"
  un_stream_id :: string
  un_index :: nat

definition new_user_runner :: "int \<Rightarrow> byte list option \<Rightarrow> user_runner" where
  "new_user_runner capacity random =
     \<lparr>un_inbox = new_typed_buffer capacity, un_outbox = new_typed_buffer capacity,
      un_channel = None, un_stream_id = must_stream_id ''user'' random, un_index = 0\<rparr>"

text \<open>
  One turn of \<^verbatim>\<open>Run\<close>: \<^verbatim>\<open>None\<close> while it waits for a request. A request goes to the out channel,
  if one was asked for; that channel is unbuffered, and \<^verbatim>\<open>taken\<close> says whether its reader takes the
  request before the context ends with \<^verbatim>\<open>ends\<close>.
\<close>

definition user_run_turn ::
    "bool \<Rightarrow> ctx_state \<Rightarrow> bool \<Rightarrow> go_error \<Rightarrow> user_runner \<Rightarrow> (go_error option \<times> user_runner) option" where
  "user_run_turn read_first c taken ends r =
     (case read_context read_first c (un_inbox r) of
        None \<Rightarrow> None
      | Some (Inl e, b) \<Rightarrow> Some (Some e, r\<lparr>un_inbox := b\<rparr>)
      | Some (Inr req, b) \<Rightarrow>
          (case un_channel r of
             None \<Rightarrow> Some (None, r\<lparr>un_inbox := b\<rparr>)
           | Some sent \<Rightarrow>
               if taken then Some (None, r\<lparr>un_inbox := b, un_channel := Some (sent @ [req])\<rparr>)
               else Some (Some ends, r\<lparr>un_inbox := b\<rparr>)))"

definition user_out_channel :: "user_runner \<Rightarrow> user_runner" where
  "user_out_channel r = (case un_channel r of None \<Rightarrow> r\<lparr>un_channel := Some []\<rparr> | Some _ \<Rightarrow> r)"

definition apply_user_ordering :: "message \<Rightarrow> user_runner \<Rightarrow> message \<times> user_runner" where
  "apply_user_ordering m r =
     (m\<lparr>m_actor_stream_id := un_stream_id r, m_actor_provided_index := int (un_index r),
        m_actor_provided_id := actor_message_id ''user'' (un_stream_id r) (un_index r),
        m_actor_id := PUser\<rparr>,
      r\<lparr>un_index := Suc (un_index r)\<rparr>)"

definition user_publish ::
    "ctx_state \<Rightarrow> ctx_state \<Rightarrow> bool \<Rightarrow> message \<Rightarrow> user_runner \<Rightarrow> go_error option \<times> user_runner" where
  "user_publish c1 c2 send_first m r =
     (case apply_user_ordering m r of
        (m1, r1) \<Rightarrow>
          (case write_bool c1 c2 send_first \<lparr>ur_message = m1, ur_error = None\<rparr> (un_outbox r1) of
             (ok, b) \<Rightarrow>
               (if \<not> ok then Some (ErrorText ''failed to write user request, buffer is full'') else None,
                r1\<lparr>un_outbox := b\<rparr>)))"

definition user_write ::
    "ctx_state \<Rightarrow> ctx_state \<Rightarrow> bool \<Rightarrow> message \<Rightarrow> user_runner \<Rightarrow> go_error option \<times> user_runner" where
  "user_write c1 c2 send_first m r = user_publish c1 c2 send_first m r"

definition stop_message :: message where
  "stop_message = zero_message\<lparr>m_role := RoleUser, m_parts := [TextPart ''stop'']\<rparr>"

definition user_stop ::
    "ctx_state \<Rightarrow> ctx_state \<Rightarrow> bool \<Rightarrow> user_runner \<Rightarrow> go_error option \<times> user_runner" where
  "user_stop c1 c2 send_first r = user_publish c1 c2 send_first stop_message r"

section \<open>The interaction runner\<close>

record interaction_runner =
  xr_outbox :: "interaction_event typed_buffer"
  xr_index :: nat

definition new_interaction_runner :: "int \<Rightarrow> interaction_runner" where
  "new_interaction_runner capacity = \<lparr>xr_outbox = new_typed_buffer capacity, xr_index = 0\<rparr>"

definition interaction_write ::
    "ctx_state \<Rightarrow> ctx_state \<Rightarrow> bool \<Rightarrow> interaction_event \<Rightarrow> interaction_runner
     \<Rightarrow> go_error option \<times> interaction_runner" where
  "interaction_write c1 c2 send_first ev r =
     (case write_bool c1 c2 send_first ev (xr_outbox r) of
        (ok, b) \<Rightarrow>
          if \<not> ok
          then (Some (ErrorText ''failed to write interaction event, buffer is full''), r\<lparr>xr_outbox := b\<rparr>)
          else (None, r\<lparr>xr_outbox := b, xr_index := Suc (xr_index r)\<rparr>))"

definition interaction_write_batch ::
    "ctx_state \<Rightarrow> ctx_state \<Rightarrow> bool \<Rightarrow> interaction_event list \<Rightarrow> interaction_runner
     \<Rightarrow> go_error option \<times> interaction_runner" where
  "interaction_write_batch c1 c2 send_first evs r = send_each (interaction_write c1 c2 send_first) evs r"

section \<open>The kernel runner\<close>

text \<open>
  A reader's channel: the values sent to it, all of which its reader can take, and whether it
  is closed. A send to a closed channel and a second close panic, which is \<^verbatim>\<open>None\<close>.
\<close>

record 'a reader_chan =
  rd_sent :: "'a list"
  rd_closed :: bool

definition reader_send :: "'a \<Rightarrow> 'a reader_chan \<Rightarrow> 'a reader_chan option" where
  "reader_send x ch = (if rd_closed ch then None else Some (ch\<lparr>rd_sent := rd_sent ch @ [x]\<rparr>))"

definition reader_close :: "'a reader_chan \<Rightarrow> 'a reader_chan option" where
  "reader_close ch = (if rd_closed ch then None else Some (ch\<lparr>rd_closed := True\<rparr>))"

text \<open>
  The kernel's channels live in two stores, and \<^verbatim>\<open>kr_event_ch\<close> and \<^verbatim>\<open>kr_message_ch\<close> are the
  positions of the current ones: a channel outlives the runner's reference to it.
\<close>

record kernel_runner =
  kr_inbox :: "kernel_delta_request typed_buffer"
  kr_event_chans :: "stream_message reader_chan list"
  kr_event_ch :: "nat option"
  kr_message_chans :: "(string \<times> message) reader_chan list"
  kr_message_ch :: "nat option"

definition new_kernel_runner :: "int \<Rightarrow> kernel_runner" where
  "new_kernel_runner capacity =
     \<lparr>kr_inbox = new_typed_buffer capacity, kr_event_chans = [], kr_event_ch = None,
      kr_message_chans = [], kr_message_ch = None\<rparr>"

definition new_delta_event_reader :: "kernel_runner \<Rightarrow> kernel_runner" where
  "new_delta_event_reader k =
     k\<lparr>kr_event_chans := kr_event_chans k @ [\<lparr>rd_sent = [], rd_closed = False\<rparr>],
       kr_event_ch := Some (length (kr_event_chans k))\<rparr>"

definition with_chan ::
    "('a reader_chan \<Rightarrow> 'a reader_chan option) \<Rightarrow> nat option \<Rightarrow> 'a reader_chan list
     \<Rightarrow> 'a reader_chan list option" where
  "with_chan f i chans =
     (case i of
        None \<Rightarrow> Some chans
      | Some n \<Rightarrow> (case f (chans ! n) of None \<Rightarrow> None | Some ch \<Rightarrow> Some (chans[n := ch])))"

definition close_event_chan :: "kernel_runner \<Rightarrow> kernel_runner option" where
  "close_event_chan k =
     (case with_chan reader_close (kr_event_ch k) (kr_event_chans k) of
        None \<Rightarrow> None
      | Some chans \<Rightarrow> Some (k\<lparr>kr_event_chans := chans, kr_event_ch := None\<rparr>))"

definition close_message_chan :: "kernel_runner \<Rightarrow> kernel_runner option" where
  "close_message_chan k =
     (case with_chan reader_close (kr_message_ch k) (kr_message_chans k) of
        None \<Rightarrow> None
      | Some chans \<Rightarrow> Some (k\<lparr>kr_message_chans := chans, kr_message_ch := None\<rparr>))"

definition forward_delta :: "stream_message \<Rightarrow> kernel_runner \<Rightarrow> kernel_runner option" where
  "forward_delta d k =
     (if sm_type d \<noteq> StreamSystemFullMessage
      then map_option (\<lambda>chans. k\<lparr>kr_event_chans := chans\<rparr>)
             (with_chan (reader_send d) (kr_event_ch k) (kr_event_chans k))
      else Some k)"

definition dispatch_delta :: "kernel_delta_request \<Rightarrow> kernel_runner \<Rightarrow> kernel_runner option" where
  "dispatch_delta req k =
     Option.bind (forward_delta (kd_delta req) k) (\<lambda>k1.
       case sm_value (kd_delta req) of
         Some (VInferenceResult src m) \<Rightarrow>
           map_option (\<lambda>chans. k1\<lparr>kr_message_chans := chans\<rparr>)
             (with_chan (reader_send (src, m)) (kr_message_ch k1) (kr_message_chans k1))
       | Some VLoopEnd \<Rightarrow> Option.bind (close_event_chan k1) close_message_chan
       | _ \<Rightarrow> Some k1)"

definition close_stream_with_error :: "kernel_runner \<Rightarrow> kernel_runner option" where
  "close_stream_with_error k =
     map_option (\<lambda>k1. k1\<lparr>kr_inbox := (kr_inbox k1)\<lparr>tbuf_queue := []\<rparr>\<rparr>)
       (Option.bind (close_message_chan k) close_event_chan)"

text \<open>
  \<^verbatim>\<open>Tick\<close>: \<^verbatim>\<open>None\<close> waits, and inside, \<^verbatim>\<open>None\<close> is a panic; \<^verbatim>\<open>done_first\<close> is Go's pick when both
  cases are ready.
\<close>

definition kernel_tick ::
    "bool \<Rightarrow> ctx_state \<Rightarrow> kernel_runner \<Rightarrow> (go_error option \<times> kernel_runner) option option" where
  "kernel_tick done_first c k =
     (case (c, read_buffer (kr_inbox k)) of
        (CtxLive, None) \<Rightarrow> None
      | (CtxLive, Some (req, b)) \<Rightarrow>
          Some (map_option (Pair None) (dispatch_delta req (k\<lparr>kr_inbox := b\<rparr>)))
      | (CtxDone e, None) \<Rightarrow> Some (map_option (Pair (Some e)) (close_stream_with_error k))
      | (CtxDone e, Some (req, b)) \<Rightarrow>
          if done_first then Some (map_option (Pair (Some e)) (close_stream_with_error k))
          else Some (map_option (Pair None) (dispatch_delta req (k\<lparr>kr_inbox := b\<rparr>))))"

section \<open>The user outbox as a sink\<close>

text \<open>A message without the four fields the user runner stamps.\<close>

definition unstamp :: "message \<Rightarrow> message" where
  "unstamp m = m\<lparr>m_actor_stream_id := '''', m_actor_provided_index := 0,
     m_actor_provided_id := '''', m_actor_id := PUnset\<rparr>"

definition user_queued :: "user_runner \<Rightarrow> message list" where
  "user_queued r = map ur_message (tbuf_queue (un_outbox r))"

lemma write_bool_queue:
  "write_bool c1 c2 p x b = (ok, b') \<Longrightarrow>
   tbuf_queue b' = (if ok then tbuf_queue b @ [x] else tbuf_queue b)"
  by (auto simp: write_bool_def write_context_def chan_send_def drop_value_def plain_outcome_def
        outcome_ok_def buffer_write_context_outcome_def split: ctx_state.splits if_splits)

lemma unstamp_ordered: "unstamp (fst (apply_user_ordering m r)) = unstamp m"
  by (simp add: apply_user_ordering_def unstamp_def)

lemma user_publish_effect:
  assumes "user_publish c1 c2 p m r = (e, r')"
  shows "un_index r' = Suc (un_index r)" "un_stream_id r' = un_stream_id r"
    and "user_queued r' = user_queued r @ (if e = None then [fst (apply_user_ordering m r)] else [])"
proof -
  obtain m1 r1 where ordered: "apply_user_ordering m r = (m1, r1)" by fastforce
  obtain ok b where written: "write_bool c1 c2 p \<lparr>ur_message = m1, ur_error = None\<rparr> (un_outbox r1) = (ok, b)"
    by fastforce
  have fields: "un_index r1 = Suc (un_index r)" "un_stream_id r1 = un_stream_id r" "un_outbox r1 = un_outbox r"
    using ordered by (auto simp: apply_user_ordering_def)
  have result: "r' = r1\<lparr>un_outbox := b\<rparr>" "e = None \<longleftrightarrow> ok"
    using assms ordered written by (auto simp: user_publish_def split: if_splits)
  show "un_index r' = Suc (un_index r)" "un_stream_id r' = un_stream_id r"
    using result fields by simp_all
  show "user_queued r' = user_queued r @ (if e = None then [fst (apply_user_ordering m r)] else [])"
    using write_bool_queue [OF written] result fields ordered by (simp add: user_queued_def)
qed

lemma user_write_sends: "user_write c1 c2 p m r = (None, r') \<Longrightarrow> map unstamp (user_queued r') = map unstamp (user_queued r) @ [unstamp m]"
  using user_publish_effect(3) [of c1 c2 p m r None r'] by (simp add: user_write_def unstamp_ordered)

lemma user_write_refuses: "user_write c1 c2 p m r = (Some e, r') \<Longrightarrow> map unstamp (user_queued r') = map unstamp (user_queued r)"
  using user_publish_effect(3) [of c1 c2 p m r "Some e" r'] by (simp add: user_write_def)

interpretation uns: warning_sink "user_write c1 c2 p" "\<lambda>r. map unstamp (user_queued r)"
    "\<lambda>m. [unstamp m]" for c1 c2 p
  by unfold_locales (auto dest: user_write_sends user_write_refuses)

lemma interaction_write_effect:
  "interaction_write c1 c2 p ev r = (e, r') \<Longrightarrow>
   tbuf_queue (xr_outbox r') = tbuf_queue (xr_outbox r) @ (if e = None then [ev] else [])
   \<and> xr_index r' = xr_index r + (if e = None then 1 else 0)"
  using write_bool_queue [of c1 c2 p ev "xr_outbox r"]
  by (auto simp: interaction_write_def split: prod.splits if_splits)

interpretation ixs: event_sink "interaction_write c1 c2 p" "\<lambda>r. tbuf_queue (xr_outbox r)"
    "\<lambda>ev. [ev]" for c1 c2 p
  by unfold_locales (auto dest: interaction_write_effect)

text \<open>
  a batch of interaction events is written in order up to the first refusal: the outbox
  gains exactly a prefix of the batch, the whole of it when no error is returned.
\<close>

theorem interaction_batch_prefix:
  "let (e, r') = interaction_write_batch c1 c2 p evs r in
     \<exists>n. tbuf_queue (xr_outbox r') = tbuf_queue (xr_outbox r) @ take n evs
       \<and> (e \<noteq> None \<or> n = length evs)"
proof -
  obtain e r' where run: "send_each (interaction_write c1 c2 p) evs r = (e, r')" by fastforce
  have each: "concat (map (\<lambda>ev. [ev]) xs) = xs" for xs :: "interaction_event list" by simp
  show ?thesis
    using ixs.send_each_prefix [OF run] run unfolding interaction_write_batch_def each by auto
qed

text \<open>
  the context pressure warning reaches the user outbox at most once: over any sequence of
  ticks the queued messages are the ones before and, if the notifier has fired, the warning.
\<close>

theorem pressure_warning_once:
  assumes "\<not> pn_fired n"
    and "pressure_run count (Some (user_write c1 c2 p)) lss n r = (n', r')"
  shows "map unstamp (user_queued r')
    = map unstamp (user_queued r) @ (if pn_fired n' then [unstamp (pressure_interrupt n)] else [])"
  using uns.warned_once [OF assms] by simp

definition sample_notifier :: pressure_notifier where
  "sample_notifier = \<lparr>pn_max_tokens = 10, pn_threshold_positive = True, pn_threshold_tokens = 5,
     pn_warning = ''low'', pn_fired = False\<rparr>"

lemma pressure_warning_once_witness:
  "let (n', r') = pressure_run (\<lambda>_. 7) (Some (user_write CtxLive CtxLive True))
         [new_loop_state ModeTurnTaking [] True :: unit loop_state, new_loop_state ModeTurnTaking [] True]
         sample_notifier (new_user_runner 4 None) in
     pn_fired n' \<and> map unstamp (user_queued r') = [unstamp (pressure_interrupt sample_notifier)]"
proof -
  let ?ls = "new_loop_state ModeTurnTaking [] True :: unit loop_state"
  obtain n' r' where run: "pressure_run (\<lambda>_. 7) (Some (user_write CtxLive CtxLive True)) [?ls, ?ls]
      sample_notifier (new_user_runner 4 None) = (n', r')" by fastforce
  have "pn_fired n'"
    using run by (auto simp: sample_notifier_def pressure_execute_def over_threshold_def user_write_def
        user_publish_def write_bool_def write_context_def chan_send_def new_user_runner_def
        new_typed_buffer_def apply_user_ordering_def plain_outcome_def outcome_ok_def split: prod.splits)
  then show ?thesis
    using pressure_warning_once [OF _ run] run
    by (simp add: sample_notifier_def user_queued_def new_user_runner_def new_typed_buffer_def)
qed

section \<open>Numbering of user messages\<close>

text \<open>A run of the runner: its callers publish, the engine takes from the outbox.\<close>

datatype user_op = UserPublish ctx_state ctx_state bool message | UserTake

fun user_ops ::
    "user_op list \<Rightarrow> user_runner \<Rightarrow> message list \<times> message list \<times> user_runner" where
  "user_ops [] r = ([], [], r)"
| "user_ops (UserPublish c1 c2 p m # ops) r =
     (case user_publish c1 c2 p m r of
        (e, r1) \<Rightarrow> (case user_ops ops r1 of
           (acc, out, r') \<Rightarrow> (if e = None then m # acc else acc, out, r')))"
| "user_ops (UserTake # ops) r =
     (case read_buffer (un_outbox r) of
        None \<Rightarrow> user_ops ops r
      | Some (x, b) \<Rightarrow> (case user_ops ops (r\<lparr>un_outbox := b\<rparr>) of
           (acc, out, r') \<Rightarrow> (acc, ur_message x # out, r')))"

text \<open>Messages stamped by the runner with growing indexes, from \<^verbatim>\<open>lo\<close> up to before \<^verbatim>\<open>hi\<close>.\<close>

definition stamped :: "string \<Rightarrow> nat \<Rightarrow> nat \<Rightarrow> message list \<Rightarrow> bool" where
  "stamped s lo hi ms \<longleftrightarrow> sorted_wrt (<) (map m_actor_provided_index ms)
     \<and> list_all (\<lambda>m. m_actor_stream_id m = s \<and> m_actor_id m = PUser
         \<and> int lo \<le> m_actor_provided_index m \<and> m_actor_provided_index m < int hi
         \<and> m_actor_provided_id m = actor_message_id ''user'' s (nat (m_actor_provided_index m))) ms"

lemma stamped_snoc:
  "stamped s lo hi ms \<Longrightarrow> lo \<le> hi \<Longrightarrow> un_index r = hi \<Longrightarrow> un_stream_id r = s \<Longrightarrow>
   stamped s lo (Suc hi) (ms @ [fst (apply_user_ordering m r)])"
  by (auto simp: stamped_def apply_user_ordering_def sorted_wrt_append list_all_iff)

lemma stamped_wider: "stamped s lo hi ms \<Longrightarrow> stamped s lo (Suc hi) ms"
  by (fastforce simp: stamped_def list_all_iff)

lemma stamped_ids: "stamped s lo hi ms \<Longrightarrow> distinct (map m_actor_provided_id ms)"
proof (induction ms)
  case (Cons m ms)
  have "m_actor_provided_id k \<noteq> m_actor_provided_id m" if k: "k \<in> set ms" for k
  proof -
    have "m_actor_provided_index m < m_actor_provided_index k" "0 \<le> m_actor_provided_index m"
      and "m_actor_provided_id m = actor_message_id ''user'' s (nat (m_actor_provided_index m))"
      and "m_actor_provided_id k = actor_message_id ''user'' s (nat (m_actor_provided_index k))"
      using Cons.prems k by (simp_all add: stamped_def list_all_iff)
    then show ?thesis by simp
  qed
  moreover have "stamped s lo hi ms" using Cons.prems by (simp add: stamped_def)
  ultimately show ?case using Cons.IH by (simp, metis image_iff)
qed simp

lemma read_buffer_queue: "read_buffer b = Some (x, b') \<Longrightarrow> tbuf_queue b = x # tbuf_queue b'"
  by (auto simp: read_buffer_def split: list.splits)

lemma user_ops_stamped:
  "user_ops ops r = (acc, out, r') \<Longrightarrow> stamped s 0 (un_index r) (old @ user_queued r) \<Longrightarrow>
   un_stream_id r = s \<Longrightarrow>
   (\<exists>hi. stamped s 0 hi (old @ out @ user_queued r'))
   \<and> map unstamp (out @ user_queued r') = map unstamp (user_queued r @ acc)"
proof (induction ops r arbitrary: acc out r' old rule: user_ops.induct)
  case (1 r)
  then show ?case by auto
next
  case (2 c1 c2 p m ops r)
  obtain e r1 where pub: "user_publish c1 c2 p m r = (e, r1)" by fastforce
  obtain acc1 where rest: "user_ops ops r1 = (acc1, out, r')"
      "acc = (if e = None then m # acc1 else acc1)"
    using 2(2) pub by (auto split: prod.splits if_splits)
  note effect = user_publish_effect [OF pub]
  have "stamped s 0 (un_index r1) (old @ user_queued r1)"
    using stamped_snoc [OF 2(3) _ refl 2(4)] stamped_wider [OF 2(3)] effect by simp
  from 2(1) [OF pub [symmetric] rest(1) this] show ?case
    using effect rest(2) 2(4) by (auto simp: unstamp_ordered)
next
  case (3 ops r)
  show ?case
  proof (cases "read_buffer (un_outbox r)")
    case None
    then show ?thesis using 3 by simp
  next
    case (Some xb)
    obtain x b where xb: "xb = (x, b)" by fastforce
    let ?r1 = "r\<lparr>un_outbox := b\<rparr>"
    obtain out1 where rest: "user_ops ops ?r1 = (acc, out1, r')" "out = ur_message x # out1"
      using 3(3) Some xb by (auto split: prod.splits)
    have queue: "user_queued r = ur_message x # user_queued ?r1"
      using read_buffer_queue [of "un_outbox r" x b] Some xb by (simp add: user_queued_def)
    then show ?thesis
      using 3(2) [OF Some xb [symmetric] rest(1), of "old @ [ur_message x]"] 3(4,5) rest(2) by simp
  qed
qed

text \<open>
  whatever the callers publish and the engine takes, in whatever order, the messages taken
  and still queued are the accepted ones in order, with growing indexes of one stream and
  pairwise distinct identities.
\<close>

theorem user_messages_numbered:
  "let (acc, out, r') = user_ops ops (new_user_runner capacity random);
       ms = out @ user_queued r' in
     map unstamp ms = map unstamp acc
     \<and> sorted_wrt (<) (map m_actor_provided_index ms) \<and> distinct (map m_actor_provided_id ms)
     \<and> list_all (\<lambda>m. m_actor_stream_id m = must_stream_id ''user'' random \<and> m_actor_id m = PUser) ms"
proof -
  let ?r = "new_user_runner capacity random"
  obtain acc out r' where run: "user_ops ops ?r = (acc, out, r')" by (cases "user_ops ops ?r")
  have start: "user_queued ?r = []" "un_stream_id ?r = must_stream_id ''user'' random"
    by (simp_all add: new_user_runner_def user_queued_def new_typed_buffer_def)
  obtain hi where "stamped (must_stream_id ''user'' random) 0 hi (out @ user_queued r')"
    and "map unstamp (out @ user_queued r') = map unstamp acc"
    using user_ops_stamped [OF run, of "must_stream_id ''user'' random" "[]"] start
    by (auto simp: stamped_def)
  moreover from this(1) have "distinct (map m_actor_provided_id (out @ user_queued r'))"
    by (rule stamped_ids)
  ultimately show ?thesis
    using run by (auto simp: stamped_def list_all_iff Let_def)
qed

section \<open>What the readers of a run see\<close>

text \<open>What callers and the kernel goroutine do: open a reader, dispatch a delta, fail the run.\<close>

datatype kernel_op = OpenReader | Dispatch kernel_delta_request | FailRun

definition kernel_op_step :: "kernel_op \<Rightarrow> kernel_runner \<Rightarrow> kernel_runner option" where
  "kernel_op_step op k =
     (case op of
        OpenReader \<Rightarrow> Some (new_delta_event_reader k)
      | Dispatch req \<Rightarrow> dispatch_delta req k
      | FailRun \<Rightarrow> close_stream_with_error k)"

fun kernel_ops :: "kernel_op list \<Rightarrow> kernel_runner \<Rightarrow> kernel_runner option" where
  "kernel_ops [] k = Some k"
| "kernel_ops (op # ops) k = Option.bind (kernel_op_step op k) (kernel_ops ops)"

lemma kernel_ops_append:
  "kernel_ops (as @ bs) k = Option.bind (kernel_ops as k) (kernel_ops bs)"
  by (induction as arbitrary: k) (auto simp: bind_assoc split: bind_split)

definition ref_ok :: "nat option \<Rightarrow> 'a reader_chan list \<Rightarrow> bool" where
  "ref_ok i chans \<longleftrightarrow> (\<forall>n. i = Some n \<longrightarrow> n < length chans \<and> \<not> rd_closed (chans ! n))"

definition kernel_ok :: "kernel_runner \<Rightarrow> bool" where
  "kernel_ok k \<longleftrightarrow> ref_ok (kr_event_ch k) (kr_event_chans k)
     \<and> ref_ok (kr_message_ch k) (kr_message_chans k)"

lemma ref_ok_none [simp]: "ref_ok None chans"
  by (simp add: ref_ok_def)

lemma with_send:
  "ref_ok i chans \<Longrightarrow> \<exists>chans'. with_chan (reader_send x) i chans = Some chans' \<and> ref_ok i chans'
     \<and> (i = None \<longrightarrow> chans' = chans)
     \<and> (\<forall>n. i = Some n \<longrightarrow> chans' = chans[n := (chans ! n)\<lparr>rd_sent := rd_sent (chans ! n) @ [x]\<rparr>])"
  by (cases i) (auto simp: with_chan_def reader_send_def ref_ok_def)

lemma with_close:
  "ref_ok i chans \<Longrightarrow> \<exists>chans'. with_chan reader_close i chans = Some chans'
     \<and> (i = None \<longrightarrow> chans' = chans)
     \<and> (\<forall>n. i = Some n \<longrightarrow> chans' = chans[n := (chans ! n)\<lparr>rd_closed := True\<rparr>])"
  by (cases i) (auto simp: with_chan_def reader_close_def ref_ok_def)

definition is_loop_end :: "kernel_delta_request \<Rightarrow> bool" where
  "is_loop_end req \<longleftrightarrow> sm_value (kd_delta req) = Some VLoopEnd"

definition streamed :: "kernel_delta_request \<Rightarrow> stream_message list" where
  "streamed req = (if sm_type (kd_delta req) \<noteq> StreamSystemFullMessage then [kd_delta req] else [])"

definition note_sent :: "stream_message list \<Rightarrow> kernel_runner \<Rightarrow> stream_message reader_chan list" where
  "note_sent ds k =
     (case kr_event_ch k of
        None \<Rightarrow> kr_event_chans k
      | Some n \<Rightarrow> (kr_event_chans k)[n := (kr_event_chans k ! n)
                    \<lparr>rd_sent := rd_sent (kr_event_chans k ! n) @ ds\<rparr>])"

lemma forward_delta_ok:
  assumes "kernel_ok k"
  shows "\<exists>k1. forward_delta (kd_delta req) k = Some k1 \<and> kernel_ok k1
    \<and> k1 = k\<lparr>kr_event_chans := note_sent (streamed req) k\<rparr>"
proof (cases "sm_type (kd_delta req) = StreamSystemFullMessage")
  case True
  then have "note_sent (streamed req) k = kr_event_chans k"
    by (cases "kr_event_ch k") (simp_all add: note_sent_def streamed_def)
  then show ?thesis using True assms by (simp add: forward_delta_def)
next
  case False
  obtain chans where
      "with_chan (reader_send (kd_delta req)) (kr_event_ch k) (kr_event_chans k) = Some chans"
      "ref_ok (kr_event_ch k) chans" "chans = note_sent (streamed req) k"
    using with_send [of "kr_event_ch k" "kr_event_chans k" "kd_delta req"] assms False
    by (cases "kr_event_ch k") (auto simp: kernel_ok_def note_sent_def streamed_def)
  then show ?thesis using False assms by (simp add: forward_delta_def kernel_ok_def)
qed

lemma close_event_chan_ok:
  assumes "kernel_ok k"
  shows "\<exists>chans. close_event_chan k = Some (k\<lparr>kr_event_chans := chans, kr_event_ch := None\<rparr>)
    \<and> length chans = length (kr_event_chans k)
    \<and> (\<forall>n. chans ! n = (if kr_event_ch k = Some n then (kr_event_chans k ! n)\<lparr>rd_closed := True\<rparr>
                        else kr_event_chans k ! n))"
proof -
  obtain chans where chans: "with_chan reader_close (kr_event_ch k) (kr_event_chans k) = Some chans"
      "kr_event_ch k = None \<longrightarrow> chans = kr_event_chans k"
      "\<forall>n. kr_event_ch k = Some n \<longrightarrow> chans = (kr_event_chans k)[n := (kr_event_chans k ! n)\<lparr>rd_closed := True\<rparr>]"
    using with_close [of "kr_event_ch k" "kr_event_chans k"] assms by (auto simp: kernel_ok_def)
  then show ?thesis
    using assms
    by (intro exI [of _ chans], cases "kr_event_ch k")
      (auto simp: close_event_chan_def kernel_ok_def ref_ok_def nth_list_update)
qed

lemma close_message_chan_ok:
  assumes "kernel_ok k"
  shows "\<exists>chans. close_message_chan k = Some (k\<lparr>kr_message_chans := chans, kr_message_ch := None\<rparr>)"
proof -
  obtain chans where "with_chan reader_close (kr_message_ch k) (kr_message_chans k) = Some chans"
    using with_close [of "kr_message_ch k" "kr_message_chans k"] assms by (auto simp: kernel_ok_def)
  then show ?thesis by (intro exI [of _ chans]) (simp add: close_message_chan_def)
qed

lemma dispatch_open:
  assumes "kernel_ok k" "\<not> is_loop_end req"
  shows "\<exists>k1. dispatch_delta req k = Some k1 \<and> kernel_ok k1
    \<and> kr_event_ch k1 = kr_event_ch k \<and> kr_event_chans k1 = note_sent (streamed req) k"
proof -
  obtain k1 where k1: "forward_delta (kd_delta req) k = Some k1" "kernel_ok k1"
      "k1 = k\<lparr>kr_event_chans := note_sent (streamed req) k\<rparr>"
    using forward_delta_ok [OF assms(1)] by blast
  show ?thesis
  proof (cases "\<exists>src m. sm_value (kd_delta req) = Some (VInferenceResult src m)")
    case True
    then obtain src m where result: "sm_value (kd_delta req) = Some (VInferenceResult src m)" by blast
    obtain chans where "with_chan (reader_send (src, m)) (kr_message_ch k1) (kr_message_chans k1) = Some chans"
        "ref_ok (kr_message_ch k1) chans"
      using with_send [of "kr_message_ch k1" "kr_message_chans k1" "(src, m)"] k1(2)
      by (auto simp: kernel_ok_def)
    then have "dispatch_delta req k = Some (k1\<lparr>kr_message_chans := chans\<rparr>)"
        "kernel_ok (k1\<lparr>kr_message_chans := chans\<rparr>)"
      using k1(1,2) result by (simp_all add: dispatch_delta_def kernel_ok_def)
    then show ?thesis using k1(3) by simp
  next
    case False
    then have "dispatch_delta req k = Some k1"
      using k1(1) assms(2)
      by (auto simp: dispatch_delta_def is_loop_end_def split: option.split stream_value.split)
    then show ?thesis using k1(2,3) by simp
  qed
qed

lemma dispatch_end:
  assumes "kernel_ok k" "is_loop_end req"
  shows "\<exists>k1. dispatch_delta req k = Some k1 \<and> kernel_ok k1 \<and> kr_event_ch k1 = None
    \<and> length (kr_event_chans k1) = length (kr_event_chans k)
    \<and> (\<forall>n. kr_event_chans k1 ! n
         = (if kr_event_ch k = Some n then (note_sent (streamed req) k ! n)\<lparr>rd_closed := True\<rparr>
            else kr_event_chans k ! n))"
proof -
  obtain k1 where k1: "forward_delta (kd_delta req) k = Some k1" "kernel_ok k1"
      "k1 = k\<lparr>kr_event_chans := note_sent (streamed req) k\<rparr>"
    using forward_delta_ok [OF assms(1)] by blast
  obtain chans where closed: "close_event_chan k1 = Some (k1\<lparr>kr_event_chans := chans, kr_event_ch := None\<rparr>)"
      "length chans = length (kr_event_chans k1)"
      "\<forall>n. chans ! n = (if kr_event_ch k1 = Some n then (kr_event_chans k1 ! n)\<lparr>rd_closed := True\<rparr>
                        else kr_event_chans k1 ! n)"
    using close_event_chan_ok [OF k1(2)] by blast
  let ?k2 = "k1\<lparr>kr_event_chans := chans, kr_event_ch := None\<rparr>"
  have "kernel_ok ?k2" using k1(2) by (simp add: kernel_ok_def)
  then obtain ms where "close_message_chan ?k2 = Some (?k2\<lparr>kr_message_chans := ms, kr_message_ch := None\<rparr>)"
    using close_message_chan_ok by blast
  moreover have "note_sent (streamed req) k ! n = kr_event_chans k ! n" if "kr_event_ch k \<noteq> Some n" for n
    using that by (cases "kr_event_ch k") (auto simp: note_sent_def)
  moreover have "length (note_sent (streamed req) k) = length (kr_event_chans k)"
    by (cases "kr_event_ch k") (simp_all add: note_sent_def)
  ultimately show ?thesis
    using k1 closed assms(2) by (auto simp: dispatch_delta_def is_loop_end_def kernel_ok_def)
qed

lemma dispatches_open:
  assumes "kernel_ok k" "kr_event_ch k = Some n" "list_all (\<lambda>r. \<not> is_loop_end r) reqs"
  shows "\<exists>k1. kernel_ops (map Dispatch reqs) k = Some k1 \<and> kernel_ok k1 \<and> kr_event_ch k1 = Some n
    \<and> kr_event_chans k1 ! n = (kr_event_chans k ! n)
        \<lparr>rd_sent := rd_sent (kr_event_chans k ! n) @ concat (map streamed reqs)\<rparr>"
  using assms
proof (induction reqs arbitrary: k)
  case (Cons req reqs)
  obtain k1 where k1: "dispatch_delta req k = Some k1" "kernel_ok k1" "kr_event_ch k1 = Some n"
      "kr_event_chans k1 = note_sent (streamed req) k"
    using dispatch_open [OF Cons.prems(1), of req] Cons.prems(2,3) by auto
  have "n < length (kr_event_chans k)" using Cons.prems(1,2) by (simp add: kernel_ok_def ref_ok_def)
  then have "kr_event_chans k1 ! n = (kr_event_chans k ! n)
      \<lparr>rd_sent := rd_sent (kr_event_chans k ! n) @ streamed req\<rparr>"
    using k1(4) Cons.prems(2) by (simp add: note_sent_def)
  then show ?case
    using Cons.IH [OF k1(2,3)] Cons.prems(3) k1(1) by (simp add: kernel_op_step_def)
qed simp

lemma dispatches_detached:
  assumes "kernel_ok k" "kr_event_ch k = None"
  shows "\<exists>k1. kernel_ops (map Dispatch reqs) k = Some k1 \<and> kernel_ok k1
    \<and> kr_event_ch k1 = None \<and> (\<forall>n. kr_event_chans k1 ! n = kr_event_chans k ! n)"
  using assms
proof (induction reqs arbitrary: k)
  case (Cons req reqs)
  have "\<exists>k1. dispatch_delta req k = Some k1 \<and> kernel_ok k1 \<and> kr_event_ch k1 = None
      \<and> (\<forall>n. kr_event_chans k1 ! n = kr_event_chans k ! n)"
    using dispatch_open [OF Cons.prems(1), of req] dispatch_end [OF Cons.prems(1), of req] Cons.prems(2)
    by (cases "is_loop_end req") (auto simp: note_sent_def)
  then obtain k1 where k1: "dispatch_delta req k = Some k1" "kernel_ok k1" "kr_event_ch k1 = None"
      "\<forall>n. kr_event_chans k1 ! n = kr_event_chans k ! n"
    by blast
  show ?case using Cons.IH [OF k1(2,3)] k1 by (auto simp: kernel_op_step_def)
qed simp

lemma new_reader_ok:
  "kernel_ok k \<Longrightarrow> kernel_ok (new_delta_event_reader k)"
  by (auto simp: kernel_ok_def new_delta_event_reader_def ref_ok_def nth_append)

text \<open>
  a reader opened on a sound kernel runner receives every streaming delta dispatched in the
  run, in order, up to and including LOOP.END, after which its channel is closed exactly once
  and what is dispatched later neither reaches it nor panics.
\<close>

theorem kernel_stream_delivered:
  assumes "kernel_ok k" "list_all (\<lambda>r. \<not> is_loop_end r) reqs" "is_loop_end e"
  shows "\<exists>k'. kernel_ops (OpenReader # map Dispatch (reqs @ e # later)) k = Some k' \<and> kernel_ok k'
    \<and> kr_event_chans k' ! length (kr_event_chans k)
        = \<lparr>rd_sent = concat (map streamed (reqs @ [e])), rd_closed = True\<rparr>"
proof -
  let ?n = "length (kr_event_chans k)" and ?k0 = "new_delta_event_reader k"
  have k0: "kernel_ok ?k0" "kr_event_ch ?k0 = Some ?n"
      "kr_event_chans ?k0 ! ?n = \<lparr>rd_sent = [], rd_closed = False\<rparr>"
    using new_reader_ok [OF assms(1)] by (simp_all add: new_delta_event_reader_def)
  obtain k1 where k1: "kernel_ops (map Dispatch reqs) ?k0 = Some k1" "kernel_ok k1" "kr_event_ch k1 = Some ?n"
      "kr_event_chans k1 ! ?n = \<lparr>rd_sent = concat (map streamed reqs), rd_closed = False\<rparr>"
    using dispatches_open [OF k0(1,2) assms(2)] k0(3) by auto
  obtain k2 where k2: "dispatch_delta e k1 = Some k2" "kernel_ok k2" "kr_event_ch k2 = None"
      "kr_event_chans k2 ! ?n = (note_sent (streamed e) k1 ! ?n)\<lparr>rd_closed := True\<rparr>"
    using dispatch_end [OF k1(2) assms(3)] k1(3) by auto
  have "?n < length (kr_event_chans k1)" using k1(2,3) by (simp add: kernel_ok_def ref_ok_def)
  then have sent: "kr_event_chans k2 ! ?n
      = \<lparr>rd_sent = concat (map streamed (reqs @ [e])), rd_closed = True\<rparr>"
    using k2(4) k1(3,4) by (simp add: note_sent_def)
  obtain k3 where "kernel_ops (map Dispatch later) k2 = Some k3" "kernel_ok k3"
      "kr_event_chans k3 ! ?n = kr_event_chans k2 ! ?n"
    using dispatches_detached [OF k2(2,3)] by blast
  then show ?thesis
    using k1(1) k2(1) sent by (auto simp: kernel_ops_append kernel_op_step_def)
qed

lemma kernel_stream_delivered_witness:
  "\<exists>k'. kernel_ops (OpenReader # map Dispatch ([\<lparr>kd_source = PModel, kd_delta = mk_delta StreamTextDelta RoleAssistant (VTextDelta ''a'')\<rparr>,
          \<lparr>kd_source = PModel, kd_delta = full_message_delta PModel zero_message\<rparr>]
          @ \<lparr>kd_source = PModel, kd_delta = mk_delta StreamLoopEnd RoleAssistant VLoopEnd\<rparr>
          # [\<lparr>kd_source = PModel, kd_delta = mk_delta StreamLoopEnd RoleAssistant VLoopEnd\<rparr>]))
        (new_kernel_runner 8) = Some k' \<and> kernel_ok k'
    \<and> kr_event_chans k' ! 0
        = \<lparr>rd_sent = [mk_delta StreamTextDelta RoleAssistant (VTextDelta ''a''),
                        mk_delta StreamLoopEnd RoleAssistant VLoopEnd], rd_closed = True\<rparr>"
  using kernel_stream_delivered [of "new_kernel_runner 8"
      "[\<lparr>kd_source = PModel, kd_delta = mk_delta StreamTextDelta RoleAssistant (VTextDelta ''a'')\<rparr>,
        \<lparr>kd_source = PModel, kd_delta = full_message_delta PModel zero_message\<rparr>]"
      "\<lparr>kd_source = PModel, kd_delta = mk_delta StreamLoopEnd RoleAssistant VLoopEnd\<rparr>"
      "[\<lparr>kd_source = PModel, kd_delta = mk_delta StreamLoopEnd RoleAssistant VLoopEnd\<rparr>]"]
  by (simp add: kernel_ok_def new_kernel_runner_def is_loop_end_def mk_delta_def
        zero_stream_message_def full_message_delta_def streamed_def)

end
