(* ===== verification/Tool_Runner.thy ===== *)
theory Tool_Runner
  imports Typed_Buffer Reconstruction Go_Format "HOL-Library.Multiset"
begin

text \<open>
  The tool participant, \<^verbatim>\<open>participants/tool_runner.go\<close>: the admission of call identities, the
  concurrent execution of a batch with its one acknowledgement, and the delta sequence that
  carries the results to the engine. The executor is the application's: what it answers for a
  call is a parameter, and the order in which the calls complete, the acknowledgement timer
  fires and the context ends is an explicit schedule.

  The outbox is the list of deltas the runner wrote: a tool delta is written with
  \<^verbatim>\<open>WriteWaitContext\<close>, which never drops it (\<^verbatim>\<open>Typed_Buffer\<close>).
\<close>

section \<open>Admission\<close>

text \<open>The loop of \<^verbatim>\<open>admitCalls\<close> over the identities admitted so far.\<close>

fun admit_loop :: "tool_call list \<Rightarrow> string set \<Rightarrow> tool_call list \<times> string set" where
  "admit_loop [] seen = ([], seen)"
| "admit_loop (c # cs) seen =
     (if tc_id c \<noteq> ''''
      then (if tc_id c \<in> seen then admit_loop cs seen
            else (case admit_loop cs (insert (tc_id c) seen) of (out, seen') \<Rightarrow> (c # out, seen')))
      else (case admit_loop cs seen of (out, seen') \<Rightarrow> (c # out, seen')))"

definition admit_calls :: "tool_call list \<Rightarrow> string set \<Rightarrow> tool_call list \<times> string set" where
  "admit_calls calls seen = (if length calls = 0 then (calls, seen) else admit_loop calls seen)"

section \<open>A batch in execution\<close>

type_synonym outcome = "go_error + tool_call_response"

record exec_batch =
  xb_calls :: "tool_call list"
  xb_results :: "tool_call_response list"
  xb_errs :: "go_error option list"
  xb_pending :: "nat \<rightharpoonup> tool_call"
  xb_ack_sent :: bool

definition zero_response :: tool_call_response where
  "zero_response = \<lparr>tr_tool_call_id = '''', tr_name = '''', tr_content = '''', tr_parts = []\<rparr>"

definition batch_record :: "nat \<Rightarrow> outcome \<Rightarrow> exec_batch \<Rightarrow> exec_batch" where
  "batch_record i out b =
     (let b1 = (case out of
                  Inl e \<Rightarrow> b\<lparr>xb_errs := (xb_errs b)[i := Some (ToolFailed (tc_name (xb_calls b ! i)) e)]\<rparr>
                | Inr r \<Rightarrow> b\<lparr>xb_results := (xb_results b)[i := r]\<rparr>)
      in b1\<lparr>xb_pending := (xb_pending b1)(i := None)\<rparr>)"

definition pending_calls :: "exec_batch \<Rightarrow> tool_call list" where
  "pending_calls b = concat (map (\<lambda>i. case xb_pending b i of Some c \<Rightarrow> [c] | None \<Rightarrow> [])
     [0..<length (xb_calls b)])"

text \<open>
  The runner's configuration: whether a threshold is set (a positive duration), which tools are
  long-running (\<^verbatim>\<open>None\<close> for no predicate), and whether a callback is configured.
\<close>

record ack_config =
  ac_threshold :: bool
  ac_long_running :: "(string \<Rightarrow> bool) option"
  ac_send :: bool

definition is_long_running :: "ack_config \<Rightarrow> tool_call \<Rightarrow> bool" where
  "is_long_running cfg c \<longleftrightarrow>
     ac_threshold cfg \<and> (case ac_long_running cfg of None \<Rightarrow> False | Some p \<Rightarrow> p (tc_name c))"

definition long_running_calls :: "ack_config \<Rightarrow> tool_call list \<Rightarrow> nat \<rightharpoonup> tool_call" where
  "long_running_calls cfg calls =
     (\<lambda>i. if i < length calls \<and> is_long_running cfg (calls ! i) then Some (calls ! i) else None)"

definition has_pending :: "exec_batch \<Rightarrow> bool" where
  "has_pending b \<longleftrightarrow> list_ex (\<lambda>i. xb_pending b i \<noteq> None) [0..<length (xb_calls b)]"

text \<open>
  \<^verbatim>\<open>collectBatch\<close>. A schedule entry is the case its \<^verbatim>\<open>select\<close> took: a worker's outcome, the
  timer (with what the context answers then), or the end of the context. An entry whose case
  is no longer selectable (its channel variable is nil) is passed over.
\<close>

datatype collect_event = OutcomeOf nat | AckTimer ctx_state | ContextEnded

record collecting =
  cl_batch :: exec_batch
  cl_timer :: bool
  cl_watching :: bool
  cl_completed :: nat
  cl_acks :: "tool_call list list"

definition acknowledge_pending :: "ack_config \<Rightarrow> ctx_state \<Rightarrow> collecting \<Rightarrow> collecting" where
  "acknowledge_pending cfg c s =
     (if xb_ack_sent (cl_batch s) \<or> \<not> has_pending (cl_batch s) \<or> ctx_err c \<noteq> None then s
      else (let s1 = s\<lparr>cl_batch := (cl_batch s)\<lparr>xb_ack_sent := True\<rparr>\<rparr>
            in if ac_send cfg then s1\<lparr>cl_acks := cl_acks s1 @ [pending_calls (cl_batch s1)]\<rparr> else s1))"

definition collect_step ::
    "ack_config \<Rightarrow> (nat \<Rightarrow> outcome) \<Rightarrow> collect_event \<Rightarrow> collecting \<Rightarrow> collecting" where
  "collect_step cfg outcomes ev s =
     (case ev of
        OutcomeOf i \<Rightarrow>
          s\<lparr>cl_batch := batch_record i (outcomes i) (cl_batch s), cl_completed := Suc (cl_completed s)\<rparr>
      | AckTimer c \<Rightarrow>
          if cl_timer s then (acknowledge_pending cfg c s)\<lparr>cl_timer := False\<rparr> else s
      | ContextEnded \<Rightarrow>
          if cl_watching s then s\<lparr>cl_watching := False, cl_timer := False\<rparr> else s)"

fun collect_batch ::
    "ack_config \<Rightarrow> (nat \<Rightarrow> outcome) \<Rightarrow> collect_event list \<Rightarrow> collecting \<Rightarrow> collecting" where
  "collect_batch cfg outcomes [] s = s"
| "collect_batch cfg outcomes (ev # evs) s =
     (if cl_completed s < length (xb_calls (cl_batch s))
      then collect_batch cfg outcomes evs (collect_step cfg outcomes ev s) else s)"

definition start_batch :: "ack_config \<Rightarrow> tool_call list \<Rightarrow> exec_batch" where
  "start_batch cfg calls =
     \<lparr>xb_calls = calls, xb_results = replicate (length calls) zero_response,
      xb_errs = replicate (length calls) None, xb_pending = long_running_calls cfg calls,
      xb_ack_sent = False\<rparr>"

definition start_collecting :: "ack_config \<Rightarrow> tool_call list \<Rightarrow> collecting" where
  "start_collecting cfg calls =
     \<lparr>cl_batch = start_batch cfg calls, cl_timer = has_pending (start_batch cfg calls),
      cl_watching = True, cl_completed = 0, cl_acks = []\<rparr>"

text \<open>\<^verbatim>\<open>errors.Join\<close> discards nil errors and is nil when nothing is left.\<close>

definition join_errors :: "go_error option list \<Rightarrow> go_error option" where
  "join_errors errs =
     (case concat (map (\<lambda>e. case e of None \<Rightarrow> [] | Some x \<Rightarrow> [x]) errs) of
        [] \<Rightarrow> None | es \<Rightarrow> Some (JoinedErrors es))"

text \<open>
  \<^verbatim>\<open>executeBatch\<close>: the error or the results, the acknowledgements requested, and the identities
  admitted. The executor sees an admitted call, so outcomes are given for those.
\<close>

definition execute_batch ::
    "ack_config \<Rightarrow> (tool_call \<Rightarrow> outcome) \<Rightarrow> collect_event list \<Rightarrow> tool_call list \<Rightarrow> string set
     \<Rightarrow> tool_call_response list result \<times> tool_call list list \<times> string set" where
  "execute_batch cfg executor schedule calls seen =
     (case admit_calls calls seen of
        (admitted, seen') \<Rightarrow>
          if length admitted = 0 then (Inr [], [], seen')
          else (let s = collect_batch cfg (\<lambda>i. executor (admitted ! i)) schedule
                          (start_collecting cfg admitted)
                in (case join_errors (xb_errs (cl_batch s)) of
                      Some e \<Rightarrow> Inl e
                    | None \<Rightarrow> Inr (xb_results (cl_batch s)), cl_acks s, seen')))"

section \<open>Emitting results\<close>

text \<open>
  A stream writer: its tags, its next index and the deltas written so far.
\<close>

record stream_writer =
  sw_pass :: int
  sw_stream :: string
  sw_call :: string
  sw_index :: nat

definition sw_write :: "stream_message \<Rightarrow> stream_writer \<Rightarrow> stream_message \<times> stream_writer" where
  "sw_write m w =
     (m\<lparr>sm_actor_stream_id := sw_stream w, sm_actor_provided_index := int (sw_index w),
        sm_actor_provided_id := actor_message_id ''tool'' (sw_stream w) (sw_index w),
        sm_actor_id := PTool, sm_loop_pass_id := sw_pass w\<rparr>,
      w\<lparr>sw_index := Suc (sw_index w)\<rparr>)"

definition sw_content :: "stream_type \<Rightarrow> stream_value \<Rightarrow> stream_writer \<Rightarrow> stream_message \<times> stream_writer" where
  "sw_content ty v w = sw_write ((mk_delta ty RoleTool v)\<lparr>sm_tool_call_id := sw_call w\<rparr>) w"

fun sw_contents ::
    "(stream_type \<times> stream_value) list \<Rightarrow> stream_writer \<Rightarrow> stream_message list \<times> stream_writer" where
  "sw_contents [] w = ([], w)"
| "sw_contents ((ty, v) # vs) w =
     (case sw_content ty v w of (m, w1) \<Rightarrow> (case sw_contents vs w1 of (ms, w2) \<Rightarrow> (m # ms, w2)))"

definition text_boundaries :: "string \<Rightarrow> (stream_type \<times> stream_value) list" where
  "text_boundaries text =
     (StreamTextStart, VTextStart)
       # (if text \<noteq> '''' then [(StreamTextDelta, VTextDelta text)] else [])
       @ [(StreamTextEnd, VTextEnd)]"

definition binary_boundaries ::
    "byte list \<Rightarrow> (stream_type \<times> stream_value) list \<Rightarrow> (stream_type \<times> stream_value) list" where
  "binary_boundaries payload triple = (if length payload = 0 then [] else triple)"

text \<open>\<^verbatim>\<open>emitContentPart\<close>; the boundaries are empty exactly when it reports false.\<close>

fun part_boundaries :: "content_part \<Rightarrow> (stream_type \<times> stream_value) list" where
  "part_boundaries (TextPart t) = text_boundaries t"
| "part_boundaries (ImagePart _ b ty) = binary_boundaries b
     [(StreamImageStart, VImageStart ty), (StreamImageDelta, VImageDelta b), (StreamImageEnd, VImageEnd)]"
| "part_boundaries (AudioPart _ b _) = binary_boundaries b
     [(StreamAudioStart, VAudioStart), (StreamAudioDelta, VAudioDelta b ''''), (StreamAudioEnd, VAudioEnd)]"
| "part_boundaries (VideoPart _ b ty) = binary_boundaries b
     [(StreamVideoStart, VVideoStart ty), (StreamVideoDelta, VVideoDelta b), (StreamVideoEnd, VVideoEnd)]"
| "part_boundaries (FilePart _ b n ty) = binary_boundaries b
     [(StreamFileStart, VFileStart ty n), (StreamFileDelta, VFileDelta b), (StreamFileEnd, VFileEnd)]"
| "part_boundaries _ = []"

definition result_boundaries :: "tool_call_response \<Rightarrow> (stream_type \<times> stream_value) list" where
  "result_boundaries r =
     (let emitted = (if length (tr_parts r) > 0 then concat (map part_boundaries (tr_parts r))
                     else if tr_content r \<noteq> '''' then text_boundaries (tr_content r) else [])
      in if emitted = [] then [(StreamTextStart, VTextStart), (StreamTextEnd, VTextEnd)] else emitted)"

definition emit_result :: "tool_call_response \<Rightarrow> stream_writer \<Rightarrow> stream_message list \<times> stream_writer" where
  "emit_result r w = sw_contents (result_boundaries r) w"

text \<open>
  \<^verbatim>\<open>emitResultDeltas\<close>; the random suffixes of the stream identities are given, one for the
  envelope and one per result.
\<close>

fun emit_calls :: "int \<Rightarrow> (tool_call_response \<times> byte list option) list \<Rightarrow> stream_message list" where
  "emit_calls pass [] = []"
| "emit_calls pass ((r, random) # rs) =
     fst (emit_result r \<lparr>sw_pass = pass, sw_stream = must_stream_id ''tool-call'' random,
                         sw_call = tr_tool_call_id r, sw_index = 0\<rparr>)
     @ emit_calls pass rs"

definition emit_result_deltas ::
    "byte list option \<Rightarrow> int \<Rightarrow> (tool_call_response \<times> byte list option) list \<Rightarrow> stream_message list" where
  "emit_result_deltas random pass rs =
     (let w = \<lparr>sw_pass = pass, sw_stream = must_stream_id ''tool-msg'' random, sw_call = '''', sw_index = 0\<rparr>;
          (first, w1) = sw_write (mk_delta StreamMessageStart RoleTool VMessageStart) w;
          (last_one, w2) = sw_write (mk_delta StreamMessageEnd RoleTool
                             (VMessageEnd (Some (new_message_end_value zero_usage)))) w1
      in first # emit_calls pass rs @ [last_one])"

section \<open>The runner\<close>

record tool_runner =
  tn_inbox :: "tool_batch_request typed_buffer"
  tn_outbox :: "stream_message list"
  tn_pass :: int
  tn_admitted :: "string set"

definition new_tool_runner :: "int \<Rightarrow> tool_runner" where
  "new_tool_runner capacity =
     \<lparr>tn_inbox = new_typed_buffer capacity, tn_outbox = [], tn_pass = 0, tn_admitted = {}\<rparr>"

definition tool_error_delta :: "(go_error \<Rightarrow> string) \<Rightarrow> byte list option \<Rightarrow> int \<Rightarrow> go_error \<Rightarrow> stream_message" where
  "tool_error_delta render random pass e =
     (let s = must_stream_id ''tool-error'' random in
      zero_stream_message\<lparr>sm_type := StreamError,
        sm_value := Some (VError (Some (new_tool_execution_error_value render e))),
        sm_actor_id := PTool, sm_actor_stream_id := s, sm_actor_provided_index := 0,
        sm_actor_provided_id := ''tool-'' @ s @ ''-0'', sm_loop_pass_id := pass\<rparr>)"

text \<open>
  \<^verbatim>\<open>Tick\<close> after its read: the batch is executed under its own context and its outcome is
  written. \<^verbatim>\<open>draw\<close> gives the random suffixes in the order they are drawn.
\<close>

definition tool_batch_turn ::
    "ack_config \<Rightarrow> (go_error \<Rightarrow> string) \<Rightarrow> (nat \<Rightarrow> byte list option) \<Rightarrow> (tool_call \<Rightarrow> outcome)
     \<Rightarrow> collect_event list \<Rightarrow> tool_batch_request \<Rightarrow> tool_runner \<Rightarrow> tool_call list list \<times> tool_runner" where
  "tool_batch_turn cfg render draw executor schedule req t =
     (case execute_batch cfg executor schedule (tb_calls req) (tn_admitted t) of
        (outcome, acks, seen') \<Rightarrow>
          (let t1 = t\<lparr>tn_pass := tb_loop_pass_id req, tn_admitted := seen'\<rparr>
           in (acks,
               case outcome of
                 Inl e \<Rightarrow> t1\<lparr>tn_outbox := tn_outbox t1 @ [tool_error_delta render (draw 0) (tn_pass t1) e]\<rparr>
               | Inr results \<Rightarrow>
                   if length results > 0
                   then t1\<lparr>tn_outbox := tn_outbox t1
                            @ emit_result_deltas (draw 0) (tn_pass t1)
                                (zip results (map (\<lambda>i. draw (Suc i)) [0..<length results]))\<rparr>
                   else t1)))"

definition tool_tick ::
    "bool \<Rightarrow> ctx_state \<Rightarrow> ack_config \<Rightarrow> (go_error \<Rightarrow> string) \<Rightarrow> (nat \<Rightarrow> byte list option)
     \<Rightarrow> (tool_call \<Rightarrow> outcome) \<Rightarrow> collect_event list \<Rightarrow> tool_runner
     \<Rightarrow> (go_error option \<times> tool_call list list \<times> tool_runner) option" where
  "tool_tick read_first c cfg render draw executor schedule t =
     (case read_context read_first c (tn_inbox t) of
        None \<Rightarrow> None
      | Some (Inl e, b) \<Rightarrow> Some (Some e, [], t\<lparr>tn_inbox := b\<rparr>)
      | Some (Inr req, b) \<Rightarrow>
          (case tool_batch_turn cfg render draw executor schedule req (t\<lparr>tn_inbox := b\<rparr>) of
             (acks, t') \<Rightarrow> Some (None, acks, t')))"

section \<open>Results survive the delta stream\<close>

text \<open>What one content value does to the state of its tool.\<close>

definition apply_content_value :: "stream_value \<Rightarrow> tool_reconstruction \<Rightarrow> tool_reconstruction" where
  "apply_content_value v st =
     (case start_tool_content (Some v) of
        Some f \<Rightarrow> st\<lparr>tl_media := f (tl_media st)\<rparr>
      | None \<Rightarrow> apply_tool_content (Some v) st)"

definition values_of :: "(stream_type \<times> stream_value) list \<Rightarrow> stream_value list" where
  "values_of bs = map snd bs"

definition result_state :: "tool_call_response \<Rightarrow> tool_reconstruction" where
  "result_state r = fold apply_content_value (values_of (result_boundaries r)) empty_tool_reconstruction"

lemma sw_content_key:
  "sm_value (fst (sw_content ty v w)) = Some v"
  "sm_tool_call_id (fst (sw_content ty v w)) = sw_call w"
  "sw_call (snd (sw_content ty v w)) = sw_call w"
  by (simp_all add: sw_content_def sw_write_def mk_delta_def)

lemma change_known:
  "bt_per_tool b i = Some st \<Longrightarrow> change_tool i f b = b\<lparr>bt_per_tool := (bt_per_tool b)(i \<mapsto> f st)\<rparr>"
  by (simp add: change_tool_def)

lemma apply_content_known:
  assumes "bt_per_tool b i = Some st" "sm_value d = Some v" "sm_tool_call_id d = i" "v \<noteq> VMessageStart"
  shows "apply_tool_delta d b = b\<lparr>bt_per_tool := (bt_per_tool b)(i \<mapsto> apply_content_value v st)\<rparr>"
  using assms
  by (auto simp: apply_tool_delta_def apply_content_value_def ensure_tool_def change_known split: option.split)

lemma emit_known:
  assumes "bt_per_tool b (sw_call w) = Some st" "VMessageStart \<notin> set (values_of bs)"
  shows "fold apply_tool_delta (fst (sw_contents bs w)) b
    = b\<lparr>bt_per_tool := (bt_per_tool b)(sw_call w \<mapsto> fold apply_content_value (values_of bs) st)\<rparr>"
  using assms
proof (induction bs arbitrary: b w st)
  case Nil
  then show ?case by (auto simp: values_of_def fun_upd_idem)
next
  case (Cons tv bs)
  obtain ty v where tv: "tv = (ty, v)" by fastforce
  obtain m w1 where one: "sw_content ty v w = (m, w1)" by fastforce
  obtain ms w2 where rest: "sw_contents bs w1 = (ms, w2)" by fastforce
  have key: "sm_value m = Some v" "sm_tool_call_id m = sw_call w" "sw_call w1 = sw_call w"
    using sw_content_key [of ty v w] one by simp_all
  have "apply_tool_delta m b
      = b\<lparr>bt_per_tool := (bt_per_tool b)(sw_call w \<mapsto> apply_content_value v st)\<rparr>"
    using apply_content_known [OF Cons.prems(1) key(1,2)] Cons.prems(2) tv by (auto simp: values_of_def)
  then show ?case
    using Cons.IH [of "apply_tool_delta m b" w1 "apply_content_value v st"] Cons.prems(2) key tv one rest
    by (simp add: values_of_def fun_upd_same fun_upd_upd del: fun_upd_apply)
qed

lemma emit_new:
  assumes "bt_per_tool b (sw_call w) = None" "VMessageStart \<notin> set (values_of bs)"
    and "bs \<noteq> []" "start_tool_content (Some (snd (hd bs))) \<noteq> None"
  shows "fold apply_tool_delta (fst (sw_contents bs w)) b
    = b\<lparr>bt_order := bt_order b @ [sw_call w], bt_per_tool := (bt_per_tool b)
          (sw_call w \<mapsto> fold apply_content_value (values_of bs) empty_tool_reconstruction)\<rparr>"
proof -
  obtain ty v bs' where bs: "bs = (ty, v) # bs'" using assms(3) by (cases bs) auto
  obtain m w1 where one: "sw_content ty v w = (m, w1)" by fastforce
  have key: "sm_value m = Some v" "sm_tool_call_id m = sw_call w" "sw_call w1 = sw_call w"
    using sw_content_key [of ty v w] one by simp_all
  obtain f where f: "start_tool_content (Some v) = Some f" using assms(4) bs by auto
  let ?b1 = "b\<lparr>bt_order := bt_order b @ [sw_call w], bt_per_tool := (bt_per_tool b)
          (sw_call w \<mapsto> apply_content_value v empty_tool_reconstruction)\<rparr>"
  have "apply_tool_delta m b = ?b1"
    using key f assms(1,2) bs
    by (auto simp: apply_tool_delta_def ensure_tool_def change_tool_def apply_content_value_def values_of_def)
  then show ?thesis
    using emit_known [of ?b1 w1 "apply_content_value v empty_tool_reconstruction" bs'] assms(2) bs one key(3)
    by (cases "sw_contents bs' w1") (simp add: values_of_def)
qed

lemma text_boundaries_start: "hd (text_boundaries t) = (StreamTextStart, VTextStart)" "text_boundaries t \<noteq> []"
  by (simp_all add: text_boundaries_def)

lemma part_boundaries_start:
  "part_boundaries p \<noteq> [] \<Longrightarrow> start_tool_content (Some (snd (hd (part_boundaries p)))) \<noteq> None"
  "VMessageStart \<notin> set (values_of (part_boundaries p))"
  by (cases p; auto simp: text_boundaries_def binary_boundaries_def start_tool_content_def values_of_def split: if_splits)+

lemma hd_concat_nonempty:
  "concat xss \<noteq> [] \<Longrightarrow> \<exists>xs \<in> set xss. xs \<noteq> [] \<and> hd (concat xss) = hd xs"
  by (induction xss) (auto simp: hd_append)

lemma result_boundaries_start:
  "result_boundaries r \<noteq> []"
  "start_tool_content (Some (snd (hd (result_boundaries r)))) \<noteq> None"
  "VMessageStart \<notin> set (values_of (result_boundaries r))"
proof -
  show "result_boundaries r \<noteq> []" by (simp add: result_boundaries_def Let_def)
  have parts: "VMessageStart \<notin> set (values_of (concat (map part_boundaries ps)))" for ps
    using part_boundaries_start(2) by (induction ps) (auto simp: values_of_def)
  show "VMessageStart \<notin> set (values_of (result_boundaries r))"
    using parts by (auto simp: result_boundaries_def Let_def text_boundaries_def values_of_def)
  have "start_tool_content (Some (snd (hd (concat (map part_boundaries ps))))) \<noteq> None"
    if "concat (map part_boundaries ps) \<noteq> []" for ps
    using hd_concat_nonempty [OF that] part_boundaries_start(1) by fastforce
  then show "start_tool_content (Some (snd (hd (result_boundaries r)))) \<noteq> None"
    by (auto simp: result_boundaries_def Let_def text_boundaries_start start_tool_content_def [of "Some VTextStart"])
qed

lemma batch_messages_add:
  assumes "batch_ok b" "i \<notin> set (bt_order b)"
  shows "batch_ok (b\<lparr>bt_order := bt_order b @ [i], bt_per_tool := (bt_per_tool b)(i \<mapsto> st)\<rparr>)"
    and "tool_batch_messages (b\<lparr>bt_order := bt_order b @ [i], bt_per_tool := (bt_per_tool b)(i \<mapsto> st)\<rparr>)
      = tool_batch_messages b @ [tool_message i st]"
proof -
  have "concat (map (\<lambda>j. case ((bt_per_tool b)(i \<mapsto> st)) j of None \<Rightarrow> [] | Some st \<Rightarrow> [tool_message j st]) (bt_order b))
      = tool_batch_messages b"
    unfolding tool_batch_messages_def using assms(2) by (intro arg_cong [of _ _ concat] map_cong) auto
  then show "tool_batch_messages (b\<lparr>bt_order := bt_order b @ [i], bt_per_tool := (bt_per_tool b)(i \<mapsto> st)\<rparr>)
      = tool_batch_messages b @ [tool_message i st]"
    by (simp add: tool_batch_messages_def)
  show "batch_ok (b\<lparr>bt_order := bt_order b @ [i], bt_per_tool := (bt_per_tool b)(i \<mapsto> st)\<rparr>)"
    using assms by (auto simp: batch_ok_def)
qed

lemma emit_calls_messages:
  assumes "batch_ok b" "distinct (map (\<lambda>x. tr_tool_call_id (fst x)) rs)"
    and "set (map (\<lambda>x. tr_tool_call_id (fst x)) rs) \<inter> set (bt_order b) = {}"
  shows "\<exists>b'. fold apply_tool_delta (emit_calls pass rs) b = b' \<and> batch_ok b'
    \<and> tool_batch_messages b'
      = tool_batch_messages b @ map (\<lambda>(r, _). tool_message (tr_tool_call_id r) (result_state r)) rs"
  using assms
proof (induction rs arbitrary: b)
  case (Cons rd rs)
  obtain r random where rd: "rd = (r, random)" by fastforce
  let ?w = "\<lparr>sw_pass = pass, sw_stream = must_stream_id ''tool-call'' random,
             sw_call = tr_tool_call_id r, sw_index = 0\<rparr>"
  let ?b1 = "b\<lparr>bt_order := bt_order b @ [tr_tool_call_id r],
      bt_per_tool := (bt_per_tool b)(tr_tool_call_id r \<mapsto> result_state r)\<rparr>"
  have fresh: "tr_tool_call_id r \<notin> set (bt_order b)" using Cons.prems(3) rd by simp
  then have "bt_per_tool b (tr_tool_call_id r) = None"
    using Cons.prems(1) by (auto simp: batch_ok_def)
  then have "fold apply_tool_delta (fst (emit_result r ?w)) b = ?b1"
    using emit_new [of b ?w "result_boundaries r"] result_boundaries_start [of r]
    by (simp add: emit_result_def result_state_def)
  moreover note batch_messages_add [OF Cons.prems(1) fresh, of "result_state r"]
  moreover have "distinct (map (\<lambda>x. tr_tool_call_id (fst x)) rs)"
    "set (map (\<lambda>x. tr_tool_call_id (fst x)) rs) \<inter> set (bt_order ?b1) = {}"
    using Cons.prems(2,3) rd by (auto simp: comp_def)
  ultimately show ?case using Cons.IH [of ?b1] rd by simp
qed simp

lemma emitted_results_reconstruct:
  assumes "distinct (map (\<lambda>x. tr_tool_call_id (fst x)) rs)"
  shows "reconstruct_tool_messages (emit_result_deltas random pass rs)
    = map (\<lambda>(r, _). tool_message (tr_tool_call_id r) (result_state r)) rs"
proof -
  obtain m1 w1 where opened: "sw_write (mk_delta StreamMessageStart RoleTool VMessageStart)
      \<lparr>sw_pass = pass, sw_stream = must_stream_id ''tool-msg'' random, sw_call = '''', sw_index = 0\<rparr> = (m1, w1)"
    by fastforce
  obtain m2 w2 where ended: "sw_write (mk_delta StreamMessageEnd RoleTool
      (VMessageEnd (Some (new_message_end_value zero_usage)))) w1 = (m2, w2)" by fastforce
  have vals: "sm_value m1 = Some VMessageStart"
      "\<exists>e. sm_value m2 = Some (VMessageEnd e)"
    using opened ended by (auto simp: sw_write_def mk_delta_def)
  have start: "apply_tool_delta m1 b = empty_tool_batch" for b
    using vals(1) by (simp add: apply_tool_delta_def)
  have "change_tool i (apply_tool_content (Some (VMessageEnd e))) b = b" for i b e
    by (auto simp: change_tool_def apply_tool_content_def fun_upd_idem split: option.split)
  then have ends: "apply_tool_delta m2 b = b" for b
    using vals(2) by (auto simp: apply_tool_delta_def start_tool_content_def)
  show ?thesis
    using emit_calls_messages [OF empty_batch_ok assms, of pass] opened ended start ends
    by (auto simp: reconstruct_tool_messages_def emit_result_deltas_def empty_tool_batch_def tool_batch_messages_def)
qed

text \<open>
  The parts the delta stream can carry back: inline payloads, at most one of each kind, in the
  order reconstruction lists them.
\<close>

fun part_rank :: "content_part \<Rightarrow> nat" where
  "part_rank (TextPart _) = 0"
| "part_rank (ImagePart _ _ _) = 1"
| "part_rank (AudioPart _ _ _) = 2"
| "part_rank (VideoPart _ _ _) = 3"
| "part_rank (FilePart _ _ _ _) = 4"
| "part_rank _ = 5"

fun restorable_part :: "content_part \<Rightarrow> bool" where
  "restorable_part (TextPart t) = (t \<noteq> '''')"
| "restorable_part (ImagePart u b _) = (u = '''' \<and> b \<noteq> [])"
| "restorable_part (AudioPart u b m) = (u = '''' \<and> b \<noteq> [] \<and> m = ''audio/pcm'')"
| "restorable_part (VideoPart u b _) = (u = '''' \<and> b \<noteq> [])"
| "restorable_part (FilePart u b _ _) = (u = '''' \<and> b \<noteq> [])"
| "restorable_part _ = False"

definition restorable :: "tool_call_response \<Rightarrow> bool" where
  "restorable r \<longleftrightarrow> list_all restorable_part (tr_parts r)
     \<and> sorted_wrt (\<lambda>p q. part_rank p < part_rank q) (tr_parts r)"

text \<open>The content a result is meant to carry: its parts, or its flat text when it has none.\<close>

definition expected_parts :: "tool_call_response \<Rightarrow> content_part list" where
  "expected_parts r = (if tr_parts r = [] then [TextPart (tr_content r)] else tr_parts r)"

definition raw_parts :: "tool_reconstruction \<Rightarrow> content_part list" where
  "raw_parts st =
     (let p2 = append_image_part (tl_media st) (if tl_text st \<noteq> '''' then [TextPart (tl_text st)] else []);
          audio = md_audio (tl_media st)
      in append_trailing_parts (tl_media st)
           (if ba_present audio then p2 @ [AudioPart '''' (ba_bytes audio) (ba_media audio)] else p2))"

lemma tool_parts_raw: "tool_parts st = (if raw_parts st = [] then [TextPart ''''] else raw_parts st)"
  by (simp add: tool_parts_def raw_parts_def Let_def)

lemma set_raw_parts:
  "tl_text st \<noteq> '''' \<Longrightarrow> TextPart (tl_text st) \<in> set (raw_parts st)"
  "ba_present (md_image (tl_media st)) \<Longrightarrow> \<exists>b m. ImagePart '''' b m \<in> set (raw_parts st)"
  "ba_present (md_audio (tl_media st)) \<Longrightarrow> \<exists>b m. AudioPart '''' b m \<in> set (raw_parts st)"
  "ba_present (md_video (tl_media st)) \<Longrightarrow> \<exists>b m. VideoPart '''' b m \<in> set (raw_parts st)"
  "ba_present (md_file (tl_media st)) \<Longrightarrow> \<exists>b n m. FilePart '''' b n m \<in> set (raw_parts st)"
  "ba_present (md_embedding (tl_media st)) \<Longrightarrow> \<exists>b m. EmbeddingPart '''' b m \<in> set (raw_parts st)"
  by (auto simp: raw_parts_def append_trailing_parts_def append_image_part_def Let_def)

lemma absent_kinds:
  assumes "list_all (\<lambda>q. part_rank q < k) (raw_parts st)"
  shows "k \<le> 0 \<Longrightarrow> tl_text st = ''''"
    and "k \<le> 1 \<Longrightarrow> \<not> ba_present (md_image (tl_media st))"
    and "k \<le> 2 \<Longrightarrow> \<not> ba_present (md_audio (tl_media st))"
    and "k \<le> 3 \<Longrightarrow> \<not> ba_present (md_video (tl_media st))"
    and "k \<le> 4 \<Longrightarrow> \<not> ba_present (md_file (tl_media st))"
    and "k \<le> 5 \<Longrightarrow> \<not> ba_present (md_embedding (tl_media st))"
  using assms set_raw_parts [of st] by (fastforce simp: list_all_iff)+

lemma accumulate_one:
  "\<not> ba_present a \<Longrightarrow> ba_present (ba_add b a) \<and> ba_bytes (ba_add b a) = b"
  by (simp add: ba_present_def ba_bytes_def ba_add_def)

lemma absorb_part:
  assumes "restorable_part p" "list_all (\<lambda>q. part_rank q < part_rank p) (raw_parts st)"
  shows "raw_parts (fold apply_content_value (values_of (part_boundaries p)) st) = raw_parts st @ [p]"
proof (cases p)
  case (TextPart t)
  then show ?thesis using assms absent_kinds [OF assms(2)]
    by (simp add: values_of_def text_boundaries_def apply_content_value_def start_tool_content_def
        apply_tool_content_def raw_parts_def append_image_part_def append_trailing_parts_def Let_def)
next
  case (ImagePart u b m)
  then show ?thesis using assms absent_kinds [OF assms(2)]
    by (simp add: values_of_def binary_boundaries_def apply_content_value_def start_tool_content_def
        apply_tool_content_def raw_parts_def append_image_part_def append_trailing_parts_def
        ba_present_def ba_bytes_def ba_add_def Let_def)
next
  case (AudioPart u b m)
  then show ?thesis using assms absent_kinds [OF assms(2)]
    by (simp add: values_of_def binary_boundaries_def apply_content_value_def start_tool_content_def
        apply_tool_content_def raw_parts_def append_image_part_def append_trailing_parts_def
        ba_present_def ba_bytes_def ba_add_def Let_def)
next
  case (VideoPart u b m)
  then show ?thesis using assms absent_kinds [OF assms(2)]
    by (simp add: values_of_def binary_boundaries_def apply_content_value_def start_tool_content_def
        apply_tool_content_def raw_parts_def append_image_part_def append_trailing_parts_def
        ba_present_def ba_bytes_def ba_add_def Let_def)
next
  case (FilePart u b n m)
  then show ?thesis using assms absent_kinds [OF assms(2)]
    by (simp add: values_of_def binary_boundaries_def apply_content_value_def start_tool_content_def
        apply_tool_content_def raw_parts_def append_image_part_def append_trailing_parts_def
        ba_present_def ba_bytes_def ba_add_def Let_def)
qed (use assms(1) in simp_all)

lemma raw_parts_empty: "raw_parts empty_tool_reconstruction = []"
  by (simp add: raw_parts_def empty_tool_reconstruction_def empty_media_def empty_accumulator_def
        ba_present_def append_image_part_def append_trailing_parts_def)

lemma absorb_parts:
  assumes "list_all restorable_part ps" "sorted_wrt (\<lambda>p q. part_rank p < part_rank q) ps"
  shows "raw_parts (fold apply_content_value (values_of (concat (map part_boundaries ps)))
      empty_tool_reconstruction) = ps"
  using assms
proof (induction ps rule: rev_induct)
  case Nil
  then show ?case by (simp add: values_of_def raw_parts_empty)
next
  case (snoc p ps)
  let ?st = "fold apply_content_value (values_of (concat (map part_boundaries ps))) empty_tool_reconstruction"
  have ps: "raw_parts ?st = ps" using snoc by (simp add: sorted_wrt_append)
  then have "list_all (\<lambda>q. part_rank q < part_rank p) (raw_parts ?st)"
    using snoc.prems(2) by (simp add: sorted_wrt_append list_all_iff)
  then show ?case using absorb_part [of p ?st] snoc.prems(1) ps by (simp add: values_of_def)
qed

lemma restorable_boundaries: "restorable_part p \<Longrightarrow> part_boundaries p \<noteq> []"
  by (cases p) (simp_all add: text_boundaries_def binary_boundaries_def)

lemma restorable_result:
  assumes "restorable r"
  shows "tool_parts (result_state r) = expected_parts r"
proof (cases "tr_parts r")
  case Nil
  have "raw_parts (fold apply_content_value (values_of (text_boundaries t)) empty_tool_reconstruction)
      = (if t = '''' then [] else [TextPart t])" for t
    by (simp add: values_of_def text_boundaries_def apply_content_value_def start_tool_content_def
        apply_tool_content_def raw_parts_def append_image_part_def append_trailing_parts_def Let_def
        empty_tool_reconstruction_def empty_media_def empty_accumulator_def ba_present_def)
  from this [of "tr_content r"] this [of "''''"] show ?thesis
    using Nil by (cases "tr_content r = ''''")
      (simp_all add: result_state_def result_boundaries_def text_boundaries_start(2) tool_parts_raw
         expected_parts_def text_boundaries_def Let_def)
next
  case (Cons p ps)
  then have "part_boundaries p \<noteq> []"
    using assms restorable_boundaries by (simp add: restorable_def)
  then have "result_boundaries r = concat (map part_boundaries (tr_parts r))"
    using Cons by (simp add: result_boundaries_def Let_def)
  then show ?thesis
    using absorb_parts [of "tr_parts r"] assms Cons
    by (simp add: result_state_def tool_parts_raw expected_parts_def restorable_def)
qed

text \<open>
  C7: tool results survive the delta stream: the deltas the runner emits for a batch, put
  together again, are one tool message per result, in batch order, with the result's call
  identity and exactly its content, for every result with inline parts in reconstruction order
  and for every flat text, the empty one included.
\<close>

theorem tool_results_roundtrip:
  assumes "distinct (map (\<lambda>x. tr_tool_call_id (fst x)) rs)" "list_all (\<lambda>x. restorable (fst x)) rs"
  shows "reconstruct_tool_messages (emit_result_deltas random pass rs)
    = map (\<lambda>(r, _). zero_message\<lparr>m_role := RoleTool, m_parts := expected_parts r,
                        m_tool_call_id := tr_tool_call_id r\<rparr>) rs"
  using emitted_results_reconstruct [OF assms(1)] assms(2) restorable_result
  by (auto simp: tool_message_def list_all_iff)

lemma tool_results_roundtrip_witness:
  "reconstruct_tool_messages (emit_result_deltas None 3
      [(\<lparr>tr_tool_call_id = ''c1'', tr_name = ''f'', tr_content = '''', tr_parts = []\<rparr>, None),
       (\<lparr>tr_tool_call_id = ''c2'', tr_name = ''g'', tr_content = ''x'',
          tr_parts = [TextPart ''t'', ImagePart '''' [1, 2] ''image/png'']\<rparr>, Some [7])])
   = [zero_message\<lparr>m_role := RoleTool, m_parts := [TextPart ''''], m_tool_call_id := ''c1''\<rparr>,
      zero_message\<lparr>m_role := RoleTool, m_parts := [TextPart ''t'', ImagePart '''' [1, 2] ''image/png''],
        m_tool_call_id := ''c2''\<rparr>]"
  using tool_results_roundtrip [of
      "[(\<lparr>tr_tool_call_id = ''c1'', tr_name = ''f'', tr_content = '''', tr_parts = []\<rparr>, None),
       (\<lparr>tr_tool_call_id = ''c2'', tr_name = ''g'', tr_content = ''x'',
          tr_parts = [TextPart ''t'', ImagePart '''' [1, 2] ''image/png'']\<rparr>, Some [7])]" None 3]
  by (simp add: restorable_def expected_parts_def)

text \<open>
  Outside that domain content is lost: two images of one result come back as one image whose
  bytes are both payloads joined and whose media type is the second's.
\<close>

lemma two_images_joined:
  "reconstruct_tool_messages (emit_result_deltas None 0
      [(\<lparr>tr_tool_call_id = ''c'', tr_name = '''', tr_content = '''',
          tr_parts = [ImagePart '''' [1] ''image/png'', ImagePart '''' [2] ''image/jpeg'']\<rparr>, None)])
   = [zero_message\<lparr>m_role := RoleTool, m_parts := [ImagePart '''' [1, 2] ''image/jpeg''], m_tool_call_id := ''c''\<rparr>]"
  by (simp add: emitted_results_reconstruct tool_message_def result_state_def result_boundaries_def
       binary_boundaries_def values_of_def apply_content_value_def start_tool_content_def
       apply_tool_content_def tool_parts_raw raw_parts_def append_image_part_def append_trailing_parts_def
       empty_tool_reconstruction_def empty_media_def empty_accumulator_def ba_present_def ba_bytes_def
       ba_add_def Let_def)

section \<open>Each call is executed once\<close>

text \<open>A sequence of batches on one runner.\<close>

fun admit_batches :: "tool_call list list \<Rightarrow> string set \<Rightarrow> tool_call list list" where
  "admit_batches [] seen = []"
| "admit_batches (calls # rest) seen =
     (case admit_calls calls seen of (admitted, seen') \<Rightarrow> admitted # admit_batches rest seen')"

definition call_ids :: "tool_call list \<Rightarrow> string list" where
  "call_ids calls = filter (\<lambda>i. i \<noteq> '''') (map tc_id calls)"

lemma admit_calls_loop: "admit_calls calls seen = admit_loop calls seen"
  by (simp add: admit_calls_def)

lemma admit_loop_effect:
  "admit_loop calls seen = (out, seen') \<Longrightarrow>
   seen' = seen \<union> set (call_ids calls) \<and> set (call_ids out) = set (call_ids calls) - seen
   \<and> distinct (call_ids out) \<and> filter (\<lambda>c. tc_id c = '''') out = filter (\<lambda>c. tc_id c = '''') calls"
proof (induction calls arbitrary: seen out)
  case (Cons c calls)
  show ?case
  proof (cases "tc_id c \<noteq> '''' \<and> tc_id c \<in> seen")
    case True
    then show ?thesis using Cons.IH [of seen out] Cons.prems by (auto simp: call_ids_def)
  next
    case False
    let ?seen = "if tc_id c = '''' then seen else insert (tc_id c) seen"
    obtain out1 where rest: "admit_loop calls ?seen = (out1, seen')" "out = c # out1"
      using Cons.prems False by (auto split: prod.splits if_splits)
    show ?thesis using Cons.IH [OF rest(1)] rest(2) False by (auto simp: call_ids_def)
  qed
qed (simp add: call_ids_def)

lemma admit_batches_effect:
  "distinct (call_ids (concat (admit_batches batches seen)))
   \<and> set (call_ids (concat (admit_batches batches seen))) = set (call_ids (concat batches)) - seen
   \<and> filter (\<lambda>c. tc_id c = '''') (concat (admit_batches batches seen))
      = filter (\<lambda>c. tc_id c = '''') (concat batches)"
proof (induction batches arbitrary: seen)
  case (Cons calls rest)
  obtain out seen' where step: "admit_loop calls seen = (out, seen')" by fastforce
  have append: "call_ids (xs @ ys) = call_ids xs @ call_ids ys" for xs ys by (simp add: call_ids_def)
  show ?case
    using admit_loop_effect [OF step] Cons.IH [of seen'] step by (auto simp: admit_calls_loop append)
qed (simp add: call_ids_def)

text \<open>
  C9: over all the batches of a session every call identity is executed exactly once, however
  often the provider repeats it within or across batches, and a call without an identity is
  always executed.
\<close>

theorem tool_calls_executed_once:
  "distinct (call_ids (concat (admit_batches batches {})))
   \<and> set (call_ids (concat (admit_batches batches {}))) = set (call_ids (concat batches))
   \<and> filter (\<lambda>c. tc_id c = '''') (concat (admit_batches batches {}))
      = filter (\<lambda>c. tc_id c = '''') (concat batches)"
  using admit_batches_effect [of batches "{}"] by simp

section \<open>The outcome of a batch does not depend on the order of completion\<close>

definition arrivals :: "collect_event list \<Rightarrow> nat list" where
  "arrivals evs = concat (map (\<lambda>ev. case ev of OutcomeOf i \<Rightarrow> [i] | _ \<Rightarrow> []) evs)"

lemma arrivals_simps [simp]:
  "arrivals [] = []" "arrivals (OutcomeOf i # evs) = i # arrivals evs"
  "arrivals (AckTimer c # evs) = arrivals evs" "arrivals (ContextEnded # evs) = arrivals evs"
  by (simp_all add: arrivals_def)

text \<open>The error and the result one call contributes.\<close>

definition call_error :: "tool_call \<Rightarrow> outcome \<Rightarrow> go_error option" where
  "call_error c out = (case out of Inl e \<Rightarrow> Some (ToolFailed (tc_name c) e) | Inr _ \<Rightarrow> None)"

definition call_result :: "outcome \<Rightarrow> tool_call_response" where
  "call_result out = (case out of Inl _ \<Rightarrow> zero_response | Inr r \<Rightarrow> r)"

text \<open>The reference: run the calls one after another.\<close>

definition sequential_batch :: "(tool_call \<Rightarrow> outcome) \<Rightarrow> tool_call list \<Rightarrow> tool_call_response list result" where
  "sequential_batch executor calls =
     (case join_errors (map (\<lambda>c. call_error c (executor c)) calls) of
        Some e \<Rightarrow> Inl e | None \<Rightarrow> Inr (map (\<lambda>c. call_result (executor c)) calls))"

definition collected :: "ack_config \<Rightarrow> (tool_call \<Rightarrow> outcome) \<Rightarrow> tool_call list \<Rightarrow> nat set \<Rightarrow> collecting \<Rightarrow> bool" where
  "collected cfg executor calls S s \<longleftrightarrow>
     (let b = cl_batch s in
      xb_calls b = calls \<and> cl_completed s = card S \<and> S \<subseteq> {..<length calls}
      \<and> xb_errs b = map (\<lambda>i. if i \<in> S then call_error (calls ! i) (executor (calls ! i)) else None)
                      [0..<length calls]
      \<and> xb_results b = map (\<lambda>i. if i \<in> S then call_result (executor (calls ! i)) else zero_response)
                      [0..<length calls]
      \<and> xb_pending b = (\<lambda>i. if i \<in> S then None else long_running_calls cfg calls i))"

lemma collected_start: "collected cfg executor calls {} (start_collecting cfg calls)"
  by (auto simp: collected_def start_collecting_def start_batch_def Let_def intro!: nth_equalityI)

lemma collected_outcome:
  assumes "collected cfg executor calls S s" "i < length calls" "i \<notin> S"
  shows "collected cfg executor calls (insert i S)
    (collect_step cfg (\<lambda>i. executor (calls ! i)) (OutcomeOf i) s)"
proof -
  have "finite S" using assms(1) by (auto simp: collected_def Let_def intro: finite_subset)
  then show ?thesis
    using assms
    by (cases "executor (calls ! i)")
      (auto simp: collected_def collect_step_def batch_record_def call_error_def call_result_def Let_def
         fun_eq_iff intro!: nth_equalityI split: nat.splits simp: nth_list_update)
qed

lemma acknowledge_collected:
  "collected cfg executor calls S s \<Longrightarrow> collected cfg executor calls S ((acknowledge_pending cfg c s)\<lparr>cl_timer := t\<rparr>)"
  by (simp add: collected_def acknowledge_pending_def Let_def)

lemma collected_other:
  assumes "collected cfg executor calls S s" "arrivals [ev] = []"
  shows "collected cfg executor calls S (collect_step cfg outcomes ev s)"
proof (cases ev)
  case (AckTimer c)
  then show ?thesis using assms acknowledge_collected by (simp add: collect_step_def)
next
  case ContextEnded
  then show ?thesis using assms by (simp add: collect_step_def collected_def Let_def)
qed (use assms in simp)

lemma collect_done: "\<not> cl_completed s < length (xb_calls (cl_batch s)) \<Longrightarrow> collect_batch cfg outcomes evs s = s"
  by (cases evs) simp_all

lemma collect_all:
  assumes "collected cfg executor calls S s" "distinct (arrivals evs)"
    and "set (arrivals evs) \<inter> S = {}" "set (arrivals evs) \<union> S = {..<length calls}"
  shows "collected cfg executor calls {..<length calls}
    (collect_batch cfg (\<lambda>i. executor (calls ! i)) evs s)"
  using assms
proof (induction evs arbitrary: S s)
  case (Cons ev evs)
  show ?case
  proof (cases "cl_completed s < length (xb_calls (cl_batch s))")
    case False
    then have "card {..<length calls} \<le> card S" "S \<subseteq> {..<length calls}"
      using Cons.prems(1) by (auto simp: collected_def Let_def)
    then have "S = {..<length calls}" by (simp add: card_seteq)
    then show ?thesis using Cons.prems(1) collect_done [OF False] by simp
  next
    case True
    show ?thesis
    proof (cases ev)
      case (OutcomeOf i)
      then have "collected cfg executor calls (insert i S) (collect_step cfg (\<lambda>i. executor (calls ! i)) ev s)"
        using collected_outcome [OF Cons.prems(1), of i] Cons.prems(3,4) by auto
      then show ?thesis using Cons.IH Cons.prems OutcomeOf True by auto
    next
      case (AckTimer c)
      then show ?thesis
        using Cons.IH [OF collected_other [OF Cons.prems(1), of ev]] Cons.prems True by simp
    next
      case ContextEnded
      then show ?thesis
        using Cons.IH [OF collected_other [OF Cons.prems(1), of ev]] Cons.prems True by simp
    qed
  qed
qed simp

text \<open>At most one acknowledgement, and only of long-running calls still running.\<close>

definition acks_ok :: "ack_config \<Rightarrow> tool_call list \<Rightarrow> collecting \<Rightarrow> bool" where
  "acks_ok cfg calls s \<longleftrightarrow> length (cl_acks s) \<le> (if xb_ack_sent (cl_batch s) then 1 else 0)
     \<and> list_all (\<lambda>cs. cs \<noteq> [] \<and> list_all (\<lambda>c. c \<in> set calls \<and> is_long_running cfg c) cs) (cl_acks s)
     \<and> xb_calls (cl_batch s) = calls
     \<and> (\<forall>i c. xb_pending (cl_batch s) i = Some c \<longrightarrow> c \<in> set calls \<and> is_long_running cfg c)"

lemma acks_start: "acks_ok cfg calls (start_collecting cfg calls)"
  by (auto simp: acks_ok_def start_collecting_def start_batch_def long_running_calls_def split: if_splits)

lemma batch_record_keeps [simp]:
  "xb_calls (batch_record i out b) = xb_calls b" "xb_ack_sent (batch_record i out b) = xb_ack_sent b"
  "xb_pending (batch_record i out b) = (xb_pending b)(i := None)"
  by (simp_all add: batch_record_def Let_def split: sum.split)

lemma pending_nonempty: "has_pending b \<Longrightarrow> pending_calls b \<noteq> []"
  by (force simp: has_pending_def pending_calls_def list_ex_iff)

lemma pending_from: "c \<in> set (pending_calls b) \<Longrightarrow> \<exists>i. xb_pending b i = Some c"
  by (auto simp: pending_calls_def split: option.splits)

lemma acknowledge_ok: "acks_ok cfg calls s \<Longrightarrow> acks_ok cfg calls ((acknowledge_pending cfg c s)\<lparr>cl_timer := t\<rparr>)"
  using pending_nonempty [of "cl_batch s"] pending_from [of _ "(cl_batch s)\<lparr>xb_ack_sent := True\<rparr>"]
  by (auto simp: acknowledge_pending_def acks_ok_def Let_def list_all_iff pending_calls_def
        split: if_splits)

lemma acks_step: "acks_ok cfg calls s \<Longrightarrow> acks_ok cfg calls (collect_step cfg outcomes ev s)"
proof (cases ev)
  case (AckTimer c)
  then show "acks_ok cfg calls s \<Longrightarrow> ?thesis" using acknowledge_ok by (simp add: collect_step_def)
qed (auto simp: collect_step_def acks_ok_def)

lemma acks_collect: "acks_ok cfg calls s \<Longrightarrow> acks_ok cfg calls (collect_batch cfg outcomes evs s)"
  by (induction evs arbitrary: s) (simp_all add: acks_step)

text \<open>
  C8: whatever order the tools finish in, and whenever the acknowledgement timer fires or the
  context ends, a batch returns what running its admitted calls one after another would, in
  input order, every failure joined; at most one acknowledgement is requested, and it names
  only long-running calls of the batch.
\<close>

theorem tool_batch_order_independent:
  assumes "mset (arrivals schedule) = mset [0..<length (fst (admit_calls calls seen))]"
  shows "let (outcome, acks, seen') = execute_batch cfg executor schedule calls seen;
             admitted = fst (admit_calls calls seen) in
     outcome = sequential_batch executor admitted \<and> seen' = snd (admit_calls calls seen)
     \<and> length acks \<le> 1
     \<and> list_all (\<lambda>cs. cs \<noteq> [] \<and> list_all (\<lambda>c. c \<in> set admitted \<and> is_long_running cfg c) cs) acks"
proof -
  obtain admitted seen' where admitted: "admit_calls calls seen = (admitted, seen')" by fastforce
  let ?s = "collect_batch cfg (\<lambda>i. executor (admitted ! i)) schedule (start_collecting cfg admitted)"
  have perm: "distinct (arrivals schedule)" "set (arrivals schedule) = {..<length admitted}"
    using mset_eq_imp_distinct_iff [OF assms] mset_eq_setD [OF assms] admitted
    by (simp_all add: lessThan_atLeast0)
  have all: "collected cfg executor admitted {..<length admitted} ?s"
    using collect_all [OF collected_start perm(1)] perm(2) by simp
  have acks: "acks_ok cfg admitted ?s" by (rule acks_collect [OF acks_start])
  have "map (\<lambda>i. if i \<in> {..<length admitted} then g (admitted ! i) else h) [0..<length admitted]
      = map g admitted" for g :: "tool_call \<Rightarrow> 'x" and h
    by (rule nth_equalityI) simp_all
  then have "xb_errs (cl_batch ?s) = map (\<lambda>c. call_error c (executor c)) admitted"
      "xb_results (cl_batch ?s) = map (\<lambda>c. call_result (executor c)) admitted"
    using all by (simp_all add: collected_def Let_def)
  then show ?thesis
    using admitted acks
    by (auto simp: execute_batch_def sequential_batch_def acks_ok_def join_errors_def Let_def
          split: if_splits option.split)
qed

definition slow_search :: "string \<Rightarrow> bool" where
  "slow_search n \<longleftrightarrow> n = ''search''"

lemma tool_batch_order_independent_witness:
  "let (outcome, acks, seen') = execute_batch \<lparr>ac_threshold = True, ac_long_running = Some slow_search, ac_send = True\<rparr>
        (\<lambda>c. Inr \<lparr>tr_tool_call_id = tc_id c, tr_name = tc_name c, tr_content = ''r'', tr_parts = []\<rparr>)
        [OutcomeOf 1, AckTimer CtxLive, OutcomeOf 0]
        [\<lparr>tc_id = ''a'', tc_name = ''search'', tc_arguments = ''{}''\<rparr>,
         \<lparr>tc_id = ''b'', tc_name = ''f'', tc_arguments = ''{}''\<rparr>,
         \<lparr>tc_id = ''a'', tc_name = ''search'', tc_arguments = ''{}''\<rparr>] {} in
     outcome = Inr [\<lparr>tr_tool_call_id = ''a'', tr_name = ''search'', tr_content = ''r'', tr_parts = []\<rparr>,
                    \<lparr>tr_tool_call_id = ''b'', tr_name = ''f'', tr_content = ''r'', tr_parts = []\<rparr>]
     \<and> length acks \<le> 1"
  using tool_batch_order_independent [of "[OutcomeOf 1, AckTimer CtxLive, OutcomeOf 0]"
      "[\<lparr>tc_id = ''a'', tc_name = ''search'', tc_arguments = ''{}''\<rparr>,
         \<lparr>tc_id = ''b'', tc_name = ''f'', tc_arguments = ''{}''\<rparr>,
         \<lparr>tc_id = ''a'', tc_name = ''search'', tc_arguments = ''{}''\<rparr>]" "{}"
      "\<lparr>ac_threshold = True, ac_long_running = Some slow_search, ac_send = True\<rparr>"
      "\<lambda>c. Inr \<lparr>tr_tool_call_id = tc_id c, tr_name = tc_name c, tr_content = ''r'', tr_parts = []\<rparr>"]
  by (simp add: admit_calls_def sequential_batch_def join_errors_def call_error_def call_result_def
       split: prod.splits)

end
