(* ===== verification/Model_Inference.thy ===== *)
theory Model_Inference
  imports Typed_Buffer Reconstruction Go_Format
begin

text \<open>
  The turn-based model participant, \<^verbatim>\<open>participants/model_runner_inference.go\<close>: relaying a
  provider stream, and turning a non-streaming result into the deltas a stream would have
  carried. The inferencer is the application's: what \<^verbatim>\<open>InferStream\<close> and \<^verbatim>\<open>Infer\<close> answer, and
  what arrives on the stream, are arguments. \<^verbatim>\<open>render\<close> is \<^verbatim>\<open>err.Error()\<close>.

  The outbox is the list of deltas that reached it. A turn-based delta is written with
  \<^verbatim>\<open>WriteWaitContext\<close>, whose select waits for room or for the end of the write context:
  \<^verbatim>\<open>ms_lands\<close> holds what the selects to come take, the send or the end; beyond it the write
  context is live and every delta reaches the outbox. The actor index counts them all.
\<close>

section \<open>Errors\<close>

text \<open>\<^verbatim>\<open>errors.Is\<close> against a context error, through everything that wraps an error.\<close>

fun is_cancellation_error :: "go_error \<Rightarrow> bool" where
  "is_cancellation_error CtxCanceled = True"
| "is_cancellation_error CtxDeadlineExceeded = True"
| "is_cancellation_error (WrappedError _ e) = is_cancellation_error e"
| "is_cancellation_error (JoinedErrors es) = list_ex is_cancellation_error es"
| "is_cancellation_error (ToolFailed _ e) = is_cancellation_error e"
| "is_cancellation_error (SessionSendFailed _ _ (Some e)) = is_cancellation_error e"
| "is_cancellation_error _ = False"

definition output_state :: "bool \<Rightarrow> terminal_output_state" where
  "output_state has_output = (if has_output then TOPartial else TONone)"

definition cancellation_error_value ::
    "(go_error \<Rightarrow> string) \<Rightarrow> go_error option \<Rightarrow> terminal_output_state \<Rightarrow> error_value" where
  "cancellation_error_value render err out =
     (let e = (case err of None \<Rightarrow> CtxCanceled | Some x \<Rightarrow> x)
      in (new_error_value_with_terminal (render e) (terminal_reason_string TRCancellation)
            TRCancellation TPLoop out)\<lparr>ev_err := Some e\<rparr>)"

section \<open>Provider messages\<close>

definition is_output_delta :: "stream_message \<Rightarrow> bool" where
  "is_output_delta m =
     (if sm_role m = RoleUser \<and> (sm_type m = StreamTranscriptDelta \<or> sm_type m = StreamTranscriptEnd)
      then False
      else sm_type m \<in>
        {StreamTextDelta, StreamReasoningDelta, StreamAudioDelta, StreamImageDelta,
         StreamVideoDelta, StreamFileDelta, StreamEmbeddingDelta, StreamTranscriptDelta,
         StreamToolCallDelta, StreamToolCallEnd, StreamRefusal})"

definition normalize_end :: "message_end_value \<Rightarrow> message_end_value" where
  "normalize_end v =
     (let v1 = (if me_terminal_reason v = TRUnset then v\<lparr>me_terminal_reason := TRProviderAuthoredCompletion\<rparr> else v);
          v2 = (if me_terminal_provenance v1 = TPUnset then v1\<lparr>me_terminal_provenance := TPProvider\<rparr> else v1)
      in if me_output_state v2 = TOUnset then v2\<lparr>me_output_state := TOComplete\<rparr> else v2)"

definition normalize_error :: "bool \<Rightarrow> error_value \<Rightarrow> error_value" where
  "normalize_error has_output v =
     (if ev_non_terminal v then v
      else (let v1 = (if ev_terminal_reason v = TRUnset then v\<lparr>ev_terminal_reason := TRTerminalFailure\<rparr> else v);
                v2 = (if ev_terminal_provenance v1 = TPUnset then v1\<lparr>ev_terminal_provenance := TPProvider\<rparr> else v1)
            in if ev_output_state v2 = TOUnset then v2\<lparr>ev_output_state := output_state has_output\<rparr> else v2))"

text \<open>\<^verbatim>\<open>None\<close> is the panic of a typed nil value, whose fields the code reads.\<close>

definition normalize_provider_terminal_message :: "bool \<Rightarrow> stream_message \<Rightarrow> stream_message option" where
  "normalize_provider_terminal_message has_output m =
     (case sm_value m of
        Some (VMessageEnd None) \<Rightarrow> None
      | Some (VMessageEnd (Some v)) \<Rightarrow> Some (m\<lparr>sm_value := Some (VMessageEnd (Some (normalize_end v)))\<rparr>)
      | Some (VError None) \<Rightarrow> None
      | Some (VError (Some v)) \<Rightarrow> Some (m\<lparr>sm_value := Some (VError (Some (normalize_error has_output v)))\<rparr>)
      | _ \<Rightarrow> Some m)"

section \<open>The stream of one inference\<close>

record model_stream =
  ms_stream_id :: string
  ms_index :: nat
  ms_pass :: int
  ms_out :: "stream_message list"
  ms_lands :: "bool list"

definition stamp_delta :: "model_stream \<Rightarrow> stream_message \<Rightarrow> stream_message" where
  "stamp_delta s m =
     m\<lparr>sm_actor_stream_id := ms_stream_id s, sm_actor_provided_index := int (ms_index s),
       sm_actor_provided_id := actor_message_id ''model'' (ms_stream_id s) (ms_index s),
       sm_actor_id := PModel, sm_loop_pass_id := ms_pass s\<rparr>"

definition write_delta :: "stream_message \<Rightarrow> model_stream \<Rightarrow> model_stream" where
  "write_delta m s =
     s\<lparr>ms_index := Suc (ms_index s),
       ms_out := (case ms_lands s of False # _ \<Rightarrow> ms_out s | _ \<Rightarrow> ms_out s @ [stamp_delta s m]),
       ms_lands := tl (ms_lands s)\<rparr>"

definition write_deltas :: "stream_message list \<Rightarrow> model_stream \<Rightarrow> model_stream" where
  "write_deltas ms s = fold write_delta ms s"

text \<open>
  One iteration of \<^verbatim>\<open>drainStream\<close>: the execution context was found ended (at the loop's head or
  in the \<^verbatim>\<open>select\<close>), the write context was, a message came, or the channel was found closed, with
  what the execution context answers then. An exhausted schedule leaves the relay waiting.
\<close>

datatype drain_event =
    ExecEnded go_error | WriterEnded | Provided stream_message | StreamClosed "go_error option"

datatype drain_result = DrainWaiting | DrainReturned | DrainPanicked

definition cancellation_delta :: "(go_error \<Rightarrow> string) \<Rightarrow> go_error \<Rightarrow> bool \<Rightarrow> stream_message" where
  "cancellation_delta render e has_output =
     mk_delta StreamError RoleAssistant
       (VError (Some (cancellation_error_value render (Some e) (output_state has_output))))"

definition provider_close_delta :: "bool \<Rightarrow> stream_message" where
  "provider_close_delta has_output =
     mk_delta StreamMessageEnd RoleAssistant (VMessageEnd (Some
       (new_message_end_value_with_terminal zero_usage TRProviderClose TPProvider (output_state has_output))))"

definition ends_stream :: "stream_message \<Rightarrow> bool" where
  "ends_stream m =
     (case sm_value m of
        Some (VMessageEnd _) \<Rightarrow> True
      | Some (VError v) \<Rightarrow> is_terminal v
      | _ \<Rightarrow> False)"

fun drain_stream ::
    "(go_error \<Rightarrow> string) \<Rightarrow> drain_event list \<Rightarrow> bool \<Rightarrow> model_stream \<Rightarrow> drain_result \<times> model_stream" where
  "drain_stream render [] has_output s = (DrainWaiting, s)"
| "drain_stream render (ExecEnded e # evs) has_output s =
     (DrainReturned, write_delta (cancellation_delta render e has_output) s)"
| "drain_stream render (WriterEnded # evs) has_output s = (DrainReturned, s)"
| "drain_stream render (StreamClosed (Some e) # evs) has_output s =
     (DrainReturned, write_delta (cancellation_delta render e has_output) s)"
| "drain_stream render (StreamClosed None # evs) has_output s =
     (DrainReturned, write_delta (provider_close_delta has_output) s)"
| "drain_stream render (Provided m # evs) has_output s =
     (case normalize_provider_terminal_message has_output m of
        None \<Rightarrow> (DrainPanicked, s)
      | Some m1 \<Rightarrow>
          (let s1 = write_delta m1 s
           in if ends_stream m1 then (DrainReturned, s1)
              else drain_stream render evs (has_output \<or> is_output_delta m1) s1))"

section \<open>A result without a stream\<close>

definition text_deltas :: "message \<Rightarrow> stream_message list" where
  "text_deltas m =
     (if has_text m
      then mk_delta StreamTextStart RoleAssistant VTextStart
           # (if text_content m \<noteq> '''' then [mk_delta StreamTextDelta RoleAssistant (VTextDelta (text_content m))]
              else [])
           @ [mk_delta StreamTextEnd RoleAssistant VTextEnd]
      else [])"

definition tool_call_deltas :: "tool_call \<Rightarrow> stream_message list" where
  "tool_call_deltas c =
     [mk_delta StreamToolCallStart RoleAssistant (VToolCallStart (tc_id c) (tc_name c)),
      mk_delta StreamToolCallEnd RoleAssistant (VToolCallEnd (tc_id c) (tc_name c) (tc_arguments c))]"

fun media_deltas :: "content_part \<Rightarrow> stream_message list" where
  "media_deltas (AudioPart _ b _) = (if length b > 0 then
     [mk_delta StreamAudioStart RoleAssistant VAudioStart,
      mk_delta StreamAudioDelta RoleAssistant (VAudioDelta b ''''),
      mk_delta StreamAudioEnd RoleAssistant VAudioEnd] else [])"
| "media_deltas (ImagePart _ b ty) = (if length b > 0 then
     [mk_delta StreamImageStart RoleUnset (VImageStart ty),
      mk_delta StreamImageDelta RoleUnset (VImageDelta b),
      mk_delta StreamImageEnd RoleUnset VImageEnd] else [])"
| "media_deltas (VideoPart _ b ty) = (if length b > 0 then
     [mk_delta StreamVideoStart RoleUnset (VVideoStart ty),
      mk_delta StreamVideoDelta RoleUnset (VVideoDelta b),
      mk_delta StreamVideoEnd RoleUnset VVideoEnd] else [])"
| "media_deltas (FilePart _ b n ty) = (if length b > 0 then
     [mk_delta StreamFileStart RoleUnset (VFileStart ty n),
      mk_delta StreamFileDelta RoleUnset (VFileDelta b),
      mk_delta StreamFileEnd RoleUnset VFileEnd] else [])"
| "media_deltas _ = []"

definition usage_deltas :: "token_usage \<Rightarrow> stream_message list" where
  "usage_deltas u =
     (if tu_prompt u \<noteq> 0 \<or> tu_completion u \<noteq> 0 \<or> tu_total u \<noteq> 0 \<or> tu_reasoning u \<noteq> 0
      then [mk_delta StreamUsageInfo RoleUnset (VUsageInfo u)] else [])"

definition synthetic_deltas :: "inference_result \<Rightarrow> stream_message list" where
  "synthetic_deltas r =
     [mk_delta StreamMessageStart RoleAssistant VMessageStart]
     @ text_deltas (ir_message r)
     @ concat (map tool_call_deltas (ir_tool_calls r))
     @ concat (map media_deltas (m_parts (ir_message r)))
     @ usage_deltas (ir_usage r)
     @ [mk_delta StreamMessageEnd RoleAssistant
          (VMessageEnd (Some (new_synthesized_message_end_value (ir_usage r))))]"

definition infer_error_delta :: "(go_error \<Rightarrow> string) \<Rightarrow> go_error \<Rightarrow> stream_message" where
  "infer_error_delta render e =
     (if is_cancellation_error e
      then mk_delta StreamError RoleUnset
             (VError (Some (cancellation_error_value render (Some e) TONone)))
      else mk_delta StreamError RoleUnset
             (VError (Some (new_error_value_with_terminal (render e) '''' TRTerminalFailure TPLoop TONone))))"

definition emit_synthetic_deltas ::
    "(go_error \<Rightarrow> string) \<Rightarrow> inference_result \<Rightarrow> go_error option \<Rightarrow> model_stream \<Rightarrow> model_stream" where
  "emit_synthetic_deltas render r err s =
     (case err of
        Some e \<Rightarrow> write_delta (infer_error_delta render e) s
      | None \<Rightarrow> write_deltas (synthetic_deltas r) s)"

section \<open>One inference\<close>

definition zero_inference_result :: inference_result where
  "zero_inference_result = \<lparr>ir_message = zero_message, ir_tool_calls = [], ir_usage = zero_usage\<rparr>"

text \<open>
  The body of the loop of \<^verbatim>\<open>runInference\<close>. \<^verbatim>\<open>streamed\<close> is what \<^verbatim>\<open>InferStream\<close> answers: an error, no
  channel, or a channel with its schedule; \<^verbatim>\<open>inferred\<close> is what \<^verbatim>\<open>Infer\<close> answers when it is asked.
\<close>

definition inference_turn ::
    "(go_error \<Rightarrow> string) \<Rightarrow> byte list option \<Rightarrow> 'f inference_request
     \<Rightarrow> go_error + drain_event list option \<Rightarrow> inference_result \<times> go_error option
     \<Rightarrow> bool list \<Rightarrow> stream_message list \<Rightarrow> drain_result \<times> model_stream" where
  "inference_turn render random req streamed inferred lands outbox =
     (let s = \<lparr>ms_stream_id = must_stream_id ''model'' random, ms_index = 0,
               ms_pass = iq_loop_pass_id req, ms_out = outbox,
               ms_lands = lands\<rparr>
      in (case streamed of
            Inl e \<Rightarrow>
              if is_cancellation_error e
              then (DrainReturned, emit_synthetic_deltas render zero_inference_result (Some e) s)
              else (DrainReturned, emit_synthetic_deltas render (fst inferred) (snd inferred) s)
          | Inr (Some schedule) \<Rightarrow> drain_stream render schedule False s
          | Inr None \<Rightarrow> (DrainReturned, emit_synthetic_deltas render (fst inferred) (snd inferred) s)))"

section \<open>The relay ends a response exactly once\<close>

lemma write_delta_simps [simp]:
  "ms_lands s = [] \<Longrightarrow> ms_out (write_delta m s) = ms_out s @ [stamp_delta s m]"
  "ms_lands (write_delta m s) = tl (ms_lands s)" "ms_index (write_delta m s) = Suc (ms_index s)"
  "ms_stream_id (write_delta m s) = ms_stream_id s" "ms_pass (write_delta m s) = ms_pass s"
  by (simp_all add: write_delta_def)

lemma stamp_value [simp]: "sm_value (stamp_delta s m) = sm_value m" "sm_type (stamp_delta s m) = sm_type m"
  by (simp_all add: stamp_delta_def)

lemma ends_stamp [simp]: "ends_stream (stamp_delta s m) = ends_stream m"
  by (simp add: ends_stream_def)

lemma cancellation_ends [simp]: "ends_stream (cancellation_delta render e h)"
  by (simp add: ends_stream_def cancellation_delta_def mk_delta_def cancellation_error_value_def
        new_error_value_with_terminal_def new_error_value_def is_terminal_def Let_def)

lemma provider_close_ends [simp]: "ends_stream (provider_close_delta h)"
  by (simp add: ends_stream_def provider_close_delta_def mk_delta_def)

text \<open>Deltas numbered_from from \<^verbatim>\<open>n\<close> on in one stream under one pass.\<close>

fun numbered_from :: "string \<Rightarrow> int \<Rightarrow> nat \<Rightarrow> stream_message list \<Rightarrow> bool" where
  "numbered_from i p n [] = True"
| "numbered_from i p n (m # ms) =
     (sm_actor_stream_id m = i \<and> sm_actor_id m = PModel \<and> sm_loop_pass_id m = p
      \<and> sm_actor_provided_index m = int n \<and> sm_actor_provided_id m = actor_message_id ''model'' i n
      \<and> numbered_from i p (Suc n) ms)"

lemma stamp_fields [simp]:
  "sm_actor_stream_id (stamp_delta s m) = ms_stream_id s" "sm_actor_id (stamp_delta s m) = PModel"
  "sm_loop_pass_id (stamp_delta s m) = ms_pass s" "sm_actor_provided_index (stamp_delta s m) = int (ms_index s)"
  "sm_actor_provided_id (stamp_delta s m) = actor_message_id ''model'' (ms_stream_id s) (ms_index s)"
  by (simp_all add: stamp_delta_def)

definition provided :: "drain_event list \<Rightarrow> stream_message list" where
  "provided evs = concat (map (\<lambda>ev. case ev of Provided m \<Rightarrow> [m] | _ \<Rightarrow> []) evs)"

lemma provided_simps [simp]:
  "provided [] = []" "provided (Provided m # evs) = m # provided evs"
  "provided (ExecEnded e # evs) = provided evs" "provided (WriterEnded # evs) = provided evs"
  "provided (StreamClosed c # evs) = provided evs"
  by (simp_all add: provided_def)

lemma normalize_error_kind [simp]: "ev_non_terminal (normalize_error h v) = ev_non_terminal v"
  by (simp add: normalize_error_def Let_def)

lemma normalize_keeps:
  assumes "normalize_provider_terminal_message h m = Some m1"
  shows "sm_type m1 = sm_type m \<and> sm_role m1 = sm_role m
     \<and> (ends_stream m1 \<longleftrightarrow> ends_stream m) \<and> (ends_stream m \<or> sm_value m1 = sm_value m)"
proof (cases "sm_value m")
  case None
  then show ?thesis using assms by (simp add: normalize_provider_terminal_message_def)
next
  case (Some v)
  then show ?thesis
    using assms
    by (cases v) (auto simp: normalize_provider_terminal_message_def ends_stream_def is_terminal_def
        normalize_error_def split: option.splits)
qed

lemma passed_unaltered:
  assumes "normalize_provider_terminal_message h m = Some m1" "\<not> ends_stream m"
  shows "m1 = m"
proof (cases "sm_value m")
  case (Some v)
  then show ?thesis
    using assms
    by (cases v) (auto simp: normalize_provider_terminal_message_def ends_stream_def is_terminal_def
        normalize_error_def split: option.splits)
qed (use assms in \<open>simp add: normalize_provider_terminal_message_def\<close>)

text \<open>What the relay writes for the event it returns on, and the stamps of what it writes.\<close>

definition ending_of ::
    "(go_error \<Rightarrow> string) \<Rightarrow> bool \<Rightarrow> drain_event \<Rightarrow> stream_message option" where
  "ending_of render has_output ev =
     (case ev of
        Provided m \<Rightarrow> normalize_provider_terminal_message has_output m
      | StreamClosed None \<Rightarrow> Some (provider_close_delta has_output)
      | StreamClosed (Some e) \<Rightarrow> Some (cancellation_delta render e has_output)
      | ExecEnded e \<Rightarrow> Some (cancellation_delta render e has_output)
      | WriterEnded \<Rightarrow> None)"

definition passed_on :: "drain_event \<Rightarrow> bool" where
  "passed_on ev = (case ev of Provided m \<Rightarrow> \<not> ends_stream m | _ \<Rightarrow> False)"

fun stamp_all :: "model_stream \<Rightarrow> stream_message list \<Rightarrow> stream_message list" where
  "stamp_all s [] = []"
| "stamp_all s (m # ms) = stamp_delta s m # stamp_all (s\<lparr>ms_index := Suc (ms_index s)\<rparr>) ms"

lemma stamp_all_numbered: "numbered_from (ms_stream_id s) (ms_pass s) (ms_index s) (stamp_all s ms)"
proof (induction ms arbitrary: s)
  case (Cons m ms)
  show ?case using Cons.IH [of "s\<lparr>ms_index := Suc (ms_index s)\<rparr>"] by simp
qed simp

lemma stamp_all_same:
  assumes "ms_stream_id s' = ms_stream_id s" "ms_index s' = ms_index s" "ms_pass s' = ms_pass s"
  shows "stamp_all s' ms = stamp_all s ms"
  using assms
proof (induction ms arbitrary: s s')
  case (Cons m ms)
  then show ?case
    using Cons.IH [of "s'\<lparr>ms_index := Suc (ms_index s')\<rparr>" "s\<lparr>ms_index := Suc (ms_index s)\<rparr>"]
    by (simp add: stamp_delta_def)
qed simp

definition relayed ::
    "(go_error \<Rightarrow> string) \<Rightarrow> drain_event list \<Rightarrow> bool \<Rightarrow> model_stream \<Rightarrow> model_stream
     \<Rightarrow> drain_event list \<Rightarrow> drain_event \<Rightarrow> stream_message \<Rightarrow> bool" where
  "relayed render evs h s s' before ev e \<longleftrightarrow>
     (\<exists>after. evs = before @ ev # after) \<and> list_all passed_on before
     \<and> ending_of render (h \<or> list_ex is_output_delta (provided before)) ev = Some e \<and> ends_stream e
     \<and> ms_out s' = ms_out s @ stamp_all s (provided before @ [e])"

lemma relay_ends_here:
  assumes "drain_stream render (ev # evs) h s = (DrainReturned, s')" "ev \<noteq> WriterEnded"
    and "ms_lands s = []" "\<not> passed_on ev"
  shows "\<exists>e. relayed render (ev # evs) h s s' [] ev e"
proof (cases ev)
  case (Provided m)
  obtain m1 where m1: "normalize_provider_terminal_message h m = Some m1"
    using assms(1) Provided by (cases "normalize_provider_terminal_message h m") auto
  have "ends_stream m1" using normalize_keeps [OF m1] assms(4) Provided by (simp add: passed_on_def)
  then show ?thesis
    using assms(1,3) Provided m1 by (auto simp: relayed_def ending_of_def Let_def)
next
  case (StreamClosed c)
  then show ?thesis using assms(1,3) by (cases c) (auto simp: relayed_def ending_of_def)
qed (use assms in \<open>auto simp: relayed_def ending_of_def\<close>)

lemma relay_shape:
  assumes "drain_stream render evs h s = (DrainReturned, s')" "WriterEnded \<notin> set evs" "ms_lands s = []"
  shows "\<exists>before ev e. relayed render evs h s s' before ev e"
  using assms
proof (induction evs arbitrary: h s)
  case (Cons ev evs)
  show ?case
  proof (cases "passed_on ev")
    case False
    then show ?thesis using relay_ends_here [OF Cons.prems(1) _ Cons.prems(3)] Cons.prems(2) by auto
  next
    case True
    then obtain m where ev: "ev = Provided m" and going: "\<not> ends_stream m"
      by (cases ev) (auto simp: passed_on_def)
    obtain m1 where m1: "normalize_provider_terminal_message h m = Some m1"
      using Cons.prems(1) ev by (cases "normalize_provider_terminal_message h m") auto
    note same = passed_unaltered [OF m1 going]
    have run: "drain_stream render evs (h \<or> is_output_delta m) (write_delta m s) = (DrainReturned, s')"
      using Cons.prems(1) ev m1 same going by (simp add: Let_def)
    obtain before ev' e where rest: "relayed render evs (h \<or> is_output_delta m) (write_delta m s) s' before ev' e"
      using Cons.IH [OF run] Cons.prems(2,3) by auto
    have "stamp_all (write_delta m s) ms = stamp_all (s\<lparr>ms_index := Suc (ms_index s)\<rparr>) ms" for ms
      by (rule stamp_all_same) simp_all
    then have "relayed render (ev # evs) h s s' (ev # before) ev' e"
      using rest ev True Cons.prems(3) by (auto simp: relayed_def disj_assoc)
    then show ?thesis by blast
  qed
qed simp

text \<open>
  C32: whenever the relay of a provider stream returns while its output is still wanted, it wrote
  every message the provider sent before the event it returned on, in order and unaltered, none of
  them ending the response, and then exactly one delta that ends it: the provider's own end or
  error with its terminal fields filled in, a cancellation, or a synthetic end for a stream that
  just closed, each saying whether output had been relayed. All are numbered consecutively in one
  actor stream.
\<close>

theorem relay_ends_once:
  assumes "drain_stream render evs False s = (DrainReturned, s')"
    and "WriterEnded \<notin> set evs" "ms_lands s = []"
  shows "\<exists>before ev after e. evs = before @ ev # after \<and> list_all passed_on before
     \<and> ending_of render (list_ex is_output_delta (provided before)) ev = Some e \<and> ends_stream e
     \<and> ms_out s' = ms_out s @ stamp_all s (provided before @ [e])
     \<and> numbered_from (ms_stream_id s) (ms_pass s) (ms_index s) (stamp_all s (provided before @ [e]))"
  using relay_shape [OF assms] stamp_all_numbered unfolding relayed_def by auto

definition sample_stream :: model_stream where
  "sample_stream = \<lparr>ms_stream_id = ''model-1'', ms_index = 0, ms_pass = 2, ms_out = [], ms_lands = []\<rparr>"

definition hello_delta :: stream_message where
  "hello_delta = mk_delta StreamTextDelta RoleAssistant (VTextDelta ''a'')"

lemma relay_ends_once_witness:
  "ms_out (snd (drain_stream (\<lambda>_. '''') [Provided hello_delta, StreamClosed None] False sample_stream))
     = stamp_all sample_stream [hello_delta, provider_close_delta True]"
proof -
  let ?evs = "[Provided hello_delta, StreamClosed None]"
  obtain s' where run: "drain_stream (\<lambda>_. '''') ?evs False sample_stream = (DrainReturned, s')"
    by (simp add: normalize_provider_terminal_message_def hello_delta_def mk_delta_def ends_stream_def)
  have speaks: "is_output_delta hello_delta" "\<not> ends_stream hello_delta"
    by (simp_all add: hello_delta_def is_output_delta_def ends_stream_def mk_delta_def)
  have "ms_lands sample_stream = []" "ms_out sample_stream = []" by (simp_all add: sample_stream_def)
  then obtain before ev after e where split: "?evs = before @ ev # after" "list_all passed_on before"
      and ends: "ending_of (\<lambda>_. '''') (list_ex is_output_delta (provided before)) ev = Some e" "ends_stream e"
      and out: "ms_out s' = stamp_all sample_stream (provided before @ [e])"
    using relay_ends_once [OF run] by auto
  have "before = [Provided hello_delta] \<and> ev = StreamClosed None"
  proof (cases before)
    case Nil
    then have "ev = Provided hello_delta" using split(1) by simp
    then have "e = hello_delta"
      using ends(1) by (simp add: ending_of_def normalize_provider_terminal_message_def hello_delta_def mk_delta_def)
    then show ?thesis using ends(2) speaks(2) by simp
  next
    case (Cons x xs)
    then show ?thesis using split by (cases xs) (auto simp: passed_on_def)
  qed
  then show ?thesis using ends(1) out run speaks(1) by (simp add: ending_of_def)
qed

section \<open>A result without a stream is assembled into the same message\<close>

lemma write_deltas_effect:
  "ms_lands s = [] \<Longrightarrow> \<exists>ds. ms_out (write_deltas ms s) = ms_out s @ ds \<and> map sm_value ds = map sm_value ms
     \<and> map sm_type ds = map sm_type ms
     \<and> numbered_from (ms_stream_id s) (ms_pass s) (ms_index s) ds"
proof (induction ms arbitrary: s)
  case (Cons m ms)
  obtain ds where "ms_out (write_deltas ms (write_delta m s)) = ms_out (write_delta m s) @ ds"
      "map sm_value ds = map sm_value ms" "map sm_type ds = map sm_type ms"
      "numbered_from (ms_stream_id s) (ms_pass s) (Suc (ms_index s)) ds"
    using Cons.IH [of "write_delta m s"] Cons.prems by auto
  then show ?case
    using Cons.prems by (intro exI [of _ "stamp_delta s m # ds"]) (simp add: write_deltas_def)
qed (simp add: write_deltas_def)

lemma model_delta_value:
  assumes "sm_value d = sm_value e"
  shows "apply_model_delta d st = apply_model_delta e st"
  unfolding apply_model_delta_def assms ..

lemma fold_model_values:
  "map sm_value ds = map sm_value es \<Longrightarrow> fold apply_model_delta ds st = fold apply_model_delta es st"
proof (induction ds arbitrary: es st)
  case (Cons d ds)
  then obtain e es' where "es = e # es'" "sm_value d = sm_value e" "map sm_value ds = map sm_value es'"
    by (cases es) auto
  then show ?case using Cons.IH model_delta_value [of d e st] by simp
qed simp

definition no_call :: "stream_message \<Rightarrow> bool" where
  "no_call d = (case sm_value d of Some (VToolCallEnd _ _ _) \<Rightarrow> False | _ \<Rightarrow> True)"

lemma no_call_keeps: "list_all no_call ds \<Longrightarrow> mr_calls (fold apply_model_delta ds st) = mr_calls st"
proof (induction ds arbitrary: st)
  case (Cons d ds)
  then have "mr_calls (apply_model_delta d st) = mr_calls st"
    by (simp add: apply_model_delta_def apply_textual_def no_call_def split: option.splits stream_value.splits)
  then show ?case using Cons by simp
qed simp

lemma tool_calls_assembled:
  "mr_calls (fold apply_model_delta (concat (map tool_call_deltas cs)) st) = mr_calls st @ cs"
proof (induction cs arbitrary: st)
  case (Cons c cs)
  have "mr_calls (fold apply_model_delta (tool_call_deltas c) st) = mr_calls st @ [c]"
    by (simp add: tool_call_deltas_def apply_model_delta_def apply_textual_def end_tool_call_def mk_delta_def)
  then show ?case using Cons by simp
qed simp

lemma media_no_call: "list_all no_call (media_deltas p)"
  by (cases p) (auto simp: mk_delta_def no_call_def)

lemma media_no_text: "concat (map delta_text (media_deltas p)) = ''''"
  by (cases p) (auto simp: mk_delta_def delta_text_def)

lemma media_audio: "concat (map delta_audio (media_deltas p)) = audio_of_part p"
  by (cases p) (auto simp: mk_delta_def delta_audio_def)

lemma medias_plain:
  "list_all no_call (concat (map media_deltas ps))"
  "concat (map delta_text (concat (map media_deltas ps))) = ''''"
  "concat (map delta_audio (concat (map media_deltas ps))) = concat (map audio_of_part ps)"
  by (induction ps) (simp_all add: media_no_call media_no_text media_audio)

lemma no_text_content: "\<not> has_text m \<Longrightarrow> text_content m = ''''"
proof -
  have "\<not> list_ex is_text_part ps \<Longrightarrow> concat (map text_of_part ps) = ''''" for ps
  proof (induction ps)
    case (Cons p ps)
    then show ?case by (cases p) auto
  qed simp
  then show "\<not> has_text m \<Longrightarrow> text_content m = ''''" by (simp add: has_text_def text_content_def)
qed

lemma text_plain:
  "list_all no_call (text_deltas m)" "concat (map delta_text (text_deltas m)) = text_content m"
  "concat (map delta_audio (text_deltas m)) = []"
  using no_text_content [of m]
  by (auto simp: text_deltas_def mk_delta_def no_call_def delta_text_def delta_audio_def)

lemma usage_plain:
  "list_all no_call (usage_deltas u)" "concat (map delta_text (usage_deltas u)) = ''''"
  "concat (map delta_audio (usage_deltas u)) = []"
  by (auto simp: usage_deltas_def mk_delta_def no_call_def delta_text_def delta_audio_def)

lemma calls_plain:
  "concat (map delta_text (concat (map tool_call_deltas cs))) = ''''"
  "concat (map delta_audio (concat (map tool_call_deltas cs))) = []"
  by (induction cs) (simp_all add: tool_call_deltas_def mk_delta_def delta_text_def delta_audio_def)

lemma synthetic_contents:
  "concat (map delta_text (synthetic_deltas r)) = text_content (ir_message r)"
  "concat (map delta_audio (synthetic_deltas r)) = audio_content (ir_message r)"
  by (simp_all add: synthetic_deltas_def audio_content_def mk_delta_def delta_text_def [of "_\<lparr>sm_type := _, sm_role := _, sm_value := _\<rparr>"]
        delta_audio_def [of "_\<lparr>sm_type := _, sm_role := _, sm_value := _\<rparr>"] text_plain medias_plain usage_plain calls_plain)

lemma synthetic_calls:
  "mr_calls (fold apply_model_delta (synthetic_deltas r) empty_model_reconstruction) = ir_tool_calls r"
proof -
  have plain: "list_all no_call [mk_delta StreamMessageStart RoleAssistant VMessageStart]"
    "list_all no_call [mk_delta StreamMessageEnd RoleAssistant (VMessageEnd e)]" for e
    by (simp_all add: no_call_def mk_delta_def)
  show ?thesis
    unfolding synthetic_deltas_def fold_append comp_def
    using plain by (simp only: no_call_keeps text_plain medias_plain usage_plain tool_calls_assembled)
      (simp add: empty_model_reconstruction_def)
qed

text \<open>
  a provider without streaming gives the same assembled turn: the deltas written for its
  result are one numbered_from stream from MESSAGE.START to a synthesized MESSAGE.END, and the message
  put together from them has the result's text, audio and tool calls.
\<close>

theorem synthetic_result_roundtrip:
  assumes "ms_lands s = []"
  shows "\<exists>ds. ms_out (emit_synthetic_deltas render r None s) = ms_out s @ ds
     \<and> numbered_from (ms_stream_id s) (ms_pass s) (ms_index s) ds
     \<and> sm_type (hd ds) = StreamMessageStart \<and> sm_type (last ds) = StreamMessageEnd
     \<and> sm_value (last ds) = Some (VMessageEnd (Some (new_synthesized_message_end_value (ir_usage r))))
     \<and> text_content (reconstruct_model_message ds) = text_content (ir_message r)
     \<and> audio_content (reconstruct_model_message ds) = audio_content (ir_message r)
     \<and> m_tool_calls (reconstruct_model_message ds) = ir_tool_calls r"
proof -
  obtain ds where ds: "ms_out (emit_synthetic_deltas render r None s) = ms_out s @ ds"
      "map sm_value ds = map sm_value (synthetic_deltas r)" "map sm_type ds = map sm_type (synthetic_deltas r)"
      "numbered_from (ms_stream_id s) (ms_pass s) (ms_index s) ds"
    using write_deltas_effect [OF assms, of "synthetic_deltas r"] by (auto simp: emit_synthetic_deltas_def)
  have same: "fold apply_model_delta ds st = fold apply_model_delta (synthetic_deltas r) st" for st
    by (rule fold_model_values [OF ds(2)])
  then have message: "reconstruct_model_message ds = reconstruct_model_message (synthetic_deltas r)"
    by (simp add: reconstruct_model_message_def)
  have "ds \<noteq> []" using ds(2) by (auto simp: synthetic_deltas_def)
  then have ends: "sm_type (hd ds) = hd (map sm_type (synthetic_deltas r))"
      "sm_type (last ds) = last (map sm_type (synthetic_deltas r))"
      "sm_value (last ds) = last (map sm_value (synthetic_deltas r))"
    using ds(2,3) by (metis hd_map last_map)+
  have "m_tool_calls (reconstruct_model_message (synthetic_deltas r)) = ir_tool_calls r"
    by (simp add: reconstruct_model_message_def synthetic_calls Let_def)
  moreover have "hd (map sm_type (synthetic_deltas r)) = StreamMessageStart"
    and "last (map sm_type (synthetic_deltas r)) = StreamMessageEnd"
    and "last (map sm_value (synthetic_deltas r))
      = Some (VMessageEnd (Some (new_synthesized_message_end_value (ir_usage r))))"
    by (simp_all add: synthetic_deltas_def mk_delta_def)
  ultimately show ?thesis
    using ds(1,4) ends
    by (intro exI [of _ ds])
      (simp add: message reconstruct_text_content reconstruct_audio_content synthetic_contents)
qed

text \<open>What the synthetic deltas leave out: a refusal the result carries is not in the message.\<close>

lemma synthetic_refusal_lost:
  "m_refusal (reconstruct_model_message (synthetic_deltas
     (zero_inference_result\<lparr>ir_message := zero_message\<lparr>m_refusal := ''no''\<rparr>\<rparr>))) = ''''"
  by (simp add: zero_inference_result_def synthetic_deltas_def text_deltas_def usage_deltas_def has_text_def
       zero_message_def zero_usage_def reconstruct_model_message_def apply_model_delta_def apply_textual_def
       mk_delta_def empty_model_reconstruction_def Let_def)

end
