(* ===== verification/Frame_Buffer.thy ===== *)
theory Frame_Buffer
  imports Fifo "HOL-Library.Word" "HOL-Library.Sublist"
begin

text \<open>
  The memory-only endpoints of the audio runtime, \<^verbatim>\<open>go-audio/pkg/audio/buffer.go\<close>,
  \<^verbatim>\<open>control.go\<close> and the frame type of \<^verbatim>\<open>media_contract.go\<close>: a circular buffer of PCM frames
  bounded in frames and in samples, with an epoch that invalidates queued audio, and the
  separate command queue. Counters are the 64 bit words of the source; lengths and
  positions are naturals, since the code bounds them by slice lengths. A nil endpoint is
  \<^verbatim>\<open>None\<close>. The wake channel \<^verbatim>\<open>changed\<close> carries no data: a waiting call is modelled by the
  rounds it goes through and what others did to the buffer between them.
\<close>

section \<open>Frames and statistics\<close>

record device_format =
  df_sample_rate :: int
  df_channels :: int
  df_bit_depth :: int
  df_encoding :: string

record playback_response =
  pr_response_id :: string
  pr_item_id :: string
  pr_content_index :: int

record pcm_frame =
  pf_samples :: "16 word list"
  pf_format :: device_format
  pf_stream_id :: string
  pf_epoch :: "64 word"
  pf_sequence :: "64 word"
  pf_start_sample :: "64 word"
  pf_end_of_response :: bool
  pf_playback :: playback_response

definition zero_format :: device_format where
  "zero_format = \<lparr>df_sample_rate = 0, df_channels = 0, df_bit_depth = 0, df_encoding = ''''\<rparr>"

definition zero_playback :: playback_response where
  "zero_playback = \<lparr>pr_response_id = '''', pr_item_id = '''', pr_content_index = 0\<rparr>"

definition zero_frame :: pcm_frame where
  "zero_frame = \<lparr>pf_samples = [], pf_format = zero_format, pf_stream_id = '''', pf_epoch = 0,
     pf_sequence = 0, pf_start_sample = 0, pf_end_of_response = False, pf_playback = zero_playback\<rparr>"

record buffer_stats =
  bs_capacity_frames :: nat
  bs_capacity_samples :: nat
  bs_queued_frames :: nat
  bs_queued_samples :: nat
  bs_admitted :: "64 word"
  bs_consumed :: "64 word"
  bs_discarded :: "64 word"
  bs_rejected :: "64 word"
  bs_epoch :: "64 word"
  bs_closed :: bool

definition zero_stats :: buffer_stats where
  "zero_stats = \<lparr>bs_capacity_frames = 0, bs_capacity_samples = 0, bs_queued_frames = 0,
     bs_queued_samples = 0, bs_admitted = 0, bs_consumed = 0, bs_discarded = 0, bs_rejected = 0,
     bs_epoch = 0, bs_closed = False\<rparr>"

definition err_buffer_full :: go_error where
  "err_buffer_full = ErrorText ''audio buffer capacity exhausted''"

definition err_buffer_closed :: go_error where
  "err_buffer_closed = ErrorText ''audio buffer producer closed''"

definition err_stale_epoch :: go_error where
  "err_stale_epoch = ErrorText ''audio frame belongs to an invalidated epoch''"

definition err_invalid_buffer :: go_error where
  "err_invalid_buffer = ErrorText ''audio buffer capacity must be positive''"

definition err_frame_too_large :: go_error where
  "err_frame_too_large = ErrorText ''audio frame exceeds buffer sample capacity''"

definition err_eof :: go_error where
  "err_eof = ErrorText ''EOF''"

lemmas buffer_error_defs = err_buffer_full_def err_buffer_closed_def err_stale_epoch_def
  err_invalid_buffer_def err_frame_too_large_def err_eof_def

section \<open>The frame buffer\<close>

record frame_buffer =
  fb_frames :: "pcm_frame list"
  fb_head :: nat
  fb_size :: nat
  fb_samples :: nat
  fb_max_samples :: nat
  fb_stats :: buffer_stats

definition new_frame_buffer :: "int \<Rightarrow> int \<Rightarrow> frame_buffer result" where
  "new_frame_buffer max_frames max_samples =
     (if max_frames \<le> 0 \<or> max_samples \<le> 0 then Inl err_invalid_buffer
      else Inr \<lparr>fb_frames = replicate (nat max_frames) zero_frame, fb_head = 0, fb_size = 0,
             fb_samples = 0, fb_max_samples = nat max_samples,
             fb_stats = zero_stats\<lparr>bs_capacity_frames := nat max_frames,
                                   bs_capacity_samples := nat max_samples\<rparr>\<rparr>)"

definition can_submit_locked :: "pcm_frame \<Rightarrow> frame_buffer \<Rightarrow> go_error option" where
  "can_submit_locked f q =
     (if bs_closed (fb_stats q) then Some err_buffer_closed
      else if pf_epoch f \<noteq> bs_epoch (fb_stats q) then Some err_stale_epoch
      else if length (pf_samples f) > fb_max_samples q then Some err_frame_too_large
      else if fb_size q = length (fb_frames q)
           \<or> length (pf_samples f) > fb_max_samples q - fb_samples q then Some err_buffer_full
      else None)"

definition reject_frame :: "frame_buffer \<Rightarrow> frame_buffer" where
  "reject_frame q = fb_stats_update (bs_rejected_update (\<lambda>n. n + 1)) q"

definition submit_locked :: "pcm_frame \<Rightarrow> frame_buffer \<Rightarrow> go_error option \<times> frame_buffer" where
  "submit_locked f q =
     (case can_submit_locked f q of
        Some e \<Rightarrow> (Some e, reject_frame q)
      | None \<Rightarrow>
          (None,
           q\<lparr>fb_frames := (fb_frames q)[(fb_head q + fb_size q) mod length (fb_frames q) := f],
             fb_size := fb_size q + 1,
             fb_samples := fb_samples q + length (pf_samples f),
             fb_stats := bs_admitted_update (\<lambda>n. n + of_nat (length (pf_samples f))) (fb_stats q)\<rparr>))"

text \<open>\<^verbatim>\<open>FrameProducer.TrySubmit\<close>, on the buffer the producer holds, if any.\<close>

definition try_submit :: "pcm_frame \<Rightarrow> frame_buffer option \<Rightarrow> go_error option \<times> frame_buffer option" where
  "try_submit f p =
     (case p of None \<Rightarrow> (Some err_buffer_closed, None)
      | Some q \<Rightarrow> map_prod id Some (submit_locked f q))"

text \<open>
  \<^verbatim>\<open>FrameProducer.Submit\<close>: one round per wake. A round has the context when it starts, what
  ends its wait (the context or a change), and what the others did to the buffer before the
  next round. \<^verbatim>\<open>None\<close>: it still waits after the given rounds.
\<close>

record wait_round =
  wr_ctx :: ctx_state
  wr_wake :: ctx_state
  wr_others :: "frame_buffer \<Rightarrow> frame_buffer"

fun submit_wait ::
    "pcm_frame \<Rightarrow> wait_round list \<Rightarrow> frame_buffer \<Rightarrow> (go_error option \<times> frame_buffer) option" where
  "submit_wait f [] q = None"
| "submit_wait f (r # rs) q =
     (case wr_ctx r of
        CtxDone e \<Rightarrow> Some (Some e, q)
      | CtxLive \<Rightarrow>
          (case can_submit_locked f q of
             None \<Rightarrow> Some (submit_locked f q)
           | Some e \<Rightarrow>
               if e \<noteq> err_buffer_full then Some (Some e, reject_frame q)
               else (case wr_wake r of
                       CtxDone e' \<Rightarrow> Some (Some e', wr_others r q)
                     | CtxLive \<Rightarrow> submit_wait f rs (wr_others r q))))"

text \<open>\<^verbatim>\<open>receiveLocked\<close>: the frame, whether there is one, and the error.\<close>

definition receive_locked :: "frame_buffer \<Rightarrow> (pcm_frame option) result \<times> frame_buffer" where
  "receive_locked q =
     (if fb_size q = 0
      then (if bs_closed (fb_stats q) then (Inl err_eof, q) else (Inr None, q))
      else (let f = fb_frames q ! fb_head q in
            (Inr (Some f),
             q\<lparr>fb_frames := (fb_frames q)[fb_head q := zero_frame],
               fb_head := (fb_head q + 1) mod length (fb_frames q),
               fb_size := fb_size q - 1,
               fb_samples := fb_samples q - length (pf_samples f),
               fb_stats := bs_consumed_update (\<lambda>n. n + of_nat (length (pf_samples f))) (fb_stats q)\<rparr>)))"

definition try_receive :: "frame_buffer option \<Rightarrow> (pcm_frame option) result \<times> frame_buffer option" where
  "try_receive c =
     (case c of None \<Rightarrow> (Inl err_eof, None) | Some q \<Rightarrow> map_prod id Some (receive_locked q))"

fun receive_wait :: "wait_round list \<Rightarrow> frame_buffer \<Rightarrow> (pcm_frame result \<times> frame_buffer) option" where
  "receive_wait [] q = None"
| "receive_wait (r # rs) q =
     (case wr_ctx r of
        CtxDone e \<Rightarrow> Some (Inl e, q)
      | CtxLive \<Rightarrow>
          (case receive_locked q of
             (Inl e, q') \<Rightarrow> Some (Inl e, q')
           | (Inr (Some f), q') \<Rightarrow> Some (Inr f, q')
           | (Inr None, q') \<Rightarrow>
               (case wr_wake r of
                  CtxDone e' \<Rightarrow> Some (Inl e', wr_others r q')
                | CtxLive \<Rightarrow> receive_wait rs (wr_others r q'))))"

definition close_producer :: "frame_buffer \<Rightarrow> frame_buffer" where
  "close_producer q = fb_stats_update (bs_closed_update (\<lambda>_. True)) q"

definition invalidate :: "64 word \<Rightarrow> frame_buffer \<Rightarrow> nat \<times> frame_buffer" where
  "invalidate epoch q =
     (if epoch \<le> bs_epoch (fb_stats q) then (0, q)
      else (fb_samples q,
            q\<lparr>fb_frames := replicate (length (fb_frames q)) zero_frame,
              fb_head := 0, fb_size := 0, fb_samples := 0,
              fb_stats := (fb_stats q)
                \<lparr>bs_discarded := bs_discarded (fb_stats q) + of_nat (fb_samples q),
                 bs_epoch := epoch\<rparr>\<rparr>))"

definition stats_snapshot :: "frame_buffer option \<Rightarrow> buffer_stats" where
  "stats_snapshot c =
     (case c of None \<Rightarrow> zero_stats\<lparr>bs_closed := True\<rparr>
      | Some q \<Rightarrow> (fb_stats q)\<lparr>bs_queued_frames := fb_size q, bs_queued_samples := fb_samples q\<rparr>)"

section \<open>The command queue\<close>

datatype command_kind = CommandInterrupt | CommandDrain

record command =
  cmd_id :: "64 word"
  cmd_epoch :: "64 word"
  cmd_kind :: command_kind

definition err_control_full :: go_error where
  "err_control_full = ErrorText ''audio control buffer capacity exhausted''"

record command_buffer =
  cb_queue :: "command list"
  cb_capacity :: nat
  cb_closed :: bool

definition new_command_buffer :: "int \<Rightarrow> command_buffer result" where
  "new_command_buffer capacity =
     (if capacity \<le> 0 then Inl err_invalid_buffer
      else Inr \<lparr>cb_queue = [], cb_capacity = nat capacity, cb_closed = False\<rparr>)"

definition command_submit :: "command \<Rightarrow> command_buffer \<Rightarrow> go_error option \<times> command_buffer" where
  "command_submit c b =
     (if cb_closed b then (Some err_buffer_closed, b)
      else if length (cb_queue b) < cb_capacity b
      then (None, b\<lparr>cb_queue := cb_queue b @ [c]\<rparr>)
      else (Some err_control_full, b))"

text \<open>
  \<^verbatim>\<open>CommandConsumer.Receive\<close> on a non-nil queue: the context is asked before, a queued
  command wins, and only then the call waits for the first of a command, the context and
  the close. \<^verbatim>\<open>later\<close> is the queue at that second \<^verbatim>\<open>select\<close>, \<^verbatim>\<open>wake\<close> the context
  then and \<^verbatim>\<open>pick\<close> the ready case Go takes; a closed queue is drained before EOF.
\<close>

definition pop_command :: "command_buffer \<Rightarrow> (command \<times> command_buffer) option" where
  "pop_command b = (case cb_queue b of [] \<Rightarrow> None | c # cs \<Rightarrow> Some (c, b\<lparr>cb_queue := cs\<rparr>))"

definition command_ready :: "ctx_state \<Rightarrow> command_buffer \<Rightarrow> (command result \<times> command_buffer) list" where
  "command_ready wake later =
     (case pop_command later of None \<Rightarrow> [] | Some (c, b') \<Rightarrow> [(Inr c, b')])
     @ (case wake of CtxLive \<Rightarrow> [] | CtxDone e \<Rightarrow> [(Inl e, later)])
     @ (if cb_closed later
        then [case pop_command later of Some (c, b') \<Rightarrow> (Inr c, b') | None \<Rightarrow> (Inl err_eof, later)]
        else [])"

definition command_receive ::
    "ctx_state \<Rightarrow> nat \<Rightarrow> ctx_state \<Rightarrow> command_buffer \<Rightarrow> command_buffer
     \<Rightarrow> (command result \<times> command_buffer) option" where
  "command_receive ctx pick wake b later =
     (case ctx of
        CtxDone e \<Rightarrow> Some (Inl e, b)
      | CtxLive \<Rightarrow>
          (case pop_command b of
             Some (c, b') \<Rightarrow> Some (Inr c, b')
           | None \<Rightarrow>
               (let ready = command_ready wake later
                in if ready = [] then None else Some (ready ! (pick mod length ready)))))"

definition command_close :: "command_buffer \<Rightarrow> command_buffer" where
  "command_close b = b\<lparr>cb_closed := True\<rparr>"

section \<open>The circular buffer is a queue\<close>

text \<open>The queued frames, oldest first.\<close>

definition fb_queue :: "frame_buffer \<Rightarrow> pcm_frame list" where
  "fb_queue q = map (\<lambda>i. fb_frames q ! ((fb_head q + i) mod length (fb_frames q))) [0..<fb_size q]"

definition sample_count :: "pcm_frame list \<Rightarrow> nat" where
  "sample_count fs = sum_list (map (\<lambda>f. length (pf_samples f)) fs)"

lemma sample_count_simps [simp]:
  "sample_count [] = 0" "sample_count (f # fs) = length (pf_samples f) + sample_count fs"
  "sample_count (fs @ gs) = sample_count fs + sample_count gs"
  by (simp_all add: sample_count_def)

text \<open>
  The state invariant: the ring's indices, both ceilings, the sample count, the epoch of what
  is queued, and the ledger of admitted, consumed and discarded samples (as 64 bit words).
\<close>

definition fb_ok :: "frame_buffer \<Rightarrow> bool" where
  "fb_ok q \<longleftrightarrow> fb_head q < length (fb_frames q) \<and> fb_size q \<le> length (fb_frames q)
     \<and> fb_samples q = sample_count (fb_queue q) \<and> fb_samples q \<le> fb_max_samples q
     \<and> list_all (\<lambda>f. pf_epoch f = bs_epoch (fb_stats q)) (fb_queue q)
     \<and> bs_admitted (fb_stats q)
         = bs_consumed (fb_stats q) + bs_discarded (fb_stats q) + of_nat (fb_samples q)"

lemma length_fb_queue [simp]: "length (fb_queue q) = fb_size q"
  by (simp add: fb_queue_def)

lemma ring_indices_differ:
  assumes "i < s" "s < (n::nat)"
  shows "(h + i) mod n \<noteq> (h + s) mod n"
proof
  assume "(h + i) mod n = (h + s) mod n"
  then have "n dvd (h + s) - (h + i)"
    using assms(1) by (metis mod_eq_dvd_iff_nat add_le_cancel_left less_imp_le_nat)
  then have "n dvd s - i" by simp
  then show False using assms by (auto dest: dvd_imp_le)
qed

lemma ring_push:
  assumes "s < length fs"
  shows "map (\<lambda>i. fs[(h + s) mod length fs := f] ! ((h + i) mod length fs)) [0..<Suc s]
       = map (\<lambda>i. fs ! ((h + i) mod length fs)) [0..<s] @ [f]"
proof -
  have "map (\<lambda>i. fs[(h + s) mod length fs := f] ! ((h + i) mod length fs)) [0..<s]
      = map (\<lambda>i. fs ! ((h + i) mod length fs)) [0..<s]"
    by (rule map_cong) (auto simp: ring_indices_differ [OF _ assms, symmetric] nth_list_update)
  moreover have "fs[(h + s) mod length fs := f] ! ((h + s) mod length fs) = f"
    using assms by (intro nth_list_update_eq mod_less_divisor) linarith
  ultimately show ?thesis by simp
qed

lemma ring_pop:
  assumes "h < length fs" "0 < s" "s \<le> length fs"
  shows "map (\<lambda>i. fs ! ((h + i) mod length fs)) [0..<s]
       = fs ! h # map (\<lambda>i. fs[h := z] ! (((h + 1) mod length fs + i) mod length fs)) [0..<s - 1]"
proof -
  have step: "fs[h := z] ! (((h + 1) mod length fs + i) mod length fs) = fs ! ((h + Suc i) mod length fs)"
    if "i < s - 1" for i
  proof -
    have "h = (h + 0) mod length fs" using assms(1) by simp
    also have "\<dots> \<noteq> (h + Suc i) mod length fs"
      using that assms by (intro ring_indices_differ) simp_all
    finally show ?thesis by (simp add: mod_simps nth_list_update)
  qed
  have "[0..<s] = 0 # map Suc [0..<s - 1]"
    using assms(2) by (simp add: map_Suc_upt upt_conv_Cons)
  then have "map (\<lambda>i. fs ! ((h + i) mod length fs)) [0..<s]
    = fs ! h # map (\<lambda>i. fs ! ((h + Suc i) mod length fs)) [0..<s - 1]"
    using assms(1) by (simp add: comp_def)
  also have "map (\<lambda>i. fs ! ((h + Suc i) mod length fs)) [0..<s - 1]
    = map (\<lambda>i. fs[h := z] ! (((h + 1) mod length fs + i) mod length fs)) [0..<s - 1]"
    by (rule map_cong [OF refl], subst step) auto
  finally show ?thesis .
qed

lemma submit_refused: "submit_locked f q = (Some e, q') \<Longrightarrow> q' = reject_frame q"
  by (auto simp: submit_locked_def split: option.splits)

lemma fb_queue_stats [simp]:
  "fb_queue (fb_stats_update g q) = fb_queue q" "fb_queue (reject_frame q) = fb_queue q"
  "fb_queue (close_producer q) = fb_queue q"
  by (simp_all add: fb_queue_def reject_frame_def close_producer_def)

lemma submit_queue:
  assumes "fb_ok q" "submit_locked f q = (None, q')"
  shows "fb_queue q' = fb_queue q @ [f]" "fb_ok q'" "fb_size q < length (fb_frames q)"
    "length (fb_frames q') = length (fb_frames q)" "pf_epoch f = bs_epoch (fb_stats q)"
proof -
  have can: "can_submit_locked f q = None"
    using assms(2) by (cases "can_submit_locked f q") (simp_all add: submit_locked_def)
  have room: "fb_size q < length (fb_frames q)"
    "length (pf_samples f) \<le> fb_max_samples q - fb_samples q" "pf_epoch f = bs_epoch (fb_stats q)"
    using can assms(1) by (auto simp: can_submit_locked_def fb_ok_def split: if_splits)
  have q': "q' = q\<lparr>fb_frames := (fb_frames q)[(fb_head q + fb_size q) mod length (fb_frames q) := f],
      fb_size := fb_size q + 1, fb_samples := fb_samples q + length (pf_samples f),
      fb_stats := bs_admitted_update (\<lambda>n. n + of_nat (length (pf_samples f))) (fb_stats q)\<rparr>"
    using assms(2) by (simp add: submit_locked_def can)
  show queue: "fb_queue q' = fb_queue q @ [f]"
    using ring_push [OF room(1)] by (simp add: q' fb_queue_def del: upt_Suc)
  have "fb_samples q \<le> fb_max_samples q" using assms(1) by (simp add: fb_ok_def)
  then have "fb_samples q + length (pf_samples f) \<le> fb_max_samples q" using room(2) by simp
  then show "fb_ok q'"
    using assms(1) room unfolding fb_ok_def queue
    by (auto simp: q' algebra_simps intro: mod_less_divisor)
  show "fb_size q < length (fb_frames q)" "length (fb_frames q') = length (fb_frames q)"
    "pf_epoch f = bs_epoch (fb_stats q)"
    using room by (simp_all add: q')
qed

lemma receive_queue:
  assumes "fb_ok q" "receive_locked q = (Inr (Some f), q')"
  shows "fb_queue q = f # fb_queue q'" "fb_ok q'" "length (fb_frames q') = length (fb_frames q)"
proof -
  have size: "fb_size q > 0" using assms(2) by (auto simp: receive_locked_def split: if_splits)
  have f: "f = fb_frames q ! fb_head q" using assms(2) size by (simp add: receive_locked_def Let_def)
  have q': "q' = q\<lparr>fb_frames := (fb_frames q)[fb_head q := zero_frame],
      fb_head := (fb_head q + 1) mod length (fb_frames q), fb_size := fb_size q - 1,
      fb_samples := fb_samples q - length (pf_samples f),
      fb_stats := bs_consumed_update (\<lambda>n. n + of_nat (length (pf_samples f))) (fb_stats q)\<rparr>"
    using assms(2) size by (simp add: receive_locked_def Let_def f)
  show queue: "fb_queue q = f # fb_queue q'"
    using ring_pop [of "fb_head q" "fb_frames q" "fb_size q" zero_frame] assms(1) size
    by (simp add: q' fb_queue_def fb_ok_def f del: upt_Suc)
  have ok: "fb_head q < length (fb_frames q)" "fb_size q \<le> length (fb_frames q)"
    "fb_samples q = length (pf_samples f) + sample_count (fb_queue q')" "fb_samples q \<le> fb_max_samples q"
    "list_all (\<lambda>f. pf_epoch f = bs_epoch (fb_stats q)) (fb_queue q')"
    "bs_admitted (fb_stats q) = bs_consumed (fb_stats q) + bs_discarded (fb_stats q) + of_nat (fb_samples q)"
    using assms(1) by (simp_all add: fb_ok_def queue)
  have "fb_head q' < length (fb_frames q')" using ok(1) by (simp add: q' mod_less_divisor [OF le_less_trans [OF le0]])
  moreover have "fb_size q' \<le> length (fb_frames q')" "fb_samples q' = sample_count (fb_queue q')"
    "fb_samples q' \<le> fb_max_samples q'"
    using ok(2,3,4) by (simp_all add: q' [THEN arg_cong, of fb_samples] q' [THEN arg_cong, of fb_size]
        q' [THEN arg_cong, of fb_frames] q' [THEN arg_cong, of fb_max_samples])
  moreover have "bs_epoch (fb_stats q') = bs_epoch (fb_stats q)" by (simp add: q')
  moreover have "bs_admitted (fb_stats q') = bs_consumed (fb_stats q') + bs_discarded (fb_stats q') + of_nat (fb_samples q')"
    using ok(3,6) by (simp add: q' [THEN arg_cong, of fb_samples] q' [THEN arg_cong, of fb_stats] algebra_simps)
  ultimately show "fb_ok q'" using ok(5) by (simp add: fb_ok_def)
  show "length (fb_frames q') = length (fb_frames q)" by (simp add: q')
qed

lemma receive_nothing:
  "receive_locked q = (Inl e, q') \<Longrightarrow> q' = q \<and> fb_size q = 0 \<and> bs_closed (fb_stats q)"
  "receive_locked q = (Inr None, q') \<Longrightarrow> q' = q \<and> fb_size q = 0 \<and> \<not> bs_closed (fb_stats q)"
  by (auto simp: receive_locked_def Let_def split: if_splits)

text \<open>The buffer as a bounded queue of frames: a put is an accepted submission.\<close>

definition frame_put :: "pcm_frame \<Rightarrow> frame_buffer \<Rightarrow> frame_buffer option" where
  "frame_put f q = (case submit_locked f q of (None, q') \<Rightarrow> Some q' | (Some e, _) \<Rightarrow> None)"

definition frame_get :: "frame_buffer \<Rightarrow> (pcm_frame \<times> frame_buffer) option" where
  "frame_get q = (case receive_locked q of (Inr (Some f), q') \<Rightarrow> Some (f, q') | _ \<Rightarrow> None)"

lemma frame_put_iff: "frame_put f q = Some q' \<longleftrightarrow> submit_locked f q = (None, q')"
  by (auto simp: frame_put_def split: prod.splits option.splits)

lemma frame_get_iff: "frame_get q = Some (f, q') \<longleftrightarrow> receive_locked q = (Inr (Some f), q')"
  by (auto simp: frame_get_def split: prod.splits option.splits sum.splits)

lemma frame_get_none: "frame_get q = None \<longleftrightarrow> fb_size q = 0"
  by (auto simp: frame_get_def receive_locked_def Let_def)

interpretation fbq: bounded_fifo frame_put frame_get fb_queue "\<lambda>q. length (fb_frames q)" fb_ok
proof
  fix f q q'
  assume ok: "fb_ok q" and "frame_put f q = Some q'"
  then have "submit_locked f q = (None, q')" by (simp add: frame_put_iff)
  from submit_queue [OF ok this]
  show "fb_queue q' = fb_queue q @ [f]" "length (fb_frames q') = length (fb_frames q)"
    "length (fb_queue q) < length (fb_frames q)" "fb_ok q'"
    by simp_all
next
  fix f q q'
  assume ok: "fb_ok q" and "frame_get q = Some (f, q')"
  then have "receive_locked q = (Inr (Some f), q')" by (simp add: frame_get_iff)
  from receive_queue [OF ok this]
  show "fb_queue q = f # fb_queue q'" "length (fb_frames q') = length (fb_frames q)" "fb_ok q'"
    by simp_all
next
  fix q
  show "(frame_get q = None) = (fb_queue q = [])"
    by (simp add: frame_get_none flip: length_0_conv [of "fb_queue q"])
qed

section \<open>Runs of the frame buffer\<close>

datatype frame_op = OpSubmit pcm_frame | OpReceive | OpInvalidate "64 word" | OpClose

text \<open>
  Any sequence of operations of the producer, the consumer and the control: the frames
  admitted, the frames delivered and the buffer afterwards.
\<close>

fun frame_ops :: "frame_op list \<Rightarrow> frame_buffer \<Rightarrow> pcm_frame list \<times> pcm_frame list \<times> frame_buffer" where
  "frame_ops [] q = ([], [], q)"
| "frame_ops (OpSubmit f # ops) q =
     (case submit_locked f q of
        (Some e, q') \<Rightarrow> frame_ops ops q'
      | (None, q') \<Rightarrow> (case frame_ops ops q' of (ins, outs, r) \<Rightarrow> (f # ins, outs, r)))"
| "frame_ops (OpReceive # ops) q =
     (case receive_locked q of
        (Inr (Some f), q') \<Rightarrow> (case frame_ops ops q' of (ins, outs, r) \<Rightarrow> (ins, f # outs, r))
      | (_, q') \<Rightarrow> frame_ops ops q')"
| "frame_ops (OpInvalidate epoch # ops) q = frame_ops ops (snd (invalidate epoch q))"
| "frame_ops (OpClose # ops) q = frame_ops ops (close_producer q)"

lemma new_frame_buffer_ok:
  assumes "new_frame_buffer n k = Inr q"
  shows "fb_ok q \<and> fb_queue q = []"
  using assms
  by (auto simp: new_frame_buffer_def fb_ok_def fb_queue_def zero_stats_def split: if_splits)

lemma reject_ok [simp]: "fb_ok (reject_frame q) = fb_ok q" "fb_ok (close_producer q) = fb_ok q"
  by (simp_all add: fb_ok_def, simp_all add: reject_frame_def close_producer_def)

lemma invalidate_ok:
  assumes "fb_ok q"
  shows "fb_ok (snd (invalidate epoch q))"
    "fb_queue (snd (invalidate epoch q)) = (if epoch \<le> bs_epoch (fb_stats q) then fb_queue q else [])"
    "bs_epoch (fb_stats (snd (invalidate epoch q))) = max epoch (bs_epoch (fb_stats q))"
proof -
  have fresh: "fb_queue (snd (invalidate epoch q)) = []" if "\<not> epoch \<le> bs_epoch (fb_stats q)"
    using that by (simp add: invalidate_def fb_queue_def)
  show "fb_queue (snd (invalidate epoch q)) = (if epoch \<le> bs_epoch (fb_stats q) then fb_queue q else [])"
    using fresh by (simp add: invalidate_def)
  show "bs_epoch (fb_stats (snd (invalidate epoch q))) = max epoch (bs_epoch (fb_stats q))"
    by (simp add: invalidate_def max_def)
  show "fb_ok (snd (invalidate epoch q))"
  proof (cases "epoch \<le> bs_epoch (fb_stats q)")
    case False
    then show ?thesis
      using assms fresh unfolding fb_ok_def by (auto simp: invalidate_def algebra_simps)
  qed (use assms in \<open>simp add: invalidate_def\<close>)
qed

lemma frame_ops_sound:
  "frame_ops ops q = (ins, outs, r) \<Longrightarrow> fb_ok q \<Longrightarrow>
   fb_ok r \<and> subseq (outs @ fb_queue r) (fb_queue q @ ins)"
proof (induction ops q arbitrary: ins outs r rule: frame_ops.induct)
  case (2 f ops q)
  obtain e q' where step: "submit_locked f q = (e, q')" by fastforce
  show ?case
  proof (cases e)
    case None
    then show ?thesis
      using 2 submit_queue(1,2) [of q f q'] step by (auto split: prod.splits)
  next
    case (Some err)
    then show ?thesis using 2 step submit_refused [of f q err q'] by simp
  qed
next
  case (3 ops q)
  obtain x q' where step: "receive_locked q = (x, q')" by fastforce
  show ?case
  proof (cases "\<exists>f. x = Inr (Some f)")
    case True
    then obtain f where f: "x = Inr (Some f)" by blast
    then show ?thesis
      using 3 receive_queue(1,2) [of q f q'] step by (auto split: prod.splits)
  next
    case False
    then have "q' = q"
      using step receive_nothing [of q] by (cases x; force split: option.splits)
    then show ?thesis
      using 3 step False by (cases x) (auto split: option.splits)
  qed
next
  case (4 epoch ops q)
  have "subseq (outs @ fb_queue r) (fb_queue (snd (invalidate epoch q)) @ ins) \<and> fb_ok r"
    using 4 invalidate_ok(1) [of q epoch] by simp
  moreover have "subseq (fb_queue (snd (invalidate epoch q)) @ ins) (fb_queue q @ ins)"
    using invalidate_ok(2) [OF 4(3), of epoch] by (simp add: subseq_append_le_same_iff)
  ultimately show ?case by (blast intro: subseq_order.trans)
qed (auto split: prod.splits)

text \<open>
  C40: whatever its producers, consumer and controller do and in whatever order, a frame
  buffer made by its constructor keeps its invariant: it never holds more frames or samples
  than its two capacities, all queued audio belongs to the current epoch, and every admitted
  sample is consumed, discarded by an invalidation or still queued. Frames come out in the
  order they were admitted, none twice, and none that was not admitted.
\<close>

theorem frame_buffer_sound:
  assumes "new_frame_buffer max_frames max_samples = Inr q"
    and "frame_ops ops q = (admitted, delivered, q')"
  shows "fb_ok q' \<and> subseq (delivered @ fb_queue q') admitted"
  using frame_ops_sound [OF assms(2)] new_frame_buffer_ok [OF assms(1)] by simp

definition sample_frame :: "64 word \<Rightarrow> 16 word list \<Rightarrow> pcm_frame" where
  "sample_frame epoch xs = zero_frame\<lparr>pf_samples := xs, pf_epoch := epoch\<rparr>"

definition sample_frame_ops :: "frame_op list" where
  "sample_frame_ops =
     [OpSubmit (sample_frame 0 [1, 2]), OpSubmit (sample_frame 0 [3]), OpReceive,
      OpInvalidate 1, OpSubmit (sample_frame 0 [4]), OpSubmit (sample_frame 1 [5, 6]),
      OpSubmit (sample_frame 1 [7]), OpReceive, OpClose]"

lemma frame_buffer_sound_witness:
  "\<exists>q q'. new_frame_buffer 2 3 = Inr q
     \<and> frame_ops sample_frame_ops q
         = ([sample_frame 0 [1, 2], sample_frame 0 [3], sample_frame 1 [5, 6], sample_frame 1 [7]],
            [sample_frame 0 [1, 2], sample_frame 1 [5, 6]], q')
     \<and> fb_ok q' \<and> fb_queue q' = [sample_frame 1 [7]] \<and> bs_discarded (fb_stats q') = 1"
proof -
  obtain q where q: "new_frame_buffer 2 3 = Inr q" by (simp add: new_frame_buffer_def)
  obtain ins outs q' where run: "frame_ops sample_frame_ops q = (ins, outs, q')"
    by (metis prod_cases3)
  have vals: "ins = [sample_frame 0 [1, 2], sample_frame 0 [3], sample_frame 1 [5, 6], sample_frame 1 [7]]"
    "outs = [sample_frame 0 [1, 2], sample_frame 1 [5, 6]]"
    "fb_queue q' = [sample_frame 1 [7]]" "bs_discarded (fb_stats q') = 1"
    using q run
    by (auto simp: new_frame_buffer_def numeral_2_eq_2 sample_frame_ops_def submit_locked_def
        can_submit_locked_def receive_locked_def invalidate_def close_producer_def reject_frame_def
        sample_frame_def zero_frame_def zero_stats_def fb_queue_def Let_def)
  show ?thesis using frame_buffer_sound [OF q run] q run vals by blast
qed

text \<open>
  A producer that waited across an invalidation cannot reintroduce its old audio: when a
  waiting submission succeeds, its frame has the epoch of the buffer it entered.
\<close>

lemma submit_wait_current_epoch:
  "submit_wait f rounds q = Some (None, q') \<Longrightarrow> pf_epoch f = bs_epoch (fb_stats q')"
proof (induction f rounds q rule: submit_wait.induct)
  case (2 f r rs q)
  then show ?case
    by (auto simp: submit_locked_def can_submit_locked_def buffer_error_defs
        split: ctx_state.splits option.splits if_splits)
qed simp

section \<open>The command queue is a queue\<close>

definition command_put :: "command \<Rightarrow> command_buffer \<Rightarrow> command_buffer option" where
  "command_put c b = (case command_submit c b of (None, b') \<Rightarrow> Some b' | (Some e, _) \<Rightarrow> None)"

interpretation cbq: bounded_fifo command_put pop_command cb_queue cb_capacity "\<lambda>b. True"
  by unfold_locales
    (auto simp: command_put_def command_submit_def pop_command_def split: if_splits list.splits)

text \<open>A closed command queue is drained before a receiver sees EOF.\<close>

lemma command_eof_drained:
  assumes "command_receive ctx pick wake b later = Some (Inl err_eof, b')"
    and "ctx \<noteq> CtxDone err_eof" "wake \<noteq> CtxDone err_eof"
  shows "cb_closed later \<and> cb_queue later = [] \<and> b' = later"
proof -
  have "ctx = CtxLive" "pop_command b = None"
    using assms(1,2) by (auto simp: command_receive_def split: ctx_state.splits option.splits prod.splits)
  then have "(Inl err_eof, b') \<in> set (command_ready wake later)"
    using assms(1) unfolding command_receive_def Let_def
    by (auto split: if_splits) (metis length_greater_0_conv mod_less_divisor nth_mem)
  then show ?thesis
    using assms(3)
    by (auto simp: command_ready_def pop_command_def split: ctx_state.splits list.splits if_splits)
qed

end
