(* ===== verification/Audio_Ports.thy ===== *)
theory Audio_Ports
  imports Frame_Buffer Loop_State
begin

text \<open>
  The audio subsystem of a tick, \<^verbatim>\<open>subsystems/audio/audio.go\<close>, on the capabilities the runtime
  gives it: a snapshot of the capture and playback buffers and a queue for commands. The
  ports are parameters here; \<^verbatim>\<open>stats_snapshot\<close> and \<^verbatim>\<open>command_submit\<close> of \<^verbatim>\<open>Frame_Buffer\<close> are
  the repository's own. The observation it leaves in the loop state is a field of its own
  state, since no modelled operation of the loop reads it.
\<close>

record 'p audio_ports =
  ap_capture :: "('p \<Rightarrow> buffer_stats) option"
  ap_playback :: "('p \<Rightarrow> buffer_stats) option"
  ap_commands :: "(command \<Rightarrow> 'p \<Rightarrow> go_error option \<times> 'p) option"

record audio_observation =
  ao_capture :: buffer_stats
  ao_playback :: buffer_stats
  ao_last_command :: "64 word"

record audio_subsystem =
  au_pass_id :: "64 word"
  au_command_id :: "64 word"
  au_observed :: "audio_observation option"

definition new_audio_subsystem :: audio_subsystem where
  "new_audio_subsystem = \<lparr>au_pass_id = 0, au_command_id = 0, au_observed = None\<rparr>"

definition err_missing_ports :: go_error where
  "err_missing_ports = ErrorText ''audio subsystem ports are incomplete''"

definition port_stats :: "('p \<Rightarrow> buffer_stats) option \<Rightarrow> 'p \<Rightarrow> buffer_stats" where
  "port_stats port p = (case port of None \<Rightarrow> zero_stats | Some f \<Rightarrow> f p)"

definition queue_interrupt ::
    "'p audio_ports \<Rightarrow> audio_subsystem \<Rightarrow> 'p \<Rightarrow> go_error option \<times> audio_subsystem \<times> 'p" where
  "queue_interrupt ports s p =
     (case ap_commands ports of
        None \<Rightarrow> (None, s, p)
      | Some submit \<Rightarrow>
          (let s1 = s\<lparr>au_command_id := au_command_id s + 1\<rparr>;
               epoch = (case ap_playback ports of None \<Rightarrow> 0 | Some f \<Rightarrow> bs_epoch (f p) + 1)
           in case submit \<lparr>cmd_id = au_command_id s1, cmd_epoch = epoch, cmd_kind = CommandInterrupt\<rparr> p of
                (Some e, p') \<Rightarrow> (Some (WrappedError ''queue audio interrupt'' e), s1, p')
              | (None, p') \<Rightarrow> (None, s1, p')))"

definition observe_ports :: "'p audio_ports \<Rightarrow> audio_subsystem \<Rightarrow> 'p \<Rightarrow> audio_subsystem" where
  "observe_ports ports s p =
     s\<lparr>au_observed := Some \<lparr>ao_capture = port_stats (ap_capture ports) p,
         ao_playback = port_stats (ap_playback ports) p, ao_last_command = au_command_id s\<rparr>\<rparr>"

definition audio_execute ::
    "ctx_state \<Rightarrow> 'p audio_ports \<Rightarrow> 'f loop_state \<Rightarrow> audio_subsystem \<Rightarrow> 'p
     \<Rightarrow> go_error option \<times> audio_subsystem \<times> 'p" where
  "audio_execute ctx ports ls s p =
     (case ctx_err ctx of
        Some e \<Rightarrow> (Some e, s, p)
      | None \<Rightarrow>
          if ap_capture ports = None \<and> ap_playback ports = None \<and> ap_commands ports = None
          then (Some err_missing_ports, s, p)
          else (let pass = (of_int (h_pass (ls_history ls)) :: 64 word) in
                if au_pass_id s < pass
                then (if has_interrupt_message (in_user_control (ls_inputs ls))
                      then (case queue_interrupt ports s p of
                              (Some e, s1, p1) \<Rightarrow> (Some e, s1, p1)
                            | (None, s1, p1) \<Rightarrow>
                                (None, observe_ports ports (s1\<lparr>au_pass_id := pass\<rparr>) p1, p1))
                      else (None, observe_ports ports (s\<lparr>au_pass_id := pass\<rparr>) p, p))
                else (None, observe_ports ports s p, p)))"

end
