(* ===== verification/Engine.thy ===== *)
theory Engine
  imports Coordinator Subsystems Forwarder Audio_Ports
begin

text \<open>
  The engine, \<^verbatim>\<open>engine/engine.go\<close>, \<^verbatim>\<open>engine/tick.go\<close>, \<^verbatim>\<open>engine/state.go\<close>, with the wiring of
  its subsystems by \<^verbatim>\<open>buildSubsystems\<close> and \<^verbatim>\<open>seedHistory\<close> of \<^verbatim>\<open>agentloop/agent_loop.go\<close>: one tick
  receives an item, orders it, folds it into history, runs every subsystem in the order of
  their tick groups and flushes the inputs. The hot loop repeats ticks until one fails and
  then settles the user turns still held.

  What the subsystems reach outside the loop is a parameter of \<^verbatim>\<open>engine_env\<close>: the session's
  ingress, the recorder back end, the token counter, the user runner the pressure warning is
  written to and the audio ports. Each tick is given what the schedule decides: what the
  participants wrote to their outboxes, Go's picks among ready cases, the context and the
  clock. The participants' goroutines are the other theories; starting and stopping them has
  no effect on this state.
\<close>

section \<open>Subsystems and their order\<close>

datatype subsystem =
    SubInterrupt | SubAudio | SubForwarder | SubCoordinator | SubPingPong | SubInteraction
  | SubCoordinatorDelta | SubRecorder | SubTokenCounter | SubPressure

fun tick_group :: "subsystem \<Rightarrow> int" where
  "tick_group SubInterrupt = -1"
| "tick_group SubAudio = 0"
| "tick_group SubForwarder = 0"
| "tick_group SubCoordinator = 1"
| "tick_group SubPingPong = 2"
| "tick_group SubInteraction = 4"
| "tick_group SubCoordinatorDelta = 5"
| "tick_group SubRecorder = 30"
| "tick_group SubTokenCounter = 40"
| "tick_group SubPressure = 45"

text \<open>
  \<^verbatim>\<open>orderedSubsystems\<close>. Go's \<^verbatim>\<open>sort.Slice\<close> sorts slices of at most twelve elements by
  insertion, which keeps equal groups in place, as \<^verbatim>\<open>sort_key\<close> does; a loop never has more.
\<close>

definition ordered_subsystems :: "subsystem list \<Rightarrow> subsystem list" where
  "ordered_subsystems hlps = sort_key tick_group hlps"

text \<open>The options of a loop that decide its subsystems.\<close>

record loop_config =
  lc_mode :: execution_mode
  lc_audio :: bool
  lc_recorder :: bool
  lc_counter :: "(message list \<Rightarrow> int) option"
  lc_max_tokens :: int
  lc_threshold_positive :: bool
  lc_threshold_tokens :: int
  lc_pressure_message :: string
  lc_system_prompt :: string
  lc_initial_history :: "message list"

definition build_subsystems :: "loop_config \<Rightarrow> (subsystem list \<times> pressure_notifier option) result" where
  "build_subsystems cfg =
     (let hlps = [SubInterrupt] @ (if lc_audio cfg then [SubAudio] else [])
            @ [SubCoordinatorDelta, SubCoordinator, SubInteraction]
            @ (if lc_mode cfg = DuplexSession then [SubForwarder, SubPingPong] else [])
            @ (if lc_recorder cfg then [SubRecorder] else [])
      in if lc_counter cfg = None \<or> lc_max_tokens cfg \<le> 0 then Inr (hlps, None)
         else if lc_threshold_positive cfg
         then (case new_pressure_notifier (lc_counter cfg) (lc_max_tokens cfg) True
                      (lc_threshold_tokens cfg) (lc_pressure_message cfg) of
                 Inl e \<Rightarrow> Inl (WrappedError ''failed to create context pressure notifier'' e)
               | Inr n \<Rightarrow> Inr (hlps @ [SubTokenCounter, SubPressure], Some n))
         else Inr (hlps @ [SubTokenCounter], None))"

text \<open>The order of one tick, written out.\<close>

definition tick_order :: "loop_config \<Rightarrow> subsystem list" where
  "tick_order cfg =
     [SubInterrupt] @ (if lc_audio cfg then [SubAudio] else [])
     @ (if lc_mode cfg = DuplexSession then [SubForwarder] else [])
     @ [SubCoordinator] @ (if lc_mode cfg = DuplexSession then [SubPingPong] else [])
     @ [SubInteraction, SubCoordinatorDelta] @ (if lc_recorder cfg then [SubRecorder] else [])
     @ (if lc_counter cfg = None \<or> lc_max_tokens cfg \<le> 0 then []
        else if lc_threshold_positive cfg then [SubTokenCounter, SubPressure] else [SubTokenCounter])"

section \<open>Engine state\<close>

datatype run_state = RunStateRunning | RunStateStopped | RunStatePaused | RunStateError

record ('q, 's, 'u, 'p) engine_env =
  ee_session :: "(stream_message, 'q) sink option"
  ee_backend :: "'s record_call option"
  ee_counter :: "(message list \<Rightarrow> int) option"
  ee_max_tokens :: int
  ee_writer :: "(message, 'u) sink option"
  ee_ports :: "'p audio_ports"
  ee_subsystems :: "subsystem list"

record ('f, 'q, 's, 'u, 'p) engine_state =
  en_loop :: "'f loop_state"
  en_ordering :: global_ordering
  en_cancels :: cancel_requests
  en_coordinator :: coordinator
  en_forwarded :: "string list"
  en_session :: 'q
  en_recorder :: recorder_state
  en_store :: 's
  en_notifier :: pressure_notifier
  en_user :: 'u
  en_audio :: audio_subsystem
  en_ports :: 'p
  en_tick_count :: int
  en_run_state :: run_state
  en_error :: "tick_error option"

definition set_run_state :: "run_state \<Rightarrow> ('f, 'q, 's, 'u, 'p) engine_state \<Rightarrow> ('f, 'q, 's, 'u, 'p) engine_state" where
  "set_run_state r w = w\<lparr>en_run_state := r\<rparr>"

definition set_error :: "tick_error \<Rightarrow> ('f, 'q, 's, 'u, 'p) engine_state \<Rightarrow> ('f, 'q, 's, 'u, 'p) engine_state" where
  "set_error e w = w\<lparr>en_error := Some e, en_run_state := RunStateError\<rparr>"

section \<open>One tick\<close>

text \<open>
  What the schedule decides of a tick: what the participants write to the outboxes before the
  first and the second \<^verbatim>\<open>select\<close>, Go's picks, the context at both and while the
  subsystems run, the clock readings of the ping replies.
\<close>

record arrivals =
  ar_model :: "stream_message list"
  ar_tool :: "stream_message list"
  ar_user :: "user_response list"
  ar_interaction :: "interaction_event list"

definition no_arrivals :: arrivals where
  "no_arrivals = \<lparr>ar_model = [], ar_tool = [], ar_user = [], ar_interaction = []\<rparr>"

record tick_schedule =
  ts_before :: arrivals
  ts_between :: arrivals
  ts_pick1 :: nat
  ts_pick2 :: nat
  ts_ctx1 :: ctx_state
  ts_ctx2 :: ctx_state
  ts_ctx_run :: ctx_state
  ts_now :: "int list"

definition arrive :: "arrivals \<Rightarrow> global_ordering \<Rightarrow> global_ordering" where
  "arrive a go = go\<lparr>go_model_outbox := go_model_outbox go @ ar_model a,
     go_tool_outbox := map_option (\<lambda>q. q @ ar_tool a) (go_tool_outbox go),
     go_user_outbox := map_option (\<lambda>q. q @ ar_user a) (go_user_outbox go),
     go_interaction_outbox := map_option (\<lambda>q. q @ ar_interaction a) (go_interaction_outbox go)\<rparr>"

definition execute_subsystem ::
    "('q, 's, 'u, 'p) engine_env \<Rightarrow> tick_schedule \<Rightarrow> subsystem \<Rightarrow> ('f, 'q, 's, 'u, 'p) engine_state
     \<Rightarrow> go_error option \<times> ('f, 'q, 's, 'u, 'p) engine_state" where
  "execute_subsystem env ts sub w =
     (case sub of
        SubInterrupt \<Rightarrow>
          (case interrupt_execute (en_cancels w) (en_loop w) of
             (cr, ls) \<Rightarrow> (None, w\<lparr>en_cancels := cr, en_loop := ls\<rparr>))
      | SubAudio \<Rightarrow>
          (case audio_execute (ts_ctx_run ts) (ee_ports env) (en_loop w) (en_audio w) (en_ports w) of
             (e, s, p) \<Rightarrow> (e, w\<lparr>en_audio := s, en_ports := p\<rparr>))
      | SubForwarder \<Rightarrow>
          (case forwarder_execute (ee_session env) (en_loop w) (en_forwarded w) (en_session w) of
             (e, ids, q) \<Rightarrow> (e, w\<lparr>en_forwarded := ids, en_session := q\<rparr>))
      | SubCoordinator \<Rightarrow>
          (case coordinator_execute (en_coordinator w) (en_loop w) of
             (e, co, ls) \<Rightarrow> (e, w\<lparr>en_coordinator := co, en_loop := ls\<rparr>))
      | SubPingPong \<Rightarrow> (None, w\<lparr>en_loop := ping_pong_execute (ts_now ts) (en_loop w)\<rparr>)
      | SubInteraction \<Rightarrow>
          (case interaction_events_execute (en_loop w) of (e, ls) \<Rightarrow> (e, w\<lparr>en_loop := ls\<rparr>))
      | SubCoordinatorDelta \<Rightarrow> (None, w\<lparr>en_loop := coordinator_delta_execute (en_loop w)\<rparr>)
      | SubRecorder \<Rightarrow>
          (case recorder_execute (ee_backend env) (en_loop w) (en_recorder w) (en_store w) of
             (e, r, s) \<Rightarrow> (e, w\<lparr>en_recorder := r, en_store := s\<rparr>))
      | SubTokenCounter \<Rightarrow>
          (None, w\<lparr>en_loop := token_counter_execute (ee_counter env) (ee_max_tokens env) (en_loop w)\<rparr>)
      | SubPressure \<Rightarrow>
          (case ee_counter env of
             None \<Rightarrow> (None, w)
           | Some counter \<Rightarrow>
               (case pressure_execute counter (ee_writer env) (en_loop w) (en_notifier w) (en_user w) of
                  (e, n, u) \<Rightarrow> (e, w\<lparr>en_notifier := n, en_user := u\<rparr>))))"

text \<open>\<^verbatim>\<open>executeWorldState\<close>: the first error stops the tick, wrapped with its group.\<close>

fun execute_world_state ::
    "('q, 's, 'u, 'p) engine_env \<Rightarrow> tick_schedule \<Rightarrow> subsystem list \<Rightarrow> ('f, 'q, 's, 'u, 'p) engine_state
     \<Rightarrow> tick_error option \<times> ('f, 'q, 's, 'u, 'p) engine_state" where
  "execute_world_state env ts [] w = (None, w)"
| "execute_world_state env ts (sub # subs) w =
     (case execute_subsystem env ts sub w of
        (Some e, w') \<Rightarrow> (Some (HelperFailed (tick_group sub) (TickGoError e)), w')
      | (None, w') \<Rightarrow> execute_world_state env ts subs w')"

text \<open>
  \<^verbatim>\<open>Tick\<close>: \<^verbatim>\<open>None\<close> when it still waits for an item. A failure to receive or to apply is
  recorded in the shared state; a failing subsystem is only returned.
\<close>

definition world_with :: "global_ordering \<Rightarrow> 'f loop_state \<Rightarrow> ('f, 'q, 's, 'u, 'p) engine_state \<Rightarrow> ('f, 'q, 's, 'u, 'p) engine_state" where
  "world_with go ls w = w\<lparr>en_ordering := go, en_loop := ls\<rparr>"

definition finish_tick ::
    "('q, 's, 'u, 'p) engine_env \<Rightarrow> tick_schedule \<Rightarrow> ('f, 'q, 's, 'u, 'p) engine_state
     \<Rightarrow> tick_error option \<times> ('f, 'q, 's, 'u, 'p) engine_state" where
  "finish_tick env ts w =
     (case update_world_history (en_ordering w) (en_loop w) of
        (go, ls) \<Rightarrow>
          (case execute_world_state env ts (ee_subsystems env) (world_with go ls w) of
             (Some e, w1) \<Rightarrow> (Some e, w1)
           | (None, w1) \<Rightarrow>
               (None, w1\<lparr>en_loop := flush_inputs (en_loop w1), en_tick_count := en_tick_count w1 + 1\<rparr>)))"

definition tick_with ::
    "('q, 's, 'u, 'p) engine_env \<Rightarrow> tick_schedule \<Rightarrow> go_error + tick_input \<Rightarrow> ('f, 'q, 's, 'u, 'p) engine_state
     \<Rightarrow> tick_error option \<times> ('f, 'q, 's, 'u, 'p) engine_state" where
  "tick_with env ts received w =
     (case received of
        Inl e \<Rightarrow> (Some (TickGoError e), set_error (TickGoError e) w)
      | Inr input \<Rightarrow>
          (case apply_tick_input input (en_ordering w) (en_loop w) of
             (Some e, go, ls) \<Rightarrow> (Some e, set_error e (world_with go ls w))
           | (None, go, ls) \<Rightarrow> finish_tick env ts (world_with go ls w)))"

definition receive_tick ::
    "tick_schedule \<Rightarrow> global_ordering \<Rightarrow> ((go_error + tick_input) \<times> global_ordering) option" where
  "receive_tick ts go =
     (let go1 = arrive (ts_before ts) go
      in receive_tick_input (ts_pick1 ts) (ts_pick2 ts) (ts_ctx1 ts) (ts_ctx2 ts) go1
           (arrive (ts_between ts) go1))"

definition engine_tick ::
    "('q, 's, 'u, 'p) engine_env \<Rightarrow> tick_schedule \<Rightarrow> ('f, 'q, 's, 'u, 'p) engine_state
     \<Rightarrow> (tick_error option \<times> ('f, 'q, 's, 'u, 'p) engine_state) option" where
  "engine_tick env ts w =
     (case receive_tick ts (en_ordering w) of
        None \<Rightarrow> None
      | Some (received, go) \<Rightarrow> Some (tick_with env ts received (w\<lparr>en_ordering := go\<rparr>)))"

section \<open>Drivers\<close>

text \<open>\<^verbatim>\<open>TickN\<close>, with one schedule per tick.\<close>

fun tick_n ::
    "('q, 's, 'u, 'p) engine_env \<Rightarrow> tick_schedule list \<Rightarrow> ('f, 'q, 's, 'u, 'p) engine_state
     \<Rightarrow> (tick_error option \<times> ('f, 'q, 's, 'u, 'p) engine_state) option" where
  "tick_n env [] w = Some (None, w)"
| "tick_n env (ts # tss) w =
     (case engine_tick env ts w of
        None \<Rightarrow> None
      | Some (Some e, w') \<Rightarrow> Some (Some e, w')
      | Some (None, w') \<Rightarrow> tick_n env tss w')"

text \<open>\<^verbatim>\<open>TickUntil\<close> with \<^verbatim>\<open>maxTicks\<close> the number of schedules; \<^verbatim>\<open>i\<close> is the loop's index.\<close>

datatype until_result = UntilHolds nat | UntilFailed nat tick_error | UntilExceeded nat

fun tick_until_from ::
    "nat \<Rightarrow> ('q, 's, 'u, 'p) engine_env \<Rightarrow> (('f, 'q, 's, 'u, 'p) engine_state \<Rightarrow> bool) \<Rightarrow> tick_schedule list
     \<Rightarrow> ('f, 'q, 's, 'u, 'p) engine_state \<Rightarrow> (until_result \<times> ('f, 'q, 's, 'u, 'p) engine_state) option" where
  "tick_until_from i env P [] w = Some (if P w then UntilHolds i else UntilExceeded i, w)"
| "tick_until_from i env P (ts # tss) w =
     (if P w then Some (UntilHolds i, w)
      else (case engine_tick env ts w of
              None \<Rightarrow> None
            | Some (Some e, w') \<Rightarrow> Some (UntilFailed (i + 1) e, w')
            | Some (None, w') \<Rightarrow> tick_until_from (i + 1) env P tss w'))"

definition tick_until ::
    "('q, 's, 'u, 'p) engine_env \<Rightarrow> (('f, 'q, 's, 'u, 'p) engine_state \<Rightarrow> bool) \<Rightarrow> tick_schedule list
     \<Rightarrow> ('f, 'q, 's, 'u, 'p) engine_state \<Rightarrow> (until_result \<times> ('f, 'q, 's, 'u, 'p) engine_state) option" where
  "tick_until env P tss w = tick_until_from 0 env P tss w"

text \<open>\<^verbatim>\<open>placeHeldUserMessagesOnExit\<close> and \<^verbatim>\<open>settleHeldUserMessages\<close>: a recorder error is logged.\<close>

definition place_held_on_exit ::
    "('f, 'q, 's, 'u, 'p) engine_state \<Rightarrow> message list option \<times> ('f, 'q, 's, 'u, 'p) engine_state" where
  "place_held_on_exit w =
     (if length (h_held (ls_history (en_loop w))) = 0 then (None, w)
      else (let ls = place_held_user_messages (en_loop w)
            in (Some (h_conversation (ls_history ls)), w\<lparr>en_loop := ls\<rparr>)))"

fun flush_recorders ::
    "('q, 's, 'u, 'p) engine_env \<Rightarrow> message list \<Rightarrow> subsystem list \<Rightarrow> ('f, 'q, 's, 'u, 'p) engine_state
     \<Rightarrow> ('f, 'q, 's, 'u, 'p) engine_state" where
  "flush_recorders env hist [] w = w"
| "flush_recorders env hist (sub # subs) w =
     (if sub = SubRecorder
      then flush_recorders env hist subs (w\<lparr>en_store := snd (recorder_flush (ee_backend env) hist (en_store w))\<rparr>)
      else flush_recorders env hist subs w)"

definition settle_held_user_messages ::
    "('q, 's, 'u, 'p) engine_env \<Rightarrow> ('f, 'q, 's, 'u, 'p) engine_state \<Rightarrow> ('f, 'q, 's, 'u, 'p) engine_state" where
  "settle_held_user_messages env w =
     (case place_held_on_exit w of
        (None, w1) \<Rightarrow> w1
      | (Some hist, w1) \<Rightarrow> flush_recorders env hist (ee_subsystems env) w1)"

text \<open>
  \<^verbatim>\<open>waitForNextTick\<close>: the pause asked for, and what the clock's wait returns.
\<close>

definition wait_for_next_tick :: "int \<Rightarrow> int \<Rightarrow> go_error option \<Rightarrow> go_error option" where
  "wait_for_next_tick rate elapsed waited =
     (if rate \<le> 0 then None else if rate - elapsed \<le> 0 then None else waited)"

definition initial_request :: "'f loop_state \<Rightarrow> 'f loop_state" where
  "initial_request ls =
     (let ls1 = ls_history_update (\<lambda>h. h\<lparr>h_model_start := length (h_deltas h), h_model_count := 0,
                  h_pass := h_pass h + 1\<rparr>) ls
      in write_model_request (new_inference_request (h_conversation (ls_history ls1)) (ls_tools ls1)
           (h_pass (ls_history ls1)) (ls_defaults ls1)) ls1)"

text \<open>
  \<^verbatim>\<open>runHotLoop\<close>: every turn of its loop has a schedule, the time its tick took and the
  outcome of the wait. \<^verbatim>\<open>None\<close>: it still runs.
\<close>

fun hot_loop ::
    "('q, 's, 'u, 'p) engine_env \<Rightarrow> int \<Rightarrow> (tick_schedule \<times> int \<times> go_error option) list
     \<Rightarrow> ('f, 'q, 's, 'u, 'p) engine_state \<Rightarrow> (tick_error \<times> ('f, 'q, 's, 'u, 'p) engine_state) option" where
  "hot_loop env rate [] w = None"
| "hot_loop env rate ((ts, elapsed, waited) # tss) w =
     (case engine_tick env ts w of
        None \<Rightarrow> None
      | Some (Some e, w') \<Rightarrow> Some (e, w')
      | Some (None, w') \<Rightarrow>
          (case wait_for_next_tick rate elapsed waited of
             Some e \<Rightarrow> Some (TickGoError e, w')
           | None \<Rightarrow> hot_loop env rate tss w'))"

definition hot_loop_start ::
    "bool \<Rightarrow> ('f, 'q, 's, 'u, 'p) engine_state \<Rightarrow> ('f, 'q, 's, 'u, 'p) engine_state" where
  "hot_loop_start send_initial w =
     (let w1 = set_run_state RunStateRunning w
      in if send_initial then w1\<lparr>en_loop := initial_request (en_loop w1)\<rparr> else w1)"

definition hot_loop_exit ::
    "('q, 's, 'u, 'p) engine_env \<Rightarrow> ('f, 'q, 's, 'u, 'p) engine_state \<Rightarrow> ('f, 'q, 's, 'u, 'p) engine_state" where
  "hot_loop_exit env w =
     (let w1 = settle_held_user_messages env w
      in if en_run_state w1 = RunStateRunning then set_run_state RunStateStopped w1 else w1)"

definition run_hot_loop ::
    "('q, 's, 'u, 'p) engine_env \<Rightarrow> int \<Rightarrow> bool \<Rightarrow> (tick_schedule \<times> int \<times> go_error option) list
     \<Rightarrow> ('f, 'q, 's, 'u, 'p) engine_state \<Rightarrow> (tick_error \<times> ('f, 'q, 's, 'u, 'p) engine_state) option" where
  "run_hot_loop env rate send_initial tss w =
     map_option (\<lambda>(e, w'). (e, hot_loop_exit env w')) (hot_loop env rate tss (hot_loop_start send_initial w))"

section \<open>Seeding\<close>

definition text_message_deltas :: "role \<Rightarrow> string \<Rightarrow> stream_message list" where
  "text_message_deltas r t =
     (if t = '''' then []
      else [mk_delta StreamMessageStart r VMessageStart, mk_delta StreamTextStart r VTextStart,
            mk_delta StreamTextDelta r (VTextDelta t), mk_delta StreamTextEnd r VTextEnd,
            mk_delta StreamMessageEnd r (VMessageEnd (Some (new_message_end_value zero_usage)))])"

definition map_messages_to_deltas :: "message list \<Rightarrow> stream_message list" where
  "map_messages_to_deltas ms = concat (map (\<lambda>m. text_message_deltas (m_role m) (text_content m)) ms)"

definition add_messages :: "message list \<Rightarrow> 'f loop_state \<Rightarrow> 'f loop_state" where
  "add_messages ms ls =
     ls_history_update (\<lambda>h. h\<lparr>h_conversation := h_conversation h @ ms,
       h_deltas := h_deltas h @ map_messages_to_deltas ms\<rparr>) ls"

definition seed_history :: "loop_config \<Rightarrow> 'f loop_state \<Rightarrow> 'f loop_state" where
  "seed_history cfg ls =
     (let initial = lc_initial_history cfg;
          has_system = (length initial > 0 \<and> m_role (hd initial) = RoleSystem);
          ls1 = (if lc_system_prompt cfg \<noteq> '''' \<and> \<not> has_system
                 then add_messages [new_text_message RoleSystem (lc_system_prompt cfg)] ls else ls)
      in ls_history_update (h_conversation_update (\<lambda>c. c @ initial)) ls1)"

section \<open>The order of a tick\<close>

lemma tick_order_sorted:
  assumes "build_subsystems cfg = Inr (hlps, n)"
  shows "ordered_subsystems hlps = tick_order cfg" "length hlps \<le> 12"
proof -
  have hlps: "hlps = [SubInterrupt] @ (if lc_audio cfg then [SubAudio] else [])
      @ [SubCoordinatorDelta, SubCoordinator, SubInteraction]
      @ (if lc_mode cfg = DuplexSession then [SubForwarder, SubPingPong] else [])
      @ (if lc_recorder cfg then [SubRecorder] else [])
      @ (if lc_counter cfg = None \<or> lc_max_tokens cfg \<le> 0 then []
         else if lc_threshold_positive cfg then [SubTokenCounter, SubPressure] else [SubTokenCounter])"
    using assms by (auto simp: build_subsystems_def Let_def split: if_splits sum.splits)
  show "ordered_subsystems hlps = tick_order cfg" "length hlps \<le> 12"
    by (simp_all add: hlps ordered_subsystems_def tick_order_def)
qed

text \<open>
  A tick in three parts: before the coordinator, the coordinator, after it. Only the
  interrupt handler, the audio observation and the forwarder run before.
\<close>

definition before_coordinator :: "loop_config \<Rightarrow> subsystem list" where
  "before_coordinator cfg = [SubInterrupt] @ (if lc_audio cfg then [SubAudio] else [])
     @ (if lc_mode cfg = DuplexSession then [SubForwarder] else [])"

definition after_coordinator :: "loop_config \<Rightarrow> subsystem list" where
  "after_coordinator cfg = (if lc_mode cfg = DuplexSession then [SubPingPong] else [])
     @ [SubInteraction, SubCoordinatorDelta] @ (if lc_recorder cfg then [SubRecorder] else [])
     @ (if lc_counter cfg = None \<or> lc_max_tokens cfg \<le> 0 then []
        else if lc_threshold_positive cfg then [SubTokenCounter, SubPressure] else [SubTokenCounter])"

lemma tick_order_parts: "tick_order cfg = before_coordinator cfg @ SubCoordinator # after_coordinator cfg"
  by (simp add: tick_order_def before_coordinator_def after_coordinator_def)

lemma execute_append:
  "execute_world_state env ts (xs @ ys) w =
     (case execute_world_state env ts xs w of
        (Some e, w') \<Rightarrow> (Some e, w') | (None, w') \<Rightarrow> execute_world_state env ts ys w')"
  by (induction xs arbitrary: w) (auto split: prod.splits option.splits)

section \<open>What a tick does to the user turns\<close>

lemma turns_grow:
  assumes "h_conversation (ls_history ls') = h_conversation (ls_history ls) @ xs"
    and "h_held (ls_history ls') = h_held (ls_history ls)"
  shows "turns ls \<subseteq># turns ls'"
  by (simp add: turns_def assms)

lemma fold_cancelled_fields:
  "h_conversation (ls_history (fold add_cancelled_result rs ls)) = h_conversation (ls_history ls) @ rs
   \<and> h_held (ls_history (fold add_cancelled_result rs ls)) = h_held (ls_history ls)
   \<and> ls_inputs (fold add_cancelled_result rs ls) = ls_inputs ls"
  by (induction rs arbitrary: ls) (simp_all add: add_cancelled_result_def request_simps)

lemma interrupt_turns:
  assumes "interrupt_execute cr ls = (cr', ls')"
  shows "turns ls \<subseteq># turns ls'" "ls_inputs ls' = ls_inputs ls"
    "\<not> has_interrupt_message (in_user_control (ls_inputs ls)) \<Longrightarrow> ls' = ls"
proof -
  show "\<not> has_interrupt_message (in_user_control (ls_inputs ls)) \<Longrightarrow> ls' = ls"
    using assms by (simp add: interrupt_execute_def)
  have "turns ls \<subseteq># turns ls' \<and> ls_inputs ls' = ls_inputs ls"
  proof (cases "has_interrupt_message (in_user_control (ls_inputs ls))")
    case True
    define l1 where "l1 = save_partial_response ls"
    define l2 where "l2 = fold add_cancelled_result (cancelled_tool_results (h_conversation (ls_history l1))) l1"
    define l3 where "l3 = place_held_user_messages l2"
    define l4 where "l4 = add_interrupt_text l3"
    define l5 where "l5 = ls_history_update begin_new_pass l4"
    have ls': "ls' = write_model_request (resume_request l5) l5"
      using assms True
      by (simp add: interrupt_execute_def Let_def l1_def l2_def l3_def l4_def l5_def)
    have "turns ls \<subseteq># turns l1" "ls_inputs l1 = ls_inputs ls"
      by (auto simp: l1_def save_partial_response_def Let_def intro!: turns_grow)
    moreover have "turns l1 \<subseteq># turns l2" "ls_inputs l2 = ls_inputs l1"
      using fold_cancelled_fields [of "cancelled_tool_results (h_conversation (ls_history l1))" l1]
      by (auto simp: l2_def intro!: turns_grow)
    moreover have "turns l3 = turns l2" "ls_inputs l3 = ls_inputs l2"
      by (simp_all add: l3_def turns_place)
    moreover have "turns l3 \<subseteq># turns l4" "ls_inputs l4 = ls_inputs l3"
      by (auto simp: l4_def add_interrupt_text_def Let_def intro!: turns_grow)
    moreover have "turns ls' = turns l4" "ls_inputs ls' = ls_inputs l4"
      by (auto simp: ls' l5_def begin_new_pass_def request_simps turns_def)
    ultimately show ?thesis by (metis subset_mset.order_trans)
  qed (use assms in \<open>simp add: interrupt_execute_def\<close>)
  then show "turns ls \<subseteq># turns ls'" "ls_inputs ls' = ls_inputs ls" by simp_all
qed

text \<open>The tail of history is the tick's model output, as the coordinator needs it.\<close>

definition outputs_at_tail :: "'f loop_state \<Rightarrow> bool" where
  "outputs_at_tail ls \<longleftrightarrow>
     (\<exists>base. h_conversation (ls_history ls) = base @ in_model_output (ls_inputs ls))
     \<and> list_all (\<lambda>m. m_role m = RoleAssistant) (in_model_output (ls_inputs ls))
     \<and> (in_model_output (ls_inputs ls) = [] \<or> \<not> has_interrupt_message (in_user_control (ls_inputs ls)))"

lemma before_step:
  assumes "sub \<in> {SubInterrupt, SubAudio, SubForwarder}"
    and "execute_subsystem env ts sub w = (e, w')" "outputs_at_tail (en_loop w)"
  shows "turns (en_loop w) \<subseteq># turns (en_loop w') \<and> outputs_at_tail (en_loop w')"
proof (cases "sub = SubInterrupt")
  case True
  obtain cr ls where run: "interrupt_execute (en_cancels w) (en_loop w) = (cr, ls)" by fastforce
  then have w': "en_loop w' = ls" using assms(2) True by (auto simp: execute_subsystem_def)
  note facts = interrupt_turns [OF run]
  have "outputs_at_tail ls"
  proof (cases "has_interrupt_message (in_user_control (ls_inputs (en_loop w)))")
    case True
    then have "in_model_output (ls_inputs ls) = []"
      using assms(3) facts(2) by (auto simp: outputs_at_tail_def)
    then show ?thesis by (simp add: outputs_at_tail_def)
  qed (use facts(3) assms(3) in simp)
  then show ?thesis using facts(1) w' by simp
next
  case False
  then have "en_loop w' = en_loop w"
    using assms(1,2) by (auto simp: execute_subsystem_def split: prod.splits)
  then show ?thesis using assms(3) by simp
qed

lemma interaction_update_turns [simp]:
  "turns (interaction_update f ls) = turns ls" "turns (write_kernel src d ls) = turns ls"
  "turns (write_full_message src m ls) = turns ls" "turns (write_user_request m ls) = turns ls"
  "turns (ls_inputs_update g ls) = turns ls"
  by (simp_all add: turns_def interaction_update_def request_simps)

lemma interaction_events_turns:
  "apply_interaction_events evs ls = (e, ls') \<Longrightarrow> turns ls' = turns ls"
proof (induction evs arbitrary: ls)
  case (Cons ev evs)
  obtain x ls1 where step: "apply_interaction_event ev ls = (x, ls1)" by fastforce
  have "turns ls1 = turns ls"
    using step
    by (auto simp: apply_interaction_event_def apply_interaction_effect_def apply_final_message_def
        apply_tool_call_request_def apply_interaction_error_def apply_cancellation_def
        split: option.splits if_splits interaction_event_type.splits)
  then show ?case using Cons step by (cases x) auto
qed simp

lemma fold_kernel_turns [simp]: "turns (fold (write_kernel src) ds ls) = turns ls"
  by (induction ds arbitrary: ls) simp_all

lemma answer_pings_turns [simp]: "turns (answer_pings now ms ls) = turns ls"
  by (induction now ms ls rule: answer_pings.induct) simp_all

lemma after_step:
  assumes "sub \<notin> {SubCoordinator, SubTokenCounter}" "execute_subsystem env ts sub w = (e, w')"
  shows "turns (en_loop w) \<subseteq># turns (en_loop w')"
proof (cases sub)
  case SubInterrupt
  then show ?thesis
    using assms interrupt_turns(1) [of "en_cancels w" "en_loop w"]
    by (auto simp: execute_subsystem_def split: prod.splits)
next
  case SubPingPong
  then show ?thesis using assms by (auto simp: execute_subsystem_def ping_pong_execute_def)
next
  case SubInteraction
  then show ?thesis
    using assms by (auto simp: execute_subsystem_def interaction_events_execute_def split: prod.splits
        dest: interaction_events_turns)
next
  case SubCoordinatorDelta
  then show ?thesis
    using assms by (auto simp: execute_subsystem_def coordinator_delta_execute_def Let_def turns_place)
qed (use assms in \<open>auto simp: execute_subsystem_def split: prod.splits option.splits\<close>)

lemma coordinator_step:
  assumes "execute_subsystem env ts SubCoordinator w = (e, w')" "outputs_at_tail (en_loop w)"
  shows "turns (en_loop w') = turns (en_loop w)"
proof -
  obtain x co ls where run: "coordinator_execute (en_coordinator w) (en_loop w) = (x, co, ls)"
    by (metis prod_cases3)
  have w': "en_loop w' = ls" "e = x" using assms(1) run by (auto simp: execute_subsystem_def)
  show ?thesis
  proof (cases x)
    case None
    obtain base where "h_conversation (ls_history (en_loop w)) = base @ in_model_output (ls_inputs (en_loop w))"
      "list_all (\<lambda>m. m_role m = RoleAssistant) (in_model_output (ls_inputs (en_loop w)))"
      using assms(2) by (auto simp: outputs_at_tail_def)
    then show ?thesis using coordinator_turns [of "en_coordinator w" "en_loop w" co ls base] run None w' by simp
  next
    case (Some err)
    then have "ls = en_loop w"
      using run by (auto simp: coordinator_execute_def Let_def split: prod.splits option.splits)
    then show ?thesis using w' by simp
  qed
qed

section \<open>Receiving and folding keep the turns\<close>

text \<open>The fields a user turn can be in.\<close>

definition same_turn_fields :: "'f loop_state \<Rightarrow> 'f loop_state \<Rightarrow> bool" where
  "same_turn_fields ls ls' \<longleftrightarrow>
     h_conversation (ls_history ls') = h_conversation (ls_history ls)
     \<and> h_held (ls_history ls') = h_held (ls_history ls)
     \<and> in_user_output (ls_inputs ls') = in_user_output (ls_inputs ls)
     \<and> in_user_control (ls_inputs ls') = in_user_control (ls_inputs ls)"

lemma same_turn_fields_refl [simp]: "same_turn_fields ls ls"
  by (simp add: same_turn_fields_def)

lemma append_outputs_fields [simp]:
  "same_turn_fields ls (append_model_output m ls')  = same_turn_fields ls ls'"
  "same_turn_fields ls (append_tool_output m ls') = same_turn_fields ls ls'"
  "in_model_output (ls_inputs (append_tool_output m ls')) = in_model_output (ls_inputs ls')"
  "in_model_output (ls_inputs (append_model_output m ls')) = in_model_output (ls_inputs ls')
     @ [m\<lparr>m_global_index := h_next_index (ls_history ls'), m_actor_id := PModel\<rparr>]"
  by (simp_all add: same_turn_fields_def append_model_output_def append_tool_output_def
      assign_message_ordering_def)

lemma fold_tool_output_fields [simp]:
  "same_turn_fields ls (fold append_tool_output ms ls') = same_turn_fields ls ls'"
  "in_model_output (ls_inputs (fold append_tool_output ms ls')) = in_model_output (ls_inputs ls')"
  by (induction ms arbitrary: ls') simp_all

lemma assemble_model_fields:
  "same_turn_fields ls (assemble_model_output d ls') = same_turn_fields ls ls'"
  "in_model_output (ls_inputs ls') = [] \<Longrightarrow>
     in_model_output (ls_inputs (assemble_model_output d ls')) = []
     \<or> (\<exists>m. in_model_output (ls_inputs (assemble_model_output d ls')) = [m] \<and> m_role m = RoleAssistant)"
  by (simp_all add: assemble_model_output_def reconstruct_role Let_def split: option.split stream_value.split)

lemma record_fields:
  "same_turn_fields ls (snd (record_model_delta d ls))" "same_turn_fields ls (snd (record_tool_delta d ls))"
  "in_model_output (ls_inputs (snd (record_model_delta d ls))) = in_model_output (ls_inputs ls)"
  "in_model_output (ls_inputs (snd (record_tool_delta d ls))) = in_model_output (ls_inputs ls)"
  by (simp_all add: same_turn_fields_def record_model_delta_def record_tool_delta_def
      assign_stream_ordering_def)

lemma assemble_tool_fields:
  "same_turn_fields ls (snd (assemble_tool_output d go ls')) = same_turn_fields ls ls'"
  "in_model_output (ls_inputs (snd (assemble_tool_output d go ls'))) = in_model_output (ls_inputs ls')"
  by (simp_all add: assemble_tool_output_def same_turn_fields_def start_tool_batch_def
      split: option.split stream_value.split) (auto simp: same_turn_fields_def [symmetric])

lemma consume_model_fields:
  assumes "consume_model_delta d go ls = (r, go1, ls1)"
  shows "same_turn_fields ls ls1"
    "in_model_output (ls_inputs ls) = [] \<Longrightarrow> in_model_output (ls_inputs ls1) = []
       \<or> (\<exists>m. in_model_output (ls_inputs ls1) = [m] \<and> m_role m = RoleAssistant)"
proof -
  obtain a l1 where rec: "record_model_delta d ls = (a, l1)" by fastforce
  have ls1: "ls1 = ls \<or> ls1 = ls_history_update rollback_model_deltas ls \<or> ls1 = l1 \<or> ls1 = assemble_model_output a l1"
    using assms by (auto simp: consume_model_delta_def rec split: if_splits option.splits)
  have l1: "same_turn_fields ls l1" "in_model_output (ls_inputs l1) = in_model_output (ls_inputs ls)"
    using record_fields(1,3) [where ls=ls and d=d] by (simp_all add: rec)
  show "same_turn_fields ls ls1"
    using ls1 l1 by (auto simp: assemble_model_fields) (simp add: same_turn_fields_def rollback_model_deltas_def)
  assume "in_model_output (ls_inputs ls) = []"
  then show "in_model_output (ls_inputs ls1) = []
       \<or> (\<exists>m. in_model_output (ls_inputs ls1) = [m] \<and> m_role m = RoleAssistant)"
    using ls1 l1 assemble_model_fields(2) [of l1 a] by auto
qed

lemma consume_tool_fields:
  assumes "consume_tool_delta d go ls = (r, go1, ls1)"
  shows "same_turn_fields ls ls1" "in_model_output (ls_inputs ls1) = in_model_output (ls_inputs ls)"
proof -
  let ?l0 = "mark_tool_failure d ls"
  obtain a l1 where rec: "record_tool_delta d ?l0 = (a, l1)" by fastforce
  have ls1: "ls1 = ls \<or> ls1 = snd (assemble_tool_output a go l1)"
    using assms by (auto simp: consume_tool_delta_def rec split: if_splits option.splits)
  have "same_turn_fields ls ?l0" "in_model_output (ls_inputs ?l0) = in_model_output (ls_inputs ls)"
    by (simp_all add: mark_tool_failure_def same_turn_fields_def)
  then have "same_turn_fields ls l1" "in_model_output (ls_inputs l1) = in_model_output (ls_inputs ls)"
    using record_fields(2,4) [where ls="?l0" and d=d] by (simp_all add: rec same_turn_fields_def)
  then show "same_turn_fields ls ls1" "in_model_output (ls_inputs ls1) = in_model_output (ls_inputs ls)"
    using ls1 by (auto simp: assemble_tool_fields)
qed

lemma apply_keeps_turns:
  assumes "apply_tick_input input go ls = (r, go1, ls1)"
  shows "h_conversation (ls_history ls1) = h_conversation (ls_history ls)"
    "h_held (ls_history ls1) = h_held (ls_history ls)"
  using assms consume_model_fields(1) consume_tool_fields(1)
  by (cases input;
      fastforce simp: apply_tick_input_def same_turn_fields_def assign_message_ordering_def
        split: option.splits if_splits)+

lemma apply_outputs:
  assumes "apply_tick_input input go ls = (r, go1, ls1)" "ls_inputs ls = empty_inputs"
  shows "in_model_output (ls_inputs ls1) = []
    \<or> (\<exists>m. in_model_output (ls_inputs ls1) = [m] \<and> m_role m = RoleAssistant
         \<and> in_user_control (ls_inputs ls1) = [])"
proof (cases input)
  case (InputModelDelta d)
  then have "consume_model_delta d go ls = (r, go1, ls1)" using assms(1) by (simp add: apply_tick_input_def)
  from consume_model_fields [OF this] show ?thesis
    using assms(2) by (auto simp: same_turn_fields_def empty_inputs_def)
next
  case (InputToolDelta d)
  then have "consume_tool_delta d go ls = (r, go1, ls1)" using assms(1) by (simp add: apply_tick_input_def)
  from consume_tool_fields [OF this] show ?thesis
    using assms(2) by (auto simp: empty_inputs_def)
qed (use assms in \<open>auto simp: apply_tick_input_def assign_message_ordering_def empty_inputs_def
      split: option.splits if_splits\<close>)

text \<open>The turns an item brings: a user message that is neither control nor an assistant's.\<close>

definition user_turn :: "tick_input \<Rightarrow> 'f loop_state \<Rightarrow> message list" where
  "user_turn input ls =
     (case input of
        InputUser u \<Rightarrow>
          if ur_error u = None \<and> \<not> has_control_plane_part (ur_message u)
             \<and> m_role (ur_message u) \<noteq> RoleAssistant
          then [(ur_message u)\<lparr>m_global_index := h_next_index (ls_history ls), m_actor_id := PUser\<rparr>] else []
      | _ \<Rightarrow> [])"

lemma apply_user_turn:
  assumes "apply_tick_input input go ls = (None, go1, ls1)" "ls_inputs ls = empty_inputs"
  shows "filter (\<lambda>m. m_role m \<noteq> RoleAssistant) (in_user_output (ls_inputs ls1)) = user_turn input ls"
proof (cases input)
  case (InputUser u)
  then show ?thesis
    using assms
    by (auto simp: apply_tick_input_def user_turn_def assign_message_ordering_def empty_inputs_def
        has_control_plane_part_def split: option.splits if_splits)
next
  case (InputModelDelta d)
  then have "consume_model_delta d go ls = (None, go1, ls1)" using assms(1) by (simp add: apply_tick_input_def)
  from consume_model_fields(1) [OF this] show ?thesis
    using assms(2) InputModelDelta by (simp add: same_turn_fields_def empty_inputs_def user_turn_def)
next
  case (InputToolDelta d)
  then have "consume_tool_delta d go ls = (None, go1, ls1)" using assms(1) by (simp add: apply_tick_input_def)
  from consume_tool_fields(1) [OF this] show ?thesis
    using assms(2) InputToolDelta by (simp add: same_turn_fields_def empty_inputs_def user_turn_def)
qed (use assms in \<open>auto simp: apply_tick_input_def user_turn_def empty_inputs_def\<close>)

lemma filter_rewrite:
  assumes "\<And>x. P x \<Longrightarrow> f x = x" "\<And>x. P (f x) \<longleftrightarrow> P x"
  shows "filter P (rewrite_range lo hi f xs) = filter P xs"
proof -
  have "filter P (map (\<lambda>(i, x). if lo \<le> i \<and> i < hi then f x else x) (enumerate n xs)) = filter P xs" for n
    by (induction xs arbitrary: n) (auto simp: assms)
  then show ?thesis by (simp add: rewrite_range_def)
qed

lemma rewrite_range_snoc:
  "hi \<le> length xs \<Longrightarrow> rewrite_range lo hi f (xs @ [x]) = rewrite_range lo hi f xs @ [x]"
  by (simp add: rewrite_range_def enumerate_append_eq)

lemma compact_turns:
  assumes "compact_settled_assistant_audio mode go h = (go', h')"
  shows "filter (\<lambda>m. m_role m \<noteq> RoleAssistant) (h_conversation h')
      = filter (\<lambda>m. m_role m \<noteq> RoleAssistant) (h_conversation h)"
    "h_conversation h = base @ [m] \<Longrightarrow> m_role m = RoleAssistant \<Longrightarrow> \<exists>base'. h_conversation h' = base' @ [m]"
proof -
  show "filter (\<lambda>m. m_role m \<noteq> RoleAssistant) (h_conversation h')
      = filter (\<lambda>m. m_role m \<noteq> RoleAssistant) (h_conversation h)"
    using assms
    by (auto simp: compact_settled_assistant_audio_def Let_def without_audio_bytes_def
        split: if_splits option.splits intro!: filter_rewrite)
  assume "h_conversation h = base @ [m]" "m_role m = RoleAssistant"
  then have "latest_assistant (h_conversation h) (length (h_conversation h)) = Some (length base)"
    by simp
  then show "\<exists>base'. h_conversation h' = base' @ [m]"
    using assms \<open>h_conversation h = base @ [m]\<close>
    by (auto simp: compact_settled_assistant_audio_def Let_def rewrite_range_snoc split: if_splits)
qed

lemma update_turns:
  assumes "update_world_history go ls = (go', ls')"
  shows "turns ls' = turns ls + mset (filter (\<lambda>m. m_role m \<noteq> RoleAssistant)
      (in_tool_output (ls_inputs ls) @ in_user_output (ls_inputs ls) @ in_model_output (ls_inputs ls)))"
    "in_model_output (ls_inputs ls) = [m] \<Longrightarrow> m_role m = RoleAssistant
      \<Longrightarrow> \<exists>base. h_conversation (ls_history ls') = base @ [m]"
    "ls_inputs ls' = ls_inputs ls"
proof -
  let ?h3 = "append_tool_user_deltas (ls_inputs ls)
    (append_model_deltas (go_tool_batch_active go) (in_model_delta (ls_inputs ls))
      (append_outputs (ls_inputs ls) (ls_history ls)))"
  obtain go1 h4 where settle: "settle_history go ?h3 = (go1, h4)" by fastforce
  obtain go2 h5 where compact: "compact_settled_assistant_audio (ls_mode ls) go1 h4 = (go2, h5)"
    by fastforce
  have ls': "ls' = ls\<lparr>ls_history := h5\<rparr>"
    using assms by (simp add: update_world_history_def Let_def settle compact)
  have h4: "h_conversation h4 = h_conversation (ls_history ls) @ in_tool_output (ls_inputs ls)
      @ in_user_output (ls_inputs ls) @ in_model_output (ls_inputs ls)" "h_held h4 = h_held (ls_history ls)"
    using settle_keeps [OF settle] by (simp_all add: append_tool_user_deltas_def append_outputs_def)
  have "h_held h5 = h_held (ls_history ls)" using compact_keeps [OF compact] h4(2) by simp
  then show "turns ls' = turns ls + mset (filter (\<lambda>m. m_role m \<noteq> RoleAssistant)
      (in_tool_output (ls_inputs ls) @ in_user_output (ls_inputs ls) @ in_model_output (ls_inputs ls)))"
    using compact_turns(1) [OF compact] h4
    by (simp add: turns_def ls' del: mset_filter filter_empty_conv)
  show "ls_inputs ls' = ls_inputs ls" by (simp add: ls')
  assume "in_model_output (ls_inputs ls) = [m]" "m_role m = RoleAssistant"
  then show "\<exists>base. h_conversation (ls_history ls') = base @ [m]"
    using compact_turns(2) [OF compact, of _ m] h4(1) by (simp add: ls')
qed

section \<open>No user turn is lost\<close>

lemma update_outputs_at_tail:
  assumes "apply_tick_input input go ls = (None, go1, ls1)" "ls_inputs ls = empty_inputs"
    and "update_world_history go1 ls1 = (go2, ls2)"
  shows "outputs_at_tail ls2"
    "turns ls + mset (user_turn input ls) \<subseteq># turns ls2"
proof -
  have same: "turns ls1 = turns ls"
    using apply_keeps_turns [OF assms(1)] by (rule turns_history)
  show "outputs_at_tail ls2"
    using apply_outputs [OF assms(1,2)]
  proof (elim disjE exE conjE)
    fix m
    assume m: "in_model_output (ls_inputs ls1) = [m]" "m_role m = RoleAssistant" "in_user_control (ls_inputs ls1) = []"
    then show ?thesis
      using update_turns(2) [OF assms(3) m(1,2)] update_turns(3) [OF assms(3)]
      by (simp add: outputs_at_tail_def has_interrupt_message_def)
  qed (use update_turns(3) [OF assms(3)] in \<open>simp add: outputs_at_tail_def\<close>)
  have "mset (user_turn input ls)
      = mset (filter (\<lambda>m. m_role m \<noteq> RoleAssistant) (in_user_output (ls_inputs ls1)))"
    using apply_user_turn [OF assms(1,2)] by simp
  then show "turns ls + mset (user_turn input ls) \<subseteq># turns ls2"
    using update_turns(1) [OF assms(3)] same by (simp add: ac_simps)
qed

lemma before_run:
  "execute_world_state env ts subs w = (e, w') \<Longrightarrow> set subs \<subseteq> {SubInterrupt, SubAudio, SubForwarder} \<Longrightarrow>
   outputs_at_tail (en_loop w) \<Longrightarrow>
   turns (en_loop w) \<subseteq># turns (en_loop w') \<and> outputs_at_tail (en_loop w')"
proof (induction subs arbitrary: w)
  case (Cons sub subs)
  obtain x w1 where step: "execute_subsystem env ts sub w = (x, w1)" by fastforce
  note after = before_step [OF _ step Cons.prems(3)]
  show ?case
  proof (cases x)
    case None
    then show ?thesis using Cons step after by (fastforce intro: subset_mset.order_trans)
  qed (use Cons.prems step after in auto)
qed simp

lemma after_run:
  "execute_world_state env ts subs w = (e, w') \<Longrightarrow> set subs \<inter> {SubCoordinator, SubTokenCounter} = {} \<Longrightarrow>
   turns (en_loop w) \<subseteq># turns (en_loop w')"
proof (induction subs arbitrary: w)
  case (Cons sub subs)
  obtain x w1 where step: "execute_subsystem env ts sub w = (x, w1)" by fastforce
  note after = after_step [OF _ step]
  show ?case
  proof (cases x)
    case None
    then show ?thesis using Cons step after by (fastforce intro: subset_mset.order_trans)
  qed (use Cons.prems step after in auto)
qed simp

definition unlimited :: "loop_config \<Rightarrow> bool" where
  "unlimited cfg \<longleftrightarrow> lc_counter cfg = None \<or> lc_max_tokens cfg \<le> 0"

lemma world_run_turns:
  assumes "execute_world_state env ts (tick_order cfg) w = (e, w')" "unlimited cfg"
    and "outputs_at_tail (en_loop w)"
  shows "turns (en_loop w) \<subseteq># turns (en_loop w')"
proof -
  have before: "set (before_coordinator cfg) \<subseteq> {SubInterrupt, SubAudio, SubForwarder}"
    by (auto simp: before_coordinator_def)
  have after: "set (after_coordinator cfg) \<inter> {SubCoordinator, SubTokenCounter} = {}"
    using assms(2) by (auto simp: after_coordinator_def unlimited_def)
  obtain x w1 where pre: "execute_world_state env ts (before_coordinator cfg) w = (x, w1)" by fastforce
  obtain y w2 where co: "execute_subsystem env ts SubCoordinator w1 = (y, w2)" by fastforce
  obtain z w3 where post: "execute_world_state env ts (after_coordinator cfg) w2 = (z, w3)" by fastforce
  have "w' = w1 \<or> w' = w2 \<or> w' = w3"
    using assms(1) by (cases x; cases y) (auto simp: tick_order_parts execute_append pre co post)
  moreover have "turns (en_loop w) \<subseteq># turns (en_loop w1)" "outputs_at_tail (en_loop w1)"
    using before_run [OF pre before assms(3)] by simp_all
  moreover have "turns (en_loop w2) = turns (en_loop w1)" "turns (en_loop w2) \<subseteq># turns (en_loop w3)"
    using coordinator_step [OF co calculation(3)] after_run [OF post after] by simp_all
  ultimately show ?thesis by (metis subset_mset.order_trans)
qed

lemma tick_turns:
  assumes "engine_tick env ts w = Some (r, w')" "ee_subsystems env = tick_order cfg" "unlimited cfg"
    and "ls_inputs (en_loop w) = empty_inputs"
  shows "turns (en_loop w) + mset (case receive_tick ts (en_ordering w) of
           Some (Inr input, _) \<Rightarrow> user_turn input (en_loop w) | _ \<Rightarrow> []) \<subseteq># turns (en_loop w')"
    "r = None \<Longrightarrow> ls_inputs (en_loop w') = empty_inputs"
proof -
  obtain received go where rec: "receive_tick ts (en_ordering w) = Some (received, go)"
    and w': "(r, w') = tick_with env ts received (w\<lparr>en_ordering := go\<rparr>)"
    using assms(1) by (auto simp: engine_tick_def split: option.splits)
  have "turns (en_loop w) + mset (case received of Inr input \<Rightarrow> user_turn input (en_loop w) | _ \<Rightarrow> [])
      \<subseteq># turns (en_loop w') \<and> (r = None \<longrightarrow> ls_inputs (en_loop w') = empty_inputs)"
  proof (cases received)
    case (Inl e)
    then show ?thesis using w' by (simp add: tick_with_def set_error_def)
  next
    case (Inr input)
    obtain x go1 ls1 where ap: "apply_tick_input input go (en_loop w) = (x, go1, ls1)" by (metis prod_cases3)
    show ?thesis
    proof (cases x)
      case (Some e)
      have "user_turn input (en_loop w) = []"
        using ap Some by (auto simp: apply_tick_input_def user_turn_def split: tick_input.splits option.splits prod.splits)
      moreover have "turns ls1 = turns (en_loop w)" using apply_keeps_turns [OF ap] by (rule turns_history)
      ultimately show ?thesis using w' Inr Some ap by (simp add: tick_with_def set_error_def world_with_def)
    next
      case None
      note ap' = ap [unfolded None]
      obtain go2 ls2 where up: "update_world_history go1 ls1 = (go2, ls2)" by fastforce
      let ?w = "w\<lparr>en_ordering := go2, en_loop := ls2\<rparr>"
      obtain y w2 where run: "execute_world_state env ts (tick_order cfg) ?w = (y, w2)" by fastforce
      have "(r, w') = (case y of None \<Rightarrow> (None, w2\<lparr>en_loop := flush_inputs (en_loop w2),
          en_tick_count := en_tick_count w2 + 1\<rparr>) | Some e \<Rightarrow> (Some e, w2))"
        using w' Inr ap' up run assms(2)
        by (simp add: tick_with_def finish_tick_def world_with_def split: option.splits)
      then have w2: "turns (en_loop w') = turns (en_loop w2)" "r = None \<longrightarrow> ls_inputs (en_loop w') = empty_inputs"
        by (auto simp: turns_def split: option.splits)
      have tail: "outputs_at_tail ls2" "turns (en_loop w) + mset (user_turn input (en_loop w)) \<subseteq># turns ls2"
        using update_outputs_at_tail [OF ap' assms(4) up] by simp_all
      have "turns ls2 \<subseteq># turns (en_loop w2)"
        using world_run_turns [OF run assms(3)] tail(1) by simp
      then show ?thesis using w2 tail(2) Inr by (auto intro: subset_mset.order_trans)
    qed
  qed
  then show "turns (en_loop w) + mset (case receive_tick ts (en_ordering w) of
           Some (Inr input, _) \<Rightarrow> user_turn input (en_loop w) | _ \<Rightarrow> []) \<subseteq># turns (en_loop w')"
    "r = None \<Longrightarrow> ls_inputs (en_loop w') = empty_inputs"
    using rec by (auto split: sum.splits)
qed

text \<open>The user turns the ticks of a hot loop take from the user's outbox.\<close>

fun taken_turns ::
    "('q, 's, 'u, 'p) engine_env \<Rightarrow> int \<Rightarrow> (tick_schedule \<times> int \<times> go_error option) list
     \<Rightarrow> ('f, 'q, 's, 'u, 'p) engine_state \<Rightarrow> message list" where
  "taken_turns env rate [] w = []"
| "taken_turns env rate ((ts, elapsed, waited) # tss) w =
     (case receive_tick ts (en_ordering w) of Some (Inr input, _) \<Rightarrow> user_turn input (en_loop w) | _ \<Rightarrow> [])
     @ (case engine_tick env ts w of
          Some (None, w') \<Rightarrow>
            if wait_for_next_tick rate elapsed waited = None then taken_turns env rate tss w' else []
        | _ \<Rightarrow> [])"

lemma hot_loop_turns:
  "hot_loop env rate tss w = Some (e, w') \<Longrightarrow> ee_subsystems env = tick_order cfg \<Longrightarrow> unlimited cfg \<Longrightarrow>
   ls_inputs (en_loop w) = empty_inputs \<Longrightarrow>
   turns (en_loop w) + mset (taken_turns env rate tss w) \<subseteq># turns (en_loop w')"
proof (induction env rate tss w rule: hot_loop.induct)
  case (2 env rate ts elapsed waited tss w)
  let ?new = "mset (case receive_tick ts (en_ordering w) of
      Some (Inr input, _) \<Rightarrow> user_turn input (en_loop w) | _ \<Rightarrow> [])"
  obtain r w1 where tick: "engine_tick env ts w = Some (r, w1)"
    using 2(2) by (auto split: option.splits)
  note step = tick_turns [OF tick 2(3,4,5)]
  show ?case
  proof (cases "r = None \<and> wait_for_next_tick rate elapsed waited = None")
    case True
    have "hot_loop env rate tss w1 = Some (e, w')" using 2(2) tick True by simp
    then have "turns (en_loop w1) + mset (taken_turns env rate tss w1) \<subseteq># turns (en_loop w')"
      using 2(1) [OF tick] True 2(3,4) step(2) by blast
    moreover have "mset (taken_turns env rate ((ts, elapsed, waited) # tss) w)
        = ?new + mset (taken_turns env rate tss w1)"
      using tick True by simp
    moreover note subset_mset.add_right_mono [OF step(1), of "mset (taken_turns env rate tss w1)"]
    ultimately show ?thesis by (simp only: add.assoc)
  next
    case False
    then have "w' = w1" using 2(2) tick by (auto split: option.splits)
    moreover have "mset (taken_turns env rate ((ts, elapsed, waited) # tss) w) = ?new"
      using tick False by (auto split: option.splits)
    ultimately show ?thesis using step(1) by simp
  qed
qed simp

lemma flush_recorders_fields [simp]:
  "en_loop (flush_recorders env hist subs w) = en_loop w"
  "en_run_state (flush_recorders env hist subs w) = en_run_state w"
  by (induction subs arbitrary: w) simp_all

lemma exit_settled:
  "h_held (ls_history (en_loop (hot_loop_exit env w))) = []"
  "turns (en_loop (hot_loop_exit env w)) = turns (en_loop w)"
  "en_run_state (hot_loop_exit env w) \<noteq> RunStateRunning"
  by (auto simp: hot_loop_exit_def settle_held_user_messages_def place_held_on_exit_def Let_def
      set_run_state_def turns_place)

lemma start_turns:
  "turns (en_loop (hot_loop_start i w)) = turns (en_loop w)"
  "ls_inputs (en_loop (hot_loop_start i w)) = ls_inputs (en_loop w)"
  by (simp_all add: hot_loop_start_def set_run_state_def initial_request_def Let_def request_simps turns_def)

text \<open>
  C1: no user turn is lost by the engine. Run the hot loop of a loop without a token limit,
  in any mode, under any schedule of arrivals, picks, cancellations and failures, until it
  exits. Then every message other than the assistant's that history held at the start, and
  every user message a tick took from the user's outbox, is in the conversation, as often
  as it was taken; nothing is left held; and the engine no longer counts as running. This
  covers ticks that end in a subsystem's error and turns held in the middle of an exchange.
\<close>

theorem hot_loop_keeps_turns:
  assumes "run_hot_loop env rate send_initial tss w = Some (e, w')"
    and "build_subsystems cfg = Inr (hlps, n)" "ee_subsystems env = ordered_subsystems hlps"
    and "lc_counter cfg = None \<or> lc_max_tokens cfg \<le> 0"
    and "ls_inputs (en_loop w) = empty_inputs"
  shows "mset (filter (\<lambda>m. m_role m \<noteq> RoleAssistant)
             (h_conversation (ls_history (en_loop w)) @ h_held (ls_history (en_loop w))))
       + mset (taken_turns env rate tss (hot_loop_start send_initial w))
         \<subseteq># mset (h_conversation (ls_history (en_loop w')))
    \<and> h_held (ls_history (en_loop w')) = [] \<and> en_run_state w' \<noteq> RunStateRunning"
proof -
  obtain w1 where run: "hot_loop env rate tss (hot_loop_start send_initial w) = Some (e, w1)"
    and w': "w' = hot_loop_exit env w1"
    using assms(1) by (auto simp: run_hot_loop_def)
  have "turns (en_loop w) + mset (taken_turns env rate tss (hot_loop_start send_initial w)) \<subseteq># turns (en_loop w')"
    using hot_loop_turns [OF run, of cfg] assms(3,4,5) tick_order_sorted(1) [OF assms(2)]
    by (simp add: unlimited_def w' start_turns exit_settled)
  moreover have "turns (en_loop w') \<subseteq># mset (h_conversation (ls_history (en_loop w')))"
    by (simp add: turns_def w' exit_settled multiset_filter_subset)
  ultimately have "turns (en_loop w) + mset (taken_turns env rate tss (hot_loop_start send_initial w))
      \<subseteq># mset (h_conversation (ls_history (en_loop w')))"
    by (rule subset_mset.order_trans)
  then show ?thesis by (simp add: turns_def w' exit_settled)
qed

text \<open>A turn-taking loop that takes one user message in the middle of a model answer and is then cancelled.\<close>

definition sample_config :: loop_config where
  "sample_config = \<lparr>lc_mode = ModeTurnTaking, lc_audio = False, lc_recorder = False, lc_counter = None,
     lc_max_tokens = 0, lc_threshold_positive = False, lc_threshold_tokens = 0,
     lc_pressure_message = '''', lc_system_prompt = '''', lc_initial_history = []\<rparr>"

definition sample_env :: "(unit, unit, unit, unit) engine_env" where
  "sample_env = \<lparr>ee_session = None, ee_backend = None, ee_counter = None, ee_max_tokens = 0,
     ee_writer = None, ee_ports = \<lparr>ap_capture = None, ap_playback = None, ap_commands = None\<rparr>,
     ee_subsystems = [SubInterrupt, SubCoordinator, SubInteraction, SubCoordinatorDelta]\<rparr>"

definition sample_engine :: "(unit, unit, unit, unit, unit) engine_state" where
  "sample_engine = \<lparr>en_loop = new_loop_state ModeTurnTaking [] False,
     en_ordering = new_global_ordering\<lparr>go_user_outbox := Some []\<rparr>, en_cancels = \<lparr>cr_model = 0, cr_tool = 0\<rparr>,
     en_coordinator = new_coordinator\<lparr>co_open := True\<rparr>, en_forwarded = [], en_session = (),
     en_recorder = \<lparr>rec_interval = 0, rec_ticks = 0\<rparr>, en_store = (),
     en_notifier = \<lparr>pn_max_tokens = 0, pn_threshold_positive = False, pn_threshold_tokens = 0,
       pn_warning = '''', pn_fired = False\<rparr>,
     en_user = (), en_audio = new_audio_subsystem, en_ports = (), en_tick_count = 0,
     en_run_state = RunStateStopped, en_error = None\<rparr>"

definition sample_tick :: "user_response list \<Rightarrow> ctx_state \<Rightarrow> tick_schedule" where
  "sample_tick users c = \<lparr>ts_before = no_arrivals\<lparr>ar_user := users\<rparr>, ts_between = no_arrivals,
     ts_pick1 = 0, ts_pick2 = 0, ts_ctx1 = c, ts_ctx2 = c, ts_ctx_run = c, ts_now = []\<rparr>"

definition sample_run :: "(tick_schedule \<times> int \<times> go_error option) list" where
  "sample_run =
     [(sample_tick [\<lparr>ur_message = new_text_message RoleUser ''wait'', ur_error = None\<rparr>] CtxLive, 0, None),
      (sample_tick [] (CtxDone CtxCanceled), 0, None)]"

lemma sample_run_result:
  "map_option (\<lambda>(e, w'). (e, h_conversation (ls_history (en_loop w')), en_run_state w'))
     (run_hot_loop sample_env 0 False sample_run sample_engine)
   = Some (TickGoError CtxCanceled, [(new_text_message RoleUser ''wait'')\<lparr>m_actor_id := PUser\<rparr>], RunStateError)"
  by code_simp

lemma sample_taken:
  "taken_turns sample_env 0 sample_run (hot_loop_start False sample_engine)
     = [(new_text_message RoleUser ''wait'')\<lparr>m_actor_id := PUser\<rparr>]"
  by code_simp

lemma hot_loop_keeps_turns_witness:
  "\<exists>w'. run_hot_loop sample_env 0 False sample_run sample_engine = Some (TickGoError CtxCanceled, w')
     \<and> {#(new_text_message RoleUser ''wait'')\<lparr>m_actor_id := PUser\<rparr>#}
         \<subseteq># mset (h_conversation (ls_history (en_loop w')))
     \<and> h_held (ls_history (en_loop w')) = [] \<and> en_run_state w' \<noteq> RunStateRunning"
proof -
  obtain w' where run: "run_hot_loop sample_env 0 False sample_run sample_engine = Some (TickGoError CtxCanceled, w')"
    using sample_run_result by (cases "run_hot_loop sample_env 0 False sample_run sample_engine") auto
  have built: "build_subsystems sample_config
      = Inr ([SubInterrupt, SubCoordinatorDelta, SubCoordinator, SubInteraction], None)"
    by (simp add: build_subsystems_def sample_config_def)
  have env: "ee_subsystems sample_env
      = ordered_subsystems [SubInterrupt, SubCoordinatorDelta, SubCoordinator, SubInteraction]"
    by (simp add: sample_env_def ordered_subsystems_def)
  have lim: "lc_counter sample_config = None \<or> lc_max_tokens sample_config \<le> 0"
    and idle: "ls_inputs (en_loop sample_engine) = empty_inputs"
    by (simp_all add: sample_config_def sample_engine_def new_loop_state_def)
  note kept = hot_loop_keeps_turns [OF run built env lim idle]
  have "{#(new_text_message RoleUser ''wait'')\<lparr>m_actor_id := PUser\<rparr>#}
         \<subseteq># mset (h_conversation (ls_history (en_loop w')))"
    using kept [THEN conjunct1] unfolding sample_taken by (simp add: sample_engine_def new_loop_state_def empty_history_def)
  then show ?thesis using run kept by blast
qed

section \<open>A tick's order\<close>

text \<open>
  the subsystems of a loop run in one fixed order, whatever order they are listed in
  among the ten the constructor wires: the interrupt handler first; the audio observation and
  the result forwarder before the coordinator; the coordinator before the interaction events
  and these before the delta coordinator, which closes the stream; then the recorder, the
  token limit and the pressure warning. The slice never exceeds the twelve elements up to
  which Go's unstable sort is stable.
\<close>

theorem subsystem_order:
  assumes "build_subsystems cfg = Inr (hlps, n)"
  shows "ordered_subsystems hlps = tick_order cfg \<and> length hlps \<le> 12
    \<and> sorted (map tick_group (tick_order cfg)) \<and> distinct (tick_order cfg)"
  using tick_order_sorted [OF assms] by (simp_all add: tick_order_def)

lemma subsystem_order_witness:
  "ordered_subsystems [SubInterrupt, SubCoordinatorDelta, SubCoordinator, SubInteraction]
     = [SubInterrupt, SubCoordinator, SubInteraction, SubCoordinatorDelta]"
  using subsystem_order [of sample_config "[SubInterrupt, SubCoordinatorDelta, SubCoordinator, SubInteraction]" None]
  by (simp add: build_subsystems_def sample_config_def tick_order_def)

section \<open>Bounded driving\<close>

lemma tick_until_from_bound:
  "tick_until_from i env P tss w = Some (r, w') \<Longrightarrow>
   (case r of UntilHolds k \<Rightarrow> i \<le> k \<and> k \<le> i + length tss \<and> P w'
      \<and> tick_n env (take (k - i) tss) w = Some (None, w')
    | UntilFailed k e \<Rightarrow> i < k \<and> k \<le> i + length tss
      \<and> tick_n env (take (k - i) tss) w = Some (Some e, w')
    | UntilExceeded k \<Rightarrow> k = i + length tss \<and> \<not> P w' \<and> tick_n env tss w = Some (None, w'))"
proof (induction i env P tss w rule: tick_until_from.induct)
  case (2 i env P ts tss w)
  show ?case
  proof (cases "P w")
    case False
    then obtain x w1 where tick: "engine_tick env ts w = Some (x, w1)"
      using 2(2) by (auto split: option.splits)
    show ?thesis
    proof (cases x)
      case None
      have "tick_until_from (i + 1) env P tss w1 = Some (r, w')" using 2(2) False tick None by simp
      from 2(1) [OF False tick refl None this] None show ?thesis
        by (cases r) (auto simp: tick take_Cons' split: until_result.splits)
    next
      case (Some e)
      then show ?thesis using 2(2) False tick by (auto simp: take_Cons')
    qed
  qed (use 2(2) in auto)
qed (auto split: if_splits)

text \<open>
  a bounded drive ends within its limit and tells the truth. Unless a tick waits for
  input for ever, \<^verbatim>\<open>TickUntil\<close> executes at most \<^verbatim>\<open>maxTicks\<close> ticks, and its count is
  exactly how many it executed: it reports success only in a state where the predicate
  holds, the first failing tick's error, and that the limit was exceeded only after all
  ticks in a state where the predicate does not hold.
\<close>

theorem tick_until_bounded:
  assumes "tick_until env P tss w = Some (r, w')"
  shows "case r of
      UntilHolds k \<Rightarrow> k \<le> length tss \<and> P w' \<and> tick_n env (take k tss) w = Some (None, w')
    | UntilFailed k e \<Rightarrow> 0 < k \<and> k \<le> length tss \<and> tick_n env (take k tss) w = Some (Some e, w')
    | UntilExceeded k \<Rightarrow> k = length tss \<and> \<not> P w' \<and> tick_n env tss w = Some (None, w')"
  using tick_until_from_bound [of 0 env P tss w r w'] assms
  by (cases r) (simp_all add: tick_until_def)

lemma sample_until:
  "map_option fst (tick_until sample_env (\<lambda>w. en_tick_count w = 1) [fst (hd sample_run)] sample_engine)
     = Some (UntilHolds 1)"
  by code_simp

lemma tick_until_bounded_witness:
  "\<exists>w'. tick_until sample_env (\<lambda>w. en_tick_count w = 1) [fst (hd sample_run)] sample_engine
       = Some (UntilHolds 1, w')
     \<and> en_tick_count w' = 1 \<and> tick_n sample_env [fst (hd sample_run)] sample_engine = Some (None, w')"
proof -
  obtain w' where run: "tick_until sample_env (\<lambda>w. en_tick_count w = 1) [fst (hd sample_run)] sample_engine
      = Some (UntilHolds 1, w')"
    using sample_until
    by (cases "tick_until sample_env (\<lambda>w. en_tick_count w = 1) [fst (hd sample_run)] sample_engine") auto
  then show ?thesis using tick_until_bounded [OF run] by simp
qed

section \<open>Queued input is consumed\<close>

text \<open>How many items the four outboxes hold.\<close>

definition pending_items :: "global_ordering \<Rightarrow> nat" where
  "pending_items go =
     length (go_model_outbox go) + (case go_tool_outbox go of None \<Rightarrow> 0 | Some q \<Rightarrow> length q)
     + (case go_interaction_outbox go of None \<Rightarrow> 0 | Some q \<Rightarrow> length q)
     + (case go_user_outbox go of None \<Rightarrow> 0 | Some q \<Rightarrow> length q)"

definition quiet :: "tick_schedule \<Rightarrow> bool" where
  "quiet ts \<longleftrightarrow> ts_before ts = no_arrivals \<and> ts_between ts = no_arrivals
     \<and> ts_ctx1 ts = CtxLive \<and> ts_ctx2 ts = CtxLive"

lemma arrive_nothing [simp]: "arrive no_arrivals go = go"
  by (cases go) (simp add: arrive_def no_arrivals_def option.map_ident)

lemma take_pending:
  "take_model go = Some (i, go') \<Longrightarrow> pending_items go = Suc (pending_items go')"
  "take_tool go = Some (i, go') \<Longrightarrow> pending_items go = Suc (pending_items go')"
  "take_interaction go = Some (i, go') \<Longrightarrow> pending_items go = Suc (pending_items go')"
  "take_user go = Some (i, go') \<Longrightarrow> pending_items go = Suc (pending_items go')"
  by (auto simp: take_model_def take_tool_def take_interaction_def take_user_def pending_items_def
      split: list.splits option.splits)

lemma nothing_pending:
  "take_model go = None \<Longrightarrow> take_tool go = None \<Longrightarrow> take_interaction go = None \<Longrightarrow> take_user go = None
   \<Longrightarrow> pending_items go = 0"
  by (auto simp: take_model_def take_tool_def take_interaction_def take_user_def pending_items_def
      split: list.splits option.splits)

lemma select_ready_some:
  "select_ready pick cases = Some x \<Longrightarrow> Some x \<in> set cases"
  "y \<in> set cases \<Longrightarrow> y \<noteq> None \<Longrightarrow> select_ready pick cases \<noteq> None"
proof -
  let ?ready = "concat (map (\<lambda>c. case c of None \<Rightarrow> [] | Some x \<Rightarrow> [x]) cases)"
  have members: "y \<in> set ?ready \<longleftrightarrow> Some y \<in> set cases" for y
    by (force split: option.splits)
  assume "select_ready pick cases = Some x"
  then have "x = ?ready ! (pick mod length ?ready)" "?ready \<noteq> []"
    by (simp_all add: select_ready_def Let_def split: if_splits)
  then have "x \<in> set ?ready" by (metis length_greater_0_conv mod_less_divisor nth_mem)
  then show "Some x \<in> set cases" using members by simp
next
  assume "y \<in> set cases" "y \<noteq> None"
  then show "select_ready pick cases \<noteq> None"
    by (force simp: select_ready_def Let_def split: option.splits)
qed

lemma some_item_case:
  "Some x = item_case t \<longleftrightarrow> (\<exists>i go. t = Some (i, go) \<and> x = (Inr i, go))"
  by (cases t) (auto simp: item_case_def)

lemma receive_quiet:
  assumes "quiet ts" "pending_items go > 0"
  shows "\<exists>i go'. receive_tick ts go = Some (Inr i, go') \<and> pending_items go = Suc (pending_items go')"
proof -
  define one where "one = [ctx_case CtxLive go, item_case (take_model go), item_case (take_tool go), item_case (take_interaction go)]"
  have rec: "receive_tick ts go = (case select_ready (ts_pick1 ts) one of Some r \<Rightarrow> Some r
      | None \<Rightarrow> select_ready (ts_pick2 ts) (one @ [item_case (take_user go)]))"
    using assms(1) by (simp add: receive_tick_def receive_tick_input_def quiet_def Let_def one_def cong: option.case_cong)
  have item: "\<exists>i go'. x = (Inr i, go') \<and> pending_items go = Suc (pending_items go')"
    if "Some x \<in> set (one @ [item_case (take_user go)])" for x
    using that take_pending [of go] by (auto simp: one_def ctx_case_def some_item_case)
  have some: "\<exists>y \<in> set (one @ [item_case (take_user go)]). y \<noteq> None"
  proof (rule ccontr)
    assume "\<not> (\<exists>y \<in> set (one @ [item_case (take_user go)]). y \<noteq> None)"
    then have "pending_items go = 0"
      by (intro nothing_pending) (auto simp: one_def item_case_def, (metis option.exhaust surj_pair)+)
    then show False using assms(2) by simp
  qed
  then have "receive_tick ts go \<noteq> None"
    unfolding rec using select_ready_some(2) by (fastforce split: option.splits)
  then obtain x where x: "receive_tick ts go = Some x" by blast
  then have "Some x \<in> set (one @ [item_case (take_user go)])"
    unfolding rec using select_ready_some(1) by (fastforce split: option.splits)
  then show ?thesis using item x by blast
qed

lemma execute_keeps_ordering:
  "execute_world_state env ts subs w = (r, w') \<Longrightarrow> en_ordering w' = en_ordering w"
proof (induction subs arbitrary: w)
  case (Cons sub subs)
  obtain x w1 where step: "execute_subsystem env ts sub w = (x, w1)" by fastforce
  have "en_ordering w1 = en_ordering w"
    using step by (cases sub) (auto simp: execute_subsystem_def split: prod.splits option.splits)
  then show ?case using Cons step by (cases x) auto
qed simp

lemma apply_keeps_pending:
  assumes "apply_tick_input input go ls = (None, go1, ls1)"
  shows "pending_items go1 = pending_items go"
  using assms
  by (cases input)
     (auto simp: apply_tick_input_def consume_model_delta_def consume_tool_delta_def assemble_tool_output_def
        pending_items_def split: if_splits option.splits prod.splits stream_value.splits)

lemma settle_keeps_pending:
  "settle_history go h = (go', h') \<Longrightarrow> pending_items go' = pending_items go"
  by (auto simp: settle_history_def pending_items_def Let_def split: if_splits)

lemma compact_keeps_pending:
  "compact_settled_assistant_audio mode go h = (go', h') \<Longrightarrow> pending_items go' = pending_items go"
  by (auto simp: compact_settled_assistant_audio_def pending_items_def Let_def
      split: if_splits option.splits)

lemma update_keeps_pending:
  assumes "update_world_history go ls = (go', ls')"
  shows "pending_items go' = pending_items go"
proof -
  let ?h3 = "append_tool_user_deltas (ls_inputs ls)
    (append_model_deltas (go_tool_batch_active go) (in_model_delta (ls_inputs ls))
      (append_outputs (ls_inputs ls) (ls_history ls)))"
  obtain go1 h4 where settle: "settle_history go ?h3 = (go1, h4)" by fastforce
  obtain go2 h5 where compact: "compact_settled_assistant_audio (ls_mode ls) go1 h4 = (go2, h5)"
    by fastforce
  have "go' = go2" using assms by (simp add: update_world_history_def Let_def settle compact)
  then show ?thesis using settle_keeps_pending [OF settle] compact_keeps_pending [OF compact] by simp
qed

lemma quiet_tick:
  assumes "quiet ts" "pending_items (en_ordering w) > 0"
  shows "\<exists>r w'. engine_tick env ts w = Some (r, w')
    \<and> (r = None \<longrightarrow> pending_items (en_ordering w) = Suc (pending_items (en_ordering w')))"
proof -
  obtain i go where rec: "receive_tick ts (en_ordering w) = Some (Inr i, go)"
    "pending_items (en_ordering w) = Suc (pending_items go)"
    using receive_quiet [OF assms] by blast
  obtain r w' where tick: "tick_with env ts (Inr i) (w\<lparr>en_ordering := go\<rparr>) = (r, w')" by fastforce
  have "pending_items (en_ordering w') = pending_items go" if none: "r = None"
  proof -
    obtain go1 ls1 where ap: "apply_tick_input i go (en_loop w) = (None, go1, ls1)"
      using tick none by (cases "apply_tick_input i go (en_loop w)"; cases "fst (apply_tick_input i go (en_loop w))")
        (auto simp: tick_with_def)
    obtain go2 ls2 where up: "update_world_history go1 ls1 = (go2, ls2)" by fastforce
    obtain y w2 where run: "execute_world_state env ts (ee_subsystems env)
        (w\<lparr>en_ordering := go2, en_loop := ls2\<rparr>) = (y, w2)" by fastforce
    have "en_ordering w' = en_ordering w2"
      using tick ap up run by (auto simp: tick_with_def finish_tick_def world_with_def split: option.splits)
    then show ?thesis
      using execute_keeps_ordering [OF run] update_keeps_pending [OF up] apply_keeps_pending [OF ap] by simp
  qed
  then show ?thesis using rec tick by (auto simp: engine_tick_def)
qed

text \<open>
  queued input is always consumed. However many deltas, tool deltas, interaction events
  and user messages wait in the outboxes and whichever ready cases Go picks, that many ticks
  run without ever waiting, and unless one fails, they leave every outbox empty: no
  participant is starved, although deltas are preferred to user messages.
\<close>

theorem queued_input_consumed:
  assumes "list_all quiet tss" "length tss = pending_items (en_ordering w)"
  shows "\<exists>r w'. tick_n env tss w = Some (r, w') \<and> (r = None \<longrightarrow> pending_items (en_ordering w') = 0)"
  using assms
proof (induction tss arbitrary: w)
  case (Cons ts tss)
  obtain r w1 where tick: "engine_tick env ts w = Some (r, w1)"
    "r = None \<longrightarrow> pending_items (en_ordering w) = Suc (pending_items (en_ordering w1))"
    using quiet_tick [of ts w env] Cons.prems by auto
  show ?case
  proof (cases r)
    case None
    then show ?thesis using Cons.IH [of w1] Cons.prems tick by simp
  qed (use tick in simp)
qed simp

lemma queued_input_consumed_witness:
  "\<exists>r w'. tick_n sample_env [sample_tick [] CtxLive]
       (sample_engine\<lparr>en_ordering := new_global_ordering\<lparr>go_user_outbox :=
          Some [\<lparr>ur_message = new_text_message RoleUser ''wait'', ur_error = None\<rparr>]\<rparr>\<rparr>) = Some (r, w')
     \<and> (r = None \<longrightarrow> pending_items (en_ordering w') = 0)"
  by (rule queued_input_consumed)
     (simp_all add: quiet_def sample_tick_def no_arrivals_def pending_items_def new_global_ordering_def)

end
