(* ===== verification/Session_Outbox.thy ===== *)
theory Session_Outbox
  imports Typed_Buffer "HOL-Library.Sublist"
begin

text \<open>
  The session goroutine's path to its delta outbox,
  \<^verbatim>\<open>participants/model_runner_session_outbox.go\<close>: a delta that must be delivered and meets a
  full outbox is queued, and a pump goroutine waits for room instead of the session. The
  session's write, each atomic step of the pump and the consumer's read are functions of the
  state, and a run is any sequence of them: every section under the mutex is one step, the
  pump's write lies between its two sections.
\<close>

section \<open>State\<close>

record outbox_entry =
  oe_msg :: stream_message
  oe_terminal :: bool

text \<open>
  Where the pump stands: not running (\<^verbatim>\<open>drained\<close> is nil), before the section that takes the
  head, writing the entry it took, or done with the write. \<^verbatim>\<open>writing\<close> of the source is the
  last two. The abandon channel is closed exactly when \<^verbatim>\<open>overflow\<close> is set.
\<close>

datatype pump = PumpOff | PumpReady | PumpWriting outbox_entry | PumpWrote

record outbox =
  ob_out :: "stream_message typed_buffer"
  ob_limit :: nat
  ob_pending :: "outbox_entry list"
  ob_pump :: pump
  ob_overflow :: bool

definition max_pending_session_deltas :: nat where
  "max_pending_session_deltas = 4096"

definition new_session_outbox :: "stream_message typed_buffer \<Rightarrow> outbox" where
  "new_session_outbox out = \<lparr>ob_out = out, ob_limit = max_pending_session_deltas, ob_pending = [],
     ob_pump = PumpOff, ob_overflow = False\<rparr>"

definition pump_writing :: "outbox \<Rightarrow> bool" where
  "pump_writing q = (case ob_pump q of PumpWriting _ \<Rightarrow> True | PumpWrote \<Rightarrow> True | _ \<Rightarrow> False)"

definition shed_entry :: "outbox_entry \<Rightarrow> outbox \<Rightarrow> outbox" where
  "shed_entry e q = q\<lparr>ob_out := snd (shed (oe_msg e) (ob_out q))\<rparr>"

section \<open>The session's writes\<close>

definition abandon_locked :: "outbox \<Rightarrow> outbox" where
  "abandon_locked q =
     (let lost = (if pump_writing q \<and> length (ob_pending q) > 0 then tl (ob_pending q)
                  else ob_pending q)
      in (fold shed_entry lost (q\<lparr>ob_overflow := True\<rparr>))\<lparr>ob_pending := []\<rparr>)"

text \<open>
  \<^verbatim>\<open>writeAbandoned\<close>; \<^verbatim>\<open>None\<close> while it waits for a released pump. \<^verbatim>\<open>races\<close> is what the
  consumer does during \<^verbatim>\<open>WriteTerminal\<close>.
\<close>

type_synonym write_races = "(stream_message wait_event list \<times> stream_message wait_event list) list"

definition write_abandoned :: "write_races \<Rightarrow> outbox_entry \<Rightarrow> outbox \<Rightarrow> outbox option" where
  "write_abandoned races e q =
     (if \<not> oe_terminal e then Some (shed_entry e q)
      else if ob_pump q \<noteq> PumpOff then None
      else Some (q\<lparr>ob_out := snd (write_terminal_loop (oe_msg e) races (ob_out q))\<rparr>))"

definition entry_must_deliver :: "outbox_entry \<Rightarrow> bool" where
  "entry_must_deliver e \<longleftrightarrow> oe_terminal e \<or> must_deliver (oe_msg e)"

text \<open>A direct write: the session is the only writer, so with room it never waits.\<close>

definition direct_write :: "select_case \<Rightarrow> ctx_state \<Rightarrow> stream_message \<Rightarrow> outbox \<Rightarrow> outbox" where
  "direct_write pick c msg q =
     (case write_stream_delta pick [] c msg (ob_out q) of
        None \<Rightarrow> q | Some (_, out) \<Rightarrow> q\<lparr>ob_out := out\<rparr>)"

definition outbox_write ::
    "select_case \<Rightarrow> ctx_state \<Rightarrow> write_races \<Rightarrow> outbox_entry \<Rightarrow> outbox \<Rightarrow> outbox option" where
  "outbox_write pick c races e q =
     (if ob_overflow q then write_abandoned races e q
      else if ob_pump q = PumpOff
      then Some (if length (tbuf_queue (ob_out q)) < tbuf_cap (ob_out q) \<or> \<not> entry_must_deliver e
                 then direct_write pick c (oe_msg e) q
                 else q\<lparr>ob_pending := ob_pending q @ [e], ob_pump := PumpReady\<rparr>)
      else if \<not> entry_must_deliver e \<and> length (ob_pending q) \<ge> tbuf_cap (ob_out q)
      then Some (shed_entry e q)
      else if \<not> oe_terminal e \<and> length (ob_pending q) \<ge> ob_limit q
      then Some (shed_entry e (abandon_locked q))
      else Some (q\<lparr>ob_pending := ob_pending q @ [e]\<rparr>))"

definition overflow_err :: "outbox option \<Rightarrow> go_error option" where
  "overflow_err r = (case r of None \<Rightarrow> None
     | Some q \<Rightarrow> if ob_overflow q
         then Some (JoinedErrors [SessionDeltaOverflow,
                FormattedError '' (%d deltas queued)'' [IntArg (int (ob_limit q))]])
         else None)"

section \<open>The pump\<close>

definition pump_take :: "outbox \<Rightarrow> outbox" where
  "pump_take q =
     (case ob_pending q of
        [] \<Rightarrow> q\<lparr>ob_pump := PumpOff\<rparr> | e # _ \<Rightarrow> q\<lparr>ob_pump := PumpWriting e\<rparr>)"

text \<open>
  \<^verbatim>\<open>pumpEntry\<close>: \<^verbatim>\<open>c1\<close> and \<^verbatim>\<open>c2\<close> are the context at its check and in the waiting
  write. \<^verbatim>\<open>None\<close> while the write waits for room.
\<close>

definition pump_terminal :: "write_races \<Rightarrow> outbox_entry \<Rightarrow> outbox \<Rightarrow> outbox" where
  "pump_terminal races e q =
     (if oe_terminal e then q\<lparr>ob_out := snd (write_terminal_loop (oe_msg e) races (ob_out q))\<rparr> else q)"

definition pump_entry ::
    "select_case \<Rightarrow> ctx_state \<Rightarrow> ctx_state \<Rightarrow> write_races \<Rightarrow> outbox_entry \<Rightarrow> outbox \<Rightarrow> outbox option" where
  "pump_entry pick c1 c2 races e q =
     (case ctx_err c1 of
        Some _ \<Rightarrow> Some (pump_terminal races e q)
      | None \<Rightarrow>
          (case wait_select pick (Some c2) (Some (ob_overflow q)) (oe_msg e) (ob_out q) of
             None \<Rightarrow> None
           | Some (outcome, out) \<Rightarrow>
               if outcome_ok outcome then Some (q\<lparr>ob_out := out\<rparr>)
               else if wo_status outcome = WriteStopped \<and> \<not> oe_terminal e then Some (shed_entry e q)
               else Some (pump_terminal races e q)))"

definition pump_advance :: "outbox \<Rightarrow> outbox" where
  "pump_advance q = q\<lparr>ob_pump := PumpReady, ob_pending := tl (ob_pending q)\<rparr>"

text \<open>
  \<^verbatim>\<open>flush\<close> returns once the pump has exited, immediately when it does not run.
\<close>

definition flush_returns :: "outbox option \<Rightarrow> bool" where
  "flush_returns r = (case r of None \<Rightarrow> True | Some q \<Rightarrow> ob_pump q = PumpOff)"

section \<open>Runs\<close>

datatype outbox_op =
    SessionWrite select_case ctx_state write_races outbox_entry
  | PumpTakes
  | PumpWrites select_case ctx_state ctx_state write_races
  | PumpAdvances
  | ConsumerReads

text \<open>One step; a step that waits, or whose actor is elsewhere, leaves the state alone.\<close>

fun outbox_step :: "outbox_op \<Rightarrow> outbox \<Rightarrow> outbox" where
  "outbox_step (SessionWrite pick c races e) q =
     (case outbox_write pick c races e q of None \<Rightarrow> q | Some q' \<Rightarrow> q')"
| "outbox_step PumpTakes q = (if ob_pump q = PumpReady then pump_take q else q)"
| "outbox_step (PumpWrites pick c1 c2 races) q =
     (case ob_pump q of
        PumpWriting e \<Rightarrow>
          (case pump_entry pick c1 c2 races e q of None \<Rightarrow> q | Some q' \<Rightarrow> q'\<lparr>ob_pump := PumpWrote\<rparr>)
      | _ \<Rightarrow> q)"
| "outbox_step PumpAdvances q = (if ob_pump q = PumpWrote then pump_advance q else q)"
| "outbox_step ConsumerReads q =
     (case read_buffer (ob_out q) of None \<Rightarrow> q | Some (_, out) \<Rightarrow> q\<lparr>ob_out := out\<rparr>)"

text \<open>
  What the consumer got in a step, what a step put on the channel (what its queue ends with beyond
  what it held), and what the session wrote. A run yields what the consumer read, in order.
\<close>

definition read_by :: "outbox_op \<Rightarrow> outbox \<Rightarrow> stream_message list" where
  "read_by op q =
     (case op of
        ConsumerReads \<Rightarrow> (case read_buffer (ob_out q) of None \<Rightarrow> [] | Some (msg, _) \<Rightarrow> [msg])
      | _ \<Rightarrow> [])"

definition landed_by :: "outbox_op \<Rightarrow> outbox \<Rightarrow> stream_message list" where
  "landed_by op q = drop (length (tbuf_queue (ob_out q))) (tbuf_queue (ob_out (outbox_step op q)))"

fun written_by :: "outbox_op \<Rightarrow> outbox_entry list" where
  "written_by (SessionWrite pick c races e) = [e]"
| "written_by op = []"

fun outbox_run :: "outbox_op list \<Rightarrow> outbox \<Rightarrow> stream_message list \<times> outbox" where
  "outbox_run [] q = ([], q)"
| "outbox_run (op # ops) q = map_prod ((@) (read_by op q)) id (outbox_run ops (outbox_step op q))"

definition all_written :: "outbox_op list \<Rightarrow> outbox_entry list" where
  "all_written ops = concat (map written_by ops)"

section \<open>Order and delivery\<close>

fun live_op :: "outbox_op \<Rightarrow> bool" where
  "live_op (SessionWrite pick c races e) = (c = CtxLive)"
| "live_op (PumpWrites pick c1 c2 races) = (c1 = CtxLive \<and> c2 = CtxLive)"
| "live_op op = True"

text \<open>What was admitted and is still to be put on the channel, in order.\<close>

definition unlanded :: "outbox \<Rightarrow> stream_message list" where
  "unlanded q = map oe_msg (case ob_pump q of PumpWrote \<Rightarrow> tl (ob_pending q) | _ \<Rightarrow> ob_pending q)"

definition pump_ok :: "outbox \<Rightarrow> bool" where
  "pump_ok q = (case ob_pump q of
      PumpOff \<Rightarrow> ob_pending q = []
    | PumpReady \<Rightarrow> True
    | PumpWriting e \<Rightarrow> ob_overflow q \<or> (ob_pending q \<noteq> [] \<and> hd (ob_pending q) = e)
    | PumpWrote \<Rightarrow> ob_overflow q \<or> ob_pending q \<noteq> [])"

lemma fold_shed_fields [simp]:
  "ob_pending (fold shed_entry es q) = ob_pending q" "ob_pump (fold shed_entry es q) = ob_pump q"
  "ob_overflow (fold shed_entry es q) = ob_overflow q" "ob_limit (fold shed_entry es q) = ob_limit q"
  "tbuf_queue (ob_out (fold shed_entry es q)) = tbuf_queue (ob_out q)"
  "tbuf_cap (ob_out (fold shed_entry es q)) = tbuf_cap (ob_out q)"
  by (induction es arbitrary: q) (simp_all add: shed_entry_def shed_def drop_value_def)

lemma shed_fields [simp]:
  "ob_pending (shed_entry e q) = ob_pending q" "ob_pump (shed_entry e q) = ob_pump q"
  "ob_overflow (shed_entry e q) = ob_overflow q" "ob_limit (shed_entry e q) = ob_limit q"
  "tbuf_queue (ob_out (shed_entry e q)) = tbuf_queue (ob_out q)"
  "tbuf_cap (ob_out (shed_entry e q)) = tbuf_cap (ob_out q)"
  "tbuf_drops (ob_out (shed_entry e q)) = Suc (tbuf_drops (ob_out q))"
  by (simp_all add: shed_entry_def shed_def drop_value_def)

lemma abandon_fields [simp]:
  "ob_pending (abandon_locked q) = []" "ob_pump (abandon_locked q) = ob_pump q"
  "ob_overflow (abandon_locked q) = True" "ob_limit (abandon_locked q) = ob_limit q"
  "tbuf_queue (ob_out (abandon_locked q)) = tbuf_queue (ob_out q)"
  by (simp_all add: abandon_locked_def Let_def)

lemma direct_write_live:
  assumes "length (tbuf_queue (ob_out q)) < tbuf_cap (ob_out q)"
  shows "direct_write pick CtxLive msg q = q\<lparr>ob_out := (ob_out q)\<lparr>tbuf_queue := tbuf_queue (ob_out q) @ [msg]\<rparr>\<rparr>"
  using assms
  by (cases pick) (simp_all add: direct_write_def write_stream_delta_def wait_select_def write_context_def
      chan_send_def Let_def)

lemma direct_write_full:
  assumes "\<not> length (tbuf_queue (ob_out q)) < tbuf_cap (ob_out q)" "\<not> must_deliver msg"
  shows "direct_write pick CtxLive msg q = q\<lparr>ob_out := snd (drop_value msg (ob_out q))\<rparr>"
  using assms by (simp add: direct_write_def write_stream_delta_def write_context_def chan_send_def drop_value_def)

lemma live_step:
  assumes "live_op op" "pump_ok q" "\<not> ob_overflow (outbox_step op q)"
  shows "pump_ok (outbox_step op q) \<and> \<not> ob_overflow q \<and>
    (\<exists>kept. subseq kept (written_by op)
       \<and> filter entry_must_deliver kept = filter entry_must_deliver (written_by op)
       \<and> landed_by op q @ unlanded (outbox_step op q) = unlanded q @ map oe_msg kept
       \<and> tbuf_drops (ob_out (outbox_step op q)) + length kept
           = tbuf_drops (ob_out q) + length (written_by op))"
proof (cases op)
  case (SessionWrite pick c races e)
  have live: "c = CtxLive" and calm: "\<not> ob_overflow q"
    using assms(1,3) SessionWrite
    by (auto simp: outbox_write_def write_abandoned_def split: if_splits)
  show ?thesis
  proof (cases "ob_pump q = PumpOff")
    case True
    then have empty: "ob_pending q = []" using assms(2) by (simp add: pump_ok_def)
    show ?thesis
    proof (cases "length (tbuf_queue (ob_out q)) < tbuf_cap (ob_out q)")
      case room: True
      show ?thesis
        using True empty calm room live SessionWrite
        by (intro conjI exI [of _ "[e]"])
           (simp_all add: outbox_write_def direct_write_live pump_ok_def landed_by_def unlanded_def)
    next
      case full: False
      show ?thesis
      proof (cases "entry_must_deliver e")
        case must: True
        then show ?thesis
          using True empty calm full live SessionWrite
          by (intro conjI exI [of _ "[e]"])
             (simp_all add: outbox_write_def pump_ok_def landed_by_def unlanded_def)
      next
        case False
        then have "\<not> must_deliver (oe_msg e)" by (simp add: entry_must_deliver_def)
        then show ?thesis
          using True empty calm full live SessionWrite False
          by (intro conjI exI [of _ "[]"])
             (simp_all add: outbox_write_def direct_write_full pump_ok_def landed_by_def unlanded_def
               drop_value_def)
      qed
    qed
  next
    case False
    have step: "outbox_step op q = shed_entry e q \<and> \<not> entry_must_deliver e
        \<or> outbox_step op q = q\<lparr>ob_pending := ob_pending q @ [e]\<rparr>"
      using assms(3) calm False SessionWrite by (auto simp: outbox_write_def split: if_splits)
    then show ?thesis
    proof
      assume "outbox_step op q = shed_entry e q \<and> \<not> entry_must_deliver e"
      then show ?thesis
        using calm assms(2) SessionWrite
        by (intro conjI exI [of _ "[]"])
           (auto simp: pump_ok_def landed_by_def unlanded_def split: pump.splits)
    next
      assume "outbox_step op q = q\<lparr>ob_pending := ob_pending q @ [e]\<rparr>"
      then show ?thesis
        using calm assms(2) False SessionWrite
        by (intro conjI exI [of _ "[e]"])
           (auto simp: pump_ok_def landed_by_def unlanded_def split: pump.splits)
    qed
  qed
next
  case PumpTakes
  then show ?thesis
    using assms
    by (auto simp: pump_take_def pump_ok_def landed_by_def unlanded_def split: list.splits if_splits)
next
  case (PumpWrites pick c1 c2 races)
  show ?thesis
  proof (cases "ob_pump q")
    case (PumpWriting e)
    have calm: "\<not> ob_overflow q"
      using assms(3) PumpWrites PumpWriting
      by (auto simp: pump_entry_def pump_terminal_def split: option.splits if_splits prod.splits)
    have head: "ob_pending q \<noteq> []" "hd (ob_pending q) = e"
      using assms(2) PumpWriting calm by (simp_all add: pump_ok_def)
    then obtain es where es: "ob_pending q = e # es" by (cases "ob_pending q") auto
    show ?thesis
      using assms(1,3) PumpWrites PumpWriting calm es
      by (cases pick)
         (auto simp: pump_entry_def wait_select_def chan_send_def outcome_ok_def plain_outcome_def
           pump_ok_def landed_by_def unlanded_def Let_def split: if_splits)
  qed (use assms PumpWrites in \<open>auto simp: landed_by_def unlanded_def pump_ok_def\<close>)
next
  case PumpAdvances
  then show ?thesis
    using assms
    by (auto simp: pump_advance_def pump_ok_def landed_by_def unlanded_def split: if_splits)
next
  case ConsumerReads
  then show ?thesis
    using assms
    by (auto simp: read_buffer_def pump_ok_def landed_by_def unlanded_def split: list.splits pump.splits)
qed

lemma overflow_stays: "ob_overflow q \<Longrightarrow> ob_overflow (outbox_step op q)"
  by (cases op)
     (auto simp: outbox_write_def write_abandoned_def pump_take_def pump_advance_def pump_entry_def
       pump_terminal_def split: option.splits if_splits pump.splits list.splits prod.splits)

lemma overflow_stays_run: "ob_overflow q \<Longrightarrow> ob_overflow (snd (outbox_run ops q))"
  by (induction ops arbitrary: q) (simp_all add: overflow_stays case_prod_beta)

text \<open>The consumer reads what is on the channel, in order.\<close>

lemma live_channel_step:
  assumes "live_op op" "\<not> ob_overflow (outbox_step op q)"
  shows "tbuf_queue (ob_out q) @ landed_by op q = read_by op q @ tbuf_queue (ob_out (outbox_step op q))"
proof (cases op)
  case (SessionWrite pick c races e)
  have live: "c = CtxLive" and calm: "\<not> ob_overflow q"
    using assms SessionWrite by (auto simp: outbox_write_def write_abandoned_def split: if_splits)
  have "\<exists>new. tbuf_queue (ob_out (outbox_step op q)) = tbuf_queue (ob_out q) @ new"
  proof (cases "length (tbuf_queue (ob_out q)) < tbuf_cap (ob_out q)")
    case True
    then show ?thesis
      using SessionWrite live calm by (auto simp: outbox_write_def direct_write_live)
  next
    case False
    then show ?thesis
      using SessionWrite live calm
      by (auto simp: outbox_write_def direct_write_full entry_must_deliver_def drop_value_def)
  qed
  then show ?thesis using SessionWrite by (auto simp: landed_by_def read_by_def)
next
  case (PumpWrites pick c1 c2 races)
  show ?thesis
  proof (cases "ob_pump q")
    case (PumpWriting e)
    then show ?thesis
      using assms PumpWrites
      by (cases pick)
         (auto simp: pump_entry_def wait_select_def chan_send_def outcome_ok_def plain_outcome_def
           pump_terminal_def landed_by_def read_by_def Let_def split: if_splits)
  qed (use PumpWrites in \<open>auto simp: landed_by_def read_by_def\<close>)
next
  case ConsumerReads
  then show ?thesis
    by (auto simp: read_buffer_def landed_by_def read_by_def split: list.splits)
qed (auto simp: landed_by_def read_by_def pump_take_def pump_advance_def split: list.splits)

definition in_order :: "outbox \<Rightarrow> outbox_op list \<Rightarrow> outbox_entry list \<Rightarrow> stream_message list \<Rightarrow> outbox \<Rightarrow> bool" where
  "in_order q ops kept read q' \<longleftrightarrow> subseq kept (all_written ops)
     \<and> filter entry_must_deliver kept = filter entry_must_deliver (all_written ops)
     \<and> tbuf_queue (ob_out q) @ unlanded q @ map oe_msg kept = read @ tbuf_queue (ob_out q') @ unlanded q'
     \<and> tbuf_drops (ob_out q') + length kept = tbuf_drops (ob_out q) + length (all_written ops)"

lemma live_step_in_order:
  assumes "live_op op" "pump_ok q" "\<not> ob_overflow (outbox_step op q)"
  shows "pump_ok (outbox_step op q) \<and> (\<exists>kept. in_order q [op] kept (read_by op q) (outbox_step op q))"
proof -
  obtain kept where kept: "subseq kept (written_by op)"
      "filter entry_must_deliver kept = filter entry_must_deliver (written_by op)"
      "landed_by op q @ unlanded (outbox_step op q) = unlanded q @ map oe_msg kept"
      "tbuf_drops (ob_out (outbox_step op q)) + length kept = tbuf_drops (ob_out q) + length (written_by op)"
    and ok: "pump_ok (outbox_step op q)"
    using live_step [OF assms] by blast
  have "tbuf_queue (ob_out q) @ unlanded q @ map oe_msg kept
      = read_by op q @ tbuf_queue (ob_out (outbox_step op q)) @ unlanded (outbox_step op q)"
    using live_channel_step [OF assms(1,3)] kept(3) by (metis append.assoc)
  then show ?thesis using kept ok unfolding in_order_def all_written_def by auto
qed

lemma in_order_append:
  assumes "in_order q [op] k1 r1 q1" "in_order q1 ops k2 r2 q2"
  shows "in_order q (op # ops) (k1 @ k2) (r1 @ r2) q2"
proof -
  have "tbuf_queue (ob_out q) @ unlanded q @ map oe_msg k1 @ map oe_msg k2
      = r1 @ (tbuf_queue (ob_out q1) @ unlanded q1 @ map oe_msg k2)"
    using assms(1) unfolding in_order_def by (metis append.assoc)
  also have "\<dots> = (r1 @ r2) @ tbuf_queue (ob_out q2) @ unlanded q2"
    using assms(2) unfolding in_order_def by simp
  finally show ?thesis
    using assms by (auto simp: in_order_def all_written_def intro: list_emb_append_mono)
qed

lemma live_run:
  assumes "list_all live_op ops" "pump_ok q" "\<not> ob_overflow q'" "outbox_run ops q = (read, q')"
  shows "pump_ok q' \<and> (\<exists>kept. in_order q ops kept read q')"
  using assms
proof (induction ops arbitrary: q read)
  case Nil
  then show ?case by (auto simp: in_order_def all_written_def)
next
  case (Cons op ops)
  let ?q = "outbox_step op q"
  obtain rest where rest: "outbox_run ops ?q = (rest, q')" "read = read_by op q @ rest"
    using Cons.prems(4) by (cases "outbox_run ops ?q") auto
  have calm: "\<not> ob_overflow ?q" using overflow_stays_run [of ?q ops] rest(1) Cons.prems(3) by auto
  obtain k1 where k1: "in_order q [op] k1 (read_by op q) ?q" and ok: "pump_ok ?q"
    using live_step_in_order [OF _ Cons.prems(2) calm] Cons.prems(1) by auto
  obtain k2 where "in_order ?q ops k2 rest q'" "pump_ok q'"
    using Cons.IH [OF _ ok Cons.prems(3) rest(1)] Cons.prems(1) by auto
  then show ?case using in_order_append [OF k1] rest(2) by blast
qed

text \<open>
  C27: while the session lives and its outbox has not overflowed, no delta that must be
  delivered is lost and none is reordered, however its writes, the pump's steps and the
  consumer's reads interleave: what the consumer has read, then what the channel holds, then what
  is queued are exactly the deltas the session wrote, in its order, but for ordinary ones it
  shed; every delta shed is counted as a drop. Once a flush returns nothing is queued any more.
\<close>

theorem session_deltas_delivered:
  assumes "outbox_run ops (new_session_outbox out) = (read, q')"
    and "list_all live_op ops" "\<not> ob_overflow q'" "tbuf_queue out = []"
  shows "\<exists>kept. subseq kept (all_written ops)
      \<and> filter entry_must_deliver kept = filter entry_must_deliver (all_written ops)
      \<and> read @ tbuf_queue (ob_out q') @ unlanded q' = map oe_msg kept
      \<and> tbuf_drops (ob_out q') + length kept = tbuf_drops out + length (all_written ops)
      \<and> (flush_returns (Some q') \<longrightarrow> unlanded q' = [])"
proof -
  let ?q = "new_session_outbox out"
  have start: "pump_ok ?q" "unlanded ?q = []" "tbuf_queue (ob_out ?q) = []" "ob_out ?q = out"
    using assms(4) by (simp_all add: new_session_outbox_def pump_ok_def unlanded_def)
  obtain kept where kept: "in_order ?q ops kept read q'" and ok: "pump_ok q'"
    using live_run [OF assms(2) start(1) assms(3,1)] by blast
  have "flush_returns (Some q') \<longrightarrow> unlanded q' = []"
    using ok by (auto simp: flush_returns_def pump_ok_def unlanded_def)
  then show ?thesis using kept start by (intro exI [of _ kept]) (simp add: in_order_def)
qed

definition plain_delta :: "stream_type \<Rightarrow> stream_message" where
  "plain_delta ty = mk_delta ty RoleAssistant VMessageStart"

definition sample_entry :: "stream_type \<Rightarrow> outbox_entry" where
  "sample_entry ty = \<lparr>oe_msg = plain_delta ty, oe_terminal = False\<rparr>"

definition sample_outbox_ops :: "outbox_op list" where
  "sample_outbox_ops =
     [SessionWrite SendCase CtxLive [] (sample_entry StreamMessageStart),
      SessionWrite SendCase CtxLive [] (sample_entry StreamMessageEnd), PumpTakes,
      SessionWrite SendCase CtxLive [] (sample_entry StreamTextDelta),
      ConsumerReads, PumpWrites SendCase CtxLive CtxLive [], PumpAdvances, PumpTakes]"

lemma session_deltas_delivered_witness:
  "\<exists>q' kept. outbox_run sample_outbox_ops (new_session_outbox (new_typed_buffer 1))
       = ([plain_delta StreamMessageStart], q')
     \<and> subseq kept (all_written sample_outbox_ops)
     \<and> filter entry_must_deliver kept = filter entry_must_deliver (all_written sample_outbox_ops)
     \<and> [plain_delta StreamMessageStart] @ tbuf_queue (ob_out q') @ unlanded q' = map oe_msg kept
     \<and> unlanded q' = [] \<and> tbuf_queue (ob_out q') = [plain_delta StreamMessageEnd]"
proof -
  obtain read q' where run: "outbox_run sample_outbox_ops (new_session_outbox (new_typed_buffer 1)) = (read, q')"
    by fastforce
  have facts: "read = [plain_delta StreamMessageStart]"
    "\<not> ob_overflow q'" "flush_returns (Some q')" "tbuf_queue (ob_out q') = [plain_delta StreamMessageEnd]"
    using run
    by (auto simp: sample_outbox_ops_def new_session_outbox_def new_typed_buffer_def sample_entry_def
        plain_delta_def mk_delta_def outbox_write_def direct_write_def write_stream_delta_def wait_select_def
        chan_send_def entry_must_deliver_def must_deliver_def must_deliver_type_def shed_entry_def shed_def
        drop_value_def pump_take_def pump_entry_def pump_advance_def read_buffer_def read_by_def
        plain_outcome_def outcome_ok_def flush_returns_def Let_def)
  have "list_all live_op sample_outbox_ops" "tbuf_queue (new_typed_buffer 1 :: stream_message typed_buffer) = []"
    by (simp_all add: sample_outbox_ops_def new_typed_buffer_def)
  then show ?thesis
    using session_deltas_delivered [OF run _ facts(2)] run facts(1,3,4) by blast
qed

section \<open>Overflow\<close>

text \<open>
  What holds in every state of the outbox: its buffer is sound, and nothing is queued once it has
  overflowed.
\<close>

definition outbox_ok :: "outbox \<Rightarrow> bool" where
  "outbox_ok q \<longleftrightarrow> buffer_ok (ob_out q) \<and> (ob_overflow q \<longrightarrow> ob_pending q = [])"

lemma shed_ok: "buffer_ok (ob_out q) \<Longrightarrow> buffer_ok (ob_out (shed_entry e q))"
  using drop_value_ok [of "ob_out q" "oe_msg e"] by (simp add: shed_entry_def shed_def)

lemma fold_shed_ok: "buffer_ok (ob_out q) \<Longrightarrow> buffer_ok (ob_out (fold shed_entry es q))"
  by (induction es arbitrary: q) (simp_all add: shed_ok)

lemma wait_select_ok: "wait_select pick c d x b = Some (r, b') \<Longrightarrow> buffer_ok b \<Longrightarrow> buffer_ok b'"
  using chan_send_ok [of x b]
  by (cases pick) (auto simp: wait_select_def Let_def split: option.splits if_splits ctx_state.splits)

lemma direct_write_ok: "buffer_ok (ob_out q) \<Longrightarrow> buffer_ok (ob_out (direct_write pick c msg q))"
  using write_context_ok [of "ob_out q" c c "pick = SendCase" msg] wait_select_ok [of pick "Some c" None msg "ob_out q"]
  by (cases "write_context c c (pick = SendCase) msg (ob_out q)")
    (auto simp: direct_write_def write_stream_delta_def split: option.splits)

lemma terminal_ok: "buffer_ok b \<Longrightarrow> buffer_ok (snd (write_terminal_loop x races b))"
  using write_terminal_loop_lands [of b x races] by auto

lemma direct_write_fields [simp]:
  "ob_overflow (direct_write pick c msg q) = ob_overflow q"
  "ob_pending (direct_write pick c msg q) = ob_pending q"
  by (simp_all add: direct_write_def split: option.split prod.split)

lemma abandon_ok: "buffer_ok (ob_out q) \<Longrightarrow> buffer_ok (ob_out (abandon_locked q))"
  by (simp add: abandon_locked_def Let_def fold_shed_ok)

lemma outbox_write_ok:
  "outbox_write pick c races e q = Some q' \<Longrightarrow> outbox_ok q \<Longrightarrow> outbox_ok q'"
  by (auto simp: outbox_write_def write_abandoned_def outbox_ok_def terminal_ok shed_ok abandon_ok direct_write_ok
      split: if_splits)

lemma outbox_step_ok:
  assumes "outbox_ok q"
  shows "outbox_ok (outbox_step op q)"
proof (cases op)
  case (SessionWrite pick c races e)
  then show ?thesis using assms outbox_write_ok by (auto split: option.splits)
next
  case PumpTakes
  then show ?thesis using assms by (auto simp: outbox_ok_def pump_take_def split: list.splits)
next
  case (PumpWrites pick c1 c2 races)
  then show ?thesis
    using assms wait_select_ok
    by (auto simp: outbox_ok_def pump_entry_def pump_terminal_def terminal_ok shed_ok
        split: pump.splits option.splits if_splits prod.splits)
next
  case PumpAdvances
  then show ?thesis using assms by (auto simp: outbox_ok_def pump_advance_def)
next
  case ConsumerReads
  then show ?thesis
    using assms read_buffer_ok [of "ob_out q"] by (auto simp: outbox_ok_def split: option.splits)
qed

lemma outbox_run_ok: "outbox_run ops q = (read, q') \<Longrightarrow> outbox_ok q \<Longrightarrow> outbox_ok q'"
proof (induction ops arbitrary: q read)
  case (Cons op ops)
  obtain rest where "outbox_run ops (outbox_step op q) = (rest, q')"
    using Cons.prems(1) by (cases "outbox_run ops (outbox_step op q)") auto
  then show ?case using Cons.IH outbox_step_ok [OF Cons.prems(2)] by blast
qed simp

text \<open>After an overflow and the pump's exit, only terminal records still reach the channel.\<close>

lemma abandoned_step:
  assumes "ob_overflow q" "ob_pump q = PumpOff" "list_all (\<lambda>e. \<not> oe_terminal e) (written_by op)"
  shows "ob_overflow (outbox_step op q) \<and> ob_pump (outbox_step op q) = PumpOff
    \<and> tbuf_queue (ob_out q) = read_by op q @ tbuf_queue (ob_out (outbox_step op q))"
proof (cases op)
  case ConsumerReads
  then show ?thesis using assms by (auto simp: read_by_def read_buffer_def split: list.splits)
qed (use assms in \<open>auto simp: read_by_def outbox_write_def write_abandoned_def\<close>)

lemma abandoned_run:
  "ob_overflow q \<Longrightarrow> ob_pump q = PumpOff \<Longrightarrow> list_all (\<lambda>e. \<not> oe_terminal e) (all_written ops) \<Longrightarrow>
   outbox_run ops q = (read, q') \<Longrightarrow> tbuf_queue (ob_out q) = read @ tbuf_queue (ob_out q')"
proof (induction ops arbitrary: q read)
  case (Cons op ops)
  let ?q = "outbox_step op q"
  obtain rest where rest: "outbox_run ops ?q = (rest, q')" "read = read_by op q @ rest"
    using Cons.prems(4) by (cases "outbox_run ops ?q") auto
  have "list_all (\<lambda>e. \<not> oe_terminal e) (written_by op)" "list_all (\<lambda>e. \<not> oe_terminal e) (all_written ops)"
    using Cons.prems(3) by (simp_all add: all_written_def)
  then show ?case
    using abandoned_step [OF Cons.prems(1,2), of op] Cons.IH [OF _ _ _ rest(1)] rest(2) by simp
qed simp

text \<open>A pump released by the overflow exits within its next three steps.\<close>

lemma released_entry:
  assumes "ob_overflow q"
  shows "\<exists>q'. pump_entry pick c1 c2 races e q = Some q' \<and> ob_pending q' = ob_pending q"
proof -
  obtain r out where "wait_select pick (Some c2) (Some (ob_overflow q)) (oe_msg e) (ob_out q) = Some (r, out)"
    using assms
    by (cases pick; cases "chan_send (oe_msg e) (ob_out q)"; cases c2)
      (auto simp: wait_select_def Let_def)
  then show ?thesis by (simp add: pump_entry_def pump_terminal_def split: option.split)
qed

lemma released_pump_exits:
  assumes "ob_overflow q" "ob_pending q = []"
  shows "ob_pump (outbox_step PumpTakes (outbox_step PumpAdvances
      (outbox_step (PumpWrites pick c1 c2 races) q))) = PumpOff"
proof (cases "ob_pump q")
  case (PumpWriting e)
  obtain q' where "pump_entry pick c1 c2 races e q = Some q'" "ob_pending q' = []"
    using released_entry [OF assms(1), of pick c1 c2 races e] assms(2) by auto
  then show ?thesis using PumpWriting by (simp add: pump_advance_def pump_take_def)
qed (use assms in \<open>simp_all add: pump_advance_def pump_take_def\<close>)

text \<open>
  C28: a session that overflowed still ends visibly. From any run of the outbox that overflowed:
  the write of a terminal record waits at most until the released pump has taken its next steps,
  and when it returns the record is the last thing on the channel, whatever the pump and the
  consumer did before; and from then on no other delta reaches the channel: what the consumer
  reads and what remains for it are exactly that queue, ending with the record.
\<close>

theorem overflow_ends_with_terminal:
  assumes "outbox_run earlier ((new_session_outbox out)\<lparr>ob_limit := limit\<rparr>) = (read0, q)"
    and "buffer_ok out" "ob_overflow q" "oe_terminal e"
    and "outbox_write pick c races e q = Some q1"
    and "outbox_run ops q1 = (read, q')" "list_all (\<lambda>e. \<not> oe_terminal e) (all_written ops)"
  shows "(\<exists>before. tbuf_queue (ob_out q1) = before @ [oe_msg e]
      \<and> read @ tbuf_queue (ob_out q') = before @ [oe_msg e])
    \<and> outbox_write pick c races e
        (snd (outbox_run [PumpWrites pick c1 c2 races, PumpAdvances, PumpTakes] q)) \<noteq> None"
proof -
  have ok: "outbox_ok q"
    using outbox_run_ok [OF assms(1)] assms(2) by (simp add: outbox_ok_def new_session_outbox_def)
  then have sound: "buffer_ok (ob_out q)" "ob_pending q = []" using assms(3) by (simp_all add: outbox_ok_def)
  obtain b before where land: "write_terminal_loop (oe_msg e) races (ob_out q) = (True, b)"
    "tbuf_queue b = before @ [oe_msg e]"
    using write_terminal_loop_lands [OF sound(1)] by blast
  have "ob_pump q = PumpOff" "q1 = q\<lparr>ob_out := b\<rparr>"
    using assms(3,4,5) land(1) by (simp_all add: outbox_write_def write_abandoned_def split: if_splits)
  then have after: "tbuf_queue (ob_out q1) = before @ [oe_msg e]" "ob_overflow q1" "ob_pump q1 = PumpOff"
    using assms(3) land(2) by simp_all
  have "read @ tbuf_queue (ob_out q') = before @ [oe_msg e]"
    using abandoned_run [OF after(2,3) assms(7,6)] after(1) by simp
  moreover have "outbox_write pick c races e
      (snd (outbox_run [PumpWrites pick c1 c2 races, PumpAdvances, PumpTakes] q)) \<noteq> None"
    using released_pump_exits [OF assms(3) sound(2), of pick c1 c2 races]
    by (simp add: outbox_write_def write_abandoned_def assms(4) overflow_stays [OF overflow_stays [OF overflow_stays [OF assms(3)]]]
        del: outbox_step.simps)
  ultimately show ?thesis using after(1) by blast
qed

definition overflow_ops :: "outbox_op list" where
  "overflow_ops =
     [SessionWrite SendCase CtxLive [] (sample_entry StreamMessageStart),
      SessionWrite SendCase CtxLive [] (sample_entry StreamMessageEnd), PumpTakes,
      SessionWrite SendCase CtxLive [] (sample_entry StreamMessageEnd),
      PumpWrites DoneCase CtxLive CtxLive [], PumpAdvances, PumpTakes]"

definition error_entry :: outbox_entry where
  "error_entry = \<lparr>oe_msg = plain_delta StreamError, oe_terminal = True\<rparr>"

definition overflowed_outbox :: outbox where
  "overflowed_outbox =
     snd (outbox_run overflow_ops ((new_session_outbox (new_typed_buffer 1))\<lparr>ob_limit := 1\<rparr>))"

lemma overflowed_runs:
  "ob_overflow overflowed_outbox" "ob_pump overflowed_outbox = PumpOff"
  "tbuf_queue (ob_out overflowed_outbox) = [plain_delta StreamMessageStart]"
  "tbuf_cap (ob_out overflowed_outbox) = 1"
  by (simp_all add: overflowed_outbox_def overflow_ops_def new_session_outbox_def new_typed_buffer_def
      sample_entry_def plain_delta_def mk_delta_def outbox_write_def direct_write_def write_stream_delta_def
      wait_select_def chan_send_def entry_must_deliver_def must_deliver_def must_deliver_type_def shed_entry_def
      shed_def drop_value_def pump_take_def pump_entry_def pump_advance_def abandon_locked_def pump_writing_def
      plain_outcome_def outcome_ok_def Let_def)

lemma overflow_ends_with_terminal_witness:
  "\<exists>q1. outbox_write SendCase CtxLive [] error_entry overflowed_outbox = Some q1
    \<and> tbuf_queue (ob_out q1) = [plain_delta StreamError]
    \<and> [plain_delta StreamError] @ tbuf_queue (ob_out (snd (outbox_run [ConsumerReads] q1)))
        = [plain_delta StreamError]"
proof -
  obtain read0 where start: "outbox_run overflow_ops ((new_session_outbox (new_typed_buffer 1))\<lparr>ob_limit := 1\<rparr>)
      = (read0, overflowed_outbox)"
    by (metis overflowed_outbox_def prod.collapse)
  obtain q1 where wrote: "outbox_write SendCase CtxLive [] error_entry overflowed_outbox = Some q1"
      and queue: "tbuf_queue (ob_out q1) = [plain_delta StreamError]"
    using overflowed_runs
    by (simp add: outbox_write_def write_abandoned_def error_entry_def chan_send_def evict_oldest_def)
  have run: "outbox_run [ConsumerReads] q1 = ([plain_delta StreamError], snd (outbox_run [ConsumerReads] q1))"
    using queue by (simp add: read_by_def read_buffer_def)
  have "oe_terminal error_entry" by (simp add: error_entry_def)
  moreover have "list_all (\<lambda>e. \<not> oe_terminal e) (all_written [ConsumerReads])" by (simp add: all_written_def)
  ultimately show ?thesis
    using overflow_ends_with_terminal [OF start new_buffer_ok overflowed_runs(1) _ wrote run] wrote queue
    by auto
qed

text \<open>
  The overflow itself drops what is queued, a queued terminal record included: a failure
  published earlier is then only counted as a drop, and the consumer sees the overflow's
  record instead.
\<close>

lemma overflow_sheds_queued_terminal:
  assumes "ob_pump q = PumpWriting e0" "ob_pending q = [e0, t]" "oe_terminal t" "ob_limit q = 2"
    "\<not> ob_overflow q" "\<not> oe_terminal e" "must_deliver (oe_msg e)"
  shows "\<exists>q'. outbox_write pick c races e q = Some q' \<and> ob_pending q' = []
    \<and> tbuf_dropped (ob_out q') = tbuf_dropped (ob_out q) @ [oe_msg t, oe_msg e]"
  using assms
  by (simp add: outbox_write_def entry_must_deliver_def abandon_locked_def pump_writing_def shed_entry_def
      shed_def drop_value_def)

end
