(* ===== verification/Session_Link.thy ===== *)
theory Session_Link
  imports Session_State Session_Ingress Model_Inference
begin

text \<open>
  The provider session as the runner sees it, \<^verbatim>\<open>messages/session.go\<close>: which optional
  capabilities it has and what they answer, what a send reports, and the helpers that discover
  a capability. The provider itself is the application's: what it answers to each send, and what
  it delivers, are data of the session's world (\<^verbatim>\<open>sw_outcomes\<close> and \<^verbatim>\<open>sw_arrivals\<close>), and every
  request made to it is logged in \<^verbatim>\<open>sw_wire\<close> with its outcome.
\<close>

section \<open>Send outcomes\<close>

datatype send_status =
    SendSucceeded | SendCancelled | SendTimedOut | SendBufferFull | SendClosed | SendTerminalFailure

fun send_status_string :: "send_status \<Rightarrow> string" where
  "send_status_string SendSucceeded = ''succeeded''"
| "send_status_string SendCancelled = ''cancelled''"
| "send_status_string SendTimedOut = ''timed_out''"
| "send_status_string SendBufferFull = ''buffer_full''"
| "send_status_string SendClosed = ''closed''"
| "send_status_string SendTerminalFailure = ''terminal_failure''"

record send_outcome =
  so_status :: send_status
  so_err :: "go_error option"

definition send_ok :: "send_outcome \<Rightarrow> bool" where
  "send_ok out \<longleftrightarrow> so_status out = SendSucceeded"

definition plain_outcome :: "send_status \<Rightarrow> send_outcome" where
  "plain_outcome st = \<lparr>so_status = st, so_err = None\<rparr>"

definition send_context_or_failure :: "ctx_state \<Rightarrow> send_outcome" where
  "send_context_or_failure c =
     (case ctx_err c of
        None \<Rightarrow> plain_outcome SendTerminalFailure
      | Some e \<Rightarrow> if e = CtxDeadlineExceeded then \<lparr>so_status = SendTimedOut, so_err = Some e\<rparr>
                 else \<lparr>so_status = SendCancelled, so_err = Some e\<rparr>)"

section \<open>Optional capabilities\<close>

text \<open>
  A session value: for every optional interface whether the value implements it, and what its
  query answers. \<^verbatim>\<open>None\<close> is a value without the interface. \<^verbatim>\<open>cp_outcomes\<close> is
  \<^verbatim>\<open>SessionSendOutcomeSender\<close>, \<^verbatim>\<open>cp_syncs\<close> is \<^verbatim>\<open>SessionReceiveSyncer\<close>.
\<close>

record session_caps =
  cp_outcomes :: bool
  cp_turn_detection :: "bool option"
  cp_full_duplex :: "bool option"
  cp_playback :: bool
  cp_input_rate :: "int option"
  cp_syncs :: bool
  cp_config_sent :: "bool option"
  cp_message_capability :: "(bool \<times> bool) option"
  cp_message_sender :: bool
  cp_silent_sender :: bool
  cp_response_capability :: "bool option"
  cp_response_requester :: bool
  cp_terminal_error :: "go_error option option"
  cp_flush_answer :: "go_error option option"
  cp_drops :: "(int \<times> int) option"
  cp_media_capability :: "bool option"
  cp_media :: bool

definition answers :: "bool option \<Rightarrow> bool" where
  "answers a = (case a of None \<Rightarrow> False | Some b \<Rightarrow> b)"

definition provider_owns_turn_detection :: "session_caps \<Rightarrow> bool" where
  "provider_owns_turn_detection c = answers (cp_turn_detection c)"

definition full_duplex_session :: "session_caps \<Rightarrow> bool" where
  "full_duplex_session c = answers (cp_full_duplex c)"

definition input_sample_rate :: "session_caps \<Rightarrow> int" where
  "input_sample_rate c = (case cp_input_rate c of None \<Rightarrow> 0 | Some r \<Rightarrow> r)"

definition provider_sent_initial_config :: "session_caps \<Rightarrow> bool" where
  "provider_sent_initial_config c = answers (cp_config_sent c)"

definition supports_session_messages :: "session_caps \<Rightarrow> bool" where
  "supports_session_messages c =
     (case cp_message_capability c of Some (b, _) \<Rightarrow> b | None \<Rightarrow> cp_message_sender c)"

definition supports_silent_messages :: "session_caps \<Rightarrow> bool" where
  "supports_silent_messages c =
     (case cp_message_capability c of Some (_, b) \<Rightarrow> b | None \<Rightarrow> cp_silent_sender c)"

definition supports_response_requests :: "session_caps \<Rightarrow> bool" where
  "supports_response_requests c =
     (case cp_response_capability c of Some b \<Rightarrow> b | None \<Rightarrow> cp_response_requester c)"

definition supports_session_media :: "session_caps \<Rightarrow> bool" where
  "supports_session_media c =
     (case cp_media_capability c of Some b \<Rightarrow> b | None \<Rightarrow> cp_media c)"

definition session_terminal_error :: "session_caps \<Rightarrow> go_error option" where
  "session_terminal_error c = (case cp_terminal_error c of None \<Rightarrow> None | Some e \<Rightarrow> e)"

definition session_flush_outbound :: "session_caps \<Rightarrow> go_error option" where
  "session_flush_outbound c = (case cp_flush_answer c of None \<Rightarrow> None | Some e \<Rightarrow> e)"

definition session_input_drops :: "session_caps \<Rightarrow> int" where
  "session_input_drops c = (case cp_drops c of None \<Rightarrow> 0 | Some (i, _) \<Rightarrow> i)"

definition session_output_drops :: "session_caps \<Rightarrow> int" where
  "session_output_drops c = (case cp_drops c of None \<Rightarrow> 0 | Some (_, out) \<Rightarrow> out)"

text \<open>
  \<^verbatim>\<open>SessionCapabilities\<close>: a wrapper has every forwarding method, each answering what the wrapped
  session answers. A wrapper's own send is its own, so whether it reports outcomes is an argument.
\<close>

definition wrap_session :: "bool \<Rightarrow> session_caps \<Rightarrow> session_caps" where
  "wrap_session own_outcomes c =
     \<lparr>cp_outcomes = own_outcomes,
      cp_turn_detection = Some (provider_owns_turn_detection c),
      cp_full_duplex = Some (full_duplex_session c),
      cp_playback = True,
      cp_input_rate = Some (input_sample_rate c),
      cp_syncs = True,
      cp_config_sent = Some (provider_sent_initial_config c),
      cp_message_capability = Some (supports_session_messages c, supports_silent_messages c),
      cp_message_sender = True,
      cp_silent_sender = True,
      cp_response_capability = Some (supports_response_requests c),
      cp_response_requester = True,
      cp_terminal_error = Some (session_terminal_error c),
      cp_flush_answer = Some (session_flush_outbound c),
      cp_drops = Some (session_input_drops c, session_output_drops c),
      cp_media_capability = Some (supports_session_media c),
      cp_media = True\<rparr>"

section \<open>The session's world\<close>

text \<open>
  What the runner asks of the session, in order: a stream message, a complete message and whether
  it requests a response, a bare response request, or an interruption of local playback.
\<close>

datatype wire_item =
    WireSend stream_message | WireMessage message bool | WireRequest | WireInterruptPlayback

datatype tool_continuation = ToolContinuationNone | ToolContinuationAccepted | ToolContinuationSuppressed

text \<open>
  One reading of \<^verbatim>\<open>LocalPlayback\<close>: whether provider audio is audible, and which frames clear
  the speech threshold at that playback level (the levels are floats).
\<close>

record playback_reading =
  pr_active :: bool
  pr_loud :: "byte list \<Rightarrow> bool"

text \<open>
  The runner and everything it touches: its own state, the ingress, what the session delivered
  and has still to deliver (one batch per poll of \<^verbatim>\<open>Receive\<close>), the outcomes the session will
  report (success once the list is used up), the log of requests, the log of deltas handed to the
  session outbox with their terminal mark, and the log of the inputs the ingress accepted.
\<close>

record session_world =
  sw_state :: session_state
  sw_ingress :: ingress
  sw_continuation :: tool_continuation
  sw_received :: "stream_message list"
  sw_arrivals :: "stream_message list list"
  sw_outcomes :: "send_outcome list"
  sw_playing :: "playback_reading list"
  sw_wire :: "(wire_item \<times> send_outcome) list"
  sw_deltas :: "(stream_message \<times> bool) list"
  sw_ctx :: ctx_state
  sw_admitted :: "session_input list"

definition new_session_world :: "ctx_state \<Rightarrow> send_outcome list \<Rightarrow> playback_reading list \<Rightarrow> session_world" where
  "new_session_world c outcomes readings = \<lparr>sw_state = new_session_state, sw_ingress = new_ingress,
     sw_continuation = ToolContinuationNone, sw_received = [], sw_arrivals = [],
     sw_outcomes = outcomes, sw_playing = readings, sw_wire = [], sw_deltas = [], sw_ctx = c,
     sw_admitted = []\<rparr>"

definition session_ask :: "wire_item \<Rightarrow> session_world \<Rightarrow> send_outcome \<times> session_world" where
  "session_ask item w =
     (let (out, rest) = (case sw_outcomes w of [] \<Rightarrow> (plain_outcome SendSucceeded, [])
                         | x # xs \<Rightarrow> (x, xs))
      in (out, w\<lparr>sw_outcomes := rest, sw_wire := sw_wire w @ [(item, out)]\<rparr>))"

definition session_send :: "stream_message \<Rightarrow> session_world \<Rightarrow> bool \<times> session_world" where
  "session_send m w = (let (out, w1) = session_ask (WireSend m) w in (send_ok out, w1))"

definition send_with_outcome ::
    "session_caps \<Rightarrow> stream_message \<Rightarrow> session_world \<Rightarrow> send_outcome \<times> session_world" where
  "send_with_outcome c m w =
     (if cp_outcomes c then session_ask (WireSend m) w
      else (let (sent, w1) = session_send m w
            in if sent then (plain_outcome SendSucceeded, w1)
               else (send_context_or_failure (sw_ctx w1), w1)))"

definition send_session_message :: "session_caps \<Rightarrow> message \<Rightarrow> session_world \<Rightarrow> bool \<times> session_world" where
  "send_session_message c m w =
     (if cp_message_sender c \<and> supports_session_messages c
      then (let (out, w1) = session_ask (WireMessage m True) w in (send_ok out, w1))
      else (False, w))"

definition send_silent_message :: "session_caps \<Rightarrow> message \<Rightarrow> session_world \<Rightarrow> bool \<times> session_world" where
  "send_silent_message c m w =
     (if cp_silent_sender c \<and> supports_silent_messages c
      then (let (out, w1) = session_ask (WireMessage m False) w in (send_ok out, w1))
      else (False, w))"

definition request_session_response ::
    "session_caps \<Rightarrow> session_world \<Rightarrow> send_outcome \<times> session_world" where
  "request_session_response c w =
     (if \<not> supports_response_requests c then (plain_outcome SendTerminalFailure, w)
      else if \<not> cp_response_requester c then (plain_outcome SendTerminalFailure, w)
      else session_ask WireRequest w)"

text \<open>\<^verbatim>\<open>localPlayback\<close>: the next reading, or silence with the threshold \<^verbatim>\<open>quiet\<close> without the capability.\<close>

definition local_playback ::
    "session_caps \<Rightarrow> (byte list \<Rightarrow> bool) \<Rightarrow> session_world \<Rightarrow> playback_reading \<times> session_world" where
  "local_playback c quiet w =
     (if \<not> cp_playback c then (\<lparr>pr_active = False, pr_loud = quiet\<rparr>, w)
      else (case sw_playing w of
              [] \<Rightarrow> (\<lparr>pr_active = False, pr_loud = quiet\<rparr>, w)
            | r # rs \<Rightarrow> (r, w\<lparr>sw_playing := rs\<rparr>)))"

section \<open>A wrapper answers for the session it wraps\<close>

text \<open>
  Every question the loop asks of a session gets the same answer from a wrapper, however
  deep the wrapping: capability discovery, complete messages, response requests, barge-in
  ownership, the drop counters and the terminal error.
\<close>

theorem wrapped_session_equivalent:
  shows "provider_owns_turn_detection (wrap_session b c) = provider_owns_turn_detection c
    \<and> full_duplex_session (wrap_session b c) = full_duplex_session c
    \<and> input_sample_rate (wrap_session b c) = input_sample_rate c
    \<and> provider_sent_initial_config (wrap_session b c) = provider_sent_initial_config c
    \<and> supports_session_messages (wrap_session b c) = supports_session_messages c
    \<and> supports_silent_messages (wrap_session b c) = supports_silent_messages c
    \<and> supports_response_requests (wrap_session b c) = supports_response_requests c
    \<and> supports_session_media (wrap_session b c) = supports_session_media c
    \<and> session_terminal_error (wrap_session b c) = session_terminal_error c
    \<and> session_input_drops (wrap_session b c) = session_input_drops c
    \<and> wrap_session b (wrap_session b' c) = wrap_session b c"
  by (simp add: wrap_session_def answers_def provider_owns_turn_detection_def full_duplex_session_def
        input_sample_rate_def provider_sent_initial_config_def supports_session_messages_def
        supports_silent_messages_def supports_response_requests_def supports_session_media_def
        session_terminal_error_def session_input_drops_def session_output_drops_def
        session_flush_outbound_def)

end
