(* ===== verification/Session_Runner.thy ===== *)
theory Session_Runner
  imports Session_Link "HOL-Library.Monad_Syntax"
begin

text \<open>
  The session model participant, \<^verbatim>\<open>participants/model_runner.go\<close>,
  \<^verbatim>\<open>model_runner_session.go\<close>, \<^verbatim>\<open>model_runner_control.go\<close> and
  \<^verbatim>\<open>model_runner_session_tools.go\<close>: one goroutine observes provider messages, admitted user
  input, the coordinator's requests and the held-onset timer, and decides barge-in between
  observing the provider and sending to it. Each function of the source is one definition on the
  session's world; \<^verbatim>\<open>err.Error()\<close> and \<^verbatim>\<open>Sprintf\<close> are the parameter \<^verbatim>\<open>render\<close>.

  Observing a message can replay deferred control events, one of those can be a tool continuation,
  and that first observes whatever the provider has queued: the recursion of
  \<^verbatim>\<open>forwardSessionMessageState\<close>, \<^verbatim>\<open>flushDeferredSessionEvents\<close>,
  \<^verbatim>\<open>forwardQueuedSessionEvent\<close> and \<^verbatim>\<open>syncProviderMessages\<close>. It is closed by fuel in
  \<^verbatim>\<open>drain_messages\<close>, where running out is \<^verbatim>\<open>None\<close>; \<^verbatim>\<open>pending_messages\<close> is always enough.
\<close>

record barge_in_tuning =
  bi_min_speech :: int
  bi_hangover :: int

definition default_barge_in :: barge_in_tuning where
  "default_barge_in = \<lparr>bi_min_speech = 40000000, bi_hangover = 300000000\<rparr>"

record runner_setup =
  su_caps :: session_caps
  su_config :: "session_update_config option"
  su_tuning :: "barge_in_tuning option"
  su_quiet :: "byte list \<Rightarrow> bool"
  su_render :: "go_error \<Rightarrow> string"

definition barge_in_tuning_of :: "runner_setup \<Rightarrow> barge_in_tuning" where
  "barge_in_tuning_of su = (case su_tuning su of Some t \<Rightarrow> t | None \<Rightarrow> default_barge_in)"

section \<open>Writing deltas\<close>

definition state_event :: "session_event \<Rightarrow> session_world \<Rightarrow> session_world" where
  "state_event ev w = w\<lparr>sw_state := session_apply ev (sw_state w)\<rparr>"

definition write_session_delta :: "stream_message \<Rightarrow> session_world \<Rightarrow> session_world" where
  "write_session_delta m w = w\<lparr>sw_deltas := sw_deltas w @ [(m, False)]\<rparr>"

definition write_session_terminal :: "stream_message \<Rightarrow> session_world \<Rightarrow> session_world" where
  "write_session_terminal m w = w\<lparr>sw_deltas := sw_deltas w @ [(m, True)]\<rparr>"

definition flush_send_errors :: "stream_message list \<Rightarrow> session_world \<Rightarrow> session_world" where
  "flush_send_errors ms w = fold write_session_delta ms w"

definition flush_batch_failures :: "session_world \<Rightarrow> session_world" where
  "flush_batch_failures w =
     flush_send_errors (fst (take_failures (sw_state w))) (state_event EvTakeFailures w)"

text \<open>\<^verbatim>\<open>errors.Is(err, ErrSessionDeltaOverflow)\<close>.\<close>

fun is_overflow_error :: "go_error \<Rightarrow> bool" where
  "is_overflow_error SessionDeltaOverflow = True"
| "is_overflow_error (WrappedError _ e) = is_overflow_error e"
| "is_overflow_error (JoinedErrors es) = list_ex is_overflow_error es"
| "is_overflow_error (ToolFailed _ e) = is_overflow_error e"
| "is_overflow_error (SessionSendFailed _ _ (Some e)) = is_overflow_error e"
| "is_overflow_error _ = False"

definition publish_audio_failure :: "runner_setup \<Rightarrow> go_error \<Rightarrow> session_world \<Rightarrow> session_world" where
  "publish_audio_failure su e w =
     write_session_terminal
       ((mk_delta StreamError RoleAssistant
          (VError (Some ((new_error_value_with_error (su_render su) (Some e))
             \<lparr>ev_classification := (if is_overflow_error e then ''session_delta_overflow''
                                     else ''session_audio_send_failed''),
              ev_terminal_reason := TRTerminalFailure, ev_terminal_provenance := TPLoop,
              ev_output_state := output_state (rs_output (st_response (sw_state w)))\<rparr>))))
        \<lparr>sm_actor_id := PModel, sm_loop_pass_id := 0\<rparr>) w"

section \<open>Audio and local barge-in\<close>

definition send_failed :: "string \<Rightarrow> send_outcome \<Rightarrow> go_error" where
  "send_failed operation out =
     SessionSendFailed operation (send_status_string (so_status out)) (so_err out)"

definition audio_message :: "byte list \<Rightarrow> stream_message" where
  "audio_message pcm = mk_delta StreamAudioDelta RoleUnset (VAudioDelta pcm '''')"

definition forward_user_audio ::
    "runner_setup \<Rightarrow> byte list \<Rightarrow> session_world \<Rightarrow> go_error option \<times> session_world" where
  "forward_user_audio su pcm w =
     (let (out, w1) = send_with_outcome (su_caps su) (audio_message pcm) w
      in (if \<not> send_ok out then Some (send_failed ''audio'' out) else None, w1))"

fun forward_frames ::
    "runner_setup \<Rightarrow> byte list list \<Rightarrow> session_world \<Rightarrow> go_error option \<times> session_world" where
  "forward_frames su [] w = (None, w)"
| "forward_frames su (pcm # fs) w =
     (case forward_user_audio su pcm w of
        (Some e, w1) \<Rightarrow> (Some e, w1)
      | (None, w1) \<Rightarrow> forward_frames su fs w1)"

definition release_held_audio ::
    "runner_setup \<Rightarrow> session_world \<Rightarrow> go_error option \<times> session_world" where
  "release_held_audio su w =
     forward_frames su (fst (onset_take (st_onset (sw_state w)))) (state_event EvTakeFrames w)"

definition flush_held_audio :: "runner_setup \<Rightarrow> session_world \<Rightarrow> session_world" where
  "flush_held_audio su w =
     (case release_held_audio su w of
        (Some e, w1) \<Rightarrow> publish_audio_failure su e w1
      | (None, w1) \<Rightarrow> w1)"

definition barge_in_cancel :: "bool \<Rightarrow> stream_message" where
  "barge_in_cancel keep_playback =
     mk_delta StreamResponseCancel RoleUnset (VResponseCancel (Some keep_playback))"

definition send_barge_in_cancel ::
    "runner_setup \<Rightarrow> bool \<Rightarrow> session_world \<Rightarrow> go_error option \<times> session_world" where
  "send_barge_in_cancel su keep_playback w =
     (let (out, w1) = send_with_outcome (su_caps su) (barge_in_cancel keep_playback) w
      in if \<not> send_ok out then (Some (send_failed ''response cancel'' out), w1)
         else (None, state_event EvCancelSent w1))"

definition barge_in ::
    "runner_setup \<Rightarrow> byte list \<Rightarrow> session_world \<Rightarrow> (bool \<times> go_error option) \<times> session_world" where
  "barge_in su pcm w =
     (let provider_vad = provider_owns_turn_detection (su_caps su);
          (reading, w1) = local_playback (su_caps su) (su_quiet su) w;
          tuning = barge_in_tuning_of su;
          loud_frame = pr_loud reading pcm;
          rate = input_sample_rate (su_caps su);
          (onset, loud, _) = detector_observe loud_frame pcm rate (bi_min_speech tuning)
             (bi_hangover tuning) (st_onset (sw_state w1));
          w2 = state_event (EvFrame loud_frame pcm rate (bi_min_speech tuning)
             (bi_hangover tuning)) w1;
          target = cancel_target (sw_state w2)
      in if onset \<and> target
         then (let (err, w3) = send_barge_in_cancel su provider_vad w2 in ((False, err), w3))
         else if onset \<and> \<not> provider_vad \<and> \<not> response_active (sw_state w2) \<and> pr_active reading
         then ((False, None), snd (session_ask WireInterruptPlayback w2))
         else if loud \<and> \<not> onset \<and> target
         then ((True, None), state_event (EvHoldFrame pcm) w2)
         else ((False, None), w2))"

definition forward_session_audio ::
    "runner_setup \<Rightarrow> byte list \<Rightarrow> audio_policy \<Rightarrow> session_world \<Rightarrow> go_error option \<times> session_world" where
  "forward_session_audio su pcm policy w =
     (let ((held, err), w1) =
            (if interrupts_response policy \<and> \<not> full_duplex_session (su_caps su)
             then barge_in su pcm w else ((False, None), w))
      in if held \<or> err \<noteq> None then (err, w1)
         else (case release_held_audio su w1 of
                 (Some e, w2) \<Rightarrow> (Some e, w2)
               | (None, w2) \<Rightarrow> forward_user_audio su pcm w2))"

section \<open>Control events\<close>

definition mark_tool_event_consumed :: "stream_message \<Rightarrow> session_world \<Rightarrow> session_world" where
  "mark_tool_event_consumed evt w =
     (if is_session_tool_event evt then w\<lparr>sw_ingress := tool_consumed (sw_ingress w)\<rparr> else w)"

definition has_pending_tool_events :: "session_world \<Rightarrow> bool" where
  "has_pending_tool_events w = tool_pending (sw_ingress w)"

definition unresolved_send_failure ::
    "(go_error \<Rightarrow> string) \<Rightarrow> stream_message \<Rightarrow> send_outcome \<Rightarrow> stream_message option" where
  "unresolved_send_failure render m out =
     (let st = StrArg (send_status_string (so_status out));
          failure = (\<lambda>cl e. Some (mk_delta StreamError RoleUnset
            (VError (Some ((new_error_value_with_terminal (render e) cl
               TRTerminalFailure TPLoop TONone)\<lparr>ev_err := so_err out\<rparr>)))))
      in case sm_type m of
           StreamToolCallEnd \<Rightarrow>
             (let call = (case sm_value m of Some (VToolCallEnd c _ _) \<Rightarrow> c | _ \<Rightarrow> '''')
              in failure ''unresolved_tool_result''
                   (FormattedError ''tool result %q was not delivered: session send status %q''
                      [StrArg call, st]))
         | StreamSessionUpdate \<Rightarrow> failure ''unresolved_session_update''
             (FormattedError ''session tool definition update was not delivered: session send status %q'' [st])
         | StreamResponseCreate \<Rightarrow> failure ''unresolved_tool_continuation''
             (FormattedError ''tool continuation was not requested: session send status %q'' [st])
         | _ \<Rightarrow> None)"

text \<open>
  What \<^verbatim>\<open>forwardSessionEventOutcome\<close> reports: the failure, whether it is deferred, whether a
  RESPONSE.CREATE was accepted, whether the event was admitted.
\<close>

record event_outcome =
  eo_failure :: "stream_message option"
  eo_deferred :: bool
  eo_accepted :: bool
  eo_admitted :: bool

definition forward_event_outcome ::
    "runner_setup \<Rightarrow> stream_message \<Rightarrow> session_world \<Rightarrow> event_outcome \<times> session_world" where
  "forward_event_outcome su m w =
     (let (out, w1) = send_with_outcome (su_caps su) m w;
          nothing = \<lparr>eo_failure = None, eo_deferred = False, eo_accepted = False, eo_admitted = False\<rparr>
      in if send_ok out
         then (nothing\<lparr>eo_accepted := (sm_type m = StreamResponseCreate), eo_admitted := True\<rparr>, w1)
         else (case unresolved_send_failure (su_render su) m out of
                 None \<Rightarrow> (nothing, w1)
               | Some f \<Rightarrow>
                   if sm_type m = StreamToolCallEnd
                   then (nothing\<lparr>eo_failure := Some f, eo_deferred := True\<rparr>, w1)
                   else (nothing, write_session_delta f w1)))"

definition note_deferred_failure ::
    "stream_message \<Rightarrow> stream_message option \<Rightarrow> session_world \<Rightarrow> session_world" where
  "note_deferred_failure evt failure w =
     (let w1 = (case failure of Some f \<Rightarrow> state_event (EvFailure f) w | None \<Rightarrow> w)
      in if sm_type evt = StreamToolCallEnd
         then (state_event (EvRejected True) w1)\<lparr>sw_continuation := ToolContinuationSuppressed\<rparr>
         else w1)"

definition note_accepted_response :: "stream_message \<Rightarrow> session_world \<Rightarrow> session_world" where
  "note_accepted_response evt w =
     (if is_acknowledgement_create evt then state_event EvAckRequested w
      else (if is_continuation_create evt then state_event EvContinuationRequested w else w)
             \<lparr>sw_continuation := ToolContinuationAccepted\<rparr>)"

definition suppress_rejected_batch :: "stream_message \<Rightarrow> session_world \<Rightarrow> session_world option" where
  "suppress_rejected_batch evt w =
     (if sm_type evt \<noteq> StreamResponseCreate \<or> is_acknowledgement_create evt
         \<or> \<not> bf_rejected (st_batch (sw_state w)) then None
      else Some (flush_batch_failures
             ((state_event (EvRejected False) (mark_tool_event_consumed evt w))
               \<lparr>sw_continuation := ToolContinuationSuppressed\<rparr>)))"

text \<open>The send of an admitted control event, with the \<^verbatim>\<open>switch\<close> on its outcome.\<close>

definition send_control_event :: "runner_setup \<Rightarrow> stream_message \<Rightarrow> session_world \<Rightarrow> session_world" where
  "send_control_event su evt w =
     (let (eo, w1) = forward_event_outcome su evt w
      in if eo_deferred eo then note_deferred_failure evt (eo_failure eo) w1
         else if eo_accepted eo then note_accepted_response evt w1
         else if sm_type evt = StreamResponseCancel \<and> eo_admitted eo then state_event EvCancelSent w1
         else if eo_failure eo \<noteq> None \<and> sm_type evt = StreamResponseCreate
                 \<and> \<not> is_acknowledgement_create evt
         then w1\<lparr>sw_continuation := ToolContinuationSuppressed\<rparr>
         else w1)"

text \<open>\<^verbatim>\<open>sync\<close> is \<^verbatim>\<open>syncProviderMessages\<close> of a session that relays its messages.\<close>

type_synonym syncer = "session_world \<Rightarrow> session_world option"

definition sync_provider_messages :: "syncer \<Rightarrow> runner_setup \<Rightarrow> syncer" where
  "sync_provider_messages sync su w = (if cp_syncs (su_caps su) then sync w else Some w)"

definition control_event ::
    "syncer \<Rightarrow> runner_setup \<Rightarrow> stream_message \<Rightarrow> session_world \<Rightarrow> session_world option" where
  "control_event sync su evt w =
     (case suppress_rejected_batch evt w of
        Some w1 \<Rightarrow> Some w1
      | None \<Rightarrow>
          (let hold = fst (hold_for_acknowledgement evt (sw_state w));
               w1 = state_event (EvHold evt) w
           in if hold
              then Some (if is_acknowledgement_create evt then mark_tool_event_consumed evt w1 else w1)
              else do {
                w2 \<leftarrow> (if is_continuation_create evt then sync_provider_messages sync su w1 else Some w1);
                Some (if defer_response_request evt (sw_state w2) then state_event (EvDefer evt) w2
                      else mark_tool_event_consumed evt (send_control_event su evt w2))
              }))"

definition forward_queued_event ::
    "syncer \<Rightarrow> runner_setup \<Rightarrow> stream_message \<Rightarrow> session_world \<Rightarrow> session_world option" where
  "forward_queued_event sync su evt w =
     (if sm_type evt = StreamResponseCancel
      then do { w1 \<leftarrow> control_event sync su evt w; Some (flush_held_audio su w1) }
      else control_event sync su evt (flush_held_audio su w))"

fun forward_events ::
    "syncer \<Rightarrow> runner_setup \<Rightarrow> stream_message list \<Rightarrow> session_world \<Rightarrow> session_world option" where
  "forward_events sync su [] w = Some w"
| "forward_events sync su (evt # es) w =
     do { w1 \<leftarrow> forward_queued_event sync su evt w; forward_events sync su es w1 }"

definition flush_deferred_events :: "syncer \<Rightarrow> runner_setup \<Rightarrow> session_world \<Rightarrow> session_world option" where
  "flush_deferred_events sync su w =
     forward_events sync su (fst (take_deferred (sw_state w))) (state_event EvTakeDeferred w)"

section \<open>Observing provider messages\<close>

definition is_session_response_start :: "stream_type \<Rightarrow> bool" where
  "is_session_response_start ty \<longleftrightarrow> ty = StreamMessageStart \<or> ty = StreamAudioStart"

definition rejects_active_response_create :: "stream_message \<Rightarrow> bool" where
  "rejects_active_response_create m =
     (case sm_value m of
        Some (VError v) \<Rightarrow> is_non_terminal v
          \<and> (case v of Some e \<Rightarrow> ev_classification e = ''response_create_active'' | None \<Rightarrow> False)
      | _ \<Rightarrow> False)"

definition normalize_session_close :: "stream_message \<Rightarrow> stream_message" where
  "normalize_session_close m =
     (case sm_value m of
        Some (VSessionClose v) \<Rightarrow>
          (let v1 = (if sc_terminal_reason v = TRUnset
                     then v\<lparr>sc_terminal_reason := (if sc_reason v = ''provider_closed''
                            then TRProviderClose else TRSessionClose)\<rparr> else v);
               v2 = (if sc_classification v1 = ''''
                     then v1\<lparr>sc_classification := (if sc_terminal_reason v1 = TRProviderClose
                            then ''transport'' else terminal_reason_string (sc_terminal_reason v1))\<rparr>
                     else v1);
               v3 = (if sc_terminal_provenance v2 = TPUnset
                     then v2\<lparr>sc_terminal_provenance := TPSession\<rparr> else v2);
               v4 = (if sc_output_state v3 = TOUnset
                     then v3\<lparr>sc_output_state := TONotApplicable\<rparr> else v3)
           in m\<lparr>sm_value := Some (VSessionClose v4)\<rparr>)
      | _ \<Rightarrow> m)"

text \<open>The three parts of \<^verbatim>\<open>tagSessionAcknowledgement\<close>: what the message says of the
  acknowledgement, its rejection, and the tag.\<close>

definition note_acknowledgement :: "stream_message \<Rightarrow> session_world \<Rightarrow> session_world" where
  "note_acknowledgement m w =
     (if sm_response_purpose m = PurposeToolAcknowledgement then state_event EvAckTagged w
      else if ack_outstanding (st_ack (sw_state w)) \<and> ak_start (st_ack (sw_state w)) = None
              \<and> is_session_response_start (sm_type m)
      then state_event (EvAckStart (Some m)) w else w)"

definition reject_acknowledgement :: "stream_message \<Rightarrow> session_world \<Rightarrow> session_world" where
  "reject_acknowledgement m w =
     (if rejects_active_response_create m \<and> ack_outstanding (st_ack (sw_state w))
      then (let w1 = state_event EvAckRejected w
            in case ak_start (st_ack (sw_state w1)) of
                 Some start \<Rightarrow>
                   if sm_response_id start = rs_id (st_response (sw_state w1))
                   then write_session_delta start w1 else w1
               | None \<Rightarrow> w1)
      else w)"

definition tag_acknowledgement ::
    "stream_message \<Rightarrow> session_world \<Rightarrow> (bool \<times> stream_message) \<times> session_world" where
  "tag_acknowledgement m w =
     (let w1 = reject_acknowledgement m (note_acknowledgement m w)
      in if \<not> ack_outstanding (st_ack (sw_state w1))
         then ((False, m), state_event (EvAckStart None) w1)
         else ((True, if is_response_stream_type (sm_type m)
                      then m\<lparr>sm_response_purpose := PurposeToolAcknowledgement\<rparr> else m), w1))"

definition forward_initial_config ::
    "runner_setup \<Rightarrow> stream_message \<Rightarrow> session_world \<Rightarrow> session_world" where
  "forward_initial_config su m w =
     (if sm_type m \<noteq> StreamSessionOpen \<and> sm_type m \<noteq> StreamSessionCreated then w
      else (let opened = fst (observe_open (st_session (sw_state w)));
                w1 = state_event EvOpen w
            in case su_config su of
                 None \<Rightarrow> w1
               | Some config \<Rightarrow>
                   if \<not> opened \<or> provider_sent_initial_config (su_caps su) then w1
                   else snd (forward_event_outcome su
                          (mk_delta StreamSessionUpdate RoleUnset (VSessionUpdate config)) w1)))"

text \<open>\<^verbatim>\<open>forwardSessionMessageWithState\<close>: whether the message ended the current response.\<close>

definition apply_message ::
    "runner_setup \<Rightarrow> stream_message \<Rightarrow> session_world \<Rightarrow> bool \<times> session_world" where
  "apply_message su msg w =
     (let w1 = (if rejects_active_response_create msg \<and> \<not> ack_outstanding (st_ack (sw_state w))
                then state_event EvContinuationRejected w else w);
          ((ack, m), w2) = tag_acknowledgement msg w1;
          i = response_id (sm_response_id m);
          (ended, m1, w3) =
            (if sm_type m = StreamMessageStart \<or> sm_type m = StreamAudioStart
             then (let w2' = state_event
                         (EvStart i ack (sm_response_purpose m = PurposeToolContinuation)) w2
                   in (False, tag_continuation m i (sw_state w2'), w2'))
             else if sm_type m = StreamMessageEnd
             then (let m' = tag_continuation m i (sw_state w2);
                       (owned, m'', _) = end_response m' i ack (sw_state w2)
                   in (owned, m'', state_event (EvEnd m' i ack) w2))
             else if sm_type m = StreamSessionClose
             then (False, normalize_session_close m, state_event EvClose w2)
             else (False, tag_continuation m i (sw_state w2), w2))
      in if stale_customer_output m1 (sw_state w3) then (ended, w3)
         else (let w4 = (if is_output_delta m1 then state_event EvOutput w3 else w3);
                   w5 = forward_initial_config su m1 w4
               in (ended, write_session_delta m1 w5)))"

text \<open>\<^verbatim>\<open>forwardSessionMessageState\<close>.\<close>

definition observe_message ::
    "syncer \<Rightarrow> runner_setup \<Rightarrow> stream_message \<Rightarrow> session_world \<Rightarrow> session_world option" where
  "observe_message sync su msg w =
     (let w1 = (if sm_type msg = StreamSessionClose
                then (state_event EvContinuationReset (flush_batch_failures w))
                       \<lparr>sw_continuation := ToolContinuationNone\<rparr>
                else w);
          (ended, w2) = apply_message su msg w1;
          ack_ended = fst (ack_take_ended (st_ack (sw_state w2)));
          w3 = state_event EvAckTaken w2;
          continuation_over = fst (continuation_take_ended (st_continuation (sw_state w3)));
          w4 = state_event EvContinuationTaken w3;
          w5 = (if ended then flush_held_audio su w4 else w4)
      in do {
           w6 \<leftarrow> (if ack_ended \<or> ended then flush_deferred_events sync su w5 else Some w5);
           Some (if continuation_over then flush_batch_failures w6 else w6)
         })"

text \<open>
  One poll of \<^verbatim>\<open>Receive\<close>: whatever became readable since the last one is behind what was
  already queued.
\<close>

definition poll_receive :: "session_world \<Rightarrow> stream_message option \<times> session_world" where
  "poll_receive w =
     (let queue = sw_received w @ (case sw_arrivals w of [] \<Rightarrow> [] | batch # _ \<Rightarrow> batch);
          w1 = w\<lparr>sw_arrivals := tl (sw_arrivals w), sw_received := queue\<rparr>
      in case queue of
           [] \<Rightarrow> (None, w1)
         | m # ms \<Rightarrow> (Some m, w1\<lparr>sw_received := ms\<rparr>))"

definition pending_messages :: "session_world \<Rightarrow> nat" where
  "pending_messages w = length (sw_received w) + length (concat (sw_arrivals w))"

text \<open>
  \<^verbatim>\<open>forwardPendingSessionMessages\<close>: whether a message was observed. A barrier of
  \<^verbatim>\<open>syncProviderMessages\<close> reached from one of them reads on in the same way, until the relay has
  published what it had and nothing more is readable.
\<close>

fun drain_messages :: "nat \<Rightarrow> runner_setup \<Rightarrow> session_world \<Rightarrow> (bool \<times> session_world) option" where
  "drain_messages 0 su w = None"
| "drain_messages (Suc n) su w =
     (case poll_receive w of
        (None, w1) \<Rightarrow> Some (False, w1)
      | (Some m, w1) \<Rightarrow> do {
          w2 \<leftarrow> observe_message (\<lambda>v. map_option snd (drain_messages n su v)) su m w1;
          (_, w3) \<leftarrow> drain_messages n su w2;
          Some (True, w3)
        })"

definition forward_pending_messages :: "runner_setup \<Rightarrow> session_world \<Rightarrow> (bool \<times> session_world) option" where
  "forward_pending_messages su w = drain_messages (Suc (pending_messages w)) su w"

definition runner_sync :: "runner_setup \<Rightarrow> syncer" where
  "runner_sync su w = map_option snd (forward_pending_messages su w)"

section \<open>The coordinator's requests\<close>

definition send_latest_user_text_only :: "message list \<Rightarrow> session_world \<Rightarrow> bool \<times> session_world" where
  "send_latest_user_text_only history w =
     (case find (\<lambda>m. m_role m = RoleUser) (rev history) of
        None \<Rightarrow> (False, w)
      | Some m \<Rightarrow>
          if \<not> has_text m then (False, w)
          else (True, snd (session_send (mk_delta StreamTextDelta RoleUnset
                  (VTextDelta (text_content m))) w)))"

definition has_tool_result_suffix :: "message list \<Rightarrow> bool" where
  "has_tool_result_suffix history \<longleftrightarrow> length history > 0 \<and> m_role (last history) = RoleTool"

definition tool_result_suffix :: "message list \<Rightarrow> message list" where
  "tool_result_suffix history = rev (takeWhile (\<lambda>m. m_role m = RoleTool) (rev history))"

definition results_contain_image :: "message list \<Rightarrow> bool" where
  "results_contain_image results = list_ex (\<lambda>m. list_ex is_image_part (m_parts m)) results"

definition session_tool_result_name :: "message list \<Rightarrow> message \<Rightarrow> string" where
  "session_tool_result_name history result =
     (if m_name result \<noteq> '''' then m_name result
      else (case find (\<lambda>c. tc_id c = m_tool_call_id result \<and> tc_name c \<noteq> '''')
                  (concat (map m_tool_calls (rev history))) of
              Some c \<Rightarrow> tc_name c
            | None \<Rightarrow> ''''))"

datatype tool_delivery =
    ResultsNotFound | ResultsComplete | ResultsFlatFallback | ResultsAlreadyForwarded | ResultsFailed

fun send_results_as_stream ::
    "message list \<Rightarrow> message list \<Rightarrow> session_world \<Rightarrow> bool \<times> session_world" where
  "send_results_as_stream history [] w =
     session_send (mk_delta StreamResponseCreate RoleUnset
       (VResponseCreate (Some new_tool_continuation_response_create_value))) w"
| "send_results_as_stream history (r # rs) w =
     (if m_tool_call_id r = '''' then (False, w)
      else (case session_send (mk_delta StreamToolCallEnd RoleUnset
                   (VToolCallEnd (m_tool_call_id r) (session_tool_result_name history r)
                      (text_content r))) w of
              (False, w1) \<Rightarrow> (False, w1)
            | (True, w1) \<Rightarrow> send_results_as_stream history rs w1))"

fun send_complete_results ::
    "session_caps \<Rightarrow> bool \<Rightarrow> message list \<Rightarrow> session_world \<Rightarrow> tool_delivery \<times> session_world" where
  "send_complete_results c can_defer [] w = (ResultsComplete, w)"
| "send_complete_results c can_defer (r # rs) w =
     (let last_one = (rs = []) in
      case (if \<not> last_one \<and> can_defer then send_silent_message c r w
            else send_session_message c r w) of
        (False, w1) \<Rightarrow> (ResultsFailed, w1)
      | (True, w1) \<Rightarrow> send_complete_results c can_defer rs w1)"

definition send_latest_tool_results ::
    "session_caps \<Rightarrow> message list \<Rightarrow> session_world \<Rightarrow> tool_delivery \<times> session_world" where
  "send_latest_tool_results c history w =
     (let results = tool_result_suffix history in
      if results = [] then (ResultsNotFound, w)
      else if \<not> results_contain_image results then (ResultsAlreadyForwarded, w)
      else (let can_defer = supports_silent_messages c in
            if \<not> supports_session_messages c \<or> (length results > 1 \<and> \<not> can_defer)
            then (case send_results_as_stream history results w of
                    (False, w1) \<Rightarrow> (ResultsFailed, w1)
                  | (True, w1) \<Rightarrow> (ResultsFlatFallback, w1))
            else send_complete_results c can_defer results w))"

text \<open>\<^verbatim>\<open>sendLatestUserText\<close>, of the messages of an inference request.\<close>

definition send_latest_user_text ::
    "session_caps \<Rightarrow> message list \<Rightarrow> session_world \<Rightarrow> session_world" where
  "send_latest_user_text c history w =
     (let (delivery, w1) = send_latest_tool_results c history w in
      case delivery of
        ResultsAlreadyForwarded \<Rightarrow>
          if has_pending_tool_events w1 then w1
          else if sw_continuation w1 \<noteq> ToolContinuationNone
          then w1\<lparr>sw_continuation := ToolContinuationNone\<rparr>
          else (let (sent, w2) = send_latest_user_text_only history w1
                in if \<not> sent then snd (request_session_response c w2) else w2)
      | ResultsNotFound \<Rightarrow>
          (let (sent, w2) = send_latest_user_text_only history w1
           in if \<not> sent \<and> has_tool_result_suffix history
              then snd (request_session_response c w2) else w2)
      | _ \<Rightarrow> w1)"

section \<open>User input\<close>

definition forward_complete_message ::
    "session_caps \<Rightarrow> message \<Rightarrow> bool \<Rightarrow> session_world \<Rightarrow> go_error option \<times> session_world" where
  "forward_complete_message c m request w =
     (if request
      then (if \<not> supports_session_messages c
            then (Some (ErrorText ''session does not support complete messages''), w)
            else (case send_session_message c m w of
                    (False, w1) \<Rightarrow> (Some (ErrorText ''session rejected complete message''), w1)
                  | (True, w1) \<Rightarrow> (None, w1)))
      else (if \<not> supports_silent_messages c
            then (Some (ErrorText ''session does not support complete messages without response''), w)
            else (case send_silent_message c m w of
                    (False, w1) \<Rightarrow>
                      (Some (ErrorText ''session rejected complete message without response''), w1)
                  | (True, w1) \<Rightarrow> (None, w1))))"

text \<open>\<^verbatim>\<open>forwardSessionInput\<close>, of an input just taken from the ordered lane.\<close>

definition forward_session_input ::
    "runner_setup \<Rightarrow> session_input \<Rightarrow> session_world \<Rightarrow> (go_error option \<times> session_world) option" where
  "forward_session_input su input w =
     (let w1 = w\<lparr>sw_ingress := count_control (- 1) input (sw_ingress w)\<rparr> in
      case input of
        SessionAudio pcm policy \<Rightarrow>
          do { (_, w2) \<leftarrow> forward_pending_messages su w1; Some (forward_session_audio su pcm policy w2) }
      | SessionEvent evt \<Rightarrow>
          do { w2 \<leftarrow> forward_queued_event (runner_sync su) su evt w1; Some (None, w2) }
      | SessionMessage m request \<Rightarrow>
          Some (forward_complete_message (su_caps su) m request (flush_held_audio su w1)))"

definition take_priority :: "session_world \<Rightarrow> (stream_message \<times> session_world) option" where
  "take_priority w =
     (case ig_priority (sw_ingress w) of
        [] \<Rightarrow> None
      | d # ds \<Rightarrow> Some (d, w\<lparr>sw_ingress := (sw_ingress w)\<lparr>ig_priority := ds\<rparr>\<rparr>))"

definition take_ordered :: "session_world \<Rightarrow> (session_input \<times> session_world) option" where
  "take_ordered w =
     (case ordered_take (sw_ingress w) of
        None \<Rightarrow> None
      | Some (i, q) \<Rightarrow> Some (i, w\<lparr>sw_ingress := q\<rparr>))"

definition forward_messages_and_cancels ::
    "runner_setup \<Rightarrow> session_world \<Rightarrow> (bool \<times> session_world) option" where
  "forward_messages_and_cancels su w =
     do {
       (seen, w1) \<leftarrow> forward_pending_messages su w;
       if seen then Some (True, w1)
       else (case take_priority w1 of
               Some (evt, w2) \<Rightarrow>
                 do { w3 \<leftarrow> forward_queued_event (runner_sync su) su evt w2; Some (True, w3) }
             | None \<Rightarrow> Some (False, w1))
     }"

text \<open>
  \<^verbatim>\<open>forwardPendingSessionInputs\<close>: whether it forwarded anything, and the error that stopped it.
  Inputs admitted while it runs are those of the lanes; every round takes one item or ends.
\<close>

fun forward_inputs ::
    "nat \<Rightarrow> runner_setup \<Rightarrow> bool \<Rightarrow> session_world
     \<Rightarrow> ((bool \<times> go_error option) \<times> session_world) option" where
  "forward_inputs 0 su handled w = None"
| "forward_inputs (Suc n) su handled w =
     do {
       (seen, w1) \<leftarrow> forward_messages_and_cancels su w;
       if seen then forward_inputs n su True w1
       else (case take_ordered w1 of
               None \<Rightarrow> Some ((handled, None), w1)
             | Some (input, w2) \<Rightarrow> do {
                 (err, w3) \<leftarrow> forward_session_input su input w2;
                 (case err of
                    Some e \<Rightarrow> Some ((True, Some e), w3)
                  | None \<Rightarrow> forward_inputs n su True w3)
               })
     }"

definition backlog :: "session_world \<Rightarrow> nat" where
  "backlog w = pending_messages w + length (ig_priority (sw_ingress w))
     + length (ig_ordered (sw_ingress w))"

definition forward_pending_inputs ::
    "runner_setup \<Rightarrow> session_world \<Rightarrow> ((bool \<times> go_error option) \<times> session_world) option" where
  "forward_pending_inputs su w = forward_inputs (Suc (backlog w)) su False w"

section \<open>The session loop\<close>

definition end_session ::
    "runner_setup \<Rightarrow> go_error option \<Rightarrow> session_world \<Rightarrow> go_error option \<times> session_world" where
  "end_session su err w =
     (err, flush_batch_failures
        (case err of
           Some e \<Rightarrow> if ctx_err (sw_ctx w) = None then publish_audio_failure su e w else w
         | None \<Rightarrow> w))"

definition closing_delta :: "session_world \<Rightarrow> stream_message" where
  "closing_delta w =
     (let r = st_response (sw_state w);
          (provenance, out) = (if response_completed r then (TPSession, TONotApplicable)
                               else (TPProvider, output_state (rs_output r)))
      in mk_delta StreamSessionClose RoleUnset (VSessionClose
           (new_session_close_value_with_terminal '''' ''provider_closed'' ''transport''
              TRProviderClose provenance out)))"

definition finish_closed_session :: "runner_setup \<Rightarrow> session_world \<Rightarrow> session_world option" where
  "finish_closed_session su w =
     do {
       (_, w1) \<leftarrow> forward_pending_messages su w;
       let w2 = flush_batch_failures w1;
       Some (if st_session (sw_state w2) = SessionIsClosed then w2
             else write_session_delta (closing_delta w2) w2)
     }"

text \<open>
  What the \<^verbatim>\<open>select\<close> of \<^verbatim>\<open>awaitSessionStep\<close> took: the context's end, the session's end, the two
  lanes, an inference request (its messages) or the closed inbox, the held-onset timer, a provider
  message, or the closed receive channel.
\<close>

datatype await_choice =
    AwaitContext go_error | AwaitSessionDone | AwaitOrdered | AwaitPriority
  | AwaitRequest "message list option" | AwaitExpiry | AwaitMessage stream_message | AwaitReceiveClosed

datatype loop_step = LoopContinues | LoopFinished "go_error option"

definition finish_with ::
    "runner_setup \<Rightarrow> go_error option \<Rightarrow> session_world \<Rightarrow> (loop_step \<times> session_world) option" where
  "finish_with su err w = (let (e, w1) = end_session su err w in Some (LoopFinished e, w1))"

definition expire_held_onset ::
    "runner_setup \<Rightarrow> session_world \<Rightarrow> (loop_step \<times> session_world) option" where
  "expire_held_onset su w =
     (let expired = on_timer (st_onset (sw_state w)) in
      do {
        ((_, err), w1) \<leftarrow> forward_pending_inputs su w;
        (case err of
           Some e \<Rightarrow> finish_with su (Some e) w1
         | None \<Rightarrow> Some (LoopContinues,
             if on_timer (st_onset (sw_state w1)) = expired then flush_held_audio su w1 else w1))
      })"

fun await_step ::
    "runner_setup \<Rightarrow> await_choice \<Rightarrow> session_world \<Rightarrow> (loop_step \<times> session_world) option" where
  "await_step su (AwaitContext e) w = finish_with su (Some e) w"
| "await_step su AwaitSessionDone w =
     do { w1 \<leftarrow> finish_closed_session su w; Some (LoopFinished None, w1) }"
| "await_step su AwaitOrdered w =
     (case take_ordered w of
        None \<Rightarrow> Some (LoopContinues, w)
      | Some (input, w1) \<Rightarrow> do {
          (err, w2) \<leftarrow> forward_session_input su input w1;
          (case err of Some e \<Rightarrow> finish_with su (Some e) w2 | None \<Rightarrow> Some (LoopContinues, w2))
        })"
| "await_step su AwaitPriority w =
     (case take_priority w of
        None \<Rightarrow> Some (LoopContinues, w)
      | Some (evt, w1) \<Rightarrow> do {
          (_, w2) \<leftarrow> forward_pending_messages su w1;
          w3 \<leftarrow> forward_queued_event (runner_sync su) su evt w2;
          Some (LoopContinues, w3)
        })"
| "await_step su (AwaitRequest None) w = finish_with su None w"
| "await_step su (AwaitRequest (Some history)) w =
     Some (LoopContinues,
       if st_session (sw_state w) \<noteq> SessionIsClosed
       then send_latest_user_text (su_caps su) history w else w)"
| "await_step su AwaitExpiry w =
     (if on_timer (st_onset (sw_state w)) = None then Some (LoopContinues, w)
      else expire_held_onset su w)"
| "await_step su (AwaitMessage m) w =
     do { w1 \<leftarrow> observe_message (runner_sync su) su m w; Some (LoopContinues, w1) }"
| "await_step su AwaitReceiveClosed w = finish_with su None w"

text \<open>
  One pass of the loop of \<^verbatim>\<open>runSession\<close>; \<^verbatim>\<open>overflow\<close> is what \<^verbatim>\<open>overflowErr\<close> answers at its head.
\<close>

definition session_turn ::
    "runner_setup \<Rightarrow> go_error option \<Rightarrow> await_choice \<Rightarrow> session_world
     \<Rightarrow> (loop_step \<times> session_world) option" where
  "session_turn su overflow choice w =
     (case overflow of
        Some e \<Rightarrow> finish_with su (Some e) w
      | None \<Rightarrow> do {
          ((handled, err), w1) \<leftarrow> forward_pending_inputs su w;
          (case err of
             Some e \<Rightarrow> finish_with su (Some e) w1
           | None \<Rightarrow> if handled then Some (LoopContinues, w1) else await_step su choice w1)
        })"

section \<open>A whole session\<close>

text \<open>
  A round of the loop: what callers offer to the ingress and what the provider publishes before it,
  what the outbox and the \<^verbatim>\<open>select\<close> answer in it. An offer made while the runner works is
  offered before its next round.
\<close>

record runner_round =
  rr_offers :: "session_input list"
  rr_batches :: "stream_message list list"
  rr_overflow :: "go_error option"
  rr_choice :: await_choice

definition offer_input :: "session_input \<Rightarrow> session_world \<Rightarrow> session_world" where
  "offer_input i w =
     (case enqueue_session_input True None None AdmitOrFail 0 i (sw_ingress w) of
        Some (None, q) \<Rightarrow> w\<lparr>sw_ingress := q, sw_admitted := sw_admitted w @ [i]\<rparr>
      | Some (Some _, q) \<Rightarrow> w\<lparr>sw_ingress := q\<rparr>
      | None \<Rightarrow> w)"

definition start_round :: "runner_round \<Rightarrow> session_world \<Rightarrow> session_world" where
  "start_round r w =
     fold offer_input (rr_offers r) (w\<lparr>sw_arrivals := sw_arrivals w @ rr_batches r\<rparr>)"

fun run_turns ::
    "runner_setup \<Rightarrow> runner_round list \<Rightarrow> session_world \<Rightarrow> (loop_step \<times> session_world) option" where
  "run_turns su [] w = Some (LoopContinues, w)"
| "run_turns su (r # rs) w =
     do {
       (out, w1) \<leftarrow> session_turn su (rr_overflow r) (rr_choice r) (start_round r w);
       (case out of
          LoopContinues \<Rightarrow> run_turns su rs w1
        | LoopFinished e \<Rightarrow> Some (LoopFinished e, w1))
     }"

text \<open>\<^verbatim>\<open>joinOnFailure\<close>, and \<^verbatim>\<open>runSession\<close> around the loop: what connecting and closing answer.\<close>

definition join_on_failure :: "go_error option \<Rightarrow> go_error option \<Rightarrow> go_error option" where
  "join_on_failure err cleanup =
     (case (err, cleanup) of (Some e, Some c) \<Rightarrow> Some (JoinedErrors [e, c]) | _ \<Rightarrow> err)"

definition run_session ::
    "runner_setup \<Rightarrow> go_error option \<Rightarrow> go_error option \<Rightarrow> runner_round list \<Rightarrow> session_world
     \<Rightarrow> (loop_step \<times> session_world) option" where
  "run_session su connect close rounds w =
     (let started = w\<lparr>sw_ingress := ingress_start (sw_ingress w)\<rparr>;
          stopped = (\<lambda>v. v\<lparr>sw_ingress := ingress_stop (sw_ingress v)\<rparr>)
      in case connect of
           Some e \<Rightarrow> Some (LoopFinished (Some (WrappedError ''session connect: %w'' e)), stopped started)
         | None \<Rightarrow> do {
             (out, w1) \<leftarrow> run_turns su rounds started;
             Some (case out of
                     LoopContinues \<Rightarrow> (LoopContinues, w1)
                   | LoopFinished e \<Rightarrow> (LoopFinished (join_on_failure e close), stopped w1))
           })"

end
