(* ===== verification/Runner_Effects.thy ===== *)
theory Runner_Effects
  imports Session_Runner "HOL-Library.Sublist"
begin

text \<open>
  What everything the session runner does has in common. A relation between the worlds before and
  after that every primitive action satisfies (a state event, a delta, a request to the session,
  a poll) holds of every function of the runner: the locale \<^verbatim>\<open>runner_effects\<close> proves it for
  the message and control part, \<^verbatim>\<open>runner_inputs\<close> for the session loop, and the
  \<^verbatim>\<open>uniform\<close> locales for relations that do not tell audio from other requests.
\<close>

section \<open>What every pass of the runner keeps\<close>

text \<open>
  The deferred events are requests for a response and end-of-turn boundaries; the lanes carry no
  raw audio event. Both hold initially and are kept, so a control event never carries audio.
\<close>

definition deferred_ok :: "session_world \<Rightarrow> bool" where
  "deferred_ok w \<longleftrightarrow>
     (\<forall>d \<in> set (st_deferred (sw_state w)). sm_type d = StreamResponseCreate \<or> sm_type d = StreamMessageEnd)"

definition audio_item :: "wire_item \<Rightarrow> bool" where
  "audio_item item = (case item of WireSend m \<Rightarrow> sm_type m = StreamAudioDelta | _ \<Rightarrow> False)"

definition routine_event :: "session_event \<Rightarrow> bool" where
  "routine_event ev =
     (case ev of
        EvHoldFrame _ \<Rightarrow> False
      | EvTakeFrames \<Rightarrow> False
      | EvDefer d \<Rightarrow> sm_type d = StreamResponseCreate \<or> sm_type d = StreamMessageEnd
      | _ \<Rightarrow> True)"

text \<open>
  A relation between the worlds before and after that every primitive action of the runner
  satisfies holds of everything it does while it observes messages and forwards control events.
\<close>

lemma continuation_create_type: "is_continuation_create d \<Longrightarrow> sm_type d = StreamResponseCreate"
  by (simp add: is_continuation_create_def)

lemma deferrable: "defer_response_request d s \<Longrightarrow> routine_event (EvDefer d)"
  using continuation_create_type [of d]
  unfolding routine_event_def defer_response_request_def Let_def session_event.case
  by (cases "is_continuation_create d") (simp_all split: if_splits)

locale runner_effects =
  fixes su :: runner_setup and R :: "session_world \<Rightarrow> session_world \<Rightarrow> bool"
  assumes refl: "R w w"
    and trans: "R u v \<Longrightarrow> R v w \<Longrightarrow> R u w"
    and deferred: "R v w \<Longrightarrow> deferred_ok v \<Longrightarrow> deferred_ok w"
    and event: "routine_event ev \<Longrightarrow> R w (state_event ev w)"
    and append_delta: "R w (w\<lparr>sw_deltas := sw_deltas w @ [d]\<rparr>)"
    and ask: "\<not> audio_item item \<Longrightarrow> R w (snd (session_ask item w))"
    and release: "R w (snd (release_held_audio su w))"
    and mode: "R w (w\<lparr>sw_continuation := c\<rparr>)"
    and consume: "R w (w\<lparr>sw_ingress := tool_consumed (sw_ingress w)\<rparr>)"
    and poll: "R w (snd (poll_receive w))"
begin

lemma then_event: "R w v \<Longrightarrow> routine_event ev \<Longrightarrow> R w (state_event ev v)"
  by (rule trans [OF _ event])

lemma then_mode: "R w v \<Longrightarrow> R w (v\<lparr>sw_continuation := c\<rparr>)"
  by (rule trans [OF _ mode])

lemma write_delta: "R w (write_session_delta m w)" "R w (write_session_terminal m w)"
  by (simp_all add: write_session_delta_def write_session_terminal_def append_delta)

lemma flush_errors: "R w (flush_send_errors ms w)"
  unfolding flush_send_errors_def
proof (induction ms arbitrary: w)
  case (Cons m ms)
  have "R (write_session_delta m w) (fold write_session_delta ms (write_session_delta m w))"
    by (rule Cons.IH)
  then show ?case using trans [OF write_delta(1)] by simp
qed (simp add: refl)

lemma flush_failures: "R w (flush_batch_failures w)"
  unfolding flush_batch_failures_def
  by (rule trans [OF event flush_errors]) (simp add: routine_event_def)

lemma publish: "R w (publish_audio_failure su e w)"
  by (simp add: publish_audio_failure_def write_delta)

lemma flush_held: "R w (flush_held_audio su w)"
  using release [of w] trans [OF _ publish]
  by (auto simp: flush_held_audio_def split: prod.splits option.splits)

lemma send: "sm_type m \<noteq> StreamAudioDelta \<Longrightarrow> R w (snd (session_send m w))"
  using ask [of "WireSend m" w]
  by (cases "session_ask (WireSend m) w") (simp add: session_send_def audio_item_def)

lemma send_outcome: "sm_type m \<noteq> StreamAudioDelta \<Longrightarrow> R w (snd (send_with_outcome c m w))"
  using ask [of "WireSend m" w] send [of m w]
  by (cases "session_send m w") (simp add: send_with_outcome_def audio_item_def)

lemma event_outcome:
  "sm_type m \<noteq> StreamAudioDelta \<Longrightarrow> R w (snd (forward_event_outcome su m w))"
  using send_outcome [of m w "su_caps su"] trans [OF _ write_delta(1)]
  by (auto simp: forward_event_outcome_def Let_def split: prod.splits if_splits option.splits)

lemma mark: "R w (mark_tool_event_consumed evt w)"
  by (simp add: mark_tool_event_consumed_def consume refl)

lemma note_failure: "R w (note_deferred_failure evt failure w)"
proof -
  have "R w (case failure of Some f \<Rightarrow> state_event (EvFailure f) w | None \<Rightarrow> w)"
    by (auto simp: refl routine_event_def intro: event split: option.splits)
  then show ?thesis
    by (auto simp: note_deferred_failure_def Let_def routine_event_def intro!: then_mode then_event)
qed

lemma note_accepted: "R w (note_accepted_response evt w)"
  by (auto simp: note_accepted_response_def routine_event_def refl intro!: then_mode then_event)

lemma suppress: "suppress_rejected_batch evt w = Some w' \<Longrightarrow> R w w'"
  by (auto simp: suppress_rejected_batch_def routine_event_def
        intro!: trans [OF _ flush_failures] then_mode then_event mark split: if_splits)

lemma control_send:
  assumes "sm_type evt \<noteq> StreamAudioDelta"
  shows "R w (send_control_event su evt w)"
proof -
  obtain eo w1 where sent: "forward_event_outcome su evt w = (eo, w1)" by fastforce
  then have "R w w1" using event_outcome [OF assms, of w] by simp
  then show ?thesis
    by (auto simp: send_control_event_def sent routine_event_def
          intro: trans [OF _ note_failure] trans [OF _ note_accepted] then_event then_mode)
qed

lemma control:
  assumes sync: "\<And>v v'. sync v = Some v' \<Longrightarrow> deferred_ok v \<Longrightarrow> R v v'"
    and ok: "deferred_ok w" "sm_type evt \<noteq> StreamAudioDelta"
    and run: "control_event sync su evt w = Some w'"
  shows "R w w'"
proof (cases "suppress_rejected_batch evt w")
  case (Some w1)
  then show ?thesis using run suppress by (simp add: control_event_def)
next
  case None
  let ?w1 = "state_event (EvHold evt) w"
  have held: "R w ?w1" by (rule event) (simp add: routine_event_def)
  have ok1: "deferred_ok ?w1" using deferred [OF held ok(1)] .
  have synced: "R w w2" if
    "(if is_continuation_create evt then sync_provider_messages sync su ?w1 else Some ?w1) = Some w2" for w2
    using that sync [of ?w1 w2] ok1 held trans [OF held]
    by (auto simp: sync_provider_messages_def split: if_splits)
  show ?thesis
  proof (cases "fst (hold_for_acknowledgement evt (sw_state w))")
    case True
    then show ?thesis
      using run None held trans [OF held mark] by (auto simp: control_event_def Let_def split: if_splits)
  next
    case False
    then obtain w2 where w2: "(if is_continuation_create evt then sync_provider_messages sync su ?w1
          else Some ?w1) = Some w2"
        "w' = (if defer_response_request evt (sw_state w2) then state_event (EvDefer evt) w2
               else mark_tool_event_consumed evt (send_control_event su evt w2))"
      using run None by (auto simp: control_event_def Let_def split: bind_splits)
    have sent: "R w (mark_tool_event_consumed evt (send_control_event su evt w2))"
      by (rule trans [OF trans [OF synced [OF w2(1)] control_send [OF ok(2)]] mark])
    have "R w (state_event (EvDefer evt) w2)" if "defer_response_request evt (sw_state w2)"
      using then_event [OF synced [OF w2(1)] deferrable [OF that]] .
    then show ?thesis using w2(2) sent by simp
  qed
qed

lemma queued:
  assumes "\<And>v v'. sync v = Some v' \<Longrightarrow> deferred_ok v \<Longrightarrow> R v v'"
    and "deferred_ok w" "sm_type evt \<noteq> StreamAudioDelta"
    and "forward_queued_event sync su evt w = Some w'"
  shows "R w w'"
proof (cases "sm_type evt = StreamResponseCancel")
  case True
  then obtain w1 where "control_event sync su evt w = Some w1" "w' = flush_held_audio su w1"
    using assms(4) by (auto simp: forward_queued_event_def split: bind_splits)
  then show ?thesis using control [OF assms(1) assms(2,3)] trans [OF _ flush_held] by blast
next
  case False
  then have "control_event sync su evt (flush_held_audio su w) = Some w'"
    using assms(4) by (simp add: forward_queued_event_def)
  then show ?thesis
    using control [OF assms(1) deferred [OF flush_held assms(2)] assms(3)] trans [OF flush_held] by blast
qed

lemma queued_events:
  assumes sync: "\<And>v v'. sync v = Some v' \<Longrightarrow> deferred_ok v \<Longrightarrow> R v v'"
  shows "deferred_ok w \<Longrightarrow> (\<forall>e \<in> set es. sm_type e \<noteq> StreamAudioDelta) \<Longrightarrow>
     forward_events sync su es w = Some w' \<Longrightarrow> R w w'"
proof (induction es arbitrary: w)
  case (Cons e es)
  then obtain w1 where first_one: "forward_queued_event sync su e w = Some w1"
      and rest: "forward_events sync su es w1 = Some w'"
    by (auto split: bind_splits)
  have R1: "R w w1" using queued [OF sync Cons.prems(1) _ first_one] Cons.prems(2) by simp
  show ?case using Cons.IH [OF deferred [OF R1 Cons.prems(1)] _ rest] Cons.prems(2) trans [OF R1] by simp
qed (simp add: refl)

lemma flush_deferred:
  assumes sync: "\<And>v v'. sync v = Some v' \<Longrightarrow> deferred_ok v \<Longrightarrow> R v v'"
    and ok: "deferred_ok w" and run: "flush_deferred_events sync su w = Some w'"
  shows "R w w'"
proof -
  have taken: "R w (state_event EvTakeDeferred w)" by (rule event) (simp add: routine_event_def)
  have "\<forall>e \<in> set (fst (take_deferred (sw_state w))). sm_type e \<noteq> StreamAudioDelta"
    using ok by (auto simp: take_deferred_def deferred_ok_def)
  then show ?thesis
    using queued_events [OF sync deferred [OF taken ok]] run trans [OF taken]
    by (simp add: flush_deferred_events_def)
qed

lemma tagged: "R w (snd (tag_acknowledgement m w))"
proof -
  have noted: "R w (note_acknowledgement m w)"
    by (auto simp: note_acknowledgement_def refl routine_event_def intro: event)
  have "R v (reject_acknowledgement m v)" for v
    by (auto simp: reject_acknowledgement_def Let_def refl routine_event_def
          intro: event trans [OF event write_delta(1)] split: option.split)
  then have "R w (reject_acknowledgement m (note_acknowledgement m w))" by (rule trans [OF noted])
  then show ?thesis
    by (auto simp: tag_acknowledgement_def Let_def routine_event_def intro: then_event)
qed

lemma initial_config: "R w (forward_initial_config su m w)"
  by (auto simp: forward_initial_config_def Let_def refl routine_event_def mk_delta_def
        intro: event trans [OF event event_outcome] split: option.split)

lemma applied: "R w (snd (apply_message su msg w))"
proof -
  define w1 where "w1 = (if rejects_active_response_create msg \<and> \<not> ack_outstanding (st_ack (sw_state w))
      then state_event EvContinuationRejected w else w)"
  have R1: "R w w1" by (simp add: w1_def refl event routine_event_def)
  obtain ack m w2 where tag: "tag_acknowledgement msg w1 = ((ack, m), w2)" by (metis prod.collapse)
  then have R2: "R w w2" using trans [OF R1 tagged [of w1 msg]] by simp
  have steps: "R w (state_event (EvEnd m' i ack) w2)" "R w (state_event EvClose w2)"
      "R w (state_event (EvStart i ack b) w2)" for m' i b
    by (auto intro!: then_event [OF R2] simp: routine_event_def)
  have wrote: "R w (write_session_delta m' (forward_initial_config su m'
      (if b then state_event EvOutput v else v)))" if "R w v" for m' b v
    using that by (auto intro!: trans [OF trans [OF _ initial_config] write_delta(1)] then_event
        simp: routine_event_def)
  obtain ended m1 w3 where
      body: "(if sm_type m = StreamMessageStart \<or> sm_type m = StreamAudioStart
             then (let w2' = state_event (EvStart (response_id (sm_response_id m)) ack
                         (sm_response_purpose m = PurposeToolContinuation)) w2
                   in (False, tag_continuation m (response_id (sm_response_id m)) (sw_state w2'), w2'))
             else if sm_type m = StreamMessageEnd
             then (let m' = tag_continuation m (response_id (sm_response_id m)) (sw_state w2);
                       (owned, m'', _) = end_response m' (response_id (sm_response_id m)) ack (sw_state w2)
                   in (owned, m'', state_event (EvEnd m' (response_id (sm_response_id m)) ack) w2))
             else if sm_type m = StreamSessionClose
             then (False, normalize_session_close m, state_event EvClose w2)
             else (False, tag_continuation m (response_id (sm_response_id m)) (sw_state w2), w2))
             = (ended, m1, w3)"
    by (metis prod.collapse)
  then have R3: "R w w3"
    using steps R2 by (auto simp: Let_def split: if_splits prod.splits)
  show ?thesis
    using R3 wrote [OF R3, of m1 "is_output_delta m1"]
    by (simp add: apply_message_def w1_def [symmetric] tag body Let_def)
qed

lemma observed:
  assumes sync: "\<And>v v'. sync v = Some v' \<Longrightarrow> deferred_ok v \<Longrightarrow> R v v'"
    and ok: "deferred_ok w" and run: "observe_message sync su msg w = Some w'"
  shows "R w w'"
proof -
  define w1 where "w1 = (if sm_type msg = StreamSessionClose
      then (state_event EvContinuationReset (flush_batch_failures w))
             \<lparr>sw_continuation := ToolContinuationNone\<rparr> else w)"
  have R1: "R w w1"
    by (auto simp: w1_def refl routine_event_def intro!: then_mode then_event flush_failures)
  obtain ended w2 where eq: "apply_message su msg w1 = (ended, w2)" by fastforce
  then have R2: "R w w2" using trans [OF R1 applied [of w1 msg]] by simp
  define w4 where "w4 = state_event EvContinuationTaken (state_event EvAckTaken w2)"
  have R4: "R w w4" by (auto simp: w4_def routine_event_def intro!: then_event R2)
  define w5 where "w5 = (if ended then flush_held_audio su w4 else w4)"
  have R5: "R w w5" using R4 trans [OF R4 flush_held] by (simp add: w5_def)
  obtain w6 where w6: "(if fst (ack_take_ended (st_ack (sw_state w2))) \<or> ended
        then flush_deferred_events sync su w5 else Some w5) = Some w6"
      "w' = w6 \<or> w' = flush_batch_failures w6"
    using run eq unfolding observe_message_def w1_def [symmetric]
    by (auto simp: Let_def w4_def [symmetric] w5_def split: bind_splits if_splits)
  have "R w w6"
    using w6(1) R5 flush_deferred [OF sync deferred [OF R5 ok]] trans [OF R5]
    by (auto split: if_splits)
  then show ?thesis using w6(2) trans [OF _ flush_failures] by blast
qed

lemma drained: "drain_messages n su w = Some (b, w') \<Longrightarrow> deferred_ok w \<Longrightarrow> R w w'"
proof (induction n arbitrary: b w w')
  case (Suc n)
  obtain read w1 where polled: "poll_receive w = (read, w1)" by fastforce
  then have R1: "R w w1" using poll [of w] by simp
  show ?case
  proof (cases read)
    case None
    then show ?thesis using Suc.prems(1) polled R1 by simp
  next
    case (Some m)
    then obtain w2 b' where
        w2: "observe_message (\<lambda>v. map_option snd (drain_messages n su v)) su m w1 = Some w2"
      and rest: "drain_messages n su w2 = Some (b', w')"
      using Suc.prems(1) polled by (auto split: bind_splits)
    have "R w1 w2"
      by (rule observed [OF _ deferred [OF R1 Suc.prems(2)] w2]) (use Suc.IH in auto)
    then have "R w w2" by (rule trans [OF R1])
    then show ?thesis using Suc.IH [OF rest] deferred Suc.prems(2) trans by blast
  qed
qed simp

lemma pending_forwarded:
  "forward_pending_messages su w = Some (b, w') \<Longrightarrow> deferred_ok w \<Longrightarrow> R w w'"
  unfolding forward_pending_messages_def by (rule drained)

lemma synced: "runner_sync su w = Some w' \<Longrightarrow> deferred_ok w \<Longrightarrow> R w w'"
  by (auto simp: runner_sync_def dest: pending_forwarded)

end

text \<open>Inputs of the lanes: the priority lane carries cancels, a queued event is no raw audio.\<close>

definition lanes_ok :: "session_world \<Rightarrow> bool" where
  "lanes_ok w \<longleftrightarrow> deferred_ok w
     \<and> (\<forall>d \<in> set (ig_priority (sw_ingress w)). sm_type d = StreamResponseCancel)
     \<and> (\<forall>d. SessionEvent d \<in> set (ig_ordered (sw_ingress w)) \<longrightarrow> sm_type d \<noteq> StreamAudioDelta)"

definition report_consumed :: "session_input \<Rightarrow> session_world \<Rightarrow> session_world" where
  "report_consumed i w = w\<lparr>sw_ingress := count_control (- 1) i (sw_ingress w)\<rparr>"

locale runner_inputs = runner_effects su R for su R +
  fixes S :: "session_world \<Rightarrow> session_world \<Rightarrow> bool"
  assumes weaken: "R v w \<Longrightarrow> S v w"
    and input_trans: "S u v \<Longrightarrow> S v w \<Longrightarrow> S u w"
    and lanes: "S v w \<Longrightarrow> lanes_ok v \<Longrightarrow> lanes_ok w"
    and take_cancel: "take_priority w = Some (d, w1) \<Longrightarrow> S w w1"
    and take_control: "take_ordered w = Some (i, w1) \<Longrightarrow> is_control_input i \<Longrightarrow>
      S w (report_consumed i w1)"
    and take_audio: "take_ordered w = Some (SessionAudio pcm p, w1) \<Longrightarrow>
      R (report_consumed (SessionAudio pcm p) w1) w2 \<Longrightarrow>
      S w (snd (forward_session_audio su pcm p w2))"
begin

lemma lanes_deferred: "lanes_ok w \<Longrightarrow> deferred_ok w"
  by (simp add: lanes_ok_def)

lemma then_S: "S u v \<Longrightarrow> R v w \<Longrightarrow> S u w"
  using input_trans weaken by blast

lemma complete_message: "R w (snd (forward_complete_message c m request w))"
  using ask [of "WireMessage m True" w] ask [of "WireMessage m False" w]
  by (cases "session_ask (WireMessage m True) w"; cases "session_ask (WireMessage m False) w")
    (auto simp: forward_complete_message_def send_session_message_def send_silent_message_def
      audio_item_def refl split: bool.splits)

lemma input_forwarded:
  assumes took: "take_ordered w = Some (i, w1)" and ok: "lanes_ok w"
    and run: "forward_session_input su i w1 = Some (err, w')"
  shows "S w w'"
proof (cases i)
  case (SessionAudio pcm p)
  have ok1: "deferred_ok (report_consumed i w1)"
    using took ok by (auto simp: lanes_ok_def deferred_ok_def report_consumed_def take_ordered_def
        split: option.splits prod.splits)
  obtain b w2 where w2: "forward_pending_messages su (report_consumed i w1) = Some (b, w2)"
      and w': "w' = snd (forward_session_audio su pcm p w2)"
    using run SessionAudio
    by (auto simp: forward_session_input_def report_consumed_def split: bind_splits)
  show ?thesis
    using take_audio pending_forwarded [OF w2 ok1] took unfolding SessionAudio w' by blast
next
  case (SessionEvent evt)
  have control: "is_control_input i" using SessionEvent by (simp add: is_control_input_def)
  have S1: "S w (report_consumed i w1)" by (rule take_control [OF took control])
  have "SessionEvent evt \<in> set (ig_ordered (sw_ingress w))"
    using took SessionEvent
    by (auto simp: take_ordered_def ordered_take_simp split: option.splits)
  then have "sm_type evt \<noteq> StreamAudioDelta" using ok by (auto simp: lanes_ok_def)
  moreover have "forward_queued_event (runner_sync su) su evt (report_consumed i w1) = Some w'"
    using run SessionEvent
    by (auto simp: forward_session_input_def report_consumed_def split: bind_splits)
  ultimately show ?thesis
    using then_S [OF S1] queued [OF synced lanes_deferred [OF lanes [OF S1 ok]]] by blast
next
  case (SessionMessage m request)
  have control: "is_control_input i" using SessionMessage by (simp add: is_control_input_def)
  have "w' = snd (forward_complete_message (su_caps su) m request
      (flush_held_audio su (report_consumed i w1)))"
    using run SessionMessage by (simp add: forward_session_input_def report_consumed_def)
  then show ?thesis
    using then_S [OF then_S [OF take_control [OF took control] flush_held] complete_message] by simp
qed

lemma messages_and_cancels:
  assumes ok: "lanes_ok w" and run: "forward_messages_and_cancels su w = Some (seen, w')"
  shows "S w w'"
proof -
  obtain b w1 where w1: "forward_pending_messages su w = Some (b, w1)"
      and rest: "(if b then Some (True, w1)
        else (case take_priority w1 of
               Some (evt, w2) \<Rightarrow>
                 do { w3 \<leftarrow> forward_queued_event (runner_sync su) su evt w2; Some (True, w3) }
             | None \<Rightarrow> Some (False, w1))) = Some (seen, w')"
    using run by (auto simp: forward_messages_and_cancels_def split: bind_splits)
  have S1: "S w w1" by (rule weaken [OF pending_forwarded [OF w1 lanes_deferred [OF ok]]])
  show ?thesis
  proof (cases "b \<or> take_priority w1 = None")
    case True
    then show ?thesis using rest S1 by (auto split: if_splits)
  next
    case False
    then obtain evt w2 where took: "take_priority w1 = Some (evt, w2)" by auto
    have S2: "S w w2" by (rule input_trans [OF S1 take_cancel [OF took]])
    have "sm_type evt \<noteq> StreamAudioDelta"
      using took lanes [OF S1 ok] by (auto simp: take_priority_def lanes_ok_def split: list.splits)
    then show ?thesis
      using rest False took then_S [OF S2] queued [OF synced lanes_deferred [OF lanes [OF S2 ok]]]
      by (auto split: bind_splits)
  qed
qed

lemma inputs_forwarded:
  "lanes_ok w \<Longrightarrow> forward_inputs n su handled w = Some (out, w') \<Longrightarrow> S w w'"
proof (induction n arbitrary: handled w)
  case (Suc n)
  obtain seen w1 where w1: "forward_messages_and_cancels su w = Some (seen, w1)"
      and rest: "(if seen then forward_inputs n su True w1
        else (case take_ordered w1 of
               None \<Rightarrow> Some ((handled, None), w1)
             | Some (input, w2) \<Rightarrow> do {
                 (err, w3) \<leftarrow> forward_session_input su input w2;
                 (case err of
                    Some e \<Rightarrow> Some ((True, Some e), w3)
                  | None \<Rightarrow> forward_inputs n su True w3)
               })) = Some (out, w')"
    using Suc.prems(2) by (auto split: bind_splits)
  have S1: "S w w1" by (rule messages_and_cancels [OF Suc.prems(1) w1])
  have ok1: "lanes_ok w1" by (rule lanes [OF S1 Suc.prems(1)])
  consider (again) "forward_inputs n su True w1 = Some (out, w')"
    | (idle) "w' = w1"
    | (took) i w2 err w3 where "take_ordered w1 = Some (i, w2)"
        "forward_session_input su i w2 = Some (err, w3)"
        "w' = w3 \<or> forward_inputs n su True w3 = Some (out, w')"
    using rest by (auto split: if_splits option.splits bind_splits)
  then show ?case
  proof cases
    case again
    then show ?thesis using Suc.IH [OF ok1] input_trans [OF S1] by blast
  next
    case idle
    then show ?thesis using S1 by simp
  next
    case took
    have S3: "S w w3" by (rule input_trans [OF S1 input_forwarded [OF took(1) ok1 took(2)]])
    then show ?thesis
      using took(3) Suc.IH [OF lanes [OF S3 Suc.prems(1)]] input_trans [OF S3] by blast
  qed
qed simp

lemma pending_inputs:
  "lanes_ok w \<Longrightarrow> forward_pending_inputs su w = Some (out, w') \<Longrightarrow> S w w'"
  unfolding forward_pending_inputs_def by (rule inputs_forwarded)

lemma ending: "R w (snd (end_session su err w))"
  using trans [OF publish flush_failures] flush_failures
  by (auto simp: end_session_def split: option.split)

lemma finished: "finish_with su err w = Some (out, w') \<Longrightarrow> R w w'"
  using ending [of w err] by (auto simp: finish_with_def split: prod.splits)

lemma closed:
  assumes "lanes_ok w" "finish_closed_session su w = Some w'"
  shows "S w w'"
proof -
  obtain b w1 where w1: "forward_pending_messages su w = Some (b, w1)"
      and w': "w' = flush_batch_failures w1
        \<or> w' = write_session_delta (closing_delta (flush_batch_failures w1)) (flush_batch_failures w1)"
    using assms(2) by (auto simp: finish_closed_session_def Let_def split: bind_splits if_splits)
  have "R w w1" by (rule pending_forwarded [OF w1 lanes_deferred [OF assms(1)]])
  then show ?thesis using w' weaken trans [OF _ flush_failures] trans [OF _ write_delta(1)] by blast
qed

lemma expired:
  assumes ok: "lanes_ok w" and run: "expire_held_onset su w = Some (out, w')"
  shows "S w w'"
proof -
  obtain handled err w1 where w1: "forward_pending_inputs su w = Some ((handled, err), w1)"
      and w': "finish_with su err w1 = Some (out, w') \<or> w' = w1 \<or> w' = flush_held_audio su w1"
    using run by (auto simp: expire_held_onset_def Let_def split: bind_splits option.splits if_splits)
  have "S w w1" by (rule pending_inputs [OF ok w1])
  then show ?thesis using w' then_S finished flush_held by blast
qed

lemma user_text: "R w (snd (send_latest_user_text_only history w))"
  using send by (auto simp: send_latest_user_text_only_def mk_delta_def refl split: option.split)

lemma streamed_results: "R w (snd (send_results_as_stream history results w))"
proof (induction results arbitrary: w)
  case Nil
  show ?case by (simp add: send mk_delta_def)
next
  case (Cons r rs)
  let ?m = "mk_delta StreamToolCallEnd RoleUnset
      (VToolCallEnd (m_tool_call_id r) (session_tool_result_name history r) (text_content r))"
  obtain b w1 where sent: "session_send ?m w = (b, w1)" by fastforce
  then have "R w w1" using send [of ?m w] by (simp add: mk_delta_def)
  then show ?case using Cons.IH [of w1] trans sent by (auto simp: refl split: bool.split)
qed

lemma message_sent:
  "R w (snd (send_session_message c m w))" "R w (snd (send_silent_message c m w))"
  using ask [of "WireMessage m True" w] ask [of "WireMessage m False" w]
  by (cases "session_ask (WireMessage m True) w"; cases "session_ask (WireMessage m False) w";
      simp add: send_session_message_def send_silent_message_def audio_item_def refl)+

lemma complete_results: "R w (snd (send_complete_results c can_defer results w))"
proof (induction results arbitrary: w)
  case (Cons r rs)
  obtain b w1 where sent: "(if rs \<noteq> [] \<and> can_defer then send_silent_message c r w
      else send_session_message c r w) = (b, w1)" by fastforce
  have "R w w1" using message_sent [where w = w and m = r and c = c] sent by (auto split: if_splits)
  then show ?case using Cons.IH [of w1] trans sent by (auto split: bool.split)
qed (simp add: refl)

lemma tool_results: "R w (snd (send_latest_tool_results c history w))"
  using streamed_results [of w history "tool_result_suffix history"]
    complete_results [of w c "supports_silent_messages c" "tool_result_suffix history"]
  by (auto simp: send_latest_tool_results_def Let_def refl split: prod.split bool.split)

lemma response_requested: "R w (snd (request_session_response c w))"
  by (simp add: request_session_response_def refl ask audio_item_def)

lemma requested: "R w (send_latest_user_text c history w)"
proof -
  obtain delivery w1 where d: "send_latest_tool_results c history w = (delivery, w1)" by fastforce
  have R1: "R w w1" using tool_results [of w c history] d by simp
  obtain sent w2 where t: "send_latest_user_text_only history w1 = (sent, w2)" by fastforce
  have R2: "R w w2" using trans [OF R1] user_text [of w1 history] t by simp
  show ?thesis
    using R1 R2 trans [OF R2 response_requested] then_mode [OF R1]
    by (auto simp: send_latest_user_text_def d t split: tool_delivery.split)
qed

lemma awaited:
  assumes ok: "lanes_ok w" and run: "await_step su choice w = Some (out, w')"
  shows "S w w'"
proof (cases choice)
  case AwaitOrdered
  then show ?thesis
    using run input_forwarded [OF _ ok] then_S finished weaken refl
    by (fastforce split: option.splits bind_splits)
next
  case AwaitPriority
  show ?thesis
  proof (cases "take_priority w")
    case None
    then show ?thesis using run AwaitPriority weaken [OF refl] by simp
  next
    case (Some taken)
    then obtain evt w1 b w2 where took: "take_priority w = Some (evt, w1)"
        and pending: "forward_pending_messages su w1 = Some (b, w2)"
        and sent: "forward_queued_event (runner_sync su) su evt w2 = Some w'"
      using run AwaitPriority by (cases taken) (auto split: bind_splits)
    have S1: "S w w1" by (rule take_cancel [OF took])
    have S2: "S w w2" by (rule then_S [OF S1 pending_forwarded [OF pending lanes_deferred [OF lanes [OF S1 ok]]]])
    have "sm_type evt \<noteq> StreamAudioDelta"
      using took ok by (auto simp: take_priority_def lanes_ok_def split: list.splits)
    then show ?thesis
      using then_S [OF S2] queued [OF synced lanes_deferred [OF lanes [OF S2 ok]] _ sent] by blast
  qed
next
  case (AwaitRequest history)
  then show ?thesis using run weaken [OF finished] weaken [OF requested] weaken [OF refl]
    by (cases history) (auto split: if_splits)
next
  case AwaitExpiry
  then show ?thesis using run expired [OF ok] weaken [OF refl] by (auto split: if_splits)
next
  case (AwaitMessage m)
  then show ?thesis
    using run weaken [OF observed [OF synced lanes_deferred [OF ok]]] by (auto split: bind_splits)
next
  case AwaitSessionDone
  then show ?thesis using run closed [OF ok] by (auto split: bind_splits)
qed (use run weaken [OF finished] in auto)

lemma turn:
  assumes ok: "lanes_ok w" and run: "session_turn su overflow choice w = Some (out, w')"
  shows "S w w'"
proof (cases overflow)
  case None
  obtain handled err w1 where w1: "forward_pending_inputs su w = Some ((handled, err), w1)"
      and w': "finish_with su err w1 = Some (out, w') \<or> w' = w1 \<or> await_step su choice w1 = Some (out, w')"
    using run None by (auto simp: session_turn_def split: bind_splits option.splits if_splits)
  have S1: "S w w1" by (rule pending_inputs [OF ok w1])
  then show ?thesis using w' then_S finished awaited [OF lanes [OF S1 ok]] input_trans by blast
next
  case (Some e)
  then show ?thesis using run weaken finished by (auto simp: session_turn_def)
qed

end

section \<open>Relations that do not tell requests apart\<close>

locale uniform_effects =
  fixes su :: runner_setup and R :: "session_world \<Rightarrow> session_world \<Rightarrow> bool"
  assumes refl: "R w w"
    and trans: "R u v \<Longrightarrow> R v w \<Longrightarrow> R u w"
    and deferred: "R v w \<Longrightarrow> deferred_ok v \<Longrightarrow> deferred_ok w"
    and any_event: "routine_event ev \<or> ev = EvTakeFrames \<or> ev = EvHoldFrame pcm \<Longrightarrow>
      R w (state_event ev w)"
    and append_delta: "R w (w\<lparr>sw_deltas := sw_deltas w @ [d]\<rparr>)"
    and any_ask: "R w (snd (session_ask item w))"
    and mode: "R w (w\<lparr>sw_continuation := c\<rparr>)"
    and consume: "R w (w\<lparr>sw_ingress := tool_consumed (sw_ingress w)\<rparr>)"
    and playback: "R w (w\<lparr>sw_playing := rs\<rparr>)"
    and poll: "R w (snd (poll_receive w))"
begin

lemma any_send: "R w (snd (send_with_outcome c m w))"
  using any_ask [of w "WireSend m"]
  by (cases "session_ask (WireSend m) w") (auto simp: send_with_outcome_def session_send_def)

lemma user_audio: "R w (snd (forward_user_audio su pcm w))"
  using any_send [of w "su_caps su" "audio_message pcm"]
  by (simp add: forward_user_audio_def case_prod_beta)

lemma frames: "R w (snd (forward_frames su fs w))"
proof (induction fs arbitrary: w)
  case (Cons pcm fs)
  obtain e w1 where sent: "forward_user_audio su pcm w = (e, w1)" by fastforce
  have "R w w1" using user_audio [of w pcm] sent by simp
  then show ?case using Cons.IH [of w1] trans sent by (auto split: option.split)
qed (simp add: refl)

lemma releases: "R w (snd (release_held_audio su w))"
  unfolding release_held_audio_def by (rule trans [OF any_event frames]) simp

lemma barged: "R w (snd (barge_in su pcm w))"
proof -
  obtain reading w1 where r: "local_playback (su_caps su) (su_quiet su) w = (reading, w1)" by fastforce
  have R1: "R w w1"
    using r refl playback by (auto simp: local_playback_def split: if_splits list.splits)
  have R2: "R w (state_event (EvFrame l pcm rate sp ho) w1)" for l rate sp ho
    by (rule trans [OF R1 any_event]) (simp add: routine_event_def)
  have cancelled: "R v (snd (send_barge_in_cancel su keep v))" for keep v
    using any_send [of v "su_caps su" "barge_in_cancel keep"] trans [OF _ any_event [of EvCancelSent]]
    by (auto simp: send_barge_in_cancel_def routine_event_def split: prod.split)
  show ?thesis
    using trans [OF R2 cancelled] trans [OF R2 any_ask] trans [OF R2 any_event [of "EvHoldFrame pcm" pcm]] R2
    by (simp add: barge_in_def r Let_def case_prod_beta)
qed

lemma audio_forwarded: "R w (snd (forward_session_audio su pcm p w))"
proof -
  obtain held err w1 where b: "(if interrupts_response p \<and> \<not> full_duplex_session (su_caps su)
      then barge_in su pcm w else ((False, None), w)) = ((held, err), w1)" by (metis prod.collapse)
  have R1: "R w w1" using b barged [of w pcm] refl by (auto split: if_splits)
  show ?thesis
    using R1 trans [OF R1 releases] trans [OF trans [OF R1 releases] user_audio]
    by (auto simp: forward_session_audio_def b Let_def split: prod.split option.split)
qed

end

sublocale uniform_effects \<subseteq> effects: runner_effects
  by unfold_locales
    (rule refl, erule (1) trans, erule (1) deferred, rule any_event, simp, rule append_delta,
     rule any_ask, rule releases, rule mode, rule consume, rule poll)

locale uniform_inputs = uniform_effects su R for su R +
  fixes S :: "session_world \<Rightarrow> session_world \<Rightarrow> bool"
  assumes weaken: "R v w \<Longrightarrow> S v w"
    and input_trans: "S u v \<Longrightarrow> S v w \<Longrightarrow> S u w"
    and lanes: "S v w \<Longrightarrow> lanes_ok v \<Longrightarrow> lanes_ok w"
    and take_cancel: "take_priority w = Some (d, w1) \<Longrightarrow> S w w1"
    and take_input: "take_ordered w = Some (i, w1) \<Longrightarrow> S w (report_consumed i w1)"

sublocale uniform_inputs \<subseteq> inputs: runner_inputs
proof unfold_locales
  fix w pcm p w1 w2
  assume "take_ordered w = Some (SessionAudio pcm p, w1)" "R (report_consumed (SessionAudio pcm p) w1) w2"
  then show "S w (snd (forward_session_audio su pcm p w2))"
    using input_trans [OF take_input weaken] input_trans [OF _ weaken [OF audio_forwarded]] by blast
qed (erule weaken, erule (1) input_trans, erule (1) lanes, erule take_cancel, erule take_input)

section \<open>What the primitive actions leave alone\<close>

lemma ask_state [simp]:
  "sw_state (snd (session_ask item w)) = sw_state w"
  "sw_ingress (snd (session_ask item w)) = sw_ingress w"
  "sw_received (snd (session_ask item w)) = sw_received w"
  "sw_arrivals (snd (session_ask item w)) = sw_arrivals w"
  "sw_admitted (snd (session_ask item w)) = sw_admitted w"
  "sw_deltas (snd (session_ask item w)) = sw_deltas w"
  by (simp_all add: session_ask_def split: prod.split)

lemma event_world [simp]:
  "sw_ingress (state_event ev w) = sw_ingress w"
  "sw_wire (state_event ev w) = sw_wire w"
  "sw_received (state_event ev w) = sw_received w"
  "sw_arrivals (state_event ev w) = sw_arrivals w"
  "sw_admitted (state_event ev w) = sw_admitted w"
  "sw_deltas (state_event ev w) = sw_deltas w"
  by (simp_all add: state_event_def)

lemma poll_world [simp]:
  "sw_state (snd (poll_receive w)) = sw_state w"
  "sw_ingress (snd (poll_receive w)) = sw_ingress w"
  "sw_wire (snd (poll_receive w)) = sw_wire w"
  "sw_admitted (snd (poll_receive w)) = sw_admitted w"
  by (simp_all add: poll_receive_def Let_def split: list.split)

lemma event_deferred:
  assumes "routine_event ev \<or> ev = EvTakeFrames \<or> ev = EvHoldFrame pcm" "deferred_ok w"
  shows "deferred_ok (state_event ev w)"
  using assms
  by (cases ev)
    (auto simp: deferred_ok_def state_event_def routine_event_def start_response_def
       begin_response_def retire_response_def end_response_def note_cancel_sent_def
       hold_for_acknowledgement_def take_deferred_def take_failures_def Let_def
       split: prod.splits if_splits)

lemma taken_lanes:
  "take_priority w = Some (d, w1) \<Longrightarrow> lanes_ok w \<Longrightarrow> lanes_ok w1"
  "take_ordered w = Some (i, w1) \<Longrightarrow> lanes_ok w \<Longrightarrow> lanes_ok (report_consumed i w1)"
  by (auto simp: take_priority_def take_ordered_def ordered_take_simp lanes_ok_def deferred_ok_def
        report_consumed_def count_control_def split: list.splits option.splits)

lemma tool_consumed_lanes [simp]:
  "ig_ordered (tool_consumed q) = ig_ordered q" "ig_priority (tool_consumed q) = ig_priority q"
  by (simp_all add: tool_consumed_def)

section \<open>Rounds\<close>

text \<open>What an offer to the ingress does.\<close>

lemma offer_cases:
  obtains (refused) "ig_ordered (sw_ingress (offer_input i w)) = ig_ordered (sw_ingress w)"
      "ig_priority (sw_ingress (offer_input i w)) = ig_priority (sw_ingress w)"
      "sw_admitted (offer_input i w) = sw_admitted w"
  | (cancel) d where "i = SessionEvent d" "sm_type d = StreamResponseCancel"
      "ig_ordered (sw_ingress (offer_input i w)) = ig_ordered (sw_ingress w)"
      "ig_priority (sw_ingress (offer_input i w)) = ig_priority (sw_ingress w) @ [d]"
      "sw_admitted (offer_input i w) = sw_admitted w @ [i]"
  | (queued) "ig_ordered (sw_ingress (offer_input i w)) = ig_ordered (sw_ingress w) @ [i]"
      "ig_priority (sw_ingress (offer_input i w)) = ig_priority (sw_ingress w)"
      "sw_admitted (offer_input i w) = sw_admitted w @ [i]"
proof -
  let ?q = "sw_ingress w"
  have pushed: "(\<exists>e q. ingress_push None None AdmitOrFail 0 i (count_control 1 i ?q) = Some (Some e, q)
        \<and> ig_ordered q = ig_ordered ?q \<and> ig_priority q = ig_priority ?q)
      \<or> (\<exists>q. ingress_push None None AdmitOrFail 0 i (count_control 1 i ?q) = Some (None, q)
        \<and> ig_ordered q = ig_ordered ?q @ [i] \<and> ig_priority q = ig_priority ?q)"
    by (auto simp: ingress_push_def ingress_send_def ctx_done_def ordered_send_def count_control_def
          tool_queued_def tool_consumed_def Let_def)
  show ?thesis
  proof (cases "\<exists>d q. i = SessionEvent d \<and> admit_priority_cancel d ?q = (True, q)")
    case True
    then obtain d q where "i = SessionEvent d" "admit_priority_cancel d ?q = (True, q)" by blast
    then show ?thesis
      using cancel [of d]
      by (auto simp: offer_input_def enqueue_session_input_def ingress_admit_def admit_priority_cancel_def
            may_overtake_def priority_send_simp Let_def split: if_splits option.splits)
  next
    case False
    then have lane: "(case i of SessionEvent d \<Rightarrow> admit_priority_cancel d ?q | _ \<Rightarrow> (False, ?q)) = (False, ?q)"
      by (auto simp: admit_priority_cancel_def split: session_input.splits option.splits if_splits)
    show ?thesis
      using pushed refused queued
      by (auto simp: offer_input_def enqueue_session_input_def ingress_admit_def lane count_control_def
            split: if_splits)
  qed
qed

lemma offer_world [simp]:
  "sw_state (offer_input i w) = sw_state w" "sw_wire (offer_input i w) = sw_wire w"
  "sw_received (offer_input i w) = sw_received w" "sw_arrivals (offer_input i w) = sw_arrivals w"
  "sw_deltas (offer_input i w) = sw_deltas w"
  by (simp_all add: offer_input_def split: option.split prod.split)

definition plain_inputs :: "session_input list \<Rightarrow> bool" where
  "plain_inputs is \<longleftrightarrow> (\<forall>d. SessionEvent d \<in> set is \<longrightarrow> sm_type d \<noteq> StreamAudioDelta)"

lemma offer_lanes:
  assumes "lanes_ok w" "\<forall>d. i = SessionEvent d \<longrightarrow> sm_type d \<noteq> StreamAudioDelta"
  shows "lanes_ok (offer_input i w)"
  by (cases rule: offer_cases [of i w]) (use assms in \<open>auto simp: lanes_ok_def deferred_ok_def\<close>)

lemma offers_kept:
  "sw_state (fold offer_input is w) = sw_state w \<and> sw_wire (fold offer_input is w) = sw_wire w
   \<and> (plain_inputs is \<longrightarrow> lanes_ok w \<longrightarrow> lanes_ok (fold offer_input is w))"
proof (induction "is" arbitrary: w)
  case (Cons i "is")
  show ?case using Cons [of "offer_input i w"] offer_lanes [of w i] by (auto simp: plain_inputs_def)
qed simp

lemma round_started:
  assumes "lanes_ok w" "plain_inputs (rr_offers r)"
  shows "sw_state (start_round r w) = sw_state w" "sw_wire (start_round r w) = sw_wire w"
    "lanes_ok (start_round r w)"
proof -
  have "lanes_ok (w\<lparr>sw_arrivals := sw_arrivals w @ rr_batches r\<rparr>)"
    using assms(1) by (simp add: lanes_ok_def deferred_ok_def)
  then show "sw_state (start_round r w) = sw_state w" "sw_wire (start_round r w) = sw_wire w"
    "lanes_ok (start_round r w)"
    using offers_kept [of "rr_offers r" "w\<lparr>sw_arrivals := sw_arrivals w @ rr_batches r\<rparr>"] assms(2)
    by (simp_all add: start_round_def)
qed

definition plain_rounds :: "runner_round list \<Rightarrow> bool" where
  "plain_rounds rs \<longleftrightarrow> (\<forall>r \<in> set rs. plain_inputs (rr_offers r))"

text \<open>A relation kept by a round's start and by a turn is kept by every run of the loop.\<close>

lemma run_turns_induct:
  assumes turn: "\<And>r w out w'. P w \<Longrightarrow> plain_inputs (rr_offers r) \<Longrightarrow>
        session_turn su (rr_overflow r) (rr_choice r) (start_round r w) = Some (out, w') \<Longrightarrow> P w'"
    and run: "run_turns su rs w = Some (out, w')" "plain_rounds rs" "P w"
  shows "P w'"
  using run
proof (induction rs arbitrary: w)
  case (Cons r rs)
  then obtain step w1 where
      "session_turn su (rr_overflow r) (rr_choice r) (start_round r w) = Some (step, w1)"
      "w' = w1 \<or> run_turns su rs w1 = Some (out, w')"
    by (auto split: bind_splits loop_step.splits)
  then show ?case using turn Cons.IH [of w1] Cons.prems(2,3) by (auto simp: plain_rounds_def)
qed simp

lemma lanes_new [simp]: "lanes_ok (new_session_world c outs rds)"
  by (simp add: lanes_ok_def deferred_ok_def new_session_world_def new_session_state_def new_ingress_def)

section \<open>A setup to evaluate\<close>

text \<open>A session with no optional capability, and the setup of a runner over one.\<close>

definition bare_session :: session_caps where
  "bare_session = \<lparr>cp_outcomes = True, cp_turn_detection = None, cp_full_duplex = None,
     cp_playback = False, cp_input_rate = Some 100, cp_syncs = False, cp_config_sent = None,
     cp_message_capability = None, cp_message_sender = False, cp_silent_sender = False,
     cp_response_capability = None, cp_response_requester = False, cp_terminal_error = None,
     cp_flush_answer = None, cp_drops = None, cp_media_capability = None, cp_media = False\<rparr>"

definition bare_setup :: runner_setup where
  "bare_setup = \<lparr>su_caps = bare_session, su_config = None, su_tuning = None,
     su_quiet = (\<lambda>pcm. pcm \<noteq> []), su_render = (\<lambda>e. '''')\<rparr>"

text \<open>
  A live response, a quiet frame, a loud frame that is held, and the loud frame that completes the
  onset; then the response's end.
\<close>

definition live_rounds :: "runner_round list" where
  "live_rounds =
     [\<lparr>rr_offers = [SessionAudio [0, 0, 0, 0] PolicyDefault],
        rr_batches = [[(mk_delta StreamMessageStart RoleAssistant VMessageStart)\<lparr>sm_response_id := ''r1''\<rparr>]],
        rr_overflow = None, rr_choice = AwaitOrdered\<rparr>,
      \<lparr>rr_offers = [SessionAudio [1, 2, 3, 4] PolicyDefault], rr_batches = [], rr_overflow = None,
        rr_choice = AwaitExpiry\<rparr>]"

definition live_setup :: runner_setup where
  "live_setup = bare_setup\<lparr>su_quiet := (\<lambda>pcm. pcm \<noteq> [0, 0, 0, 0])\<rparr>"

end
