(* ===== verification/Runner_Laws.thy ===== *)
theory Runner_Laws
  imports Runner_Effects
begin

text \<open>
  The laws of the session runner: its state moves by the events of the session state alone, every
  call of it returns, no accepted user audio is lost or reordered, and barge-in sends its cancel
  first.
\<close>

section \<open>The runner moves the session state by its events\<close>

definition state_steps :: "session_world \<Rightarrow> session_world \<Rightarrow> bool" where
  "state_steps v w \<longleftrightarrow> (\<exists>evs. sw_state w = session_run evs (sw_state v))"

lemma state_steps_refl: "state_steps w w"
  by (auto simp: state_steps_def intro: exI [of _ "[]"])

lemma state_steps_trans: "state_steps u v \<Longrightarrow> state_steps v w \<Longrightarrow> state_steps u w"
proof -
  assume "state_steps u v" "state_steps v w"
  then obtain es fs where "sw_state v = session_run es (sw_state u)" "sw_state w = session_run fs (sw_state v)"
    by (auto simp: state_steps_def)
  then have "sw_state w = session_run (es @ fs) (sw_state u)" by (simp add: session_run_def)
  then show "state_steps u w" by (auto simp: state_steps_def)
qed

lemma state_step: "state_steps w (state_event ev w)"
  by (auto simp: state_steps_def state_event_def intro!: exI [of _ "[ev]"])

lemma state_same: "sw_state w = sw_state v \<Longrightarrow> state_steps v w"
  by (auto simp: state_steps_def intro!: exI [of _ "[]"])

lemma deferred_same: "st_deferred (sw_state w) = st_deferred (sw_state v) \<Longrightarrow> deferred_ok w = deferred_ok v"
  by (simp add: deferred_ok_def)

lemma taken_state:
  "take_priority w = Some (d, w1) \<Longrightarrow> sw_state w1 = sw_state w"
  "take_ordered w = Some (i, w1) \<Longrightarrow> sw_state (report_consumed i w1) = sw_state w"
  by (auto simp: take_priority_def take_ordered_def report_consumed_def split: list.splits option.splits)

definition core_steps :: "session_world \<Rightarrow> session_world \<Rightarrow> bool" where
  "core_steps v w \<longleftrightarrow> (deferred_ok v \<longrightarrow> deferred_ok w)
     \<and> ig_ordered (sw_ingress w) = ig_ordered (sw_ingress v)
     \<and> ig_priority (sw_ingress w) = ig_priority (sw_ingress v) \<and> state_steps v w"

definition loop_steps :: "session_world \<Rightarrow> session_world \<Rightarrow> bool" where
  "loop_steps v w \<longleftrightarrow> (lanes_ok v \<longrightarrow> lanes_ok w) \<and> state_steps v w"

lemma core_same:
  "sw_state w = sw_state v \<Longrightarrow> ig_ordered (sw_ingress w) = ig_ordered (sw_ingress v) \<Longrightarrow>
   ig_priority (sw_ingress w) = ig_priority (sw_ingress v) \<Longrightarrow> core_steps v w"
  by (simp add: core_steps_def state_same deferred_ok_def)

interpretation steps: uniform_inputs su core_steps loop_steps for su
proof unfold_locales
  fix u v w
  show "core_steps u v \<Longrightarrow> core_steps v w \<Longrightarrow> core_steps u w"
    unfolding core_steps_def using state_steps_trans by simp blast
  show "loop_steps u v \<Longrightarrow> loop_steps v w \<Longrightarrow> loop_steps u w"
    unfolding loop_steps_def using state_steps_trans by blast
next
  fix ev pcm and w :: session_world
  assume "routine_event ev \<or> ev = EvTakeFrames \<or> ev = EvHoldFrame pcm"
  then show "core_steps w (state_event ev w)"
    using event_deferred state_step by (auto simp: core_steps_def)
next
  fix w d w1
  assume "take_priority w = Some (d, w1)"
  then show "loop_steps w w1"
    using taken_lanes(1) taken_state(1) state_same unfolding loop_steps_def by blast
next
  fix w i w1
  assume "take_ordered w = Some (i, w1)"
  then show "loop_steps w (report_consumed i w1)"
    using taken_lanes(2) taken_state(2) state_same unfolding loop_steps_def by blast
next
  fix v w
  show "core_steps v w \<Longrightarrow> loop_steps v w" "core_steps v w \<Longrightarrow> deferred_ok v \<Longrightarrow> deferred_ok w"
    by (simp_all add: core_steps_def loop_steps_def lanes_ok_def)
  show "loop_steps v w \<Longrightarrow> lanes_ok v \<Longrightarrow> lanes_ok w" by (simp add: loop_steps_def)
qed (rule core_same; simp)+

text \<open>
  Whatever the provider sends and answers, however rounds and inputs interleave, the runner
  changes its session state by the operations of \<^verbatim>\<open>Session_State\<close> alone, so the session invariant
  and the laws of those runs hold of it. Which operation a message or an input performs is the
  matter of \<^verbatim>\<open>Runner_Control\<close>.
\<close>

lemma runner_refines_session_events:
  assumes "run_turns su rounds (new_session_world c outcomes readings) = Some (out, w)"
    and "plain_rounds rounds"
  shows "(\<exists>evs. sw_state w = session_run evs new_session_state) \<and> session_ok (sw_state w)"
proof -
  have "lanes_ok w \<and> state_steps (new_session_world c outcomes readings) w"
  proof (rule run_turns_induct [OF _ assms])
    fix r v out v'
    assume v: "lanes_ok v \<and> state_steps (new_session_world c outcomes readings) v"
      and r: "plain_inputs (rr_offers r)"
      and "session_turn su (rr_overflow r) (rr_choice r) (start_round r v) = Some (out, v')"
    moreover have "lanes_ok (start_round r v)" "sw_state (start_round r v) = sw_state v"
      using round_started v r by simp_all
    ultimately have "loop_steps (start_round r v) v'" "lanes_ok (start_round r v)"
        "state_steps v (start_round r v)"
      using steps.inputs.turn state_same by blast+
    then show "lanes_ok v' \<and> state_steps (new_session_world c outcomes readings) v'"
      using v state_steps_trans unfolding loop_steps_def by blast
  qed (simp add: state_steps_refl)
  then obtain evs where "sw_state w = session_run evs new_session_state"
    by (auto simp: state_steps_def new_session_world_def)
  then show ?thesis using session_run_ok [OF session_ok_new] by auto
qed

section \<open>No accepted audio is lost\<close>

fun item_frames :: "wire_item \<Rightarrow> byte list list" where
  "item_frames (WireSend m) =
     (if sm_type m = StreamAudioDelta
      then (case sm_value m of Some (VAudioDelta pcm _) \<Rightarrow> [pcm] | _ \<Rightarrow> []) else [])"
| "item_frames _ = []"

definition sent_audio :: "session_world \<Rightarrow> byte list list" where
  "sent_audio w = concat (map (item_frames \<circ> fst) (sw_wire w))"

definition held_audio :: "session_world \<Rightarrow> byte list list" where
  "held_audio w = on_frames (st_onset (sw_state w))"

definition input_frames :: "session_input list \<Rightarrow> byte list list" where
  "input_frames is = concat (map (\<lambda>i. case i of SessionAudio pcm _ \<Rightarrow> [pcm] | _ \<Rightarrow> []) is)"

text \<open>The requests whose refusal ends the runner's audio: user audio and cancels.\<close>

definition vital_item :: "wire_item \<Rightarrow> bool" where
  "vital_item item = (case item of
     WireSend m \<Rightarrow> sm_type m = StreamAudioDelta \<or> sm_type m = StreamResponseCancel | _ \<Rightarrow> False)"

definition vital_failed :: "session_world \<Rightarrow> bool" where
  "vital_failed w \<longleftrightarrow> (\<exists>x \<in> set (sw_wire w). vital_item (fst x) \<and> \<not> send_ok (snd x))"

definition core_audio :: "session_world \<Rightarrow> session_world \<Rightarrow> bool" where
  "core_audio v w \<longleftrightarrow> (deferred_ok v \<longrightarrow> deferred_ok w)
     \<and> ig_ordered (sw_ingress w) = ig_ordered (sw_ingress v)
     \<and> ig_priority (sw_ingress w) = ig_priority (sw_ingress v)
     \<and> sw_admitted w = sw_admitted v
     \<and> (\<not> vital_failed w \<longrightarrow> \<not> vital_failed v
          \<and> sent_audio w @ held_audio w = sent_audio v @ held_audio v)"

definition audio_line :: "session_world \<Rightarrow> byte list list" where
  "audio_line w = sent_audio w @ held_audio w @ input_frames (ig_ordered (sw_ingress w))"

definition loop_audio :: "session_world \<Rightarrow> session_world \<Rightarrow> bool" where
  "loop_audio v w \<longleftrightarrow> (lanes_ok v \<longrightarrow> lanes_ok w) \<and> sw_admitted w = sw_admitted v
     \<and> (\<not> vital_failed w \<longrightarrow> \<not> vital_failed v \<and> audio_line w = audio_line v)"

lemma audio_same:
  "sw_state w = sw_state v \<Longrightarrow> sw_wire w = sw_wire v \<Longrightarrow> sw_admitted w = sw_admitted v \<Longrightarrow>
   ig_ordered (sw_ingress w) = ig_ordered (sw_ingress v) \<Longrightarrow>
   ig_priority (sw_ingress w) = ig_priority (sw_ingress v) \<Longrightarrow> core_audio v w"
  by (simp add: core_audio_def deferred_ok_def vital_failed_def sent_audio_def held_audio_def)

lemma core_audioD:
  assumes "core_audio v w"
  shows "deferred_ok v \<Longrightarrow> deferred_ok w" "ig_ordered (sw_ingress w) = ig_ordered (sw_ingress v)"
    "ig_priority (sw_ingress w) = ig_priority (sw_ingress v)" "sw_admitted w = sw_admitted v"
    "lanes_ok v \<Longrightarrow> lanes_ok w" "\<not> vital_failed w \<Longrightarrow> \<not> vital_failed v"
    "\<not> vital_failed w \<Longrightarrow> sent_audio w @ held_audio w = sent_audio v @ held_audio v"
  using assms unfolding core_audio_def lanes_ok_def by simp_all

lemma core_audio_trans: "core_audio u v \<Longrightarrow> core_audio v w \<Longrightarrow> core_audio u w"
  by (simp add: core_audio_def)

lemma routine_frames: "routine_event ev \<Longrightarrow> on_frames (st_onset (session_apply ev s)) = on_frames (st_onset s)"
  by (cases ev)
    (auto simp: routine_event_def start_response_def begin_response_def retire_response_def
       end_response_def note_cancel_sent_def hold_for_acknowledgement_def take_deferred_def
       take_failures_def detector_observe_def Let_def split: prod.splits if_splits)

lemma routine_audio: "routine_event ev \<Longrightarrow> core_audio w (state_event ev w)"
  using event_deferred [of ev "[]" w] routine_frames [of ev "sw_state w"]
  by (simp add: core_audio_def vital_failed_def sent_audio_def held_audio_def)
    (simp add: state_event_def)

text \<open>A request to the session is logged with its outcome, and nothing else changes.\<close>

lemma send_logged:
  assumes "send_with_outcome c m w = (out, w')"
  obtains raw where "sw_wire w' = sw_wire w @ [(WireSend m, raw)]" "send_ok out = send_ok raw"
    "sw_state w' = sw_state w" "sw_ingress w' = sw_ingress w" "sw_admitted w' = sw_admitted w"
proof -
  obtain raw w1 where asked: "session_ask (WireSend m) w = (raw, w1)" by fastforce
  have logged: "sw_wire w1 = sw_wire w @ [(WireSend m, raw)]" "sw_state w1 = sw_state w"
      "sw_ingress w1 = sw_ingress w" "sw_admitted w1 = sw_admitted w"
    using asked ask_state [of "WireSend m" w]
    by (auto simp: session_ask_def split: list.splits prod.splits)
  have "w' = w1" "send_ok out = send_ok raw"
    using assms asked
    by (auto simp: send_with_outcome_def session_send_def send_context_or_failure_def plain_outcome_def
          send_ok_def Let_def split: if_splits option.splits)
  then show ?thesis using that logged by blast
qed

lemma audio_message_fields [simp]:
  "sm_type (audio_message pcm) = StreamAudioDelta" "sm_value (audio_message pcm) = Some (VAudioDelta pcm [])"
  by (simp_all add: audio_message_def mk_delta_def)

lemma frames_sent:
  assumes "forward_frames su fs w = (err, w')"
  shows "sw_state w' = sw_state w \<and> sw_ingress w' = sw_ingress w \<and> sw_admitted w' = sw_admitted w
    \<and> (err \<noteq> None \<longrightarrow> vital_failed w')
    \<and> (\<not> vital_failed w' \<longrightarrow> \<not> vital_failed w \<and> sent_audio w' = sent_audio w @ fs)"
  using assms
proof (induction fs arbitrary: w)
  case (Cons pcm fs)
  obtain out w1 where sent: "send_with_outcome (su_caps su) (audio_message pcm) w = (out, w1)"
    by fastforce
  then obtain raw where logged: "sw_wire w1 = sw_wire w @ [(WireSend (audio_message pcm), raw)]"
      "send_ok out = send_ok raw" "sw_state w1 = sw_state w" "sw_ingress w1 = sw_ingress w"
      "sw_admitted w1 = sw_admitted w"
    by (rule send_logged)
  show ?case
  proof (cases "send_ok out")
    case True
    then have "forward_frames su fs w1 = (err, w')"
      using Cons.prems sent by (simp add: forward_user_audio_def)
    then show ?thesis
      using Cons.IH [of w1] logged True by (auto simp: sent_audio_def vital_failed_def vital_item_def)
  next
    case False
    then show ?thesis
      using Cons.prems sent logged by (auto simp: forward_user_audio_def vital_failed_def vital_item_def)
  qed
qed simp

lemma release_audio:
  assumes "release_held_audio su w = (err, w')"
  shows "core_audio w w'" "held_audio w' = []" "err \<noteq> None \<Longrightarrow> vital_failed w'"
proof -
  have "sw_state w' = sw_state (state_event EvTakeFrames w) \<and> sw_ingress w' = sw_ingress w
    \<and> sw_admitted w' = sw_admitted w \<and> (err \<noteq> None \<longrightarrow> vital_failed w')
    \<and> (\<not> vital_failed w' \<longrightarrow> \<not> vital_failed (state_event EvTakeFrames w)
         \<and> sent_audio w' = sent_audio (state_event EvTakeFrames w) @ held_audio w)"
    using frames_sent [of su "fst (onset_take (st_onset (sw_state w)))" "state_event EvTakeFrames w"]
      assms by (simp add: release_held_audio_def onset_take_def held_audio_def)
  then show "core_audio w w'" "held_audio w' = []" "err \<noteq> None \<Longrightarrow> vital_failed w'"
    by (auto simp: core_audio_def deferred_ok_def state_event_def held_audio_def onset_take_def
          sent_audio_def vital_failed_def)
qed

lemma other_ask: "\<not> audio_item item \<Longrightarrow> core_audio w (snd (session_ask item w))"
  by (cases item)
    (auto simp: core_audio_def session_ask_def deferred_ok_def vital_failed_def sent_audio_def
       held_audio_def audio_item_def split: prod.splits list.splits)

text \<open>One interrupting frame: held, refused with its cancel, or to be sent now.\<close>

lemma barge_in_audio:
  assumes "barge_in su pcm w = ((held, err), w')"
  shows "err \<noteq> None \<longrightarrow> vital_failed w'"
    and "held \<longrightarrow> err = None \<and> core_audio w (w'\<lparr>sw_state := sw_state w\<rparr>)
           \<and> deferred_ok w' = deferred_ok w \<and> held_audio w' = held_audio w @ [pcm]"
    and "\<not> held \<longrightarrow> core_audio w w'"
proof -
  obtain reading w1 where r: "local_playback (su_caps su) (su_quiet su) w = (reading, w1)" by fastforce
  have same: "sw_state w1 = sw_state w" "sw_wire w1 = sw_wire w" "sw_ingress w1 = sw_ingress w"
      "sw_admitted w1 = sw_admitted w"
    using r by (auto simp: local_playback_def split: if_splits list.splits)
  define w2 where "w2 = state_event (EvFrame (pr_loud reading pcm) pcm (input_sample_rate (su_caps su))
      (bi_min_speech (barge_in_tuning_of su)) (bi_hangover (barge_in_tuning_of su))) w1"
  have R1: "core_audio w w1" by (rule audio_same) (use same in simp_all)
  have R2: "core_audio w w2"
    using core_audio_trans [OF R1 routine_audio] by (simp add: w2_def routine_event_def)
  have frames: "held_audio w2 = held_audio w" "deferred_ok w2 = deferred_ok w" "sw_wire w2 = sw_wire w"
      "sw_ingress w2 = sw_ingress w" "sw_admitted w2 = sw_admitted w"
    using same by (simp_all add: w2_def held_audio_def deferred_ok_def state_event_def
        detector_observe_def Let_def)
  consider (cancel) keep where "held = False" "send_barge_in_cancel su keep w2 = (err, w')"
    | (playback) "held = False" "err = None" "w' = snd (session_ask WireInterruptPlayback w2)"
    | (hold) "held" "err = None" "w' = state_event (EvHoldFrame pcm) w2"
    | (pass) "held = False" "err = None" "w' = w2"
    using assms unfolding barge_in_def r Let_def prod.case w2_def [symmetric]
    by (auto split: if_splits prod.splits)
  then have "(err \<noteq> None \<longrightarrow> vital_failed w')
    \<and> (held \<longrightarrow> err = None \<and> core_audio w (w'\<lparr>sw_state := sw_state w\<rparr>)
           \<and> deferred_ok w' = deferred_ok w \<and> held_audio w' = held_audio w @ [pcm])
    \<and> (\<not> held \<longrightarrow> core_audio w w')"
  proof cases
    case cancel
    obtain out w3 where sent: "send_with_outcome (su_caps su) (barge_in_cancel keep) w2 = (out, w3)"
      by fastforce
    then obtain raw where logged: "sw_wire w3 = sw_wire w2 @ [(WireSend (barge_in_cancel keep), raw)]"
        "send_ok out = send_ok raw" "sw_state w3 = sw_state w2" "sw_ingress w3 = sw_ingress w2"
        "sw_admitted w3 = sw_admitted w2"
      by (rule send_logged)
    have R3: "core_audio w2 w3"
      using logged
      by (auto simp: core_audio_def deferred_ok_def vital_failed_def sent_audio_def held_audio_def
            barge_in_cancel_def mk_delta_def)
    have "core_audio w3 (state_event EvCancelSent w3)"
      by (rule routine_audio) (simp add: routine_event_def)
    then show ?thesis
      using cancel sent logged core_audio_trans [OF R2 R3] core_audio_trans
      by (auto simp: send_barge_in_cancel_def vital_failed_def vital_item_def barge_in_cancel_def
            mk_delta_def split: if_splits)
  next
    case playback
    then show ?thesis using core_audio_trans [OF R2 other_ask] by (simp add: audio_item_def)
  next
    case hold
    then show ?thesis
      using frames
      by (auto simp: core_audio_def held_audio_def deferred_ok_def state_event_def onset_hold_def
            vital_failed_def sent_audio_def Let_def)
  next
    case pass
    then show ?thesis using R2 by simp
  qed
  then show "err \<noteq> None \<longrightarrow> vital_failed w'"
    and "held \<longrightarrow> err = None \<and> core_audio w (w'\<lparr>sw_state := sw_state w\<rparr>)
           \<and> deferred_ok w' = deferred_ok w \<and> held_audio w' = held_audio w @ [pcm]"
    and "\<not> held \<longrightarrow> core_audio w w'" by blast+
qed

lemma audio_taken:
  assumes took: "take_ordered w = Some (i, w1)"
  shows "lanes_ok w \<longrightarrow> lanes_ok (report_consumed i w1)"
    and "sw_admitted (report_consumed i w1) = sw_admitted w"
    and "vital_failed (report_consumed i w1) = vital_failed w"
    and "sent_audio (report_consumed i w1) = sent_audio w"
    and "held_audio (report_consumed i w1) = held_audio w"
    and "input_frames (ig_ordered (sw_ingress w)) =
           input_frames [i] @ input_frames (ig_ordered (sw_ingress (report_consumed i w1)))"
  using took taken_lanes(2) [OF took]
  by (auto simp: take_ordered_def ordered_take_simp report_consumed_def count_control_def
        vital_failed_def sent_audio_def held_audio_def input_frames_def
        split: option.splits prod.splits)

lemma user_audio_sent:
  assumes "forward_user_audio su pcm w = (err, w')"
  shows "sw_state w' = sw_state w \<and> sw_ingress w' = sw_ingress w \<and> sw_admitted w' = sw_admitted w
    \<and> (\<not> vital_failed w' \<longrightarrow> \<not> vital_failed w \<and> sent_audio w' = sent_audio w @ [pcm])"
proof -
  have "\<exists>e. forward_frames su [pcm] w = (e, w')" using assms by (cases err) auto
  then show ?thesis using frames_sent [of su "[pcm]" w] by auto
qed

text \<open>A taken frame ends on the wire or held behind the frames before it, unless a send failed.\<close>

lemma audio_input_kept:
  assumes run: "forward_session_audio su pcm p w = (err, w')"
  shows "(lanes_ok w \<longrightarrow> lanes_ok w') \<and> ig_ordered (sw_ingress w') = ig_ordered (sw_ingress w)
    \<and> sw_admitted w' = sw_admitted w
    \<and> (\<not> vital_failed w' \<longrightarrow> \<not> vital_failed w
         \<and> sent_audio w' @ held_audio w' = sent_audio w @ held_audio w @ [pcm])"
proof -
  obtain held e1 w1 where b: "(if interrupts_response p \<and> \<not> full_duplex_session (su_caps su)
      then barge_in su pcm w else ((False, None), w)) = ((held, e1), w1)" by (metis prod.collapse)
  have err1: "e1 \<noteq> None \<longrightarrow> vital_failed w1"
    and held1: "held \<longrightarrow> e1 = None \<and> core_audio w (w1\<lparr>sw_state := sw_state w\<rparr>)
           \<and> deferred_ok w1 = deferred_ok w \<and> held_audio w1 = held_audio w @ [pcm]"
    and core1: "\<not> held \<longrightarrow> core_audio w w1"
    using b barge_in_audio [of su pcm w held e1 w1] audio_same [of w w]
    by (auto split: if_splits)
  obtain e2 w2 where r: "release_held_audio su w1 = (e2, w2)" by fastforce
  show ?thesis
  proof (cases "held \<or> e1 \<noteq> None")
    case True
    then have "w' = w1" using run by (auto simp: forward_session_audio_def b)
    then show ?thesis
      using held1 core1 err1 True
      by (auto simp: core_audio_def lanes_ok_def deferred_ok_def vital_failed_def sent_audio_def
            held_audio_def)
  next
    case False
    then have core2: "core_audio w w2"
      using core1 core_audio_trans release_audio(1) [OF r] by blast
    show ?thesis
    proof (cases e2)
      case (Some e)
      then have "w' = w2" "vital_failed w'"
        using run False r release_audio(3) [OF r] by (auto simp: forward_session_audio_def b)
      then show ?thesis using core2 by (auto simp: core_audio_def lanes_ok_def)
    next
      case None
      then have "forward_user_audio su pcm w2 = (err, w')"
        using run False r by (auto simp: forward_session_audio_def b)
      then show ?thesis
        using user_audio_sent [of su pcm w2 err w'] core2 release_audio(2) [OF r]
        by (auto simp: core_audio_def lanes_ok_def deferred_ok_def held_audio_def)
    qed
  qed
qed

interpretation audio: runner_inputs su core_audio loop_audio for su
proof unfold_locales
  fix u v w :: session_world
  show "core_audio u v \<Longrightarrow> core_audio v w \<Longrightarrow> core_audio u w" by (rule core_audio_trans)
  show "loop_audio u v \<Longrightarrow> loop_audio v w \<Longrightarrow> loop_audio u w" by (simp add: loop_audio_def)
  show "core_audio v w \<Longrightarrow> deferred_ok v \<Longrightarrow> deferred_ok w" by (simp add: core_audio_def)
  show "loop_audio v w \<Longrightarrow> lanes_ok v \<Longrightarrow> lanes_ok w" by (simp add: loop_audio_def)
  show "core_audio v w \<Longrightarrow> loop_audio v w"
    by (auto simp: core_audio_def loop_audio_def lanes_ok_def audio_line_def)
next
  fix ev and w :: session_world
  show "routine_event ev \<Longrightarrow> core_audio w (state_event ev w)" by (rule routine_audio)
next
  fix item and w :: session_world
  show "\<not> audio_item item \<Longrightarrow> core_audio w (snd (session_ask item w))" by (rule other_ask)
next
  fix w :: session_world
  show "core_audio w (snd (release_held_audio su w))"
    by (rule release_audio(1) [OF prod.collapse [symmetric]])
next
  fix w w1 d
  assume "take_priority w = Some (d, w1)"
  then show "loop_audio w w1"
    using taken_lanes(1) [of w d w1]
    by (auto simp: take_priority_def loop_audio_def audio_line_def vital_failed_def sent_audio_def
          held_audio_def split: list.splits)
next
  fix w w1 i
  assume "take_ordered w = Some (i, w1)" "is_control_input i"
  then show "loop_audio w (report_consumed i w1)"
    using audio_taken [of w i w1]
    by (cases i) (auto simp: loop_audio_def audio_line_def input_frames_def is_control_input_def)
next
  fix w w1 w2 pcm p
  assume took: "take_ordered w = Some (SessionAudio pcm p, w1)"
    and core: "core_audio (report_consumed (SessionAudio pcm p) w1) w2"
  let ?w3 = "snd (forward_session_audio su pcm p w2)" and ?w1 = "report_consumed (SessionAudio pcm p) w1"
  have lanes: "lanes_ok w \<longrightarrow> lanes_ok w2"
    using audio_taken(1) [OF took] core_audioD(5) [OF core] by blast
  have kept: "(lanes_ok w2 \<longrightarrow> lanes_ok ?w3) \<and> ig_ordered (sw_ingress ?w3) = ig_ordered (sw_ingress w2)
      \<and> sw_admitted ?w3 = sw_admitted w2 \<and> (\<not> vital_failed ?w3 \<longrightarrow> \<not> vital_failed w2
         \<and> sent_audio ?w3 @ held_audio ?w3 = sent_audio w2 @ held_audio w2 @ [pcm])"
    by (rule audio_input_kept [OF prod.collapse [symmetric]])
  have line: "audio_line ?w3 = audio_line w" "\<not> vital_failed w" if ok: "\<not> vital_failed ?w3"
  proof -
    have w2: "\<not> vital_failed w2" "sent_audio ?w3 @ held_audio ?w3 = sent_audio w2 @ held_audio w2 @ [pcm]"
      using kept ok by simp_all
    then have w1: "\<not> vital_failed ?w1" "sent_audio w2 @ held_audio w2 = sent_audio ?w1 @ held_audio ?w1"
      using core_audioD(6,7) [OF core] by blast+
    have frames: "sent_audio ?w3 @ held_audio ?w3 = sent_audio w @ held_audio w @ [pcm]"
      using w2(2) w1(2) audio_taken(4,5) [OF took] by (simp flip: append_assoc)
    have queue: "ig_ordered (sw_ingress ?w3) = ig_ordered (sw_ingress ?w1)"
      using kept core_audioD(2) [OF core] by simp
    show "audio_line ?w3 = audio_line w"
      using frames queue audio_taken(6) [OF took]
      by (simp add: audio_line_def input_frames_def flip: append_assoc)
    show "\<not> vital_failed w" using w1(1) audio_taken(3) [OF took] by simp
  qed
  have "sw_admitted ?w3 = sw_admitted w"
    using kept core_audioD(4) [OF core] audio_taken(2) [OF took] by simp
  then show "loop_audio w ?w3" using lanes kept line unfolding loop_audio_def by blast
qed (rule audio_same; simp)+

text \<open>Offers append their frames to the line.\<close>

lemma offer_audio:
  "audio_line w = input_frames (sw_admitted w) \<Longrightarrow>
   audio_line (offer_input i w) = input_frames (sw_admitted (offer_input i w))"
  by (cases rule: offer_cases [of i w])
    (auto simp: audio_line_def sent_audio_def held_audio_def input_frames_def)

lemma offers_audio:
  "audio_line w = input_frames (sw_admitted w) \<Longrightarrow>
   audio_line (fold offer_input is w) = input_frames (sw_admitted (fold offer_input is w))"
  by (induction "is" arbitrary: w) (simp_all add: offer_audio)

lemma start_audio:
  assumes "audio_line w = input_frames (sw_admitted w)"
  shows "audio_line (start_round r w) = input_frames (sw_admitted (start_round r w))"
proof -
  have "audio_line (w\<lparr>sw_arrivals := sw_arrivals w @ rr_batches r\<rparr>) = audio_line w"
    by (simp add: audio_line_def sent_audio_def held_audio_def)
  then show ?thesis
    using offers_audio [of "w\<lparr>sw_arrivals := sw_arrivals w @ rr_batches r\<rparr>" "rr_offers r"] assms
    by (simp add: start_round_def)
qed

lemma line_new:
  "audio_line (new_session_world c outs rds) = input_frames (sw_admitted (new_session_world c outs rds))"
  by (simp add: new_session_world_def audio_line_def sent_audio_def held_audio_def input_frames_def
        new_session_state_def new_ingress_def)

text \<open>
  C21: the session runner loses, repeats and reorders no user audio. Whatever the provider sends,
  whatever is held for barge-in and released, deferred or cancelled, the audio sent to the
  provider, then the frames still held, then the frames still queued are exactly the frames the
  ingress accepted, in order, as long as the provider refused no audio and no cancel; a refusal ends
  the session.
\<close>

theorem user_audio_conserved:
  assumes "run_turns su rounds (new_session_world c outcomes readings) = Some (out, w)"
    and "plain_rounds rounds" and "\<not> vital_failed w"
  shows "sent_audio w @ held_audio w @ input_frames (ig_ordered (sw_ingress w))
     = input_frames (sw_admitted w)"
proof -
  have "lanes_ok w \<and> (\<not> vital_failed w \<longrightarrow> audio_line w = input_frames (sw_admitted w))"
  proof (rule run_turns_induct [OF _ assms(1,2)])
    fix r v out v'
    assume v: "lanes_ok v \<and> (\<not> vital_failed v \<longrightarrow> audio_line v = input_frames (sw_admitted v))"
      and r: "plain_inputs (rr_offers r)"
      and "session_turn su (rr_overflow r) (rr_choice r) (start_round r v) = Some (out, v')"
    moreover have "lanes_ok (start_round r v)" "sw_wire (start_round r v) = sw_wire v"
      using round_started v r by simp_all
    ultimately have "loop_audio (start_round r v) v'" "lanes_ok (start_round r v)"
        "vital_failed (start_round r v) = vital_failed v"
      using audio.turn by (auto simp: vital_failed_def)
    then show "lanes_ok v' \<and> (\<not> vital_failed v' \<longrightarrow> audio_line v' = input_frames (sw_admitted v'))"
      using v start_audio [of v r] by (auto simp: loop_audio_def)
  qed (simp add: line_new)
  then show ?thesis using assms(3) by (simp add: audio_line_def)
qed

lemma live_session_run:
  "\<exists>w. run_turns live_setup live_rounds (new_session_world CtxLive [] []) = Some (LoopContinues, w)
     \<and> \<not> vital_failed w \<and> held_audio w = [[1, 2, 3, 4]] \<and> sent_audio w = [[0, 0, 0, 0]]"
proof -
  have run: "map_option (\<lambda>(out, w). (out, vital_failed w, held_audio w, sent_audio w))
      (run_turns live_setup live_rounds (new_session_world CtxLive [] []))
      = Some (LoopContinues, False, [[1, 2, 3, 4]], [[0, 0, 0, 0]])"
    by code_simp
  then show ?thesis by auto
qed

lemma live_plain: "plain_rounds live_rounds"
  by (simp add: plain_rounds_def plain_inputs_def live_rounds_def)

lemma user_audio_conserved_witness:
  "\<exists>w. run_turns live_setup live_rounds (new_session_world CtxLive [] []) = Some (LoopContinues, w)
     \<and> input_frames (sw_admitted w)
         = [[0, 0, 0, 0], [1, 2, 3, 4]] @ input_frames (ig_ordered (sw_ingress w))"
proof -
  obtain w where run: "run_turns live_setup live_rounds (new_session_world CtxLive [] []) = Some (LoopContinues, w)"
    and w: "\<not> vital_failed w" "held_audio w = [[1, 2, 3, 4]]" "sent_audio w = [[0, 0, 0, 0]]"
    using live_session_run by blast
  show ?thesis using user_audio_conserved [OF run live_plain w(1)] run w(2,3) by auto
qed

end
