(* ===== verification/Runner_Total.thy ===== *)
theory Runner_Total
  imports Runner_Effects
begin

text \<open>
  Every call of the session runner returns: an observed message is gone for good, so the messages
  the provider has queued bound the recursion between messages and control events, and the
  inputs and messages together bound a pass of the loop.
\<close>

definition core_less :: "session_world \<Rightarrow> session_world \<Rightarrow> bool" where
  "core_less v w \<longleftrightarrow> (deferred_ok v \<longrightarrow> deferred_ok w) \<and> pending_messages w \<le> pending_messages v
     \<and> ig_ordered (sw_ingress w) = ig_ordered (sw_ingress v)
     \<and> ig_priority (sw_ingress w) = ig_priority (sw_ingress v)"

definition loop_less :: "session_world \<Rightarrow> session_world \<Rightarrow> bool" where
  "loop_less v w \<longleftrightarrow> (lanes_ok v \<longrightarrow> lanes_ok w) \<and> backlog w \<le> backlog v"

lemma less_same:
  "sw_state w = sw_state v \<Longrightarrow> sw_ingress w = sw_ingress v \<Longrightarrow> sw_received w = sw_received v \<Longrightarrow>
   sw_arrivals w = sw_arrivals v \<Longrightarrow> core_less v w"
  by (simp add: core_less_def pending_messages_def deferred_ok_def)

lemma poll_pending:
  "fst (poll_receive w) = Some m \<Longrightarrow> Suc (pending_messages (snd (poll_receive w))) = pending_messages w"
  "fst (poll_receive w) = None \<Longrightarrow> pending_messages (snd (poll_receive w)) = pending_messages w
     \<and> sw_received (snd (poll_receive w)) = []"
  by (cases "sw_arrivals w"; cases "sw_received w";
      auto simp: poll_receive_def pending_messages_def Let_def split: list.splits)+

lemma poll_less: "core_less w (snd (poll_receive w))"
  using poll_pending [of w]
  by (cases "fst (poll_receive w)") (auto simp: core_less_def deferred_ok_def)

interpretation less: uniform_inputs su core_less loop_less for su
proof unfold_locales
  fix u v w :: session_world
  show "core_less u v \<Longrightarrow> core_less v w \<Longrightarrow> core_less u w" by (simp add: core_less_def)
  show "loop_less u v \<Longrightarrow> loop_less v w \<Longrightarrow> loop_less u w" by (simp add: loop_less_def)
  show "core_less v w \<Longrightarrow> deferred_ok v \<Longrightarrow> deferred_ok w" by (simp add: core_less_def)
  show "core_less v w \<Longrightarrow> loop_less v w"
    by (auto simp: core_less_def loop_less_def lanes_ok_def backlog_def)
  show "loop_less v w \<Longrightarrow> lanes_ok v \<Longrightarrow> lanes_ok w" by (simp add: loop_less_def)
next
  fix w w1 d
  assume "take_priority w = Some (d, w1)"
  then show "loop_less w w1"
    using taken_lanes(1) [of w d w1]
    by (auto simp: take_priority_def loop_less_def backlog_def pending_messages_def split: list.splits)
next
  fix w w1 i
  assume "take_ordered w = Some (i, w1)"
  then show "loop_less w (report_consumed i w1)"
    using taken_lanes(2) [of w i w1]
    by (auto simp: take_ordered_def ordered_take_simp report_consumed_def count_control_def
          loop_less_def backlog_def pending_messages_def split: option.splits)
next
  fix ev pcm and w :: session_world
  assume "routine_event ev \<or> ev = EvTakeFrames \<or> ev = EvHoldFrame pcm"
  then show "core_less w (state_event ev w)"
    using event_deferred [of ev pcm w] by (simp add: core_less_def pending_messages_def)
next
  fix w :: session_world
  show "core_less w (snd (poll_receive w))" by (rule poll_less)
  show "core_less w (w\<lparr>sw_ingress := tool_consumed (sw_ingress w)\<rparr>)"
    by (simp add: core_less_def pending_messages_def deferred_ok_def)
qed (rule less_same; simp)+

section \<open>Messages and control events\<close>

definition sync_returns :: "nat \<Rightarrow> syncer \<Rightarrow> bool" where
  "sync_returns k sync \<longleftrightarrow>
     (\<forall>v. deferred_ok v \<longrightarrow> pending_messages v \<le> k \<longrightarrow> sync v \<noteq> None)
     \<and> (\<forall>v v'. sync v = Some v' \<longrightarrow> deferred_ok v \<longrightarrow> core_less v v')"

lemma control_returns:
  assumes "sync_returns k sync" "deferred_ok w" "pending_messages w \<le> k"
  shows "control_event sync su evt w \<noteq> None"
proof -
  have "core_less w (state_event (EvHold evt) w)"
    by (rule less.any_event) (simp add: routine_event_def)
  then have "sync (state_event (EvHold evt) w) \<noteq> None"
    using assms by (auto simp: sync_returns_def core_less_def)
  then show ?thesis
    by (auto simp: control_event_def sync_provider_messages_def Let_def split: option.split)
qed

lemma queued_returns:
  assumes "sync_returns k sync" "deferred_ok w" "pending_messages w \<le> k"
  shows "forward_queued_event sync su evt w \<noteq> None"
proof -
  have "core_less w (flush_held_audio su w)" by (rule less.effects.flush_held)
  then have "deferred_ok (flush_held_audio su w)" "pending_messages (flush_held_audio su w) \<le> k"
    using assms by (auto simp: core_less_def)
  then show ?thesis
    using control_returns [OF assms, of su evt] control_returns [OF assms(1), of _ su evt]
    by (auto simp: forward_queued_event_def split: bind_splits)
qed

lemma events_return:
  assumes "sync_returns k sync"
  shows "deferred_ok w \<Longrightarrow> pending_messages w \<le> k \<Longrightarrow>
    (\<forall>e \<in> set es. sm_type e \<noteq> StreamAudioDelta) \<Longrightarrow> forward_events sync su es w \<noteq> None"
proof (induction es arbitrary: w)
  case (Cons e es)
  obtain w1 where w1: "forward_queued_event sync su e w = Some w1"
    using queued_returns [OF assms Cons.prems(1,2)] by blast
  have "core_less w w1"
    by (rule less.effects.queued [OF _ Cons.prems(1) _ w1])
      (use assms Cons.prems(3) in \<open>auto simp: sync_returns_def\<close>)
  then show ?case using Cons.IH [of w1] Cons.prems w1 by (auto simp: core_less_def)
qed simp

lemma flush_returns:
  assumes "sync_returns k sync" "deferred_ok w" "pending_messages w \<le> k"
  shows "flush_deferred_events sync su w \<noteq> None"
proof -
  have "core_less w (state_event EvTakeDeferred w)"
    by (rule less.any_event) (simp add: routine_event_def)
  moreover have "\<forall>e \<in> set (fst (take_deferred (sw_state w))). sm_type e \<noteq> StreamAudioDelta"
    using assms(2) by (auto simp: take_deferred_def deferred_ok_def)
  ultimately show ?thesis
    using events_return [OF assms(1), of "state_event EvTakeDeferred w"] assms
    by (auto simp: flush_deferred_events_def core_less_def)
qed

lemma observe_returns:
  assumes "sync_returns k sync" "deferred_ok w" "pending_messages w \<le> k"
  shows "observe_message sync su msg w \<noteq> None"
proof -
  define w1 where "w1 = (if sm_type msg = StreamSessionClose
      then (state_event EvContinuationReset (flush_batch_failures w))
             \<lparr>sw_continuation := ToolContinuationNone\<rparr> else w)"
  have R1: "core_less w w1"
    by (auto simp: w1_def less.refl routine_event_def
          intro!: less.effects.then_mode less.effects.then_event less.effects.flush_failures)
  obtain ended w2 where eq: "apply_message su msg w1 = (ended, w2)" by fastforce
  have R2: "core_less w w2" using less.trans [OF R1 less.effects.applied [of w1 su msg]] eq by simp
  define w4 where "w4 = state_event EvContinuationTaken (state_event EvAckTaken w2)"
  have R4: "core_less w w4"
    by (auto simp: w4_def routine_event_def intro!: less.effects.then_event R2)
  have "core_less w (if ended then flush_held_audio su w4 else w4)"
    using R4 less.trans [OF R4 less.effects.flush_held] by simp
  then have "flush_deferred_events sync su (if ended then flush_held_audio su w4 else w4) \<noteq> None"
    using flush_returns [OF assms(1)] assms(2,3) by (auto simp: core_less_def)
  then show ?thesis
    unfolding observe_message_def w1_def [symmetric] Let_def eq prod.case w4_def [symmetric] by auto
qed

lemma drain_returns:
  "pending_messages w < n \<Longrightarrow> deferred_ok w \<Longrightarrow> drain_messages n su w \<noteq> None"
proof (induction n arbitrary: w)
  case (Suc n)
  obtain read w1 where polled: "poll_receive w = (read, w1)" by fastforce
  show ?case
  proof (cases read)
    case (Some m)
    have fewer: "pending_messages w1 < n"
      using poll_pending(1) [of w m] polled Some Suc.prems(1) by simp
    have ok1: "deferred_ok w1" using poll_less [of w] polled Suc.prems(2) by (simp add: core_less_def)
    have sync: "sync_returns (pending_messages w1) (\<lambda>v. map_option snd (drain_messages n su v))"
      using Suc.IH fewer less.effects.drained by (auto simp: sync_returns_def)
    obtain w2 where w2: "observe_message (\<lambda>v. map_option snd (drain_messages n su v)) su m w1 = Some w2"
      using observe_returns [OF sync ok1] by blast
    have "core_less w1 w2"
      by (rule less.effects.observed [OF _ ok1 w2]) (use sync in \<open>auto simp: sync_returns_def\<close>)
    then have "drain_messages n su w2 \<noteq> None"
      using Suc.IH [of w2] fewer ok1 by (auto simp: core_less_def)
    then show ?thesis using polled Some w2 by auto
  qed (simp add: polled)
qed simp

lemma pending_returns: "deferred_ok w \<Longrightarrow> forward_pending_messages su w \<noteq> None"
  unfolding forward_pending_messages_def by (rule drain_returns) simp

lemma runner_sync_returns: "sync_returns k (runner_sync su)"
  using pending_returns less.effects.synced by (auto simp: sync_returns_def runner_sync_def)

text \<open>What a drain has read is gone, and it ends with nothing readable.\<close>

lemma drain_outcome:
  "drain_messages n su w = Some (seen, w') \<Longrightarrow> deferred_ok w \<Longrightarrow>
   (seen \<longrightarrow> pending_messages w' < pending_messages w) \<and> sw_received w' = []"
proof (induction n arbitrary: w seen)
  case (Suc n)
  obtain read w1 where polled: "poll_receive w = (read, w1)" by fastforce
  show ?case
  proof (cases read)
    case None
    then show ?thesis using Suc.prems polled poll_pending(2) [of w] by simp
  next
    case (Some m)
    then obtain w2 b where
        w2: "observe_message (\<lambda>v. map_option snd (drain_messages n su v)) su m w1 = Some w2"
      and rest: "drain_messages n su w2 = Some (b, w')"
      using Suc.prems(1) polled by (auto split: bind_splits)
    have ok1: "deferred_ok w1" using poll_less [of w] polled Suc.prems(2) by (simp add: core_less_def)
    have R2: "core_less w1 w2"
      by (rule less.effects.observed [OF _ ok1 w2]) (use less.effects.drained in auto)
    then have ok2: "deferred_ok w2" using ok1 by (simp add: core_less_def)
    have "core_less w2 w'" by (rule less.effects.drained [OF rest ok2])
    then show ?thesis
      using R2 Suc.IH [OF rest ok2] poll_pending(1) [of w m] polled Some by (simp add: core_less_def)
  qed
qed simp

lemma pending_outcome:
  "forward_pending_messages su w = Some (seen, w') \<Longrightarrow> deferred_ok w \<Longrightarrow>
   (seen \<longrightarrow> pending_messages w' < pending_messages w) \<and> sw_received w' = []"
  unfolding forward_pending_messages_def by (rule drain_outcome)

section \<open>The session loop\<close>

lemma taken_backlog:
  "take_priority w = Some (d, w1) \<Longrightarrow> Suc (backlog w1) = backlog w"
  "take_ordered w = Some (i, w1) \<Longrightarrow> Suc (backlog w1) = backlog w"
  by (auto simp: take_priority_def take_ordered_def ordered_take_simp backlog_def pending_messages_def
        split: list.splits option.splits)

lemma core_backlog: "core_less v w \<Longrightarrow> backlog w \<le> backlog v"
  by (simp add: core_less_def backlog_def)

lemma input_steps:
  assumes ok: "deferred_ok w" and plain: "\<forall>d. i = SessionEvent d \<longrightarrow> sm_type d \<noteq> StreamAudioDelta"
  shows "\<exists>err w'. forward_session_input su i w = Some (err, w') \<and> core_less (report_consumed i w) w'"
proof -
  let ?w = "report_consumed i w"
  have ok1: "deferred_ok ?w" using ok by (simp add: deferred_ok_def report_consumed_def)
  show ?thesis
  proof (cases i)
    case (SessionAudio pcm p)
    obtain b w2 where w2: "forward_pending_messages su ?w = Some (b, w2)"
      using pending_returns [OF ok1, of su] by auto
    then show ?thesis
      using less.trans [OF less.effects.pending_forwarded [OF w2 ok1] less.audio_forwarded [of w2 su pcm p]]
        SessionAudio
      by (cases "forward_session_audio su pcm p w2")
        (auto simp: forward_session_input_def report_consumed_def)
  next
    case (SessionEvent evt)
    obtain w2 where w2: "forward_queued_event (runner_sync su) su evt ?w = Some w2"
      using queued_returns [OF runner_sync_returns ok1 order.refl, of su su evt] by auto
    have "core_less ?w w2"
      by (rule less.effects.queued [OF less.effects.synced ok1 _ w2]) (use plain SessionEvent in auto)
    then show ?thesis using w2 SessionEvent by (auto simp: forward_session_input_def report_consumed_def)
  next
    case (SessionMessage m request)
    then show ?thesis
      using less.trans [OF less.effects.flush_held [of ?w su] less.inputs.complete_message
          [of "flush_held_audio su ?w" "su_caps su" m request]]
      by (cases "forward_complete_message (su_caps su) m request (flush_held_audio su ?w)")
        (auto simp: forward_session_input_def report_consumed_def)
  qed
qed

lemma taken_plain:
  "take_ordered w = Some (SessionEvent d, w1) \<Longrightarrow> lanes_ok w \<Longrightarrow> sm_type d \<noteq> StreamAudioDelta"
  "take_priority w = Some (d, w1) \<Longrightarrow> lanes_ok w \<Longrightarrow> sm_type d \<noteq> StreamAudioDelta"
proof -
  assume "take_ordered w = Some (SessionEvent d, w1)" "lanes_ok w"
  moreover from this have "SessionEvent d \<in> set (ig_ordered (sw_ingress w))"
    by (auto simp: take_ordered_def ordered_take_simp split: option.splits)
  ultimately show "sm_type d \<noteq> StreamAudioDelta" by (simp add: lanes_ok_def)
next
  assume "take_priority w = Some (d, w1)" "lanes_ok w"
  then show "sm_type d \<noteq> StreamAudioDelta"
    by (auto simp: take_priority_def lanes_ok_def split: list.splits)
qed

lemma taken_deferred:
  "take_ordered w = Some (i, w1) \<Longrightarrow> lanes_ok w \<Longrightarrow> deferred_ok w1"
  by (auto simp: take_ordered_def lanes_ok_def deferred_ok_def split: option.splits)

lemma cancels_step:
  assumes ok: "lanes_ok w"
  shows "\<exists>seen w'. forward_messages_and_cancels su w = Some (seen, w')
     \<and> (seen \<longrightarrow> backlog w' < backlog w)
     \<and> (\<not> seen \<longrightarrow> sw_received w' = [] \<and> ig_priority (sw_ingress w') = [])"
proof -
  have okd: "deferred_ok w" using ok by (simp add: lanes_ok_def)
  obtain b w1 where w1: "forward_pending_messages su w = Some (b, w1)"
    using pending_returns [OF okd, of su] by auto
  have R1: "core_less w w1" by (rule less.effects.pending_forwarded [OF w1 okd])
  have fewer: "b \<longrightarrow> backlog w1 < backlog w" "sw_received w1 = []"
    using pending_outcome [OF w1 okd] R1 by (auto simp: core_less_def backlog_def)
  show ?thesis
  proof (cases "b \<or> take_priority w1 = None")
    case True
    then show ?thesis
      using w1 fewer by (auto simp: forward_messages_and_cancels_def take_priority_def split: list.splits)
  next
    case False
    then obtain evt w2 where took: "take_priority w1 = Some (evt, w2)" by auto
    have lanes1: "lanes_ok w1" using R1 ok by (auto simp: core_less_def lanes_ok_def)
    have ok2: "deferred_ok w2" using taken_lanes(1) [OF took lanes1] by (simp add: lanes_ok_def)
    obtain w3 where w3: "forward_queued_event (runner_sync su) su evt w2 = Some w3"
      using queued_returns [OF runner_sync_returns ok2 order.refl, of su su evt] by auto
    have "core_less w2 w3"
      by (rule less.effects.queued [OF less.effects.synced ok2 taken_plain(2) [OF took lanes1] w3])
    then have "backlog w3 < backlog w"
      using core_backlog [OF R1] core_backlog [of w2 w3] taken_backlog(1) [OF took] by simp
    then show ?thesis using w1 False took w3 by (auto simp: forward_messages_and_cancels_def)
  qed
qed

lemma inputs_return:
  "backlog w < n \<Longrightarrow> lanes_ok w \<Longrightarrow>
   \<exists>h err w'. forward_inputs n su handled w = Some ((h, err), w')
     \<and> (err = None \<longrightarrow> sw_received w' = [] \<and> ig_priority (sw_ingress w') = []
          \<and> ig_ordered (sw_ingress w') = [])"
proof (induction n arbitrary: handled w)
  case (Suc n)
  obtain seen w1 where w1: "forward_messages_and_cancels su w = Some (seen, w1)"
      and fewer: "seen \<longrightarrow> backlog w1 < backlog w"
      and idle: "\<not> seen \<longrightarrow> sw_received w1 = [] \<and> ig_priority (sw_ingress w1) = []"
    using cancels_step [OF Suc.prems(2)] by blast
  have L1: "loop_less w w1" by (rule less.inputs.messages_and_cancels [OF Suc.prems(2) w1])
  then have ok1: "lanes_ok w1" "backlog w1 \<le> backlog w" using Suc.prems(2) by (auto simp: loop_less_def)
  show ?case
  proof (cases seen)
    case True
    then show ?thesis using Suc.IH [of w1 True] fewer ok1 w1 Suc.prems(1) by auto
  next
    case False
    show ?thesis
    proof (cases "take_ordered w1")
      case None
      then show ?thesis
        using w1 False idle by (auto simp: take_ordered_def ordered_take_def split: option.splits list.splits)
    next
      case (Some taken)
      then obtain i w2 where took: "take_ordered w1 = Some (i, w2)" by (cases taken) auto
      obtain err w3 where w3: "forward_session_input su i w2 = Some (err, w3)"
          and R3: "core_less (report_consumed i w2) w3"
        using input_steps [OF taken_deferred [OF took ok1(1)], of i su] taken_plain(1) [OF _ ok1(1)] took
        by blast
      have "backlog (report_consumed i w2) = backlog w2"
        by (simp add: report_consumed_def count_control_def backlog_def pending_messages_def)
      then have "backlog w3 < n"
        using core_backlog [OF R3] taken_backlog(2) [OF took] ok1(2) Suc.prems(1) by simp
      moreover have "lanes_ok w3"
        using less.inputs.input_forwarded [OF took ok1(1) w3] ok1(1) by (simp add: loop_less_def)
      ultimately show ?thesis
        using Suc.IH [of w3 True] w1 False took w3 by (cases err) auto
    qed
  qed
qed simp

lemma pending_inputs_return:
  assumes "lanes_ok w"
  obtains h err w' where "forward_pending_inputs su w = Some ((h, err), w')"
    "err = None \<Longrightarrow> sw_received w' = [] \<and> ig_priority (sw_ingress w') = []
        \<and> ig_ordered (sw_ingress w') = []" "lanes_ok w'"
proof -
  obtain h err w' where run: "forward_pending_inputs su w = Some ((h, err), w')"
      and idle: "err = None \<longrightarrow> sw_received w' = [] \<and> ig_priority (sw_ingress w') = []
          \<and> ig_ordered (sw_ingress w') = []"
    using inputs_return [of w "Suc (backlog w)" su False] assms by (auto simp: forward_pending_inputs_def)
  moreover have "lanes_ok w'"
    using less.inputs.pending_inputs [OF assms run] assms by (simp add: loop_less_def)
  ultimately show ?thesis using that by blast
qed

lemma await_returns:
  assumes ok: "lanes_ok w"
  shows "await_step su choice w \<noteq> None"
proof -
  have okd: "deferred_ok w" using ok by (simp add: lanes_ok_def)
  have finishes: "finish_with su e v \<noteq> None" for e v by (simp add: finish_with_def split: prod.split)
  show ?thesis
  proof (cases choice)
    case AwaitSessionDone
    then show ?thesis
      using pending_returns [OF okd, of su] by (auto simp: finish_closed_session_def Let_def)
  next
    case AwaitOrdered
    show ?thesis
    proof (cases "take_ordered w")
      case (Some taken)
      then obtain i w1 where took: "take_ordered w = Some (i, w1)" by (cases taken) auto
      then obtain err w2 where "forward_session_input su i w1 = Some (err, w2)"
        using input_steps [OF taken_deferred [OF took ok], of i su] taken_plain(1) [OF _ ok] by blast
      then show ?thesis
        using AwaitOrdered took finishes [of err w2] by (cases err) auto
    qed (use AwaitOrdered in simp)
  next
    case AwaitPriority
    show ?thesis
    proof (cases "take_priority w")
      case (Some taken)
      then obtain evt w1 where took: "take_priority w = Some (evt, w1)" by (cases taken) auto
      have ok1: "deferred_ok w1" using taken_lanes(1) [OF took ok] by (simp add: lanes_ok_def)
      obtain b w2 where w2: "forward_pending_messages su w1 = Some (b, w2)"
        using pending_returns [OF ok1, of su] by auto
      have "deferred_ok w2"
        using less.effects.pending_forwarded [OF w2 ok1] ok1 by (simp add: core_less_def)
      then show ?thesis
        using queued_returns [OF runner_sync_returns _ order.refl, of w2 su su evt] AwaitPriority took w2
        by auto
    qed (use AwaitPriority in simp)
  next
    case AwaitExpiry
    obtain h err w' where "forward_pending_inputs su w = Some ((h, err), w')"
      using pending_inputs_return [OF ok, of su] by blast
    then show ?thesis
      using AwaitExpiry finishes by (auto simp: expire_held_onset_def Let_def split: option.split)
  next
    case (AwaitMessage m)
    then show ?thesis
      using observe_returns [OF runner_sync_returns okd order.refl, of su su m] by auto
  next
    case (AwaitRequest h)
    then show ?thesis using finishes by (cases h) auto
  qed (use finishes in auto)
qed

text \<open>
  C22: every pass of the session loop returns, whatever the provider has queued and will publish:
  the fuel of the definitions, one more than the messages and inputs at hand, is always enough, and
  a pass that took input and met no error leaves nothing readable in either lane or from the
  provider. Whole sessions therefore run to the end of their rounds.
\<close>

theorem session_turn_returns:
  assumes "lanes_ok w" and "plain_rounds rounds"
  shows "session_turn su overflow choice w \<noteq> None
    \<and> (\<exists>h err w'. forward_pending_inputs su w = Some ((h, err), w')
         \<and> (err = None \<longrightarrow> sw_received w' = [] \<and> ig_priority (sw_ingress w') = []
              \<and> ig_ordered (sw_ingress w') = []))
    \<and> run_turns su rounds w \<noteq> None"
proof -
  have turns: "session_turn su ov ch v \<noteq> None" if ok: "lanes_ok v" for ov ch v
  proof -
    obtain h err w' where run: "forward_pending_inputs su v = Some ((h, err), w')"
        and ok': "lanes_ok w'"
      using pending_inputs_return [OF ok] by blast
    have "finish_with su e v \<noteq> None" for e v by (simp add: finish_with_def split: prod.split)
    then show ?thesis
      using run await_returns [OF ok', of su ch]
      by (cases ov; cases err) (auto simp: session_turn_def)
  qed
  have "run_turns su rounds w \<noteq> None"
    using assms
  proof (induction rounds arbitrary: w)
    case (Cons r rounds)
    have started: "lanes_ok (start_round r w)"
      using round_started(3) Cons.prems by (simp add: plain_rounds_def)
    then obtain out w1 where
        turn: "session_turn su (rr_overflow r) (rr_choice r) (start_round r w) = Some (out, w1)"
      using turns [OF started, of "rr_overflow r" "rr_choice r"] by auto
    have "lanes_ok w1" using less.inputs.turn [OF started turn] started by (simp add: loop_less_def)
    then show ?case using Cons.IH [of w1] Cons.prems(2) turn by (cases out) (auto simp: plain_rounds_def)
  qed simp
  then show ?thesis using turns [OF assms(1)] pending_inputs_return [OF assms(1), of su] by metis
qed

lemma session_turn_returns_witness:
  "session_turn live_setup None AwaitOrdered (new_session_world CtxLive [] []) \<noteq> None
   \<and> run_turns live_setup live_rounds (new_session_world CtxLive [] []) \<noteq> None"
proof -
  have "plain_rounds live_rounds" by (simp add: plain_rounds_def plain_inputs_def live_rounds_def)
  then show ?thesis using session_turn_returns [OF lanes_new] by blast
qed

end
