(* ===== verification/Runner_Control.thy ===== *)
theory Runner_Control
  imports Runner_Effects
begin

text \<open>
  What the session runner decides: a barge-in's cancel and the audio it interrupts with, and a tool
  batch one of whose results the provider refused.
\<close>

section \<open>Barge-in\<close>

lemma ask_succeeds:
  assumes "sw_outcomes w = []"
  shows "send_with_outcome c m w = (plain_outcome SendSucceeded,
    w\<lparr>sw_outcomes := [], sw_wire := sw_wire w @ [(WireSend m, plain_outcome SendSucceeded)]\<rparr>)"
  using assms
  by (simp add: send_with_outcome_def session_send_def session_ask_def send_ok_def plain_outcome_def)

lemma sent_ok [simp]: "send_ok (plain_outcome SendSucceeded)"
  by (simp add: send_ok_def plain_outcome_def)

lemma frames_succeed:
  "sw_outcomes w = [] \<Longrightarrow>
   forward_frames su fs w = (None, w\<lparr>sw_outcomes := [], sw_wire := sw_wire w
      @ map (\<lambda>pcm. (WireSend (audio_message pcm), plain_outcome SendSucceeded)) fs\<rparr>)"
proof (induction fs arbitrary: w)
  case (Cons pcm fs)
  then show ?case by (simp add: forward_user_audio_def ask_succeeds)
qed simp

lemma not_target_after_cancel: "\<not> cancel_target (note_cancel_sent s)"
proof (cases "response_in_flight (st_response s) \<or> ack_outstanding (st_ack s)")
  case True
  then show ?thesis
    by (cases "rs_phase (st_response s)"; cases "ak_phase (st_ack s)";
        auto simp: cancel_target_def cancel_pending_def note_cancel_sent_def response_cancel_def
          ack_cancel_def ack_cancelled_def response_in_flight_def ack_outstanding_def
          response_active_def Let_def)
next
  case False
  then show ?thesis
    by (auto simp: cancel_target_def response_active_def note_cancel_sent_def response_in_flight_def
          response_cancel_def ack_cancel_def ack_outstanding_def Let_def split: response_phase.splits)
qed

lemma barge_in_cases:
  assumes "local_playback (su_caps su) (su_quiet su) w = (reading, w0)"
    and "detector_observe (pr_loud reading pcm) pcm (input_sample_rate (su_caps su))
           (bi_min_speech (barge_in_tuning_of su)) (bi_hangover (barge_in_tuning_of su))
           (st_onset (sw_state w)) = (onset, loud, h)"
  obtains w2 where "sw_state w2 = (sw_state w)\<lparr>st_onset := h\<rparr>" "sw_wire w2 = sw_wire w"
    "sw_outcomes w2 = sw_outcomes w"
    "barge_in su pcm w =
      (if onset \<and> cancel_target (sw_state w)
       then (let (err, w3) = send_barge_in_cancel su (provider_owns_turn_detection (su_caps su)) w2
             in ((False, err), w3))
       else if onset \<and> \<not> provider_owns_turn_detection (su_caps su) \<and> \<not> response_active (sw_state w)
               \<and> pr_active reading
       then ((False, None), snd (session_ask WireInterruptPlayback w2))
       else if loud \<and> \<not> onset \<and> cancel_target (sw_state w)
       then ((True, None), state_event (EvHoldFrame pcm) w2)
       else ((False, None), w2))"
proof -
  have w0: "sw_state w0 = sw_state w" "sw_wire w0 = sw_wire w" "sw_outcomes w0 = sw_outcomes w"
    using assms(1) by (auto simp: local_playback_def split: if_splits list.splits)
  define w2 where "w2 = state_event (EvFrame (pr_loud reading pcm) pcm (input_sample_rate (su_caps su))
      (bi_min_speech (barge_in_tuning_of su)) (bi_hangover (barge_in_tuning_of su))) w0"
  have s2: "sw_state w2 = (sw_state w)\<lparr>st_onset := h\<rparr>"
    using assms(2) w0 by (simp add: w2_def state_event_def)
  have same: "cancel_target ((sw_state w)\<lparr>st_onset := h\<rparr>) = cancel_target (sw_state w)"
      "response_active ((sw_state w)\<lparr>st_onset := h\<rparr>) = response_active (sw_state w)"
    by (simp_all add: cancel_target_def response_active_def cancel_pending_def)
  have "barge_in su pcm w =
      (if onset \<and> cancel_target (sw_state w)
       then (let (err, w3) = send_barge_in_cancel su (provider_owns_turn_detection (su_caps su)) w2
             in ((False, err), w3))
       else if onset \<and> \<not> provider_owns_turn_detection (su_caps su) \<and> \<not> response_active (sw_state w)
               \<and> pr_active reading
       then ((False, None), snd (session_ask WireInterruptPlayback w2))
       else if loud \<and> \<not> onset \<and> cancel_target (sw_state w)
       then ((True, None), state_event (EvHoldFrame pcm) w2)
       else ((False, None), w2))"
    using s2 same assms(2) w0(1)
    unfolding barge_in_def assms(1) Let_def prod.case w2_def [symmetric] by simp
  then show ?thesis
    using that [OF s2] w0 by (simp add: w2_def state_event_def)
qed

text \<open>
  C24: how the runner treats an interrupting frame while its sends succeed. Speech that completes
  an onset against a live response sends exactly one cancel, before the frames held for that onset
  and before the frame itself, and leaves no response to cancel again; loud audio short of an onset
  is held and nothing is sent; every other frame follows the held ones at once, with no cancel.
\<close>

theorem barge_in_cancels_first:
  assumes "interrupts_response p" and "\<not> full_duplex_session (su_caps su)"
    and "sw_outcomes w = []"
    and "local_playback (su_caps su) (su_quiet su) w = (reading, w0)"
    and "detector_observe (pr_loud reading pcm) pcm (input_sample_rate (su_caps su))
           (bi_min_speech (barge_in_tuning_of su)) (bi_hangover (barge_in_tuning_of su))
           (st_onset (sw_state w)) = (onset, loud, h)"
    and "held = on_frames (st_onset (sw_state w))"
    and "forward_session_audio su pcm p w = (err, w')"
  shows "err = None
    \<and> (onset \<and> cancel_target (sw_state w) \<longrightarrow>
         map fst (sw_wire w') = map fst (sw_wire w)
           @ WireSend (barge_in_cancel (provider_owns_turn_detection (su_caps su)))
           # map (\<lambda>f. WireSend (audio_message f)) (held @ [pcm])
         \<and> \<not> cancel_target (sw_state w'))
    \<and> (loud \<and> \<not> onset \<and> cancel_target (sw_state w) \<longrightarrow>
         sw_wire w' = sw_wire w \<and> on_frames (st_onset (sw_state w')) = held @ [pcm])
    \<and> (\<not> loud \<or> (onset \<or> \<not> cancel_target (sw_state w))
         \<longrightarrow> on_frames (st_onset (sw_state w')) = [])
    \<and> (\<not> loud \<longrightarrow> sw_wire w' = sw_wire w
         @ map (\<lambda>f. (WireSend (audio_message f), plain_outcome SendSucceeded)) (held @ [pcm]))"
proof -
  obtain w2 where s2: "sw_state w2 = (sw_state w)\<lparr>st_onset := h\<rparr>" "sw_wire w2 = sw_wire w"
      "sw_outcomes w2 = sw_outcomes w"
    and b: "barge_in su pcm w =
      (if onset \<and> cancel_target (sw_state w)
       then (let (err, w3) = send_barge_in_cancel su (provider_owns_turn_detection (su_caps su)) w2
             in ((False, err), w3))
       else if onset \<and> \<not> provider_owns_turn_detection (su_caps su) \<and> \<not> response_active (sw_state w)
               \<and> pr_active reading
       then ((False, None), snd (session_ask WireInterruptPlayback w2))
       else if loud \<and> \<not> onset \<and> cancel_target (sw_state w)
       then ((True, None), state_event (EvHoldFrame pcm) w2)
       else ((False, None), w2))"
    by (rule barge_in_cases [OF assms(4,5)])
  have none: "sw_outcomes w2 = []" using s2(3) assms(3) by simp
  have h: "on_frames h = held" and quiet: "\<not> loud \<longrightarrow> \<not> onset"
    using assms(5,6) by (auto simp: detector_observe_def Let_def split: if_splits)
  have ended: "\<not> cancel_target ((note_cancel_sent s)\<lparr>st_onset := x\<rparr>)" for s x
    using not_target_after_cancel [of s]
    by (simp add: cancel_target_def response_active_def cancel_pending_def)
  have onset_kept: "st_onset (note_cancel_sent s) = st_onset s" for s
    by (simp add: note_cancel_sent_def Let_def)
  note steps = forward_session_audio_def release_held_audio_def onset_take_def frames_succeed
    state_event_def forward_user_audio_def ask_succeeds
  consider (cancel) "onset" "cancel_target (sw_state w)"
    | (hold) "loud" "\<not> onset" "cancel_target (sw_state w)"
    | (pass) "\<not> (onset \<and> cancel_target (sw_state w))" "\<not> (loud \<and> \<not> onset \<and> cancel_target (sw_state w))"
    by blast
  then show ?thesis
  proof cases
    case cancel
    then show ?thesis
      using assms(1,2,7) quiet b s2(1,2) none h
      by (auto simp: steps send_barge_in_cancel_def ended onset_kept)
  next
    case hold
    then show ?thesis
      using assms(1,2,7) b s2(1,2) none h by (auto simp: steps onset_hold_def Let_def)
  next
    case pass
    define w3 where "w3 = snd (barge_in su pcm w)"
    have b3: "barge_in su pcm w = ((False, None), w3)"
        and w3: "sw_state w3 = (sw_state w)\<lparr>st_onset := h\<rparr>" "sw_outcomes w3 = []"
          "\<not> loud \<longrightarrow> sw_wire w3 = sw_wire w"
      using pass quiet s2(1,2) none
      by (cases "onset"; cases "loud"; auto simp: w3_def b session_ask_def)+
    show ?thesis
      using pass assms(1,2,7) quiet b3 w3 h by (auto simp: steps)
  qed
qed

text \<open>A response is live, and half of an onset is held.\<close>

definition half_onset_world :: session_world where
  "half_onset_world = state_event (EvHoldFrame [1, 2, 3, 4])
     (state_event (EvFrame True [1, 2, 3, 4] 100 40000000 300000000)
       (state_event (EvStart ''r1'' False False) (new_session_world CtxLive [] [])))"

lemma barge_in_cancels_first_witness:
  "cancel_target (sw_state half_onset_world) \<and>
   map fst (sw_wire (snd (forward_session_audio bare_setup [5, 6, 7, 8] PolicyInterrupt half_onset_world)))
     = [WireSend (barge_in_cancel False), WireSend (audio_message [1, 2, 3, 4]),
        WireSend (audio_message [5, 6, 7, 8])]"
proof -
  have reading: "local_playback (su_caps bare_setup) (su_quiet bare_setup) half_onset_world
      = (\<lparr>pr_active = False, pr_loud = su_quiet bare_setup\<rparr>, half_onset_world)"
    by (simp add: local_playback_def bare_setup_def bare_session_def)
  have state: "cancel_target (sw_state half_onset_world)"
      "on_frames (st_onset (sw_state half_onset_world)) = [[1, 2, 3, 4]]"
      "sw_wire half_onset_world = []" "sw_outcomes half_onset_world = []"
    by code_simp+
  have caps: "interrupts_response PolicyInterrupt" "\<not> full_duplex_session (su_caps bare_setup)"
      "\<not> provider_owns_turn_detection (su_caps bare_setup)"
    by code_simp+
  have onset: "\<exists>h. detector_observe True [5, 6, 7, 8] (input_sample_rate (su_caps bare_setup))
      (bi_min_speech (barge_in_tuning_of bare_setup)) (bi_hangover (barge_in_tuning_of bare_setup))
      (st_onset (sw_state half_onset_world)) = (True, True, h)"
    by (simp add: detector_observe_def barge_in_tuning_of_def default_barge_in_def bare_setup_def
          bare_session_def input_sample_rate_def half_onset_world_def state_event_def
          new_session_world_def new_session_state_def start_response_def begin_response_def
          ledger_closed_def ledger_get_def status_closed_def response_in_flight_def
          on_response_start_def continuation_requested_def onset_hold_def Let_def)
  have loud: "pr_loud \<lparr>pr_active = False, pr_loud = su_quiet bare_setup\<rparr> [5, 6, 7, 8] = True"
    by (simp add: bare_setup_def)
  obtain h where h: "detector_observe (pr_loud \<lparr>pr_active = False, pr_loud = su_quiet bare_setup\<rparr> [5, 6, 7, 8])
      [5, 6, 7, 8] (input_sample_rate (su_caps bare_setup))
      (bi_min_speech (barge_in_tuning_of bare_setup)) (bi_hangover (barge_in_tuning_of bare_setup))
      (st_onset (sw_state half_onset_world)) = (True, True, h)"
    using onset unfolding loud by blast
  show ?thesis
    using barge_in_cancels_first [OF caps(1,2) state(4) reading h refl prod.collapse [symmetric]]
      state(1,2,3) caps(3) by simp
qed

section \<open>One cancel per interrupted response\<close>

lemma user_audio_wire:
  "forward_user_audio su pcm w = (err, w') \<Longrightarrow>
   \<exists>out. sw_wire w' = sw_wire w @ [(WireSend (audio_message pcm), out)]"
  by (auto simp: forward_user_audio_def send_with_outcome_def session_send_def session_ask_def Let_def
        split: if_splits list.splits)

lemma frames_wire:
  "forward_frames su fs w = (err, w') \<Longrightarrow>
   \<exists>sent. sw_wire w' = sw_wire w @ sent
     \<and> prefix (map fst sent) (map (\<lambda>f. WireSend (audio_message f)) fs)
     \<and> (err = None \<longrightarrow> map fst sent = map (\<lambda>f. WireSend (audio_message f)) fs)"
proof (induction fs arbitrary: w)
  case (Cons pcm fs)
  obtain e w1 where step: "forward_user_audio su pcm w = (e, w1)" by fastforce
  obtain out where out: "sw_wire w1 = sw_wire w @ [(WireSend (audio_message pcm), out)]"
    using user_audio_wire [OF step] by blast
  show ?case
  proof (cases e)
    case None
    then obtain sent where "sw_wire w' = sw_wire w1 @ sent"
        "prefix (map fst sent) (map (\<lambda>f. WireSend (audio_message f)) fs)"
        "err = None \<longrightarrow> map fst sent = map (\<lambda>f. WireSend (audio_message f)) fs"
      using Cons step by auto
    then show ?thesis
      by (intro exI [of _ "(WireSend (audio_message pcm), out) # sent"]) (simp add: out)
  next
    case (Some x)
    then show ?thesis
      using Cons.prems step out
      by (intro exI [of _ "[(WireSend (audio_message pcm), out)]"]) auto
  qed
qed simp

lemma release_wire:
  assumes "release_held_audio su w = (err, w')"
  obtains sent where "sw_wire w' = sw_wire w @ sent"
    "prefix (map fst sent) (map (\<lambda>f. WireSend (audio_message f)) (on_frames (st_onset (sw_state w))))"
    "err = None \<Longrightarrow>
       map fst sent = map (\<lambda>f. WireSend (audio_message f)) (on_frames (st_onset (sw_state w)))"
  using frames_wire [OF assms [unfolded release_held_audio_def]]
  by (auto simp: state_event_def onset_take_def)

lemma audio_passes_without_target:
  assumes "\<not> cancel_target (sw_state w)" "response_active (sw_state w)"
    and "forward_session_audio su pcm p w = (err, w')"
  shows "\<exists>sent. sw_wire w' = sw_wire w @ sent
    \<and> prefix (map fst sent)
        (map (\<lambda>f. WireSend (audio_message f)) (on_frames (st_onset (sw_state w)) @ [pcm]))
    \<and> (err = None \<longrightarrow> map fst sent
         = map (\<lambda>f. WireSend (audio_message f)) (on_frames (st_onset (sw_state w)) @ [pcm]))"
proof -
  define decision where "decision = (if interrupts_response p \<and> \<not> full_duplex_session (su_caps su)
      then barge_in su pcm w else ((False, None), w))"
  obtain v where v: "decision = ((False, None), v)" "sw_wire v = sw_wire w"
      "on_frames (st_onset (sw_state v)) = on_frames (st_onset (sw_state w))"
  proof (cases "interrupts_response p \<and> \<not> full_duplex_session (su_caps su)")
    case True
    obtain reading w0 where reading: "local_playback (su_caps su) (su_quiet su) w = (reading, w0)"
      by fastforce
    obtain onset loud h where seen: "detector_observe (pr_loud reading pcm) pcm
        (input_sample_rate (su_caps su)) (bi_min_speech (barge_in_tuning_of su))
        (bi_hangover (barge_in_tuning_of su)) (st_onset (sw_state w)) = (onset, loud, h)"
      by (metis prod.collapse)
    have kept: "on_frames h = on_frames (st_onset (sw_state w))"
      using seen by (auto simp: detector_observe_def Let_def split: if_splits)
    obtain v where "sw_state v = (sw_state w)\<lparr>st_onset := h\<rparr>" "sw_wire v = sw_wire w"
        "barge_in su pcm w = ((False, None), v)"
      using assms(1,2) by (auto intro: barge_in_cases [OF reading seen])
    then show ?thesis using that [of v] True kept by (simp add: decision_def)
  next
    case False
    then have "decision = ((False, None), w)" unfolding decision_def by (rule if_not_P)
    then show ?thesis by (rule that) simp_all
  qed
  obtain e u where released: "release_held_audio su v = (e, u)" by fastforce
  obtain held where held: "sw_wire u = sw_wire w @ held"
      "prefix (map fst held) (map (\<lambda>f. WireSend (audio_message f)) (on_frames (st_onset (sw_state w))))"
      "e = None \<Longrightarrow>
         map fst held = map (\<lambda>f. WireSend (audio_message f)) (on_frames (st_onset (sw_state w)))"
    using release_wire [OF released] v(2,3) by metis
  show ?thesis
  proof (cases e)
    case None
    then have "forward_user_audio su pcm u = (err, w')"
      using assms(3) v(1) released by (simp add: forward_session_audio_def decision_def [symmetric])
    then obtain out where "sw_wire w' = sw_wire u @ [(WireSend (audio_message pcm), out)]"
      using user_audio_wire by blast
    then show ?thesis using held None by auto
  next
    case (Some x)
    then have "err = Some x" "w' = u"
      using assms(3) v(1) released by (auto simp: forward_session_audio_def decision_def [symmetric])
    then show ?thesis using held(1,2) by (auto intro: prefix_append)
  qed
qed

text \<open>
  C30: interrupting speech never cancels a response that already has an accepted cancel, a
  barge-in's own or an explicit one. While that response has not ended or been replaced, a frame of
  user audio puts nothing on the wire but the held audio and itself, in order and whole unless a
  send fails, and the customer's end-of-turn boundary is deferred.
\<close>

theorem speech_cancels_once:
  assumes "rs_phase (st_response (sw_state w)) = ResponseInFlight"
    and "rs_id (st_response (sw_state w)) = r" "r \<noteq> ''''"
    and "send_barge_in_cancel su keep w = (None, w1)
      \<or> sm_type evt = StreamResponseCancel \<and> send_ok (fst (send_with_outcome (su_caps su) evt w))
        \<and> send_control_event su evt w = w1"
    and "list_all (leaves_response r) evs" "sw_state w2 = session_run evs (sw_state w1)"
    and "forward_session_audio su pcm p w2 = (err, w3)"
  shows "\<exists>sent. sw_wire w3 = sw_wire w2 @ sent
    \<and> prefix (map fst sent)
        (map (\<lambda>f. WireSend (audio_message f)) (on_frames (st_onset (sw_state w2)) @ [pcm]))
    \<and> (err = None \<longrightarrow> map fst sent
         = map (\<lambda>f. WireSend (audio_message f)) (on_frames (st_onset (sw_state w2)) @ [pcm]))
    \<and> defer_response_request (zero_stream_message\<lparr>sm_type := StreamMessageEnd\<rparr>) (sw_state w2)"
proof -
  have asked: "send_with_outcome c m w = (out, v) \<Longrightarrow> sw_state v = sw_state w" for c m out v
    by (auto simp: send_with_outcome_def session_send_def session_ask_def Let_def
          split: if_splits list.splits)
  have "sw_state w1 = note_cancel_sent (sw_state w)"
    using assms(4)
    by (auto dest: asked simp: send_barge_in_cancel_def send_control_event_def forward_event_outcome_def
          state_event_def Let_def split: prod.splits if_splits)
  then have run: "sw_state w2 = session_run (EvCancelSent # evs) (sw_state w)"
    using assms(6) by simp
  have phase: "rs_phase (st_response (sw_state w1)) = ResponseCancelling"
      "rs_id (st_response (sw_state w1)) = r"
    using \<open>sw_state w1 = note_cancel_sent (sw_state w)\<close> assms(1,2)
    by (simp_all add: note_cancel_sent_def response_cancel_def Let_def)
  have active: "response_active (sw_state w2)"
    using leaves_response_run [OF assms(3) phase(2,1) assms(5)] assms(6)
    by (simp add: response_active_def response_in_flight_def)
  note spent = one_cancel_per_response [OF assms(1,2,3,5), folded run]
  show ?thesis
    using audio_passes_without_target [OF conjunct1 [OF spent] active assms(7)] spent by auto
qed

text \<open>A second onset against the response the first one cancelled sends its frame alone.\<close>

definition barged_in_world :: session_world where
  "barged_in_world = snd (send_barge_in_cancel bare_setup False half_onset_world)"

lemma speech_cancels_once_witness:
  "map fst (sw_wire (snd (forward_session_audio bare_setup [5, 6, 7, 8] PolicyInterrupt
       (state_event EvOutput barged_in_world))))
     = [WireSend (barge_in_cancel False), WireSend (audio_message [1, 2, 3, 4]),
        WireSend (audio_message [5, 6, 7, 8])]"
proof -
  have live: "rs_phase (st_response (sw_state half_onset_world)) = ResponseInFlight"
      "rs_id (st_response (sw_state half_onset_world)) = ''r1''" "''r1'' \<noteq> ''''"
    by code_simp+
  have cancel: "send_barge_in_cancel bare_setup False half_onset_world = (None, barged_in_world)"
    by (simp add: barged_in_world_def prod_eq_iff) code_simp
  have later: "list_all (leaves_response ''r1'') [EvOutput]"
      "sw_state (state_event EvOutput barged_in_world) = session_run [EvOutput] (sw_state barged_in_world)"
    by (simp_all add: state_event_def)
  have facts: "sw_wire (state_event EvOutput barged_in_world)
        = [(WireSend (barge_in_cancel False), plain_outcome SendSucceeded)]"
      "on_frames (st_onset (sw_state (state_event EvOutput barged_in_world))) = [[1, 2, 3, 4]]"
    by code_simp+
  have sent: "fst (forward_session_audio bare_setup [5, 6, 7, 8] PolicyInterrupt
       (state_event EvOutput barged_in_world)) = None"
    by code_simp
  show ?thesis
    using speech_cancels_once [OF live disjI1 [OF cancel] later prod.collapse [symmetric],
        of "[5, 6, 7, 8]" PolicyInterrupt] sent facts
    by auto
qed

text \<open>
  Only speech is held to one cancel: an explicit RESPONSE.CANCEL is sent whenever it is forwarded,
  so two of them for one live response are two cancels on the wire.
\<close>

lemma explicit_cancel_sent_again:
  "let cancel = mk_delta StreamResponseCancel RoleUnset (VResponseCancel None);
       w = state_event (EvStart ''r1'' False False) (new_session_world CtxLive [] []);
       w1 = the (forward_queued_event Some bare_setup cancel w);
       w2 = the (forward_queued_event Some bare_setup cancel w1)
   in map fst (sw_wire w2) = [WireSend cancel, WireSend cancel]
      \<and> rs_id (st_response (sw_state w2)) = ''r1''"
  by code_simp

section \<open>A refused tool result\<close>

text \<open>
  The tool results the wire shows refused, each as the stream error the runner reports it with, and
  the requests that ask for a response: every RESPONSE.CREATE but an acknowledgement's.
\<close>

definition refusals :: "runner_setup \<Rightarrow> (wire_item \<times> send_outcome) list \<Rightarrow> stream_message list" where
  "refusals su sent =
     concat (map (\<lambda>(item, out). case item of
         WireSend m \<Rightarrow>
           if sm_type m = StreamToolCallEnd \<and> \<not> send_ok out
           then (case unresolved_send_failure (su_render su) m out of Some f \<Rightarrow> [f] | None \<Rightarrow> []) else []
       | _ \<Rightarrow> []) sent)"

definition asks_for_response :: "stream_message \<Rightarrow> bool" where
  "asks_for_response m \<longleftrightarrow> sm_type m = StreamResponseCreate \<and> \<not> is_acknowledgement_create m"

lemma refusals_append [simp]: "refusals su (a @ b) = refusals su a @ refusals su b"
  by (simp add: refusals_def)

lemma refusals_Nil [simp]: "refusals su [] = []"
  by (simp add: refusals_def)

text \<open>What a step does while a refusal is recorded: the record grows by the refusals it sees.\<close>

definition keeps_refusal :: "runner_setup \<Rightarrow> session_world \<Rightarrow> session_world \<Rightarrow> bool" where
  "keeps_refusal su w w' \<longleftrightarrow>
     (\<exists>sent. sw_wire w' = sw_wire w @ sent
        \<and> bf_failures (st_batch (sw_state w')) = bf_failures (st_batch (sw_state w)) @ refusals su sent
        \<and> bf_rejected (st_batch (sw_state w')) = (bf_rejected (st_batch (sw_state w)) \<or> refusals su sent \<noteq> [])
        \<and> (\<forall>m out. (WireSend m, out) \<in> set sent \<longrightarrow> \<not> asks_for_response m))"

lemma keeps_refusal_same:
  "sw_wire w' = sw_wire w \<Longrightarrow> st_batch (sw_state w') = st_batch (sw_state w) \<Longrightarrow> keeps_refusal su w w'"
  by (simp add: keeps_refusal_def)

lemma keeps_refusal_trans:
  assumes "keeps_refusal su u v" "keeps_refusal su v w"
  shows "keeps_refusal su u w"
proof -
  obtain a b where "sw_wire v = sw_wire u @ a" "sw_wire w = sw_wire v @ b"
      "bf_failures (st_batch (sw_state v)) = bf_failures (st_batch (sw_state u)) @ refusals su a"
      "bf_failures (st_batch (sw_state w)) = bf_failures (st_batch (sw_state v)) @ refusals su b"
      "bf_rejected (st_batch (sw_state v)) = (bf_rejected (st_batch (sw_state u)) \<or> refusals su a \<noteq> [])"
      "bf_rejected (st_batch (sw_state w)) = (bf_rejected (st_batch (sw_state v)) \<or> refusals su b \<noteq> [])"
      "\<forall>m out. (WireSend m, out) \<in> set a \<longrightarrow> \<not> asks_for_response m"
      "\<forall>m out. (WireSend m, out) \<in> set b \<longrightarrow> \<not> asks_for_response m"
    using assms unfolding keeps_refusal_def by metis
  then show ?thesis unfolding keeps_refusal_def by (intro exI [of _ "a @ b"]) auto
qed

lemma frames_untouched:
  "forward_frames su fs w = (e, w') \<Longrightarrow> sw_state w' = sw_state w \<and> sw_ingress w' = sw_ingress w"
proof (induction fs arbitrary: w)
  case (Cons pcm fs)
  obtain e1 w1 where step: "forward_user_audio su pcm w = (e1, w1)" by fastforce
  then have "sw_state w1 = sw_state w \<and> sw_ingress w1 = sw_ingress w"
    by (auto simp: forward_user_audio_def send_with_outcome_def session_send_def session_ask_def Let_def
          split: if_splits list.splits)
  then show ?case using Cons step by (auto split: option.splits)
qed simp

lemma flush_held_keeps: "keeps_refusal su w (flush_held_audio su w)"
    and flush_held_batch: "st_batch (sw_state (flush_held_audio su w)) = st_batch (sw_state w)"
    and flush_held_ingress: "sw_ingress (flush_held_audio su w) = sw_ingress w"
proof -
  obtain e w1 where released: "release_held_audio su w = (e, w1)" by fastforce
  obtain sent where sent: "sw_wire w1 = sw_wire w @ sent"
      "prefix (map fst sent) (map (\<lambda>f. WireSend (audio_message f)) (on_frames (st_onset (sw_state w))))"
    using release_wire [OF released] by metis
  then have audio: "\<exists>f. item = WireSend (audio_message f)" if "(item, out) \<in> set sent" for item out
    using set_mono_prefix [OF sent(2)] that by force
  then have "refusals su sent = []"
    by (force simp: refusals_def audio_message_def mk_delta_def)
  moreover have "\<not> asks_for_response m" if "(WireSend m, out) \<in> set sent" for m out
    using audio [OF that] by (auto simp: asks_for_response_def audio_message_def mk_delta_def)
  moreover have w1: "st_batch (sw_state w1) = st_batch (sw_state w)" "sw_ingress w1 = sw_ingress w"
    using frames_untouched [OF released [unfolded release_held_audio_def]] by (simp_all add: state_event_def)
  moreover have "sw_wire (flush_held_audio su w) = sw_wire w1"
      "st_batch (sw_state (flush_held_audio su w)) = st_batch (sw_state w1)"
      "sw_ingress (flush_held_audio su w) = sw_ingress w1"
    using released
    by (auto simp: flush_held_audio_def publish_audio_failure_def write_session_terminal_def
          split: option.split)
  ultimately show "keeps_refusal su w (flush_held_audio su w)"
      "st_batch (sw_state (flush_held_audio su w)) = st_batch (sw_state w)"
      "sw_ingress (flush_held_audio su w) = sw_ingress w"
    using sent(1) by (auto simp: keeps_refusal_def)
qed

lemma control_send_keeps:
  assumes "cp_outcomes (su_caps su)" "\<not> asks_for_response evt"
  shows "keeps_refusal su w (send_control_event su evt w)"
proof -
  obtain out v where ask: "session_ask (WireSend evt) w = (out, v)" by fastforce
  have v: "sw_wire v = sw_wire w @ [(WireSend evt, out)]" "sw_state v = sw_state w"
    using ask by (auto simp: session_ask_def Let_def split: list.splits)
  have note_batch: "st_batch (note_cancel_sent s) = st_batch s" for s
    by (simp add: note_cancel_sent_def Let_def)
  have plain: "keeps_refusal su w u" if
      "sw_wire u = sw_wire v" "st_batch (sw_state u) = st_batch (sw_state v)"
      "sm_type evt \<noteq> StreamToolCallEnd \<or> send_ok out" for u
    using that v assms(2) unfolding keeps_refusal_def
    by (intro exI [of _ "[(WireSend evt, out)]"]) (auto simp: refusals_def)
  have accepted: "keeps_refusal su w (note_accepted_response evt v)" if "send_ok out"
    using that by (intro plain) (simp_all add: note_accepted_response_def state_event_def)
  show ?thesis
  proof (cases "send_ok out")
    case True
    then show ?thesis
      using accepted note_batch assms(1)
      by (auto simp: send_control_event_def forward_event_outcome_def send_with_outcome_def ask Let_def
            state_event_def intro!: plain)
  next
    case refused: False
    show ?thesis
    proof (cases "sm_type evt = StreamToolCallEnd")
      case True
      then obtain f where "unresolved_send_failure (su_render su) evt out = Some f"
        by (simp add: unresolved_send_failure_def Let_def)
      then show ?thesis
        using True refused assms v unfolding keeps_refusal_def
        by (intro exI [of _ "[(WireSend evt, out)]"])
          (simp add: send_control_event_def forward_event_outcome_def send_with_outcome_def ask Let_def
             note_deferred_failure_def state_event_def refusals_def)
    next
      case False
      then show ?thesis
        using refused assms(1)
        by (auto simp: send_control_event_def forward_event_outcome_def send_with_outcome_def ask Let_def
              write_session_delta_def split: option.split intro!: plain)
    qed
  qed
qed

lemma control_send_ingress: "sw_ingress (send_control_event su evt w) = sw_ingress w"
proof -
  obtain eo v where sent: "forward_event_outcome su evt w = (eo, v)" by fastforce
  obtain out u where asked: "send_with_outcome (su_caps su) evt w = (out, u)" by fastforce
  have "sw_ingress u = sw_ingress w"
    using asked
    by (auto simp: send_with_outcome_def session_send_def session_ask_def Let_def
          split: if_splits list.splits)
  then have "sw_ingress v = sw_ingress w"
    using sent asked
    by (auto simp: forward_event_outcome_def write_session_delta_def Let_def
          split: if_splits option.splits)
  then show ?thesis
    by (simp add: send_control_event_def sent note_deferred_failure_def note_accepted_response_def
          state_event_def Let_def split: option.split)
qed

definition tool_events :: "stream_message list \<Rightarrow> nat" where
  "tool_events es = length (filter is_session_tool_event es)"

lemma queued_event_keeps:
  assumes "cp_outcomes (su_caps su)" "\<not> asks_for_response evt"
  shows "\<exists>w'. forward_queued_event sync su evt w = Some w' \<and> keeps_refusal su w w'
    \<and> ig_tools (sw_ingress w') = ig_tools (sw_ingress w) - tool_events [evt]"
proof -
  have control: "\<exists>v'. control_event sync su evt v = Some v' \<and> keeps_refusal su v v'
      \<and> ig_tools (sw_ingress v') = ig_tools (sw_ingress v) - tool_events [evt]" for v
  proof -
    have not_batch: "suppress_rejected_batch evt v = None" "\<not> is_continuation_create evt"
      using assms(2)
      by (auto simp: suppress_rejected_batch_def asks_for_response_def is_continuation_create_def
            is_acknowledgement_create_def is_tool_continuation_def is_tool_acknowledgement_def
            split: option.splits stream_value.splits)
    have marked: "keeps_refusal su v (mark_tool_event_consumed evt u)" if "keeps_refusal su v u" for u
      using that by (auto simp: mark_tool_event_consumed_def keeps_refusal_def)
    have consumed: "ig_tools (sw_ingress (mark_tool_event_consumed evt u))
        = ig_tools (sw_ingress u) - tool_events [evt]" for u
      by (simp add: mark_tool_event_consumed_def tool_consumed_def tool_events_def)
    have held: "keeps_refusal su v (state_event (EvHold evt) v)"
      by (rule keeps_refusal_same)
        (auto simp: state_event_def hold_for_acknowledgement_def Let_def)
    have deferred: "keeps_refusal su v (state_event (EvDefer evt) (state_event (EvHold evt) v))"
      by (rule keeps_refusal_trans [OF held], rule keeps_refusal_same) (simp_all add: state_event_def)
    have plain: "sw_ingress (state_event ev u) = sw_ingress u" for ev u
      by (simp add: state_event_def)
    have no_tool: "defer_response_request evt s \<Longrightarrow> tool_events [evt] = 0"
        "fst (hold_for_acknowledgement evt s) \<Longrightarrow> is_acknowledgement_create evt" for s
      using assms(2) not_batch(2)
      by (auto simp: tool_events_def is_session_tool_event_def defer_response_request_def
            hold_for_acknowledgement_def asks_for_response_def Let_def split: if_splits)
    note sent = keeps_refusal_trans [OF held control_send_keeps [OF assms]]
    show ?thesis
      using not_batch held deferred marked [OF held] marked [OF sent] no_tool
      by (auto simp: control_event_def Let_def consumed plain control_send_ingress)
  qed
  show ?thesis
  proof (cases "sm_type evt = StreamResponseCancel")
    case True
    then show ?thesis
      using control [of w] flush_held_keeps keeps_refusal_trans
      by (fastforce simp: forward_queued_event_def flush_held_ingress)
  next
    case False
    then show ?thesis
      using control [of "flush_held_audio su w"] keeps_refusal_trans [OF flush_held_keeps]
      by (auto simp: forward_queued_event_def flush_held_ingress)
  qed
qed

lemma events_keep_refusal:
  assumes "cp_outcomes (su_caps su)"
  shows "\<forall>e \<in> set es. \<not> asks_for_response e \<Longrightarrow>
    \<exists>w'. forward_events sync su es w = Some w' \<and> keeps_refusal su w w'
      \<and> ig_tools (sw_ingress w') = ig_tools (sw_ingress w) - tool_events es"
proof (induction es arbitrary: w)
  case (Cons e es)
  then obtain w1 where w1: "forward_queued_event sync su e w = Some w1" "keeps_refusal su w w1"
      "ig_tools (sw_ingress w1) = ig_tools (sw_ingress w) - tool_events [e]"
    using queued_event_keeps [OF assms, of e sync w] by auto
  obtain w2 where "forward_events sync su es w1 = Some w2" "keeps_refusal su w1 w2"
      "ig_tools (sw_ingress w2) = ig_tools (sw_ingress w1) - tool_events es"
    using Cons by auto
  then show ?case using w1 keeps_refusal_trans by (auto simp: tool_events_def)
qed (simp add: keeps_refusal_same tool_events_def)

lemma request_after_refusal:
  assumes "asks_for_response request" "bf_rejected (st_batch (sw_state w))"
    and "v = flush_held_audio su w"
  shows "\<exists>w'. forward_queued_event sync su request w = Some w' \<and> sw_wire w' = sw_wire v
    \<and> sw_deltas w' = sw_deltas v @ map (\<lambda>d. (d, False)) (bf_failures (st_batch (sw_state w)))
    \<and> sw_continuation w' = ToolContinuationSuppressed
    \<and> st_batch (sw_state w') = \<lparr>bf_failures = [], bf_rejected = False\<rparr>
    \<and> ig_tools (sw_ingress w') = ig_tools (sw_ingress w) - 1"
proof -
  have written: "flush_send_errors ms u = u\<lparr>sw_deltas := sw_deltas u @ map (\<lambda>d. (d, False)) ms\<rparr>" for ms u
  proof (induction ms arbitrary: u)
    case (Cons m ms)
    then show ?case by (simp add: flush_send_errors_def write_session_delta_def)
  qed (simp add: flush_send_errors_def)
  have "st_batch (sw_state v) = st_batch (sw_state w)" "sw_ingress v = sw_ingress w"
    by (simp_all add: assms(3) flush_held_batch flush_held_ingress)
  then show ?thesis
    using assms(1,2)
    by (simp add: forward_queued_event_def control_event_def suppress_rejected_batch_def
          asks_for_response_def assms(3) [symmetric] is_session_tool_event_def tool_consumed_def flush_batch_failures_def written state_event_def
          take_failures_def mark_tool_event_consumed_def)
qed

text \<open>
  C25: when the provider refuses a tool result, the next request for a response is consumed unsent,
  whatever control events come between: accepted or refused sibling results, cancels, updates,
  acknowledgement requests. Nothing written up to then asks for a response. Consuming the request
  publishes every refusal the wire shows since the result, after the failures the batch already
  had, once each and in order; it records the continuation as suppressed and leaves the batch empty.
  Every tool event among them is counted forwarded exactly once.
\<close>

theorem refused_result_suppresses_continuation:
  assumes "cp_outcomes (su_caps su)" and "sw_outcomes w = answer # later_answers" and "\<not> send_ok answer"
    and "on_frames (st_onset (sw_state w)) = []"
    and "sm_type result = StreamToolCallEnd"
    and "\<forall>e \<in> set between. \<not> asks_for_response e" and "asks_for_response request"
  shows "\<exists>w1 w2 sent failure. forward_events sync su (result # between) w = Some w1
    \<and> forward_queued_event sync su request w1 = Some w2
    \<and> unresolved_send_failure (su_render su) result answer = Some failure
    \<and> sw_wire w2 = sw_wire w @ (WireSend result, answer) # sent
    \<and> (between = [] \<longrightarrow> sent = [])
    \<and> (\<forall>m out. (WireSend m, out) \<in> set sent \<longrightarrow> \<not> asks_for_response m)
    \<and> sw_deltas w2 = sw_deltas (flush_held_audio su w1)
         @ map (\<lambda>d. (d, False)) (bf_failures (st_batch (sw_state w)) @ failure # refusals su sent)
    \<and> (between = [] \<longrightarrow> sw_deltas (flush_held_audio su w1) = sw_deltas w)
    \<and> sw_continuation w2 = ToolContinuationSuppressed
    \<and> st_batch (sw_state w2) = \<lparr>bf_failures = [], bf_rejected = False\<rparr>
    \<and> ig_tools (sw_ingress w2) = ig_tools (sw_ingress w) - tool_events (result # between @ [request])"
proof -
  obtain failure where failure: "unresolved_send_failure (su_render su) result answer = Some failure"
    using assms(5) by (simp add: unresolved_send_failure_def Let_def)
  have flushed: "flush_held_audio su v = state_event EvTakeFrames v"
    if "on_frames (st_onset (sw_state v)) = []" for v
    using that by (simp add: flush_held_audio_def release_held_audio_def onset_take_def)
  have type: "\<not> is_continuation_create result" "\<not> defer_response_request result s"
      "\<not> fst (hold_for_acknowledgement result s)" "snd (hold_for_acknowledgement result s) = s" for s
    using assms(5)
    by (simp_all add: is_continuation_create_def defer_response_request_def hold_for_acknowledgement_def
          Let_def)
  define w0 where "w0 = mark_tool_event_consumed result
      (send_control_event su result (state_event (EvHold result) (state_event EvTakeFrames w)))"
  have run0: "forward_queued_event sync su result w = Some w0"
    using assms(5) flushed [OF assms(4)] type
    by (simp add: forward_queued_event_def control_event_def suppress_rejected_batch_def w0_def Let_def)
  have w0: "sw_wire w0 = sw_wire w @ [(WireSend result, answer)]" "sw_deltas w0 = sw_deltas w"
      "st_batch (sw_state w0) = \<lparr>bf_failures = bf_failures (st_batch (sw_state w)) @ [failure],
         bf_rejected = True\<rparr>"
      "on_frames (st_onset (sw_state w0)) = []"
      "ig_tools (sw_ingress w0) = ig_tools (sw_ingress w) - 1"
    using assms(1-5) failure type
    by (simp_all add: w0_def send_control_event_def forward_event_outcome_def send_with_outcome_def
          session_ask_def note_deferred_failure_def state_event_def onset_take_def
          mark_tool_event_consumed_def is_session_tool_event_def tool_consumed_def Let_def)
  obtain w1 where w1: "forward_events sync su between w0 = Some w1" "keeps_refusal su w0 w1"
      "ig_tools (sw_ingress w1) = ig_tools (sw_ingress w0) - tool_events between"
    using events_keep_refusal [OF assms(1,6)] by blast
  then obtain sent where sent: "sw_wire w1 = sw_wire w0 @ sent"
      "bf_failures (st_batch (sw_state w1)) = bf_failures (st_batch (sw_state w0)) @ refusals su sent"
      "bf_rejected (st_batch (sw_state w1))"
      "\<forall>m out. (WireSend m, out) \<in> set sent \<longrightarrow> \<not> asks_for_response m"
    using w0(3) unfolding keeps_refusal_def by auto
  obtain held where held: "sw_wire (flush_held_audio su w1) = sw_wire w1 @ held"
      "refusals su held = []" "\<forall>m out. (WireSend m, out) \<in> set held \<longrightarrow> \<not> asks_for_response m"
    using flush_held_keeps [of su w1] flush_held_batch [of su w1] unfolding keeps_refusal_def by auto
  have alone: "held = []" "sw_deltas (flush_held_audio su w1) = sw_deltas w1" if "w1 = w0"
    using flushed [of w0] that w0(4) held(1) by (simp_all add: state_event_def)
  obtain w2 where w2: "forward_queued_event sync su request w1 = Some w2"
      "sw_wire w2 = sw_wire (flush_held_audio su w1)"
      "sw_deltas w2 = sw_deltas (flush_held_audio su w1)
         @ map (\<lambda>d. (d, False)) (bf_failures (st_batch (sw_state w1)))"
      "sw_continuation w2 = ToolContinuationSuppressed"
      "st_batch (sw_state w2) = \<lparr>bf_failures = [], bf_rejected = False\<rparr>"
      "ig_tools (sw_ingress w2) = ig_tools (sw_ingress w1) - 1"
    using request_after_refusal [OF assms(7) sent(3) refl] by blast
  have counted: "tool_events (result # between @ [request]) = 1 + tool_events between + 1"
    using assms(5,7) by (simp add: tool_events_def is_session_tool_event_def asks_for_response_def)
  have none: "between = [] \<longrightarrow> w1 = w0 \<and> sent = []" using w1(1) sent(1) by auto
  show ?thesis
    using run0 w0 w1 sent held w2 failure alone none unfolding counted
    by (intro exI [of _ w1] exI [of _ w2] exI [of _ "sent @ held"] exI [of _ failure]) auto
qed

definition refused_result :: stream_message where
  "refused_result = mk_delta StreamToolCallEnd RoleUnset (VToolCallEnd ''c1'' ''tool'' ''ok'')"

definition sibling_result :: stream_message where
  "sibling_result = mk_delta StreamToolCallEnd RoleUnset (VToolCallEnd ''c2'' ''tool'' ''ok'')"

text \<open>The first result of a batch is refused, its sibling accepted, a third refused again.\<close>

lemma refused_result_suppresses_continuation_witness:
  "\<exists>w1 w2 sent failure. forward_events Some bare_setup (refused_result # [sibling_result, refused_result])
       (new_session_world CtxLive [plain_outcome SendClosed, plain_outcome SendSucceeded,
          plain_outcome SendClosed] []) = Some w1
     \<and> forward_queued_event Some bare_setup continuation_event w1 = Some w2
     \<and> sw_wire w2 = (WireSend refused_result, plain_outcome SendClosed) # sent
     \<and> st_batch (sw_state w2) = \<lparr>bf_failures = [], bf_rejected = False\<rparr>"
proof -
  let ?w = "new_session_world CtxLive [plain_outcome SendClosed, plain_outcome SendSucceeded,
          plain_outcome SendClosed] []"
  have given: "cp_outcomes (su_caps bare_setup)"
      "sw_outcomes ?w = plain_outcome SendClosed # [plain_outcome SendSucceeded, plain_outcome SendClosed]"
      "\<not> send_ok (plain_outcome SendClosed)"
      "on_frames (st_onset (sw_state ?w)) = []"
      "sm_type refused_result = StreamToolCallEnd"
      "\<forall>e \<in> set [sibling_result, refused_result]. \<not> asks_for_response e"
      "asks_for_response continuation_event"
    by code_simp+
  have "sw_wire ?w = []" by code_simp
  then show ?thesis
    using refused_result_suppresses_continuation [OF given, of Some] by auto
qed

text \<open>
  The consumed request need not be the batch's own. A customer's RESPONSE.CREATE forwarded between
  the refused result and the batch's continuation is the one swallowed, and the continuation of the
  partially delivered batch is then requested.
\<close>

definition customer_request :: stream_message where
  "customer_request = mk_delta StreamResponseCreate RoleUnset (VResponseCreate None)"

lemma refused_batch_continued_after_customer_request:
  "let w = new_session_world CtxLive [plain_outcome SendClosed] [];
       w1 = the (forward_events Some bare_setup [refused_result, customer_request, continuation_event] w)
   in map fst (sw_wire w1) = [WireSend refused_result, WireSend continuation_event]"
  by code_simp

text \<open>
  A continuation request the provider refuses publishes its failure at once, and the runner's record
  of the continuation stays as it was: the branch that would mark it suppressed tests a failure
  that only a tool result returns. The coordinator's request that follows finds no record and
  sends the user's text again.
\<close>

lemma refused_continuation_not_recorded:
  assumes "sm_type evt = StreamResponseCreate"
    and "forward_event_outcome su evt w = (eo, w1)" "\<not> eo_admitted eo"
  shows "sw_continuation (send_control_event su evt w) = sw_continuation w"
proof -
  have "eo_failure eo = None" "\<not> eo_deferred eo" "\<not> eo_accepted eo" "sw_continuation w1 = sw_continuation w"
    using assms
    by (auto simp: forward_event_outcome_def Let_def write_session_delta_def send_with_outcome_def
          session_send_def session_ask_def split: if_splits option.splits prod.splits list.splits)
  then show ?thesis using assms by (simp add: send_control_event_def)
qed

lemma refused_continuation_resends_user_text:
  "let history = [new_text_message RoleUser ''hi'',
         zero_message\<lparr>m_role := RoleTool, m_tool_call_id := ''c1'', m_parts := [TextPart ''ok'']\<rparr>];
       w1 = the (forward_queued_event Some bare_setup continuation_event
              (new_session_world CtxLive [plain_outcome SendBufferFull] []));
       w2 = send_latest_user_text bare_session history w1
   in map fst (sw_wire w2) = [WireSend continuation_event,
        WireSend (mk_delta StreamTextDelta RoleUnset (VTextDelta ''hi''))]"
  by code_simp

end
