(* ===== verification/Pcm_Timing.thy ===== *)
theory Pcm_Timing
  imports Prelude
begin

text \<open>
  Sample and duration arithmetic of the audio library, \<^verbatim>\<open>go-audio/pkg/audio/format.go\<close> and
  \<^verbatim>\<open>pcm16_frame_size.go\<close>. A Go \<^verbatim>\<open>int\<close>, \<^verbatim>\<open>uint64\<close> or \<^verbatim>\<open>time.Duration\<close> is a 64-bit word,
  read signed or unsigned as the code does, so every product and sum wraps as in Go;
  \<^verbatim>\<open>math/bits\<close> and \<^verbatim>\<open>math/big\<close> are modelled on integers.
\<close>

type_synonym go_int = "64 word"

definition nanos_per_second :: go_int where
  "nanos_per_second = 1000000000"

definition max_int64 :: go_int where
  "max_int64 = 0x7FFFFFFFFFFFFFFF"

definition max_uint64 :: go_int where
  "max_uint64 = - 1"

lemma uint_constants [simp]:
  "uint nanos_per_second = 1000000000" "uint max_int64 = 2 ^ 63 - 1" "uint max_uint64 = 2 ^ 64 - 1"
  by (simp_all add: nanos_per_second_def max_int64_def max_uint64_def unsigned_minus_1_eq_mask mask_eq_exp_minus_1)

section \<open>Words as integers\<close>

lemma uint_below: "uint (w :: go_int) < 2 ^ 64" "0 \<le> uint (w :: go_int)"
  using uint_lt2p [of w] by simp_all

lemma uint_times: "uint a * uint b < 2 ^ 64 \<Longrightarrow> uint (a * b :: go_int) = uint a * uint b"
  by (simp add: uint_word_ariths)

lemma uint_plus: "uint a + uint b < 2 ^ 64 \<Longrightarrow> uint (a + b :: go_int) = uint a + uint b"
  by (simp add: uint_word_ariths)

lemma uint_minus: "uint b \<le> uint a \<Longrightarrow> uint (a - b :: go_int) = uint a - uint b"
  by (simp add: uint_sub_if')

lemma word_eq_iff_uint: "(a :: go_int) = b \<longleftrightarrow> uint a = uint b"
  by (simp add: word_uint_eq_iff)

text \<open>A word that is positive as a signed number is the same number unsigned, below \<^verbatim>\<open>2^63\<close>.\<close>

lemma signed_nonneg:
  assumes "0 \<le> sint (w :: go_int)"
  shows "uint w = sint w" "uint w < 2 ^ 63"
proof -
  have "sint w = take_bit 64 (uint w) - 2 ^ 64 * of_bool (bit (uint w) 63)"
    by (simp add: sint_uint signed_take_bit_eq_take_bit_minus)
  then have "sint w = uint w - 2 ^ 64 * of_bool (bit (uint w) 63)"
    using uint_below [of w] by (simp add: take_bit_int_eq_self)
  then show "uint w = sint w" using assms uint_below [of w] by (simp add: of_bool_def split: if_splits)
  then show "uint w < 2 ^ 63" using sint_lt [of w] by simp
qed

lemma signed_positive: "\<not> sint (w :: go_int) \<le> 0 \<Longrightarrow> 0 < uint w \<and> uint w < 2 ^ 63"
  using signed_nonneg [of w] by simp

lemma quotient_below:
  assumes "0 < c" and "a < b * c"
  shows "a div c < (b :: int)"
proof (rule ccontr)
  assume "\<not> a div c < b"
  then have "b * c \<le> a div c * c" using assms(1) by (intro mult_right_mono) simp_all
  also have "\<dots> \<le> a" using div_mult_mod_eq [of a c] pos_mod_sign [OF assms(1), of a] by linarith
  finally show False using assms(2) by simp
qed

section \<open>Wide multiplication and division\<close>

text \<open>\<^verbatim>\<open>bits.Mul64\<close>, and \<^verbatim>\<open>bits.Div64\<close>, which panics (\<^verbatim>\<open>None\<close>) on a quotient that does not fit.\<close>

definition mul64 :: "go_int \<Rightarrow> go_int \<Rightarrow> go_int \<times> go_int" where
  "mul64 x y = (word_of_int (uint x * uint y div 2 ^ 64), x * y)"

definition div64 :: "go_int \<Rightarrow> go_int \<Rightarrow> go_int \<Rightarrow> (go_int \<times> go_int) option" where
  "div64 hi lo y =
     (if y = 0 \<or> y \<le> hi then None
      else (let n = uint hi * 2 ^ 64 + uint lo
            in Some (word_of_int (n div uint y), word_of_int (n mod uint y))))"

lemma uint_of_small: "0 \<le> k \<Longrightarrow> k < 2 ^ 64 \<Longrightarrow> uint (word_of_int k :: go_int) = k"
  by (simp add: uint_word_of_int)

lemma div64_mul64:
  assumes "uint x < uint y"
  shows "\<exists>r. case_prod div64 (mul64 x z) y = Some (word_of_int (uint x * uint z div uint y), r)"
    and "uint x * uint z div uint y < 2 ^ 64"
proof -
  have z: "0 \<le> uint z" "uint z < 2 ^ 64" and x: "0 \<le> uint x" and y: "0 < uint y" "uint y < 2 ^ 64"
    using uint_below [of z] uint_below [of x] uint_below [of y] assms by linarith+
  have "uint x * uint z \<le> uint x * 2 ^ 64" using z x by (intro mult_left_mono) simp_all
  also have "\<dots> < uint y * 2 ^ 64" using assms by simp
  finally have "uint x * uint z < uint y * 2 ^ 64" .
  then show bound: "uint x * uint z div uint y < 2 ^ 64"
    using y by (intro quotient_below) (simp_all add: mult.commute)
  have "uint x * uint z div 2 ^ 64 < uint y"
    by (intro quotient_below) (use \<open>uint x * uint z < uint y * 2 ^ 64\<close> in simp_all)
  then have hi: "uint (word_of_int (uint x * uint z div 2 ^ 64) :: go_int) = uint x * uint z div 2 ^ 64"
    using y z x by (intro uint_of_small pos_imp_zdiv_nonneg_iff [THEN iffD2]) auto
  have lo: "uint (x * z) = uint x * uint z mod 2 ^ 64"
    by (simp add: uint_word_ariths)
  show "\<exists>r. case_prod div64 (mul64 x z) y = Some (word_of_int (uint x * uint z div uint y), r)"
    using hi lo \<open>uint x * uint z div 2 ^ 64 < uint y\<close> y
    by (auto simp: div64_def mul64_def word_le_def Let_def)
qed

section \<open>The duration of a payload\<close>

datatype duration_error =
    DurationArguments go_int go_int go_int
  | DurationUnaligned go_int go_int
  | DurationOverflow

text \<open>\<^verbatim>\<open>PCM16Duration\<close>; \<^verbatim>\<open>None\<close> is the panic of \<^verbatim>\<open>bits.Div64\<close>.\<close>

definition pcm16_duration :: "go_int \<Rightarrow> go_int \<Rightarrow> go_int \<Rightarrow> (duration_error + go_int) option" where
  "pcm16_duration byte_count sample_rate channels =
     (if sint byte_count < 0 \<or> sint sample_rate \<le> 0 \<or> sint channels \<le> 0
      then Some (Inl (DurationArguments byte_count sample_rate channels))
      else (let frame_bytes = channels * 2 in
            if frame_bytes div 2 \<noteq> channels \<or> byte_count mod frame_bytes \<noteq> 0
            then Some (Inl (DurationUnaligned byte_count channels))
            else (let frames = byte_count div frame_bytes;
                      seconds = frames div sample_rate
                  in if seconds > max_int64 div nanos_per_second then Some (Inl DurationOverflow)
                     else (let nanos = seconds * nanos_per_second;
                               remaining = frames mod sample_rate
                           in if remaining \<noteq> 0
                              then (case case_prod div64 (mul64 remaining nanos_per_second) sample_rate of
                                      None \<Rightarrow> None
                                    | Some (fraction, _) \<Rightarrow>
                                        if fraction > max_int64 - nanos then Some (Inl DurationOverflow)
                                        else Some (Inr (nanos + fraction)))
                              else Some (Inr nanos)))))"

definition exact_duration :: "go_int \<Rightarrow> go_int \<Rightarrow> go_int \<Rightarrow> int" where
  "exact_duration byte_count sample_rate channels =
     uint byte_count div (2 * uint channels) * 1000000000 div uint sample_rate"

lemma split_division:
  "0 < r \<Longrightarrow> n * c div r = n div r * c + n mod r * c div (r :: int)"
proof -
  assume r: "0 < r"
  have "n * c = r * (n div r * c) + n mod r * c"
    using mult_div_mod_eq [of r n] by (metis distrib_right mult.assoc)
  then show ?thesis using r by (metis div_mult_self2 add.commute less_irrefl)
qed

text \<open>
  C35: the duration of a PCM16 payload is exact: for a positive rate and channel count and whole
  frames it is the floor of the exact nanoseconds, or the overflow error precisely when that does
  not fit a \<^verbatim>\<open>time.Duration\<close>; the other arguments are refused. No intermediate wraps and the wide
  division never panics, on any 64-bit arguments.
\<close>

theorem pcm16_duration_exact:
  "pcm16_duration bytes rate channels = Some
     (if sint bytes < 0 \<or> sint rate \<le> 0 \<or> sint channels \<le> 0
      then Inl (DurationArguments bytes rate channels)
      else if uint bytes mod (2 * uint channels) \<noteq> 0 then Inl (DurationUnaligned bytes channels)
      else if exact_duration bytes rate channels \<ge> 2 ^ 63 then Inl DurationOverflow
      else Inr (word_of_int (exact_duration bytes rate channels)))"
proof (cases "sint bytes < 0 \<or> sint rate \<le> 0 \<or> sint channels \<le> 0")
  case False
  then have b: "uint bytes < 2 ^ 63" and r: "0 < uint rate" "uint rate < 2 ^ 63"
      and c: "0 < uint channels" "uint channels < 2 ^ 63"
    using signed_nonneg [of bytes] signed_positive [of rate] signed_positive [of channels] by auto
  have two: "uint (channels * 2) = 2 * uint channels"
    using c by (subst uint_times) simp_all
  have aligned: "channels * 2 div 2 = channels"
    using two by (simp add: word_eq_iff_uint uint_div)
  have misfit: "bytes mod (channels * 2) \<noteq> 0 \<longleftrightarrow> uint bytes mod (2 * uint channels) \<noteq> 0"
    by (simp add: word_eq_iff_uint uint_mod two)
  define frames where "frames = bytes div (channels * 2)"
  have f: "uint frames = uint bytes div (2 * uint channels)"
    by (simp add: frames_def uint_div two)
  define seconds where "seconds = frames div rate"
  define remaining where "remaining = frames mod rate"
  have sec: "uint seconds = uint frames div uint rate" and rem: "uint remaining = uint frames mod uint rate"
    by (simp_all add: seconds_def remaining_def uint_div uint_mod)
  define fraction where "fraction = uint remaining * 1000000000 div uint rate"
  have below: "uint remaining < uint rate" using rem r by simp
  have exact: "exact_duration bytes rate channels = uint seconds * 1000000000 + fraction"
    using split_division [OF r(1), of "uint frames" 1000000000]
    by (simp add: exact_duration_def f sec rem fraction_def)
  have frac: "0 \<le> fraction" "fraction < 1000000000"
  proof -
    show "0 \<le> fraction" using uint_below(2) [of remaining] r by (simp add: fraction_def pos_imp_zdiv_nonneg_iff)
    have "uint remaining * 1000000000 < uint rate * 1000000000" using below by simp
    then show "fraction < 1000000000"
      unfolding fraction_def by (intro quotient_below r) (simp add: mult.commute)
  qed
  obtain rest where wide: "case_prod div64 (mul64 remaining nanos_per_second) rate
      = Some (word_of_int fraction, rest)"
    using div64_mul64(1) [OF below, of nanos_per_second] by (auto simp: fraction_def)
  have frac_word: "uint (word_of_int fraction :: go_int) = fraction"
    using frac by (intro uint_of_small) auto
  have limit: "seconds > max_int64 div nanos_per_second \<longleftrightarrow> uint seconds > 9223372036"
    by (simp add: word_less_alt uint_div)
  show ?thesis
  proof (cases "uint bytes mod (2 * uint channels) \<noteq> 0")
    case True
    then show ?thesis using False aligned misfit by (simp add: pcm16_duration_def Let_def)
  next
    case whole: False
    show ?thesis
    proof (cases "uint seconds > 9223372036")
      case True
      then have "exact_duration bytes rate channels \<ge> 2 ^ 63" using exact frac by simp
      then show ?thesis
        using False whole aligned misfit limit True
        by (simp add: pcm16_duration_def Let_def frames_def [symmetric] seconds_def [symmetric])
    next
      case fits: False
      have nanos: "uint (seconds * nanos_per_second) = uint seconds * 1000000000"
        using fits uint_below(2) [of seconds] by (subst uint_times) simp_all
      have room: "uint (max_int64 - seconds * nanos_per_second) = 2 ^ 63 - 1 - uint seconds * 1000000000"
        using fits nanos by (subst uint_minus) simp_all
      have over: "word_of_int fraction > max_int64 - seconds * nanos_per_second
          \<longleftrightarrow> exact_duration bytes rate channels \<ge> 2 ^ 63"
        using exact by (auto simp: word_less_alt frac_word room)
      have sum: "seconds * nanos_per_second + word_of_int fraction
          = word_of_int (exact_duration bytes rate channels)"
        by (simp add: exact nanos_per_second_def flip: wi_hom_add wi_hom_mult)
      have none: "remaining = 0 \<Longrightarrow> fraction = 0" by (simp add: fraction_def)
      have small: "fraction = 0 \<Longrightarrow> exact_duration bytes rate channels < 2 ^ 63"
        using exact fits by simp
      show ?thesis
        using False whole aligned misfit limit fits over sum none small wide
        by (auto simp: pcm16_duration_def Let_def frames_def [symmetric] seconds_def [symmetric]
              remaining_def [symmetric])
    qed
  qed
qed (simp add: pcm16_duration_def)

section \<open>Frame sizes\<close>

datatype frame_size_error =
    FrameArguments go_int go_int go_int
  | FrameOutOfRange go_int go_int
  | FrameUnaligned go_int go_int
  | FrameChannelsOutOfRange go_int go_int
  | FrameBytesOutOfRange go_int
  | CapacityArguments go_int go_int
  | CapacityOutOfRange go_int go_int

definition checked_pcm16_uint64_product :: "go_int \<Rightarrow> go_int \<Rightarrow> go_int \<times> bool" where
  "checked_pcm16_uint64_product left right =
     (if left \<noteq> 0 \<and> right > max_uint64 div left then (0, True) else (left * right, False))"

definition checked_pcm16_uint64_sum :: "go_int \<Rightarrow> go_int \<Rightarrow> go_int \<times> bool" where
  "checked_pcm16_uint64_sum left right =
     (if right > max_uint64 - left then (0, True) else (left + right, False))"

definition pcm16_frame_samples_per_channel :: "go_int \<Rightarrow> go_int \<Rightarrow> frame_size_error + go_int" where
  "pcm16_frame_samples_per_channel rate duration =
     (let whole_seconds = duration div nanos_per_second;
          remaining_nanos = duration mod nanos_per_second
      in case checked_pcm16_uint64_product rate whole_seconds of
           (whole_samples, overflow) \<Rightarrow>
             if overflow then Inl (FrameOutOfRange rate duration)
             else (let rate_whole = rate div nanos_per_second;
                       rate_remainder = rate mod nanos_per_second;
                       fractional_product = rate_remainder * remaining_nanos;
                       fractional_samples =
                         rate_whole * remaining_nanos + fractional_product div nanos_per_second
                   in if fractional_product mod nanos_per_second \<noteq> 0
                      then Inl (FrameUnaligned rate duration)
                      else (case checked_pcm16_uint64_sum whole_samples fractional_samples of
                              (samples, overflow) \<Rightarrow>
                                if overflow \<or> samples = 0 then Inl (FrameOutOfRange rate duration)
                                else Inr samples)))"

definition pcm16_frame_samples ::
    "go_int \<Rightarrow> go_int \<Rightarrow> go_int \<Rightarrow> frame_size_error + go_int" where
  "pcm16_frame_samples rate channels duration =
     (if sint rate \<le> 0 \<or> sint channels \<le> 0 \<or> sint duration \<le> 0
      then Inl (FrameArguments rate channels duration)
      else (case pcm16_frame_samples_per_channel rate duration of
              Inl e \<Rightarrow> Inl e
            | Inr per_channel \<Rightarrow>
                if per_channel > max_int64 div channels
                then Inl (FrameChannelsOutOfRange per_channel channels)
                else Inr (per_channel * channels)))"

definition pcm16_frame_bytes ::
    "go_int \<Rightarrow> go_int \<Rightarrow> go_int \<Rightarrow> frame_size_error + go_int" where
  "pcm16_frame_bytes rate channels duration =
     (case pcm16_frame_samples rate channels duration of
        Inl e \<Rightarrow> Inl e
      | Inr samples \<Rightarrow>
          if sint samples > sint (max_int64 div 2) then Inl (FrameBytesOutOfRange samples)
          else Inr (samples * 2))"

definition pcm16_byte_capacity :: "go_int \<Rightarrow> go_int \<Rightarrow> frame_size_error + go_int" where
  "pcm16_byte_capacity frame_count frame_bytes =
     (if sint frame_count < 0 \<or> sint frame_bytes < 0 then Inl (CapacityArguments frame_count frame_bytes)
      else if frame_count = 0 \<or> frame_bytes = 0 then Inr 0
      else if sint frame_count > sint (max_int64 div frame_bytes)
      then Inl (CapacityOutOfRange frame_count frame_bytes)
      else Inr (frame_count * frame_bytes))"

text \<open>The wide path computes on \<^verbatim>\<open>big.Int\<close>, which is \<^typ>\<open>int\<close>.\<close>

definition pcm16_byte_duration_wide :: "go_int \<Rightarrow> go_int \<Rightarrow> go_int \<Rightarrow> go_int" where
  "pcm16_byte_duration_wide byte_count rate channels =
     (let quotient = uint byte_count * uint nanos_per_second div (uint rate * uint channels * 2)
      in if quotient < - (2 ^ 63) \<or> 2 ^ 63 \<le> quotient then max_int64 else word_of_int quotient)"

definition pcm16_byte_duration :: "go_int \<Rightarrow> go_int \<Rightarrow> go_int \<Rightarrow> go_int" where
  "pcm16_byte_duration byte_count rate channels =
     (if sint byte_count \<le> 0 \<or> sint rate \<le> 0 \<or> sint channels \<le> 0 then 0
      else if rate \<le> max_uint64 div channels \<and> rate * channels \<le> max_uint64 div 2
              \<and> byte_count \<le> max_uint64 div nanos_per_second
      then (let nanoseconds = byte_count * nanos_per_second div (rate * channels * 2)
            in if nanoseconds > max_int64 then max_int64 else nanoseconds)
      else pcm16_byte_duration_wide byte_count rate channels)"

subsection \<open>The checked operations\<close>

lemma sint_of_uint:
  assumes "uint (w :: go_int) < 2 ^ 63"
  shows "sint w = uint w"
proof -
  have "\<not> bit (uint w) 63"
    using assms uint_below(2) [of w] by (simp add: bit_iff_odd div_pos_pos_trivial)
  then show ?thesis
    using uint_below [of w]
    by (simp add: sint_uint signed_take_bit_eq_take_bit_minus take_bit_int_eq_self)
qed

lemma le_quotient:
  assumes "0 < (c :: int)"
  shows "a \<le> b div c \<longleftrightarrow> a * c \<le> b"
proof
  assume "a \<le> b div c"
  then have "a * c \<le> b div c * c" using assms by (intro mult_right_mono) simp_all
  then show "a * c \<le> b" using div_mult_mod_eq [of b c] pos_mod_sign [OF assms(1), of b] by linarith
next
  assume "a * c \<le> b"
  then have "a * c div c \<le> b div c" using assms by (rule zdiv_mono1)
  then show "a \<le> b div c" using assms by simp
qed

lemma checked_product:
  "checked_pcm16_uint64_product a b
     = (if uint a * uint b < 2 ^ 64 then (a * b, False) else (0, True))"
proof (cases "a = 0")
  case False
  then have "0 < uint a" using uint_below(2) [of a] by (simp add: word_eq_iff_uint order_less_le)
  then have "b > max_uint64 div a \<longleftrightarrow> \<not> uint b * uint a \<le> 2 ^ 64 - 1"
    using le_quotient [OF \<open>0 < uint a\<close>, of "uint b" "2 ^ 64 - 1"]
    by (simp only: word_less_alt uint_div uint_constants not_le [symmetric])
  then have "b > max_uint64 div a \<longleftrightarrow> \<not> uint a * uint b < 2 ^ 64"
    by (simp only: mult.commute) linarith
  then show ?thesis using False by (simp add: checked_pcm16_uint64_product_def)
qed (simp add: checked_pcm16_uint64_product_def)

lemma checked_sum:
  "checked_pcm16_uint64_sum a b
     = (if uint a + uint b < 2 ^ 64 then (a + b, False) else (0, True))"
proof -
  have "uint (max_uint64 - a) = 2 ^ 64 - 1 - uint a"
    using uint_below [of a] by (subst uint_minus) simp_all
  then show ?thesis by (auto simp: checked_pcm16_uint64_sum_def word_less_alt)
qed

subsection \<open>Exactness of the sample count\<close>

lemma split_product:
  fixes rate duration n :: int
  assumes "0 < n"
  shows "rate * duration =
      (rate * (duration div n) + rate div n * (duration mod n)) * n + rate mod n * (duration mod n)"
proof -
  have "rate * duration = rate * (duration div n * n + duration mod n)" by simp
  also have "\<dots> = rate * (duration div n) * n + rate * (duration mod n)"
    by (simp only: distrib_left mult.assoc)
  also have "rate * (duration mod n) = (rate div n * n + rate mod n) * (duration mod n)"
    by (simp only: div_mult_mod_eq)
  finally show ?thesis by (simp only: distrib_right mult.assoc mult.commute [of n] add.assoc)
qed

lemma per_channel_exact:
  assumes "0 < uint rate" "uint rate < 2 ^ 63" "0 < uint duration" "uint duration < 2 ^ 63"
  shows "pcm16_frame_samples_per_channel rate duration = Inr s
    \<longleftrightarrow> uint rate * uint duration = uint s * 1000000000"
proof -
  define whole where "whole = uint rate * (uint duration div 1000000000)"
  define coarse where "coarse = uint rate div 1000000000 * (uint duration mod 1000000000)"
  define fine where "fine = uint rate mod 1000000000 * (uint duration mod 1000000000)"
  have split: "uint rate * uint duration = (whole + coarse) * 1000000000 + fine"
    using split_product [of 1000000000 "uint rate" "uint duration"]
    by (simp add: whole_def coarse_def fine_def)
  have m: "0 \<le> uint duration mod 1000000000" "uint duration mod 1000000000 \<le> 999999999"
    and b: "0 \<le> uint rate mod 1000000000" "uint rate mod 1000000000 \<le> 999999999"
    and a: "0 \<le> uint rate div 1000000000" "uint rate div 1000000000 \<le> 9223372036"
    using assms by (simp_all add: pos_imp_zdiv_nonneg_iff)
  have fine: "0 \<le> fine" "fine \<le> 999999999 * 999999999"
    unfolding fine_def using m b by (simp, intro mult_mono) simp_all
  have coarse: "0 \<le> coarse" "coarse \<le> 9223372036 * 999999999"
    unfolding coarse_def using m a by (simp, intro mult_mono) simp_all
  have whole: "0 \<le> whole" using assms by (simp add: whole_def pos_imp_zdiv_nonneg_iff)
  have fine_word: "uint (rate mod nanos_per_second * (duration mod nanos_per_second)) = fine"
    using fine by (subst uint_times) (simp_all add: uint_mod fine_def)
  have coarse_word: "uint (rate div nanos_per_second * (duration mod nanos_per_second)) = coarse"
    using coarse by (subst uint_times) (simp_all add: uint_mod uint_div coarse_def)
  define part where "part = rate div nanos_per_second * (duration mod nanos_per_second)
      + rate mod nanos_per_second * (duration mod nanos_per_second) div nanos_per_second"
  have part: "uint part = coarse + fine div 1000000000"
    unfolding part_def using fine coarse
    by (subst uint_plus) (simp_all add: uint_div fine_word coarse_word)
  define total where "total = rate * (duration div nanos_per_second)"
  have total: "whole < 2 ^ 64 \<Longrightarrow> uint total = whole"
    unfolding total_def whole_def by (subst uint_times) (simp_all add: uint_div)
  have run: "pcm16_frame_samples_per_channel rate duration =
      (if whole \<ge> 2 ^ 64 then Inl (FrameOutOfRange rate duration)
       else if fine mod 1000000000 \<noteq> 0 then Inl (FrameUnaligned rate duration)
       else if whole + uint part \<ge> 2 ^ 64 \<or> whole + uint part = 0
       then Inl (FrameOutOfRange rate duration)
       else Inr (total + part))"
    using total fine_word
    by (auto simp: pcm16_frame_samples_per_channel_def Let_def checked_product checked_sum
          word_eq_iff_uint uint_mod uint_div whole_def [symmetric] part_def [symmetric]
          total_def [symmetric] uint_plus)
  have pos: "0 < uint rate * uint duration" using assms by simp
  show ?thesis
  proof (cases "fine mod 1000000000 = 0")
    case True
    then have "fine = fine div 1000000000 * 1000000000"
      using div_mult_mod_eq [of fine 1000000000] by linarith
    then have whole_count: "uint rate * uint duration = (whole + uint part) * 1000000000"
      using split by (simp add: part algebra_simps)
    show ?thesis
    proof (cases "whole + uint part < 2 ^ 64")
      case fits: True
      then have small: "whole < 2 ^ 64" using uint_below(2) [of part] by linarith
      then have "uint (total + part) = whole + uint part"
        using fits total by (subst uint_plus) simp_all
      then show ?thesis
        using True fits small pos by (auto simp: run whole_count word_eq_iff_uint)
    next
      case False
      then show ?thesis using True uint_below(1) [of s] by (auto simp: run whole_count)
    qed
  next
    case False
    have "uint rate * uint duration mod 1000000000 = fine mod 1000000000"
      unfolding split by (rule mod_mult_self3)
    then show ?thesis using False by (auto simp: run)
  qed
qed

lemma word_eq_iff_sint: "(a :: go_int) = b \<longleftrightarrow> sint a = sint b"
  by (auto intro: signed_word_eqI)

lemma int_positive: "sint (w :: go_int) \<le> 0 \<or> (0 < uint w \<and> uint w < 2 ^ 63 \<and> sint w = uint w)"
  using signed_positive [of w] sint_of_uint [of w] by blast

text \<open>
  C34: a frame's sample count is exact: \<^verbatim>\<open>PCM16FrameSamples\<close> returns \<^verbatim>\<open>k\<close> precisely when its three
  arguments are positive, the rate times the duration is a whole number of samples \<^verbatim>\<open>s\<close> per channel,
  and \<^verbatim>\<open>k\<close> is \<^verbatim>\<open>s\<close> times the channels as an \<^verbatim>\<open>int\<close>. No valid size is lost to a wrapped product, and
  none that is fractional or too big for an \<^verbatim>\<open>int\<close> is returned.
\<close>

theorem pcm16_frame_samples_exact:
  "pcm16_frame_samples rate channels duration = Inr k \<longleftrightarrow>
     0 < sint rate \<and> 0 < sint channels \<and> 0 < sint duration \<and>
     (\<exists>s. sint rate * sint duration = s * 1000000000 \<and> sint k = s * sint channels)"
proof (cases "sint rate \<le> 0 \<or> sint channels \<le> 0 \<or> sint duration \<le> 0")
  case False
  then have r: "0 < uint rate" "uint rate < 2 ^ 63" "sint rate = uint rate"
    and c: "0 < uint channels" "uint channels < 2 ^ 63" "sint channels = uint channels"
    and d: "0 < uint duration" "uint duration < 2 ^ 63" "sint duration = uint duration"
    using int_positive [of rate] int_positive [of channels] int_positive [of duration] by auto
  have fits: "p > max_int64 div channels \<longleftrightarrow> \<not> uint p * uint channels < 2 ^ 63" for p
    using le_quotient [OF c(1), of "uint p" "2 ^ 63 - 1"]
    by (auto simp: word_less_alt uint_div)
  have product: "uint p * uint channels < 2 ^ 63 \<Longrightarrow> sint (p * channels) = uint p * uint channels" for p
    by (simp add: sint_of_uint uint_times)
  note per = per_channel_exact [OF r(1,2) d(1,2)]
  show ?thesis
  proof
    assume "pcm16_frame_samples rate channels duration = Inr k"
    then obtain p where "pcm16_frame_samples_per_channel rate duration = Inr p"
        and "uint p * uint channels < 2 ^ 63" and "k = p * channels"
      using False fits by (auto simp: pcm16_frame_samples_def split: sum.splits if_splits)
    then show "0 < sint rate \<and> 0 < sint channels \<and> 0 < sint duration \<and>
        (\<exists>s. sint rate * sint duration = s * 1000000000 \<and> sint k = s * sint channels)"
      using per [of p] product [of p] r c d by auto
  next
    assume "0 < sint rate \<and> 0 < sint channels \<and> 0 < sint duration \<and>
        (\<exists>s. sint rate * sint duration = s * 1000000000 \<and> sint k = s * sint channels)"
    then obtain s where s: "uint rate * uint duration = s * 1000000000" "sint k = s * uint channels"
      using r c d by auto
    have "0 < s * 1000000000" using s(1) [symmetric] r d by simp
    then have pos: "0 < s" by simp
    have "s * 1 \<le> s * uint channels" using pos c by (intro mult_left_mono) simp_all
    also have "\<dots> < 2 ^ 63" using s(2) sint_lt [of k] by simp
    finally have word: "uint (word_of_int s :: go_int) = s" using pos by (intro uint_of_small) simp_all
    have "pcm16_frame_samples_per_channel rate duration = Inr (word_of_int s)"
      using per [of "word_of_int s"] s(1) word by simp
    moreover have below: "uint (word_of_int s :: go_int) * uint channels < 2 ^ 63"
      using word s(2) sint_lt [of k] by simp
    moreover have "word_of_int s * channels = k"
      using product [OF below] word s(2) by (simp add: word_eq_iff_sint [of _ k] del: sint_uint)
    ultimately show "pcm16_frame_samples rate channels duration = Inr k"
      using False fits by (simp add: pcm16_frame_samples_def)
  qed
qed (auto simp: pcm16_frame_samples_def)

lemma sint_half_max: "sint (max_int64 div 2) = 2 ^ 62 - 1"
  by (subst sint_of_uint) (simp_all add: uint_div)

lemma pcm16_frame_bytes_exact:
  "pcm16_frame_bytes rate channels duration = Inr k \<longleftrightarrow>
     (\<exists>s. pcm16_frame_samples rate channels duration = Inr s \<and> sint k = 2 * sint s)"
proof -
  have double: "sint (s * 2) = 2 * sint s"
    if counted: "pcm16_frame_samples rate channels duration = Inr s" and small: "sint s \<le> 2 ^ 62 - 1"
    for s
  proof -
    obtain n where n: "sint rate * sint duration = n * 1000000000" "sint s = n * sint channels"
        "0 < sint rate" "0 < sint duration" "0 < sint channels"
      using counted [unfolded pcm16_frame_samples_exact] by blast
    then have "0 < n * 1000000000" by (metis mult_pos_pos)
    then have "0 < sint s" using n by simp
    then show ?thesis
      using small int_positive [of s] by (subst sint_of_uint) (simp_all add: uint_times)
  qed
  show ?thesis
  proof
    assume "pcm16_frame_bytes rate channels duration = Inr k"
    then show "\<exists>s. pcm16_frame_samples rate channels duration = Inr s \<and> sint k = 2 * sint s"
      using double by (auto simp: pcm16_frame_bytes_def sint_half_max split: sum.splits if_splits)
  next
    assume "\<exists>s. pcm16_frame_samples rate channels duration = Inr s \<and> sint k = 2 * sint s"
    then obtain s where s: "pcm16_frame_samples rate channels duration = Inr s" "sint k = 2 * sint s"
      by blast
    then have "sint s \<le> 2 ^ 62 - 1" using sint_lt [of k] by simp
    then show "pcm16_frame_bytes rate channels duration = Inr k"
      using s double [OF s(1)] by (simp add: pcm16_frame_bytes_def sint_half_max word_eq_iff_sint [of _ k])
  qed
qed

lemma pcm16_byte_capacity_exact:
  "pcm16_byte_capacity frames width = Inr k \<longleftrightarrow>
     0 \<le> sint frames \<and> 0 \<le> sint width \<and> sint k = sint frames * sint width"
proof (cases "sint frames \<le> 0 \<or> sint width \<le> 0")
  case True
  have zero: "w = 0 \<longleftrightarrow> sint w = 0" for w :: go_int by (simp add: word_eq_iff_sint)
  consider "sint frames < 0 \<or> sint width < 0" | "0 \<le> sint frames" "0 \<le> sint width" "frames = 0 \<or> width = 0"
    using True zero by fastforce
  then show ?thesis
  proof cases
    case 2
    then have "sint frames * sint width = 0" by auto
    then show ?thesis using 2 zero [of k] by (auto simp: pcm16_byte_capacity_def)
  qed (auto simp: pcm16_byte_capacity_def)
next
  case False
  then have f: "0 < uint frames" "uint frames < 2 ^ 63" "sint frames = uint frames"
    and w: "0 < uint width" "uint width < 2 ^ 63" "sint width = uint width"
    using int_positive [of frames] int_positive [of width] by auto
  have "uint (max_int64 div width) < 2 ^ 63"
    using w by (simp add: uint_div quotient_below)
  then have "sint (max_int64 div width) = (2 ^ 63 - 1) div uint width"
    by (simp add: sint_of_uint uint_div)
  then have bound: "sint frames > sint (max_int64 div width) \<longleftrightarrow> \<not> uint frames * uint width < 2 ^ 63"
    using le_quotient [OF w(1), of "uint frames" "2 ^ 63 - 1"] f(3) by auto
  have product: "uint frames * uint width < 2 ^ 63 \<Longrightarrow> sint (frames * width) = uint frames * uint width"
    by (simp add: sint_of_uint uint_times)
  show ?thesis
    using False bound product sint_lt [of k] f w
    by (auto simp: pcm16_byte_capacity_def word_eq_iff_sint [of _ k])
qed

text \<open>
  the duration of a byte count saturates and never wraps: it is the floor of the exact
  nanoseconds or the largest \<^verbatim>\<open>time.Duration\<close>, whichever is smaller, on the word path and on the wide
  path alike, and zero for a count, rate or channel number that is not positive.
\<close>

theorem pcm16_byte_duration_saturates:
  "sint (pcm16_byte_duration bytes rate channels) =
     (if sint bytes \<le> 0 \<or> sint rate \<le> 0 \<or> sint channels \<le> 0 then 0
      else min (2 ^ 63 - 1) (sint bytes * 1000000000 div (2 * sint rate * sint channels)))"
proof (cases "sint bytes \<le> 0 \<or> sint rate \<le> 0 \<or> sint channels \<le> 0")
  case False
  then have b: "0 < uint bytes" "uint bytes < 2 ^ 63" "sint bytes = uint bytes"
    and r: "0 < uint rate" "uint rate < 2 ^ 63" "sint rate = uint rate"
    and c: "0 < uint channels" "uint channels < 2 ^ 63" "sint channels = uint channels"
    using int_positive [of bytes] int_positive [of rate] int_positive [of channels] by auto
  define exact where "exact = uint bytes * 1000000000 div (uint rate * uint channels * 2)"
  have nonneg: "0 \<le> exact" using b r c by (simp add: exact_def pos_imp_zdiv_nonneg_iff)
  have top: "sint max_int64 = 2 ^ 63 - 1" by (subst sint_of_uint) simp_all
  have clamp: "sint (if 2 ^ 63 \<le> exact then max_int64 else word_of_int exact) = min (2 ^ 63 - 1) exact"
    using nonneg top by (auto simp: sint_of_uint uint_of_small)
  have wide: "sint (pcm16_byte_duration_wide bytes rate channels) = min (2 ^ 63 - 1) exact"
    using clamp nonneg
    by (simp only: pcm16_byte_duration_wide_def Let_def uint_constants exact_def [symmetric]) auto
  have narrow: "sint (let n = bytes * nanos_per_second div (rate * channels * 2)
        in if n > max_int64 then max_int64 else n) = min (2 ^ 63 - 1) exact"
    if "rate \<le> max_uint64 div channels" "rate * channels \<le> max_uint64 div 2"
      "bytes \<le> max_uint64 div nanos_per_second"
  proof -
    have rc: "uint (rate * channels) = uint rate * uint channels"
      using that(1) le_quotient [OF c(1), of "uint rate" "2 ^ 64 - 1"]
      by (subst uint_times) (simp_all add: word_le_def uint_div)
    have twice: "uint (rate * channels * 2) = uint rate * uint channels * 2"
      using that(2) rc by (subst uint_times) (simp_all add: word_le_def uint_div mult.commute)
    have scaled: "uint (bytes * nanos_per_second) = uint bytes * 1000000000"
      using that(3) by (subst uint_times) (simp_all add: word_le_def uint_div)
    have "uint (bytes * nanos_per_second div (rate * channels * 2)) = exact"
      by (simp add: uint_div twice scaled exact_def)
    then show ?thesis using top by (auto simp: Let_def word_less_alt sint_of_uint)
  qed
  have "sint (pcm16_byte_duration bytes rate channels) = min (2 ^ 63 - 1) exact"
    unfolding pcm16_byte_duration_def using False wide narrow by (simp add: Let_def)
  then show ?thesis using False b r c by (simp add: exact_def mult.commute mult.left_commute)
qed (auto simp: pcm16_byte_duration_def)

end
