(* ===== verification/Pcm_Codec.thy ===== *)
theory Pcm_Codec
  imports Prelude Pcm_Timing
begin

text \<open>
  The bounded payload codecs of \<^verbatim>\<open>go-audio/pkg/codec/pcm16.go\<close>: little-endian PCM16 samples and the
  base64 spellings of the provider payloads. A sample is a 16-bit word and a payload a list of
  bytes. A limit is the \<^verbatim>\<open>int\<close> of the code, a 64-bit word read signed. \<^verbatim>\<open>encoding/base64\<close> of the
  standard library is modelled as the code uses it: line ends are skipped, the padding is read as
  its decoder reads it, and the position of a corrupt byte is left out of the error.
\<close>

unbundle bit_operations_syntax

type_synonym sample = "16 word"

datatype codec_error =
    PayloadTooLarge int go_int
  | EncodedTooLarge nat go_int
  | InvalidBase64
  | PCM16OddLength nat
  | PCM16BufferTooSmall nat nat
  | InvalidPayloadLimit go_int

definition max_payload_bytes :: go_int where
  "max_payload_bytes = push_bit 20 4"

definition max_pcm16_bytes :: go_int where
  "max_pcm16_bytes = max_payload_bytes"

definition validate_limit :: "go_int \<Rightarrow> codec_error option" where
  "validate_limit max_bytes =
     (if sint max_bytes \<le> 0 then Some (InvalidPayloadLimit max_bytes) else None)"

section \<open>Samples and bytes\<close>

text \<open>\<^verbatim>\<open>PutUint16\<close> and \<^verbatim>\<open>Uint16\<close> of \<^verbatim>\<open>binary.LittleEndian\<close>.\<close>

definition low_byte :: "sample \<Rightarrow> byte" where
  "low_byte s = ucast s"

definition high_byte :: "sample \<Rightarrow> byte" where
  "high_byte s = ucast (drop_bit 8 s)"

definition little_endian :: "byte \<Rightarrow> byte \<Rightarrow> sample" where
  "little_endian lo hi = ucast lo OR push_bit 8 (ucast hi)"

text \<open>The loop of \<^verbatim>\<open>putPCM16\<close> from sample \<^verbatim>\<open>index\<close> on, over the destination buffer.\<close>

fun put_pcm16 :: "nat \<Rightarrow> byte list \<Rightarrow> sample list \<Rightarrow> byte list" where
  "put_pcm16 index destination [] = destination"
| "put_pcm16 index destination (s # samples) =
     put_pcm16 (Suc index)
       (destination [index * 2 := low_byte s, index * 2 + 1 := high_byte s]) samples"

definition encode_pcm16 :: "sample list \<Rightarrow> byte list" where
  "encode_pcm16 samples =
     (if samples = [] then [] else put_pcm16 0 (replicate (length samples * 2) 0) samples)"

definition encode_pcm16_into :: "byte list \<Rightarrow> sample list \<Rightarrow> codec_error + byte list" where
  "encode_pcm16_into destination samples =
     (if length destination < length samples * 2
      then Inl (PCM16BufferTooSmall (length destination) (length samples * 2))
      else Inr (put_pcm16 0 destination samples))"

definition encode_pcm16_with_limit :: "sample list \<Rightarrow> go_int \<Rightarrow> codec_error + byte list" where
  "encode_pcm16_with_limit samples max_bytes =
     (case validate_limit max_bytes of
        Some e \<Rightarrow> Inl e
      | None \<Rightarrow>
          if int (length samples) > uint (max_bytes div 2)
          then Inl (PayloadTooLarge (int (length samples * 2)) max_bytes)
          else if samples = [] then Inr []
          else encode_pcm16_into (replicate (length samples * 2) 0) samples)"

text \<open>\<^verbatim>\<open>PCM16Samples\<close>: every complete sample, a trailing byte ignored.\<close>

fun pcm16_samples :: "byte list \<Rightarrow> sample list" where
  "pcm16_samples (lo # hi # rest) = little_endian lo hi # pcm16_samples rest"
| "pcm16_samples _ = []"

definition validate_pcm16 :: "byte list \<Rightarrow> go_int \<Rightarrow> codec_error option" where
  "validate_pcm16 encoded max_bytes =
     (case validate_limit max_bytes of
        Some e \<Rightarrow> Some e
      | None \<Rightarrow>
          if int (length encoded) > sint max_bytes
          then Some (PayloadTooLarge (int (length encoded)) max_bytes)
          else if length encoded mod 2 \<noteq> 0 then Some (PCM16OddLength (length encoded))
          else None)"

definition decode_pcm16_with_limit :: "byte list \<Rightarrow> go_int \<Rightarrow> codec_error + sample list" where
  "decode_pcm16_with_limit encoded max_bytes =
     (case validate_pcm16 encoded max_bytes of
        Some e \<Rightarrow> Inl e
      | None \<Rightarrow> Inr (pcm16_samples encoded))"

definition decode_pcm16 :: "byte list \<Rightarrow> codec_error + sample list" where
  "decode_pcm16 encoded = decode_pcm16_with_limit encoded max_pcm16_bytes"

text \<open>The loop of \<^verbatim>\<open>DecodePCM16Into\<close> from sample \<^verbatim>\<open>index\<close> on, \<^verbatim>\<open>n\<close> samples.\<close>

fun decode_samples_into :: "nat \<Rightarrow> nat \<Rightarrow> sample list \<Rightarrow> byte list \<Rightarrow> sample list" where
  "decode_samples_into index 0 destination encoded = destination"
| "decode_samples_into index (Suc n) destination encoded =
     decode_samples_into (Suc index) n
       (destination [index := little_endian (encoded ! (index * 2)) (encoded ! (index * 2 + 1))])
       encoded"

definition decode_pcm16_into :: "sample list \<Rightarrow> byte list \<Rightarrow> codec_error + sample list" where
  "decode_pcm16_into destination encoded =
     (if length encoded mod 2 \<noteq> 0 then Inl (PCM16OddLength (length encoded))
      else if length destination < length encoded div 2
      then Inl (PCM16BufferTooSmall (length destination) (length encoded div 2))
      else Inr (decode_samples_into 0 (length encoded div 2) destination encoded))"

section \<open>What the loops compute\<close>

definition bytes_of :: "sample list \<Rightarrow> byte list" where
  "bytes_of samples = concat (map (\<lambda>s. [low_byte s, high_byte s]) samples)"

lemma bytes_of_simps [simp]:
  "bytes_of [] = []" "bytes_of (s # ss) = low_byte s # high_byte s # bytes_of ss"
  by (simp_all add: bytes_of_def)

lemma bytes_of_length [simp]: "length (bytes_of samples) = length samples * 2"
  by (induction samples) simp_all

lemma little_endian_bytes [simp]: "little_endian (low_byte s) (high_byte s) = s"
  by (rule bit_word_eqI) (auto simp: little_endian_def low_byte_def high_byte_def bit_simps)

lemma bytes_little_endian [simp]:
  "low_byte (little_endian lo hi) = lo" "high_byte (little_endian lo hi) = hi"
  by (rule bit_word_eqI; auto simp: little_endian_def low_byte_def high_byte_def bit_simps
        dest: bit_imp_le_length)+

lemma samples_of_bytes [simp]: "pcm16_samples (bytes_of samples) = samples"
  by (induction samples) simp_all

lemma bytes_of_samples:
  "length encoded mod 2 = 0 \<Longrightarrow> bytes_of (pcm16_samples encoded) = encoded"
  by (induction encoded rule: pcm16_samples.induct) (auto simp: mod_Suc split: if_splits)

lemma pcm16_samples_length [simp]: "length (pcm16_samples encoded) = length encoded div 2"
  by (induction encoded rule: pcm16_samples.induct) auto

lemma put_pcm16_prefix:
  "length destination = index * 2 \<Longrightarrow> length samples * 2 \<le> length rest \<Longrightarrow>
   put_pcm16 index (destination @ rest) samples
     = destination @ bytes_of samples @ drop (length samples * 2) rest"
proof (induction samples arbitrary: index destination rest)
  case (Cons s samples)
  then obtain a b rest' where rest: "rest = a # b # rest'"
    by (cases rest; cases "tl rest") auto
  have "put_pcm16 (Suc index) ((destination @ [low_byte s, high_byte s]) @ rest') samples
      = (destination @ [low_byte s, high_byte s]) @ bytes_of samples @ drop (length samples * 2) rest'"
    using Cons.prems by (intro Cons.IH) (simp_all add: rest)
  then show ?case using Cons.prems by (simp add: rest list_update_append)
qed simp

lemma encode_pcm16_bytes [simp]: "encode_pcm16 samples = bytes_of samples"
  using put_pcm16_prefix [of "[]" 0 samples "replicate (length samples * 2) 0"]
  by (cases samples) (simp_all add: encode_pcm16_def)

lemma encode_into_bytes:
  "length samples * 2 \<le> length destination \<Longrightarrow>
   encode_pcm16_into destination samples = Inr (bytes_of samples @ drop (length samples * 2) destination)"
  using put_pcm16_prefix [of "[]" 0 samples destination] by (simp add: encode_pcm16_into_def)

lemma pcm16_samples_nth:
  "i < length encoded div 2 \<Longrightarrow>
   pcm16_samples encoded ! i = little_endian (encoded ! (i * 2)) (encoded ! (i * 2 + 1))"
proof (induction encoded arbitrary: i rule: pcm16_samples.induct)
  case (1 lo hi rest)
  then show ?case by (cases i) auto
qed auto

lemma decode_samples_into_prefix:
  "index + n = length encoded div 2 \<Longrightarrow> length encoded div 2 \<le> length destination \<Longrightarrow>
   take index destination = take index (pcm16_samples encoded) \<Longrightarrow>
   decode_samples_into index n destination encoded
     = pcm16_samples encoded @ drop (length encoded div 2) destination"
proof (induction n arbitrary: index destination)
  case 0
  then show ?case by (metis add_0_right append_take_drop_id decode_samples_into.simps(1) order_refl
    pcm16_samples_length take_all)
next
  case (Suc n)
  let ?v = "little_endian (encoded ! (index * 2)) (encoded ! (index * 2 + 1))"
  have here: "index < length encoded div 2" "index < length destination" using Suc.prems by simp_all
  have "take (Suc index) (destination [index := ?v]) = take (Suc index) (pcm16_samples encoded)"
    using here Suc.prems(3) by (simp add: take_Suc_conv_app_nth pcm16_samples_nth)
  then show ?case using Suc.IH [of "Suc index" "destination [index := ?v]"] Suc.prems here by simp
qed

lemma decode_into_samples:
  "length encoded mod 2 = 0 \<Longrightarrow> length encoded div 2 \<le> length destination \<Longrightarrow>
   decode_pcm16_into destination encoded
     = Inr (pcm16_samples encoded @ drop (length encoded div 2) destination)"
  by (simp add: decode_pcm16_into_def decode_samples_into_prefix)

section \<open>Base64\<close>

text \<open>An \<^verbatim>\<open>Encoding\<close>: its alphabet and its padding character, \<^verbatim>\<open>None\<close> for the raw ones.\<close>

datatype base64_encoding = Base64 (b64_alphabet: string) (b64_pad: "char option")

definition common_alphabet :: string where
  "common_alphabet =
     ''ABCDEFGHIJKLMNOPQRSTUVWXYZabcdefghijklmnopqrstuvwxyz0123456789''"

definition std_encoding :: base64_encoding where
  "std_encoding = Base64 (common_alphabet @ ''+/'') (Some CHR ''='')"

definition raw_std_encoding :: base64_encoding where
  "raw_std_encoding = Base64 (common_alphabet @ ''+/'') None"

definition url_encoding :: base64_encoding where
  "url_encoding = Base64 (common_alphabet @ ''-_'') (Some CHR ''='')"

definition raw_url_encoding :: base64_encoding where
  "raw_url_encoding = Base64 (common_alphabet @ ''-_'') None"

type_synonym sextet = "6 word"

definition encode_char :: "base64_encoding \<Rightarrow> sextet \<Rightarrow> char" where
  "encode_char enc v = b64_alphabet enc ! unat v"

fun index_of :: "'a \<Rightarrow> 'a list \<Rightarrow> nat option" where
  "index_of x [] = None"
| "index_of x (y # ys) = (if x = y then Some 0 else map_option Suc (index_of x ys))"

definition decode_char :: "base64_encoding \<Rightarrow> char \<Rightarrow> sextet option" where
  "decode_char enc c = map_option word_of_nat (index_of c (b64_alphabet enc))"

fun padding :: "base64_encoding \<Rightarrow> nat \<Rightarrow> string" where
  "padding enc n = (case b64_pad enc of None \<Rightarrow> [] | Some p \<Rightarrow> replicate n p)"

text \<open>The four sextets of three bytes, and the bytes of a quantum of two to four sextets.\<close>

definition quantum_value :: "byte \<Rightarrow> byte \<Rightarrow> byte \<Rightarrow> go_int" where
  "quantum_value a b c = push_bit 16 (ucast a) OR push_bit 8 (ucast b) OR ucast c"

definition sextet_at :: "nat \<Rightarrow> go_int \<Rightarrow> sextet" where
  "sextet_at shift val = ucast (drop_bit shift val AND 0x3F)"

fun encode_string :: "base64_encoding \<Rightarrow> byte list \<Rightarrow> string" where
  "encode_string enc [] = []"
| "encode_string enc [a] =
     (let val = quantum_value a 0 0 in
      [encode_char enc (sextet_at 18 val), encode_char enc (sextet_at 12 val)] @ padding enc 2)"
| "encode_string enc [a, b] =
     (let val = quantum_value a b 0 in
      [encode_char enc (sextet_at 18 val), encode_char enc (sextet_at 12 val),
       encode_char enc (sextet_at 6 val)] @ padding enc 1)"
| "encode_string enc (a # b # c # rest) =
     (let val = quantum_value a b c in
      [encode_char enc (sextet_at 18 val), encode_char enc (sextet_at 12 val),
       encode_char enc (sextet_at 6 val), encode_char enc (sextet_at 0 val)]
      @ encode_string enc rest)"

definition sextets_value :: "sextet \<Rightarrow> sextet \<Rightarrow> sextet \<Rightarrow> sextet \<Rightarrow> go_int" where
  "sextets_value p q r s =
     push_bit 18 (ucast p) OR push_bit 12 (ucast q) OR push_bit 6 (ucast r) OR ucast s"

definition byte_at :: "nat \<Rightarrow> go_int \<Rightarrow> byte" where
  "byte_at shift val = ucast (drop_bit shift val)"

fun quantum_bytes :: "sextet list \<Rightarrow> byte list" where
  "quantum_bytes [p, q] = [byte_at 16 (sextets_value p q 0 0)]"
| "quantum_bytes [p, q, r] =
     [byte_at 16 (sextets_value p q r 0), byte_at 8 (sextets_value p q r 0)]"
| "quantum_bytes [p, q, r, s] =
     [byte_at 16 (sextets_value p q r s), byte_at 8 (sextets_value p q r s),
      byte_at 0 (sextets_value p q r s)]"
| "quantum_bytes _ = []"

definition is_line_end :: "char \<Rightarrow> bool" where
  "is_line_end c \<longleftrightarrow> c = CHR 0x0A \<or> c = CHR 0x0D"

definition skip_line_ends :: "string \<Rightarrow> string" where
  "skip_line_ends cs = dropWhile is_line_end cs"

text \<open>
  The end of a padded quantum with \<^verbatim>\<open>j\<close> symbols, its first padding character read: the second one
  where it is due, and nothing but line ends after it.
\<close>

definition padded_end :: "base64_encoding \<Rightarrow> nat \<Rightarrow> string \<Rightarrow> bool" where
  "padded_end enc j cs =
     (if j < 2 then False
      else if j = 2
      then (case skip_line_ends cs of
              [] \<Rightarrow> False
            | p # rest \<Rightarrow> Some p = b64_pad enc \<and> skip_line_ends rest = [])
      else skip_line_ends cs = [])"

text \<open>\<^verbatim>\<open>decodeQuantum\<close> with the symbols it has read; \<^verbatim>\<open>None\<close> is \<^verbatim>\<open>CorruptInputError\<close>.\<close>

fun decode_quantum ::
    "base64_encoding \<Rightarrow> sextet list \<Rightarrow> string \<Rightarrow> (sextet list \<times> string) option" where
  "decode_quantum enc read [] =
     (if length read = 0 \<or> length read = 4 then Some (read, [])
      else if length read = 1 \<or> b64_pad enc \<noteq> None then None else Some (read, []))"
| "decode_quantum enc read (c # cs) =
     (if length read = 4 then Some (read, c # cs)
      else (case decode_char enc c of
              Some v \<Rightarrow> decode_quantum enc (read @ [v]) cs
            | None \<Rightarrow>
                if is_line_end c then decode_quantum enc read cs
                else if Some c \<noteq> b64_pad enc then None
                else if padded_end enc (length read) cs then Some (read, []) else None))"

lemma decode_quantum_shrinks:
  "decode_quantum enc read cs = Some (syms, rest) \<Longrightarrow> length rest \<le> length cs"
  by (induction enc read cs arbitrary: syms rest rule: decode_quantum.induct)
    (auto split: if_splits option.splits intro: le_SucI)

lemma decode_quantum_progress:
  "decode_quantum enc [] (c # cs) = Some (syms, rest) \<Longrightarrow> length rest < length (c # cs)"
  by (auto split: if_splits option.splits dest: decode_quantum_shrinks simp: less_Suc_eq_le)

function decode_string :: "base64_encoding \<Rightarrow> string \<Rightarrow> byte list option" where
  "decode_string enc [] = Some []"
| "decode_string enc (c # cs) =
     (case decode_quantum enc [] (c # cs) of
        None \<Rightarrow> None
      | Some (syms, rest) \<Rightarrow> map_option ((@) (quantum_bytes syms)) (decode_string enc rest))"
  by pat_completeness auto
termination by (relation "measure (\<lambda>(_, cs). length cs)") (auto dest: decode_quantum_progress simp del: decode_quantum.simps)

section \<open>The base64 operations\<close>

definition encode_base64 :: "byte list \<Rightarrow> string" where
  "encode_base64 payload = encode_string std_encoding payload"

definition encoded_length_exceeds_limit :: "nat \<Rightarrow> go_int \<Rightarrow> bool" where
  "encoded_length_exceeds_limit encoded_length max_bytes =
     (if sint max_bytes > sint (max_int64 div 4 * 3 - 2) then False
      else int encoded_length > sint ((max_bytes + 2) div 3 * 4))"

definition decode_base64_with_limit :: "string \<Rightarrow> go_int \<Rightarrow> codec_error + byte list" where
  "decode_base64_with_limit encoded max_bytes =
     (case validate_limit max_bytes of
        Some e \<Rightarrow> Inl e
      | None \<Rightarrow>
          if encoded = [] then Inr []
          else if encoded_length_exceeds_limit (length encoded) max_bytes
          then Inl (EncodedTooLarge (length encoded) max_bytes)
          else (case decode_string std_encoding encoded of
                  None \<Rightarrow> Inl InvalidBase64
                | Some decoded \<Rightarrow>
                    if int (length decoded) > sint max_bytes
                    then Inl (PayloadTooLarge (int (length decoded)) max_bytes)
                    else Inr decoded))"

definition decode_base64 :: "string \<Rightarrow> codec_error + byte list" where
  "decode_base64 encoded = decode_base64_with_limit encoded max_payload_bytes"

text \<open>The loop of \<^verbatim>\<open>DecodeLegacyBase64WithLimit\<close> over the encodings it has left.\<close>

fun decode_spellings ::
    "base64_encoding list \<Rightarrow> string \<Rightarrow> go_int \<Rightarrow> codec_error + byte list" where
  "decode_spellings [] encoded max_bytes = Inl InvalidBase64"
| "decode_spellings (enc # encs) encoded max_bytes =
     (if encoded_length_exceeds_limit (length encoded) max_bytes
      then Inl (EncodedTooLarge (length encoded) max_bytes)
      else (case decode_string enc encoded of
              Some decoded \<Rightarrow>
                if int (length decoded) > sint max_bytes
                then Inl (PayloadTooLarge (int (length decoded)) max_bytes)
                else Inr decoded
            | None \<Rightarrow> decode_spellings encs encoded max_bytes))"

definition legacy_encodings :: "base64_encoding list" where
  "legacy_encodings = [std_encoding, raw_std_encoding, url_encoding, raw_url_encoding]"

definition decode_legacy_base64_with_limit :: "string \<Rightarrow> go_int \<Rightarrow> codec_error + byte list" where
  "decode_legacy_base64_with_limit encoded max_bytes =
     (case validate_limit max_bytes of
        Some e \<Rightarrow> Inl e
      | None \<Rightarrow>
          if encoded = [] then Inr []
          else decode_spellings legacy_encodings encoded max_bytes)"

definition decode_legacy_base64 :: "string \<Rightarrow> codec_error + byte list" where
  "decode_legacy_base64 encoded = decode_legacy_base64_with_limit encoded max_payload_bytes"

definition encode_pcm16_base64 :: "sample list \<Rightarrow> string" where
  "encode_pcm16_base64 samples = encode_base64 (encode_pcm16 samples)"

definition encode_pcm16_base64_with_limit :: "sample list \<Rightarrow> go_int \<Rightarrow> codec_error + string" where
  "encode_pcm16_base64_with_limit samples max_bytes =
     (case encode_pcm16_with_limit samples max_bytes of
        Inl e \<Rightarrow> Inl e
      | Inr encoded \<Rightarrow> Inr (encode_base64 encoded))"

definition decode_pcm16_base64_with_limit :: "string \<Rightarrow> go_int \<Rightarrow> codec_error + sample list" where
  "decode_pcm16_base64_with_limit encoded max_bytes =
     (case decode_base64_with_limit encoded max_bytes of
        Inl e \<Rightarrow> Inl e
      | Inr decoded \<Rightarrow> decode_pcm16_with_limit decoded max_bytes)"

definition decode_pcm16_base64 :: "string \<Rightarrow> codec_error + sample list" where
  "decode_pcm16_base64 encoded = decode_pcm16_base64_with_limit encoded max_pcm16_bytes"

section \<open>Symbols and quanta\<close>

lemma index_of_nth: "distinct xs \<Longrightarrow> i < length xs \<Longrightarrow> index_of (xs ! i) xs = Some i"
  by (induction xs arbitrary: i) (auto simp: nth_Cons split: nat.splits)

lemma byte_of_quantum:
  "byte_at 16 (quantum_value a b c) = a" "byte_at 8 (quantum_value a b c) = b"
  "byte_at 0 (quantum_value a b c) = c"
  by (rule bit_word_eqI; auto simp: byte_at_def quantum_value_def bit_simps dest: bit_imp_le_length)+

lemma low_sextet: "(0x3F :: go_int) = mask 6"
  by (simp add: mask_eq_exp_minus_1)

lemma bit_sextet_at [bit_simps]: "bit (sextet_at k val) n \<longleftrightarrow> n < 6 \<and> bit val (k + n)"
  by (auto simp: sextet_at_def low_sextet bit_simps dest: bit_imp_le_length)

lemma bit_quantum_value: "bit (quantum_value a b c) n \<Longrightarrow> n < 24"
  by (auto simp: quantum_value_def bit_simps dest: bit_imp_le_length)

lemma sextets_of_quantum:
  "sextets_value (sextet_at 18 (quantum_value a b c)) (sextet_at 12 (quantum_value a b c))
      (sextet_at 6 (quantum_value a b c)) (sextet_at 0 (quantum_value a b c)) = quantum_value a b c"
proof (rule bit_word_eqI)
  fix n :: nat
  consider "n < 6" | "6 \<le> n" "n < 12" | "12 \<le> n" "n < 18" | "18 \<le> n" "n < 24" | "24 \<le> n"
    by linarith
  then show "bit (sextets_value (sextet_at 18 (quantum_value a b c)) (sextet_at 12 (quantum_value a b c))
      (sextet_at 6 (quantum_value a b c)) (sextet_at 0 (quantum_value a b c))) n
    = bit (quantum_value a b c) n"
    by cases (auto simp: sextets_value_def bit_simps dest: bit_quantum_value)
qed

lemma no_low_bits:
  "sextet_at 0 (quantum_value a b 0) = 0" "sextet_at 6 (quantum_value a 0 0) = 0"
  "sextet_at 0 (quantum_value a 0 0) = 0"
  by (rule bit_word_eqI; auto simp: sextet_at_def quantum_value_def bit_simps dest: bit_imp_le_length)+

lemma quantum_bytes_of:
  "quantum_bytes [sextet_at 18 (quantum_value a b c), sextet_at 12 (quantum_value a b c),
     sextet_at 6 (quantum_value a b c), sextet_at 0 (quantum_value a b c)] = [a, b, c]"
  "quantum_bytes [sextet_at 18 (quantum_value a b 0), sextet_at 12 (quantum_value a b 0),
     sextet_at 6 (quantum_value a b 0)] = [a, b]"
  "quantum_bytes [sextet_at 18 (quantum_value a 0 0), sextet_at 12 (quantum_value a 0 0)] = [a]"
  using sextets_of_quantum [of a b c] sextets_of_quantum [of a b 0] sextets_of_quantum [of a 0 0]
  by (simp_all add: byte_of_quantum no_low_bits)

text \<open>
  What lets one encoding read another's text: every symbol is read as its own value or is corrupt,
  and both pad with the same character or not at all.
\<close>

definition reads_as :: "base64_encoding \<Rightarrow> base64_encoding \<Rightarrow> bool" where
  "reads_as enc other \<longleftrightarrow>
     (\<forall>v. decode_char other (encode_char enc v) = Some v
        \<or> decode_char other (encode_char enc v) = None \<and> \<not> is_line_end (encode_char enc v)
          \<and> encode_char enc v \<noteq> CHR ''='')
     \<and> decode_char other CHR ''='' = None
     \<and> b64_pad enc \<in> {None, Some CHR ''=''} \<and> b64_pad other \<in> {None, Some CHR ''=''}"

definition same_symbols :: "string \<Rightarrow> string \<Rightarrow> bool" where
  "same_symbols xs ys \<longleftrightarrow>
     list_all (\<lambda>i. index_of (xs ! i) ys = Some i
        \<or> index_of (xs ! i) ys = None \<and> \<not> is_line_end (xs ! i) \<and> xs ! i \<noteq> CHR ''='') [0..<64]
     \<and> index_of CHR ''='' ys = None"

lemma sextet_below: "unat (v :: sextet) < 64"
proof -
  have "uint v < 64" using uint_lt2p [of v] by simp
  moreover have "unat v = nat (uint v)" by (rule unat_eq_nat_uint)
  ultimately show ?thesis by linarith
qed

lemma reads_as_symbols:
  assumes "same_symbols (b64_alphabet enc) (b64_alphabet other)"
    and "b64_pad enc \<in> {None, Some CHR ''=''}" "b64_pad other \<in> {None, Some CHR ''=''}"
  shows "reads_as enc other"
proof -
  have "index_of (b64_alphabet enc ! unat v) (b64_alphabet other) = Some (unat v)
      \<or> index_of (b64_alphabet enc ! unat v) (b64_alphabet other) = None
        \<and> \<not> is_line_end (b64_alphabet enc ! unat v) \<and> b64_alphabet enc ! unat v \<noteq> CHR ''=''"
    for v :: sextet
    using assms(1) sextet_below [of v] by (auto simp: same_symbols_def list_all_iff)
  note position = this
  have "decode_char other (encode_char enc v) = Some v
      \<or> decode_char other (encode_char enc v) = None \<and> \<not> is_line_end (encode_char enc v)
        \<and> encode_char enc v \<noteq> CHR ''=''" for v
    using position [of v] by (auto simp: decode_char_def encode_char_def)
  then show ?thesis
    using assms by (simp add: reads_as_def same_symbols_def decode_char_def)
qed

lemma alphabets_agree:
  "same_symbols (common_alphabet @ ''+/'') (common_alphabet @ ''+/'')"
  "same_symbols (common_alphabet @ ''+/'') (common_alphabet @ ''-_'')"
  "same_symbols (common_alphabet @ ''-_'') (common_alphabet @ ''+/'')"
  "same_symbols (common_alphabet @ ''-_'') (common_alphabet @ ''-_'')"
  by code_simp+

lemma legacy_reads_as:
  "enc \<in> set legacy_encodings \<Longrightarrow> other \<in> set legacy_encodings \<Longrightarrow> reads_as enc other"
  by (rule reads_as_symbols)
    (auto simp: legacy_encodings_def std_encoding_def raw_std_encoding_def url_encoding_def
      raw_url_encoding_def alphabets_agree)

text \<open>One symbol of the other encoding: its value joins the quantum, or the text is corrupt.\<close>

lemma decode_quantum_symbol:
  assumes "reads_as enc other" "length read < 4"
  shows "decode_quantum other read (encode_char enc v # cs) =
     (if decode_char other (encode_char enc v) = Some v then decode_quantum other (read @ [v]) cs
      else None)"
  using assms by (force simp: reads_as_def)

lemma own_symbol:
  assumes "enc \<in> set legacy_encodings"
  shows "decode_char enc (encode_char enc v) = Some v"
proof -
  have "distinct (b64_alphabet enc)" "length (b64_alphabet enc) = 64"
    using assms by (auto simp: legacy_encodings_def std_encoding_def raw_std_encoding_def
        url_encoding_def raw_url_encoding_def common_alphabet_def)
  then show ?thesis
    using sextet_below [of v] by (simp add: decode_char_def encode_char_def index_of_nth)
qed

section \<open>Round trips\<close>

text \<open>A text of one encoding is read by another as its own bytes, or refused.\<close>

lemma decode_quantum_full: "length read = 4 \<Longrightarrow> decode_quantum enc read cs = Some (read, cs)"
  by (cases cs) simp_all

lemma padded_tail:
  assumes "reads_as enc other" "read = [p, q] \<and> n = 2 \<or> read = [p, q, r] \<and> n = 1"
  shows "decode_quantum other read (padding enc n) =
      (if b64_pad enc = b64_pad other then Some (read, []) else None)"
proof -
  have line: "\<not> is_line_end CHR ''=''" by code_simp
  show ?thesis
    using assms line
    by (auto simp: reads_as_def padded_end_def skip_line_ends_def numeral_2_eq_2 split: option.splits)
qed

lemma decode_other_string:
  assumes "reads_as enc other"
  shows "decode_string other (encode_string enc payload) \<in> {None, Some payload}"
  using assms
proof (induction enc payload rule: encode_string.induct)
  case (2 enc a)
  then show ?case
    by (simp add: Let_def decode_quantum_symbol padded_tail [where n = 2] quantum_bytes_of
        del: decode_quantum.simps padding.simps quantum_bytes.simps)
next
  case (3 enc a b)
  then show ?case
    by (simp add: Let_def decode_quantum_symbol padded_tail [where n = "Suc 0"] quantum_bytes_of
        del: decode_quantum.simps padding.simps quantum_bytes.simps)
next
  case (4 enc a b c rest)
  then show ?case
    by (auto simp: Let_def decode_quantum_symbol decode_quantum_full quantum_bytes_of
        simp del: decode_quantum.simps padding.simps quantum_bytes.simps)
qed simp

lemma decode_own_string:
  "enc \<in> set legacy_encodings \<Longrightarrow> decode_string enc (encode_string enc payload) = Some payload"
proof (induction enc payload rule: encode_string.induct)
  case (2 enc a)
  then show ?case
    by (simp add: Let_def decode_quantum_symbol [OF legacy_reads_as] own_symbol
        padded_tail [OF legacy_reads_as, where n = 2] quantum_bytes_of
        del: decode_quantum.simps padding.simps quantum_bytes.simps)
next
  case (3 enc a b)
  then show ?case
    by (simp add: Let_def decode_quantum_symbol [OF legacy_reads_as] own_symbol
        padded_tail [OF legacy_reads_as, where n = "Suc 0"] quantum_bytes_of
        del: decode_quantum.simps padding.simps quantum_bytes.simps)
next
  case (4 enc a b c rest)
  then show ?case
    by (simp add: Let_def decode_quantum_symbol [OF legacy_reads_as] decode_quantum_full own_symbol
        quantum_bytes_of del: decode_quantum.simps padding.simps quantum_bytes.simps)
qed simp

lemma encoded_length: "length (encode_string enc payload) \<le> (length payload + 2) div 3 * 4"
proof (induction enc payload rule: encode_string.induct)
  case (4 enc a b c rest)
  have "(length (a # b # c # rest) + 2) div 3 = Suc ((length rest + 2) div 3)" by simp
  then show ?case using 4 by (simp add: Let_def del: length_Cons)
qed (auto simp: Let_def split: option.splits)

text \<open>The length estimate is computed without wrapping, on every positive limit.\<close>

lemma exceeds_limit_exact:
  assumes "0 < sint limit"
  shows "encoded_length_exceeds_limit n limit \<longleftrightarrow>
     sint limit \<le> 6917529027641081851 \<and> int n > (sint limit + 2) div 3 * 4"
proof -
  have u: "sint limit = uint limit" "uint limit < 2 ^ 63"
    using int_positive [of limit] assms by auto
  have guard: "sint (max_int64 div 4 * 3 - 2) = 6917529027641081851"
    by code_simp
  show ?thesis
  proof (cases "uint limit \<le> 6917529027641081851")
    case True
    have "uint (limit + 2) = uint limit + 2" using True by (subst uint_plus) simp_all
    moreover have "(uint limit + 2) div 3 * 4 < 2 ^ 63" using True by simp
    ultimately have "uint ((limit + 2) div 3 * 4) = (uint limit + 2) div 3 * 4"
      by (subst uint_times) (simp_all add: uint_div)
    then have "sint ((limit + 2) div 3 * 4) = (uint limit + 2) div 3 * 4"
      using \<open>(uint limit + 2) div 3 * 4 < 2 ^ 63\<close> by (simp add: sint_of_uint)
    then show ?thesis using True guard u(1) by (simp add: encoded_length_exceeds_limit_def)
  next
    case False
    then show ?thesis using guard u(1) by (simp add: encoded_length_exceeds_limit_def)
  qed
qed

lemma encoded_fits:
  assumes "0 < sint limit" "int (length payload) \<le> sint limit"
  shows "\<not> encoded_length_exceeds_limit (length (encode_string enc payload)) limit"
proof -
  have "int (length (encode_string enc payload)) \<le> int ((length payload + 2) div 3 * 4)"
    using encoded_length [of enc payload] by linarith
  also have "\<dots> = (int (length payload) + 2) div 3 * 4" by (simp add: zdiv_int)
  also have "\<dots> \<le> (sint limit + 2) div 3 * 4"
    using assms(2) by (intro mult_right_mono zdiv_mono1) simp_all
  finally show ?thesis using assms(1) by (simp add: exceeds_limit_exact)
qed

text \<open>
  every base64 spelling the room fixtures use is read back: a payload within the limit that was
  written padded or unpadded, in the standard or the URL-safe alphabet, is decoded by
  \<^verbatim>\<open>DecodeLegacyBase64WithLimit\<close> to the same bytes, although it tries the encodings in turn.
\<close>

theorem legacy_base64_accepts_every_spelling:
  assumes "enc \<in> set legacy_encodings" and "0 < sint limit" and "int (length payload) \<le> sint limit"
  shows "decode_legacy_base64_with_limit (encode_string enc payload) limit = Inr payload"
proof -
  let ?text = "encode_string enc payload"
  have "enc \<in> set encs \<Longrightarrow> set encs \<subseteq> set legacy_encodings \<Longrightarrow>
      decode_spellings encs ?text limit = Inr payload" for encs
  proof (induction encs)
    case (Cons other encs)
    then have "decode_string other ?text \<in> {None, Some payload}"
      using assms(1) by (intro decode_other_string legacy_reads_as) simp_all
    moreover have "other = enc \<Longrightarrow> decode_string other ?text = Some payload"
      using assms(1) by (simp add: decode_own_string)
    ultimately show ?case
      using Cons encoded_fits [OF assms(2,3)] assms(3) by (auto split: option.splits)
  qed simp
  moreover have "?text = [] \<Longrightarrow> payload = []" 
    by (cases "(enc, payload)" rule: encode_string.cases) (simp_all add: Let_def)
  ultimately show ?thesis
    using assms by (auto simp: decode_legacy_base64_with_limit_def validate_limit_def)
qed

theorem legacy_base64_accepts_every_spelling_witness:
  "decode_legacy_base64_with_limit (encode_string raw_url_encoding [255, 16]) 2 = Inr [255, 16]"
  by (rule legacy_base64_accepts_every_spelling) (simp_all add: legacy_encodings_def)

text \<open>
  C36: samples survive the provider boundary: what \<^verbatim>\<open>EncodePCM16Base64WithLimit\<close> accepts,
  \<^verbatim>\<open>DecodePCM16Base64WithLimit\<close> with the same limit decodes to the same samples, and it accepts
  exactly the sample lists whose bytes are within a positive limit.
\<close>

theorem pcm16_base64_round_trip:
  "case encode_pcm16_base64_with_limit samples limit of
     Inr text \<Rightarrow> 0 < sint limit \<and> 2 * int (length samples) \<le> sint limit
       \<and> decode_pcm16_base64_with_limit text limit = Inr samples
   | Inl e \<Rightarrow> sint limit \<le> 0 \<and> e = InvalidPayloadLimit limit
       \<or> 0 < sint limit \<and> sint limit < 2 * int (length samples)
         \<and> e = PayloadTooLarge (int (length samples * 2)) limit"
proof (cases "0 < sint limit")
  case True
  then have half: "uint (limit div 2) = sint limit div 2"
    using int_positive [of limit] by (simp add: uint_div)
  show ?thesis
  proof (cases "2 * int (length samples) \<le> sint limit")
    case fits: True
    then have encoded: "encode_pcm16_with_limit samples limit = Inr (bytes_of samples)"
      using True half encode_into_bytes [of samples "replicate (length samples * 2) 0"]
      by (auto simp: encode_pcm16_with_limit_def validate_limit_def)
    have std: "std_encoding \<in> set legacy_encodings" by (simp add: legacy_encodings_def)
    have "decode_base64_with_limit (encode_string std_encoding (bytes_of samples)) limit
        = Inr (bytes_of samples)"
      using True fits encoded_fits [of limit "bytes_of samples" std_encoding]
        decode_own_string [OF std, of "bytes_of samples"]
      by (auto simp: decode_base64_with_limit_def validate_limit_def)
    then show ?thesis
      using True fits encoded
      by (simp add: encode_pcm16_base64_with_limit_def encode_base64_def validate_limit_def
          decode_pcm16_base64_with_limit_def decode_pcm16_with_limit_def validate_pcm16_def)
  next
    case False
    then have "sint limit div 2 < int (length samples)" by linarith
    then show ?thesis
      using True False half
      by (simp add: encode_pcm16_base64_with_limit_def encode_pcm16_with_limit_def validate_limit_def)
  qed
qed (simp add: encode_pcm16_base64_with_limit_def encode_pcm16_with_limit_def validate_limit_def)

text \<open>
  no decoded payload exceeds its limit, and a decoded PCM16 payload re-encodes to its bytes:
  decoding loses nothing, and the buffer variant writes the same samples and leaves the rest of its
  destination alone.
\<close>

theorem pcm16_decode_bounded:
  assumes "decode_pcm16_with_limit encoded limit = Inr samples"
    and "length samples \<le> length destination"
  shows "encode_pcm16 samples = encoded \<and> 2 * int (length samples) \<le> sint limit
    \<and> decode_pcm16_into destination encoded = Inr (samples @ drop (length samples) destination)"
proof -
  have valid: "validate_pcm16 encoded limit = None" and samples: "samples = pcm16_samples encoded"
    using assms(1) by (auto simp: decode_pcm16_with_limit_def split: option.splits)
  have even: "length encoded mod 2 = 0" and fits: "int (length encoded) \<le> sint limit"
    using valid by (auto simp: validate_pcm16_def split: option.splits if_splits)
  show ?thesis
    using assms(2) even fits
    by (auto simp: samples bytes_of_samples decode_into_samples zdiv_int)
qed

theorem pcm16_decode_bounded_witness:
  "encode_pcm16 [0x0201] = [1, 2] \<and> 2 * int (length [0x0201 :: sample]) \<le> sint (4 :: go_int)
    \<and> decode_pcm16_into [7, 9] [1, 2] = Inr ([0x0201] @ drop (length [0x0201 :: sample]) [7, 9])"
proof (rule pcm16_decode_bounded)
  show "decode_pcm16_with_limit [1, 2] 4 = Inr [0x0201]" by code_simp
qed simp

end
