(* ===== verification/Pcm_Mix.thy ===== *)
theory Pcm_Mix
  imports Pcm_Codec Frame_Buffer "HOL-Library.Multiset"
begin

text \<open>
  Sample mixing, \<^verbatim>\<open>go-audio/pkg/mixer/pcm_mix.go\<close>, and the device formats of \<^verbatim>\<open>audio/format.go\<close>. The accumulator is the \<^verbatim>\<open>int64\<close> slice of the code, so
  that its sums could wrap; that they do not is the lemma \<^verbatim>\<open>mix_total_exact\<close>.
\<close>

section \<open>Device formats\<close>

definition audio_channels :: int where
  "audio_channels = 1"

definition audio_sample_rate :: int where
  "audio_sample_rate = 16000"

definition audio_frame_size :: nat where
  "audio_frame_size = 480"

definition pcm16_device_format :: "int \<Rightarrow> device_format" where
  "pcm16_device_format rate =
     \<lparr>df_sample_rate = rate, df_channels = audio_channels, df_bit_depth = 16, df_encoding = ''pcm16''\<rparr>"

definition default_device_format :: device_format where
  "default_device_format = pcm16_device_format audio_sample_rate"

definition device_format_validate :: "device_format \<Rightarrow> bool" where
  "device_format_validate f \<longleftrightarrow>
     \<not> (df_sample_rate f \<le> 0 \<or> df_channels f \<noteq> audio_channels \<or> df_bit_depth f \<noteq> 16
        \<or> df_encoding f \<noteq> ''pcm16'')"

definition device_format_equal :: "device_format \<Rightarrow> device_format \<Rightarrow> bool" where
  "device_format_equal f other \<longleftrightarrow>
     df_sample_rate f = df_sample_rate other \<and> df_channels f = df_channels other
     \<and> df_bit_depth f = df_bit_depth other \<and> df_encoding f = df_encoding other"

lemma valid_device_formats:
  "device_format_validate f \<longleftrightarrow> (\<exists>rate > 0. f = pcm16_device_format rate)"
  by (cases f) (auto simp: device_format_validate_def pcm16_device_format_def)

lemma device_format_equal_iff: "device_format_equal f other \<longleftrightarrow> f = other"
  by (cases f; cases other) (simp add: device_format_equal_def)

section \<open>Mixing\<close>

definition pcm16_max_sample :: int where "pcm16_max_sample = 32767"
definition pcm16_min_sample :: int where "pcm16_min_sample = - 32768"
definition max_pcm16_mix_sources :: nat where "max_pcm16_mix_sources = 2 ^ 20"
definition max_pcm16_mix_samples :: nat where "max_pcm16_mix_samples = 2 ^ 20"

datatype mix_error =
    MixInvalidLength int
  | MixSourceLimit nat
  | MixSourceTooLong nat nat int
  | MixOddLength nat nat
  | MixDecode nat codec_error
  | MixEncode codec_error

definition validate_pcm16_mix_bounds :: "nat \<Rightarrow> int \<Rightarrow> mix_error option" where
  "validate_pcm16_mix_bounds source_count output_length =
     (if output_length < 0 \<or> output_length > int max_pcm16_mix_samples
      then Some (MixInvalidLength output_length)
      else if source_count > max_pcm16_mix_sources then Some (MixSourceLimit source_count)
      else None)"

fun find_too_long :: "nat \<Rightarrow> 'a list list \<Rightarrow> int \<Rightarrow> mix_error option" where
  "find_too_long index [] limit = None"
| "find_too_long index (source # sources) limit =
     (if int (length source) > limit then Some (MixSourceTooLong index (length source) limit)
      else find_too_long (Suc index) sources limit)"

text \<open>The inner and the outer accumulation loops.\<close>

fun accumulate_from :: "nat \<Rightarrow> go_int list \<Rightarrow> sample list \<Rightarrow> go_int list" where
  "accumulate_from index acc [] = acc"
| "accumulate_from index acc (s # samples) =
     accumulate_from (Suc index) (acc [index := acc ! index + signed s]) samples"

fun accumulate_sources :: "go_int list \<Rightarrow> sample list list \<Rightarrow> go_int list" where
  "accumulate_sources acc [] = acc"
| "accumulate_sources acc (source # sources) =
     accumulate_sources (accumulate_from 0 acc source) sources"

definition clip_sample :: "go_int \<Rightarrow> sample" where
  "clip_sample v =
     (if sint v > pcm16_max_sample then word_of_int pcm16_max_sample
      else if sint v < pcm16_min_sample then word_of_int pcm16_min_sample
      else ucast v)"

definition mix_pcm16_samples :: "sample list list \<Rightarrow> int \<Rightarrow> mix_error + sample list" where
  "mix_pcm16_samples sources output_length =
     (case validate_pcm16_mix_bounds (length sources) output_length of
        Some e \<Rightarrow> Inl e
      | None \<Rightarrow>
          (case find_too_long 0 sources output_length of
             Some e \<Rightarrow> Inl e
           | None \<Rightarrow>
               Inr (map clip_sample
                 (accumulate_sources (replicate (nat output_length) 0) sources))))"

text \<open>The checks and the decoding loop of \<^verbatim>\<open>MixPCM16Bytes\<close>.\<close>

fun check_byte_sources :: "nat \<Rightarrow> byte list list \<Rightarrow> int \<Rightarrow> mix_error option" where
  "check_byte_sources index [] output_length = None"
| "check_byte_sources index (source # sources) output_length =
     (if length source mod 2 \<noteq> 0 then Some (MixOddLength index (length source))
      else if int (length source div 2) > output_length
      then Some (MixSourceTooLong index (length source div 2) output_length)
      else check_byte_sources (Suc index) sources output_length)"

fun decode_byte_sources :: "nat \<Rightarrow> byte list list \<Rightarrow> mix_error + sample list list" where
  "decode_byte_sources index [] = Inr []"
| "decode_byte_sources index (source # sources) =
     (if length source div 2 = 0
      then map_sum id ((#) []) (decode_byte_sources (Suc index) sources)
      else (case decode_pcm16_into (replicate (length source div 2) 0) source of
              Inl e \<Rightarrow> Inl (MixDecode index e)
            | Inr samples \<Rightarrow> map_sum id ((#) samples) (decode_byte_sources (Suc index) sources)))"

definition mix_pcm16_bytes :: "byte list list \<Rightarrow> int \<Rightarrow> mix_error + byte list" where
  "mix_pcm16_bytes sources output_length =
     (case validate_pcm16_mix_bounds (length sources) output_length of
        Some e \<Rightarrow> Inl e
      | None \<Rightarrow>
          if output_length > uint (max_int64 div 2) then Inl (MixInvalidLength output_length)
          else (case check_byte_sources 0 sources output_length of
                  Some e \<Rightarrow> Inl e
                | None \<Rightarrow>
                    (case decode_byte_sources 0 sources of
                       Inl e \<Rightarrow> Inl e
                     | Inr decoded \<Rightarrow>
                         (case mix_pcm16_samples decoded output_length of
                            Inl e \<Rightarrow> Inl e
                          | Inr mixed \<Rightarrow>
                              map_sum MixEncode id
                                (encode_pcm16_into (replicate (nat output_length * 2) 0) mixed)))))"

section \<open>The mix as a sum\<close>

text \<open>What source \<^verbatim>\<open>source\<close> contributes to position \<^verbatim>\<open>i\<close>: silence beyond its end.\<close>

definition sample_at :: "nat \<Rightarrow> sample list \<Rightarrow> int" where
  "sample_at i source = (if i < length source then sint (source ! i) else 0)"

definition mix_total :: "nat \<Rightarrow> sample list list \<Rightarrow> int" where
  "mix_total i sources = (\<Sum>source \<leftarrow> sources. sample_at i source)"

definition clip16 :: "int \<Rightarrow> int" where
  "clip16 v = max (- 32768) (min 32767 v)"

lemma sample_bounds: "- 32768 \<le> sint (s :: sample)" "sint (s :: sample) \<le> 32767"
  using sint_ge [of s] sint_lt [of s] by simp_all

lemma sample_at_bounds: "- 32768 \<le> sample_at i source" "sample_at i source \<le> 32767"
  using sample_bounds by (auto simp: sample_at_def)

lemma mix_total_bounds: "\<bar>mix_total i sources\<bar> \<le> 32768 * int (length sources)"
proof (induction sources)
  case (Cons source sources)
  then show ?case using sample_at_bounds [of i source] by (simp add: mix_total_def algebra_simps)
qed (simp add: mix_total_def)

lemma len64: "LENGTH(64) - 1 = 63" and len16: "LENGTH(16) - 1 = 15"
  by simp_all

lemma accumulate_from_length [simp]: "length (accumulate_from index acc samples) = length acc"
  by (induction index acc samples rule: accumulate_from.induct) simp_all

lemma accumulate_from_nth:
  "index + length samples \<le> length acc \<Longrightarrow> i < length acc \<Longrightarrow>
   accumulate_from index acc samples ! i
     = acc ! i + (if index \<le> i then word_of_int (sample_at (i - index) samples) else 0)"
proof (induction index acc samples rule: accumulate_from.induct)
  case (2 index acc s samples)
  consider "i < index" | "i = index" | "Suc index \<le> i" by linarith
  then show ?case
  proof cases
    case 3
    then have "i - index = Suc (i - Suc index)" by simp
    then have "sample_at (i - index) (s # samples) = sample_at (i - Suc index) samples"
      by (simp add: sample_at_def)
    then show ?thesis using 2 3 by simp
  qed (use 2 in \<open>simp_all add: sample_at_def\<close>)
qed (simp add: sample_at_def)

lemma accumulate_sources_length [simp]: "length (accumulate_sources acc sources) = length acc"
  by (induction acc sources rule: accumulate_sources.induct) simp_all

lemma accumulate_sources_nth:
  "\<forall>source \<in> set sources. length source \<le> length acc \<Longrightarrow> i < length acc \<Longrightarrow>
   accumulate_sources acc sources ! i = acc ! i + word_of_int (mix_total i sources)"
proof (induction acc sources rule: accumulate_sources.induct)
  case (2 acc source sources)
  have "accumulate_from 0 acc source ! i = acc ! i + word_of_int (sample_at i source)"
    using 2 by (simp add: accumulate_from_nth)
  then show ?case using 2 by (simp add: mix_total_def wi_hom_add [symmetric] add.assoc)
qed (simp add: mix_total_def)

lemma sint_of_small: "- (2 ^ 63) \<le> k \<Longrightarrow> k < 2 ^ 63 \<Longrightarrow> sint (word_of_int k :: go_int) = k"
  using signed_take_bit_int_eq_self [of 63 k] by (simp only: sint_sbintrunc' len64)

lemma sint_of_small_sample:
  "- (2 ^ 15) \<le> k \<Longrightarrow> k < 2 ^ 15 \<Longrightarrow> sint (word_of_int k :: sample) = k"
  using signed_take_bit_int_eq_self [of 15 k] by (simp only: sint_sbintrunc' len16)

lemma mix_total_exact:
  "length sources \<le> max_pcm16_mix_sources \<Longrightarrow>
   sint (word_of_int (mix_total i sources) :: go_int) = mix_total i sources"
  using mix_total_bounds [of i sources]
  by (intro sint_of_small) (simp_all add: max_pcm16_mix_sources_def abs_le_iff)

lemma sint_clip_sample: "sint (clip_sample v) = clip16 (sint v)"
proof -
  have "ucast v = (word_of_int (sint v) :: sample)"
    by (rule bit_word_eqI) (simp add: bit_simps)
  moreover have "- 32768 \<le> sint v \<Longrightarrow> sint v \<le> 32767 \<Longrightarrow> sint (word_of_int (sint v) :: sample) = sint v"
    by (rule sint_of_small_sample) simp_all
  moreover have "sint (word_of_int 32767 :: sample) = 32767" "sint (word_of_int (- 32768) :: sample) = - 32768"
    by (rule sint_of_small_sample; simp)+
  ultimately show ?thesis
    unfolding clip_sample_def clip16_def pcm16_max_sample_def pcm16_min_sample_def
    by (smt (verit, best))
qed

lemma find_too_long_none:
  "find_too_long index sources limit = None \<longleftrightarrow> (\<forall>source \<in> set sources. int (length source) \<le> limit)"
  by (induction index sources limit rule: find_too_long.induct) auto

text \<open>When a mix is possible at all: within the bounds, and no source longer than the output.\<close>

definition mixable :: "sample list list \<Rightarrow> int \<Rightarrow> bool" where
  "mixable sources output_length \<longleftrightarrow>
     0 \<le> output_length \<and> output_length \<le> 2 ^ 20 \<and> length sources \<le> 2 ^ 20
     \<and> list_all (\<lambda>source. int (length source) \<le> output_length) sources"

lemma mix_result:
  "mix_pcm16_samples sources n = Inr result \<longleftrightarrow>
     mixable sources n \<and> result = map clip_sample (accumulate_sources (replicate (nat n) 0) sources)"
  using find_too_long_none [of 0 sources n]
  by (auto simp: mix_pcm16_samples_def validate_pcm16_mix_bounds_def mixable_def
      max_pcm16_mix_samples_def max_pcm16_mix_sources_def list_all_iff
      split: option.splits if_splits)

lemma mixed_values:
  assumes "mixable sources n"
  shows "map sint (map clip_sample (accumulate_sources (replicate (nat n) 0) sources))
    = map (\<lambda>i. clip16 (mix_total i sources)) [0..<nat n]"
proof (rule nth_equalityI)
  fix i
  assume "i < length (map sint (map clip_sample (accumulate_sources (replicate (nat n) 0) sources)))"
  then have i: "i < nat n" by simp
  have fit: "\<forall>source \<in> set sources. length source \<le> length (replicate (nat n) (0 :: go_int))"
    using assms by (auto simp: mixable_def list_all_iff)
  have "accumulate_sources (replicate (nat n) 0) sources ! i = word_of_int (mix_total i sources)"
    using accumulate_sources_nth [OF fit, of i] i by simp
  then show "map sint (map clip_sample (accumulate_sources (replicate (nat n) 0) sources)) ! i
      = map (\<lambda>i. clip16 (mix_total i sources)) [0..<nat n] ! i"
    using i assms mix_total_exact [of sources i]
    by (simp add: sint_clip_sample mixable_def max_pcm16_mix_sources_def)
qed simp

lemma mix_is_clipped_sum_values:
  "mix_pcm16_samples sources n = Inr result \<longleftrightarrow>
     mixable sources n \<and> map sint result = map (\<lambda>i. clip16 (mix_total i sources)) [0..<nat n]"
proof -
  have "inj (sint :: sample \<Rightarrow> int)" by (rule injI) (rule signed_word_eqI, simp)
  then have "mixable sources n \<Longrightarrow>
      result = map clip_sample (accumulate_sources (replicate (nat n) 0) sources)
        \<longleftrightarrow> map sint result = map (\<lambda>i. clip16 (mix_total i sources)) [0..<nat n]"
    by (metis mixed_values inj_map_eq_map)
  then show ?thesis by (auto simp only: mix_result)
qed

lemma mix_order_independent:
  assumes "mset sources = mset other" "mix_pcm16_samples sources n = Inr result"
  shows "mix_pcm16_samples other n = Inr result"
proof -
  have total: "mix_total i sources = mix_total i other" for i
    using assms(1) unfolding mix_total_def by (metis mset_map sum_mset_sum_list)
  have "length sources = length other" "set sources = set other"
    using assms(1) by (auto dest: mset_eq_length mset_eq_setD)
  then have "mixable sources n = mixable other n" by (simp add: mixable_def list_all_iff)
  then show ?thesis using assms(2) total by (simp add: mix_is_clipped_sum_values)
qed

text \<open>
  C33: a mix is the clipped sum: it succeeds exactly within the documented bounds, and then its
  sample at every position is the exact sum of the sources there, clipped once to the PCM16 range;
  a shorter source is silent beyond its end, and the order of the sources makes no difference. The
  \<^verbatim>\<open>int64\<close> accumulator never wraps.
\<close>

theorem mix_is_clipped_sum:
  "(mix_pcm16_samples sources n = Inr result \<longleftrightarrow>
     mixable sources n \<and> map sint result = map (\<lambda>i. clip16 (mix_total i sources)) [0..<nat n])
   \<and> (mix_pcm16_samples (rev sources) n = Inr result \<longleftrightarrow> mix_pcm16_samples sources n = Inr result)"
  using mix_is_clipped_sum_values [of sources n result] mix_order_independent [of sources "rev sources" n result]
    mix_order_independent [of "rev sources" sources n result] mset_rev [of sources]
  by metis

section \<open>The byte frontend\<close>

lemma check_encoded_sources:
  "check_byte_sources index (map encode_pcm16 sources) n = find_too_long index sources n"
  by (induction index sources n rule: find_too_long.induct) simp_all

lemma decode_encoded_sources:
  "decode_byte_sources index (map encode_pcm16 sources) = Inr sources"
proof (induction sources arbitrary: index)
  case (Cons source sources)
  then show ?case by (simp add: decode_into_samples)
qed simp

lemma mix_encoded_sources:
  "mix_pcm16_bytes (map encode_pcm16 sources) n = map_sum id encode_pcm16 (mix_pcm16_samples sources n)"
proof (cases "mix_pcm16_samples sources n")
  case (Inl e)
  consider "validate_pcm16_mix_bounds (length sources) n = Some e"
    | "validate_pcm16_mix_bounds (length sources) n = None" "find_too_long 0 sources n = Some e"
    using Inl by (auto simp: mix_pcm16_samples_def split: option.splits)
  then show ?thesis
  proof cases
    case 2
    then have "\<not> n > uint (max_int64 div 2)"
      by (auto simp: validate_pcm16_mix_bounds_def max_pcm16_mix_samples_def uint_div split: if_splits)
    then show ?thesis using 2 Inl by (simp add: mix_pcm16_bytes_def check_encoded_sources)
  qed (simp add: mix_pcm16_bytes_def Inl)
next
  case (Inr mixed)
  then have ok: "mixable sources n" and size: "length mixed = nat n" by (auto simp: mix_result)
  have "find_too_long 0 sources n = None" "validate_pcm16_mix_bounds (length sources) n = None"
    using ok by (auto simp: mixable_def find_too_long_none list_all_iff validate_pcm16_mix_bounds_def
        max_pcm16_mix_samples_def max_pcm16_mix_sources_def)
  then show ?thesis
    using Inr size ok
    by (simp add: mix_pcm16_bytes_def check_encoded_sources decode_encoded_sources uint_div
        encode_into_bytes mixable_def)
qed

lemma check_aligned_sources:
  "check_byte_sources index frames n = None \<Longrightarrow> \<exists>sources. frames = map encode_pcm16 sources"
proof (induction index frames n rule: check_byte_sources.induct)
  case (2 index frame frames n)
  then have even: "length frame mod 2 = 0" and "\<exists>sources. frames = map encode_pcm16 sources"
    by (auto split: if_splits simp del: encode_pcm16_bytes)
  then obtain sources where "frames = map encode_pcm16 sources" by blast
  then have "frame # frames = map encode_pcm16 (pcm16_samples frame # sources)"
    using even by (simp add: bytes_of_samples)
  then show ?case by (rule exI)
qed simp

text \<open>
  C23: \<^verbatim>\<open>MixPCM16Bytes\<close> implements \<^verbatim>\<open>MixPCM16Samples\<close>: on encoded sources it yields the encoding of
  the sample mix, and the same error where that one fails; and it succeeds on nothing else, so a
  source with half a sample is refused.
\<close>

theorem mix_bytes_refines_samples:
  "mix_pcm16_bytes (map encode_pcm16 sources) n = map_sum id encode_pcm16 (mix_pcm16_samples sources n)
   \<and> (mix_pcm16_bytes frames n = Inr result \<longleftrightarrow>
       (\<exists>sources mixed. frames = map encode_pcm16 sources \<and> mix_pcm16_samples sources n = Inr mixed
          \<and> result = encode_pcm16 mixed))"
proof -
  have "\<exists>sources. frames = map encode_pcm16 sources" if "mix_pcm16_bytes frames n = Inr result"
  proof -
    have "check_byte_sources 0 frames n = None"
      using that by (auto simp: mix_pcm16_bytes_def split: option.splits if_splits)
    then show ?thesis by (rule check_aligned_sources)
  qed
  moreover have "(map_sum id encode_pcm16 x = Inr result) = (\<exists>mixed. x = Inr mixed \<and> result = encode_pcm16 mixed)"
    for x :: "mix_error + sample list"
    by (cases x) auto
  ultimately show ?thesis by (metis mix_encoded_sources)
qed

end
