(* ===== verification/Mixer_Input.thy ===== *)
theory Mixer_Input
  imports Pcm_Mix Go_Text
begin

text \<open>
  The formats and the inputs of the room mixer, \<^verbatim>\<open>go-audio/pkg/mixer/format.go\<close> and
  \<^verbatim>\<open>input.go\<close>. An input reframes provider packets into the negotiated cadence and submits the
  frames to its buffer. A submission may wait: each one takes the rounds of its wait
  (\<^const>\<open>submit_wait\<close>) from a list, and a write whose rounds run out has not returned (\<^verbatim>\<open>None\<close>).
  A write also yields the frames it had admitted.
\<close>

section \<open>Errors\<close>

definition err_mixer_closed :: go_error where
  "err_mixer_closed = ErrorText ''PCM mixer is closed''"

definition err_input_exists :: go_error where
  "err_input_exists = ErrorText ''PCM mixer input already exists''"

definition err_input_missing :: go_error where
  "err_input_missing = ErrorText ''PCM mixer input is not registered''"

definition err_invalid_format :: go_error where
  "err_invalid_format = ErrorText ''invalid PCM mixer format''"

definition err_frame_size_mismatch :: go_error where
  "err_frame_size_mismatch = ErrorText ''PCM mixer frame size does not match negotiated cadence''"

definition err_clock_unavailable :: go_error where
  "err_clock_unavailable = ErrorText ''PCM mixer clock is unavailable''"

definition err_context_unavailable :: go_error where
  "err_context_unavailable = ErrorText ''PCM mixer context is unavailable''"

lemmas mixer_error_defs = err_mixer_closed_def err_input_exists_def err_input_missing_def
  err_invalid_format_def err_frame_size_mismatch_def err_clock_unavailable_def
  err_context_unavailable_def

section \<open>Formats\<close>

record mix_format =
  mf_sample_rate :: go_int
  mf_channels :: go_int
  mf_frame_duration :: go_int

definition mix_frame_samples :: "mix_format \<Rightarrow> nat result" where
  "mix_frame_samples f =
     (if sint (mf_sample_rate f) \<le> 0 \<or> mf_channels f \<noteq> 1 \<or> sint (mf_frame_duration f) \<le> 0
      then Inl (WrappedError ''format fields'' err_invalid_format)
      else (let total = mf_sample_rate f * mf_frame_duration f in
            if sint total \<le> 0 \<or> total mod nanos_per_second \<noteq> 0
            then Inl (WrappedError ''sample alignment'' err_invalid_format)
            else (let samples = total div nanos_per_second * mf_channels f in
                  if sint samples \<le> 0 then Inl (WrappedError ''sample count'' err_invalid_format)
                  else Inr (unat samples))))"

definition default_mix_format :: mix_format where
  "default_mix_format = \<lparr>mf_sample_rate = 24000, mf_channels = 1, mf_frame_duration = 30000000\<rparr>"

record mix_config =
  mc_format :: mix_format
  mc_stream_id :: string
  mc_input_queue_frames :: int
  mc_output_queue_frames :: int

definition normalize_config :: "mix_config \<Rightarrow> (mix_config \<times> nat) result" where
  "normalize_config c =
     (case mix_frame_samples (mc_format c) of
        Inl e \<Rightarrow> Inl e
      | Inr samples \<Rightarrow>
          (let c = (if mc_input_queue_frames c = 0 then c\<lparr>mc_input_queue_frames := 16\<rparr> else c);
               c = (if mc_output_queue_frames c = 0 then c\<lparr>mc_output_queue_frames := 8\<rparr> else c);
               c = (if trim_space (mc_stream_id c) = [] then c\<lparr>mc_stream_id := ''mix''\<rparr> else c)
           in if mc_input_queue_frames c < 1 \<or> mc_output_queue_frames c < 1
              then Inl (WrappedError ''queue capacities'' err_invalid_format)
              else Inr (c, samples)))"

text \<open>
  Where the product of rate and duration fits, the count is that of the checked routine of the
  device side; where it does not, the product wraps.
\<close>

lemma one_channel_samples:
  assumes "0 < sint rate" "0 < sint duration"
  shows "pcm16_frame_samples rate 1 duration = Inr k
    \<longleftrightarrow> sint rate * sint duration = sint k * 1000000000"
proof -
  have one: "sint (1 :: go_int) = 1" by code_simp
  show ?thesis using assms by (simp only: pcm16_frame_samples_exact one mult_1_right) auto
qed

lemma mix_frame_samples_checked:
  assumes "0 < sint rate" "0 < sint duration" "sint rate * sint duration < 2 ^ 63"
  shows "mix_frame_samples \<lparr>mf_sample_rate = rate, mf_channels = 1, mf_frame_duration = duration\<rparr>
      = Inr n \<longleftrightarrow> pcm16_frame_samples rate 1 duration = Inr (word_of_nat n) \<and> int n < 2 ^ 63"
proof -
  have r: "sint rate = uint rate" "0 < uint rate" and d: "sint duration = uint duration" "0 < uint duration"
    using assms int_positive [of rate] int_positive [of duration] by auto
  define total where "total = uint rate * uint duration"
  have product: "uint (rate * duration) = total" "0 < total" "total < 2 ^ 63"
    using assms r d by (simp_all add: uint_times total_def)
  have signed: "sint (rate * duration) = total" using product by (simp add: sint_of_uint)
  define count where "count = rate * duration div nanos_per_second"
  have count: "uint count = total div 1000000000" "uint count < 2 ^ 63"
    using product by (auto simp: count_def uint_div)
  have scount: "sint count = total div 1000000000" using count by (simp add: sint_of_uint)
  have divides: "rate * duration mod nanos_per_second = 0 \<longleftrightarrow> total mod 1000000000 = 0"
    using product by (simp add: word_eq_iff_uint uint_mod)
  have "mix_frame_samples \<lparr>mf_sample_rate = rate, mf_channels = 1, mf_frame_duration = duration\<rparr> = Inr n
      \<longleftrightarrow> total mod 1000000000 = 0 \<and> 0 < uint count \<and> int n = uint count"
    using assms signed product divides scount count
    by (auto simp: mix_frame_samples_def Let_def count_def [symmetric] unat_eq_nat_uint)
  moreover have "pcm16_frame_samples rate 1 duration = Inr (word_of_nat n) \<and> int n < 2 ^ 63
      \<longleftrightarrow> total = int n * 1000000000 \<and> int n < 2 ^ 63"
  proof (cases "int n < 2 ^ 63")
    case True
    then have "sint (word_of_nat n :: go_int) = int n"
      using sint_of_small [of "int n"] by simp
    then show ?thesis
      using True one_channel_samples [OF assms(1,2), of "word_of_nat n"] r(1) d(1)
      by (simp only: total_def)
  qed simp
  moreover have "total mod 1000000000 = 0 \<and> 0 < total div 1000000000 \<and> int n = total div 1000000000
      \<longleftrightarrow> total = int n * 1000000000 \<and> int n < 2 ^ 63"
  proof -
    have "t mod 1000000000 = 0 \<and> 0 < t div 1000000000 \<and> m = t div 1000000000
        \<longleftrightarrow> t = m * 1000000000 \<and> m < 2 ^ 63" if "0 < t" "t < 2 ^ 63" for t m :: int
      using that by auto
    from this [OF product(2,3)] show ?thesis .
  qed
  ultimately show ?thesis by (simp only: count(1))
qed

text \<open>A format whose product wraps is accepted with a frame of one sample.\<close>

lemma mix_frame_samples_wraps:
  "mix_frame_samples \<lparr>mf_sample_rate = 512, mf_channels = 1, mf_frame_duration = 36028797020917093\<rparr> = Inr 1"
  "pcm16_frame_samples 512 1 36028797020917093 = Inl (FrameUnaligned 512 36028797020917093)"
  by code_simp+

section \<open>Inputs\<close>

text \<open>
  An \<^verbatim>\<open>Input\<close>: its ID, the address of the buffer it shares with the mixer, and what it retains
  between packets.
\<close>

record mix_input =
  in_id :: string
  in_addr :: nat
  in_pending :: "sample list"
  in_meta :: pcm_frame
  in_has_meta :: bool
  in_once :: bool

definition validate_frame_format :: "mix_format \<Rightarrow> pcm_frame \<Rightarrow> go_error option" where
  "validate_frame_format fmt f =
     (if df_sample_rate (pf_format f) \<noteq> 0 \<and> df_sample_rate (pf_format f) \<noteq> sint (mf_sample_rate fmt)
      then Some (WrappedError ''sample rate'' err_frame_size_mismatch)
      else if df_channels (pf_format f) \<noteq> 0 \<and> df_channels (pf_format f) \<noteq> sint (mf_channels fmt)
      then Some (WrappedError ''channels'' err_frame_size_mismatch)
      else None)"

definition advance_epoch ::
    "64 word \<Rightarrow> mix_input \<Rightarrow> frame_buffer \<Rightarrow> go_error option \<times> mix_input \<times> frame_buffer" where
  "advance_epoch epoch i q =
     (let stats = stats_snapshot (Some q) in
      if epoch < bs_epoch stats then (Some err_stale_epoch, i, q)
      else if epoch = bs_epoch stats then (None, i, q)
      else (None, i\<lparr>in_pending := [], in_meta := zero_frame, in_has_meta := False\<rparr>,
            snd (invalidate epoch q)))"

definition remember_frame :: "pcm_frame \<Rightarrow> mix_input \<Rightarrow> mix_input" where
  "remember_frame f i = i\<lparr>in_meta := f\<lparr>pf_samples := []\<rparr>, in_has_meta := True\<rparr>"

text \<open>One \<^verbatim>\<open>Submit\<close> of the producer, with the next rounds of the list.\<close>

fun submit_next ::
    "pcm_frame \<Rightarrow> wait_round list list \<Rightarrow> frame_buffer
     \<Rightarrow> (go_error option \<times> frame_buffer \<times> wait_round list list) option" where
  "submit_next f [] q = None"
| "submit_next f (rounds # waits) q =
     map_option (\<lambda>(e, q'). (e, q', waits)) (submit_wait f rounds q)"

type_synonym write_result =
  "(go_error option \<times> mix_input \<times> frame_buffer \<times> pcm_frame list \<times> wait_round list list) option"

definition admitted_first :: "pcm_frame \<Rightarrow> write_result \<Rightarrow> write_result" where
  "admitted_first f r = map_option (\<lambda>(e, i, q, out, waits). (e, i, q, f # out, waits)) r"

text \<open>
  The loop of \<^verbatim>\<open>submitFrameSamples\<close> over the samples it has left. A frame size of zero, which
  \<^const>\<open>normalize_config\<close> excludes, makes no progress and does not return.
\<close>

function submit_loop ::
    "nat \<Rightarrow> pcm_frame \<Rightarrow> sample list \<Rightarrow> wait_round list list \<Rightarrow> mix_input \<Rightarrow> frame_buffer
     \<Rightarrow> write_result" where
  "submit_loop frame_size f rest waits i q =
     (if rest = [] then Some (None, i, q, [], waits)
      else (let i = (if in_pending i = [] then remember_frame f i else i);
                want = min (length rest) (frame_size - length (in_pending i));
                pending = in_pending i @ take want rest
            in if want = 0 then None
               else if length pending \<noteq> frame_size
               then submit_loop frame_size f (drop want rest) waits (i\<lparr>in_pending := pending\<rparr>) q
               else (let full = (in_meta i)\<lparr>pf_samples := pending,
                       pf_end_of_response := pf_end_of_response f \<and> drop want rest = []\<rparr>;
                         i = i\<lparr>in_pending := [], in_has_meta := False\<rparr>
                     in case submit_next full waits q of
                          None \<Rightarrow> None
                        | Some (Some e, q', waits') \<Rightarrow> Some (Some e, i, q', [], waits')
                        | Some (None, q', waits') \<Rightarrow>
                            admitted_first full
                              (submit_loop frame_size f (drop want rest) waits' i q'))))"
  by auto
termination
  by (relation "measure (\<lambda>(_, _, rest, _). length rest)") (auto simp: min_def split: if_splits)

declare submit_loop.simps [simp del]

definition submit_response_tail ::
    "pcm_frame \<Rightarrow> wait_round list list \<Rightarrow> mix_input \<Rightarrow> frame_buffer \<Rightarrow> write_result" where
  "submit_response_tail f waits i q =
     (if \<not> pf_end_of_response f then Some (None, i, q, [], waits)
      else if in_pending i = [] \<and> pf_samples f \<noteq> [] then Some (None, i, q, [], waits)
      else (let tail = (in_meta i)\<lparr>pf_samples := in_pending i, pf_end_of_response := True\<rparr>;
                i = i\<lparr>in_pending := [], in_has_meta := False\<rparr>
            in case submit_next tail waits q of
                 None \<Rightarrow> None
               | Some (Some e, q', waits') \<Rightarrow> Some (Some e, i, q', [], waits')
               | Some (None, q', waits') \<Rightarrow> Some (None, i, q', [tail], waits')))"

definition submit_frame_samples ::
    "nat \<Rightarrow> pcm_frame \<Rightarrow> wait_round list list \<Rightarrow> mix_input \<Rightarrow> frame_buffer \<Rightarrow> write_result" where
  "submit_frame_samples frame_size f waits i q =
     (case submit_loop frame_size f (pf_samples f) waits i q of
        Some (None, i', q', out, waits') \<Rightarrow>
          map_option (\<lambda>(e, i, q, out', waits). (e, i, q, out @ out', waits))
            (submit_response_tail f waits' i' q')
      | r \<Rightarrow> r)"

definition write_frame ::
    "mix_format \<Rightarrow> nat \<Rightarrow> pcm_frame \<Rightarrow> wait_round list list \<Rightarrow> mix_input \<Rightarrow> frame_buffer
     \<Rightarrow> write_result" where
  "write_frame fmt frame_size f waits i q =
     (case validate_frame_format fmt f of
        Some e \<Rightarrow> Some (Some e, i, q, [], waits)
      | None \<Rightarrow>
          (case advance_epoch (pf_epoch f) i q of
             (Some e, i', q') \<Rightarrow> Some (Some e, i', q', [], waits)
           | (None, i', q') \<Rightarrow> submit_frame_samples frame_size f waits i' q'))"

section \<open>Reframing\<close>

lemma submit_loop_nil: "submit_loop frame_size f [] waits i q = Some (None, i, q, [], waits)"
  by (subst submit_loop.simps) simp

definition frames_samples :: "pcm_frame list \<Rightarrow> sample list" where
  "frames_samples fs = concat (map pf_samples fs)"

lemma frames_samples_simps [simp]:
  "frames_samples [] = []" "frames_samples (f # fs) = pf_samples f @ frames_samples fs"
  "frames_samples (fs @ gs) = frames_samples fs @ frames_samples gs"
  by (simp_all add: frames_samples_def)

lemma remember_frame_pending [simp]: "in_pending (remember_frame f i) = in_pending i"
  by (simp add: remember_frame_def)

text \<open>
  What the loop has done when it returns without an error: whole frames in order, only the last one
  marked, and only when nothing is left over.
\<close>

definition loop_done :: "nat \<Rightarrow> pcm_frame \<Rightarrow> sample list \<Rightarrow> sample list \<Rightarrow> pcm_frame list \<Rightarrow> bool" where
  "loop_done frame_size f todo pending out \<longleftrightarrow>
     frames_samples out @ pending = todo \<and> length pending < frame_size
     \<and> list_all (\<lambda>x. length (pf_samples x) = frame_size) out
     \<and> map pf_end_of_response out
         = replicate (length out - 1) False
           @ (if out = [] then [] else [pf_end_of_response f \<and> pending = []])"

lemma loop_done_more:
  assumes "loop_done frame_size f todo pending out" "length (pf_samples full) = frame_size"
    and "pf_end_of_response full \<longleftrightarrow> pf_end_of_response f \<and> todo = []"
  shows "loop_done frame_size f (pf_samples full @ todo) pending (full # out)"
proof -
  have "out = [] \<Longrightarrow> pending = todo" and "out \<noteq> [] \<Longrightarrow> todo \<noteq> []"
    using assms(1) by (cases out; auto simp: loop_done_def)+
  then show ?thesis using assms by (cases out) (auto simp: loop_done_def)
qed

text \<open>One round of the loop: the rest joins the pending samples, or fills a frame that is admitted.\<close>

lemma submit_loop_round:
  assumes "submit_loop frame_size f rest waits i q = Some (e, i', q', out, waits')"
    and "length (in_pending i) < frame_size" and "rest \<noteq> []"
  obtains (short) "e = None" "out = []" "in_pending i' = in_pending i @ rest"
      "length (in_pending i') < frame_size" "in_addr i' = in_addr i" "q' = q" "waits' = waits"
  | (refused) full where "e \<noteq> None" "out = []" "in_pending i' = []" "in_addr i' = in_addr i"
      "submit_next full waits q = Some (e, q', waits')"
  | (whole) full w i1 q1 out1 waits1 where
      "pf_samples full = in_pending i @ take w rest" "length (pf_samples full) = frame_size" "w \<noteq> 0"
      "pf_end_of_response full \<longleftrightarrow> pf_end_of_response f \<and> drop w rest = []"
      "out = full # out1" "in_pending i1 = []"
      "submit_loop frame_size f (drop w rest) waits1 i1 q1 = Some (e, i', q', out1, waits')"
      "submit_next full waits q = Some (None, q1, waits1)" "in_addr i1 = in_addr i"
proof -
  define i1 where "i1 = (if in_pending i = [] then remember_frame f i else i)"
  define w where "w = min (length rest) (frame_size - length (in_pending i1))"
  define pending where "pending = in_pending i1 @ take w rest"
  let ?full = "(in_meta i1)\<lparr>pf_samples := pending,
      pf_end_of_response := pf_end_of_response f \<and> drop w rest = []\<rparr>"
  let ?i = "i1\<lparr>in_pending := [], in_has_meta := False\<rparr>"
  have same: "in_pending i1 = in_pending i" "in_addr i1 = in_addr i"
    by (simp_all add: i1_def remember_frame_def)
  have w: "w \<noteq> 0" using assms(2,3) by (simp add: w_def same)
  have step: "submit_loop frame_size f rest waits i q = (if length pending \<noteq> frame_size
      then submit_loop frame_size f (drop w rest) waits (i1\<lparr>in_pending := pending\<rparr>) q
      else case submit_next ?full waits q of
             None \<Rightarrow> None
           | Some (Some e, q', waits') \<Rightarrow> Some (Some e, ?i, q', [], waits')
           | Some (None, q', waits') \<Rightarrow>
               admitted_first ?full (submit_loop frame_size f (drop w rest) waits' ?i q'))"
    using assms(3) w
    by (subst submit_loop.simps)
      (simp only: Let_def if_False i1_def [symmetric] w_def [symmetric] pending_def [symmetric])
  show ?thesis
  proof (cases "length pending = frame_size")
    case False
    then have "drop w rest = []" and below: "length pending < frame_size"
      using assms(2) by (auto simp: pending_def w_def same min_def split: if_splits)
    then have "e = None" "out = []" "in_pending i' = in_pending i @ rest" "in_addr i' = in_addr i"
        "q' = q" "waits' = waits"
      using assms(1) False by (auto simp: step submit_loop_nil pending_def same)
    moreover have "take w rest = rest" using \<open>drop w rest = []\<close> by simp
    ultimately show ?thesis using below short by (simp add: pending_def same)
  next
    case True
    obtain e1 q1 waits1 where sent: "submit_next ?full waits q = Some (e1, q1, waits1)"
      using assms(1) True by (auto simp: step split: option.splits)
    show ?thesis
    proof (cases e1)
      case None
      then obtain out1 where
          "submit_loop frame_size f (drop w rest) waits1 ?i q1 = Some (e, i', q', out1, waits')"
        and "out = ?full # out1"
        using assms(1) True sent by (auto simp: step admitted_first_def)
      then show ?thesis
        using True w sent None by (intro whole [of ?full w out1 ?i waits1 q1]) (simp_all add: pending_def same)
    next
      case (Some e')
      then show ?thesis
        using assms(1) True sent same by (intro refused [of ?full]) (auto simp: step)
    qed
  qed
qed

lemma submit_loop_done:
  assumes "submit_loop frame_size f rest waits i q = Some (None, i', q', out, waits')"
    and "length (in_pending i) < frame_size"
  shows "loop_done frame_size f (in_pending i @ rest) (in_pending i') out"
  using assms
proof (induction "length rest" arbitrary: rest waits i q out rule: less_induct)
  case less
  show ?case
  proof (cases "rest = []")
    case True
    then show ?thesis using less.prems by (auto simp: submit_loop_nil loop_done_def)
  next
    case False
    show ?thesis using less.prems False
    proof (cases rule: submit_loop_round)
      case short
      then show ?thesis by (simp add: loop_done_def)
    next
      case (whole full w i1 q1 out1 waits1)
      have "length (drop w rest) < length rest" using whole(3) False by simp
      then have "loop_done frame_size f (drop w rest) (in_pending i') out1"
        using less.hyps [OF _ whole(7)] less.prems(2) by (simp add: whole(6))
      from loop_done_more [OF this whole(2,4)] show ?thesis by (simp add: whole(1,5))
    qed simp
  qed
qed

definition marks :: "bool \<Rightarrow> nat \<Rightarrow> bool list" where
  "marks response_end n = (if response_end then replicate (n - 1) False @ [True] else replicate n False)"

lemma replicate_last: "xs \<noteq> [] \<Longrightarrow> replicate (length xs - Suc 0) c @ [c] = replicate (length xs) c"
  by (cases xs) (simp_all add: replicate_append_same)

lemma submit_frame_samples_done:
  assumes "submit_frame_samples frame_size f waits i q = Some (None, i', q', out, waits')"
    and "length (in_pending i) < frame_size"
  shows "frames_samples out @ in_pending i' = in_pending i @ pf_samples f"
    "length (in_pending i') < frame_size" "list_all (\<lambda>x. length (pf_samples x) \<le> frame_size) out"
    "pf_end_of_response f \<longrightarrow> in_pending i' = []"
    "map pf_end_of_response out = marks (pf_end_of_response f) (length out)"
    "list_all (\<lambda>x. length (pf_samples x) = frame_size) (if pf_end_of_response f then butlast out else out)"
proof -
  obtain i1 q1 out1 waits1 out2 where
      run: "submit_loop frame_size f (pf_samples f) waits i q = Some (None, i1, q1, out1, waits1)"
    and tail: "submit_response_tail f waits1 i1 q1 = Some (None, i', q', out2, waits')"
    and out: "out = out1 @ out2"
    using assms(1) by (auto simp: submit_frame_samples_def split: option.splits)
  have before: "loop_done frame_size f (in_pending i @ pf_samples f) (in_pending i1) out1"
    by (rule submit_loop_done [OF run assms(2)])
  have none: "pf_samples f = [] \<Longrightarrow> out1 = []"
    using run by (simp add: submit_loop_nil)
  show "frames_samples out @ in_pending i' = in_pending i @ pf_samples f"
    "length (in_pending i') < frame_size" "list_all (\<lambda>x. length (pf_samples x) \<le> frame_size) out"
    "pf_end_of_response f \<longrightarrow> in_pending i' = []"
    "map pf_end_of_response out = marks (pf_end_of_response f) (length out)"
    using before tail none
    by (auto simp: loop_done_def replicate_last out submit_response_tail_def marks_def Let_def list_all_iff
        split: if_splits option.splits prod.splits)
  have "out2 = [] \<or> (\<exists>x. out2 = [x]) \<and> pf_end_of_response f"
    using tail by (auto simp: submit_response_tail_def Let_def split: if_splits option.splits prod.splits)
  then show "list_all (\<lambda>x. length (pf_samples x) = frame_size) (if pf_end_of_response f then butlast out else out)"
    using before by (auto simp: loop_done_def out list_all_iff dest: in_set_butlastD)
qed

text \<open>
  C12: reframing keeps every sample in order: what a successful write admits, followed by what it
  keeps pending, is what was pending before (nothing, across an interruption) followed by the
  packet. Every frame admitted has exactly the cadence's size, but for the frame that ends a
  response, which may be shorter. Less than a frame stays pending, nothing at the end of a response,
  which is marked on the last frame admitted and on no other.
\<close>

theorem input_reframes_packets:
  assumes "write_frame fmt frame_size f waits i q = Some (None, i', q', out, waits')"
    and "length (in_pending i) < frame_size"
  shows "frames_samples out @ in_pending i'
      = (if pf_epoch f = bs_epoch (fb_stats q) then in_pending i else []) @ pf_samples f
    \<and> length (in_pending i') < frame_size
    \<and> list_all (\<lambda>x. length (pf_samples x) = frame_size) (if pf_end_of_response f then butlast out else out)
    \<and> list_all (\<lambda>x. length (pf_samples x) \<le> frame_size) out
    \<and> (pf_end_of_response f \<longrightarrow> in_pending i' = [])
    \<and> map pf_end_of_response out = marks (pf_end_of_response f) (length out)"
proof -
  obtain i1 q1 where epoch: "advance_epoch (pf_epoch f) i q = (None, i1, q1)"
    and run: "submit_frame_samples frame_size f waits i1 q1 = Some (None, i', q', out, waits')"
    using assms(1) by (auto simp: write_frame_def split: option.splits prod.splits)
  have kept: "in_pending i1 = (if pf_epoch f = bs_epoch (fb_stats q) then in_pending i else [])"
    using epoch by (auto simp: advance_epoch_def stats_snapshot_def Let_def split: if_splits)
  then have "length (in_pending i1) < frame_size" using assms(2) by auto
  from submit_frame_samples_done [OF run this] show ?thesis by (simp add: kept)
qed

definition fresh_input :: mix_input where
  "fresh_input = \<lparr>in_id = ''alice'', in_addr = 0, in_pending = [], in_meta = zero_frame,
     in_has_meta = False, in_once = False\<rparr>"

definition live_round :: wait_round where
  "live_round = \<lparr>wr_ctx = CtxLive, wr_wake = CtxLive, wr_others = id\<rparr>"

definition packet :: "sample list \<Rightarrow> bool \<Rightarrow> pcm_frame" where
  "packet samples response_end = zero_frame\<lparr>pf_samples := samples, pf_end_of_response := response_end\<rparr>"

definition sample_buffer :: frame_buffer where
  "sample_buffer = (case new_frame_buffer 4 8 of Inr q \<Rightarrow> q | Inl _ \<Rightarrow> undefined)"

definition sample_write :: write_result where
  "sample_write = write_frame default_mix_format 2 (packet [1, 2, 3] True) [[live_round], [live_round]]
     fresh_input sample_buffer"

definition written_frames :: "write_result \<Rightarrow> pcm_frame list" where
  "written_frames r = (case r of Some (_, _, _, out, _) \<Rightarrow> out | None \<Rightarrow> [])"

lemma sample_write_runs:
  "map pf_samples (written_frames sample_write) = [[1, 2], [3]]"
  "map_option fst sample_write = Some None"
  by code_simp+

theorem input_reframes_packets_witness:
  "\<exists>(i' :: mix_input) out. frames_samples out @ in_pending i' = [1, 2, 3] \<and> in_pending i' = []
     \<and> map pf_end_of_response out = marks True (length out)"
proof -
  obtain i' q' out waits' where run: "write_frame default_mix_format 2 (packet [1, 2, 3] True)
      [[live_round], [live_round]] fresh_input sample_buffer = Some (None, i', q', out, waits')"
    using sample_write_runs(2) by (auto simp: sample_write_def)
  have "length (in_pending fresh_input) < 2" by (simp add: fresh_input_def)
  from input_reframes_packets [OF run this]
  have "frames_samples out @ in_pending i' = [1, 2, 3] \<and> in_pending i' = []
      \<and> map pf_end_of_response out = marks True (length out)"
    by (auto simp: fresh_input_def packet_def)
  then show ?thesis by blast
qed

text \<open>
  A boundary without samples that is the first packet of a new epoch is refused as stale: its tail
  is built from the metadata that \<^const>\<open>advance_epoch\<close> has just cleared.
\<close>

lemma boundary_opening_an_epoch_is_refused:
  assumes "validate_frame_format fmt f = None" "pf_samples f = []" "pf_end_of_response f"
    and "bs_epoch (fb_stats q) < pf_epoch f" "\<not> bs_closed (fb_stats q)"
  shows "map_option fst (write_frame fmt frame_size f ((live_round # rounds) # waits) i q)
    = Some (Some err_stale_epoch)"
proof -
  have zero: "pf_epoch f \<noteq> 0" using assms(4) by auto
  have newer: "\<not> pf_epoch f < bs_epoch (fb_stats q)" "pf_epoch f \<noteq> bs_epoch (fb_stats q)"
    "\<not> pf_epoch f \<le> bs_epoch (fb_stats q)"
    using assms(4) by auto
  then show ?thesis
    using assms(1,2,3,5) zero
    by (simp add: write_frame_def advance_epoch_def stats_snapshot_def Let_def submit_frame_samples_def
        submit_loop_nil submit_response_tail_def live_round_def can_submit_locked_def invalidate_def
        zero_frame_def buffer_error_defs)
qed

section \<open>What every write keeps\<close>

text \<open>The buffers of a mixer: the queue's own invariant, with room for one frame's samples.\<close>

definition buffer_ok :: "nat \<Rightarrow> frame_buffer \<Rightarrow> bool" where
  "buffer_ok frame_size q \<longleftrightarrow> fb_ok q \<and> fb_max_samples q = frame_size"

definition waits_ok :: "nat \<Rightarrow> wait_round list list \<Rightarrow> bool" where
  "waits_ok frame_size waits \<longleftrightarrow>
     (\<forall>rounds \<in> set waits. \<forall>r \<in> set rounds. \<forall>q.
        buffer_ok frame_size q \<longrightarrow> buffer_ok frame_size (wr_others r q))"

lemma reject_buffer_ok [simp]: "buffer_ok n (reject_frame q) = buffer_ok n q"
  by (simp add: buffer_ok_def) (simp add: reject_frame_def)

lemma submit_locked_buffer_ok:
  assumes "buffer_ok n q" "submit_locked f q = (e, q')"
  shows "buffer_ok n q'"
proof (cases e)
  case None
  then show ?thesis
    using assms submit_queue(2) [of q f q']
    by (auto simp: buffer_ok_def submit_locked_def split: option.splits)
next
  case (Some err)
  then have "q' = reject_frame q" using assms(2) submit_refused by blast
  then show ?thesis using assms(1) by simp
qed

lemma submit_wait_buffer_ok:
  "submit_wait f rounds q = Some (e, q') \<Longrightarrow> buffer_ok n q \<Longrightarrow>
   \<forall>r \<in> set rounds. \<forall>q. buffer_ok n q \<longrightarrow> buffer_ok n (wr_others r q) \<Longrightarrow> buffer_ok n q'"
proof (induction f rounds q rule: submit_wait.induct)
  case (2 f r rs q)
  then show ?case
    by (auto split: ctx_state.splits option.splits if_splits dest: submit_locked_buffer_ok)
qed simp

lemma submit_next_ok:
  assumes "submit_next f waits q = Some (e, q', waits')" "buffer_ok n q" "waits_ok n waits"
  shows "buffer_ok n q' \<and> waits_ok n waits'"
proof (cases waits)
  case (Cons rounds rest)
  then have run: "submit_wait f rounds q = Some (e, q')" "waits' = rest" using assms(1) by auto
  have "\<forall>r \<in> set rounds. \<forall>q. buffer_ok n q \<longrightarrow> buffer_ok n (wr_others r q)" "waits_ok n rest"
    using assms(3) by (simp_all add: waits_ok_def Cons)
  then show ?thesis using submit_wait_buffer_ok [OF run(1) assms(2)] run(2) by simp
qed (use assms in simp)

definition write_keeps :: "nat \<Rightarrow> mix_input \<Rightarrow> mix_input \<Rightarrow> frame_buffer \<Rightarrow> wait_round list list \<Rightarrow> bool" where
  "write_keeps n i i' q' waits' \<longleftrightarrow>
     length (in_pending i') < n \<and> in_addr i' = in_addr i \<and> buffer_ok n q' \<and> waits_ok n waits'"

lemma submit_loop_keeps:
  assumes "submit_loop n f rest waits i q = Some (e, i', q', out, waits')"
    and "length (in_pending i) < n" "buffer_ok n q" "waits_ok n waits"
  shows "write_keeps n i i' q' waits'"
  using assms
proof (induction "length rest" arbitrary: rest waits i q out rule: less_induct)
  case less
  show ?case
  proof (cases "rest = []")
    case True
    then show ?thesis using less.prems by (auto simp: submit_loop_nil write_keeps_def)
  next
    case False
    show ?thesis using less.prems(1,2) False
    proof (cases rule: submit_loop_round)
      case short
      then show ?thesis using less.prems by (simp add: write_keeps_def)
    next
      case (refused full)
      then show ?thesis
        using submit_next_ok [OF refused(5) less.prems(3,4)] less.prems(2) by (simp add: write_keeps_def)
    next
      case (whole full w i1 q1 out1 waits1)
      have shorter: "length (drop w rest) < length rest" using whole(3) False by simp
      have "write_keeps n i1 i' q' waits'"
        using less.hyps [OF shorter whole(7)] submit_next_ok [OF whole(8) less.prems(3,4)] less.prems(2)
        by (simp add: whole(6))
      then show ?thesis by (simp add: write_keeps_def whole(9))
    qed
  qed
qed

lemma submit_tail_keeps:
  assumes "submit_response_tail f waits i q = Some (e, i', q', out, waits')"
    and "length (in_pending i) < n" "buffer_ok n q" "waits_ok n waits"
  shows "write_keeps n i i' q' waits'"
  using assms
  by (auto simp: submit_response_tail_def Let_def write_keeps_def split: if_splits option.splits
      dest: submit_next_ok)

lemma advance_epoch_keeps:
  assumes "advance_epoch epoch i q = (e, i', q')" "length (in_pending i) < n" "buffer_ok n q"
  shows "length (in_pending i') < n" "in_addr i' = in_addr i" "buffer_ok n q'"
proof -
  have "buffer_ok n (snd (invalidate epoch q))"
    using assms(3) invalidate_ok [of q epoch] by (auto simp: buffer_ok_def invalidate_def)
  then show "length (in_pending i') < n" "in_addr i' = in_addr i" "buffer_ok n q'"
    using assms by (auto simp: advance_epoch_def Let_def split: if_splits)
qed

lemma write_frame_keeps:
  assumes "write_frame fmt n f waits i q = Some (e, i', q', out, waits')"
    and "length (in_pending i) < n" "buffer_ok n q" "waits_ok n waits"
  shows "write_keeps n i i' q' waits'"
proof (cases "validate_frame_format fmt f")
  case None
  obtain e1 i1 q1 where epoch: "advance_epoch (pf_epoch f) i q = (e1, i1, q1)" by (cases "advance_epoch (pf_epoch f) i q")
  note kept = advance_epoch_keeps [OF epoch assms(2,3)]
  show ?thesis
  proof (cases e1)
    case None': None
    have run: "submit_frame_samples n f waits i1 q1 = Some (e, i', q', out, waits')"
      using assms(1) None epoch None' by (simp add: write_frame_def)
    obtain e2 i2 q2 out2 waits2 where
        loop: "submit_loop n f (pf_samples f) waits i1 q1 = Some (e2, i2, q2, out2, waits2)"
      using run by (auto simp: submit_frame_samples_def split: option.splits)
    have done_keeps: "write_keeps n i1 i2 q2 waits2"
      by (rule submit_loop_keeps [OF loop kept(1,3) assms(4)])
    show ?thesis
    proof (cases e2)
      case ended: None
      then obtain out3 where "submit_response_tail f waits2 i2 q2 = Some (e, i', q', out3, waits')"
        using run loop by (auto simp: submit_frame_samples_def)
      from submit_tail_keeps [OF this, of n] show ?thesis
        using done_keeps kept(2) by (simp add: write_keeps_def)
    next
      case (Some err)
      then show ?thesis using run loop done_keeps kept(2)
        by (auto simp: submit_frame_samples_def write_keeps_def)
    qed
  next
    case (Some err)
    then show ?thesis using assms(1,4) None epoch kept by (auto simp: write_frame_def write_keeps_def)
  qed
next
  case (Some err)
  then show ?thesis using assms by (auto simp: write_frame_def write_keeps_def)
qed

end
