(* ===== verification/Mixer.thy ===== *)
theory Mixer
  imports Mixer_Input "HOL-Library.List_Lexorder" "HOL-Library.Char_ord"
begin

text \<open>
  The room mixer of \<^verbatim>\<open>go-audio/pkg/mixer/mixer.go\<close>, \<^verbatim>\<open>input.go\<close> and \<^verbatim>\<open>stream.go\<close>. The mixer holds
  the buffers of its inputs in a store: an input of the map and the handle its owner keeps are the
  same address, so that an input removed from the map is still the one its owner writes to. The run
  goroutine is the wait for its timer (\<^verbatim>\<open>run_wait\<close>), the mix of one cadence (\<^verbatim>\<open>run_mix\<close>) and the
  hand-over of the frame (\<^verbatim>\<open>run_send\<close>), with the timing of the timer; what the owners of inputs do
  between two lock acquisitions of a mix is an argument. Channels are lists.
\<close>

section \<open>State\<close>

record mixed_frame =
  xf_frame :: pcm_frame
  xf_sources :: "string list"

record mixer =
  mx_format :: mix_format
  mx_stream_id :: string
  mx_frame_size :: nat
  mx_input_cap :: int
  mx_source_limit :: nat
  mx_sequence :: "64 word"
  mx_start :: "64 word"
  mx_buffers :: "frame_buffer list"
  mx_inputs :: "(string \<times> nat) list"
  mx_closed :: bool
  mx_cancelled :: bool
  mx_done :: bool
  mx_err :: "go_error option"
  mx_output :: "mixed_frame list"
  mx_output_cap :: nat

definition new_mixer :: "bool \<Rightarrow> bool \<Rightarrow> mix_config \<Rightarrow> mixer result" where
  "new_mixer has_scheduler has_context config =
     (if \<not> has_scheduler then Inl err_clock_unavailable
      else (case normalize_config config of
              Inl e \<Rightarrow> Inl e
            | Inr (config, samples) \<Rightarrow>
                if \<not> has_context then Inl err_context_unavailable
                else Inr \<lparr>mx_format = mc_format config, mx_stream_id = mc_stream_id config,
                       mx_frame_size = samples, mx_input_cap = mc_input_queue_frames config,
                       mx_source_limit = max_pcm16_mix_sources, mx_sequence = 0, mx_start = 0,
                       mx_buffers = [], mx_inputs = [], mx_closed = False, mx_cancelled = False,
                       mx_done = False, mx_err = None, mx_output = [],
                       mx_output_cap = nat (mc_output_queue_frames config)\<rparr>))"

section \<open>Inputs\<close>

definition add_input :: "string \<Rightarrow> mixer \<Rightarrow> mix_input result \<times> mixer" where
  "add_input id0 m =
     (let key = trim_space id0 in
      if key = [] then (Inl (WrappedError ''input ID is empty'' err_invalid_format), m)
      else if mx_closed m then (Inl err_mixer_closed, m)
      else if map_of (mx_inputs m) key \<noteq> None then (Inl (WrappedError key err_input_exists), m)
      else (case new_frame_buffer (mx_input_cap m) (int (mx_frame_size m)) of
              Inl e \<Rightarrow> (Inl e, m)
            | Inr q \<Rightarrow>
                (Inr \<lparr>in_id = key, in_addr = length (mx_buffers m), in_pending = [],
                   in_meta = zero_frame, in_has_meta = False, in_once = False\<rparr>,
                 m\<lparr>mx_buffers := mx_buffers m @ [q],
                   mx_inputs := mx_inputs m @ [(key, length (mx_buffers m))]\<rparr>)))"

definition update_buffer :: "nat \<Rightarrow> (frame_buffer \<Rightarrow> frame_buffer) \<Rightarrow> mixer \<Rightarrow> mixer" where
  "update_buffer a g m = m\<lparr>mx_buffers := (mx_buffers m) [a := g (mx_buffers m ! a)]\<rparr>"

definition remove_input :: "string \<Rightarrow> mixer \<Rightarrow> go_error option \<times> mixer" where
  "remove_input id0 m =
     (let key = trim_space id0 in
      if mx_closed m then (Some err_mixer_closed, m)
      else (case map_of (mx_inputs m) key of
              None \<Rightarrow> (Some (WrappedError key err_input_missing), m)
            | Some a \<Rightarrow>
                (None, update_buffer a close_producer
                   (m\<lparr>mx_inputs := filter (\<lambda>(k, _). k \<noteq> key) (mx_inputs m)\<rparr>))))"

text \<open>\<^verbatim>\<open>Input.WriteFrame\<close> on the mixer's store, and \<^verbatim>\<open>Input.Close\<close>.\<close>

definition input_write ::
    "pcm_frame \<Rightarrow> wait_round list list \<Rightarrow> mix_input \<Rightarrow> mixer
     \<Rightarrow> (go_error option \<times> mix_input \<times> mixer) option" where
  "input_write f waits i m =
     map_option (\<lambda>(e, i', q', _, _). (e, i', update_buffer (in_addr i) (\<lambda>_. q') m))
       (write_frame (mx_format m) (mx_frame_size m) f waits i (mx_buffers m ! in_addr i))"

definition input_close :: "mix_input \<Rightarrow> mixer \<Rightarrow> mix_input \<times> mixer" where
  "input_close i m =
     (if in_once i then (i, m)
      else (i\<lparr>in_once := True\<rparr>, update_buffer (in_addr i) close_producer m))"

section \<open>One mix\<close>

fun mix_go_error :: "mix_error \<Rightarrow> go_error" where
  "mix_go_error (MixInvalidLength n) =
     FormattedError ''PCM16 mix output length is invalid'' [IntArg n]"
| "mix_go_error (MixSourceLimit n) =
     FormattedError ''PCM16 mix source count exceeds supported bound'' [IntArg (int n)]"
| "mix_go_error (MixSourceTooLong index n limit) =
     FormattedError ''PCM16 mix source exceeds output length'' [IntArg (int index), IntArg (int n), IntArg limit]"
| "mix_go_error (MixOddLength index n) =
     FormattedError ''PCM16 payload has odd byte length'' [IntArg (int index), IntArg (int n)]"
| "mix_go_error (MixDecode index _) = FormattedError ''decode PCM16 source'' [IntArg (int index)]"
| "mix_go_error (MixEncode _) = ErrorText ''encode PCM16 mix''"

definition snapshot_mix_inputs :: "mixer \<Rightarrow> string list result" where
  "snapshot_mix_inputs m =
     (if mx_closed m then Inl err_mixer_closed
      else if length (mx_inputs m) > mx_source_limit m
      then Inl (mix_go_error (MixSourceLimit (length (mx_inputs m))))
      else (let ids = sort (map fst (mx_inputs m)) in
            case validate_pcm16_mix_bounds (length ids) (int (mx_frame_size m)) of
              Some e \<Rightarrow> Inl (mix_go_error e)
            | None \<Rightarrow> Inr ids))"

text \<open>
  The loop that takes at most one frame of each input: \<^verbatim>\<open>between k\<close> is what others did to the mixer
  before the lookup of the input \<^verbatim>\<open>k\<close>. An input gone or without a frame gives a zero frame.
\<close>

fun read_inputs ::
    "(nat \<Rightarrow> mixer \<Rightarrow> mixer) \<Rightarrow> string list \<Rightarrow> mixer \<Rightarrow> pcm_frame list result \<times> mixer" where
  "read_inputs between [] m = (Inr [], m)"
| "read_inputs between (key # ids) m0 =
     (let m = between (length ids) m0 in
      case map_of (mx_inputs m) key of
        None \<Rightarrow> map_prod (map_sum (\<lambda>e. e) ((#) zero_frame)) (\<lambda>m. m) (read_inputs between ids m)
      | Some a \<Rightarrow>
          (case receive_locked (mx_buffers m ! a) of
             (r, q') \<Rightarrow>
               (let m = update_buffer a (\<lambda>_. q') m in
                case r of
                  Inl e \<Rightarrow>
                    if e \<noteq> err_eof then (Inl (WrappedError key e), m)
                    else map_prod (map_sum (\<lambda>e. e) ((#) zero_frame)) (\<lambda>m. m) (read_inputs between ids m)
                | Inr None \<Rightarrow>
                    map_prod (map_sum (\<lambda>e. e) ((#) zero_frame)) (\<lambda>m. m) (read_inputs between ids m)
                | Inr (Some f) \<Rightarrow>
                    map_prod (map_sum (\<lambda>e. e) ((#) f)) (\<lambda>m. m) (read_inputs between ids m))))"

definition contributes :: "pcm_frame \<Rightarrow> bool" where
  "contributes f \<longleftrightarrow> pf_samples f \<noteq> [] \<or> pf_end_of_response f"

record mixed_frame_shape =
  sh_length :: nat
  sh_non_empty :: nat
  sh_contributors :: nat
  sh_boundaries :: nat

fun inspect_shape :: "pcm_frame list \<Rightarrow> mixed_frame_shape \<Rightarrow> mixed_frame_shape" where
  "inspect_shape [] s = s"
| "inspect_shape (f # fs) s =
     (if pf_samples f = [] \<and> \<not> pf_end_of_response f then inspect_shape fs s
      else inspect_shape fs
        \<lparr>sh_length = (if length (pf_samples f) > sh_length s then length (pf_samples f) else sh_length s),
         sh_non_empty = sh_non_empty s + (if pf_samples f \<noteq> [] then 1 else 0),
         sh_contributors = sh_contributors s + 1,
         sh_boundaries = sh_boundaries s + (if pf_end_of_response f then 1 else 0)\<rparr>)"

definition inspect_mixed_frame_shape :: "pcm_frame list \<Rightarrow> mixed_frame_shape" where
  "inspect_mixed_frame_shape fs =
     inspect_shape fs \<lparr>sh_length = 0, sh_non_empty = 0, sh_contributors = 0, sh_boundaries = 0\<rparr>"

definition mixed_frame_length :: "mixed_frame_shape \<Rightarrow> nat \<Rightarrow> nat result" where
  "mixed_frame_length s frame_size =
     (if sh_length s > frame_size then Inl (WrappedError ''frame length'' err_frame_size_mismatch)
      else if sh_length s = 0 \<and> sh_non_empty s = 0 \<and> sh_boundaries s = 0 then Inr frame_size
      else Inr (sh_length s))"

definition combine_frames :: "mix_format \<Rightarrow> nat \<Rightarrow> pcm_frame list \<Rightarrow> pcm_frame result" where
  "combine_frames fmt frame_size frames =
     (let shape = inspect_mixed_frame_shape frames in
      case mixed_frame_length shape frame_size of
        Inl e \<Rightarrow> Inl e
      | Inr n \<Rightarrow>
          (case mix_pcm16_samples (map pf_samples frames) (int n) of
             Inl e \<Rightarrow> Inl (mix_go_error e)
           | Inr mixed \<Rightarrow>
               Inr (zero_frame
                 \<lparr>pf_samples := mixed,
                  pf_format := pcm16_device_format (sint (mf_sample_rate fmt)),
                  pf_end_of_response := sh_boundaries shape = 1 \<and> sh_contributors shape = 1\<rparr>)))"

definition mix_once ::
    "(nat \<Rightarrow> mixer \<Rightarrow> mixer) \<Rightarrow> mixer \<Rightarrow> mixed_frame result \<times> mixer" where
  "mix_once between m =
     (case snapshot_mix_inputs m of
        Inl e \<Rightarrow> (Inl e, m)
      | Inr ids \<Rightarrow>
          (case read_inputs between ids m of
             (Inl e, m) \<Rightarrow> (Inl e, m)
           | (Inr frames, m) \<Rightarrow>
               (case combine_frames (mx_format m) (mx_frame_size m) frames of
                  Inl e \<Rightarrow> (Inl e, m)
                | Inr f \<Rightarrow>
                    (Inr \<lparr>xf_frame = f\<lparr>pf_stream_id := mx_stream_id m, pf_sequence := mx_sequence m,
                        pf_start_sample := mx_start m, pf_epoch := 0\<rparr>,
                       xf_sources = map fst (filter (\<lambda>(_, f). contributes f) (zip ids frames))\<rparr>,
                     m\<lparr>mx_sequence := mx_sequence m + 1,
                       mx_start := mx_start m + of_nat (length (pf_samples f))\<rparr>))))"

section \<open>The run goroutine\<close>

definition mixer_fail :: "go_error option \<Rightarrow> mixer \<Rightarrow> mixer" where
  "mixer_fail e m =
     (case e of None \<Rightarrow> m
      | Some err \<Rightarrow>
          (if mx_err m = None then m\<lparr>mx_err := Some err\<rparr> else m)\<lparr>mx_cancelled := True\<rparr>)"

definition run_returns :: "mixer \<Rightarrow> mixer" where
  "run_returns m = m\<lparr>mx_done := True\<rparr>"

text \<open>
  The goroutine's wait for its timer: \<^verbatim>\<open>False\<close> when the scheduler gave none; \<^verbatim>\<open>fires\<close> is the pick of the
  select. The result is whether a cadence is due; \<^verbatim>\<open>None\<close>: the pick is not ready.
\<close>

definition run_wait :: "bool \<Rightarrow> bool \<Rightarrow> mixer \<Rightarrow> (bool \<times> mixer) option" where
  "run_wait has_timer fires m =
     (if \<not> has_timer then Some (False, run_returns (mixer_fail (Some err_clock_unavailable) m))
      else if fires then Some (True, m)
      else if mx_cancelled m then Some (False, run_returns m) else None)"

text \<open>The mix of a due cadence: the frame to hand over, or the end of the goroutine.\<close>

definition run_mix :: "(nat \<Rightarrow> mixer \<Rightarrow> mixer) \<Rightarrow> mixer \<Rightarrow> mixed_frame option \<times> mixer" where
  "run_mix between m =
     (case mix_once between m of
        (Inl e, m) \<Rightarrow>
          (None, run_returns (if e = err_mixer_closed then m else mixer_fail (Some e) m))
      | (Inr f, m) \<Rightarrow> (Some f, m))"

text \<open>
  The last select, with the mixed frame in hand: \<^verbatim>\<open>sends\<close> picks the send, else the end of the context,
  which drops the frame. \<^verbatim>\<open>None\<close>: the pick is not ready, the goroutine still waits.
\<close>

definition run_send :: "bool \<Rightarrow> mixed_frame \<Rightarrow> mixer \<Rightarrow> mixer option" where
  "run_send sends f m =
     (if sends
      then (if length (mx_output m) < mx_output_cap m
            then Some (m\<lparr>mx_output := mx_output m @ [f]\<rparr>) else None)
      else (if mx_cancelled m then Some (run_returns m) else None))"

text \<open>
  The timing of a cadence: the delay of its timer, and the next deadline, from the clock readings of
  the skipping loop (\<^verbatim>\<open>None\<close> when they run out). A missed deadline is skipped, never queued.
\<close>

definition timer_delay :: "int \<Rightarrow> int \<Rightarrow> int" where
  "timer_delay deadline now = (if deadline - now < 0 then 0 else deadline - now)"

fun skip_missed :: "int \<Rightarrow> int list \<Rightarrow> int \<Rightarrow> int option" where
  "skip_missed duration [] deadline = None"
| "skip_missed duration (now # nows) deadline =
     (if \<not> deadline > now then skip_missed duration nows (deadline + duration) else Some deadline)"

definition next_deadline :: "int \<Rightarrow> int list \<Rightarrow> int \<Rightarrow> int option" where
  "next_deadline duration nows deadline = skip_missed duration nows (deadline + duration)"

section \<open>Reading and closing\<close>

text \<open>\<^verbatim>\<open>ReadMixedFrame\<close>: the pick of its select, \<^verbatim>\<open>None\<close> when it is not ready.\<close>

definition read_mixed_frame :: "ctx_state \<Rightarrow> bool \<Rightarrow> mixer \<Rightarrow> (mixed_frame result \<times> mixer) option" where
  "read_mixed_frame ctx receives m =
     (if receives
      then (case mx_output m of
              f # rest \<Rightarrow> Some (Inr f, m\<lparr>mx_output := rest\<rparr>)
            | [] \<Rightarrow> if mx_done m then Some (Inl err_eof, m) else None)
      else (case ctx_err ctx of Some e \<Rightarrow> Some (Inl e, m) | None \<Rightarrow> None))"

definition close_mixer :: "mixer \<Rightarrow> mixer" where
  "close_mixer m =
     (let m = foldl (\<lambda>m (_, a). update_buffer a close_producer m) (m\<lparr>mx_closed := True\<rparr>) (mx_inputs m)
      in m\<lparr>mx_cancelled := True\<rparr>)"

section \<open>The state invariant\<close>

text \<open>
  The mixer's invariant: the inputs of the map have distinct names and distinct buffers of the
  store, and every buffer of the store is a queue with room for one frame's samples.
\<close>

definition mixer_ok :: "mixer \<Rightarrow> bool" where
  "mixer_ok m \<longleftrightarrow> 0 < mx_frame_size m
     \<and> distinct (map fst (mx_inputs m)) \<and> distinct (map snd (mx_inputs m))
     \<and> (\<forall>a \<in> set (map snd (mx_inputs m)). a < length (mx_buffers m))
     \<and> (\<forall>q \<in> set (mx_buffers m). buffer_ok (mx_frame_size m) q)
     \<and> length (mx_output m) \<le> mx_output_cap m"

lemma update_buffer_fields [simp]:
  "mx_frame_size (update_buffer a g m) = mx_frame_size m" "mx_inputs (update_buffer a g m) = mx_inputs m"
  "length (mx_buffers (update_buffer a g m)) = length (mx_buffers m)"
  "mx_output (update_buffer a g m) = mx_output m" "mx_output_cap (update_buffer a g m) = mx_output_cap m"
  "mx_sequence (update_buffer a g m) = mx_sequence m" "mx_start (update_buffer a g m) = mx_start m"
  "mx_done (update_buffer a g m) = mx_done m"
  "mx_stream_id (update_buffer a g m) = mx_stream_id m" "mx_format (update_buffer a g m) = mx_format m"
  "mx_closed (update_buffer a g m) = mx_closed m" "mx_source_limit (update_buffer a g m) = mx_source_limit m"
  "mx_input_cap (update_buffer a g m) = mx_input_cap m"
  by (simp_all add: update_buffer_def)

lemma update_buffer_nth:
  "b < length (mx_buffers m) \<Longrightarrow>
   mx_buffers (update_buffer a g m) ! b = (if a = b then g (mx_buffers m ! b) else mx_buffers m ! b)"
  by (auto simp: update_buffer_def)

lemma update_buffer_ok:
  assumes "mixer_ok m" "a < length (mx_buffers m) \<Longrightarrow> buffer_ok (mx_frame_size m) (g (mx_buffers m ! a))"
  shows "mixer_ok (update_buffer a g m)"
proof -
  have "set (mx_buffers (update_buffer a g m)) \<subseteq> insert (g (mx_buffers m ! a)) (set (mx_buffers m))"
    using set_update_subset_insert by (fastforce simp: update_buffer_def)
  moreover have "\<not> a < length (mx_buffers m) \<Longrightarrow> mx_buffers (update_buffer a g m) = mx_buffers m"
    by (simp add: update_buffer_def list_update_beyond)
  ultimately show ?thesis using assms by (cases "a < length (mx_buffers m)") (auto simp: mixer_ok_def)
qed

lemma mixer_buffer:
  "mixer_ok m \<Longrightarrow> map_of (mx_inputs m) key = Some a \<Longrightarrow>
   a < length (mx_buffers m) \<and> buffer_ok (mx_frame_size m) (mx_buffers m ! a)"
proof -
  assume ok: "mixer_ok m" and "map_of (mx_inputs m) key = Some a"
  then have "(key, a) \<in> set (mx_inputs m)" by (simp add: map_of_SomeD)
  then have "a \<in> set (map snd (mx_inputs m))" by (metis image_eqI list.set_map snd_conv)
  then show ?thesis using ok unfolding mixer_ok_def by (meson nth_mem)
qed

lemma closed_buffer_ok: "buffer_ok n q \<Longrightarrow> buffer_ok n (close_producer q)"
  by (simp add: buffer_ok_def) (simp add: close_producer_def)

lemma new_input_buffer_ok:
  "new_frame_buffer cap (int n) = Inr q \<Longrightarrow> buffer_ok n q"
  using new_frame_buffer_ok [of cap "int n" q]
  by (auto simp: buffer_ok_def new_frame_buffer_def split: if_splits)

lemma add_input_ok: "mixer_ok m \<Longrightarrow> mixer_ok (snd (add_input key m))"
proof -
  assume ok: "mixer_ok m"
  have "length (mx_buffers m) \<notin> set (map snd (mx_inputs m))"
    using ok by (auto simp: mixer_ok_def)
  moreover have "map_of (mx_inputs m) (trim_space key) = None
      \<Longrightarrow> trim_space key \<notin> set (map fst (mx_inputs m))"
    by (simp add: map_of_eq_None_iff)
  ultimately show ?thesis
    using ok by (auto simp: add_input_def Let_def mixer_ok_def dest: new_input_buffer_ok split: sum.splits)
qed

lemma remove_input_ok: "mixer_ok m \<Longrightarrow> mixer_ok (snd (remove_input key m))"
proof -
  assume ok: "mixer_ok m"
  have "mixer_ok (m\<lparr>mx_inputs := filter (\<lambda>(k, _). k \<noteq> trim_space key) (mx_inputs m)\<rparr>)"
    using ok by (auto simp: mixer_ok_def distinct_map intro: inj_on_subset)
  then show ?thesis
    using ok mixer_buffer [OF ok, of "trim_space key"]
    by (auto simp: remove_input_def Let_def split: option.splits intro!: update_buffer_ok closed_buffer_ok)
qed

lemma close_all_ok:
  "mixer_ok m \<Longrightarrow> mixer_ok (foldl (\<lambda>m (_, a). update_buffer a close_producer m) m xs)"
proof (induction xs arbitrary: m)
  case (Cons x xs)
  have "mixer_ok (update_buffer (snd x) close_producer m)"
    using Cons.prems by (intro update_buffer_ok closed_buffer_ok) (auto simp: mixer_ok_def)
  then show ?case using Cons.IH by (simp add: case_prod_beta)
qed simp

lemma close_mixer_ok:
  assumes "mixer_ok m"
  shows "mixer_ok (close_mixer m)"
proof -
  have "mixer_ok (m\<lparr>mx_closed := True\<rparr>)" using assms by (simp add: mixer_ok_def)
  from close_all_ok [OF this, of "mx_inputs m"] show ?thesis
    by (simp add: close_mixer_def Let_def) (simp add: mixer_ok_def)
qed

section \<open>What a mix reads\<close>

text \<open>The frame at the front of a queue, the zero frame when it has none.\<close>

definition front :: "frame_buffer \<Rightarrow> pcm_frame" where
  "front q = (case fb_queue q of [] \<Rightarrow> zero_frame | f # _ \<Rightarrow> f)"

lemma empty_queue: "fb_size q = 0 \<Longrightarrow> fb_queue q = []"
  by (simp add: fb_queue_def)

lemma receive_front:
  assumes "buffer_ok n q" "receive_locked q = (r, q')"
  shows "buffer_ok n q'" "fb_queue q' = tl (fb_queue q)"
    "r = Inr (Some (front q)) \<or> front q = zero_frame \<and> (r = Inr None \<or> r = Inl err_eof)"
proof -
  consider f where "r = Inr (Some f)" | "r = Inr None" | e where "r = Inl e"
    by (cases r) (auto split: option.splits)
  then have "buffer_ok n q' \<and> fb_queue q' = tl (fb_queue q) \<and>
    (r = Inr (Some (front q)) \<or> front q = zero_frame \<and> (r = Inr None \<or> r = Inl err_eof))"
  proof cases
    case 1
    then have got: "receive_locked q = (Inr (Some f), q')" using assms(2) by simp
    then have "fb_max_samples q' = fb_max_samples q"
      by (auto simp: receive_locked_def Let_def split: if_splits)
    then show ?thesis using receive_queue [OF _ got] assms(1) 1 by (simp add: buffer_ok_def front_def)
  next
    case 2
    then show ?thesis using assms receive_nothing(2) [of q q']
      by (auto simp: front_def empty_queue)
  next
    case 3
    then have "e = err_eof" using assms(2) by (auto simp: receive_locked_def Let_def split: if_splits)
    then show ?thesis using assms 3 receive_nothing(1) [of q e q']
      by (auto simp: front_def empty_queue)
  qed
  then show "buffer_ok n q'" "fb_queue q' = tl (fb_queue q)"
    "r = Inr (Some (front q)) \<or> front q = zero_frame \<and> (r = Inr None \<or> r = Inl err_eof)"
    by blast+
qed

text \<open>
  What the owners of inputs may do during a mix: anything that keeps the invariant and the run
  goroutine's own state. A read of the output in the middle of a mix is a step of its own before or
  after it: the mix does not look at the output.
\<close>

definition same_core :: "mixer \<Rightarrow> mixer \<Rightarrow> bool" where
  "same_core m m' \<longleftrightarrow> mx_format m' = mx_format m \<and> mx_stream_id m' = mx_stream_id m
     \<and> mx_frame_size m' = mx_frame_size m \<and> mx_sequence m' = mx_sequence m \<and> mx_start m' = mx_start m
     \<and> length (mx_buffers m) \<le> length (mx_buffers m')
     \<and> mx_output m' = mx_output m \<and> mx_output_cap m' = mx_output_cap m \<and> mx_done m' = mx_done m"

lemma same_core_refl [simp]: "same_core m m"
  by (simp add: same_core_def)

lemma same_core_trans: "same_core a b \<Longrightarrow> same_core b c \<Longrightarrow> same_core a c"
  by (simp add: same_core_def)

definition calm :: "(mixer \<Rightarrow> mixer) \<Rightarrow> bool" where
  "calm g \<longleftrightarrow> (\<forall>m. mixer_ok m \<longrightarrow> mixer_ok (g m) \<and> same_core m (g m))"

lemma same_core_update [simp]: "same_core m (update_buffer a g m)"
  by (simp add: same_core_def)

lemma front_small: "buffer_ok n q \<Longrightarrow> length (pf_samples (front q)) \<le> n"
  by (cases "fb_queue q") (auto simp: buffer_ok_def front_def fb_ok_def zero_frame_def)

text \<open>One input: the front of its queue, and the mixer without it.\<close>

definition input_front :: "string \<Rightarrow> mixer \<Rightarrow> pcm_frame" where
  "input_front key m =
     (case map_of (mx_inputs m) key of None \<Rightarrow> zero_frame | Some a \<Rightarrow> front (mx_buffers m ! a))"

definition input_taken :: "string \<Rightarrow> mixer \<Rightarrow> mixer" where
  "input_taken key m =
     (case map_of (mx_inputs m) key of None \<Rightarrow> m
      | Some a \<Rightarrow> update_buffer a (\<lambda>q. snd (receive_locked q)) m)"

lemma input_taken_ok:
  assumes "mixer_ok m"
  shows "mixer_ok (input_taken key m)" "same_core m (input_taken key m)"
    "mx_inputs (input_taken key m) = mx_inputs m"
    "length (pf_samples (input_front key m)) \<le> mx_frame_size m"
proof -
  have "map_of (mx_inputs m) key = Some a \<Longrightarrow> buffer_ok (mx_frame_size m) (snd (receive_locked (mx_buffers m ! a)))"
    for a
    using mixer_buffer [OF assms] receive_front(1) [of _ "mx_buffers m ! a"]
    by (cases "receive_locked (mx_buffers m ! a)") auto
  then show "mixer_ok (input_taken key m)" "same_core m (input_taken key m)"
    "mx_inputs (input_taken key m) = mx_inputs m"
    using assms by (auto simp: input_taken_def split: option.splits intro!: update_buffer_ok)
  show "length (pf_samples (input_front key m)) \<le> mx_frame_size m"
    using mixer_buffer [OF assms, of key] front_small
    by (auto simp: input_front_def zero_frame_def split: option.splits)
qed

lemma read_inputs_step:
  assumes "mixer_ok (between (length ids) m)"
  shows "read_inputs between (key # ids) m
      = map_prod (map_sum (\<lambda>e. e) ((#) (input_front key (between (length ids) m)))) (\<lambda>m. m)
          (read_inputs between ids (input_taken key (between (length ids) m)))"
proof (cases "map_of (mx_inputs (between (length ids) m)) key")
  case None
  then show ?thesis by (simp add: input_front_def input_taken_def)
next
  case (Some a)
  let ?m = "between (length ids) m"
  obtain r q' where receive: "receive_locked (mx_buffers ?m ! a) = (r, q')" by fastforce
  have buffer: "buffer_ok (mx_frame_size ?m) (mx_buffers ?m ! a)"
    using mixer_buffer [OF assms Some] by simp
  have taken: "input_taken key ?m = update_buffer a (\<lambda>_. q') ?m"
    by (simp add: input_taken_def Some receive update_buffer_def)
  show ?thesis
    using receive_front(3) [OF buffer receive] Some receive
    by (auto simp: taken input_front_def Let_def)
qed

lemma read_inputs_keeps:
  assumes "\<forall>k. calm (between k)" "mixer_ok m"
  shows "\<exists>frames m'. read_inputs between ids m = (Inr frames, m') \<and> length frames = length ids
    \<and> (\<forall>f \<in> set frames. length (pf_samples f) \<le> mx_frame_size m) \<and> mixer_ok m' \<and> same_core m m'"
  using assms(2)
proof (induction ids arbitrary: m)
  case (Cons key ids)
  have m1: "mixer_ok (between (length ids) m)" "same_core m (between (length ids) m)"
    using assms(1) Cons.prems by (auto simp: calm_def)
  let ?m = "between (length ids) m"
  note taken = input_taken_ok [OF m1(1), of key]
  obtain frames m' where rest: "read_inputs between ids (input_taken key ?m) = (Inr frames, m')"
      "length frames = length ids" "\<forall>f \<in> set frames. length (pf_samples f) \<le> mx_frame_size ?m"
      "mixer_ok m'" "same_core (input_taken key ?m) m'"
    using Cons.IH [OF taken(1)] taken(2) by (auto simp: same_core_def)
  have "same_core m m'" using m1(2) taken(2) rest(5) same_core_trans by blast
  moreover have "mx_frame_size ?m = mx_frame_size m" using m1(2) by (simp add: same_core_def)
  ultimately show ?case
    using read_inputs_step [of between ids m key, OF m1(1)] rest taken(4) by auto
qed simp

text \<open>With nobody else at work the mix takes the front of every queue, in the order of the names.\<close>

definition input_queue :: "string \<Rightarrow> mixer \<Rightarrow> pcm_frame list" where
  "input_queue key m =
     (case map_of (mx_inputs m) key of None \<Rightarrow> [] | Some a \<Rightarrow> fb_queue (mx_buffers m ! a))"

lemma input_front_queue:
  "input_front key m = (case input_queue key m of [] \<Rightarrow> zero_frame | f # _ \<Rightarrow> f)"
  by (simp add: input_front_def input_queue_def front_def split: option.splits)

lemma same_address:
  assumes "mixer_ok m" "map_of (mx_inputs m) k = Some a" "map_of (mx_inputs m) j = Some a"
  shows "k = j"
proof -
  have "(k, a) \<in> set (mx_inputs m)" "(j, a) \<in> set (mx_inputs m)"
    using assms(2,3) by (simp_all add: map_of_SomeD)
  moreover have "distinct (map snd (mx_inputs m))" using assms(1) by (simp add: mixer_ok_def)
  ultimately show ?thesis by (metis distinct_map inj_onD prod.inject snd_conv)
qed

lemma input_taken_queue:
  assumes "mixer_ok m"
  shows "input_queue k (input_taken key m) = (if k = key then tl (input_queue k m) else input_queue k m)"
proof (cases "map_of (mx_inputs m) key")
  case None
  then show ?thesis by (auto simp: input_taken_def input_queue_def)
next
  case (Some a)
  obtain r q' where receive: "receive_locked (mx_buffers m ! a) = (r, q')" by fastforce
  have a: "a < length (mx_buffers m)" "fb_queue q' = tl (fb_queue (mx_buffers m ! a))"
    using mixer_buffer [OF assms Some] receive_front(2) [OF _ receive] by auto
  show ?thesis
  proof (cases "map_of (mx_inputs m) k")
    case None
    then show ?thesis using Some by (auto simp: input_taken_def input_queue_def)
  next
    case there: (Some b)
    have "b < length (mx_buffers m)" using mixer_buffer [OF assms there] by simp
    then show ?thesis
      using same_address [OF assms, of k b key] there Some a receive
      by (auto simp: input_taken_def input_queue_def update_buffer_nth)
  qed
qed

lemma read_quiet:
  assumes "mixer_ok m" "distinct ids"
  shows "\<exists>m'. read_inputs (\<lambda>_ m. m) ids m = (Inr (map (\<lambda>k. input_front k m) ids), m')
    \<and> mixer_ok m' \<and> same_core m m' \<and> mx_inputs m' = mx_inputs m
    \<and> (\<forall>k. input_queue k m' = (if k \<in> set ids then tl (input_queue k m) else input_queue k m))"
  using assms
proof (induction ids arbitrary: m)
  case (Cons key ids)
  let ?m = "input_taken key m"
  note taken = input_taken_ok [OF Cons.prems(1), of key]
  note queue = input_taken_queue [OF Cons.prems(1), of _ key]
  obtain m' where rest: "read_inputs (\<lambda>_ m. m) ids ?m = (Inr (map (\<lambda>k. input_front k ?m) ids), m')"
      "mixer_ok m'" "same_core ?m m'" "mx_inputs m' = mx_inputs ?m"
      "\<forall>k. input_queue k m' = (if k \<in> set ids then tl (input_queue k ?m) else input_queue k ?m)"
    using Cons.IH [OF taken(1)] Cons.prems(2) by auto
  have "map (\<lambda>k. input_front k ?m) ids = map (\<lambda>k. input_front k m) ids"
    using Cons.prems(2) by (auto simp: input_front_queue queue)
  then have "read_inputs (\<lambda>_ m. m) (key # ids) m = (Inr (map (\<lambda>k. input_front k m) (key # ids)), m')"
    using read_inputs_step [of "\<lambda>_ m. m" ids m key] Cons.prems(1) rest(1) by simp
  moreover have "\<forall>k. input_queue k m'
      = (if k \<in> set (key # ids) then tl (input_queue k m) else input_queue k m)"
    using rest(5) queue Cons.prems(2) by auto
  moreover have "same_core m m'" using taken(2) rest(3) same_core_trans by blast
  ultimately show ?case using rest(2,4) taken(3) by (intro exI [of _ m']) simp
qed simp

section \<open>What a mix yields\<close>

definition mixed_length :: "nat \<Rightarrow> pcm_frame list \<Rightarrow> nat" where
  "mixed_length frame_size fs =
     (if list_ex contributes fs then fold max (map (\<lambda>f. length (pf_samples f)) fs) 0 else frame_size)"

lemma inspect_shape_counts:
  "inspect_shape fs s =
     \<lparr>sh_length = fold max (map (\<lambda>f. length (pf_samples f)) fs) (sh_length s),
      sh_non_empty = sh_non_empty s + length (filter (\<lambda>f. pf_samples f \<noteq> []) fs),
      sh_contributors = sh_contributors s + length (filter contributes fs),
      sh_boundaries = sh_boundaries s + length (filter pf_end_of_response fs)\<rparr>"
  by (induction fs s rule: inspect_shape.induct) (auto simp: contributes_def max_def)

lemma fold_max_bounds:
  "\<forall>x \<in> set xs. (x :: nat) \<le> fold max xs k" "k \<le> fold max xs k"
  "(\<forall>x \<in> set xs. x \<le> n) \<Longrightarrow> k \<le> n \<Longrightarrow> fold max xs k \<le> n"
proof -
  have "k \<le> fold max xs k \<and> (\<forall>x \<in> set xs. x \<le> fold max xs k)" for k
  proof (induction xs arbitrary: k)
    case (Cons x xs)
    then show ?case by (metis (no_types) fold_simps(2) max.bounded_iff set_ConsD order_trans)
  qed simp
  then show "\<forall>x \<in> set xs. x \<le> fold max xs k" "k \<le> fold max xs k" by blast+
  show "(\<forall>x \<in> set xs. x \<le> n) \<Longrightarrow> k \<le> n \<Longrightarrow> fold max xs k \<le> n"
    by (induction xs arbitrary: k) simp_all
qed

lemma mixed_frame_length_shape:
  assumes "\<forall>f \<in> set fs. length (pf_samples f) \<le> n"
  shows "mixed_frame_length (inspect_mixed_frame_shape fs) n = Inr (mixed_length n fs)"
    "mixed_length n fs \<le> n" "\<forall>f \<in> set fs. length (pf_samples f) \<le> mixed_length n fs"
proof -
  let ?ls = "map (\<lambda>f. length (pf_samples f)) fs"
  have small: "fold max ?ls 0 \<le> n" using assms by (intro fold_max_bounds(3)) auto
  have all: "\<forall>f \<in> set fs. length (pf_samples f) \<le> fold max ?ls 0"
    using fold_max_bounds(1) [of ?ls 0] by simp
  have none: "\<not> list_ex contributes fs \<longleftrightarrow> filter (\<lambda>f. pf_samples f \<noteq> []) fs = []
      \<and> filter pf_end_of_response fs = []"
    by (auto simp: list_ex_iff contributes_def filter_empty_conv)
  have "\<not> list_ex contributes fs \<Longrightarrow> fold max ?ls 0 \<le> 0"
    by (intro fold_max_bounds(3)) (auto simp: list_ex_iff contributes_def)
  then show "mixed_frame_length (inspect_mixed_frame_shape fs) n = Inr (mixed_length n fs)"
    using small none
    by (auto simp: mixed_frame_length_def inspect_mixed_frame_shape_def inspect_shape_counts mixed_length_def)
  show "mixed_length n fs \<le> n" using small by (simp add: mixed_length_def)
  show "\<forall>f \<in> set fs. length (pf_samples f) \<le> mixed_length n fs"
    using all assms by (simp add: mixed_length_def)
qed

lemma combine_mixes:
  assumes "\<forall>f \<in> set fs. length (pf_samples f) \<le> n" "n \<le> 2 ^ 20" "length fs \<le> 2 ^ 20"
  shows "\<exists>f. combine_frames fmt n fs = Inr f \<and> length (pf_samples f) = mixed_length n fs
    \<and> map sint (pf_samples f)
        = map (\<lambda>i. clip16 (mix_total i (map pf_samples fs))) [0..<mixed_length n fs]
    \<and> (pf_end_of_response f \<longleftrightarrow>
        length (filter pf_end_of_response fs) = 1 \<and> length (filter contributes fs) = 1)"
proof -
  note shape = mixed_frame_length_shape [OF assms(1)]
  have "mixable (map pf_samples fs) (int (mixed_length n fs))"
    using shape(2,3) assms(2,3) by (auto simp: mixable_def list_all_iff)
  then obtain mixed where mixed: "mix_pcm16_samples (map pf_samples fs) (int (mixed_length n fs)) = Inr mixed"
    by (auto simp: mix_result)
  then have sums: "map sint mixed
      = map (\<lambda>i. clip16 (mix_total i (map pf_samples fs))) [0..<mixed_length n fs]"
    by (simp add: mix_is_clipped_sum_values)
  then have "length mixed = mixed_length n fs" using map_eq_imp_length_eq by fastforce
  moreover have "sh_boundaries (inspect_mixed_frame_shape fs) = length (filter pf_end_of_response fs)"
    "sh_contributors (inspect_mixed_frame_shape fs) = length (filter contributes fs)"
    by (simp_all add: inspect_mixed_frame_shape_def inspect_shape_counts)
  ultimately show ?thesis using sums by (simp add: combine_frames_def Let_def shape(1) mixed)
qed

text \<open>
  C11: one cadence mixes the fronts: while the mixer is open and within its bounds, a mix never
  fails; it takes exactly the oldest frame of every input, its samples are the clipped sums of
  theirs, it names the contributing inputs in order, and it advances its own timeline by what it
  emits.
\<close>

theorem mix_sums_the_fronts:
  assumes "mixer_ok m" "\<not> mx_closed m" "length (mx_inputs m) \<le> mx_source_limit m"
    and "mx_source_limit m \<le> max_pcm16_mix_sources" "mx_frame_size m \<le> max_pcm16_mix_samples"
    and "ids = sort (map fst (mx_inputs m))" "fronts = map (\<lambda>k. input_front k m) ids"
  shows "\<exists>x m'. mix_once (\<lambda>_ m. m) m = (Inr x, m')
    \<and> map sint (pf_samples (xf_frame x))
        = map (\<lambda>i. clip16 (mix_total i (map pf_samples fronts))) [0..<mixed_length (mx_frame_size m) fronts]
    \<and> xf_sources x = filter (\<lambda>k. contributes (input_front k m)) ids
    \<and> (\<forall>k. input_queue k m' = tl (input_queue k m))
    \<and> pf_sequence (xf_frame x) = mx_sequence m \<and> pf_start_sample (xf_frame x) = mx_start m
    \<and> mx_sequence m' = mx_sequence m + 1
    \<and> mx_start m' = mx_start m + of_nat (length (pf_samples (xf_frame x)))"
proof -
  have ids: "distinct ids" "set ids = set (map fst (mx_inputs m))" "length ids = length (mx_inputs m)"
    using assms(1) by (simp_all add: assms(6) mixer_ok_def)
  have bounds: "validate_pcm16_mix_bounds (length ids) (int (mx_frame_size m)) = None"
    using assms(3,4,5) ids(3) by (simp add: validate_pcm16_mix_bounds_def)
  then have snap: "snapshot_mix_inputs m = Inr ids"
    using assms(2,3,6) by (simp add: snapshot_mix_inputs_def Let_def)
  obtain m1 where read: "read_inputs (\<lambda>_ m. m) ids m = (Inr fronts, m1)" "mixer_ok m1"
      "same_core m m1" "\<forall>k. input_queue k m1 = (if k \<in> set ids then tl (input_queue k m) else input_queue k m)"
    using read_quiet [OF assms(1) ids(1)] by (auto simp: assms(7))
  have "k \<notin> set ids \<Longrightarrow> input_queue k m = []" for k
    using ids(2) by (simp add: input_queue_def map_of_eq_None_iff [THEN iffD2])
  then have queues: "\<forall>k. input_queue k m1 = tl (input_queue k m)" using read(4) by auto
  have "\<forall>f \<in> set fronts. length (pf_samples f) \<le> mx_frame_size m"
    using input_taken_ok(4) [OF assms(1)] by (simp add: assms(7))
  moreover have "length fronts \<le> 2 ^ 20" "mx_frame_size m \<le> 2 ^ 20"
    using assms(3,4,5,7) ids(3) by (simp_all add: max_pcm16_mix_sources_def max_pcm16_mix_samples_def)
  ultimately obtain f where f: "combine_frames (mx_format m1) (mx_frame_size m1) fronts = Inr f"
      "map sint (pf_samples f)
        = map (\<lambda>i. clip16 (mix_total i (map pf_samples fronts))) [0..<mixed_length (mx_frame_size m) fronts]"
    using combine_mixes [of fronts "mx_frame_size m" "mx_format m1"] read(3) by (auto simp: same_core_def)
  have sources: "map fst (filter (\<lambda>(_, f). contributes f) (zip ids fronts))
      = filter (\<lambda>k. contributes (input_front k m)) ids"
    unfolding assms(7) by (induction ids) simp_all
  let ?x = "\<lparr>xf_frame = f\<lparr>pf_stream_id := mx_stream_id m1, pf_sequence := mx_sequence m1,
      pf_start_sample := mx_start m1, pf_epoch := 0\<rparr>,
      xf_sources = filter (\<lambda>k. contributes (input_front k m)) ids\<rparr>"
  let ?m = "m1\<lparr>mx_sequence := mx_sequence m1 + 1,
      mx_start := mx_start m1 + of_nat (length (pf_samples f))\<rparr>"
  have "mix_once (\<lambda>_ m. m) m = (Inr ?x, ?m)"
    by (simp add: mix_once_def snap read(1) f(1) sources)
  moreover have "input_queue k ?m = input_queue k m1" for k
    by (simp add: input_queue_def split: option.split)
  ultimately show ?thesis
    using read(3) f(2) queues by (intro exI [of _ ?x] exI [of _ ?m]) (simp add: same_core_def)
qed

definition bare_mixer :: mixer where
  "bare_mixer =
     \<lparr>mx_format = \<lparr>mf_sample_rate = 1000, mf_channels = 1, mf_frame_duration = 2000000\<rparr>,
      mx_stream_id = ''mix'', mx_frame_size = 2, mx_input_cap = 4, mx_source_limit = 8,
      mx_sequence = 0, mx_start = 0, mx_buffers = [], mx_inputs = [], mx_closed = False,
      mx_cancelled = False, mx_done = False, mx_err = None, mx_output = [], mx_output_cap = 4\<rparr>"

definition one_input_mixer :: mixer where
  "one_input_mixer =
     (case add_input ''alice'' bare_mixer of
        (Inr i, m) \<Rightarrow>
          (case input_write (packet [7, 9] True) [[live_round]] i m of
             Some (_, _, m) \<Rightarrow> m | None \<Rightarrow> m)
      | (Inl _, m) \<Rightarrow> m)"

theorem mix_sums_the_fronts_witness:
  "\<exists>x m'. mix_once (\<lambda>_ m. m) one_input_mixer = (Inr x, m')
    \<and> map sint (pf_samples (xf_frame x)) = [7, 9] \<and> xf_sources x = [''alice'']
    \<and> input_queue ''alice'' m' = []"
proof -
  have alice: "sort (map fst (mx_inputs one_input_mixer)) = [''alice'']"
    "map pf_samples [input_front ''alice'' one_input_mixer] = [[7, 9]]"
    "contributes (input_front ''alice'' one_input_mixer)" "mx_frame_size one_input_mixer = 2"
    "length (input_queue ''alice'' one_input_mixer) = 1"
    by code_simp+
  have ok: "mixer_ok one_input_mixer"
    by code_simp
  have open_state: "\<not> mx_closed one_input_mixer"
    "length (mx_inputs one_input_mixer) \<le> mx_source_limit one_input_mixer"
    by code_simp+
  have "mx_source_limit one_input_mixer = 8" by code_simp
  then have limit: "mx_source_limit one_input_mixer \<le> max_pcm16_mix_sources"
    by (simp add: max_pcm16_mix_sources_def)
  have size: "mx_frame_size one_input_mixer \<le> max_pcm16_mix_samples"
    by (simp add: alice(4) max_pcm16_mix_samples_def)
  have sums: "map (\<lambda>i. clip16 (mix_total i [[7, 9]])) [0..<mixed_length 2 [input_front ''alice'' one_input_mixer]] = [7, 9]"
    "filter (\<lambda>k. contributes (input_front k one_input_mixer)) [''alice''] = [''alice'']"
    "tl (input_queue ''alice'' one_input_mixer) = []"
    by code_simp+
  from mix_sums_the_fronts [OF ok open_state limit size refl refl] obtain x m' where
      "mix_once (\<lambda>_ m. m) one_input_mixer = (Inr x, m')"
    and "map sint (pf_samples (xf_frame x))
      = map (\<lambda>i. clip16 (mix_total i (map pf_samples [input_front ''alice'' one_input_mixer])))
          [0..<mixed_length 2 [input_front ''alice'' one_input_mixer]]"
    and "xf_sources x = filter (\<lambda>k. contributes (input_front k one_input_mixer)) [''alice'']"
    and "\<forall>k. input_queue k m' = tl (input_queue k one_input_mixer)"
    unfolding alice(1) alice(4) list.map by blast
  then show ?thesis using sums unfolding alice(2) by (intro exI [of _ x] exI [of _ m']) simp
qed

section \<open>Runs of the mixer\<close>

text \<open>
  The mixer with the handles of its inputs, the point its run goroutine has reached, and the frames
  readers got, in order. A step is one operation of an owner, one select or mix of the run goroutine,
  or one read of the output.
\<close>

datatype run_point = AtTimer | AtMix | AtSend mixed_frame

record mixer_system =
  sy_mixer :: mixer
  sy_handles :: "mix_input list"
  sy_run :: run_point
  sy_read :: "mixed_frame list"

fun in_hand :: "run_point \<Rightarrow> mixed_frame list" where
  "in_hand (AtSend f) = [f]"
| "in_hand _ = []"

inductive mixer_step :: "mixer_system \<Rightarrow> mixer_system \<Rightarrow> bool" where
  step_add: "add_input key (sy_mixer s) = (Inr i, m) \<Longrightarrow>
     mixer_step s (s\<lparr>sy_mixer := m, sy_handles := sy_handles s @ [i]\<rparr>)"
| step_remove: "remove_input key (sy_mixer s) = (e, m) \<Longrightarrow> mixer_step s (s\<lparr>sy_mixer := m\<rparr>)"
| step_write: "h < length (sy_handles s) \<Longrightarrow> waits_ok (mx_frame_size (sy_mixer s)) waits \<Longrightarrow>
     input_write f waits (sy_handles s ! h) (sy_mixer s) = Some (e, i, m) \<Longrightarrow>
     mixer_step s (s\<lparr>sy_mixer := m, sy_handles := (sy_handles s) [h := i]\<rparr>)"
| step_input_close: "h < length (sy_handles s) \<Longrightarrow>
     input_close (sy_handles s ! h) (sy_mixer s) = (i, m) \<Longrightarrow>
     mixer_step s (s\<lparr>sy_mixer := m, sy_handles := (sy_handles s) [h := i]\<rparr>)"
| step_timer: "\<not> mx_done (sy_mixer s) \<Longrightarrow> sy_run s = AtTimer \<Longrightarrow>
     run_wait has_timer fires (sy_mixer s) = Some (due, m) \<Longrightarrow>
     mixer_step s (s\<lparr>sy_mixer := m, sy_run := (if due then AtMix else AtTimer)\<rparr>)"
| step_mix: "\<not> mx_done (sy_mixer s) \<Longrightarrow> sy_run s = AtMix \<Longrightarrow> \<forall>k. calm (between k) \<Longrightarrow>
     run_mix between (sy_mixer s) = (mixed, m) \<Longrightarrow>
     mixer_step s (s\<lparr>sy_mixer := m, sy_run := (case mixed of None \<Rightarrow> AtTimer | Some f \<Rightarrow> AtSend f)\<rparr>)"
| step_send: "\<not> mx_done (sy_mixer s) \<Longrightarrow> sy_run s = AtSend f \<Longrightarrow>
     run_send sends f (sy_mixer s) = Some m \<Longrightarrow>
     mixer_step s (s\<lparr>sy_mixer := m, sy_run := AtTimer\<rparr>)"
| step_read: "read_mixed_frame ctx receives (sy_mixer s) = Some (r, m) \<Longrightarrow>
     mixer_step s (s\<lparr>sy_mixer := m,
       sy_read := sy_read s @ (case r of Inl _ \<Rightarrow> [] | Inr f \<Rightarrow> [f])\<rparr>)"
| step_close: "mixer_step s (s\<lparr>sy_mixer := close_mixer (sy_mixer s)\<rparr>)"

text \<open>Every frame handed out so far, in order: what readers got, what waits, what is in hand.\<close>

definition handed_out :: "mixer_system \<Rightarrow> mixed_frame list" where
  "handed_out s = sy_read s @ mx_output (sy_mixer s) @ in_hand (sy_run s)"

text \<open>
  A timeline: mono frames of one stream and rate, with consecutive sequence numbers, each starting
  where the last one ended.
\<close>

fun timeline :: "string \<Rightarrow> int \<Rightarrow> nat \<Rightarrow> 64 word \<Rightarrow> 64 word \<Rightarrow> mixed_frame list \<Rightarrow> bool" where
  "timeline stream rate frame_size n start [] = True"
| "timeline stream rate frame_size n start (x # xs) =
     (pf_sequence (xf_frame x) = n \<and> pf_start_sample (xf_frame x) = start
      \<and> pf_stream_id (xf_frame x) = stream \<and> pf_epoch (xf_frame x) = 0
      \<and> pf_format (xf_frame x)
          = \<lparr>df_sample_rate = rate, df_channels = 1, df_bit_depth = 16, df_encoding = ''pcm16''\<rparr>
      \<and> length (pf_samples (xf_frame x)) \<le> frame_size
      \<and> (pf_end_of_response (xf_frame x) \<longrightarrow> length (xf_sources x) = 1)
      \<and> timeline stream rate frame_size (n + 1) (start + of_nat (length (pf_samples (xf_frame x)))) xs)"

definition mixed_samples :: "mixed_frame list \<Rightarrow> nat" where
  "mixed_samples xs = sum_list (map (\<lambda>x. length (pf_samples (xf_frame x))) xs)"

lemma timeline_append:
  "timeline stream rate frame_size n start (xs @ ys) \<longleftrightarrow> timeline stream rate frame_size n start xs
     \<and> timeline stream rate frame_size (n + of_nat (length xs)) (start + of_nat (mixed_samples xs)) ys"
  by (induction stream rate frame_size n start xs rule: timeline.induct)
    (simp_all add: mixed_samples_def algebra_simps)

definition handle_ok :: "mixer \<Rightarrow> mix_input \<Rightarrow> bool" where
  "handle_ok m i \<longleftrightarrow> in_addr i < length (mx_buffers m) \<and> length (in_pending i) < mx_frame_size m"

definition mixer_rate :: "mixer \<Rightarrow> int" where
  "mixer_rate m = sint (mf_sample_rate (mx_format m))"

definition system_ok :: "mixer_system \<Rightarrow> bool" where
  "system_ok s \<longleftrightarrow> mixer_ok (sy_mixer s) \<and> (\<forall>i \<in> set (sy_handles s). handle_ok (sy_mixer s) i)
     \<and> timeline (mx_stream_id (sy_mixer s)) (mixer_rate (sy_mixer s)) (mx_frame_size (sy_mixer s)) 0 0
         (handed_out s)
     \<and> (\<not> mx_done (sy_mixer s) \<longrightarrow>
          mx_sequence (sy_mixer s) = of_nat (length (handed_out s))
          \<and> mx_start (sy_mixer s) = of_nat (mixed_samples (handed_out s)))"

lemma handles_core: "\<forall>i \<in> set hs. handle_ok m i \<Longrightarrow> same_core m m' \<Longrightarrow> \<forall>i \<in> set hs. handle_ok m' i"
  by (fastforce simp: handle_ok_def same_core_def)

text \<open>What a mix does to the timeline, whatever the others do meanwhile.\<close>

lemma combine_bounds:
  assumes "combine_frames fmt n frames = Inr f" "\<forall>f \<in> set frames. length (pf_samples f) \<le> n"
  shows "length (pf_samples f) \<le> n" "pf_format f = pcm16_device_format (sint (mf_sample_rate fmt))"
    "pf_end_of_response f \<Longrightarrow> length (filter contributes frames) = 1"
proof -
  note shape = mixed_frame_length_shape [OF assms(2)]
  obtain mixed where mixed: "mix_pcm16_samples (map pf_samples frames) (int (mixed_length n frames)) = Inr mixed"
    and f: "f = zero_frame\<lparr>pf_samples := mixed, pf_format := pcm16_device_format (sint (mf_sample_rate fmt)),
      pf_end_of_response := sh_boundaries (inspect_mixed_frame_shape frames) = 1
        \<and> sh_contributors (inspect_mixed_frame_shape frames) = 1\<rparr>"
    using assms(1) by (auto simp: combine_frames_def Let_def shape(1) split: sum.splits)
  then show "length (pf_samples f) \<le> n" using shape(2) by (auto simp: mix_result)
  show "pf_format f = pcm16_device_format (sint (mf_sample_rate fmt))" using f by simp
  show "pf_end_of_response f \<Longrightarrow> length (filter contributes frames) = 1"
    by (simp add: f inspect_mixed_frame_shape_def inspect_shape_counts)
qed

lemma filter_zip_length:
  "length xs = length ys \<Longrightarrow> length (filter (\<lambda>(_, y). p y) (zip xs ys)) = length (filter p ys)"
  by (induction xs ys rule: list_induct2) simp_all

lemma mix_once_core:
  assumes "\<forall>k. calm (between k)" "mixer_ok m" "mix_once between m = (r, m')"
  shows "mixer_ok m' \<and> (case r of Inl e \<Rightarrow> same_core m m'
     | Inr x \<Rightarrow> same_core m (m'\<lparr>mx_sequence := mx_sequence m, mx_start := mx_start m\<rparr>)
         \<and> timeline (mx_stream_id m) (mixer_rate m) (mx_frame_size m) (mx_sequence m) (mx_start m) [x]
         \<and> mx_sequence m' = mx_sequence m + 1
         \<and> mx_start m' = mx_start m + of_nat (length (pf_samples (xf_frame x))))"
proof (cases "snapshot_mix_inputs m")
  case (Inl e)
  then show ?thesis using assms by (auto simp: mix_once_def)
next
  case (Inr ids)
  obtain frames m1 where read: "read_inputs between ids m = (Inr frames, m1)" "length frames = length ids"
      "\<forall>f \<in> set frames. length (pf_samples f) \<le> mx_frame_size m" "mixer_ok m1" "same_core m m1"
    using read_inputs_keeps [OF assms(1,2)] by blast
  show ?thesis
  proof (cases "combine_frames (mx_format m1) (mx_frame_size m1) frames")
    case (Inl e)
    then show ?thesis using assms(3) Inr read by (auto simp: mix_once_def)
  next
    case combined: (Inr f)
    have same: "mx_frame_size m1 = mx_frame_size m" "mx_format m1 = mx_format m"
      using read(5) by (simp_all add: same_core_def)
    have f: "length (pf_samples f) \<le> mx_frame_size m"
      "pf_format f = \<lparr>df_sample_rate = mixer_rate m, df_channels = 1, df_bit_depth = 16, df_encoding = ''pcm16''\<rparr>"
      "pf_end_of_response f \<Longrightarrow> length (filter contributes frames) = 1"
      using combine_bounds [OF combined] read(3)
      by (auto simp: same mixer_rate_def pcm16_device_format_def audio_channels_def)
    show ?thesis
      using assms(3) read(4,5) f filter_zip_length [of ids frames contributes] read(2)
      by (auto simp: mix_once_def Inr read(1) combined same_core_def) (simp_all add: mixer_ok_def)
  qed
qed

text \<open>Every step keeps the system's invariant.\<close>

lemma system_ok_step:
  assumes "system_ok s" "mixer_ok m" "same_core (sy_mixer s) m" "\<forall>i \<in> set hs. handle_ok m i"
  shows "system_ok (s\<lparr>sy_mixer := m, sy_handles := hs\<rparr>)"
  using assms by (simp add: system_ok_def same_core_def handed_out_def mixer_rate_def)

lemma handles_update:
  assumes "\<forall>i \<in> set hs. handle_ok m i" "same_core m m'" "handle_ok m' i"
  shows "\<forall>j \<in> set (hs [h := i]). handle_ok m' j"
  using handles_core [OF assms(1,2)] assms(3) set_update_subset_insert [of hs h i] by blast

lemma new_mixer_ok:
  assumes "new_mixer True True config = Inr m"
  shows "mixer_ok m" "mx_sequence m = 0" "mx_start m = 0" "mx_output m = []"
proof -
  have "mix_frame_samples f = Inr n \<Longrightarrow> 0 < n" for f n
    by (auto simp: mix_frame_samples_def Let_def unat_gt_0 split: if_splits)
  then show "mixer_ok m" "mx_sequence m = 0" "mx_start m = 0" "mx_output m = []"
    using assms
    by (auto simp: new_mixer_def normalize_config_def mixer_ok_def Let_def split: sum.splits if_splits)
qed

lemma add_input_core:
  assumes "mixer_ok m" "add_input key m = (Inr i, m')"
  shows "same_core m m'" "handle_ok m' i"
  using assms
  by (auto simp: add_input_def Let_def same_core_def handle_ok_def mixer_ok_def split: if_splits sum.splits)

lemma remove_input_core: "remove_input key m = (e, m') \<Longrightarrow> same_core m m'"
  by (auto simp: remove_input_def Let_def same_core_def split: if_splits option.splits)

lemma close_mixer_core: "same_core m (close_mixer m)"
proof -
  have "same_core m (foldl (\<lambda>m (_, a). update_buffer a close_producer m) m xs)"
    for xs :: "(string \<times> nat) list" and m
  proof (induction xs arbitrary: m)
    case (Cons x xs)
    have "same_core m (foldl (\<lambda>m (_, a). update_buffer a close_producer m)
        (update_buffer (snd x) close_producer m) xs)"
      by (rule same_core_trans [OF same_core_update Cons.IH])
    then show ?case by (cases x) simp
  qed simp
  from this [of "m\<lparr>mx_closed := True\<rparr>" "mx_inputs m"] show ?thesis
    by (simp add: close_mixer_def Let_def same_core_def)
qed

lemma input_write_core:
  assumes "mixer_ok m" "handle_ok m i" "waits_ok (mx_frame_size m) waits"
    and "input_write f waits i m = Some (e, i', m')"
  shows "mixer_ok m'" "same_core m m'" "handle_ok m' i'"
proof -
  obtain q' out waits' where run: "write_frame (mx_format m) (mx_frame_size m) f waits i
        (mx_buffers m ! in_addr i) = Some (e, i', q', out, waits')"
    and m': "m' = update_buffer (in_addr i) (\<lambda>_. q') m"
    using assms(4) by (auto simp: input_write_def)
  have "buffer_ok (mx_frame_size m) (mx_buffers m ! in_addr i)" "length (in_pending i) < mx_frame_size m"
    using assms(1,2) by (auto simp: mixer_ok_def handle_ok_def)
  from write_frame_keeps [OF run this(2,1) assms(3)]
  show "mixer_ok m'" "same_core m m'" "handle_ok m' i'"
    using assms(1,2) by (auto simp: m' write_keeps_def handle_ok_def intro: update_buffer_ok)
qed

lemma input_close_core:
  assumes "mixer_ok m" "handle_ok m i" "input_close i m = (i', m')"
  shows "mixer_ok m'" "same_core m m'" "handle_ok m' i'"
proof -
  have "buffer_ok (mx_frame_size m) (mx_buffers m ! in_addr i)"
    using assms(1,2) by (auto simp: mixer_ok_def handle_ok_def)
  then have "mixer_ok (update_buffer (in_addr i) close_producer m)"
    using assms(1) by (intro update_buffer_ok closed_buffer_ok)
  then show "mixer_ok m'" "same_core m m'" "handle_ok m' i'"
    using assms by (auto simp: input_close_def handle_ok_def split: if_splits)
qed

lemma mixer_ok_fields:
  "mixer_ok m \<Longrightarrow> mx_frame_size m' = mx_frame_size m \<Longrightarrow> mx_inputs m' = mx_inputs m
    \<Longrightarrow> mx_buffers m' = mx_buffers m \<Longrightarrow> length (mx_output m') \<le> mx_output_cap m' \<Longrightarrow> mixer_ok m'"
  by (simp add: mixer_ok_def)

lemma system_mixer:
  assumes "system_ok s"
  shows "mixer_ok (sy_mixer s)" "\<forall>i \<in> set (sy_handles s). handle_ok (sy_mixer s) i"
  using assms by (simp_all add: system_ok_def)

text \<open>The run goroutine's steps and the reader's.\<close>

lemma run_returns_ok:
  assumes "mixer_ok m"
  shows "mixer_ok (run_returns m)" "mixer_ok (mixer_fail e m)"
    "same_core m (mixer_fail e m)" "same_core m ((run_returns m)\<lparr>mx_done := mx_done m\<rparr>)"
    "mx_done (run_returns m)"
  using assms
  by (auto simp: run_returns_def mixer_fail_def mixer_ok_def same_core_def split: option.split)

lemma timer_keeps:
  assumes "system_ok s" "sy_run s = AtTimer" "run_wait has_timer fires (sy_mixer s) = Some (due, m)"
  shows "system_ok (s\<lparr>sy_mixer := m, sy_run := (if due then AtMix else AtTimer)\<rparr>)"
proof -
  let ?m = "sy_mixer s"
  have "mixer_ok m" "same_core (?m\<lparr>mx_done := mx_done m\<rparr>) m" "due \<Longrightarrow> m = ?m" "\<not> due \<Longrightarrow> mx_done m"
    using system_mixer(1) [OF assms(1)] assms(3)
    by (auto simp: run_wait_def same_core_def run_returns_ok split: if_splits)
      (auto simp: run_returns_def mixer_fail_def)
  then show ?thesis
    using assms(1,2)
    by (auto simp: system_ok_def same_core_def handed_out_def mixer_rate_def handle_ok_def)
qed

lemma mix_keeps:
  assumes "system_ok s" "\<not> mx_done (sy_mixer s)" "sy_run s = AtMix" "\<forall>k. calm (between k)"
    and "run_mix between (sy_mixer s) = (mixed, m)"
  shows "system_ok (s\<lparr>sy_mixer := m, sy_run := (case mixed of None \<Rightarrow> AtTimer | Some f \<Rightarrow> AtSend f)\<rparr>)"
proof -
  obtain r m1 where mix: "mix_once between (sy_mixer s) = (r, m1)" by fastforce
  note mixed = mix_once_core [OF assms(4) system_mixer(1) [OF assms(1)] mix]
  have handles: "length (mx_buffers (sy_mixer s)) \<le> length (mx_buffers m')
      \<Longrightarrow> mx_frame_size m' = mx_frame_size (sy_mixer s)
      \<Longrightarrow> \<forall>i \<in> set (sy_handles s). handle_ok m' i" for m'
    using system_mixer(2) [OF assms(1)] by (fastforce simp: handle_ok_def)
  show ?thesis
  proof (cases r)
    case (Inl e)
    then have result: "mixed = None"
        "m = run_returns (if e = err_mixer_closed then m1 else mixer_fail (Some e) m1)"
      using assms(5) mix by (auto simp: run_mix_def)
    have "mixer_ok m1" "same_core (sy_mixer s) m1" using mixed Inl by simp_all
    then have "mixer_ok m" "same_core (sy_mixer s) (m\<lparr>mx_done := mx_done m1\<rparr>)" "mx_done m"
      using result by (auto simp: run_returns_ok) (auto simp: run_returns_def mixer_fail_def same_core_def)
    then show ?thesis
      using assms(1,3) result handles [of m]
      by (auto simp: system_ok_def same_core_def handed_out_def mixer_rate_def)
  next
    case (Inr x)
    then have "mixed = Some x" "m = m1" using assms(5) mix by (auto simp: run_mix_def)
    then show ?thesis
      using assms(1,2,3) mixed Inr handles [of m]
      by (auto simp: system_ok_def same_core_def handed_out_def mixer_rate_def timeline_append
          mixed_samples_def)
  qed
qed

lemma send_keeps:
  assumes "system_ok s" "sy_run s = AtSend f" "run_send sends f (sy_mixer s) = Some m"
  shows "system_ok (s\<lparr>sy_mixer := m, sy_run := AtTimer\<rparr>)"
proof (cases sends)
  case True
  then have "m = (sy_mixer s)\<lparr>mx_output := mx_output (sy_mixer s) @ [f]\<rparr>"
    "length (mx_output (sy_mixer s)) < mx_output_cap (sy_mixer s)"
    using assms(3) by (auto simp: run_send_def split: if_splits)
  then show ?thesis
    using assms(1,2) by (simp add: system_ok_def handed_out_def mixer_rate_def mixer_ok_def handle_ok_def)
next
  case False
  then have "m = run_returns (sy_mixer s)" using assms(3) by (auto simp: run_send_def split: if_splits)
  then show ?thesis
    using assms(1,2)
    by (simp add: system_ok_def handed_out_def mixer_rate_def mixer_ok_def handle_ok_def run_returns_def
        timeline_append)
qed

lemma read_mixed_frame_cases:
  "read_mixed_frame ctx receives m = Some (r, m') \<Longrightarrow>
   (\<exists>e. r = Inl e \<and> m' = m) \<or> (\<exists>f rest. r = Inr f \<and> mx_output m = f # rest \<and> m' = m\<lparr>mx_output := rest\<rparr>)"
  by (auto simp: read_mixed_frame_def split: if_splits list.splits option.splits)

lemma read_keeps:
  assumes "system_ok s" "read_mixed_frame ctx receives (sy_mixer s) = Some (r, m)"
  shows "system_ok (s\<lparr>sy_mixer := m, sy_read := sy_read s @ (case r of Inl _ \<Rightarrow> [] | Inr f \<Rightarrow> [f])\<rparr>)"
proof -
  consider (nothing) e where "r = Inl e" "m = sy_mixer s"
    | (frame) f rest where "r = Inr f" "mx_output (sy_mixer s) = f # rest"
        "m = (sy_mixer s)\<lparr>mx_output := rest\<rparr>"
    using read_mixed_frame_cases [OF assms(2)] by blast
  then show ?thesis
  proof cases
    case frame
    then have "mixer_ok m" using system_mixer(1) [OF assms(1)] by (simp add: mixer_ok_def)
    then show ?thesis
      using assms(1) frame by (simp add: system_ok_def handed_out_def mixer_rate_def handle_ok_def)
  qed (use assms(1) in \<open>simp add: system_ok_def handed_out_def\<close>)
qed

lemma step_keeps:
  assumes "mixer_step s s'" "system_ok s"
  shows "system_ok s'"
  using assms
proof (induction rule: mixer_step.induct)
  case (step_add key s i m)
  have ok: "mixer_ok (sy_mixer s)" using step_add.prems by (simp add: system_ok_def)
  note core = add_input_core [OF ok step_add.hyps]
  have "mixer_ok m" using add_input_ok [OF ok, of key] step_add.hyps by simp
  moreover have "\<forall>j \<in> set (sy_handles s). handle_ok m j"
    using step_add.prems by (intro handles_core [OF _ core(1)]) (simp add: system_ok_def)
  then have "\<forall>j \<in> set (sy_handles s @ [i]). handle_ok m j" using core(2) by simp
  ultimately show ?case using system_ok_step [OF step_add.prems _ core(1)] by blast
next
  case (step_remove key s e m)
  have ok: "mixer_ok (sy_mixer s)" using step_remove.prems by (simp add: system_ok_def)
  have "mixer_ok m" using remove_input_ok [OF ok, of key] step_remove.hyps by simp
  then show ?case
    using system_ok_step [OF step_remove.prems _ remove_input_core [OF step_remove.hyps], of "sy_handles s"]
      handles_core [OF _ remove_input_core [OF step_remove.hyps], of "sy_handles s"] step_remove.prems
    by (simp add: system_ok_def)
next
  case (step_write h s waits f e i m)
  have ok: "mixer_ok (sy_mixer s)" "\<forall>i \<in> set (sy_handles s). handle_ok (sy_mixer s) i"
    using step_write.prems by (simp_all add: system_ok_def)
  have "handle_ok (sy_mixer s) (sy_handles s ! h)" using ok(2) step_write.hyps(1) by simp
  note core = input_write_core [OF ok(1) this step_write.hyps(2,3)]
  show ?case
    by (rule system_ok_step [OF step_write.prems core(1,2) handles_update [OF ok(2) core(2,3)]])
next
  case (step_input_close h s i m)
  have ok: "mixer_ok (sy_mixer s)" "\<forall>i \<in> set (sy_handles s). handle_ok (sy_mixer s) i"
    using step_input_close.prems by (simp_all add: system_ok_def)
  have "handle_ok (sy_mixer s) (sy_handles s ! h)" using ok(2) step_input_close.hyps(1) by simp
  note core = input_close_core [OF ok(1) this step_input_close.hyps(2)]
  show ?case
    by (rule system_ok_step [OF step_input_close.prems core(1,2) handles_update [OF ok(2) core(2,3)]])
next
  case (step_timer s has_timer fires due m)
  then show ?case by (simp add: timer_keeps)
next
  case (step_mix s between mixed m)
  then show ?case by (simp add: mix_keeps)
next
  case (step_send s f sends m)
  then show ?case by (simp add: send_keeps)
next
  case (step_read ctx receives s r m)
  then show ?case by (simp add: read_keeps)
next
  case (step_close s)
  have ok: "mixer_ok (sy_mixer s)" using step_close.prems by (simp add: system_ok_def)
  show ?case
    using close_mixer_ok [OF ok] close_mixer_core handles_core [OF _ close_mixer_core, of "sy_handles s"]
      system_ok_step [OF step_close.prems _ close_mixer_core, of "sy_handles s"] step_close.prems
    by (simp add: system_ok_def)
qed

text \<open>
  C10: the mixed stream is one timeline: whatever owners add, remove, write, close and read, and
  whatever they do while a mix is under way, the frames a mixer hands out - those its readers got,
  then those waiting in its output, then the one its run goroutine holds - are in this order mono
  frames of the mixer's stream and rate with consecutive sequence numbers from zero, each starting
  at the sample where the one before ended, none longer than the cadence, and only a frame with a
  single source marking the end of a response. So no frame is lost, repeated or reordered on its way
  to a reader; while the run goroutine lives the mixer's position is the end of that timeline; and
  every buffer, every input and the output stay within their bounds.
\<close>

theorem mixer_timeline:
  assumes "new_mixer True True config = Inr m"
    and "mixer_step\<^sup>*\<^sup>* \<lparr>sy_mixer = m, sy_handles = [], sy_run = AtTimer, sy_read = []\<rparr> s"
  shows "timeline (mx_stream_id (sy_mixer s)) (mixer_rate (sy_mixer s)) (mx_frame_size (sy_mixer s)) 0 0
      (sy_read s @ mx_output (sy_mixer s) @ in_hand (sy_run s))
    \<and> (\<not> mx_done (sy_mixer s) \<longrightarrow> mx_start (sy_mixer s)
          = of_nat (mixed_samples (sy_read s @ mx_output (sy_mixer s) @ in_hand (sy_run s))))
    \<and> length (mx_output (sy_mixer s)) \<le> mx_output_cap (sy_mixer s) \<and> mixer_ok (sy_mixer s)"
proof -
  have "system_ok \<lparr>sy_mixer = m, sy_handles = [], sy_run = AtTimer, sy_read = []\<rparr>"
    using new_mixer_ok [OF assms(1)] by (simp add: system_ok_def handed_out_def mixed_samples_def)
  with assms(2) have "system_ok s"
    by (induction rule: rtranclp_induct) (auto intro: step_keeps)
  then show ?thesis by (simp add: system_ok_def handed_out_def mixer_ok_def)
qed

definition room_config :: mix_config where
  "room_config =
     \<lparr>mc_format = \<lparr>mf_sample_rate = 1000, mf_channels = 1, mf_frame_duration = 2000000\<rparr>,
      mc_stream_id = ''room'', mc_input_queue_frames = 4, mc_output_queue_frames = 4\<rparr>"

lemma room_config_runs:
  "mix_frame_samples (mc_format room_config) = Inr 2" "trim_space ''room'' = ''room''"
  by code_simp+

text \<open>A cadence without inputs: its silence is mixed, handed over and read.\<close>

definition room_mixer :: mixer where
  "room_mixer = bare_mixer\<lparr>mx_stream_id := ''room'', mx_source_limit := max_pcm16_mix_sources\<rparr>"

definition silent_frame :: mixed_frame where
  "silent_frame = \<lparr>xf_frame = zero_frame\<lparr>pf_samples := [0, 0], pf_format := pcm16_device_format 1000,
     pf_stream_id := ''room''\<rparr>, xf_sources = []\<rparr>"

definition mixed_room :: mixer where
  "mixed_room = room_mixer\<lparr>mx_sequence := 1, mx_start := 2\<rparr>"

lemma room_runs:
  "new_mixer True True room_config = Inr room_mixer"
  "mx_output mixed_room = []" "mx_output_cap mixed_room = 4" "mx_done mixed_room = False"
  "mx_done room_mixer = False" "map sint (pf_samples (xf_frame silent_frame)) = [0, 0]"
proof -
  show "new_mixer True True room_config = Inr room_mixer"
    using room_config_runs(1,2)
    by (simp add: new_mixer_def normalize_config_def Let_def room_config_def room_mixer_def bare_mixer_def)
qed (simp_all add: mixed_room_def room_mixer_def bare_mixer_def silent_frame_def)

lemma room_mixes: "run_mix (\<lambda>_ m. m) room_mixer = (Some silent_frame, mixed_room)"
proof -
  have "snapshot_mix_inputs room_mixer = Inr []"
    by (simp add: snapshot_mix_inputs_def room_mixer_def bare_mixer_def validate_pcm16_mix_bounds_def
        max_pcm16_mix_samples_def)
  moreover have "combine_frames (mx_format room_mixer) (mx_frame_size room_mixer) []
      = Inr (zero_frame\<lparr>pf_samples := [0, 0], pf_format := pcm16_device_format 1000\<rparr>)"
  proof -
    have "validate_pcm16_mix_bounds 0 2 = None"
      by (simp add: validate_pcm16_mix_bounds_def max_pcm16_mix_samples_def)
    moreover have "clip_sample 0 = 0" by code_simp
    ultimately have "mix_pcm16_samples [] 2 = Inr [0, 0]"
      by (simp add: mix_pcm16_samples_def numeral_2_eq_2)
    then show ?thesis
      by (simp add: combine_frames_def inspect_mixed_frame_shape_def mixed_frame_length_def Let_def
          room_mixer_def bare_mixer_def zero_frame_def)
  qed
  ultimately show ?thesis
    by (simp add: run_mix_def mix_once_def silent_frame_def mixed_room_def)
      (simp add: room_mixer_def bare_mixer_def zero_frame_def)
qed

lemma calm_id: "calm (\<lambda>m. m)"
  by (simp add: calm_def)

definition read_room :: mixer_system where
  "read_room = \<lparr>sy_mixer = mixed_room, sy_handles = [], sy_run = AtTimer, sy_read = [silent_frame]\<rparr>"

lemma room_is_read:
  "mixer_step\<^sup>*\<^sup>* \<lparr>sy_mixer = room_mixer, sy_handles = [], sy_run = AtTimer, sy_read = []\<rparr> read_room"
proof -
  let ?s0 = "\<lparr>sy_mixer = room_mixer, sy_handles = [], sy_run = AtTimer, sy_read = []\<rparr>"
  let ?s1 = "?s0\<lparr>sy_run := AtMix\<rparr>"
  let ?s2 = "?s0\<lparr>sy_mixer := mixed_room, sy_run := AtSend silent_frame\<rparr>"
  let ?s3 = "?s0\<lparr>sy_mixer := mixed_room\<lparr>mx_output := [silent_frame]\<rparr>\<rparr>"
  have "mixer_step ?s0 ?s1"
    using step_timer [of ?s0 True True True room_mixer] by (simp add: run_wait_def room_runs)
  moreover have "mixer_step ?s1 ?s2"
    using step_mix [of ?s1 "\<lambda>_ m. m"] calm_id by (simp add: room_runs room_mixes)
  moreover have "mixer_step ?s2 ?s3"
    using step_send [of ?s2 silent_frame True] by (simp add: run_send_def room_runs)
  moreover have "mixed_room\<lparr>mx_output := []\<rparr> = mixed_room"
    by (simp add: mixed_room_def room_mixer_def bare_mixer_def)
  then have "mixer_step ?s3 read_room"
    using step_read [of CtxLive True ?s3 "Inr silent_frame" mixed_room]
    by (simp add: read_mixed_frame_def read_room_def)
  ultimately show ?thesis by (meson rtranclp.rtrancl_refl rtranclp.rtrancl_into_rtrancl)
qed

theorem mixer_timeline_witness:
  "timeline (mx_stream_id mixed_room) (mixer_rate mixed_room) (mx_frame_size mixed_room) 0 0 [silent_frame]
    \<and> mx_start mixed_room = of_nat (mixed_samples [silent_frame])
    \<and> map sint (pf_samples (xf_frame silent_frame)) = [0, 0]"
  using mixer_timeline [OF room_runs(1) room_is_read] by (simp add: read_room_def room_runs)

end
