(* ===== verification/Int64.thy ===== *)
theory Int64
  imports Pcm_Timing
begin

text \<open>
  Signed reading of the 64 bit integers: sums and differences that fit are the mathematical ones.
\<close>

lemma sint_range: "- (2 ^ 63) \<le> sint a" "sint a < 2 ^ 63" for a :: go_int
  using sint_greater_eq [of a] sint_less [of a] by simp_all

lemma sint_in_range:
  "- (2 ^ 63) \<le> k \<Longrightarrow> k < 2 ^ 63 \<Longrightarrow> signed_take_bit 63 k = (k :: int)"
  by (simp add: signed_take_bit_int_eq_self)

lemma sint_add_fits:
  "- (2 ^ 63) \<le> sint a + sint b \<Longrightarrow> sint a + sint b < 2 ^ 63 \<Longrightarrow> sint (a + b) = sint a + sint b"
  for a b :: go_int
  by (simp add: sint_word_ariths sint_in_range)

lemma sint_diff_fits:
  "- (2 ^ 63) \<le> sint a - sint b \<Longrightarrow> sint a - sint b < 2 ^ 63 \<Longrightarrow> sint (a - b) = sint a - sint b"
  for a b :: go_int
  by (simp add: sint_word_ariths sint_in_range)

lemma sint_mult_fits:
  "- (2 ^ 63) \<le> sint a * sint b \<Longrightarrow> sint a * sint b < 2 ^ 63 \<Longrightarrow> sint (a * b) = sint a * sint b"
  for a b :: go_int
  by (simp add: sint_word_ariths sint_in_range)

lemma sint_max_int64 [simp]: "sint max_int64 = 2 ^ 63 - 1"
  by (simp add: max_int64_def)

lemma nonneg_div_le: "0 \<le> (x :: int) \<Longrightarrow> 0 < y \<Longrightarrow> x div y \<le> x"
  using zdiv_mono2 [of x 1 y] by simp

lemma sint_div_nonneg:
  fixes a b :: go_int
  assumes "0 \<le> sint a" "0 < sint b"
  shows "sint (a div b) = sint a div sint b" "sint (a mod b) = sint a mod sint b"
proof -
  have a: "uint a = sint a" "uint a < 2 ^ 63" using signed_nonneg [of a] assms(1) by simp_all
  have b: "uint b = sint b" using signed_nonneg [of b] assms(2) by simp
  have "uint (a div b) = sint a div sint b" "uint (a mod b) = sint a mod sint b"
    using a b by (simp_all add: uint_div uint_mod)
  moreover have "0 \<le> sint a div sint b" "sint a div sint b \<le> sint a"
    using assms by (simp_all add: pos_imp_zdiv_nonneg_iff nonneg_div_le)
  moreover have "0 \<le> sint a mod sint b" "sint a mod sint b \<le> sint a"
    using assms by (simp_all add: zmod_le_nonneg_dividend)
  ultimately show "sint (a div b) = sint a div sint b" "sint (a mod b) = sint a mod sint b"
    using a sint_of_uint [of "a div b"] sint_of_uint [of "a mod b"] by simp_all
qed

end
