(* ===== verification/Timer_Heap.thy ===== *)
theory Timer_Heap
  imports Int64 "HOL-Library.Product_Lexorder" "HOL-Library.Multiset"
begin

text \<open>
  The binary heap of pending timers, \<^verbatim>\<open>go-audio/pkg/clock/timer_heap.go\<close>: an array of timers
  ordered by deadline and then by creation, in which every timer knows its place. Timers are shared
  by pointer, so they live in a store and the array holds their addresses.
\<close>

section \<open>Array heaps of any linear order\<close>

text \<open>
  A heap is seen as the keys of its places. A place may be a hole: the order may fail above it
  (\<^verbatim>\<open>up_hole\<close>), below it (\<^verbatim>\<open>down_hole\<close>) or on both sides (\<^verbatim>\<open>open_hole\<close>), and nowhere else.
\<close>

definition heap_parent :: "nat \<Rightarrow> nat" where
  "heap_parent i = (i - 1) div 2"

definition key_heap :: "(nat \<Rightarrow> 'k::linorder) \<Rightarrow> nat \<Rightarrow> bool" where
  "key_heap f n \<longleftrightarrow> (\<forall>i<n. 0 < i \<longrightarrow> f (heap_parent i) \<le> f i)"

definition spans :: "(nat \<Rightarrow> 'k::linorder) \<Rightarrow> nat \<Rightarrow> nat \<Rightarrow> bool" where
  "spans f n c \<longleftrightarrow> (\<forall>i<n. 0 < i \<longrightarrow> heap_parent i = c \<longrightarrow> 0 < c \<longrightarrow> f (heap_parent c) \<le> f i)"

definition up_hole :: "(nat \<Rightarrow> 'k::linorder) \<Rightarrow> nat \<Rightarrow> nat \<Rightarrow> bool" where
  "up_hole f n c \<longleftrightarrow> (\<forall>i<n. 0 < i \<longrightarrow> i \<noteq> c \<longrightarrow> f (heap_parent i) \<le> f i) \<and> spans f n c"

definition down_hole :: "(nat \<Rightarrow> 'k::linorder) \<Rightarrow> nat \<Rightarrow> nat \<Rightarrow> bool" where
  "down_hole f n c \<longleftrightarrow>
     (\<forall>i<n. 0 < i \<longrightarrow> heap_parent i \<noteq> c \<longrightarrow> f (heap_parent i) \<le> f i) \<and> spans f n c"

definition open_hole :: "(nat \<Rightarrow> 'k::linorder) \<Rightarrow> nat \<Rightarrow> nat \<Rightarrow> bool" where
  "open_hole f n c \<longleftrightarrow>
     (\<forall>i<n. 0 < i \<longrightarrow> i \<noteq> c \<longrightarrow> heap_parent i \<noteq> c \<longrightarrow> f (heap_parent i) \<le> f i) \<and> spans f n c"

definition swap_keys :: "nat \<Rightarrow> nat \<Rightarrow> (nat \<Rightarrow> 'k) \<Rightarrow> nat \<Rightarrow> 'k" where
  "swap_keys i j f = f(i := f j, j := f i)"

lemma heap_parent_less: "0 < i \<Longrightarrow> heap_parent i < i"
  unfolding heap_parent_def by (simp add: div_less_dividend less_diff_conv2)

lemma parent_is: "0 < i \<Longrightarrow> (heap_parent i = c) = (i = 2 * c + 1 \<or> i = 2 * c + 2)"
  unfolding heap_parent_def by presburger

lemma heap_parent_child [simp]: "heap_parent (2 * c + 1) = c" "heap_parent (2 * c + 2) = c"
    "heap_parent (Suc (2 * c)) = c" "heap_parent (Suc (Suc (2 * c))) = c"
  by (simp_all add: heap_parent_def)

lemma key_heap_first:
  assumes "key_heap f n" "i < n"
  shows "f 0 \<le> f i"
  using assms(2)
proof (induction i rule: less_induct)
  case (less i)
  show ?case
  proof (cases "i = 0")
    case False
    then have "f 0 \<le> f (heap_parent i)"
      using less.IH [of "heap_parent i"] less.prems heap_parent_less [of i] by simp
    also have "\<dots> \<le> f i" using False less.prems assms(1) by (simp add: key_heap_def)
    finally show ?thesis .
  qed simp
qed

lemma key_heap_cong: "(\<And>i. i < n \<Longrightarrow> f i = g i) \<Longrightarrow> key_heap f n = key_heap g n"
  using heap_parent_less by (auto simp: key_heap_def) (metis order.strict_trans)+

lemma up_hole_done: "up_hole f n c \<Longrightarrow> c = 0 \<or> \<not> f c < f (heap_parent c) \<Longrightarrow> key_heap f n"
  unfolding up_hole_def key_heap_def by (metis linorder_not_less less_irrefl)

lemma up_hole_swap:
  assumes hole: "up_hole f n c" and c: "0 < c" "c < n" and less: "f c < f (heap_parent c)"
  shows "up_hole (swap_keys (heap_parent c) c f) n (heap_parent c)"
proof -
  let ?p = "heap_parent c" and ?g = "swap_keys (heap_parent c) c f"
  have p: "?p < c" using c(1) by (rule heap_parent_less)
  have other: "f (heap_parent i) \<le> f i" if "i < n" "0 < i" "i \<noteq> c" for i
    using hole that by (simp add: up_hole_def)
  have below: "f ?p \<le> f i" if "i < n" "0 < i" "heap_parent i = c" for i
    using hole that c unfolding up_hole_def spans_def by blast
  have order: "?g (heap_parent i) \<le> ?g i" if i: "i < n" "0 < i" "i \<noteq> ?p" for i
  proof -
    consider "i = c" | "i \<noteq> c" "heap_parent i = c" | "i \<noteq> c" "heap_parent i = ?p"
      | "i \<noteq> c" "heap_parent i \<noteq> c" "heap_parent i \<noteq> ?p" by blast
    then show ?thesis
    proof cases
      case 1 then show ?thesis using p less by (simp add: swap_keys_def)
    next
      case 2 then show ?thesis using p below i by (simp add: swap_keys_def)
    next
      case 3 then show ?thesis using p less other [of i] i by (simp add: swap_keys_def)
    next
      case 4 then show ?thesis using other [of i] i by (simp add: swap_keys_def)
    qed
  qed
  have "?g (heap_parent ?p) \<le> ?g i" if i: "i < n" "0 < i" "heap_parent i = ?p" and pos: "0 < ?p" for i
  proof -
    have up: "f (heap_parent ?p) \<le> f ?p" using other [of ?p] pos p c by simp
    have pp: "heap_parent ?p < ?p" using pos by (rule heap_parent_less)
    show ?thesis
    proof (cases "i = c")
      case True then show ?thesis using up pp p by (simp add: swap_keys_def)
    next
      case False
      then have "f ?p \<le> f i" using other [of i] i by simp
      then show ?thesis using False up pp p i heap_parent_less [of i] by (auto simp: swap_keys_def)
    qed
  qed
  then show ?thesis using order by (auto simp: up_hole_def spans_def)
qed

lemma down_hole_done:
  assumes "down_hole f n c" "\<And>i. i < n \<Longrightarrow> 0 < i \<Longrightarrow> heap_parent i = c \<Longrightarrow> f c \<le> f i"
  shows "key_heap f n"
  using assms unfolding down_hole_def key_heap_def by metis

lemma open_hole_rests:
  assumes "open_hole f n c" "\<And>i. i < n \<Longrightarrow> 0 < i \<Longrightarrow> heap_parent i = c \<Longrightarrow> f c \<le> f i"
  shows "up_hole f n c"
  using assms unfolding open_hole_def up_hole_def by metis

lemma down_hole_open: "down_hole f n c \<Longrightarrow> open_hole f n c"
  by (simp add: down_hole_def open_hole_def)

lemma open_hole_swap:
  assumes hole: "open_hole f n c" and s: "heap_parent s = c" "0 < s" "s < n"
    and less: "f s < f c"
    and least: "\<And>i. i < n \<Longrightarrow> 0 < i \<Longrightarrow> heap_parent i = c \<Longrightarrow> f s \<le> f i"
  shows "down_hole (swap_keys c s f) n s"
proof -
  let ?g = "swap_keys c s f"
  have c: "c < s" using s heap_parent_less [of s] by simp
  have other: "f (heap_parent i) \<le> f i" if "i < n" "0 < i" "i \<noteq> c" "heap_parent i \<noteq> c" for i
    using hole that by (simp add: open_hole_def)
  have above: "f (heap_parent c) \<le> f s" if "0 < c"
    using hole that s unfolding open_hole_def spans_def by blast
  have order: "?g (heap_parent i) \<le> ?g i" if i: "i < n" "0 < i" "heap_parent i \<noteq> s" for i
  proof -
    consider "i = s" | "i \<noteq> s" "heap_parent i = c" | "i = c"
      | "i \<noteq> s" "heap_parent i \<noteq> c" "i \<noteq> c" by blast
    then show ?thesis
    proof cases
      case 1 then show ?thesis using c less s by (simp add: swap_keys_def)
    next
      case 2 then show ?thesis using c least i heap_parent_less [of i] by (auto simp: swap_keys_def)
    next
      case 3
      then have "0 < c" "heap_parent c < c" using i heap_parent_less by simp_all
      then show ?thesis using 3 c above by (simp add: swap_keys_def)
    next
      case 4 then show ?thesis using other [of i] i by (simp add: swap_keys_def)
    qed
  qed
  have "?g (heap_parent s) \<le> ?g i" if i: "i < n" "0 < i" "heap_parent i = s" for i
  proof -
    have "s < i" using i heap_parent_less [of i] by simp
    then show ?thesis using other [of i] i s c by (simp add: swap_keys_def)
  qed
  then show ?thesis using order by (auto simp: down_hole_def spans_def)
qed

section \<open>The heap of timers\<close>

text \<open>
  A timer: its deadline in the elapsed time of its clock, the number of its creation, what its
  channel of one place holds, whether it is active, and its place in the heap (-1: none).
\<close>

record det_timer =
  tm_deadline :: go_int
  tm_sequence :: nat
  tm_channel :: "int option"
  tm_active :: bool
  tm_index :: int

record timer_heap =
  th_timers :: "det_timer list"
  th_heap :: "nat list"

definition heap_timer :: "timer_heap \<Rightarrow> nat \<Rightarrow> det_timer" where
  "heap_timer h i = th_timers h ! (th_heap h ! i)"

definition set_index :: "nat \<Rightarrow> int \<Rightarrow> det_timer list \<Rightarrow> det_timer list" where
  "set_index a k ts = ts [a := (ts ! a)\<lparr>tm_index := k\<rparr>]"

definition heap_less :: "timer_heap \<Rightarrow> nat \<Rightarrow> nat \<Rightarrow> bool" where
  "heap_less h i j =
     (let a = heap_timer h i; b = heap_timer h j in
      if tm_deadline a \<noteq> tm_deadline b then sint (tm_deadline a) < sint (tm_deadline b)
      else tm_sequence a < tm_sequence b)"

definition heap_swap :: "nat \<Rightarrow> nat \<Rightarrow> timer_heap \<Rightarrow> timer_heap" where
  "heap_swap i j h =
     (let xs = (th_heap h) [i := th_heap h ! j, j := th_heap h ! i]
      in h\<lparr>th_heap := xs,
           th_timers := set_index (xs ! j) (int j) (set_index (xs ! i) (int i) (th_timers h))\<rparr>)"

function heap_up :: "nat \<Rightarrow> timer_heap \<Rightarrow> timer_heap" where
  "heap_up child h =
     (if child = 0 then h
      else let parent = heap_parent child in
           if \<not> heap_less h child parent then h
           else heap_up parent (heap_swap parent child h))"
  by pat_completeness auto
termination
  by (relation "measure fst") (simp_all add: heap_parent_less)

function heap_sink :: "nat \<Rightarrow> nat \<Rightarrow> timer_heap \<Rightarrow> nat \<times> timer_heap" where
  "heap_sink current n h =
     (let left = 2 * current + 1 in
      if left \<ge> n then (current, h)
      else let right = left + 1;
               smallest = (if right < n \<and> heap_less h right left then right else left)
           in if \<not> heap_less h smallest current then (current, h)
              else heap_sink smallest n (heap_swap current smallest h))"
  by pat_completeness auto
termination
  by (relation "measure (\<lambda>(c, n, h). n - c)") (auto split: if_splits)

declare heap_up.simps [simp del] heap_sink.simps [simp del]

definition heap_down :: "nat \<Rightarrow> nat \<Rightarrow> timer_heap \<Rightarrow> bool \<times> timer_heap" where
  "heap_down start n h = (case heap_sink start n h of (current, h') \<Rightarrow> (current > start, h'))"

definition heap_push :: "det_timer \<Rightarrow> timer_heap \<Rightarrow> timer_heap" where
  "heap_push t h =
     (let i = length (th_heap h)
      in heap_up i (h\<lparr>th_timers := th_timers h @ [t\<lparr>tm_index := int i\<rparr>],
           th_heap := th_heap h @ [length (th_timers h)]\<rparr>))"

definition heap_remove :: "nat \<Rightarrow> timer_heap \<Rightarrow> timer_heap" where
  "heap_remove i h =
     (let last = length (th_heap h) - 1;
          h = (if i \<noteq> last
               then (case heap_down i last (heap_swap i last h) of
                       (moved, h) \<Rightarrow> if \<not> moved then heap_up i h else h)
               else h)
      in h\<lparr>th_timers := set_index (th_heap h ! last) (- 1) (th_timers h),
           th_heap := take last (th_heap h)\<rparr>)"

section \<open>What every heap operation preserves\<close>

text \<open>
  The key of a timer, and the shape of a heap: its places hold different timers of the store, each
  of which knows its place.
\<close>

definition timer_key :: "det_timer list \<Rightarrow> nat \<Rightarrow> int \<times> nat" where
  "timer_key ts a = (sint (tm_deadline (ts ! a)), tm_sequence (ts ! a))"

definition place_key :: "timer_heap \<Rightarrow> nat \<Rightarrow> int \<times> nat" where
  "place_key h i = timer_key (th_timers h) (th_heap h ! i)"

definition placed :: "timer_heap \<Rightarrow> bool" where
  "placed h \<longleftrightarrow> distinct (th_heap h) \<and> set (th_heap h) \<subseteq> {..<length (th_timers h)} \<and>
     (\<forall>i<length (th_heap h). tm_index (heap_timer h i) = int i)"

definition unindexed :: "det_timer \<Rightarrow> det_timer" where
  "unindexed t = t\<lparr>tm_index := 0\<rparr>"

text \<open>Two heaps of the same timers, of which only the places differ.\<close>

definition same_timers :: "timer_heap \<Rightarrow> timer_heap \<Rightarrow> bool" where
  "same_timers h h' \<longleftrightarrow> map unindexed (th_timers h') = map unindexed (th_timers h) \<and>
     mset (th_heap h') = mset (th_heap h) \<and>
     (\<forall>a. a \<notin> set (th_heap h) \<longrightarrow> th_timers h' ! a = th_timers h ! a)"

lemma same_timers_refl [simp]: "same_timers h h"
  by (simp add: same_timers_def)

lemma same_timers_set: "same_timers h h' \<Longrightarrow> set (th_heap h') = set (th_heap h)"
  by (metis same_timers_def set_mset_mset)

lemma same_timers_length: "same_timers h h' \<Longrightarrow> length (th_heap h') = length (th_heap h)"
    "same_timers h h' \<Longrightarrow> length (th_timers h') = length (th_timers h)"
  by (auto simp: same_timers_def dest: mset_eq_length map_eq_imp_length_eq)

lemma same_timers_trans: "same_timers h h' \<Longrightarrow> same_timers h' h'' \<Longrightarrow> same_timers h h''"
  using same_timers_set [of h h'] by (auto simp: same_timers_def)

lemma same_timer_unindexed:
  "same_timers h h' \<Longrightarrow> a < length (th_timers h) \<Longrightarrow>
   unindexed (th_timers h' ! a) = unindexed (th_timers h ! a)"
  by (metis nth_map same_timers_def same_timers_length(2))

lemma unindexed_fields:
  assumes "unindexed t = unindexed u"
  shows "tm_deadline t = tm_deadline u" "tm_sequence t = tm_sequence u"
    "tm_channel t = tm_channel u" "tm_active t = tm_active u"
  using assms by (cases t; cases u; simp add: unindexed_def)+

lemma set_index_nth:
  "a < length ts \<Longrightarrow> set_index a k ts ! b = (if a = b then (ts ! a)\<lparr>tm_index := k\<rparr> else ts ! b)"
  by (simp add: set_index_def nth_list_update)

lemma set_index_other: "b \<noteq> a \<Longrightarrow> set_index a k ts ! b = ts ! b"
  by (simp add: set_index_def)

lemma length_set_index [simp]: "length (set_index a k ts) = length ts"
  by (simp add: set_index_def)

lemma set_index_key [simp]: "timer_key (set_index a k ts) b = timer_key ts b"
  by (cases "a < length ts") (auto simp: timer_key_def set_index_def nth_list_update list_update_beyond)

lemma set_index_unindexed [simp]: "map unindexed (set_index a k ts) = map unindexed ts"
  by (rule nth_equalityI; cases "a < length ts")
    (auto simp: set_index_def nth_list_update unindexed_def)

lemma heap_less_key: "heap_less h i j = (place_key h i < place_key h j)"
  by (auto simp: heap_less_def place_key_def timer_key_def heap_timer_def Let_def
      word_eq_iff_sint
      order.strict_iff_order)

lemma swapped_nth:
  "i < length xs \<Longrightarrow> j < length xs \<Longrightarrow>
   xs [i := xs ! j, j := xs ! i] ! k = (if k = j then xs ! i else if k = i then xs ! j else xs ! k)"
  by (simp add: nth_list_update)

lemma heap_swap_heap:
  "th_heap (heap_swap i j h) = (th_heap h) [i := th_heap h ! j, j := th_heap h ! i]"
  by (simp add: heap_swap_def Let_def)

lemma heap_swap_length [simp]: "length (th_heap (heap_swap i j h)) = length (th_heap h)"
  by (simp add: heap_swap_heap)

lemma heap_swap_keys:
  "i < length (th_heap h) \<Longrightarrow> j < length (th_heap h) \<Longrightarrow>
   place_key (heap_swap i j h) = swap_keys i j (place_key h)"
  by (rule ext) (simp add: place_key_def heap_swap_def Let_def swap_keys_def nth_list_update)

lemma heap_swap_same:
  assumes "i < length (th_heap h)" "j < length (th_heap h)"
  shows "same_timers h (heap_swap i j h)"
proof -
  have "mset (th_heap (heap_swap i j h)) = mset (th_heap h)"
    using assms mset_swap [of j "th_heap h" i] by (simp add: heap_swap_heap)
  then show ?thesis
    using assms nth_mem [OF assms(1)] nth_mem [OF assms(2)]
    by (auto simp: same_timers_def heap_swap_def Let_def swapped_nth intro!: set_index_other [THEN trans])
qed

lemma placed_nth: "placed h \<Longrightarrow> i < length (th_heap h) \<Longrightarrow> th_heap h ! i < length (th_timers h)"
  by (auto simp: placed_def dest: nth_mem)

lemma heap_swap_placed:
  assumes placed: "placed h" and i: "i < length (th_heap h)" and j: "j < length (th_heap h)" and "i \<noteq> j"
  shows "placed (heap_swap i j h)"
proof -
  let ?xs = "th_heap h"
  let ?ys = "?xs [i := ?xs ! j, j := ?xs ! i]"
  have same: "same_timers h (heap_swap i j h)" using i j by (rule heap_swap_same)
  have dist: "distinct ?ys" using placed i j by (simp add: placed_def)
  have in_store: "\<And>k. k < length ?xs \<Longrightarrow> ?ys ! k < length (th_timers h)"
    using placed_nth [OF placed] i j by (simp add: swapped_nth)
  have "tm_index (heap_timer (heap_swap i j h) k) = int k" if k: "k < length ?xs" for k
  proof -
    have old: "tm_index (th_timers h ! (?xs ! k)) = int k"
      using placed k by (simp add: placed_def heap_timer_def)
    have inj: "\<And>l. l < length ?xs \<Longrightarrow> (?ys ! k = ?ys ! l) = (k = l)"
      using dist k by (simp add: nth_eq_iff_index_eq)
    let ?ts = "set_index (?ys ! j) (int j) (set_index (?ys ! i) (int i) (th_timers h))"
    have swap: "heap_timer (heap_swap i j h) k = ?ts ! (?ys ! k)"
      by (simp add: heap_timer_def heap_swap_def Let_def)
    have "?ys ! j \<noteq> ?ys ! i" using inj [OF i] inj [OF j] \<open>i \<noteq> j\<close> dist i j
      by (simp add: nth_eq_iff_index_eq)
    then have two: "tm_index (?ts ! a) = (if a = ?ys ! j then int j else if a = ?ys ! i then int i
        else tm_index (th_timers h ! a))" for a
      using in_store [OF i] in_store [OF j] by (simp add: set_index_nth)
    have rest: "?ys ! k = ?xs ! k" if "k \<noteq> i" "k \<noteq> j" using that by simp
    show ?thesis
      unfolding swap two inj [OF i] inj [OF j] using rest old by (simp split: if_split)
  qed
  then show ?thesis
    using same_timers_set [OF same] same_timers_length [OF same] placed dist
    by (simp add: placed_def heap_swap_heap)
qed

section \<open>The heap order\<close>

definition heap_ok :: "timer_heap \<Rightarrow> bool" where
  "heap_ok h \<longleftrightarrow> placed h \<and> key_heap (place_key h) (length (th_heap h)) \<and>
     (\<forall>a<length (th_timers h). a \<notin> set (th_heap h) \<longrightarrow> tm_index (th_timers h ! a) = - 1)"

text \<open>A heap operation that only moves timers about.\<close>

definition rearranged :: "timer_heap \<Rightarrow> timer_heap \<Rightarrow> bool" where
  "rearranged h h' \<longleftrightarrow> placed h' \<and> same_timers h h'"

lemma rearranged_swap:
  "placed h \<Longrightarrow> i < length (th_heap h) \<Longrightarrow> j < length (th_heap h) \<Longrightarrow> i \<noteq> j \<Longrightarrow>
   rearranged h (heap_swap i j h)"
  by (simp add: rearranged_def heap_swap_placed heap_swap_same)

lemma rearranged_trans: "rearranged h h' \<Longrightarrow> rearranged h' h'' \<Longrightarrow> rearranged h h''"
  using same_timers_trans by (auto simp: rearranged_def)

lemma rearranged_length: "rearranged h h' \<Longrightarrow> length (th_heap h') = length (th_heap h)"
  by (simp add: rearranged_def same_timers_length)

lemma heap_up_ok:
  "placed h \<Longrightarrow> m \<le> length (th_heap h) \<Longrightarrow> c < m \<Longrightarrow> up_hole (place_key h) m c \<Longrightarrow>
   rearranged h (heap_up c h) \<and> key_heap (place_key (heap_up c h)) m \<and>
   (\<forall>i\<ge>m. th_heap (heap_up c h) ! i = th_heap h ! i)"
proof (induction c h rule: heap_up.induct)
  case (1 c h)
  show ?case
  proof (cases "c = 0 \<or> \<not> heap_less h c (heap_parent c)")
    case True
    then have stay: "heap_up c h = h" by (auto simp: heap_up.simps [of c] Let_def)
    have "key_heap (place_key h) m"
      using True "1.prems"(4) by (intro up_hole_done) (simp_all only: heap_less_key)
    then show ?thesis unfolding stay using "1.prems"(1) by (simp add: rearranged_def)
  next
    case False
    let ?p = "heap_parent c"
    let ?h = "heap_swap ?p c h"
    have p: "?p < c" using False by (simp add: heap_parent_less)
    have up: "heap_up c h = heap_up ?p ?h" using False by (simp add: heap_up.simps [of c] Let_def)
    have re: "rearranged h ?h" using "1.prems" p by (intro rearranged_swap) simp_all
    have keys: "place_key ?h = swap_keys ?p c (place_key h)" using "1.prems" p by (intro heap_swap_keys) simp_all
    have "up_hole (place_key ?h) m ?p"
      unfolding keys using "1.prems" False p by (intro up_hole_swap) (simp_all add: heap_less_key)
    then have "rearranged ?h (heap_up ?p ?h) \<and> key_heap (place_key (heap_up ?p ?h)) m \<and>
        (\<forall>i\<ge>m. th_heap (heap_up ?p ?h) ! i = th_heap ?h ! i)"
      using "1.prems" False re p by (intro "1.IH") (simp_all add: rearranged_def same_timers_length)
    moreover have "th_heap ?h ! i = th_heap h ! i" if "i \<ge> m" for i
      using that "1.prems" p by (simp add: heap_swap_heap)
    ultimately show ?thesis unfolding up using re rearranged_trans by auto
  qed
qed

lemma heap_sink_step:
  assumes "placed h" "m \<le> length (th_heap h)" "c < m" "open_hole (place_key h) m c"
  obtains (rest) "heap_sink c m h = (c, h)" "up_hole (place_key h) m c"
      "\<And>i. i < m \<Longrightarrow> 0 < i \<Longrightarrow> heap_parent i = c \<Longrightarrow> place_key h c \<le> place_key h i"
    | (sink) s where "c < s" "s < m" "heap_sink c m h = heap_sink s m (heap_swap c s h)"
      "down_hole (place_key (heap_swap c s h)) m s"
proof -
  let ?k = "place_key h"
  let ?left = "2 * c + 1"
  let ?s = "if Suc ?left < m \<and> heap_less h (Suc ?left) ?left then Suc ?left else ?left"
  have least: "?k ?s \<le> ?k i" if "i < m" "0 < i" "heap_parent i = c" for i
    using that parent_is [of i c] by (auto simp: heap_less_key)
  show thesis
  proof (cases "?left \<ge> m \<or> \<not> heap_less h ?s c")
    case True
    have below: "?k c \<le> ?k i" if i: "i < m" "0 < i" "heap_parent i = c" for i
    proof -
      have "\<not> ?left \<ge> m" using i parent_is [of i c] by auto
      then have "?k c \<le> ?k ?s" using True by (auto simp: heap_less_key)
      then show ?thesis using least [OF i] by simp
    qed
    moreover have "heap_sink c m h = (c, h)" using True by (auto simp: heap_sink.simps [of c] Let_def)
    ultimately show thesis using rest open_hole_rests [OF assms(4)] by metis
  next
    case False
    have s: "heap_parent ?s = c" "0 < ?s" "?s < m" "c < ?s" using False by simp_all
    have "heap_sink c m h = heap_sink ?s m (heap_swap c ?s h)"
      using False by (auto simp: heap_sink.simps [of c] Let_def split: if_splits)
    moreover have "place_key (heap_swap c ?s h) = swap_keys c ?s ?k"
      using assms s by (intro heap_swap_keys) simp_all
    moreover have "down_hole (swap_keys c ?s ?k) m ?s"
      using assms(4) s False least by (intro open_hole_swap) (simp_all add: heap_less_key)
    ultimately show thesis using sink [of ?s] s by simp
  qed
qed

lemma heap_sink_ok:
  "placed h \<Longrightarrow> m \<le> length (th_heap h) \<Longrightarrow> c < m \<Longrightarrow> open_hole (place_key h) m c \<Longrightarrow>
   heap_sink c m h = (c', h') \<Longrightarrow>
   rearranged h h' \<and> c \<le> c' \<and> (\<forall>i\<ge>m. th_heap h' ! i = th_heap h ! i) \<and>
   (if c' = c then h' = h \<and> up_hole (place_key h) m c else key_heap (place_key h') m) \<and>
   (down_hole (place_key h) m c \<longrightarrow> key_heap (place_key h') m)"
proof (induction "m - c" arbitrary: c h rule: less_induct)
  case less
  from less.prems(1-4) show ?case
  proof (cases rule: heap_sink_step)
    case rest
    then have "c' = c" "h' = h" using less.prems(5) by simp_all
    then show ?thesis using rest(2) down_hole_done [of "place_key h" m c] rest(3) less.prems(1)
      by (auto simp: rearranged_def)
  next
    case (sink s)
    let ?h = "heap_swap c s h"
    have re: "rearranged h ?h" using less.prems sink by (intro rearranged_swap) simp_all
    have "heap_sink s m ?h = (c', h')" using sink less.prems(5) by simp
    moreover have "placed ?h" using re by (simp add: rearranged_def)
    moreover have "m \<le> length (th_heap ?h)" using less.prems by simp
    ultimately have IH: "rearranged ?h h'" "s \<le> c'" "\<forall>i\<ge>m. th_heap h' ! i = th_heap ?h ! i"
        "key_heap (place_key h') m"
      using less.hyps [of s ?h] sink down_hole_open [OF sink(4)] less.prems
      by (auto simp del: heap_swap_length)
    moreover have "th_heap ?h ! i = th_heap h ! i" if "i \<ge> m" for i
      using that less.prems sink by (simp add: heap_swap_heap)
    ultimately show ?thesis using re rearranged_trans sink(1) by auto
  qed
qed

lemma rearranged_idle:
  assumes "rearranged h h'" "\<forall>a<length (th_timers h). a \<notin> set (th_heap h) \<longrightarrow> tm_index (th_timers h ! a) = - 1"
  shows "\<forall>a<length (th_timers h'). a \<notin> set (th_heap h') \<longrightarrow> tm_index (th_timers h' ! a) = - 1"
  using assms same_timers_set [of h h'] same_timers_length [of h h']
  by (auto simp: rearranged_def) (simp add: same_timers_def)

lemma heap_push_ok:
  assumes ok: "heap_ok h"
  shows "heap_ok (heap_push t h)"
    "set (th_heap (heap_push t h)) = insert (length (th_timers h)) (set (th_heap h))"
    "length (th_heap (heap_push t h)) = Suc (length (th_heap h))"
    "map unindexed (th_timers (heap_push t h)) = map unindexed (th_timers h) @ [unindexed t]"
proof -
  let ?n = "length (th_heap h)"
  let ?t = "t\<lparr>tm_index := int ?n\<rparr>"
  let ?h = "h\<lparr>th_timers := th_timers h @ [?t], th_heap := th_heap h @ [length (th_timers h)]\<rparr>"
  have push: "heap_push t h = heap_up ?n ?h" by (simp add: heap_push_def Let_def)
  have placed: "placed ?h"
    using ok unfolding heap_ok_def placed_def heap_timer_def
    by (auto simp: nth_append less_Suc_eq dest: nth_mem)
  have key: "place_key ?h i = place_key h i" if "i < ?n" for i
    using that ok by (auto simp: place_key_def timer_key_def nth_append heap_ok_def placed_def dest: nth_mem)
  have "up_hole (place_key ?h) (Suc ?n) ?n"
    unfolding up_hole_def spans_def
  proof (intro conjI allI impI)
    fix i assume "i < Suc ?n" "0 < i" "i \<noteq> ?n"
    then show "place_key ?h (heap_parent i) \<le> place_key ?h i"
      using ok heap_parent_less [of i] by (simp add: key heap_ok_def key_heap_def)
  next
    fix i assume "i < Suc ?n" "0 < i" "heap_parent i = ?n" "0 < ?n"
    then show "place_key ?h (heap_parent ?n) \<le> place_key ?h i" using heap_parent_less [of i] by simp
  qed
  then have up: "rearranged ?h (heap_up ?n ?h) \<and> key_heap (place_key (heap_up ?n ?h)) (Suc ?n)"
    using heap_up_ok [OF placed, of "Suc ?n" ?n] by simp
  then have same: "same_timers ?h (heap_push t h)" by (simp add: push rearranged_def)
  have idle: "\<forall>a<length (th_timers ?h). a \<notin> set (th_heap ?h) \<longrightarrow> tm_index (th_timers ?h ! a) = - 1"
    using ok by (auto simp: heap_ok_def nth_append less_Suc_eq)
  then show "heap_ok (heap_push t h)"
    using up rearranged_idle [of ?h "heap_push t h"] rearranged_length [of ?h "heap_push t h"]
    by (simp add: heap_ok_def push rearranged_def)
  show "set (th_heap (heap_push t h)) = insert (length (th_timers h)) (set (th_heap h))"
    using same_timers_set [OF same] by simp
  show "length (th_heap (heap_push t h)) = Suc (length (th_heap h))"
    using same_timers_length [OF same] by simp
  show "map unindexed (th_timers (heap_push t h)) = map unindexed (th_timers h) @ [unindexed t]"
    using same by (simp add: same_timers_def unindexed_def)
qed

text \<open>Removing a place: the others stay a heap, and the removed timer has no place.\<close>

definition drop_last :: "timer_heap \<Rightarrow> timer_heap" where
  "drop_last h =
     (let last = length (th_heap h) - 1
      in h\<lparr>th_timers := set_index (th_heap h ! last) (- 1) (th_timers h),
           th_heap := take last (th_heap h)\<rparr>)"

definition removing :: "nat \<Rightarrow> timer_heap \<Rightarrow> timer_heap" where
  "removing i h =
     (let last = length (th_heap h) - 1
      in if i \<noteq> last
         then (case heap_down i last (heap_swap i last h) of
                 (moved, h) \<Rightarrow> if \<not> moved then heap_up i h else h)
         else h)"

lemma open_hole_take:
  assumes "key_heap f n" "i < m" "m < n"
  shows "open_hole (swap_keys i m f) m i"
  unfolding open_hole_def spans_def
proof (intro conjI allI impI)
  fix j assume j: "j < m" "0 < j" "j \<noteq> i" "heap_parent j \<noteq> i"
  then show "swap_keys i m f (heap_parent j) \<le> swap_keys i m f j"
    using assms heap_parent_less [of j] by (simp add: swap_keys_def key_heap_def)
next
  fix j assume j: "j < m" "0 < j" "heap_parent j = i" "0 < i"
  have "f (heap_parent i) \<le> f i" "f i \<le> f j" using assms j by (auto simp: key_heap_def)
  moreover have "i < j" "heap_parent i < i" using j heap_parent_less by auto
  ultimately show "swap_keys i m f (heap_parent i) \<le> swap_keys i m f j"
    using j assms by (simp add: swap_keys_def)
qed

lemma removing_ok:
  assumes ok: "heap_ok h" and i: "i < length (th_heap h)"
  defines "m \<equiv> length (th_heap h) - 1"
  shows "rearranged h (removing i h) \<and> key_heap (place_key (removing i h)) m \<and>
    th_heap (removing i h) ! m = th_heap h ! i"
proof (cases "i = m")
  case True
  then have "removing i h = h" by (simp add: removing_def Let_def m_def)
  moreover have "key_heap (place_key h) m"
    using ok i unfolding heap_ok_def key_heap_def by (metis True order.strict_trans)
  ultimately show ?thesis using ok True by (simp add: rearranged_def heap_ok_def)
next
  case False
  let ?h = "heap_swap i m h"
  have m: "i < m" "m < length (th_heap h)" using False i by (simp_all add: m_def)
  have placed: "placed h" using ok by (simp add: heap_ok_def)
  have re: "rearranged h ?h" using placed m by (intro rearranged_swap) simp_all
  have hole: "open_hole (place_key ?h) m i"
    using open_hole_take [OF _ m, of "place_key h"] ok m by (simp add: heap_swap_keys heap_ok_def)
  obtain c' h' where sink: "heap_sink i m ?h = (c', h')" by (cases "heap_sink i m ?h")
  have last: "th_heap ?h ! m = th_heap h ! i" using m by (simp add: heap_swap_heap)
  have "placed ?h" "m \<le> length (th_heap ?h)" using re m by (simp_all add: rearranged_def)
  then have down: "rearranged ?h h' \<and> i \<le> c' \<and> (\<forall>i\<ge>m. th_heap h' ! i = th_heap ?h ! i) \<and>
      (if c' = i then h' = ?h \<and> up_hole (place_key ?h) m i else key_heap (place_key h') m)"
    using heap_sink_ok [OF _ _ m(1) hole sink] by simp
  show ?thesis
  proof (cases "c' = i")
    case True
    then have "removing i h = heap_up i ?h"
      using False sink down by (simp add: removing_def Let_def heap_down_def m_def)
    then show ?thesis
      using heap_up_ok [OF \<open>placed ?h\<close> \<open>m \<le> length (th_heap ?h)\<close> m(1)] down True re last
        rearranged_trans by auto
  next
    case moved: False
    then have "removing i h = h'" "i < c'"
      using False sink down by (auto simp: removing_def Let_def heap_down_def m_def)
    then show ?thesis using down moved re last rearranged_trans by auto
  qed
qed

lemma heap_remove_steps: "heap_remove i h = drop_last (removing i h)"
  if "heap_ok h" "i < length (th_heap h)"
proof -
  have "length (th_heap (removing i h)) = length (th_heap h)"
    using removing_ok [OF that] rearranged_length by auto
  then show ?thesis by (simp add: heap_remove_def drop_last_def removing_def Let_def)
qed

lemma distinct_last_place:
  "distinct xs \<Longrightarrow> xs \<noteq> [] \<Longrightarrow> set (take (length xs - 1) xs) = set xs - {xs ! (length xs - 1)}"
  by (cases xs rule: rev_cases) auto

lemma drop_last_ok:
  assumes placed: "placed h" and n: "0 < length (th_heap h)"
    and keys: "key_heap (place_key h) (length (th_heap h) - 1)"
    and idle: "\<forall>a<length (th_timers h). a \<notin> set (th_heap h) \<longrightarrow> tm_index (th_timers h ! a) = - 1"
  defines "a \<equiv> th_heap h ! (length (th_heap h) - 1)"
  shows "heap_ok (drop_last h)" "set (th_heap (drop_last h)) = set (th_heap h) - {a}"
    "map unindexed (th_timers (drop_last h)) = map unindexed (th_timers h)"
    "length (th_heap (drop_last h)) = length (th_heap h) - 1"
proof -
  let ?m = "length (th_heap h) - 1"
  have dist: "distinct (th_heap h)" and range: "set (th_heap h) \<subseteq> {..<length (th_timers h)}"
    using placed by (simp_all add: placed_def)
  have a: "a < length (th_timers h)" using placed_nth [OF placed, of ?m] n by (simp add: a_def)
  show set: "set (th_heap (drop_last h)) = set (th_heap h) - {a}"
    using distinct_last_place [OF dist] n by (auto simp: drop_last_def Let_def a_def)
  have other: "th_heap h ! i \<noteq> a" if "i < ?m" for i
    using that dist n by (simp add: a_def nth_eq_iff_index_eq)
  have timer: "th_timers (drop_last h) ! b =
      (if b = a then (th_timers h ! a)\<lparr>tm_index := - 1\<rparr> else th_timers h ! b)" for b
    using a by (simp add: drop_last_def Let_def a_def set_index_nth)
  have nth: "th_heap (drop_last h) ! i = th_heap h ! i" if "i < ?m" for i
    using that by (simp add: drop_last_def Let_def)
  show len: "length (th_heap (drop_last h)) = ?m" by (simp add: drop_last_def Let_def)
  have len': "length (th_timers (drop_last h)) = length (th_timers h)"
    by (simp add: drop_last_def Let_def)
  have "tm_index (heap_timer (drop_last h) i) = int i" if "i < ?m" for i
    using that other [OF that] placed by (simp add: heap_timer_def nth timer placed_def)
  moreover have "distinct (th_heap (drop_last h))"
    using dist by (simp add: drop_last_def Let_def)
  ultimately have "placed (drop_last h)" using range set len len' by (auto simp: placed_def)
  moreover have "place_key (drop_last h) i = place_key h i" if "i < ?m" for i
    using that other [OF that] by (simp add: place_key_def timer_key_def nth timer)
  then have "key_heap (place_key (drop_last h)) ?m"
    using keys heap_parent_less unfolding key_heap_def by (metis order.strict_trans)
  moreover have "\<forall>b<length (th_timers h). b \<notin> set (th_heap h) - {a} \<longrightarrow>
      tm_index (th_timers (drop_last h) ! b) = - 1"
    using idle by (simp add: timer)
  ultimately show "heap_ok (drop_last h)" by (simp add: heap_ok_def len len' set)
  show "map unindexed (th_timers (drop_last h)) = map unindexed (th_timers h)"
    by (simp add: drop_last_def Let_def)
qed

lemma heap_remove_ok:
  assumes ok: "heap_ok h" and i: "i < length (th_heap h)"
  shows "heap_ok (heap_remove i h)"
    "set (th_heap (heap_remove i h)) = set (th_heap h) - {th_heap h ! i}"
    "map unindexed (th_timers (heap_remove i h)) = map unindexed (th_timers h)"
    "length (th_heap (heap_remove i h)) = length (th_heap h) - 1"
proof -
  let ?r = "removing i h"
  let ?m = "length (th_heap h) - 1"
  have r: "rearranged h ?r" "key_heap (place_key ?r) ?m" "th_heap ?r ! ?m = th_heap h ! i"
    using removing_ok [OF assms] by simp_all
  have len: "length (th_heap ?r) = length (th_heap h)" using r(1) by (rule rearranged_length)
  have set: "set (th_heap ?r) = set (th_heap h)"
    using r(1) same_timers_set by (auto simp: rearranged_def)
  have n: "0 < length (th_heap ?r)" using i len by linarith
  have keys: "key_heap (place_key ?r) (length (th_heap ?r) - 1)" using r(2) len by simp
  have placed: "placed ?r" using r(1) by (simp add: rearranged_def)
  have idle: "\<forall>a<length (th_timers ?r). a \<notin> set (th_heap ?r) \<longrightarrow> tm_index (th_timers ?r ! a) = - 1"
    using ok rearranged_idle [OF r(1)] by (simp add: heap_ok_def)
  note dl = drop_last_ok [OF placed n keys idle] heap_remove_steps [OF assms] r(3) len set
  show "heap_ok (heap_remove i h)" using dl by simp
  show "set (th_heap (heap_remove i h)) = set (th_heap h) - {th_heap h ! i}" using dl by simp
  show "map unindexed (th_timers (heap_remove i h)) = map unindexed (th_timers h)"
    using dl r(1) by (simp add: rearranged_def same_timers_def)
  show "length (th_heap (heap_remove i h)) = length (th_heap h) - 1" using dl by simp
qed

text \<open>The first place holds the earliest timer.\<close>

lemma heap_first:
  assumes "heap_ok h" "a \<in> set (th_heap h)"
  shows "timer_key (th_timers h) (th_heap h ! 0) \<le> timer_key (th_timers h) a"
proof -
  obtain i where "i < length (th_heap h)" "th_heap h ! i = a" using assms(2) by (metis in_set_conv_nth)
  then show ?thesis
    using key_heap_first [of "place_key h" _ i] assms(1) by (auto simp: heap_ok_def place_key_def)
qed

end
