(* ===== verification/Clock.thy ===== *)
theory Clock
  imports Timer_Heap
begin

text \<open>
  The virtual clock, \<^verbatim>\<open>go-audio/pkg/clock/clock.go\<close> and \<^verbatim>\<open>deterministic_timer.go\<close>: one time
  domain whose timers fire when its elapsed time reaches them, in the order of their deadlines and
  then of their creation. The lock of the clock makes every operation one step. An instant is a number of
  nanoseconds since the Unix epoch; durations are the 64 bit integers of the code. The real clock
  only calls the host's, and is not modelled.
\<close>

section \<open>Saturating durations\<close>

definition max_duration :: go_int where
  "max_duration = max_int64"

definition saturating_add :: "go_int \<Rightarrow> go_int \<Rightarrow> go_int" where
  "saturating_add current delta =
     (if sint delta > 0 \<and> sint current > sint (max_duration - delta) then max_duration
      else if sint delta < 0 \<and> sint current < sint (- max_duration - delta) then 0
      else let result = current + delta in if sint result < 0 then 0 else result)"

definition multiply_duration :: "64 word \<Rightarrow> go_int \<Rightarrow> go_int option" where
  "multiply_duration value unit =
     (if value = 0 \<or> sint unit \<le> 0 then Some 0
      else if value > max_duration div unit then None
      else Some (value * unit))"

lemma sint_max_duration: "sint max_duration = 2 ^ 63 - 1" "sint (- max_duration) = - (2 ^ 63) + 1"
  by (simp_all add: max_duration_def max_int64_def)

lemma saturating_add_exact:
  assumes "0 \<le> sint current"
  shows "sint (saturating_add current delta) = max 0 (min (2 ^ 63 - 1) (sint current + sint delta))"
proof -
  note range = sint_range [of current] sint_range [of delta]
  consider "sint delta > 0" | "sint delta = 0" | "sint delta < 0" by linarith
  then show ?thesis
  proof cases
    case 1
    then have "sint (max_duration - delta) = 2 ^ 63 - 1 - sint delta"
      using range sint_diff_fits [of max_duration delta] by (simp add: sint_max_duration)
    then show ?thesis using 1 range assms sint_add_fits [of current delta]
      by (simp add: saturating_add_def sint_max_duration Let_def)
  next
    case 2
    then show ?thesis using range assms sint_add_fits [of current delta]
      by (simp add: saturating_add_def Let_def)
  next
    case 3
    then have "sint (- max_duration - delta) = - (2 ^ 63) + 1 - sint delta"
      using range sint_diff_fits [of "- max_duration" delta] by (simp add: sint_max_duration)
    then show ?thesis using 3 range assms sint_add_fits [of current delta]
      by (simp add: saturating_add_def Let_def)
  qed
qed

lemma multiply_duration_exact:
  assumes unit: "0 < sint unit"
  shows "multiply_duration value unit =
    (if uint value * sint unit < 2 ^ 63 then Some (word_of_int (uint value * sint unit)) else None)"
proof -
  have u: "0 < uint unit" "uint unit < 2 ^ 63" "sint unit = uint unit"
    using int_positive [of unit] unit by auto
  have "value > max_duration div unit \<longleftrightarrow> uint value > (2 ^ 63 - 1) div uint unit"
    by (simp add: word_less_def uint_div max_duration_def max_int64_def)
  also have "\<dots> \<longleftrightarrow> \<not> uint value * uint unit < 2 ^ 63"
    using u le_quotient [of "uint unit" "uint value" "2 ^ 63 - 1"] by linarith
  finally show ?thesis
    using u by (cases "value = 0") (auto simp: multiply_duration_def)
qed

section \<open>The clock\<close>

text \<open>
  Besides its time, a clock holds its timers and the channel that wakes those who wait for a change
  of the pending timers: \<^verbatim>\<open>dc_changed\<close> is the channel in use, and the channels below \<^verbatim>\<open>dc_notified\<close> are
  closed.
\<close>

record det_clock =
  dc_base :: int
  dc_tick_duration :: go_int
  dc_tick :: "64 word"
  dc_elapsed :: go_int
  dc_timers :: timer_heap
  dc_sequence :: nat
  dc_changed :: "nat option"
  dc_notified :: nat

text \<open>The zero \<^verbatim>\<open>time.Time\<close>, January 1 of the year 1, and one millisecond.\<close>

definition zero_time :: int where
  "zero_time = - 62135596800000000000"

definition millisecond :: go_int where
  "millisecond = 1000000"

definition new_deterministic :: "int \<Rightarrow> go_int \<Rightarrow> det_clock" where
  "new_deterministic base tick_duration =
     \<lparr>dc_base = (if base = zero_time then 0 else base),
      dc_tick_duration = (if sint tick_duration \<le> 0 then millisecond else tick_duration),
      dc_tick = 0, dc_elapsed = 0, dc_timers = \<lparr>th_timers = [], th_heap = []\<rparr>, dc_sequence = 0,
      dc_changed = None, dc_notified = 0\<rparr>"

definition clock_now :: "det_clock \<Rightarrow> int" where
  "clock_now d = dc_base d + sint (dc_elapsed d)"

definition notify_timers_changed :: "det_clock \<Rightarrow> det_clock" where
  "notify_timers_changed d =
     (case dc_changed d of
        Some c \<Rightarrow> d\<lparr>dc_changed := None, dc_notified := Suc (dc_notified d)\<rparr>
      | None \<Rightarrow> d)"

text \<open>The send of a firing timer finds its place taken only when nobody received the last value.\<close>

definition timer_fire :: "int \<Rightarrow> det_timer \<Rightarrow> det_timer" where
  "timer_fire at t =
     (if \<not> tm_active t then t
      else t\<lparr>tm_active := False, tm_index := - 1,
             tm_channel := (case tm_channel t of None \<Rightarrow> Some at | Some v \<Rightarrow> Some v)\<rparr>)"

definition update_timer :: "nat \<Rightarrow> (det_timer \<Rightarrow> det_timer) \<Rightarrow> timer_heap \<Rightarrow> timer_heap" where
  "update_timer a f h = h\<lparr>th_timers := (th_timers h) [a := f (th_timers h ! a)]\<rparr>"

lemma notify_timers [simp]:
  "dc_timers (notify_timers_changed d) = dc_timers d" "dc_base (notify_timers_changed d) = dc_base d"
  "dc_elapsed (notify_timers_changed d) = dc_elapsed d" "dc_tick (notify_timers_changed d) = dc_tick d"
  "dc_sequence (notify_timers_changed d) = dc_sequence d"
  "dc_tick_duration (notify_timers_changed d) = dc_tick_duration d"
  by (simp_all add: notify_timers_changed_def split: option.split)

lemma heap_remove_shrinks:
  "th_heap h \<noteq> [] \<Longrightarrow> length (th_heap (heap_remove i h)) < length (th_heap h)"
  by (cases "th_heap h") (simp_all add: heap_remove_def Let_def less_Suc_eq_le)

text \<open>The loop that fires the due timers, with the timers in the order of their sends.\<close>

function fire_loop :: "go_int \<Rightarrow> det_clock \<Rightarrow> nat list \<times> det_clock" where
  "fire_loop now d =
     (case th_heap (dc_timers d) of
        [] \<Rightarrow> ([], d)
      | a # _ \<Rightarrow>
          if sint (tm_deadline (th_timers (dc_timers d) ! a)) > sint now then ([], d)
          else (let d = d\<lparr>dc_timers := heap_remove 0 (dc_timers d)\<rparr>;
                    d = notify_timers_changed d;
                    d = d\<lparr>dc_timers := update_timer a (timer_fire (dc_base d + sint now)) (dc_timers d)\<rparr>
                in case fire_loop now d of (fired, d) \<Rightarrow> (a # fired, d)))"
  by pat_completeness auto

termination
  by (relation "measure (\<lambda>(now, d). length (th_heap (dc_timers d)))")
    (auto simp: update_timer_def intro: heap_remove_shrinks [THEN order.strict_trans2])

declare fire_loop.simps [simp del]

definition fire_due_timers :: "det_clock \<Rightarrow> nat list \<times> det_clock" where
  "fire_due_timers d = fire_loop (dc_elapsed d) d"

section \<open>Operations\<close>

definition advance_elapsed_locked :: "go_int \<Rightarrow> det_clock \<Rightarrow> det_clock" where
  "advance_elapsed_locked delta d =
     (if sint delta \<le> 0 then d else d\<lparr>dc_elapsed := saturating_add (dc_elapsed d) delta\<rparr>)"

definition set_elapsed_at_least :: "go_int \<Rightarrow> det_clock \<Rightarrow> det_clock" where
  "set_elapsed_at_least target d =
     (if sint target > sint (dc_elapsed d) then d\<lparr>dc_elapsed := target\<rparr> else d)"

definition clock_advance :: "det_clock \<Rightarrow> nat list \<times> det_clock" where
  "clock_advance d =
     (let d = (if dc_tick d \<noteq> - 1
               then advance_elapsed_locked (dc_tick_duration d) (d\<lparr>dc_tick := dc_tick d + 1\<rparr>)
               else d)
      in fire_due_timers d)"

definition clock_advance_to :: "64 word \<Rightarrow> det_clock \<Rightarrow> nat list \<times> det_clock" where
  "clock_advance_to target d =
     (let d = (if target > dc_tick d
               then (let d = d\<lparr>dc_tick := target\<rparr>
                     in case multiply_duration target (dc_tick_duration d) of
                          Some elapsed \<Rightarrow> set_elapsed_at_least elapsed d
                        | None \<Rightarrow> set_elapsed_at_least max_duration d)
               else d)
      in fire_due_timers d)"

definition clock_advance_by :: "go_int \<Rightarrow> det_clock \<Rightarrow> nat list \<times> det_clock" where
  "clock_advance_by duration d = fire_due_timers (advance_elapsed_locked duration d)"

definition clock_advance_to_elapsed :: "go_int \<Rightarrow> det_clock \<Rightarrow> nat list \<times> det_clock" where
  "clock_advance_to_elapsed target d =
     fire_due_timers
       (if sint target > sint (dc_elapsed d)
        then d\<lparr>dc_elapsed := if sint target < 0 then 0 else target\<rparr> else d)"

text \<open>\<^verbatim>\<open>time.Time.Sub\<close> saturates at the ends of the durations.\<close>

definition time_sub :: "int \<Rightarrow> int \<Rightarrow> go_int" where
  "time_sub t u = word_of_int (max (- (2 ^ 63)) (min (2 ^ 63 - 1) (t - u)))"

definition clock_advance_to_time :: "int \<Rightarrow> det_clock \<Rightarrow> nat list \<times> det_clock" where
  "clock_advance_to_time target d =
     (let delta = time_sub target (dc_base d);
          delta = (if sint delta < 0 then 0 else delta)
      in clock_advance_to_elapsed delta d)"

text \<open>
  \<^verbatim>\<open>NewTimer\<close>: the address of the new timer is the length of the store. Its sequence is a nat; the
  code's \<^verbatim>\<open>uint64\<close> counter would wrap only after \<^verbatim>\<open>2^64\<close> timers, each of which the store has to hold.
\<close>

definition clock_new_timer :: "go_int \<Rightarrow> det_clock \<Rightarrow> nat list \<times> det_clock" where
  "clock_new_timer duration d =
     (let seq = Suc (dc_sequence d);
          t = \<lparr>tm_deadline = saturating_add (dc_elapsed d) duration, tm_sequence = seq,
               tm_channel = None, tm_active = True, tm_index = - 1\<rparr>;
          d = d\<lparr>dc_sequence := seq, dc_timers := heap_push t (dc_timers d)\<rparr>
      in fire_due_timers (notify_timers_changed d))"

definition timer_stop :: "nat \<Rightarrow> det_clock \<Rightarrow> bool \<times> det_clock" where
  "timer_stop a d =
     (let h = dc_timers d in
      if a \<ge> length (th_timers h) \<or> \<not> tm_active (th_timers h ! a) then (False, d)
      else (let h = update_timer a (\<lambda>t. t\<lparr>tm_active := False\<rparr>) h in
            if tm_index (th_timers h ! a) \<ge> 0
            then (let h = heap_remove (nat (tm_index (th_timers h ! a))) h;
                      h = update_timer a (\<lambda>t. t\<lparr>tm_index := - 1\<rparr>) h
                  in (True, notify_timers_changed (d\<lparr>dc_timers := h\<rparr>)))
            else (True, d\<lparr>dc_timers := h\<rparr>)))"

text \<open>What the owner of a timer does with its channel.\<close>

definition timer_receive :: "nat \<Rightarrow> det_clock \<Rightarrow> det_clock" where
  "timer_receive a d = d\<lparr>dc_timers := update_timer a (\<lambda>t. t\<lparr>tm_channel := None\<rparr>) (dc_timers d)\<rparr>"

section \<open>Waiting for timers\<close>

text \<open>
  One look of \<^verbatim>\<open>waitForPendingTimers\<close>: \<^verbatim>\<open>None\<close> when the pending timers are enough, and otherwise the
  channel it goes on to wait for.
\<close>

definition poll_timers :: "(nat \<Rightarrow> bool) \<Rightarrow> det_clock \<Rightarrow> nat option \<times> det_clock" where
  "poll_timers ready d =
     (if ready (length (th_heap (dc_timers d))) then (None, d)
      else (case dc_changed d of
              Some c \<Rightarrow> (Some c, d)
            | None \<Rightarrow> (Some (dc_notified d), d\<lparr>dc_changed := Some (dc_notified d)\<rparr>)))"

definition channel_closed :: "nat \<Rightarrow> det_clock \<Rightarrow> bool" where
  "channel_closed c d \<longleftrightarrow> c < dc_notified d"

text \<open>
  The whole call. A round is what others did while it waited, the context by then, and whether the
  select picked the end of the context; \<^verbatim>\<open>None\<close>: it has not returned.
\<close>

fun wait_for_timers ::
    "(nat \<Rightarrow> bool) \<Rightarrow> ((det_clock \<Rightarrow> det_clock) \<times> ctx_state \<times> bool) list \<Rightarrow> det_clock
     \<Rightarrow> (go_error option \<times> det_clock) option" where
  "wait_for_timers ready rounds d =
     (case poll_timers ready d of
        (None, d) \<Rightarrow> Some (None, d)
      | (Some c, d) \<Rightarrow>
          (case rounds of
             [] \<Rightarrow> None
           | (others, ctx, picks_ctx) # rounds \<Rightarrow>
               (let d = others d in
                if picks_ctx
                then (case ctx of CtxDone e \<Rightarrow> Some (Some e, d) | CtxLive \<Rightarrow> None)
                else if channel_closed c d then wait_for_timers ready rounds d else None)))"

section \<open>Waits and deadlines in a time domain\<close>

definition err_nil_context :: go_error where
  "err_nil_context = ErrorText ''audio operation requires a non-nil context''"

text \<open>What a context answers: the error of \<^verbatim>\<open>Err\<close>, and what \<^verbatim>\<open>context.Cause\<close> gives.\<close>

definition context_cause :: "go_error option \<Rightarrow> ctx_state \<Rightarrow> go_error" where
  "context_cause cause ctx =
     (case cause of
        Some c \<Rightarrow> c
      | None \<Rightarrow> (case ctx_err ctx of Some e \<Rightarrow> e | None \<Rightarrow> CtxCanceled))"

text \<open>
  \<^verbatim>\<open>wait\<close> on a virtual clock: others go on between the start of the timer and the pick of the select,
  and the timer is stopped on the way out.
\<close>

definition clock_wait ::
    "bool \<Rightarrow> go_int \<Rightarrow> (det_clock \<Rightarrow> det_clock) \<Rightarrow> ctx_state \<Rightarrow> go_error option \<Rightarrow> bool
     \<Rightarrow> det_clock \<Rightarrow> (go_error option \<times> det_clock) option" where
  "clock_wait has_ctx duration others ctx cause picks_ctx d =
     (if \<not> has_ctx then Some (Some err_nil_context, d)
      else (let a = length (th_timers (dc_timers d));
                d = others (snd (clock_new_timer duration d)) in
            if picks_ctx
            then (if ctx = CtxLive then None
                  else Some (Some (context_cause cause ctx), snd (timer_stop a d)))
            else (if tm_channel (th_timers (dc_timers d) ! a) = None then None
                  else Some (None, snd (timer_stop a (timer_receive a d))))))"

text \<open>A context with a deadline: its error, and whether its channel is closed.\<close>

record deadline_context =
  dx_deadline :: int
  dx_err :: "go_error option"
  dx_done :: bool

definition context_finish :: "go_error \<Rightarrow> deadline_context \<Rightarrow> deadline_context" where
  "context_finish e c = (if dx_done c then c else c\<lparr>dx_err := Some e, dx_done := True\<rparr>)"

definition context_done :: "ctx_state \<Rightarrow> go_error option \<Rightarrow> int \<Rightarrow> deadline_context \<Rightarrow> deadline_context" where
  "context_done parent cause now c =
     (if ctx_err parent \<noteq> None then context_finish (context_cause cause parent) c
      else if \<not> now < dx_deadline c then context_finish CtxDeadlineExceeded c
      else c)"

definition context_error ::
    "ctx_state \<Rightarrow> go_error option \<Rightarrow> int \<Rightarrow> deadline_context \<Rightarrow> go_error option \<times> deadline_context" where
  "context_error parent cause now c =
     (let c = context_done parent cause now c in (dx_err c, c))"

definition context_deadline :: "int option \<Rightarrow> deadline_context \<Rightarrow> int" where
  "context_deadline parent_deadline c =
     (case parent_deadline of
        Some p \<Rightarrow> if p < dx_deadline c then p else dx_deadline c
      | None \<Rightarrow> dx_deadline c)"

definition with_deadline ::
    "ctx_state \<Rightarrow> go_error option \<Rightarrow> int \<Rightarrow> det_clock \<Rightarrow> deadline_context \<times> nat option \<times> det_clock" where
  "with_deadline parent cause deadline d =
     (let child = \<lparr>dx_deadline = deadline, dx_err = None, dx_done = False\<rparr> in
      if ctx_err parent \<noteq> None then (context_finish (context_cause cause parent) child, None, d)
      else (child, Some (length (th_timers (dc_timers d))),
            snd (clock_new_timer (time_sub deadline (clock_now d)) d)))"

definition with_timeout ::
    "ctx_state \<Rightarrow> go_error option \<Rightarrow> go_int \<Rightarrow> det_clock \<Rightarrow> deadline_context \<times> nat option \<times> det_clock" where
  "with_timeout parent cause timeout d = with_deadline parent cause (clock_now d + sint timeout) d"

text \<open>The goroutine of \<^verbatim>\<open>withDeadline\<close>, by the pick of its select.\<close>

datatype watch_pick = PickParent | PickTimer | PickChild

definition deadline_watch ::
    "watch_pick \<Rightarrow> ctx_state \<Rightarrow> go_error option \<Rightarrow> nat \<Rightarrow> deadline_context \<Rightarrow> det_clock
     \<Rightarrow> (deadline_context \<times> det_clock) option" where
  "deadline_watch pick parent cause a c d =
     (case pick of
        PickParent \<Rightarrow>
          if ctx_err parent = None then None
          else Some (context_finish (context_cause cause parent) c, snd (timer_stop a d))
      | PickTimer \<Rightarrow>
          if tm_channel (th_timers (dc_timers d) ! a) = None then None
          else Some (context_finish CtxDeadlineExceeded c, snd (timer_stop a (timer_receive a d)))
      | PickChild \<Rightarrow> if dx_done c then Some (c, snd (timer_stop a d)) else None)"

section \<open>Firing the due timers\<close>

text \<open>
  The parts of the invariant that hold between operations' steps: the heap is sound, timers are
  numbered by their addresses, and the pending timers are the active ones, with empty channels.
\<close>

definition clock_core :: "det_clock \<Rightarrow> bool" where
  "clock_core d \<longleftrightarrow> heap_ok (dc_timers d) \<and>
     dc_sequence d = length (th_timers (dc_timers d)) \<and>
     (\<forall>a<length (th_timers (dc_timers d)).
        tm_sequence (th_timers (dc_timers d) ! a) = Suc a \<and>
        (tm_active (th_timers (dc_timers d) ! a) = (a \<in> set (th_heap (dc_timers d)))) \<and>
        (tm_active (th_timers (dc_timers d) ! a) \<longrightarrow> tm_channel (th_timers (dc_timers d) ! a) = None)) \<and>
     (dc_changed d = None \<or> dc_changed d = Some (dc_notified d)) \<and>
     0 \<le> sint (dc_elapsed d) \<and> 0 < sint (dc_tick_duration d)"

abbreviation timer_of :: "det_clock \<Rightarrow> nat \<Rightarrow> det_timer" where
  "timer_of d a \<equiv> th_timers (dc_timers d) ! a"

definition pending :: "det_clock \<Rightarrow> nat set" where
  "pending d = set (th_heap (dc_timers d))"

definition due :: "go_int \<Rightarrow> det_clock \<Rightarrow> nat set" where
  "due now d = {a \<in> pending d. sint (tm_deadline (timer_of d a)) \<le> sint now}"

abbreviation clock_key :: "det_clock \<Rightarrow> nat \<Rightarrow> int \<times> nat" where
  "clock_key d \<equiv> timer_key (th_timers (dc_timers d))"

text \<open>One pass of the loop.\<close>

definition fire_first :: "go_int \<Rightarrow> det_clock \<Rightarrow> det_clock" where
  "fire_first now d =
     (let a = th_heap (dc_timers d) ! 0;
          d' = notify_timers_changed (d\<lparr>dc_timers := heap_remove 0 (dc_timers d)\<rparr>)
      in d'\<lparr>dc_timers := update_timer a (timer_fire (dc_base d + sint now)) (dc_timers d')\<rparr>)"

lemma fire_loop_empty: "pending d = {} \<Longrightarrow> fire_loop now d = ([], d)"
  by (simp add: pending_def fire_loop.simps)

lemma fire_loop_none_due:
  assumes ok: "heap_ok (dc_timers d)" and a: "a = th_heap (dc_timers d) ! 0"
    and late: "sint now < sint (tm_deadline (timer_of d a))"
  shows "fire_loop now d = ([], d)" "due now d = {}"
proof -
  show "fire_loop now d = ([], d)"
    using a late by (cases "th_heap (dc_timers d)") (simp_all add: fire_loop.simps)
  have "sint (tm_deadline (timer_of d a)) \<le> sint (tm_deadline (timer_of d b))" if "b \<in> pending d" for b
    using heap_first [OF ok, of b] that by (auto simp: pending_def timer_key_def a)
  then show "due now d = {}" using late by (fastforce simp: due_def)
qed

lemma fire_loop_step:
  assumes "th_heap (dc_timers d) \<noteq> []" and a: "a = th_heap (dc_timers d) ! 0"
    and "sint (tm_deadline (timer_of d a)) \<le> sint now"
  shows "fire_loop now d = (a # fst (fire_loop now (fire_first now d)), snd (fire_loop now (fire_first now d)))"
proof -
  obtain as where heap: "th_heap (dc_timers d) = a # as"
    using assms(1) a by (cases "th_heap (dc_timers d)") simp_all
  show ?thesis
    using assms(3) by (subst fire_loop.simps) (simp add: heap fire_first_def Let_def split: prod.split)
qed

lemma update_timer_nth:
  "a < length (th_timers h) \<Longrightarrow>
   th_timers (update_timer a f h) ! b = (if b = a then f (th_timers h ! a) else th_timers h ! b)"
  by (simp add: update_timer_def nth_list_update)

lemma update_timer_fields [simp]:
  "th_heap (update_timer a f h) = th_heap h"
  "length (th_timers (update_timer a f h)) = length (th_timers h)"
  by (simp_all add: update_timer_def)

lemma heap_ok_update:
  assumes ok: "heap_ok h"
    and inside: "a \<in> set (th_heap h) \<Longrightarrow> tm_index (f (th_timers h ! a)) = tm_index (th_timers h ! a) \<and>
      tm_deadline (f (th_timers h ! a)) = tm_deadline (th_timers h ! a) \<and>
      tm_sequence (f (th_timers h ! a)) = tm_sequence (th_timers h ! a)"
    and outside: "a < length (th_timers h) \<Longrightarrow> a \<notin> set (th_heap h) \<Longrightarrow> tm_index (f (th_timers h ! a)) = - 1"
  shows "heap_ok (update_timer a f h)"
proof (cases "a < length (th_timers h)")
  case False
  then show ?thesis using ok by (simp add: update_timer_def list_update_beyond)
next
  case True
  let ?h = "update_timer a f h"
  note nth = update_timer_nth [OF True, of f]
  have member: "tm_index (th_timers ?h ! b) = tm_index (th_timers h ! b) \<and>
      timer_key (th_timers ?h) b = timer_key (th_timers h) b" if "b \<in> set (th_heap h)" for b
    using inside that by (auto simp: nth timer_key_def)
  have "placed ?h" using ok member by (auto simp: heap_ok_def placed_def heap_timer_def)
  moreover have keys: "place_key ?h i = place_key h i" if "i < length (th_heap h)" for i
    using member that by (simp add: place_key_def)
  then have "key_heap (place_key ?h) (length (th_heap h))"
    using ok key_heap_cong [of "length (th_heap h)" "place_key ?h" "place_key h"]
    by (simp add: heap_ok_def)
  moreover have "\<forall>b<length (th_timers ?h). b \<notin> set (th_heap ?h) \<longrightarrow> tm_index (th_timers ?h ! b) = - 1"
    using ok outside True by (simp add: nth heap_ok_def)
  ultimately show ?thesis by (simp add: heap_ok_def)
qed

text \<open>Two states of a clock that differ in places, channels and pending timers only.\<close>

definition same_clock :: "det_clock \<Rightarrow> det_clock \<Rightarrow> bool" where
  "same_clock d d' \<longleftrightarrow> dc_base d' = dc_base d \<and> dc_elapsed d' = dc_elapsed d \<and>
     dc_tick d' = dc_tick d \<and> dc_tick_duration d' = dc_tick_duration d \<and>
     dc_sequence d' = dc_sequence d \<and>
     length (th_timers (dc_timers d')) = length (th_timers (dc_timers d))"

lemma unindexed_nth:
  "map unindexed ts' = map unindexed ts \<Longrightarrow> a < length ts \<Longrightarrow> unindexed (ts' ! a) = unindexed (ts ! a)"
  by (metis length_map nth_map)

lemma fields_of_unindexed:
  "tm_deadline t = tm_deadline (unindexed t)" "tm_sequence t = tm_sequence (unindexed t)"
  "tm_channel t = tm_channel (unindexed t)" "tm_active t = tm_active (unindexed t)"
  by (simp_all add: unindexed_def)

lemma pending_in_store: "heap_ok (dc_timers d) \<Longrightarrow> a \<in> pending d \<Longrightarrow> a < length (th_timers (dc_timers d))"
  by (auto simp: heap_ok_def placed_def pending_def)

lemma timer_fire_unindexed:
  "tm_active t \<Longrightarrow> tm_channel t = None \<Longrightarrow>
   unindexed (timer_fire at t) = (unindexed t)\<lparr>tm_active := False, tm_channel := Some at\<rparr>"
  by (simp add: timer_fire_def unindexed_def)

lemma fire_first_ok:
  assumes core: "clock_core d" and "th_heap (dc_timers d) \<noteq> []" and a: "a = th_heap (dc_timers d) ! 0"
    and d': "d' = fire_first now d"
  shows "clock_core d'" "pending d' = pending d - {a}" "a \<in> pending d" "same_clock d d'"
    "\<And>b. b < length (th_timers (dc_timers d)) \<Longrightarrow> unindexed (timer_of d' b) =
       (if b = a then (unindexed (timer_of d a))\<lparr>tm_active := False, tm_channel := Some (dc_base d + sint now)\<rparr>
        else unindexed (timer_of d b))"
    "dc_changed d' = None" "dc_notified d' = dc_notified d + (if dc_changed d = None then 0 else 1)"
proof -
  let ?h = "heap_remove 0 (dc_timers d)"
  have ok: "heap_ok (dc_timers d)" using core by (simp add: clock_core_def)
  have n: "0 < length (th_heap (dc_timers d))" using assms(2) by simp
  note removed = heap_remove_ok [OF ok n]
  show a_in: "a \<in> pending d" using n a by (simp add: pending_def)
  then have store: "a < length (th_timers (dc_timers d))" using pending_in_store [OF ok] by simp
  have len: "length (th_timers ?h) = length (th_timers (dc_timers d))"
    using removed(3) by (metis length_map)
  have old: "unindexed (th_timers ?h ! b) = unindexed (timer_of d b)"
    if "b < length (th_timers (dc_timers d))" for b
    by (rule unindexed_nth [OF removed(3) that])
  have timers: "dc_timers d' = update_timer a (timer_fire (dc_base d + sint now)) ?h"
    by (simp add: d' fire_first_def Let_def a)
  have active: "tm_active (timer_of d a)" "tm_channel (timer_of d a) = None"
    using core store a_in by (auto simp: clock_core_def pending_def)
  then have at: "tm_active (th_timers ?h ! a)" "tm_channel (th_timers ?h ! a) = None"
    using old [OF store] unindexed_fields by metis+
  show same: "same_clock d d'"
    by (simp add: same_clock_def d' fire_first_def Let_def len)
  show new: "unindexed (timer_of d' b) =
       (if b = a then (unindexed (timer_of d a))\<lparr>tm_active := False, tm_channel := Some (dc_base d + sint now)\<rparr>
        else unindexed (timer_of d b))" if b: "b < length (th_timers (dc_timers d))" for b
    using old [OF b] old [OF store] store at
    by (cases "b = a") (simp_all add: timers update_timer_nth len timer_fire_unindexed)
  show pend: "pending d' = pending d - {a}"
    using removed(2) a by (simp add: pending_def timers)
  show changed: "dc_changed d' = None"
      "dc_notified d' = dc_notified d + (if dc_changed d = None then 0 else 1)"
    by (simp_all add: d' fire_first_def Let_def notify_timers_changed_def split: option.split)
  have "heap_ok (dc_timers d')" unfolding timers
    using at(1) removed(2) a by (intro heap_ok_update [OF removed(1)]) (auto simp: timer_fire_def)
  moreover have "tm_sequence (timer_of d' b) = Suc b \<and> (tm_active (timer_of d' b) = (b \<in> pending d')) \<and>
      (tm_active (timer_of d' b) \<longrightarrow> tm_channel (timer_of d' b) = None)"
    if b: "b < length (th_timers (dc_timers d'))" for b
    using new [of b] core b same pend unfolding fields_of_unindexed [of "timer_of d' b"]
    by (auto simp: clock_core_def pending_def same_clock_def unindexed_def split: if_splits)
  ultimately show "clock_core d'"
    using core same changed by (simp add: clock_core_def same_clock_def pending_def)
qed

text \<open>
  What a run of the loop does: it fires the due timers, by deadline and then creation, each once.
\<close>

definition fired_timer :: "int \<Rightarrow> det_timer \<Rightarrow> det_timer" where
  "fired_timer at t = (unindexed t)\<lparr>tm_active := False, tm_channel := Some at\<rparr>"

definition notifies :: "bool \<Rightarrow> det_clock \<Rightarrow> det_clock \<Rightarrow> bool" where
  "notifies b d d' \<longleftrightarrow>
     (if b then dc_changed d' = None \<and> dc_notified d' = dc_notified d + (if dc_changed d = None then 0 else 1)
      else dc_changed d' = dc_changed d \<and> dc_notified d' = dc_notified d)"

definition fires :: "go_int \<Rightarrow> det_clock \<Rightarrow> nat list \<Rightarrow> det_clock \<Rightarrow> bool" where
  "fires now d fired d' \<longleftrightarrow>
     set fired = due now d \<and> sorted_wrt (\<lambda>a b. clock_key d a < clock_key d b) fired \<and>
     pending d' = pending d - due now d \<and> same_clock d d' \<and> notifies (fired \<noteq> []) d d' \<and>
     (\<forall>b<length (th_timers (dc_timers d)). unindexed (timer_of d' b) =
        (if b \<in> set fired then fired_timer (dc_base d + sint now) (timer_of d b)
         else unindexed (timer_of d b)))"

lemma same_clock_refl [simp]: "same_clock d d"
  by (simp add: same_clock_def)

lemma fires_nothing: "due now d = {} \<Longrightarrow> fires now d [] d"
  by (simp add: fires_def notifies_def)

lemma key_of_unindexed: "unindexed (ts ! a) = unindexed (us ! b) \<Longrightarrow> timer_key ts a = timer_key us b"
  by (auto simp: timer_key_def dest: unindexed_fields)

lemma fired_key: "unindexed t = fired_timer at u \<Longrightarrow> tm_deadline t = tm_deadline u \<and> tm_sequence t = tm_sequence u"
  by (metis fields_of_unindexed(1,2) fired_timer_def det_timer.select_convs(1,2) det_timer.update_convs(3,4)
      det_timer.surjective)

lemma fire_first_keys:
  assumes "clock_core d" "th_heap (dc_timers d) \<noteq> []" "b < length (th_timers (dc_timers d))"
  shows "clock_key (fire_first now d) b = clock_key d b"
    "tm_deadline (timer_of (fire_first now d) b) = tm_deadline (timer_of d b)"
proof -
  have "tm_deadline (timer_of (fire_first now d) b) = tm_deadline (timer_of d b) \<and>
      tm_sequence (timer_of (fire_first now d) b) = tm_sequence (timer_of d b)"
    using fire_first_ok(5) [OF assms(1,2) refl refl assms(3), of now]
    by (cases "b = th_heap (dc_timers d) ! 0")
      (auto simp: fired_timer_def [symmetric] dest: fired_key unindexed_fields)
  then show "clock_key (fire_first now d) b = clock_key d b"
      "tm_deadline (timer_of (fire_first now d) b) = tm_deadline (timer_of d b)"
    by (simp_all add: timer_key_def)
qed

lemma fires_cons:
  assumes core: "clock_core d" and heap: "th_heap (dc_timers d) \<noteq> []" and a: "a = th_heap (dc_timers d) ! 0"
    and isdue: "sint (tm_deadline (timer_of d a)) \<le> sint now"
    and rest: "fires now (fire_first now d) fired d'"
  shows "fires now d (a # fired) d'"
proof -
  let ?d = "fire_first now d"
  note first = fire_first_ok [OF core heap a refl [of "fire_first now d"]]
  note keys = fire_first_keys [OF core heap, of _ now]
  have ok: "heap_ok (dc_timers d)" using core by (simp add: clock_core_def)
  note store = pending_in_store [OF ok]
  have due: "due now ?d = due now d - {a}"
    using first(2) store keys by (auto simp: due_def)
  have a_due: "a \<in> due now d" using first(3) isdue by (simp add: due_def)
  have len: "length (th_timers (dc_timers ?d)) = length (th_timers (dc_timers d))"
    using first(4) by (simp add: same_clock_def)
  have set: "set fired = due now d - {a}" using rest due by (simp add: fires_def)
  have members: "b < length (th_timers (dc_timers d))" if "b \<in> set fired" for b
    using that set store by (auto simp: due_def)
  have "clock_key d a < clock_key d b" if b: "b \<in> set fired" for b
  proof -
    have "clock_key d a \<le> clock_key d b"
      using heap_first [OF ok, of b] b set by (auto simp: a due_def pending_def)
    moreover have "tm_sequence (timer_of d a) \<noteq> tm_sequence (timer_of d b)"
      using core store [of a] members [OF b] b set first(3) by (auto simp: clock_core_def)
    ultimately show ?thesis by (auto simp: timer_key_def)
  qed
  moreover have "sorted_wrt (\<lambda>a b. clock_key d a < clock_key d b) fired"
    using rest members keys(1) unfolding fires_def by (metis (mono_tags, lifting) sorted_wrt_mono_rel)
  moreover have "notifies True d d'"
    using rest first(6,7) by (auto simp: fires_def notifies_def split: if_splits)
  moreover have "unindexed (timer_of d' b) =
      (if b \<in> set (a # fired) then fired_timer (dc_base d + sint now) (timer_of d b)
       else unindexed (timer_of d b))" if b: "b < length (th_timers (dc_timers d))" for b
    using rest first(5) [OF b] first(4) b len set
    by (auto simp: fires_def fired_timer_def same_clock_def split: if_splits)
  ultimately show ?thesis
    using rest first(2,4) set a_due due by (auto simp: fires_def same_clock_def)
qed

lemma fire_loop_ok:
  "clock_core d \<Longrightarrow> fire_loop now d = (fired, d') \<Longrightarrow> fires now d fired d' \<and> clock_core d'"
proof (induction "length (th_heap (dc_timers d))" arbitrary: d fired rule: less_induct)
  case less
  have ok: "heap_ok (dc_timers d)" using less.prems(1) by (simp add: clock_core_def)
  let ?a = "th_heap (dc_timers d) ! 0"
  consider "th_heap (dc_timers d) = []" | "sint now < sint (tm_deadline (timer_of d ?a))"
    | "th_heap (dc_timers d) \<noteq> []" "sint (tm_deadline (timer_of d ?a)) \<le> sint now" by linarith
  then show ?case
  proof cases
    case 1
    then show ?thesis
      using less.prems fire_loop_empty [of d now] fires_nothing [of now d] by (simp add: due_def pending_def)
  next
    case 2
    then show ?thesis
      using less.prems fire_loop_none_due [OF ok refl 2] fires_nothing [of now d] by simp
  next
    case 3
    let ?d = "fire_first now d"
    note first = fire_first_ok [OF less.prems(1) 3(1) refl refl [of "fire_first now d"]]
    have "length (th_heap (dc_timers ?d)) < length (th_heap (dc_timers d))"
      using heap_remove_ok(4) [OF ok, of 0] 3(1) by (simp add: fire_first_def Let_def)
    moreover obtain rest where rest: "fire_loop now ?d = (rest, d')" "fired = ?a # rest"
      using fire_loop_step [OF 3(1) refl 3(2)] less.prems(2) by (cases "fire_loop now ?d") simp
    ultimately have "fires now ?d rest d' \<and> clock_core d'" using less.hyps first(1) by blast
    then show ?thesis using fires_cons [OF less.prems(1) 3(1) refl 3(2)] rest(2) by blast
  qed
qed

section \<open>Runs of a clock\<close>

text \<open>The operations of a clock and of the owners of its timers, as one step each.\<close>

datatype clock_op =
    Op_Advance | Op_AdvanceTo "64 word" | Op_AdvanceBy go_int | Op_AdvanceToElapsed go_int
  | Op_AdvanceToTime int | Op_NewTimer go_int | Op_Stop nat | Op_Receive nat | Op_Poll nat

fun apply_op :: "clock_op \<Rightarrow> det_clock \<Rightarrow> nat list \<times> det_clock" where
  "apply_op Op_Advance d = clock_advance d"
| "apply_op (Op_AdvanceTo target) d = clock_advance_to target d"
| "apply_op (Op_AdvanceBy duration) d = clock_advance_by duration d"
| "apply_op (Op_AdvanceToElapsed target) d = clock_advance_to_elapsed target d"
| "apply_op (Op_AdvanceToTime target) d = clock_advance_to_time target d"
| "apply_op (Op_NewTimer duration) d = clock_new_timer duration d"
| "apply_op (Op_Stop a) d = ([], snd (timer_stop a d))"
| "apply_op (Op_Receive a) d = ([], timer_receive a d)"
| "apply_op (Op_Poll n) d = ([], snd (poll_timers (\<lambda>pending. n \<le> pending) d))"

fun clock_run :: "clock_op list \<Rightarrow> det_clock \<Rightarrow> nat list \<times> det_clock" where
  "clock_run [] d = ([], d)"
| "clock_run (op # ops) d =
     (case apply_op op d of (fired, d) \<Rightarrow>
        (case clock_run ops d of (log, d) \<Rightarrow> (fired @ log, d)))"

definition clock_ok :: "det_clock \<Rightarrow> bool" where
  "clock_ok d \<longleftrightarrow> clock_core d \<and>
     (\<forall>a\<in>pending d. sint (dc_elapsed d) < sint (tm_deadline (timer_of d a)))"

text \<open>A waiter is woken, or nothing it could wait for has happened.\<close>

definition wakes :: "det_clock \<Rightarrow> det_clock \<Rightarrow> bool" where
  "wakes d d' \<longleftrightarrow> dc_notified d \<le> dc_notified d' \<and>
     (dc_changed d \<noteq> None \<longrightarrow>
        dc_notified d < dc_notified d' \<or> pending d' = pending d \<and> dc_changed d' = dc_changed d)"

text \<open>The timers known before keep their keys.\<close>

definition keeps_timers :: "det_clock \<Rightarrow> det_clock \<Rightarrow> bool" where
  "keeps_timers d d' \<longleftrightarrow> length (th_timers (dc_timers d)) \<le> length (th_timers (dc_timers d')) \<and>
     (\<forall>b<length (th_timers (dc_timers d)).
        tm_deadline (timer_of d' b) = tm_deadline (timer_of d b) \<and>
        (\<not> tm_active (timer_of d b) \<longrightarrow> \<not> tm_active (timer_of d' b)))"

text \<open>An operation after which the timers \<^verbatim>\<open>P\<close> are fired or pending, each by its deadline.\<close>

definition clock_outcome :: "nat set \<Rightarrow> det_clock \<Rightarrow> nat list \<Rightarrow> det_clock \<Rightarrow> bool" where
  "clock_outcome P d fired d' \<longleftrightarrow>
     set fired \<union> pending d' = P \<and> set fired \<inter> pending d' = {} \<and>
     sorted_wrt (\<lambda>a b. (sint (tm_deadline (timer_of d' a)), a) < (sint (tm_deadline (timer_of d' b)), b)) fired \<and>
     (\<forall>a\<in>set fired. sint (tm_deadline (timer_of d' a)) \<le> sint (dc_elapsed d') \<and>
        tm_channel (timer_of d' a) = Some (clock_now d')) \<and>
     (\<forall>a\<in>pending d'. sint (dc_elapsed d') < sint (tm_deadline (timer_of d' a))) \<and>
     sint (dc_elapsed d) \<le> sint (dc_elapsed d')"

definition created :: "clock_op \<Rightarrow> det_clock \<Rightarrow> nat set" where
  "created op d = (case op of Op_NewTimer _ \<Rightarrow> {length (th_timers (dc_timers d))} | _ \<Rightarrow> {})"

definition stopped :: "clock_op \<Rightarrow> nat set" where
  "stopped op = (case op of Op_Stop a \<Rightarrow> {a} | _ \<Rightarrow> {})"

definition op_sound :: "nat set \<Rightarrow> det_clock \<Rightarrow> nat list \<Rightarrow> det_clock \<Rightarrow> bool" where
  "op_sound P d fired d' \<longleftrightarrow>
     clock_outcome P d fired d' \<and> clock_core d' \<and> wakes d d' \<and> keeps_timers d d' \<and>
     set fired \<subseteq> {..<length (th_timers (dc_timers d'))}"

lemma pending_active:
  "clock_core d \<Longrightarrow> a \<in> pending d \<longleftrightarrow> a < length (th_timers (dc_timers d)) \<and> tm_active (timer_of d a)"
  using pending_in_store [of d a] by (auto simp: clock_core_def pending_def)

lemma fire_due_sound:
  assumes core: "clock_core d" and fire: "fire_due_timers d = (fired, d')"
  shows "op_sound (pending d) d fired d'"
proof -
  have f: "fires (dc_elapsed d) d fired d'" and core': "clock_core d'"
    using fire_loop_ok [OF core] fire by (simp_all add: fire_due_timers_def)
  have ok: "heap_ok (dc_timers d)" using core by (simp add: clock_core_def)
  note store = pending_in_store [OF ok]
  have same: "same_clock d d'" using f by (simp add: fires_def)
  have pend: "pending d' = pending d - set fired" and set: "set fired = due (dc_elapsed d) d"
    using f by (simp_all add: fires_def)
  have timer: "tm_deadline (timer_of d' b) = tm_deadline (timer_of d b)"
      "b \<in> set fired \<Longrightarrow> tm_channel (timer_of d' b) = Some (clock_now d')"
      "\<not> tm_active (timer_of d b) \<Longrightarrow> \<not> tm_active (timer_of d' b)"
    if "b < length (th_timers (dc_timers d))" for b
    using f that same fields_of_unindexed [of "timer_of d' b"] fields_of_unindexed [of "timer_of d b"]
    by (auto simp: fires_def fired_timer_def clock_now_def same_clock_def split: if_splits)
  have key: "clock_key d b = (sint (tm_deadline (timer_of d' b)), Suc b)"
    if "b < length (th_timers (dc_timers d))" for b
    using core that timer(1) by (simp add: timer_key_def clock_core_def)
  have fired_store: "b < length (th_timers (dc_timers d))" if "b \<in> set fired" for b
    using that set store by (auto simp: due_def)
  have "sorted_wrt (\<lambda>a b. clock_key d a < clock_key d b) fired" using f by (simp add: fires_def)
  then have "sorted_wrt (\<lambda>a b. (sint (tm_deadline (timer_of d' a)), a) < (sint (tm_deadline (timer_of d' b)), b)) fired"
    by (rule sorted_wrt_mono_rel [rotated]) (auto simp: key fired_store)
  moreover have "sint (tm_deadline (timer_of d' a)) \<le> sint (dc_elapsed d')" if "a \<in> set fired" for a
    using that set timer(1) fired_store [OF that] same by (simp add: due_def same_clock_def)
  moreover have "sint (dc_elapsed d') < sint (tm_deadline (timer_of d' a))" if "a \<in> pending d'" for a
    using that pend set timer(1) store same by (auto simp: due_def same_clock_def)
  ultimately have "clock_outcome (pending d) d fired d'"
    using pend set timer(2) fired_store same by (auto simp: clock_outcome_def due_def same_clock_def)
  moreover have "wakes d d'"
    using f pend by (auto simp: wakes_def fires_def notifies_def split: if_splits)
  moreover have "keeps_timers d d'" using same timer by (simp add: keeps_timers_def same_clock_def)
  moreover have "set fired \<subseteq> {..<length (th_timers (dc_timers d'))}"
    using fired_store same by (auto simp: same_clock_def)
  ultimately show ?thesis using core' by (simp add: op_sound_def)
qed

lemma op_sound_after:
  assumes "wakes d d1" "keeps_timers d d1" "sint (dc_elapsed d) \<le> sint (dc_elapsed d1)" "op_sound P d1 fired d'"
  shows "op_sound P d fired d'"
  using assms by (auto simp: op_sound_def clock_outcome_def wakes_def keeps_timers_def)

lemma moved_time:
  assumes "clock_core d" "dc_timers d1 = dc_timers d" "dc_changed d1 = dc_changed d"
    "dc_notified d1 = dc_notified d" "dc_sequence d1 = dc_sequence d"
    "dc_tick_duration d1 = dc_tick_duration d" "sint (dc_elapsed d) \<le> sint (dc_elapsed d1)"
    "fire_due_timers d1 = (fired, d')"
  shows "op_sound (pending d) d fired d'"
proof (rule op_sound_after [of d d1])
  have "clock_core d1" "pending d1 = pending d" using assms by (simp_all add: clock_core_def pending_def)
  then show "op_sound (pending d) d1 fired d'" using fire_due_sound [of d1] assms(8) by simp
qed (use assms in \<open>simp_all add: wakes_def keeps_timers_def pending_def\<close>)

lemma advance_elapsed_fields [simp]:
  "dc_timers (advance_elapsed_locked delta d) = dc_timers d"
  "dc_changed (advance_elapsed_locked delta d) = dc_changed d"
  "dc_notified (advance_elapsed_locked delta d) = dc_notified d"
  "dc_sequence (advance_elapsed_locked delta d) = dc_sequence d"
  "dc_tick_duration (advance_elapsed_locked delta d) = dc_tick_duration d"
  by (simp_all add: advance_elapsed_locked_def)

lemma advance_elapsed_later:
  "0 \<le> sint (dc_elapsed d) \<Longrightarrow> sint (dc_elapsed d) \<le> sint (dc_elapsed (advance_elapsed_locked delta d))"
  using saturating_add_exact [of "dc_elapsed d" delta] sint_range [of "dc_elapsed d"]
  by (simp add: advance_elapsed_locked_def)

lemma set_elapsed_fields [simp]:
  "dc_timers (set_elapsed_at_least target d) = dc_timers d"
  "dc_changed (set_elapsed_at_least target d) = dc_changed d"
  "dc_notified (set_elapsed_at_least target d) = dc_notified d"
  "dc_sequence (set_elapsed_at_least target d) = dc_sequence d"
  "dc_tick_duration (set_elapsed_at_least target d) = dc_tick_duration d"
  "sint (dc_elapsed d) \<le> sint (dc_elapsed (set_elapsed_at_least target d))"
  by (simp_all add: set_elapsed_at_least_def)

lemma core_elapsed: "clock_core d \<Longrightarrow> 0 \<le> sint (dc_elapsed d)"
  by (simp add: clock_core_def)

lemma advance_sound: "clock_core d \<Longrightarrow> clock_advance d = (fired, d') \<Longrightarrow> op_sound (pending d) d fired d'"
  using advance_elapsed_later [of "d\<lparr>dc_tick := dc_tick d + 1\<rparr>" "dc_tick_duration d"] core_elapsed [of d]
  by (intro moved_time [of d "if dc_tick d \<noteq> - 1
      then advance_elapsed_locked (dc_tick_duration d) (d\<lparr>dc_tick := dc_tick d + 1\<rparr>) else d"])
    (auto simp: clock_advance_def Let_def)

lemma advance_to_sound:
  "clock_core d \<Longrightarrow> clock_advance_to target d = (fired, d') \<Longrightarrow> op_sound (pending d) d fired d'"
  using set_elapsed_fields(6) [of "d\<lparr>dc_tick := target\<rparr>"]
  by (intro moved_time [of d "if target > dc_tick d
      then (case multiply_duration target (dc_tick_duration d) of
              Some elapsed \<Rightarrow> set_elapsed_at_least elapsed (d\<lparr>dc_tick := target\<rparr>)
            | None \<Rightarrow> set_elapsed_at_least max_duration (d\<lparr>dc_tick := target\<rparr>)) else d"])
    (auto simp: clock_advance_to_def Let_def split: option.split)

lemma advance_by_sound:
  "clock_core d \<Longrightarrow> clock_advance_by duration d = (fired, d') \<Longrightarrow> op_sound (pending d) d fired d'"
  using advance_elapsed_later [of d duration] core_elapsed [of d]
  by (intro moved_time [of d "advance_elapsed_locked duration d"]) (simp_all add: clock_advance_by_def)

lemma advance_to_elapsed_sound:
  "clock_core d \<Longrightarrow> clock_advance_to_elapsed target d = (fired, d') \<Longrightarrow> op_sound (pending d) d fired d'"
  by (rule moved_time [of d "if sint target > sint (dc_elapsed d)
      then d\<lparr>dc_elapsed := if sint target < 0 then 0 else target\<rparr> else d"])
    (auto simp: clock_advance_to_elapsed_def clock_core_def)

lemma new_timer_sound:
  assumes core: "clock_core d" and new: "clock_new_timer duration d = (fired, d')"
  shows "op_sound (insert (length (th_timers (dc_timers d))) (pending d)) d fired d'"
proof -
  let ?n = "length (th_timers (dc_timers d))"
  let ?t = "\<lparr>tm_deadline = saturating_add (dc_elapsed d) duration, tm_sequence = Suc (dc_sequence d),
      tm_channel = None, tm_active = True, tm_index = - 1\<rparr>"
  let ?d = "notify_timers_changed (d\<lparr>dc_sequence := Suc (dc_sequence d), dc_timers := heap_push ?t (dc_timers d)\<rparr>)"
  have ok: "heap_ok (dc_timers d)" using core by (simp add: clock_core_def)
  note push = heap_push_ok [OF ok, of ?t]
  have len: "length (th_timers (heap_push ?t (dc_timers d))) = Suc ?n"
    using arg_cong [OF push(4), of length] by simp
  have seq: "dc_sequence d = ?n" using core by (simp add: clock_core_def)
  have old: "unindexed (timer_of ?d b) = unindexed (timer_of d b)" if "b < ?n" for b
    using arg_cong [OF push(4), of "\<lambda>ts. ts ! b"] that len by (simp add: nth_append)
  have added: "unindexed (timer_of ?d ?n) = unindexed ?t"
    using arg_cong [OF push(4), of "\<lambda>ts. ts ! ?n"] len by (simp add: nth_append)
  have changed: "dc_changed ?d = None"
      "dc_notified ?d = dc_notified d + (if dc_changed d = None then 0 else 1)"
    by (simp_all add: notify_timers_changed_def split: option.split)
  have pend: "pending ?d = insert ?n (pending d)" using push(2) by (simp add: pending_def)
  have "?n \<notin> pending d" using pending_in_store [OF ok] by blast
  then have timers: "tm_sequence (timer_of ?d b) = Suc b \<and> (tm_active (timer_of ?d b) = (b \<in> pending ?d)) \<and>
      (tm_active (timer_of ?d b) \<longrightarrow> tm_channel (timer_of ?d b) = None)" if "b < Suc ?n" for b
    using that core unindexed_fields [OF old [of b]] unindexed_fields [OF added] pend
    by (cases "b = ?n") (auto simp: clock_core_def pending_def)
  then have "clock_core ?d"
    using push(1) core changed len [unfolded seq] by (simp add: clock_core_def pending_def)
  moreover have "fire_due_timers ?d = (fired, d')"
    using new by (simp add: clock_new_timer_def Let_def)
  ultimately have "op_sound (pending ?d) ?d fired d'" by (rule fire_due_sound)
  moreover have "keeps_timers d ?d"
    using unindexed_fields [OF old] by (simp add: keeps_timers_def len)
  moreover have "wakes d ?d" using changed by (simp add: wakes_def)
  ultimately show ?thesis unfolding pend by (intro op_sound_after [of d ?d]) simp_all
qed

lemma nothing_fired:
  assumes "clock_ok d" "clock_core d'" "pending d' \<subseteq> pending d" "dc_elapsed d' = dc_elapsed d"
    "length (th_timers (dc_timers d')) = length (th_timers (dc_timers d))"
    "\<And>b. b < length (th_timers (dc_timers d)) \<Longrightarrow> tm_deadline (timer_of d' b) = tm_deadline (timer_of d b)"
    "\<And>b. b < length (th_timers (dc_timers d)) \<Longrightarrow> tm_active (timer_of d' b) \<Longrightarrow> tm_active (timer_of d b)"
    "wakes d d'"
  shows "op_sound (pending d') d [] d'"
proof -
  have "a < length (th_timers (dc_timers d))" if "a \<in> pending d'" for a
    using that assms(1,3) pending_active by (auto simp: clock_ok_def)
  then show ?thesis
    using assms by (auto simp: op_sound_def clock_outcome_def keeps_timers_def clock_ok_def)
qed

lemma placed_index:
  assumes "clock_core d" "a \<in> pending d"
  obtains i where "i < length (th_heap (dc_timers d))" "th_heap (dc_timers d) ! i = a"
    "tm_index (timer_of d a) = int i"
proof -
  obtain i where i: "i < length (th_heap (dc_timers d))" "th_heap (dc_timers d) ! i = a"
    using assms(2) by (auto simp: pending_def in_set_conv_nth)
  then have "tm_index (timer_of d a) = int i"
    using assms(1) by (auto simp: clock_core_def heap_ok_def placed_def heap_timer_def)
  then show thesis using i that by blast
qed

lemma stop_sound:
  assumes ok: "clock_ok d" and stop: "timer_stop a d = (r, d')"
  shows "op_sound (pending d - {a}) d [] d' \<and> r = (a \<in> pending d)"
proof (cases "a \<in> pending d")
  case False
  have core: "clock_core d" using ok by (simp add: clock_ok_def)
  then have "a \<ge> length (th_timers (dc_timers d)) \<or> \<not> tm_active (timer_of d a)"
    using False pending_active [OF core, of a] by auto
  then have "r = False" "d' = d" using stop by (auto simp: timer_stop_def Let_def)
  moreover have "op_sound (pending d) d [] d"
    using core by (intro nothing_fired [OF ok]) (simp_all add: wakes_def)
  ultimately show ?thesis using False by simp
next
  case True
  have core: "clock_core d" using ok by (simp add: clock_ok_def)
  let ?h = "dc_timers d"
  let ?h1 = "update_timer a (\<lambda>t. t\<lparr>tm_active := False\<rparr>) ?h"
  obtain i where i: "i < length (th_heap ?h)" "th_heap ?h ! i = a" "tm_index (timer_of d a) = int i"
    using placed_index [OF core True] by blast
  have a: "a < length (th_timers ?h)" "tm_active (timer_of d a)"
    using True pending_active [OF core] by simp_all
  note nth1 = update_timer_nth [OF a(1), of "\<lambda>t. t\<lparr>tm_active := False\<rparr>"]
  have ok1: "heap_ok ?h1"
    using core by (intro heap_ok_update) (simp_all add: clock_core_def heap_ok_def)
  have i1: "i < length (th_heap ?h1)" using i by simp
  let ?h2 = "heap_remove i ?h1"
  note removed = heap_remove_ok [OF ok1 i1]
  have len2: "length (th_timers ?h2) = length (th_timers ?h)"
    using arg_cong [OF removed(3), of length] by simp
  have old2: "unindexed (th_timers ?h2 ! b) = unindexed (th_timers ?h1 ! b)" if "b < length (th_timers ?h)" for b
    using unindexed_nth [OF removed(3)] that by simp
  let ?h3 = "update_timer a (\<lambda>t. t\<lparr>tm_index := - 1\<rparr>) ?h2"
  have a2: "a < length (th_timers ?h2)" using a len2 by simp
  note nth3 = update_timer_nth [OF a2, of "\<lambda>t. t\<lparr>tm_index := - 1\<rparr>"]
  have ok3: "heap_ok ?h3" using removed(1,2) i by (intro heap_ok_update) auto
  have r: "r = True" and d': "d' = notify_timers_changed (d\<lparr>dc_timers := ?h3\<rparr>)"
    using stop a i by (simp_all add: timer_stop_def Let_def nth1)
  have timer: "tm_deadline (timer_of d' b) = tm_deadline (timer_of d b)"
      "tm_sequence (timer_of d' b) = tm_sequence (timer_of d b)"
      "tm_channel (timer_of d' b) = tm_channel (timer_of d b)"
      "tm_active (timer_of d' b) = (tm_active (timer_of d b) \<and> b \<noteq> a)"
    if "b < length (th_timers ?h)" for b
    using unindexed_fields [OF old2 [OF that]] by (auto simp: d' nth3 nth1)
  have pend: "pending d' = pending d - {a}" using removed(2) i by (simp add: d' pending_def)
  have changed: "dc_changed d' = None" "dc_notified d' = dc_notified d + (if dc_changed d = None then 0 else 1)"
    by (simp_all add: d' notify_timers_changed_def split: option.split)
  have len: "length (th_timers (dc_timers d')) = length (th_timers ?h)" by (simp add: d' len2)
  have core': "clock_core d'"
    using core ok3 timer pend changed len unfolding clock_core_def pending_def [symmetric]
    by (simp add: d')
  have "op_sound (pending d') d [] d'"
    using pend timer changed by (intro nothing_fired [OF ok core' _ _ len]) (auto simp: d' wakes_def)
  then show ?thesis using pend r True by simp
qed

lemma receive_sound:
  assumes ok: "clock_ok d"
  shows "op_sound (pending d) d [] (timer_receive a d)"
proof -
  let ?d = "timer_receive a d"
  have core: "clock_core d" using ok by (simp add: clock_ok_def)
  have timer: "tm_deadline (timer_of ?d b) = tm_deadline (timer_of d b)"
      "tm_sequence (timer_of ?d b) = tm_sequence (timer_of d b)"
      "tm_active (timer_of ?d b) = tm_active (timer_of d b)"
      "tm_channel (timer_of d b) = None \<Longrightarrow> tm_channel (timer_of ?d b) = None" for b
    by (cases "a < length (th_timers (dc_timers d))";
        simp add: timer_receive_def update_timer_nth list_update_beyond; simp add: update_timer_def list_update_beyond)+
  have "heap_ok (dc_timers ?d)"
    using core unfolding timer_receive_def
    by (simp, intro heap_ok_update) (simp_all add: clock_core_def heap_ok_def)
  moreover have pend: "pending ?d = pending d" by (simp add: timer_receive_def pending_def)
  moreover have same: "length (th_timers (dc_timers ?d)) = length (th_timers (dc_timers d))"
      "dc_elapsed ?d = dc_elapsed d" "dc_changed ?d = dc_changed d" "dc_notified ?d = dc_notified d"
      "dc_sequence ?d = dc_sequence d" "dc_tick_duration ?d = dc_tick_duration d"
    by (simp_all add: timer_receive_def)
  ultimately have core': "clock_core ?d"
    using core timer unfolding clock_core_def pending_def [symmetric] by simp
  have "op_sound (pending ?d) d [] ?d"
    using pend same timer by (intro nothing_fired [OF ok core']) (simp_all add: wakes_def)
  then show ?thesis using pend by simp
qed

lemma poll_sound:
  assumes ok: "clock_ok d" and poll: "poll_timers ready d = (c, d')"
  shows "op_sound (pending d) d [] d'"
proof -
  have core: "clock_core d" using ok by (simp add: clock_ok_def)
  have same: "dc_timers d' = dc_timers d" "dc_elapsed d' = dc_elapsed d" "dc_notified d' = dc_notified d"
      "dc_sequence d' = dc_sequence d" "dc_tick_duration d' = dc_tick_duration d"
      "dc_changed d' = dc_changed d \<or> dc_changed d = None \<and> dc_changed d' = Some (dc_notified d)"
    using poll by (auto simp: poll_timers_def split: if_splits option.splits)
  then have core': "clock_core d'" using core by (auto simp: clock_core_def)
  have pend: "pending d' = pending d" using same by (simp add: pending_def)
  have "op_sound (pending d') d [] d'"
    using pend same by (intro nothing_fired [OF ok core']) (auto simp: wakes_def)
  then show ?thesis using pend by simp
qed

lemma apply_op_sound:
  assumes ok: "clock_ok d" and op: "apply_op op d = (fired, d')"
  shows "op_sound (pending d \<union> created op d - stopped op) d fired d'"
proof -
  have core: "clock_core d" using ok by (simp add: clock_ok_def)
  have to_time: "op_sound (pending d) d fired d'" if "clock_advance_to_time t d = (fired, d')" for t
    using that advance_to_elapsed_sound [OF core] unfolding clock_advance_to_time_def Let_def by blast
  have stop: "op_sound (pending d - {a}) d [] (snd (timer_stop a d))" for a
    using stop_sound [OF ok, of a] by (cases "timer_stop a d") simp
  have poll: "op_sound (pending d) d [] (snd (poll_timers p d))" for p
    using poll_sound [OF ok, of p] by (cases "poll_timers p d") simp
  show ?thesis
    using op stop poll receive_sound [OF ok] advance_sound [OF core] advance_to_sound [OF core]
      advance_by_sound [OF core] advance_to_elapsed_sound [OF core] to_time new_timer_sound [OF core]
    by (cases op) (auto simp: created_def stopped_def)
qed

lemma op_sound_ok: "op_sound P d fired d' \<Longrightarrow> clock_ok d'"
  by (simp add: op_sound_def clock_ok_def clock_outcome_def)

lemma new_clock_ok: "clock_ok (new_deterministic base tick)"
  by (simp add: clock_ok_def clock_core_def new_deterministic_def pending_def heap_ok_def placed_def
      key_heap_def millisecond_def)

lemma clock_run_ok: "clock_ok d \<Longrightarrow> clock_run ops d = (log, d') \<Longrightarrow> clock_ok d'"
proof (induction ops arbitrary: d log)
  case (Cons op ops)
  obtain fired d1 where op: "apply_op op d = (fired, d1)" by fastforce
  have "clock_ok d1" using apply_op_sound [OF Cons.prems(1) op] by (rule op_sound_ok)
  then show ?case using Cons op by (auto split: prod.splits)
qed simp

lemma sorted_distinct: "sorted_wrt (\<lambda>a b. (f a :: int, a :: nat) < (f b, b)) xs \<Longrightarrow> distinct xs"
  by (induction xs) auto

lemma op_soundD:
  assumes "op_sound P d fired d'"
  shows "set fired \<union> pending d' = P" "set fired \<inter> pending d' = {}" "distinct fired"
    "set fired \<subseteq> {..<length (th_timers (dc_timers d'))}"
    "pending d' \<subseteq> {..<length (th_timers (dc_timers d'))}"
    "length (th_timers (dc_timers d)) \<le> length (th_timers (dc_timers d'))" "wakes d d'"
  using assms sorted_distinct pending_active [of d']
  by (auto simp: op_sound_def clock_outcome_def keeps_timers_def simp del: less_prod_simp)

lemma log_chain:
  fixes F L A A1 A2 :: "nat set"
  assumes "F \<union> A1 \<subseteq> A \<union> {n..<n1}" "F \<inter> A1 = {}" "F \<subseteq> {..<n1}"
    "L \<union> A2 \<subseteq> A1 \<union> {n1..<n2}" "L \<inter> A2 = {}" "n \<le> n1" "n1 \<le> n2"
  shows "F \<inter> L = {}" "(F \<union> L) \<inter> A2 = {}" "(F \<union> L) \<union> A2 \<subseteq> A \<union> {n..<n2}"
proof -
  have apart: "F \<inter> (A1 \<union> {n1..<n2}) = {}" using assms(2,3) by fastforce
  then show "F \<inter> L = {}" "(F \<union> L) \<inter> A2 = {}" using assms(4,5) by blast+
  have "{n..<n1} \<subseteq> {n..<n2}" "{n1..<n2} \<subseteq> {n..<n2}" using assms(6,7) by auto
  then show "(F \<union> L) \<union> A2 \<subseteq> A \<union> {n..<n2}" using assms(1,4) by blast
qed

lemma clock_run_log:
  "clock_ok d \<Longrightarrow> clock_run ops d = (log, d') \<Longrightarrow>
   distinct log \<and> set log \<inter> pending d' = {} \<and>
   length (th_timers (dc_timers d)) \<le> length (th_timers (dc_timers d')) \<and>
   set log \<union> pending d' \<subseteq>
     pending d \<union> {length (th_timers (dc_timers d))..<length (th_timers (dc_timers d'))}"
proof (induction ops arbitrary: d log)
  case (Cons op ops)
  obtain fired d1 where op: "apply_op op d = (fired, d1)" by fastforce
  obtain rest where rest: "clock_run ops d1 = (rest, d')" "log = fired @ rest"
    using Cons.prems(2) op by (auto split: prod.splits)
  have sound: "op_sound (pending d \<union> created op d - stopped op) d fired d1"
    by (rule apply_op_sound [OF Cons.prems(1) op])
  then have ok1: "clock_ok d1" by (rule op_sound_ok)
  have IH: "distinct rest \<and> set rest \<inter> pending d' = {} \<and>
      length (th_timers (dc_timers d1)) \<le> length (th_timers (dc_timers d')) \<and>
      set rest \<union> pending d' \<subseteq>
        pending d1 \<union> {length (th_timers (dc_timers d1))..<length (th_timers (dc_timers d'))}"
    by (rule Cons.IH [OF ok1 rest(1)])
  note fired = op_soundD [OF sound]
  have new: "set fired \<union> pending d1 \<subseteq>
      pending d \<union> {length (th_timers (dc_timers d))..<length (th_timers (dc_timers d1))}"
  proof
    fix x assume x: "x \<in> set fired \<union> pending d1"
    then have "x < length (th_timers (dc_timers d1))" using fired(4,5) by auto
    moreover have "x \<in> pending d \<or> x = length (th_timers (dc_timers d))"
      using x fired(1) by (auto simp: created_def split: clock_op.splits)
    ultimately show "x \<in> pending d \<union> {length (th_timers (dc_timers d))..<length (th_timers (dc_timers d1))}"
      by auto
  qed
  have r: "set rest \<union> pending d' \<subseteq>
        pending d1 \<union> {length (th_timers (dc_timers d1))..<length (th_timers (dc_timers d'))}"
    "set rest \<inter> pending d' = {}" "length (th_timers (dc_timers d1)) \<le> length (th_timers (dc_timers d'))"
    "distinct rest" using IH by simp_all
  then show ?case
    using log_chain [OF new fired(2,4) r(1,2) fired(6) r(3)] fired(3,6) r(3,4) rest(2) by simp
qed simp

lemma wakes_trans: "wakes d d1 \<Longrightarrow> wakes d1 d' \<Longrightarrow> wakes d d'"
  unfolding wakes_def by (elim conjE) (metis order.trans order.strict_trans1 order.strict_trans2)

lemma clock_run_wakes:
  "clock_ok d \<Longrightarrow> clock_run ops d = (log, d') \<Longrightarrow> wakes d d'"
proof (induction ops arbitrary: d log)
  case (Cons op ops)
  obtain fired d1 where op: "apply_op op d = (fired, d1)" by fastforce
  have sound: "op_sound (pending d \<union> created op d - stopped op) d fired d1"
    by (rule apply_op_sound [OF Cons.prems(1) op])
  then have ok1: "clock_ok d1" by (rule op_sound_ok)
  obtain rest where "clock_run ops d1 = (rest, d')"
    using Cons.prems(2) op by (auto split: prod.splits)
  then have "wakes d1 d'" by (rule Cons.IH [OF ok1])
  with op_soundD(7) [OF sound] show ?case by (rule wakes_trans)
qed (simp add: wakes_def)

section \<open>The clock's guarantees\<close>

text \<open>
  C13: Whatever has happened to a virtual clock, one more operation on it fires exactly those of its
  pending timers (and of the one it creates) that its new time has reached, in the order of their
  deadlines and then of their creation; each receives the new time; all others stay pending, with
  deadlines still to come, and time never goes back.
\<close>

theorem timers_fire_in_order:
  assumes "clock_run before (new_deterministic base tick) = (log, d)" "apply_op op d = (fired, d')"
  shows "clock_outcome (pending d \<union> created op d - stopped op) d fired d'"
  using apply_op_sound [OF clock_run_ok [OF new_clock_ok assms(1)] assms(2)] by (simp add: op_sound_def)

definition three_timers :: "clock_op list" where
  "three_timers = [Op_NewTimer 30, Op_NewTimer 10, Op_NewTimer 10, Op_NewTimer 50]"

definition armed_clock :: det_clock where
  "armed_clock = snd (clock_run three_timers (new_deterministic 0 1))"

lemma armed_clock_run: "clock_run three_timers (new_deterministic 0 1) = ([], armed_clock)"
  by code_simp

lemma timers_fire_in_order_witness:
  "clock_outcome {0, 1, 2, 3} armed_clock [1, 2, 0] (snd (clock_advance_by 40 armed_clock))"
proof -
  have "apply_op (Op_AdvanceBy 40) armed_clock = ([1, 2, 0], snd (clock_advance_by 40 armed_clock))"
    by code_simp
  moreover have "pending armed_clock \<union> created (Op_AdvanceBy 40) armed_clock - stopped (Op_AdvanceBy 40)
      = {0, 1, 2, 3}"
    by code_simp
  ultimately show ?thesis using timers_fire_in_order [OF armed_clock_run] by metis
qed

text \<open>
  C14: A timer fires at most once, and one whose \<^verbatim>\<open>Stop\<close> reported success never fires, neither before nor
  after, whatever is done to the clock.
\<close>

theorem stopped_timer_never_fires:
  assumes "clock_run before (new_deterministic base tick) = (log, d)" "timer_stop a d = (True, d1)"
    "clock_run after d1 = (log', d')"
  shows "distinct (log @ log') \<and> a \<notin> set (log @ log')"
proof -
  have ok: "clock_ok d" by (rule clock_run_ok [OF new_clock_ok assms(1)])
  then have stop: "op_sound (pending d - {a}) d [] d1" "a \<in> pending d"
    using stop_sound [OF ok assms(2)] by simp_all
  then have ok1: "clock_ok d1" and pend1: "pending d1 = pending d - {a}"
    and len1: "length (th_timers (dc_timers d)) \<le> length (th_timers (dc_timers d1))"
    using op_soundD [OF stop(1)] op_sound_ok by auto
  have log: "distinct log" "set log \<inter> pending d = {}" "set log \<subseteq> {..<length (th_timers (dc_timers d))}"
    using clock_run_log [OF new_clock_ok assms(1)] by (auto simp: new_deterministic_def pending_def)
  have "a < length (th_timers (dc_timers d))" using ok stop(2) pending_active by (auto simp: clock_ok_def)
  then show ?thesis using log clock_run_log [OF ok1 assms(3)] pend1 len1 stop(2) by fastforce
qed

definition stopped_clock :: det_clock where
  "stopped_clock = snd (timer_stop 2 armed_clock)"

lemma stopped_timer_never_fires_witness:
  "timer_stop 2 armed_clock = (True, stopped_clock) \<and>
   fst (clock_run [Op_AdvanceBy 100] stopped_clock) = [1, 0, 3] \<and>
   2 \<notin> set (fst (clock_run [Op_AdvanceBy 100] stopped_clock))"
proof -
  have stop: "timer_stop 2 armed_clock = (True, stopped_clock)"
    and after: "clock_run [Op_AdvanceBy 100] stopped_clock =
      ([1, 0, 3], snd (clock_run [Op_AdvanceBy 100] stopped_clock))"
    by code_simp+
  have "2 \<notin> set ([] @ [1, 0, 3 :: nat])"
    using stopped_timer_never_fires [OF armed_clock_run stop after] by blast
  then show ?thesis using stop by (subst after, subst (2) after) simp
qed

text \<open>
  C15: Nobody who waits for pending timers misses a change: while the channel a waiter was given is
  open, the pending timers are those it saw, and they are still too few.
\<close>

theorem no_lost_wakeup:
  assumes "clock_run before (new_deterministic base tick) = (log, d)"
    "poll_timers ready d = (Some c, d1)" "clock_run after d1 = (log', d')" "\<not> channel_closed c d'"
  shows "pending d' = pending d1 \<and> \<not> ready (card (pending d'))"
proof -
  have ok: "clock_ok d" by (rule clock_run_ok [OF new_clock_ok assms(1)])
  have core: "clock_core d" using ok by (simp add: clock_ok_def)
  have poll: "dc_changed d1 = Some c" "c = dc_notified d1" "\<not> ready (length (th_heap (dc_timers d)))"
      "dc_timers d1 = dc_timers d"
    using assms(2) core by (auto simp: poll_timers_def clock_core_def split: if_splits option.splits)
  have ok1: "clock_ok d1" using poll_sound [OF ok assms(2)] by (rule op_sound_ok)
  have "wakes d1 d'" by (rule clock_run_wakes [OF ok1 assms(3)])
  then have same: "pending d' = pending d1" using poll assms(4) by (auto simp: wakes_def channel_closed_def)
  have "distinct (th_heap (dc_timers d))" using core by (simp add: clock_core_def heap_ok_def placed_def)
  then show ?thesis using same poll by (simp add: pending_def distinct_card)
qed

definition polled_clock :: det_clock where
  "polled_clock = snd (poll_timers (\<lambda>n. 5 \<le> n) armed_clock)"

definition later_clock :: det_clock where
  "later_clock = snd (clock_run [Op_AdvanceBy 5] polled_clock)"

lemma no_lost_wakeup_witness:
  "poll_timers (\<lambda>n. 5 \<le> n) armed_clock = (Some 0, polled_clock) \<and>
   pending later_clock = pending polled_clock \<and> \<not> 5 \<le> card (pending later_clock)"
proof -
  have poll: "poll_timers (\<lambda>n. 5 \<le> n) armed_clock = (Some 0, polled_clock)"
    and after: "clock_run [Op_AdvanceBy 5] polled_clock = ([], later_clock)"
    and "\<not> channel_closed 0 later_clock"
    by code_simp+
  then show ?thesis using no_lost_wakeup [OF armed_clock_run poll after] by blast
qed

text \<open>
  The duration arithmetic of the clock is exact and saturates: a sum of a time and any duration
  is the mathematical sum, cut off at zero and at the largest duration.
\<close>

theorem clock_sums_saturate:
  assumes "0 \<le> sint elapsed"
  shows "sint (saturating_add elapsed delta) = max 0 (min (2 ^ 63 - 1) (sint elapsed + sint delta))"
  using assms by (rule saturating_add_exact)

lemma clock_sums_saturate_witness:
  "sint (saturating_add 5 (- 9)) = 0 \<and> sint (saturating_add max_duration 1) = 2 ^ 63 - 1"
proof -
  have "0 \<le> sint max_duration" by (simp add: sint_max_duration)
  then show ?thesis
    using clock_sums_saturate [of 5 "- 9"] clock_sums_saturate [of max_duration 1]
    by (simp add: sint_max_duration)
qed

section \<open>Deadlines\<close>

lemma context_finish_once: "dx_done c \<Longrightarrow> context_finish e c = c"
  by (simp add: context_finish_def)

text \<open>What happens to a context: its goroutine or a caller polls it, or it is cancelled.\<close>

fun context_events ::
    "((ctx_state \<times> go_error option \<times> int) + go_error) list \<Rightarrow> deadline_context \<Rightarrow> deadline_context" where
  "context_events [] c = c"
| "context_events (Inl (parent, cause, now) # es) c = context_events es (context_done parent cause now c)"
| "context_events (Inr e # es) c = context_events es (context_finish e c)"

lemma context_done_once: "dx_done c \<Longrightarrow> context_done parent cause now c = c"
  by (simp add: context_done_def context_finish_once)

text \<open>A context that has ended keeps its error for good.\<close>

lemma context_settled: "dx_done c \<Longrightarrow> context_events es c = c"
  by (induction es c rule: context_events.induct) (simp_all add: context_done_once context_finish_once)

text \<open>A live context under a live parent ends exactly when its clock has reached the deadline.\<close>

lemma context_error_by_deadline:
  assumes "\<not> dx_done c" "dx_err c = None"
  shows "fst (context_error CtxLive cause now c) =
    (if dx_deadline c \<le> now then Some CtxDeadlineExceeded else None)"
  using assms by (simp add: context_error_def Let_def context_done_def context_finish_def)

text \<open>
  The timer of \<^verbatim>\<open>withDeadline\<close> is set to the deadline itself, as long as that is still to come and
  within the range of durations.
\<close>

lemma time_sub_exact:
  "- (2 ^ 63) \<le> t - u \<Longrightarrow> t - u < 2 ^ 63 \<Longrightarrow> sint (time_sub t u) = t - u"
  by (simp add: time_sub_def sint_in_range sint_sbintrunc' del: of_int_diff)

lemma deadline_timer_exact:
  assumes ok: "clock_ok d" and future: "clock_now d \<le> deadline" "deadline - dc_base d < 2 ^ 63"
  shows "sint (saturating_add (dc_elapsed d) (time_sub deadline (clock_now d))) = deadline - dc_base d"
proof -
  have "0 \<le> sint (dc_elapsed d)" using ok by (simp add: clock_ok_def clock_core_def)
  moreover have "sint (time_sub deadline (clock_now d)) = deadline - clock_now d"
    using future calculation by (intro time_sub_exact) (simp_all add: clock_now_def)
  ultimately show ?thesis
    using future by (simp add: saturating_add_exact clock_now_def)
qed

end
