(* ===== verification/Accumulator.thy ===== *)
theory Accumulator
  imports Int64 Mixer_Input "HOL-Library.AList"
begin

text \<open>
  The bounded timeline recorder of \<^verbatim>\<open>go-audio/pkg/mixer/accumulator.go\<close> and
  \<^verbatim>\<open>accumulator_output.go\<close>: sample spans are added into one timeline of 64 bit sums, placed by their
  arrival or by the cursor of their source, and clipped once at the end. Writing the WAV file is
  left out; what is written is in the theory of the WAV format.
\<close>

section \<open>Arithmetic\<close>

definition min_int64 :: go_int where
  "min_int64 = 0x8000000000000000"

definition duration_samples :: "go_int \<Rightarrow> go_int \<Rightarrow> go_int" where
  "duration_samples value rate =
     (if sint value \<le> 0 \<or> sint rate \<le> 0 then 0
      else (let seconds = value div nanos_per_second;
                nanos = value mod nanos_per_second in
            if sint seconds > sint (max_int64 div rate) then max_int64
            else (let whole = seconds * rate in
                  if sint nanos > 0 \<and> sint nanos > sint ((max_int64 - whole) div rate) then max_int64
                  else whole + nanos * rate div nanos_per_second)))"

definition acc_saturating_add :: "go_int \<Rightarrow> go_int \<Rightarrow> go_int" where
  "acc_saturating_add left right =
     (if sint right > 0 \<and> sint left > sint (max_int64 - right) then max_int64
      else if sint right < 0 \<and> sint left < sint (min_int64 - right) then min_int64
      else left + right)"

definition acc_saturating_sub :: "go_int \<Rightarrow> go_int \<Rightarrow> go_int" where
  "acc_saturating_sub left right =
     (if sint right > 0 \<and> sint left < sint (min_int64 + right) then min_int64
      else if sint right < 0 \<and> sint left > sint (max_int64 + right) then max_int64
      else left - right)"

definition max_int64_zero :: "go_int \<Rightarrow> go_int" where
  "max_int64_zero value = (if sint value < 0 then 0 else value)"

section \<open>The accumulator\<close>

record source_key =
  sk_source :: string
  sk_stream :: string
  sk_epoch :: "64 word"

record source_timeline =
  st_anchor :: go_int
  st_last_cursor :: "64 word"
  st_has_cursor :: bool
  st_last_ended :: bool

text \<open>\<^verbatim>\<open>ac_capacity\<close> is the capacity of the sample slice.\<close>

record accumulator =
  ac_rate :: go_int
  ac_max_sample :: nat
  ac_samples :: "go_int list"
  ac_capacity :: nat
  ac_truncated :: bool
  ac_sources :: "(source_key \<times> source_timeline) list"
  ac_active :: "((string \<times> string) \<times> source_key) list"

definition default_accumulator_duration :: go_int where
  "default_accumulator_duration = 600000000000"

definition max_source_timelines :: nat where
  "max_source_timelines = 256"

definition err_duration_bound :: go_error where
  "err_duration_bound = ErrorText ''PCM accumulator duration bound reached''"

definition err_cursor_range :: go_error where
  "err_cursor_range = ErrorText ''PCM accumulator sample cursor is out of range''"

definition err_timeline_bound :: go_error where
  "err_timeline_bound = ErrorText ''PCM accumulator source timeline bound reached''"

definition new_accumulator :: "mix_format \<Rightarrow> go_int \<Rightarrow> accumulator result" where
  "new_accumulator fmt max_duration =
     (if sint (mf_sample_rate fmt) \<le> 0
      then Inl (WrappedError ''sample rate must be positive'' err_invalid_format)
      else if mf_channels fmt \<noteq> 1
      then Inl (WrappedError ''PCM accumulator requires mono audio'' err_invalid_format)
      else (let max_duration = (if sint max_duration \<le> 0 then default_accumulator_duration else max_duration);
                n = duration_samples max_duration (mf_sample_rate fmt) in
            if sint n \<le> 0 \<or> sint n > sint max_int64
            then Inl (WrappedError ''accumulator duration is out of range'' err_invalid_format)
            else Inr \<lparr>ac_rate = mf_sample_rate fmt, ac_max_sample = nat (sint n), ac_samples = [],
                   ac_capacity = 0, ac_truncated = False, ac_sources = [], ac_active = []\<rparr>))"

text \<open>
  The growth of the slice: its capacity doubles from 256 up to the bound. The code's \<^verbatim>\<open>make\<close> panics when the
  capacity found is below the length asked for (\<^verbatim>\<open>None\<close>); new places are zero.
\<close>

function grow_capacity :: "nat \<Rightarrow> nat \<Rightarrow> nat \<Rightarrow> nat" where
  "grow_capacity max_sample needed capacity =
     (if capacity < needed \<and> 0 < capacity
      then (if capacity > max_sample div 2 then max_sample
            else grow_capacity max_sample needed (capacity * 2))
      else capacity)"
  by pat_completeness auto
termination
  by (relation "measure (\<lambda>(m, n, c). n - c)") auto

declare grow_capacity.simps [simp del]

definition ensure_sample_length :: "nat \<Rightarrow> accumulator \<Rightarrow> accumulator option" where
  "ensure_sample_length needed a =
     (let old = length (ac_samples a) in
      if needed \<le> old then Some a
      else if needed \<le> ac_capacity a
      then Some (a\<lparr>ac_samples := ac_samples a @ replicate (needed - old) 0\<rparr>)
      else (let capacity = grow_capacity (ac_max_sample a) needed
                  (if ac_capacity a = 0 then 256 else ac_capacity a) in
            if capacity < needed then None
            else Some (a\<lparr>ac_samples := ac_samples a @ replicate (needed - old) 0,
                         ac_capacity := capacity\<rparr>)))"

definition add_samples :: "nat \<Rightarrow> sample list \<Rightarrow> accumulator \<Rightarrow> accumulator option" where
  "add_samples start samples a =
     map_option (\<lambda>a. a\<lparr>ac_samples := accumulate_from start (ac_samples a) samples\<rparr>)
       (ensure_sample_length (start + length samples) a)"

definition frame_start :: "go_int \<Rightarrow> 64 word \<Rightarrow> bool \<Rightarrow> accumulator \<Rightarrow> nat result \<times> accumulator" where
  "frame_start offset start_sample has_start a =
     (if \<not> has_start then (Inr (nat (sint (max_int64_zero (duration_samples offset (ac_rate a))))), a)
      else if start_sample > max_int64 then (Inl err_cursor_range, a\<lparr>ac_truncated := True\<rparr>)
      else (Inr (unat start_sample), a))"

definition frame_sample_count :: "nat \<Rightarrow> nat \<Rightarrow> accumulator \<Rightarrow> nat result \<times> accumulator" where
  "frame_sample_count start n a =
     (if start \<ge> ac_max_sample a then (Inl err_duration_bound, a\<lparr>ac_truncated := True\<rparr>)
      else (let remaining = ac_max_sample a - start
            in (Inr (if n > remaining then remaining else n), a)))"

text \<open>\<^verbatim>\<open>AddFrame\<close>: the error, and the accumulator; \<^verbatim>\<open>None\<close> is a panic.\<close>

definition add_frame ::
    "go_int \<Rightarrow> 64 word \<Rightarrow> bool \<Rightarrow> sample list \<Rightarrow> accumulator \<Rightarrow> (go_error option \<times> accumulator) option" where
  "add_frame offset start_sample has_start samples a =
     (if samples = [] then Some (None, a)
      else (case frame_start offset start_sample has_start a of
              (Inl e, a) \<Rightarrow> Some (Some e, a)
            | (Inr start, a) \<Rightarrow>
                (case frame_sample_count start (length samples) a of
                   (Inl e, a) \<Rightarrow> Some (Some e, a)
                 | (Inr kept, a) \<Rightarrow>
                     map_option
                       (\<lambda>a. if kept < length samples
                            then (Some err_duration_bound, a\<lparr>ac_truncated := True\<rparr>) else (None, a))
                       (add_samples start (take kept samples) a))))"

definition add_span :: "go_int \<Rightarrow> sample list \<Rightarrow> accumulator \<Rightarrow> (go_error option \<times> accumulator) option" where
  "add_span offset samples a = add_frame offset 0 False samples a"

text \<open>The bookkeeping of \<^verbatim>\<open>AddSource\<close> under its lock: the place of the frame, before it is cut at zero.\<close>

definition place_source ::
    "source_key \<Rightarrow> go_int \<Rightarrow> 64 word \<Rightarrow> bool \<Rightarrow> nat \<Rightarrow> accumulator \<Rightarrow> go_int result \<times> accumulator" where
  "place_source key arrival start_sample ended n a =
     (let identity = (sk_source key, sk_stream key);
          sources = (case map_of (ac_active a) identity of
                       Some previous \<Rightarrow> if previous \<noteq> key then AList.delete previous (ac_sources a) else ac_sources a
                     | None \<Rightarrow> ac_sources a) in
      if map_of sources key = None \<and> length sources \<ge> max_source_timelines
      then (Inl err_timeline_bound, a\<lparr>ac_sources := sources, ac_truncated := True\<rparr>)
      else (let known = map_of sources key \<noteq> None;
                state = (case map_of sources key of
                           Some st \<Rightarrow> st
                         | None \<Rightarrow> \<lparr>st_anchor = 0, st_last_cursor = 0, st_has_cursor = False, st_last_ended = False\<rparr>);
                reset = (\<not> known \<or> \<not> st_has_cursor state \<or> st_last_ended state \<or> start_sample < st_last_cursor state);
                anchor = (if reset then acc_saturating_sub arrival start_sample else st_anchor state);
                start = acc_saturating_add anchor start_sample;
                cursor = start_sample + of_nat n;
                cursor = (if cursor < start_sample then - 1 else cursor);
                state = \<lparr>st_anchor = anchor, st_last_cursor = cursor, st_has_cursor = True, st_last_ended = ended\<rparr>
            in (Inr start,
                a\<lparr>ac_sources := AList.update key state sources,
                  ac_active := AList.update identity key (ac_active a)\<rparr>)))"

definition add_source ::
    "source_key \<Rightarrow> go_int \<Rightarrow> 64 word \<Rightarrow> bool \<Rightarrow> bool \<Rightarrow> sample list \<Rightarrow> accumulator
     \<Rightarrow> (go_error option \<times> accumulator) option" where
  "add_source key offset start_sample has_start ended samples a =
     (if \<not> has_start then add_span offset samples a
      else if start_sample > max_int64 then Some (Some err_cursor_range, a\<lparr>ac_truncated := True\<rparr>)
      else (case place_source key (duration_samples offset (ac_rate a)) start_sample ended (length samples) a of
              (Inl e, a) \<Rightarrow> Some (Some e, a)
            | (Inr start, a) \<Rightarrow> add_frame 0 (if sint start < 0 then 0 else start) True samples a))"

section \<open>The recorded timeline\<close>

definition limit_finalize_target :: "nat \<Rightarrow> accumulator \<Rightarrow> nat \<times> go_error option" where
  "limit_finalize_target target a =
     (let (target, e) = (if target > ac_max_sample a then (ac_max_sample a, Some err_duration_bound)
                         else (target, None)) in
      if target < length (ac_samples a)
      then (if length (ac_samples a) > ac_max_sample a then (ac_max_sample a, Some err_duration_bound)
            else (length (ac_samples a), e))
      else (target, e))"

text \<open>\<^verbatim>\<open>snapshot\<close>: the sums and the bound error; \<^verbatim>\<open>None\<close> is a panic.\<close>

definition snapshot_samples ::
    "go_int \<Rightarrow> accumulator \<Rightarrow> ((go_int list \<times> go_error option) \<times> accumulator) option" where
  "snapshot_samples span a =
     (let (target, e) = limit_finalize_target (nat (sint (duration_samples span (ac_rate a)))) a in
      map_option
        (\<lambda>a. ((take target (ac_samples a),
               if ac_truncated a \<and> e = None then Some err_duration_bound else e), a))
        (ensure_sample_length target a))"

definition clipped_pcm16_values :: "go_int list \<Rightarrow> sample list" where
  "clipped_pcm16_values values = map clip_sample values"

section \<open>Exact arithmetic\<close>

lemma sint_min_int64 [simp]: "sint min_int64 = - (2 ^ 63)"
  by (simp add: min_int64_def)

lemma acc_saturating_add_exact:
  "sint (acc_saturating_add left right) = max (- (2 ^ 63)) (min (2 ^ 63 - 1) (sint left + sint right))"
proof -
  note range = sint_range [of left] sint_range [of right]
  consider "sint right > 0" | "sint right = 0" | "sint right < 0" by linarith
  then show ?thesis
  proof cases
    case 1
    then have "sint (max_int64 - right) = 2 ^ 63 - 1 - sint right"
      using range sint_diff_fits [of max_int64 right] by simp
    then show ?thesis using 1 range sint_add_fits [of left right] by (simp add: acc_saturating_add_def)
  next
    case 2
    then show ?thesis using range sint_add_fits [of left right] by (simp add: acc_saturating_add_def)
  next
    case 3
    then have "sint (min_int64 - right) = - (2 ^ 63) - sint right"
      using range sint_diff_fits [of min_int64 right] by simp
    then show ?thesis using 3 range sint_add_fits [of left right] by (simp add: acc_saturating_add_def)
  qed
qed

lemma acc_saturating_sub_exact:
  "sint (acc_saturating_sub left right) = max (- (2 ^ 63)) (min (2 ^ 63 - 1) (sint left - sint right))"
proof -
  note range = sint_range [of left] sint_range [of right]
  consider "sint right > 0" | "sint right = 0" | "sint right < 0" by linarith
  then show ?thesis
  proof cases
    case 1
    then have "sint (min_int64 + right) = - (2 ^ 63) + sint right"
      using range sint_add_fits [of min_int64 right] by simp
    then show ?thesis using 1 range sint_diff_fits [of left right] by (simp add: acc_saturating_sub_def)
  next
    case 2
    then show ?thesis using range sint_diff_fits [of left right] by (simp add: acc_saturating_sub_def)
  next
    case 3
    then have "sint (max_int64 + right) = 2 ^ 63 - 1 + sint right"
      using range sint_add_fits [of max_int64 right] by simp
    then show ?thesis using 3 range sint_diff_fits [of left right] by (simp add: acc_saturating_sub_def)
  qed
qed

lemma acc_sub_add:
  assumes "0 \<le> sint left" "0 \<le> sint right"
  shows "acc_saturating_add (acc_saturating_sub left right) right = left"
proof -
  have "sint (acc_saturating_add (acc_saturating_sub left right) right) = sint left"
    using assms sint_range [of left] sint_range [of right]
    by (simp add: acc_saturating_add_exact acc_saturating_sub_exact)
  then show ?thesis by (simp add: signed_word_eqI)
qed

text \<open>The samples of a duration: the exact number, rounded down, unless its parts do not fit.\<close>

lemma sint_nanos [simp]: "sint nanos_per_second = 1000000000"
  by (simp add: nanos_per_second_def)

lemma scaled_division:
  assumes "0 < (k :: int)"
  shows "v * r div k = v div k * r + v mod k * r div k"
proof -
  have "v * r = (k * (v div k) + v mod k) * r" by simp
  also have "\<dots> = v mod k * r + k * (v div k * r)" by (simp only: distrib_right mult.assoc add.commute)
  finally show ?thesis using assms by simp
qed

lemma duration_samples_exact:
  assumes v: "0 < sint dur" and r: "0 < sint rate"
  defines "whole \<equiv> sint dur div 1000000000 * sint rate" and "nanos \<equiv> sint dur mod 1000000000"
  shows "sint (duration_samples dur rate) =
    (if whole + nanos * sint rate < 2 ^ 63 then sint dur * sint rate div 1000000000 else 2 ^ 63 - 1)"
proof -
  let ?seconds = "dur div nanos_per_second" and ?nanos = "dur mod nanos_per_second"
  have sec: "sint ?seconds = sint dur div 1000000000" and nan: "sint ?nanos = nanos"
    using sint_div_nonneg [of dur nanos_per_second] v by (simp_all add: nanos_def)
  have sec0: "0 \<le> sint ?seconds" and nan0: "0 \<le> nanos" using v by (simp_all add: sec nanos_def)
  have quot: "sint (max_int64 div rate) = (2 ^ 63 - 1) div sint rate"
    using sint_div_nonneg [of max_int64 rate] r by simp
  have seconds_fit: "sint ?seconds \<le> sint (max_int64 div rate) \<longleftrightarrow> whole < 2 ^ 63"
    unfolding quot using le_quotient [OF r, of "sint ?seconds" "2 ^ 63 - 1"]
    unfolding sec whole_def by linarith
  have pos: "0 \<le> nanos * sint rate" using nan0 r by simp
  have exact: "sint dur * sint rate div 1000000000 = whole + nanos * sint rate div 1000000000"
    using scaled_division [of 1000000000 "sint dur" "sint rate"] by (simp add: whole_def nanos_def)
  show ?thesis
  proof (cases "whole < 2 ^ 63")
    case False
    then show ?thesis using v r seconds_fit pos by (simp add: duration_samples_def Let_def not_le)
  next
    case True
    have "0 \<le> whole" using sec0 r by (simp add: sec whole_def)
    then have w: "sint (?seconds * rate) = whole" "0 \<le> whole"
      using True sint_mult_fits [of ?seconds rate] unfolding sec whole_def by linarith+
    have rest: "sint (max_int64 - ?seconds * rate) = 2 ^ 63 - 1 - whole"
      using w True sint_diff_fits [of max_int64 "?seconds * rate"] by simp
    have "sint ((max_int64 - ?seconds * rate) div rate) = (2 ^ 63 - 1 - whole) div sint rate"
      using sint_div_nonneg [of "max_int64 - ?seconds * rate" rate] rest True r by simp
    then have fits: "nanos \<le> sint ((max_int64 - ?seconds * rate) div rate) \<longleftrightarrow> whole + nanos * sint rate < 2 ^ 63"
      using le_quotient [OF r, of nanos "2 ^ 63 - 1 - whole"] by linarith
    show ?thesis
    proof (cases "whole + nanos * sint rate < 2 ^ 63")
      case False
      moreover have "0 < nanos" using False True pos nan0 r by (cases "nanos = 0") simp_all
      ultimately show ?thesis
        using v r True seconds_fit fits nan by (simp add: duration_samples_def Let_def not_le not_less)
    next
      case fit: True
      have product: "sint (?nanos * rate) = nanos * sint rate"
        using fit w pos nan sint_mult_fits [of ?nanos rate] by simp
      then have part: "sint (?nanos * rate div nanos_per_second) = nanos * sint rate div 1000000000"
        using sint_div_nonneg [of "?nanos * rate" nanos_per_second] pos by simp
      have "nanos * sint rate div 1000000000 \<le> nanos * sint rate" "0 \<le> nanos * sint rate div 1000000000"
        using pos by (simp_all add: nonneg_div_le pos_imp_zdiv_nonneg_iff)
      then have "sint (?seconds * rate + ?nanos * rate div nanos_per_second)
          = whole + nanos * sint rate div 1000000000"
        using w part fit sint_add_fits [of "?seconds * rate" "?nanos * rate div nanos_per_second"] by simp
      then show ?thesis
        using v r True seconds_fit fits fit nan exact by (simp add: duration_samples_def Let_def not_less)
    qed
  qed
qed

lemma duration_samples_nonneg: "0 \<le> sint (duration_samples dur rate)"
  using duration_samples_exact [of dur rate]
  by (cases "sint dur \<le> 0 \<or> sint rate \<le> 0")
    (auto simp: duration_samples_def pos_imp_zdiv_nonneg_iff not_le)

section \<open>The timeline\<close>

definition slice_ok :: "accumulator \<Rightarrow> bool" where
  "slice_ok a \<longleftrightarrow> 0 < ac_max_sample a \<and> length (ac_samples a) \<le> ac_max_sample a \<and>
     length (ac_samples a) \<le> ac_capacity a"

definition sum_at :: "nat \<Rightarrow> accumulator \<Rightarrow> go_int" where
  "sum_at i a = (if i < length (ac_samples a) then ac_samples a ! i else 0)"

lemma grow_capacity_enough:
  "needed \<le> max_sample \<Longrightarrow> 0 < capacity \<Longrightarrow> needed \<le> grow_capacity max_sample needed capacity"
proof (induction max_sample needed capacity rule: grow_capacity.induct)
  case (1 max_sample needed capacity)
  then show ?case by (subst grow_capacity.simps) auto
qed

text \<open>Within the bound the slice always grows: the allocation never panics.\<close>

lemma ensure_sample_length_ok:
  assumes ok: "slice_ok a" and "needed \<le> ac_max_sample a"
  obtains c where "ensure_sample_length needed a =
      Some (a\<lparr>ac_samples := ac_samples a @ replicate (needed - length (ac_samples a)) 0, ac_capacity := c\<rparr>)"
    "slice_ok (a\<lparr>ac_samples := ac_samples a @ replicate (needed - length (ac_samples a)) 0, ac_capacity := c\<rparr>)"
proof -
  let ?s = "ac_samples a @ replicate (needed - length (ac_samples a)) 0"
  let ?grown = "grow_capacity (ac_max_sample a) needed (if ac_capacity a = 0 then 256 else ac_capacity a)"
  consider "needed \<le> length (ac_samples a)" | "length (ac_samples a) < needed" "needed \<le> ac_capacity a"
    | "length (ac_samples a) < needed" "ac_capacity a < needed" by linarith
  then show thesis
  proof cases
    case 1
    then show thesis using ok by (intro that [of "ac_capacity a"]) (simp_all add: ensure_sample_length_def Let_def)
  next
    case 2
    then show thesis using ok assms(2)
      by (intro that [of "ac_capacity a"]) (simp_all add: ensure_sample_length_def Let_def slice_ok_def)
  next
    case 3
    have "needed \<le> ?grown" using assms(2) by (intro grow_capacity_enough) simp_all
    then show thesis using 3 ok assms(2)
      by (intro that [of ?grown]) (simp_all add: ensure_sample_length_def Let_def slice_ok_def)
  qed
qed

lemma sum_at_extended [simp]:
  "sum_at i (a\<lparr>ac_samples := ac_samples a @ replicate n 0, ac_capacity := c\<rparr>) = sum_at i a"
  by (simp add: sum_at_def nth_append)

definition span_at :: "nat \<Rightarrow> nat \<Rightarrow> sample list \<Rightarrow> int" where
  "span_at i start samples = (if start \<le> i then sample_at (i - start) samples else 0)"

text \<open>Adding a span within the bound adds its samples at its place, and nothing else.\<close>

lemma add_samples_ok:
  assumes ok: "slice_ok a" and fit: "start + length samples \<le> ac_max_sample a"
  obtains a' where "add_samples start samples a = Some a'" "slice_ok a'"
    "\<And>i. sum_at i a' = sum_at i a + word_of_int (span_at i start samples)"
    "ac_max_sample a' = ac_max_sample a" "ac_rate a' = ac_rate a" "ac_truncated a' = ac_truncated a"
    "ac_sources a' = ac_sources a" "ac_active a' = ac_active a"
proof -
  let ?n = "start + length samples"
  obtain c where c: "ensure_sample_length ?n a =
      Some (a\<lparr>ac_samples := ac_samples a @ replicate (?n - length (ac_samples a)) 0, ac_capacity := c\<rparr>)"
      "slice_ok (a\<lparr>ac_samples := ac_samples a @ replicate (?n - length (ac_samples a)) 0, ac_capacity := c\<rparr>)"
    using ensure_sample_length_ok [OF ok fit] by blast
  let ?b = "a\<lparr>ac_samples := ac_samples a @ replicate (?n - length (ac_samples a)) 0, ac_capacity := c\<rparr>"
  note ensure = c(1) and okb = c(2)
  let ?a = "?b\<lparr>ac_samples := accumulate_from start (ac_samples ?b) samples\<rparr>"
  have n: "?n \<le> length (ac_samples ?b)" by simp
  have "sum_at i ?a = sum_at i ?b + word_of_int (span_at i start samples)" for i
  proof (cases "i < length (ac_samples ?b)")
    case True
    then show ?thesis
      using accumulate_from_nth [OF n True] by (simp add: sum_at_def span_at_def del: append_eq_conv_conj)
  next
    case False
    then have "start + length samples \<le> i" using n by linarith
    then have "\<not> i - start < length samples" by linarith
    then have "span_at i start samples = 0" by (simp add: span_at_def sample_at_def)
    then show ?thesis using False by (simp add: sum_at_def)
  qed
  then have sum: "sum_at i ?a = sum_at i a + word_of_int (span_at i start samples)" for i
    by (simp only: sum_at_extended)
  have "add_samples start samples a = Some ?a" by (simp add: add_samples_def ensure)
  moreover have "slice_ok ?a" using okb by (simp add: slice_ok_def)
  ultimately show thesis using sum by (intro that [of ?a]) simp_all
qed

text \<open>Where a frame goes, if it has a place at all, and what of it is kept.\<close>

definition frame_place :: "go_int \<Rightarrow> go_int \<Rightarrow> 64 word \<Rightarrow> bool \<Rightarrow> int" where
  "frame_place rate offset start_sample has_start =
     (if has_start then uint start_sample else sint (duration_samples offset rate))"

definition frame_fits :: "nat \<Rightarrow> go_int \<Rightarrow> go_int \<times> 64 word \<times> bool \<times> sample list \<Rightarrow> bool" where
  "frame_fits bound rate f =
     (case f of (offset, start_sample, has_start, samples) \<Rightarrow>
        samples = [] \<or> frame_place rate offset start_sample has_start + int (length samples) \<le> int bound)"

definition frame_adds :: "nat \<Rightarrow> nat \<Rightarrow> go_int \<Rightarrow> go_int \<times> 64 word \<times> bool \<times> sample list \<Rightarrow> int" where
  "frame_adds i bound rate f =
     (case f of (offset, start_sample, has_start, samples) \<Rightarrow>
        let start = frame_place rate offset start_sample has_start in
        if i < bound \<and> start \<le> int i then sample_at (nat (int i - start)) samples else 0)"

lemma slice_ok_truncated [simp]: "slice_ok (a\<lparr>ac_truncated := t\<rparr>) = slice_ok a"
    "sum_at i (a\<lparr>ac_truncated := t\<rparr>) = sum_at i a"
  by (simp_all add: slice_ok_def sum_at_def)

definition frame_outcome ::
    "go_int \<times> 64 word \<times> bool \<times> sample list \<Rightarrow> accumulator \<Rightarrow> go_error option \<Rightarrow> accumulator \<Rightarrow> bool" where
  "frame_outcome f a e a' \<longleftrightarrow> slice_ok a' \<and>
     (\<forall>i. sum_at i a' = sum_at i a + word_of_int (frame_adds i (ac_max_sample a) (ac_rate a) f)) \<and>
     (e = None) = frame_fits (ac_max_sample a) (ac_rate a) f \<and>
     ac_truncated a' = (ac_truncated a \<or> e \<noteq> None) \<and>
     ac_max_sample a' = ac_max_sample a \<and> ac_rate a' = ac_rate a \<and>
     ac_sources a' = ac_sources a \<and> ac_active a' = ac_active a"

lemma frame_adds_outside:
  "int bound \<le> frame_place rate offset start_sample has_start \<Longrightarrow>
   frame_adds i bound rate (offset, start_sample, has_start, samples) = 0"
  by (auto simp: frame_adds_def Let_def)

lemma frame_adds_span:
  assumes "frame_place rate offset start_sample has_start = int start" "start < bound"
  shows "frame_adds i bound rate (offset, start_sample, has_start, samples) =
    span_at i start (take (min (length samples) (bound - start)) samples)"
  using assms by (auto simp: frame_adds_def span_at_def sample_at_def Let_def nat_diff_distrib)

lemma frame_start_place:
  "\<not> (has_start \<and> start_sample > max_int64) \<Longrightarrow>
   frame_start offset start_sample has_start a = (Inr (nat (frame_place (ac_rate a) offset start_sample has_start)), a)"
  using duration_samples_nonneg [of offset "ac_rate a"]
  by (cases has_start) (simp_all add: frame_start_def frame_place_def max_int64_zero_def)

lemma frame_beyond:
  "samples \<noteq> [] \<Longrightarrow> int bound \<le> frame_place rate offset start_sample has_start \<Longrightarrow>
   \<not> frame_fits bound rate (offset, start_sample, has_start, samples)"
  by (cases samples) (auto simp: frame_fits_def)

lemma add_frame_ok:
  assumes ok: "slice_ok a" and small: "ac_max_sample a < 2 ^ 63"
  obtains e a' where "add_frame offset start_sample has_start samples a = Some (e, a')"
    "frame_outcome (offset, start_sample, has_start, samples) a e a'"
proof -
  let ?f = "(offset, start_sample, has_start, samples)"
  let ?place = "frame_place (ac_rate a) offset start_sample has_start"
  have place0: "0 \<le> ?place" using duration_samples_nonneg by (simp add: frame_place_def)
  consider (empty) "samples = []" | (range) "samples \<noteq> []" "has_start" "start_sample > max_int64"
    | (beyond) "samples \<noteq> []" "\<not> (has_start \<and> start_sample > max_int64)" "int (ac_max_sample a) \<le> ?place"
    | (inside) "samples \<noteq> []" "\<not> (has_start \<and> start_sample > max_int64)" "?place < int (ac_max_sample a)"
    by linarith
  then show thesis
  proof cases
    case empty
    then show thesis using ok
      by (intro that [of None a])
        (simp_all add: add_frame_def frame_outcome_def frame_adds_def frame_fits_def sample_at_def Let_def)
  next
    case range
    then have "int (ac_max_sample a) \<le> ?place"
      using small by (simp add: frame_place_def word_less_def max_int64_def)
    then show thesis using range ok
      by (intro that [of "Some err_cursor_range" "a\<lparr>ac_truncated := True\<rparr>"])
        (auto simp: add_frame_def frame_start_def frame_outcome_def frame_adds_outside frame_beyond)
  next
    case beyond
    have start: "frame_start offset start_sample has_start a = (Inr (nat ?place), a)"
      using beyond(2) by (rule frame_start_place)
    have "ac_max_sample a \<le> nat ?place" using beyond(3) by linarith
    then have "add_frame offset start_sample has_start samples a
        = Some (Some err_duration_bound, a\<lparr>ac_truncated := True\<rparr>)"
      using beyond(1) by (simp add: add_frame_def start frame_sample_count_def)
    then show thesis using beyond ok
      by (elim that) (auto simp: frame_outcome_def frame_adds_outside frame_beyond)
  next
    case inside
    define start where "start = nat ?place"
    define kept where "kept = min (length samples) (ac_max_sample a - start)"
    have at: "?place = int start" "start < ac_max_sample a" using inside(3) place0 by (simp_all add: start_def)
    have first: "frame_start offset start_sample has_start a = (Inr start, a)"
      unfolding start_def using inside(2) by (rule frame_start_place)
    have samples_kept: "frame_sample_count start (length samples) a = (Inr kept, a)"
      using at by (auto simp: frame_sample_count_def kept_def Let_def)
    have "start + length (take kept samples) \<le> ac_max_sample a" using at by (simp add: kept_def)
    then obtain a' where a': "add_samples start (take kept samples) a = Some a'" "slice_ok a'"
        "\<And>i. sum_at i a' = sum_at i a + word_of_int (span_at i start (take kept samples))"
        "ac_max_sample a' = ac_max_sample a" "ac_rate a' = ac_rate a" "ac_truncated a' = ac_truncated a"
        "ac_sources a' = ac_sources a" "ac_active a' = ac_active a"
      using add_samples_ok [OF ok] by blast
    let ?cut = "kept < length samples"
    have fits: "frame_fits (ac_max_sample a) (ac_rate a) ?f \<longleftrightarrow> \<not> ?cut"
      using at inside(1) by (auto simp: frame_fits_def kept_def)
    have adds: "frame_adds i (ac_max_sample a) (ac_rate a) ?f = span_at i start (take kept samples)" for i
      unfolding kept_def by (rule frame_adds_span [OF at])
    have "add_frame offset start_sample has_start samples a =
        Some (if ?cut then (Some err_duration_bound, a'\<lparr>ac_truncated := True\<rparr>) else (None, a'))"
      using inside(1) by (simp add: add_frame_def first samples_kept a'(1))
    then have "add_frame offset start_sample has_start samples a =
        Some (if ?cut then Some err_duration_bound else None, if ?cut then a'\<lparr>ac_truncated := True\<rparr> else a')"
      by simp
    then show thesis using a'(2-) fits adds by (elim that) (simp add: frame_outcome_def)
  qed
qed

section \<open>Source timelines\<close>

definition key_identity :: "source_key \<Rightarrow> string \<times> string" where
  "key_identity key = (sk_source key, sk_stream key)"

text \<open>
  Every source has one live timeline, that of its active epoch, and there are at most as many
  timelines as the bound.
\<close>

definition sources_ok :: "accumulator \<Rightarrow> bool" where
  "sources_ok a \<longleftrightarrow> distinct (map fst (ac_sources a)) \<and> distinct (map fst (ac_active a)) \<and>
     length (ac_sources a) \<le> max_source_timelines \<and>
     (\<forall>key. (map_of (ac_sources a) key \<noteq> None) = (map_of (ac_active a) (key_identity key) = Some key)) \<and>
     (\<forall>i key. map_of (ac_active a) i = Some key \<longrightarrow> key_identity key = i)"

lemma length_card: "distinct (map fst al) \<Longrightarrow> length al = card (dom (map_of al))"
  by (metis distinct_card dom_map_of_conv_image_fst length_map list.set_map)

lemma sources_ok_truncated [simp]: "sources_ok (a\<lparr>ac_truncated := t\<rparr>) = sources_ok a"
  by (simp add: sources_ok_def)

definition retired_sources :: "source_key \<Rightarrow> accumulator \<Rightarrow> (source_key \<times> source_timeline) list" where
  "retired_sources key a =
     (case map_of (ac_active a) (key_identity key) of
        Some previous \<Rightarrow> if previous \<noteq> key then AList.delete previous (ac_sources a) else ac_sources a
      | None \<Rightarrow> ac_sources a)"

definition known_timeline :: "source_key \<Rightarrow> accumulator \<Rightarrow> source_timeline option" where
  "known_timeline key a = map_of (retired_sources key a) key"

lemma retired_ok:
  assumes ok: "sources_ok a"
  shows "distinct (map fst (retired_sources key a))"
    "length (retired_sources key a) \<le> max_source_timelines"
    "\<And>k. k \<noteq> key \<Longrightarrow> map_of (retired_sources key a) k =
       (if key_identity k = key_identity key then None else map_of (ac_sources a) k)"
    "known_timeline key a = map_of (ac_sources a) key"
    "known_timeline key a = None \<Longrightarrow> max_source_timelines \<le> length (retired_sources key a) \<Longrightarrow>
       retired_sources key a = ac_sources a"
proof -
  let ?A = "map_of (ac_active a)" and ?S = "map_of (ac_sources a)" and ?id = "key_identity key"
  have S: "(?S k \<noteq> None) = (?A (key_identity k) = Some k)" for k using ok unfolding sources_ok_def by blast
  have I: "?A i = Some k \<Longrightarrow> key_identity k = i" for i k using ok unfolding sources_ok_def by blast
  have dist: "distinct (map fst (ac_sources a))" and len: "length (ac_sources a) \<le> max_source_timelines"
    using ok by (simp_all add: sources_ok_def)
  show "distinct (map fst (retired_sources key a))"
    using dist by (auto simp: retired_sources_def distinct_delete split: option.split)
  show "length (retired_sources key a) \<le> max_source_timelines"
    using len length_delete_le [of _ "ac_sources a"]
    by (auto simp: retired_sources_def intro: order.trans split: option.split)
  show "map_of (retired_sources key a) k =
       (if key_identity k = key_identity key then None else ?S k)" if "k \<noteq> key" for k
    using that S [of k] by (auto simp: retired_sources_def delete_conv' dest: I split: option.split if_splits)
  show "known_timeline key a = ?S key"
    using S [of key] by (auto simp: known_timeline_def retired_sources_def delete_conv' split: option.split)
  assume new: "known_timeline key a = None" and full: "max_source_timelines \<le> length (retired_sources key a)"
  show "retired_sources key a = ac_sources a"
  proof (cases "?A ?id")
    case (Some previous)
    then have "previous \<noteq> key"
      using new S [of key] by (auto simp: known_timeline_def retired_sources_def)
    have "key_identity previous = ?id" using Some by (rule I)
    then have "previous \<in> fst ` set (ac_sources a)"
      using S [of previous] Some by (simp add: map_of_eq_None_iff)
    then have "length (AList.delete previous (ac_sources a)) < length (ac_sources a)"
      by (auto simp: AList.delete_eq intro!: length_filter_less)
    then show ?thesis using full len Some \<open>previous \<noteq> key\<close> by (simp add: retired_sources_def)
  qed (simp add: retired_sources_def)
qed

text \<open>The timeline a source frame gets.\<close>

definition next_timeline :: "source_timeline option \<Rightarrow> go_int \<Rightarrow> 64 word \<Rightarrow> bool \<Rightarrow> nat \<Rightarrow> source_timeline" where
  "next_timeline known arrival start_sample ended n =
     \<lparr>st_anchor =
        (case known of
           Some st \<Rightarrow>
             if \<not> st_has_cursor st \<or> st_last_ended st \<or> start_sample < st_last_cursor st
             then acc_saturating_sub arrival start_sample else st_anchor st
         | None \<Rightarrow> acc_saturating_sub arrival start_sample),
      st_last_cursor =
        (let cursor = start_sample + of_nat n in if cursor < start_sample then - 1 else cursor),
      st_has_cursor = True, st_last_ended = ended\<rparr>"

lemma place_source_cases:
  "place_source key arrival start_sample ended n a =
     (if known_timeline key a = None \<and> max_source_timelines \<le> length (retired_sources key a)
      then (Inl err_timeline_bound, a\<lparr>ac_sources := retired_sources key a, ac_truncated := True\<rparr>)
      else (let st = next_timeline (known_timeline key a) arrival start_sample ended n in
            (Inr (acc_saturating_add (st_anchor st) start_sample),
             a\<lparr>ac_sources := AList.update key st (retired_sources key a),
               ac_active := AList.update (key_identity key) key (ac_active a)\<rparr>)))"
  unfolding place_source_def known_timeline_def next_timeline_def Let_def retired_sources_def
    key_identity_def
  by (auto split: option.split)

lemma place_source_ok:
  assumes ok: "sources_ok a" and place: "place_source key arrival start_sample ended n a = (r, a')"
  shows "sources_ok a'"
proof (cases "known_timeline key a = None \<and> max_source_timelines \<le> length (retired_sources key a)")
  case True
  then have "a' = a\<lparr>ac_truncated := True\<rparr>"
    using place retired_ok(5) [OF ok, of key] by (simp add: place_source_cases)
  then show ?thesis using ok by simp
next
  case False
  let ?R = "retired_sources key a"
  let ?st = "next_timeline (known_timeline key a) arrival start_sample ended n"
  let ?S = "AList.update key ?st ?R" and ?A = "AList.update (key_identity key) key (ac_active a)"
  have a': "ac_sources a' = ?S" "ac_active a' = ?A"
    using place False by (auto simp: place_source_cases Let_def)
  note retired = retired_ok [OF ok, of key]
  have S: "(map_of (ac_sources a) k \<noteq> None) = (map_of (ac_active a) (key_identity k) = Some k)" for k
    using ok unfolding sources_ok_def by blast
  have I: "map_of (ac_active a) i = Some k \<Longrightarrow> key_identity k = i" for i k
    using ok unfolding sources_ok_def by blast
  have dist: "distinct (map fst ?S)" "distinct (map fst ?A)"
    using retired(1) ok by (simp_all add: distinct_update sources_ok_def)
  have "length ?S \<le> max_source_timelines"
  proof (cases "known_timeline key a")
    case None
    then have "length ?R < max_source_timelines" using False by simp
    moreover have "length ?S \<le> Suc (length ?R)"
      using length_card [OF dist(1)] length_card [OF retired(1)]
        card_insert_if [OF finite_dom_map_of [of ?R], of key]
      by (simp add: dom_update update_conv')
    ultimately show ?thesis by simp
  next
    case (Some st)
    then have "key \<in> dom (map_of ?R)" by (simp add: known_timeline_def dom_def)
    then have "dom (map_of ?S) = dom (map_of ?R)" by (auto simp: update_conv')
    then show ?thesis using length_card [OF dist(1)] length_card [OF retired(1)] retired(2) by simp
  qed
  moreover have "(map_of ?S k \<noteq> None) = (map_of ?A (key_identity k) = Some k)" for k
    using S [of k] retired_ok(3) [OF ok, of k key] by (cases "k = key") (auto simp: update_conv')
  moreover have "key_identity k = i" if "map_of ?A i = Some k" for i k
    using that I [of i k] by (auto simp: update_conv' split: if_splits)
  ultimately show ?thesis using dist unfolding sources_ok_def a' by blast
qed

section \<open>Recording frames\<close>

type_synonym span_frame = "go_int \<times> 64 word \<times> bool \<times> sample list"

fun record_frames :: "span_frame list \<Rightarrow> accumulator \<Rightarrow> (go_error option list \<times> accumulator) option" where
  "record_frames [] a = Some ([], a)"
| "record_frames ((offset, start_sample, has_start, samples) # frames) a =
     (case add_frame offset start_sample has_start samples a of
        None \<Rightarrow> None
      | Some (e, a) \<Rightarrow> map_option (\<lambda>(es, a). (e # es, a)) (record_frames frames a))"

definition frames_total :: "nat \<Rightarrow> accumulator \<Rightarrow> span_frame list \<Rightarrow> int" where
  "frames_total i a frames = (\<Sum>f\<leftarrow>frames. frame_adds i (ac_max_sample a) (ac_rate a) f)"

definition recorded :: "span_frame list \<Rightarrow> accumulator \<Rightarrow> go_error option list \<Rightarrow> accumulator \<Rightarrow> bool" where
  "recorded frames a es a' \<longleftrightarrow> slice_ok a' \<and> ac_max_sample a' = ac_max_sample a \<and> ac_rate a' = ac_rate a \<and>
     (\<forall>i. sum_at i a' = sum_at i a + word_of_int (frames_total i a frames)) \<and>
     map (\<lambda>e. e = None) es = map (frame_fits (ac_max_sample a) (ac_rate a)) frames \<and>
     ac_truncated a' = (ac_truncated a \<or> \<not> list_all (\<lambda>e. e = None) es)"

lemma record_frames_ok:
  "slice_ok a \<Longrightarrow> ac_max_sample a < 2 ^ 63 \<Longrightarrow> \<exists>es a'. record_frames frames a = Some (es, a') \<and> recorded frames a es a'"
proof (induction frames arbitrary: a)
  case Nil
  then show ?case by (simp add: recorded_def frames_total_def)
next
  case (Cons f frames)
  obtain offset start_sample has_start samples where f: "f = (offset, start_sample, has_start, samples)"
    by (cases f)
  obtain e a1 where a1: "add_frame offset start_sample has_start samples a = Some (e, a1)"
      "frame_outcome f a e a1"
    using add_frame_ok [OF Cons.prems] f by blast
  have "slice_ok a1" "ac_max_sample a1 < 2 ^ 63" using a1(2) Cons.prems by (simp_all add: frame_outcome_def)
  from Cons.IH [OF this] obtain es a' where rest: "record_frames frames a1 = Some (es, a')" "recorded frames a1 es a'"
    by blast
  have "recorded (f # frames) a (e # es) a'"
    using a1(2) rest(2) unfolding recorded_def frame_outcome_def frames_total_def by auto
  then show ?case using a1(1) rest(1) f by (intro exI [of _ "e # es"] exI [of _ a']) simp
qed

lemma sample_at_abs: "\<bar>sample_at i source\<bar> \<le> 32768"
  using sample_at_bounds [of i source] by simp

lemma frame_adds_bound: "\<bar>frame_adds i bound rate f\<bar> \<le> 32768"
  using sample_at_abs by (cases f) (simp add: frame_adds_def Let_def)

lemma frames_total_bound: "\<bar>frames_total i a frames\<bar> \<le> 32768 * int (length frames)"
proof (induction frames)
  case (Cons f frames)
  then show ?case
    using frame_adds_bound [of i "ac_max_sample a" "ac_rate a" f] by (simp add: frames_total_def)
qed (simp add: frames_total_def)

lemma sint_word_of_small: "\<bar>k\<bar> < 2 ^ 63 \<Longrightarrow> sint (word_of_int k :: go_int) = k"
  by (intro sint_of_small) (simp_all add: abs_less_iff)

lemma limit_target:
  assumes "slice_ok a"
  shows "fst (limit_finalize_target n a) = max (min n (ac_max_sample a)) (length (ac_samples a))"
    "(snd (limit_finalize_target n a) = None) = (n \<le> ac_max_sample a)"
  using assms by (auto simp: limit_finalize_target_def slice_ok_def Let_def)

text \<open>What a snapshot returns: the sums of the whole timeline, padded with silence up to the span.\<close>

lemma snapshot_ok:
  assumes ok: "slice_ok a"
    and n: "n = nat (sint (duration_samples span (ac_rate a)))"
  obtains sums e a' where "snapshot_samples span a = Some ((sums, e), a')"
    "length sums = max (min n (ac_max_sample a)) (length (ac_samples a))"
    "\<And>i. i < length sums \<Longrightarrow> sums ! i = sum_at i a"
    "(e = None) = (n \<le> ac_max_sample a \<and> \<not> ac_truncated a)"
proof -
  let ?t = "max (min n (ac_max_sample a)) (length (ac_samples a))"
  obtain e where limit: "limit_finalize_target n a = (?t, e)" "(e = None) = (n \<le> ac_max_sample a)"
    using limit_target [OF ok, of n] by (metis prod.collapse)
  have "?t \<le> ac_max_sample a" using ok by (simp add: slice_ok_def)
  then obtain c where c: "ensure_sample_length ?t a =
      Some (a\<lparr>ac_samples := ac_samples a @ replicate (?t - length (ac_samples a)) 0, ac_capacity := c\<rparr>)"
    using ensure_sample_length_ok [OF ok] by blast
  show thesis
    by (rule that) (use limit c in \<open>auto simp: snapshot_samples_def n [symmetric] sum_at_def nth_append\<close>)
qed

lemma new_accumulator_ok:
  assumes "new_accumulator fmt dur = Inr a"
  shows "slice_ok a" "ac_max_sample a < 2 ^ 63" "sum_at i a = 0" "sources_ok a" "\<not> ac_truncated a"
    "ac_rate a = mf_sample_rate fmt" "0 < sint (mf_sample_rate fmt)"
proof -
  have "nat (sint n) < 2 ^ 63" for n :: go_int
    using sint_range(2) [of n] by (simp add: nat_less_iff)
  then show "slice_ok a" "ac_max_sample a < 2 ^ 63" "sum_at i a = 0" "sources_ok a" "\<not> ac_truncated a"
      "ac_rate a = mf_sample_rate fmt" "0 < sint (mf_sample_rate fmt)"
    using assms by (auto simp: new_accumulator_def slice_ok_def sum_at_def sources_ok_def Let_def
        max_source_timelines_def split: if_splits)
qed

section \<open>What a recording is\<close>

lemma recorded_sum:
  assumes rec: "recorded frames a0 es a" and zero: "\<And>i. sum_at i a0 = 0" and few: "length frames \<le> 2 ^ 40"
  shows "sint (sum_at i a) = frames_total i a0 frames"
proof -
  have "32768 * int (length frames) < 2 ^ 63" using few by simp
  then have "\<bar>frames_total i a0 frames\<bar> < 2 ^ 63"
    using frames_total_bound [of i a0 frames] by linarith
  then show ?thesis using rec zero sint_word_of_small by (simp add: recorded_def)
qed

text \<open>
  C16: a recording is the clipped sum of its frames. Whatever frames are added to a new accumulator,
  with a place of their own or by their arrival, in any order and overlapping in any way, each call
  returns, and fails exactly when its frame does not fit below the bound; the snapshot then holds, at every
  sample, the exact sum of what the frames have there, clipped once, is silent up to the requested span,
  never exceeds the bound, and reports an error exactly when something was cut off.
\<close>

theorem recording_is_clipped_sum:
  assumes "new_accumulator fmt dur = Inr a0" "length frames \<le> 2 ^ 40"
  shows "\<exists>es a sums e a'. record_frames frames a0 = Some (es, a) \<and>
    snapshot_samples span a = Some ((sums, e), a') \<and>
    map (\<lambda>e. e = None) es = map (frame_fits (ac_max_sample a0) (mf_sample_rate fmt)) frames \<and>
    length sums \<le> ac_max_sample a0 \<and>
    map sint (clipped_pcm16_values sums) = map (\<lambda>i. clip16 (frames_total i a0 frames)) [0..<length sums] \<and>
    (\<forall>i. length sums \<le> i \<longrightarrow> frames_total i a0 frames = 0) \<and>
    (e = None) = (nat (sint (duration_samples span (mf_sample_rate fmt))) \<le> ac_max_sample a0 \<and>
      list_all (frame_fits (ac_max_sample a0) (mf_sample_rate fmt)) frames)"
proof -
  note new = new_accumulator_ok [OF assms(1)]
  obtain es a where run: "record_frames frames a0 = Some (es, a)" and rec: "recorded frames a0 es a"
    using record_frames_ok [OF new(1,2)] by blast
  have ok: "slice_ok a" and rate: "ac_rate a = mf_sample_rate fmt" and bound: "ac_max_sample a = ac_max_sample a0"
    using rec new by (simp_all add: recorded_def)
  note sum = recorded_sum [OF rec new(3) assms(2)]
  obtain sums e a' where snap: "snapshot_samples span a = Some ((sums, e), a')"
      "length sums = max (min (nat (sint (duration_samples span (ac_rate a)))) (ac_max_sample a)) (length (ac_samples a))"
      "\<And>i. i < length sums \<Longrightarrow> sums ! i = sum_at i a"
      "(e = None) = (nat (sint (duration_samples span (ac_rate a))) \<le> ac_max_sample a \<and> \<not> ac_truncated a)"
    using snapshot_ok [OF ok refl] by blast
  have errors: "map (\<lambda>e. e = None) es = map (frame_fits (ac_max_sample a0) (mf_sample_rate fmt)) frames"
    using rec new by (simp add: recorded_def)
  have "list_all (\<lambda>e. e = None) es = list_all (\<lambda>x. x) (map (\<lambda>e. e = None) es)"
    by (simp add: list_all_iff)
  then have cut: "ac_truncated a = (\<not> list_all (frame_fits (ac_max_sample a0) (mf_sample_rate fmt)) frames)"
    using rec new unfolding errors by (simp add: recorded_def list_all_iff)
  have beyond: "frames_total i a0 frames = 0" if "length sums \<le> i" for i
    using sum [of i] that snap(2) by (simp add: sum_at_def)
  have "map sint (clipped_pcm16_values sums) = map (\<lambda>i. clip16 (frames_total i a0 frames)) [0..<length sums]"
    by (rule nth_equalityI) (simp_all add: clipped_pcm16_values_def sint_clip_sample snap(3) sum)
  moreover have "length sums \<le> ac_max_sample a0" using snap(2) ok bound by (simp add: slice_ok_def)
  ultimately show ?thesis
    using run snap(1,4) errors cut beyond rate bound by auto
qed

definition telephone_format :: mix_format where
  "telephone_format = \<lparr>mf_sample_rate = 8000, mf_channels = 1, mf_frame_duration = 20000000\<rparr>"

definition sample_frames :: "span_frame list" where
  "sample_frames = [(0, 2, True, [100, 30000]), (250000, 0, False, [7, 30000]), (0, 7, True, [1, 2, 3])]"

definition small_accumulator :: accumulator where
  "small_accumulator = (case new_accumulator telephone_format 1000000 of Inr a \<Rightarrow> a)"

lemma recording_is_clipped_sum_witness:
  "\<exists>es a sums e a'. record_frames sample_frames small_accumulator = Some (es, a) \<and>
    snapshot_samples 0 a = Some ((sums, e), a') \<and>
    map (\<lambda>e. e = None) es = [True, True, False] \<and>
    map sint (clipped_pcm16_values sums) = [0, 0, 107, 32767, 0, 0, 0, 1] \<and> e \<noteq> None"
proof -
  have new: "new_accumulator telephone_format 1000000 = Inr small_accumulator" by code_simp
  have few: "length sample_frames \<le> 2 ^ 40" by (simp add: sample_frames_def)
  have fits: "map (frame_fits (ac_max_sample small_accumulator) (mf_sample_rate telephone_format)) sample_frames
      = [True, True, False]" by code_simp
  have bound: "ac_max_sample small_accumulator = 8" by code_simp
  have total: "map (\<lambda>i. clip16 (frames_total i small_accumulator sample_frames)) [0..<8]
      = [0, 0, 107, 32767, 0, 0, 0, 1]" by code_simp
  have last: "frames_total 7 small_accumulator sample_frames = 1" by code_simp
  obtain es a sums e a' where r: "record_frames sample_frames small_accumulator = Some (es, a)"
      "snapshot_samples 0 a = Some ((sums, e), a')" "map (\<lambda>e. e = None) es = [True, True, False]"
      "length sums \<le> 8"
      "map sint (clipped_pcm16_values sums) =
        map (\<lambda>i. clip16 (frames_total i small_accumulator sample_frames)) [0..<length sums]"
      "\<forall>i. length sums \<le> i \<longrightarrow> frames_total i small_accumulator sample_frames = 0"
      "e \<noteq> None"
    using recording_is_clipped_sum [OF new few, of 0] fits bound
    by (auto simp: list_all_iff sample_frames_def)
  then have "\<not> length sums \<le> 7" using last by (metis zero_neq_one)
  then have "length sums = 8" using r(4) by simp
  then show ?thesis using r total by metis
qed

section \<open>Recording sources\<close>

datatype acc_op =
    AddFrame go_int "64 word" bool "sample list"
  | AddSource source_key go_int "64 word" bool bool "sample list"

fun apply_acc_op :: "acc_op \<Rightarrow> accumulator \<Rightarrow> (go_error option \<times> accumulator) option" where
  "apply_acc_op (AddFrame offset start_sample has_start samples) a =
     add_frame offset start_sample has_start samples a"
| "apply_acc_op (AddSource key offset start_sample has_start ended samples) a =
     add_source key offset start_sample has_start ended samples a"

fun run_acc_ops :: "acc_op list \<Rightarrow> accumulator \<Rightarrow> (go_error option list \<times> accumulator) option" where
  "run_acc_ops [] a = Some ([], a)"
| "run_acc_ops (op # ops) a =
     (case apply_acc_op op a of
        None \<Rightarrow> None
      | Some (e, a) \<Rightarrow> map_option (\<lambda>(es, a). (e # es, a)) (run_acc_ops ops a))"

definition acc_ok :: "accumulator \<Rightarrow> bool" where
  "acc_ok a \<longleftrightarrow> slice_ok a \<and> ac_max_sample a < 2 ^ 63 \<and> sources_ok a"

lemma slice_ok_sources [simp]:
  "slice_ok (a\<lparr>ac_sources := s, ac_active := t\<rparr>) = slice_ok a" "slice_ok (a\<lparr>ac_sources := s\<rparr>) = slice_ok a"
  "slice_ok (a\<lparr>ac_sources := s, ac_truncated := b\<rparr>) = slice_ok a"
  by (simp_all add: slice_ok_def)

lemma place_source_slice:
  assumes "place_source key arrival start_sample ended n a = (r, a')"
  shows "slice_ok a' = slice_ok a" "ac_max_sample a' = ac_max_sample a" "ac_rate a' = ac_rate a"
    "ac_samples a' = ac_samples a"
  using assms by (auto simp: place_source_cases Let_def split: if_splits)

lemma sources_ok_same: "ac_sources a' = ac_sources a \<Longrightarrow> ac_active a' = ac_active a \<Longrightarrow> sources_ok a' = sources_ok a"
  by (simp add: sources_ok_def)

lemma add_frame_acc_ok:
  assumes "acc_ok a"
  shows "\<exists>e a'. add_frame offset start_sample has_start samples a = Some (e, a') \<and> acc_ok a' \<and>
    ac_max_sample a' = ac_max_sample a"
proof -
  have "slice_ok a" "ac_max_sample a < 2 ^ 63" using assms by (simp_all add: acc_ok_def)
  then obtain e a' where "add_frame offset start_sample has_start samples a = Some (e, a')"
      "frame_outcome (offset, start_sample, has_start, samples) a e a'"
    using add_frame_ok by blast
  then show ?thesis using assms sources_ok_same [of a' a] by (auto simp: acc_ok_def frame_outcome_def)
qed

lemma apply_acc_op_ok:
  assumes ok: "acc_ok a"
  shows "\<exists>e a'. apply_acc_op op a = Some (e, a') \<and> acc_ok a' \<and> ac_max_sample a' = ac_max_sample a"
proof (cases op)
  case (AddSource key offset start_sample has_start ended samples)
  obtain r a1 where place: "place_source key (duration_samples offset (ac_rate a)) start_sample ended
      (length samples) a = (r, a1)" by fastforce
  have ok1: "acc_ok a1" "ac_max_sample a1 = ac_max_sample a"
    using ok place_source_ok [OF _ place] place_source_slice [OF place] by (simp_all add: acc_ok_def)
  have "acc_ok (a\<lparr>ac_truncated := True\<rparr>)" using ok by (simp add: acc_ok_def)
  then show ?thesis
    using AddSource place ok1 add_frame_acc_ok [OF ok] add_frame_acc_ok [OF ok1(1)]
    by (cases r) (auto simp: add_source_def add_span_def)
qed (use add_frame_acc_ok [OF ok] in simp)

text \<open>
  C17: A recorder is bounded whatever is added to it: no call panics, its samples stay below the bound and
  within the memory it allocated, it follows at most 256 sources, and of every source only the latest
  epoch.
\<close>

theorem recorder_bounded:
  assumes "new_accumulator fmt dur = Inr a0"
  shows "\<exists>es a. run_acc_ops ops a0 = Some (es, a) \<and> length es = length ops \<and>
    length (ac_samples a) \<le> ac_max_sample a0 \<and> length (ac_samples a) \<le> ac_capacity a \<and>
    length (ac_sources a) \<le> max_source_timelines \<and> distinct (map (key_identity \<circ> fst) (ac_sources a))"
proof -
  have run: "acc_ok a \<Longrightarrow> \<exists>es a'. run_acc_ops ops a = Some (es, a') \<and> length es = length ops \<and>
      acc_ok a' \<and> ac_max_sample a' = ac_max_sample a" for a
  proof (induction ops arbitrary: a)
    case (Cons op ops)
    obtain e a1 where op: "apply_acc_op op a = Some (e, a1)" "acc_ok a1" "ac_max_sample a1 = ac_max_sample a"
      using apply_acc_op_ok [OF Cons.prems] by blast
    from Cons.IH [OF op(2)] show ?case using op by auto
  qed simp
  have "acc_ok a0" using new_accumulator_ok [OF assms] by (simp add: acc_ok_def)
  from run [OF this] obtain es a where r: "run_acc_ops ops a0 = Some (es, a)" "length es = length ops"
      "acc_ok a" "ac_max_sample a = ac_max_sample a0" by blast
  have "inj_on key_identity (fst ` set (ac_sources a))"
  proof (rule inj_onI)
    fix k l assume "k \<in> fst ` set (ac_sources a)" "l \<in> fst ` set (ac_sources a)" "key_identity k = key_identity l"
    moreover have "x \<in> fst ` set (ac_sources a) \<longleftrightarrow> map_of (ac_active a) (key_identity x) = Some x" for x
      using r(3) unfolding acc_ok_def sources_ok_def map_of_eq_None_iff by blast
    ultimately show "k = l" by simp
  qed
  then have "distinct (map (key_identity \<circ> fst) (ac_sources a))"
    using r(3) by (simp add: acc_ok_def sources_ok_def distinct_map inj_on_def)
  then show ?thesis using r by (auto simp: acc_ok_def slice_ok_def sources_ok_def)
qed

lemma recorder_bounded_witness:
  "\<exists>es a. run_acc_ops [AddSource \<lparr>sk_source = ''alice'', sk_stream = ''mic'', sk_epoch = 1\<rparr> 0 40 True False [1, 2],
      AddFrame 0 5 True [3]] small_accumulator = Some (es, a) \<and> length es = 2 \<and>
    length (ac_samples a) \<le> 8 \<and> length (ac_sources a) \<le> 256"
proof -
  have new: "new_accumulator telephone_format 1000000 = Inr small_accumulator" by code_simp
  have "ac_max_sample small_accumulator = 8" by code_simp
  then show ?thesis
    using recorder_bounded [OF new, of "[AddSource \<lparr>sk_source = ''alice'', sk_stream = ''mic'', sk_epoch = 1\<rparr>
        0 40 True False [1, 2], AddFrame 0 5 True [3]]"]
    by (auto simp: max_source_timelines_def)
qed

section \<open>Cursors against jitter\<close>

definition other_source :: "source_key \<Rightarrow> acc_op \<Rightarrow> bool" where
  "other_source key op =
     (case op of AddSource k _ _ _ _ _ \<Rightarrow> key_identity k \<noteq> key_identity key | AddFrame _ _ _ _ \<Rightarrow> True)"

lemma add_frame_sources:
  assumes "acc_ok a" "add_frame offset start_sample has_start samples a = Some (e, a')"
  shows "ac_sources a' = ac_sources a"
  using add_frame_ok [of a offset start_sample has_start samples] assms
  by (auto simp: acc_ok_def frame_outcome_def)

lemma place_source_timeline:
  assumes ok: "sources_ok a" and place: "place_source k arrival start_sample ended n a = (r, a')"
    and other: "key_identity k \<noteq> key_identity key"
  shows "map_of (ac_sources a') key = map_of (ac_sources a) key"
proof -
  have "key \<noteq> k" using other by auto
  then show ?thesis
    using place retired_ok(3) [OF ok, of key k] other
    by (auto simp: place_source_cases Let_def update_conv' split: if_splits)
qed

lemma other_source_timeline:
  assumes ok: "acc_ok a" and op: "apply_acc_op op a = Some (e, a')" and other: "other_source key op"
  shows "map_of (ac_sources a') key = map_of (ac_sources a) key"
proof (cases op)
  case (AddSource k offset start_sample has_start ended samples)
  obtain r a1 where place: "place_source k (duration_samples offset (ac_rate a)) start_sample ended
      (length samples) a = (r, a1)" by fastforce
  have ok1: "acc_ok a1"
    using ok place_source_ok [OF _ place] place_source_slice [OF place] by (simp add: acc_ok_def)
  have same: "map_of (ac_sources a1) key = map_of (ac_sources a) key"
    using place_source_timeline [OF _ place] ok other AddSource by (simp add: acc_ok_def other_source_def)
  then show ?thesis
    using op AddSource place add_frame_sources [OF ok] add_frame_sources [OF ok1]
    by (cases r) (auto simp: add_source_def add_span_def split: if_splits)
next
  case (AddFrame offset start_sample has_start samples)
  then show ?thesis using op add_frame_sources [OF ok] by simp
qed

lemma other_sources_timeline:
  "acc_ok a \<Longrightarrow> run_acc_ops ops a = Some (es, a') \<Longrightarrow> list_all (other_source key) ops \<Longrightarrow>
   map_of (ac_sources a') key = map_of (ac_sources a) key \<and> acc_ok a'"
proof (induction ops arbitrary: a es)
  case (Cons op ops)
  obtain e a1 where op: "apply_acc_op op a = Some (e, a1)" "acc_ok a1"
    using apply_acc_op_ok [OF Cons.prems(1)] by blast
  obtain es' where rest: "run_acc_ops ops a1 = Some (es', a')"
    using Cons.prems(2) op by auto
  have "map_of (ac_sources a') key = map_of (ac_sources a1) key \<and> acc_ok a'"
    using Cons.IH [OF op(2) rest] Cons.prems(3) by simp
  then show ?case using other_source_timeline [OF Cons.prems(1) op(1)] Cons.prems(3) by simp
qed simp

lemma placed_timeline:
  assumes ok: "sources_ok a" and place: "place_source key arrival start_sample ended n a = (Inr s, a')"
  obtains st where "map_of (ac_sources a') key = Some st" "s = acc_saturating_add (st_anchor st) start_sample"
    "st = next_timeline (map_of (ac_sources a) key) arrival start_sample ended n"
  using place retired_ok(4) [OF ok, of key] that
  by (auto simp: place_source_cases Let_def update_conv' split: if_splits)

text \<open>
  C18: Transport jitter moves nothing within a response: once a frame of a source has been placed by
  its cursor, the next frame of that source, whose cursor is no earlier than the end of the first, is
  placed exactly as far behind it as the cursors say, whenever it arrives and whatever was recorded of
  other sources in between. A frame that ends a response retires the anchor: the next one is placed
  where it arrives, so the pause between two responses is kept.
\<close>

theorem cursor_beats_jitter:
  assumes new: "new_accumulator fmt dur = Inr a0" and before: "run_acc_ops ops a0 = Some (es, a)"
    and first: "place_source key arrival1 c1 ended1 n1 a = (Inr s1, a1)"
    and between: "run_acc_ops others a1 = Some (es', a2)" "list_all (other_source key) others"
    and second: "place_source key arrival2 c2 ended2 n2 a2 = (Inr s2, a3)"
    and cursors: "uint c1 + int n1 \<le> uint c2" "uint c2 < 2 ^ 63"
    and inside: "- (2 ^ 63) < sint s1" "sint s2 < 2 ^ 63 - 1"
  shows "(\<not> ended1 \<longrightarrow> sint s2 - sint s1 = uint c2 - uint c1)
    \<and> (ended1 \<and> 0 \<le> sint arrival2 \<longrightarrow> s2 = arrival2)"
proof -
  have "acc_ok a0" using new_accumulator_ok [OF new] by (simp add: acc_ok_def)
  moreover have run: "acc_ok b \<Longrightarrow> run_acc_ops xs b = Some (fs, b') \<Longrightarrow> acc_ok b'" for xs b b' fs
  proof (induction xs arbitrary: b fs)
    case (Cons x xs)
    then show ?case using apply_acc_op_ok [OF Cons.prems(1), of x] by (auto split: option.splits)
  qed simp
  ultimately have ok: "acc_ok a" using before by blast
  have ok1: "acc_ok a1"
    using ok place_source_ok [OF _ first] place_source_slice [OF first] by (simp add: acc_ok_def)
  obtain st where st: "map_of (ac_sources a1) key = Some st" "s1 = acc_saturating_add (st_anchor st) c1"
      "st = next_timeline (map_of (ac_sources a) key) arrival1 c1 ended1 n1"
    using placed_timeline [OF _ first] ok by (auto simp: acc_ok_def)
  have a2: "map_of (ac_sources a2) key = Some st" "acc_ok a2"
    using other_sources_timeline [OF ok1 between] st(1) by simp_all
  obtain st2 where st2: "s2 = acc_saturating_add (st_anchor st2) c2"
      "st2 = next_timeline (Some st) arrival2 c2 ended2 n2"
    using placed_timeline [OF _ second] a2 by (auto simp: acc_ok_def)
  have n1: "int n1 < 2 ^ 63" using cursors uint_below [of c1] by linarith
  then have n: "uint (of_nat n1 :: go_int) = int n1" using uint_of_small [of "int n1"] by simp
  then have sum: "uint (c1 + of_nat n1) = uint c1 + int n1"
    using cursors uint_plus [of c1 "of_nat n1"] by simp
  then have "\<not> c1 + of_nat n1 < c1" "\<not> c2 < c1 + of_nat n1"
    using cursors(1) unfolding word_less_def sum by simp_all
  then have "st_last_cursor st = c1 + of_nat n1" "\<not> c2 < c1 + of_nat n1"
    using st(3) by (simp_all add: next_timeline_def)
  then have anchors: "\<not> ended1 \<Longrightarrow> st_anchor st2 = st_anchor st"
    "ended1 \<Longrightarrow> st_anchor st2 = acc_saturating_sub arrival2 c2"
    using st(3) st2(2) by (simp_all add: next_timeline_def)
  have signed: "sint c1 = uint c1" "sint c2 = uint c2"
    using cursors n1 by (simp_all add: sint_of_uint)
  have "\<not> ended1 \<Longrightarrow> sint s2 - sint s1 = uint c2 - uint c1"
    using anchors(1) signed inside st(2) st2(1) cursors(1) by (simp add: acc_saturating_add_exact)
  moreover have "ended1 \<Longrightarrow> 0 \<le> sint arrival2 \<Longrightarrow> s2 = arrival2"
    using anchors(2) signed(2) st2(1) by (simp add: acc_sub_add)
  ultimately show ?thesis by blast
qed

definition alice :: source_key where
  "alice = \<lparr>sk_source = ''alice'', sk_stream = ''mic'', sk_epoch = 1\<rparr>"

definition bob :: source_key where
  "bob = \<lparr>sk_source = ''bob'', sk_stream = ''mic'', sk_epoch = 4\<rparr>"

definition after_first :: accumulator where
  "after_first = snd (place_source alice 100 10 False 2 small_accumulator)"

definition after_others :: accumulator where
  "after_others = snd (the (run_acc_ops [AddFrame 0 1 True [3], AddSource bob 0 77 True True [9]] after_first))"

definition after_end :: accumulator where
  "after_end = snd (place_source alice 100 10 True 2 small_accumulator)"

lemma cursor_beats_jitter_witness:
  "fst (place_source alice 100 10 False 2 small_accumulator) = Inr 100 \<and>
   fst (place_source alice 500 15 False 2 after_others) = Inr 105 \<and> sint (105 :: go_int) - sint (100 :: go_int) = 5 \<and>
   fst (place_source alice 500 15 False 2 after_end) = Inr 500"
proof -
  have new: "new_accumulator telephone_format 1000000 = Inr small_accumulator" by code_simp
  have start: "run_acc_ops [] small_accumulator = Some ([], small_accumulator)" by simp
  have first: "place_source alice 100 10 False 2 small_accumulator = (Inr 100, after_first)" by code_simp
  have others: "run_acc_ops [AddFrame 0 1 True [3], AddSource bob 0 77 True True [9]] after_first
      = Some ([None, None], after_others)" by code_simp
  have apart: "list_all (other_source alice) [AddFrame 0 1 True [3], AddSource bob 0 77 True True [9]]"
    by code_simp
  have second: "place_source alice 500 15 False 2 after_others =
      (Inr 105, snd (place_source alice 500 15 False 2 after_others))" by code_simp
  have "sint (105 :: go_int) - sint (100 :: go_int) = uint (15 :: 64 word) - uint (10 :: 64 word)"
    using cursor_beats_jitter [OF new start first others apart second] by simp
  moreover have "fst (place_source alice 500 15 False 2 after_others) = Inr 105" by (subst second) simp
  moreover have "fst (place_source alice 500 15 False 2 after_end) = Inr 500" by code_simp
  ultimately show ?thesis using first by simp
qed

end
