(* ===== verification/Resample.thy ===== *)
theory Resample
  imports Pcm_Codec
begin

text \<open>
  Sample rate conversion, \<^verbatim>\<open>go-audio/pkg/wavio/resample.go\<close> and \<^verbatim>\<open>streaming_resample.go\<close>: a whole
  recording at once, or a stream in chunks that keeps its phase and history. The low-pass filter of a
  downsampling stream is computed in floats, and is a parameter: the sample it makes of the last raw samples.
  The integers of an interpolation are far within 64 bits, as its callers pass phases below a rate.
\<close>

section \<open>Interpolation\<close>

definition saturate_pcm16 :: "int \<Rightarrow> sample" where
  "saturate_pcm16 v =
     (if v < - 32768 then word_of_int (- 32768) else if v > 32767 then word_of_int 32767 else word_of_int v)"

definition interpolate_pcm16 :: "sample \<Rightarrow> sample \<Rightarrow> nat \<Rightarrow> nat \<Rightarrow> sample" where
  "interpolate_pcm16 left right phase denominator =
     (let delta = sint right - sint left;
          product = delta * int phase;
          d = int denominator;
          rounded = (if product \<ge> 0 then (product + d div 2) div d else - ((- product + d div 2) div d))
      in saturate_pcm16 (sint left + rounded))"

section \<open>A whole recording\<close>

datatype resample_error =
    UnsupportedResampleRate string int
  | ResampleSize nat int int
  | ResamplerEnded

definition supported_rate :: "int \<Rightarrow> bool" where
  "supported_rate rate \<longleftrightarrow> rate = 16000 \<or> rate = 24000 \<or> rate = 48000"

definition validate_resample_rate :: "string \<Rightarrow> int \<Rightarrow> resample_error option" where
  "validate_resample_rate direction rate =
     (if supported_rate rate then None else Some (UnsupportedResampleRate direction rate))"

definition resample_output_length :: "nat \<Rightarrow> int \<Rightarrow> int \<Rightarrow> resample_error + nat" where
  "resample_output_length n input_rate output_rate =
     (if n = 0 then Inr 0
      else (let whole_in = int n div input_rate;
                partial_in = int n mod input_rate in
            if whole_in > (2 ^ 64 - 1) div output_rate then Inl (ResampleSize n input_rate output_rate)
            else (let whole_out = whole_in * output_rate;
                      product = partial_in * output_rate;
                      partial_out = product div input_rate + (if product mod input_rate \<noteq> 0 then 1 else 0) in
                  if whole_out > 2 ^ 64 - 1 - partial_out then Inl (ResampleSize n input_rate output_rate)
                  else if whole_out + partial_out > (2 ^ 63 - 1) div 2
                  then Inl (ResampleSize n input_rate output_rate)
                  else Inr (nat (whole_out + partial_out)))))"

definition resample :: "sample list \<Rightarrow> int \<Rightarrow> int \<Rightarrow> resample_error + sample list" where
  "resample samples input_rate output_rate =
     (case validate_resample_rate ''input'' input_rate of
        Some e \<Rightarrow> Inl e
      | None \<Rightarrow>
          (case validate_resample_rate ''output'' output_rate of
             Some e \<Rightarrow> Inl e
           | None \<Rightarrow>
               (case resample_output_length (length samples) input_rate output_rate of
                  Inl e \<Rightarrow> Inl e
                | Inr n \<Rightarrow>
                    if n = 0 then Inr []
                    else if input_rate = output_rate then Inr samples
                    else Inr (map (\<lambda>k.
                      let position = k * nat input_rate;
                          i = position div nat output_rate;
                          phase = position mod nat output_rate;
                          last = length samples - 1
                      in if i \<ge> last then samples ! last
                         else interpolate_pcm16 (samples ! i) (samples ! (i + 1)) phase (nat output_rate))
                      [0..<n]))))"

section \<open>A stream\<close>

text \<open>
  The positions and totals of a stream are \<^verbatim>\<open>uint64\<close> in the code and nat here. They count samples,
  and the largest product the code forms of one is with a rate of at most 48000: the two agree for
  every stream of fewer than \<^verbatim>\<open>2^64 / 48000\<close> samples (some 3.8e14, over two centuries of audio).
\<close>

record resampler =
  rs_input_rate :: nat
  rs_output_rate :: nat
  rs_low_pass :: bool
  rs_history :: "sample list"
  rs_source :: "sample list"
  rs_base :: nat
  rs_next :: nat
  rs_total :: nat
  rs_ended :: bool

definition downsample_taps :: nat where
  "downsample_taps = 47"

definition reset_resampler :: "int \<Rightarrow> int \<Rightarrow> resampler \<Rightarrow> resample_error option \<times> resampler" where
  "reset_resampler input_rate output_rate r =
     (case validate_resample_rate ''input'' input_rate of
        Some e \<Rightarrow> (Some e, r)
      | None \<Rightarrow>
          (case validate_resample_rate ''output'' output_rate of
             Some e \<Rightarrow> (Some e, r)
           | None \<Rightarrow>
               (None, \<lparr>rs_input_rate = nat input_rate, rs_output_rate = nat output_rate,
                  rs_low_pass = (output_rate < input_rate), rs_history = [], rs_source = [], rs_base = 0,
                  rs_next = 0, rs_total = 0, rs_ended = False\<rparr>)))"

definition zero_resampler :: resampler where
  "zero_resampler = \<lparr>rs_input_rate = 0, rs_output_rate = 0, rs_low_pass = False, rs_history = [],
     rs_source = [], rs_base = 0, rs_next = 0, rs_total = 0, rs_ended = False\<rparr>"

definition new_resampler :: "int \<Rightarrow> int \<Rightarrow> resample_error + resampler" where
  "new_resampler input_rate output_rate =
     (case reset_resampler input_rate output_rate zero_resampler of
        (Some e, _) \<Rightarrow> Inl e
      | (None, r) \<Rightarrow> Inr r)"

definition delay_samples :: "resampler \<Rightarrow> nat" where
  "delay_samples r =
     (if \<not> rs_low_pass r then 0 else (downsample_taps - 1) * rs_output_rate r div (2 * rs_input_rate r))"

type_synonym low_pass = "nat \<Rightarrow> nat \<Rightarrow> sample list \<Rightarrow> sample"

definition push_source :: "low_pass \<Rightarrow> sample \<Rightarrow> resampler \<Rightarrow> resampler" where
  "push_source filt s r =
     (if \<not> rs_low_pass r then r\<lparr>rs_source := rs_source r @ [s]\<rparr>
      else (let h = rs_history r @ [s];
                h = (if length h > downsample_taps then take downsample_taps (drop 1 h) else h)
            in r\<lparr>rs_history := h,
                 rs_source := rs_source r @ [filt (rs_input_rate r) (rs_output_rate r) h]\<rparr>))"

definition source_at :: "nat \<Rightarrow> resampler \<Rightarrow> sample option" where
  "source_at i r =
     (if i < rs_base r \<or> i - rs_base r \<ge> length (rs_source r) then None
      else Some (rs_source r ! (i - rs_base r)))"

definition ceil_ratio :: "nat \<Rightarrow> nat \<Rightarrow> nat \<Rightarrow> nat" where
  "ceil_ratio v multiplier divisor = (if v = 0 then 0 else (v * multiplier + divisor - 1) div divisor)"

text \<open>The output loop up to a target, at most the largest \<^verbatim>\<open>uint64\<close>.\<close>

function resample_loop :: "bool \<Rightarrow> int \<Rightarrow> resampler \<Rightarrow> sample list \<times> resampler" where
  "resample_loop ends target r =
     (if \<not> int (rs_next r) < target then ([], r)
      else (let position = rs_next r * rs_input_rate r;
                i = position div rs_output_rate r;
                phase = position mod rs_output_rate r in
            case source_at i r of
              None \<Rightarrow> ([], r)
            | Some left \<Rightarrow>
                if source_at (i + 1) r = None \<and> \<not> ends \<and> phase \<noteq> 0 then ([], r)
                else (let right = (case source_at (i + 1) r of Some s \<Rightarrow> s | None \<Rightarrow> left);
                          (out, r') = resample_loop ends target (r\<lparr>rs_next := rs_next r + 1\<rparr>)
                      in (interpolate_pcm16 left right phase (rs_output_rate r) # out, r'))))"
  by pat_completeness auto
termination
  by (relation "measure (\<lambda>(ends, target, r). nat (target - int (rs_next r)))") auto

declare resample_loop.simps [simp del]

definition trim_source :: "resampler \<Rightarrow> resampler" where
  "trim_source r =
     (if length (rs_source r) < 3 then r
      else (let needed = rs_next r * rs_input_rate r div rs_output_rate r in
            if needed \<le> rs_base r then r
            else (let n = min (needed - rs_base r) (length (rs_source r) - 2)
                  in r\<lparr>rs_source := drop n (rs_source r), rs_base := rs_base r + n\<rparr>)))"

definition process_stream ::
    "low_pass \<Rightarrow> sample list \<Rightarrow> bool \<Rightarrow> resampler \<Rightarrow> (resample_error + sample list) \<times> resampler" where
  "process_stream filt input ends r =
     (if rs_ended r then (Inl ResamplerEnded, r)
      else if rs_input_rate r = rs_output_rate r
      then (Inr input, r\<lparr>rs_total := rs_total r + length input, rs_ended := ends\<rparr>)
      else (let r = fold (push_source filt) input r;
                r = r\<lparr>rs_total := rs_total r + length input, rs_ended := rs_ended r \<or> ends\<rparr>;
                target = (if ends then int (ceil_ratio (rs_total r) (rs_output_rate r) (rs_input_rate r))
                          else 2 ^ 64 - 1);
                (out, r) = resample_loop ends target r
            in (Inr out, trim_source r)))"

section \<open>Exact interpolation\<close>

lemma saturate_pcm16_sample: "saturate_pcm16 (sint s) = s"
proof -
  have "- 32768 \<le> sint s" "sint s \<le> 32767" using sint_ge [of s] sint_lt [of s] by simp_all
  then show ?thesis by (simp add: saturate_pcm16_def)
qed

lemma interpolate_same: "0 < d \<Longrightarrow> interpolate_pcm16 s s phase d = s"
  by (simp add: interpolate_pcm16_def saturate_pcm16_sample)

lemma interpolate_start: "0 < d \<Longrightarrow> interpolate_pcm16 left right 0 d = left"
  by (simp add: interpolate_pcm16_def saturate_pcm16_sample)

text \<open>What the output \<^verbatim>\<open>k\<close> of a conversion of \<^verbatim>\<open>F\<close> is; the last sample extends beyond the end.\<close>

definition position_index :: "nat \<Rightarrow> nat \<Rightarrow> nat \<Rightarrow> nat" where
  "position_index input_rate output_rate k = k * input_rate div output_rate"

definition output_at :: "nat \<Rightarrow> nat \<Rightarrow> sample list \<Rightarrow> nat \<Rightarrow> sample" where
  "output_at input_rate output_rate F k =
     (let i = position_index input_rate output_rate k;
          phase = k * input_rate mod output_rate
      in interpolate_pcm16 (F ! i) (if i + 1 < length F then F ! (i + 1) else F ! i) phase output_rate)"

lemma below_ceil_ratio:
  assumes "0 < i" "0 < o'"
  shows "k < ceil_ratio n o' i \<longleftrightarrow> position_index i o' k < n"
proof -
  have "position_index i o' k < n \<longleftrightarrow> k * i < n * o'"
    using assms by (simp add: position_index_def div_less_iff_less_mult)
  moreover have "k < ceil_ratio n o' i \<longleftrightarrow> k * i < n * o'"
  proof (cases "n = 0")
    case False
    then have "Suc k \<le> (n * o' + i - 1) div i \<longleftrightarrow> Suc k * i \<le> n * o' + i - 1"
      using assms less_eq_div_iff_mult_less_eq [of i "Suc k" "n * o' + i - 1"] by simp
    also have "\<dots> \<longleftrightarrow> k * i < n * o'" using assms by auto
    finally show ?thesis using False by (simp add: ceil_ratio_def Suc_le_eq)
  qed (simp add: ceil_ratio_def)
  ultimately show ?thesis by simp
qed

lemma supported_positive: "supported_rate rate \<Longrightarrow> 0 < nat rate \<and> int (nat rate) = rate"
  by (auto simp: supported_rate_def)

lemma ceil_parts:
  assumes "0 < (i :: int)" "0 < o'"
  shows "(n * o' + i - 1) div i = n div i * o' + (n mod i * o' div i + (if n mod i * o' mod i \<noteq> 0 then 1 else 0))"
proof -
  let ?p = "n mod i * o'"
  have "n * o' = (i * (n div i) + n mod i) * o'" by simp
  also have "\<dots> = ?p + i * (n div i * o')" by (simp only: distrib_right mult.assoc add.commute)
  finally have eq: "n * o' + i - 1 = (?p + i - 1) + i * (n div i * o')" by simp
  have *: "(n * o' + i - 1) div i = n div i * o' + (?p + i - 1) div i"
    unfolding eq using assms by (subst div_mult_self2) simp_all
  have "(?p + i - 1) div i = ?p div i + (if ?p mod i \<noteq> 0 then 1 else 0)"
  proof -
    define q where "q = ?p div i"
    define r where "r = ?p mod i"
    have p: "?p = i * q + r" "0 \<le> r" "r < i" using assms by (simp_all add: q_def r_def)
    have "(i * q + r + i - 1) div i = q + (r + i - 1) div i"
      using assms div_mult_self2 [of i "r + i - 1" q] by (simp add: algebra_simps)
    also have "(r + i - 1) div i = (if r \<noteq> 0 then 1 else 0)"
      using p by (auto simp: div_pos_pos_trivial intro!: int_div_pos_eq [of _ _ 1 "r - 1"])
    finally have "(i * q + r + i - 1) div i = q + (if r \<noteq> 0 then 1 else 0)" .
    then show ?thesis unfolding q_def [symmetric] r_def [symmetric] by (subst p(1))
  qed
  then show ?thesis using * by simp
qed

lemma guard_chain:
  "0 \<le> r \<Longrightarrow> ((q :: int) \<le> a) = (w \<le> lim) \<Longrightarrow> int m = w + r \<Longrightarrow> bound \<le> lim \<Longrightarrow>
   (if q > a then e else if w > lim - r then e else if w + r > bound then e else Inr (nat (w + r)))
   = (if int m \<le> bound then Inr m else e)"
  by (auto simp flip: of_nat_add)

lemma resample_length_exact:
  assumes "supported_rate i" "supported_rate o'"
  shows "resample_output_length n i o' =
    (let m = ceil_ratio n (nat o') (nat i)
     in if int m \<le> (2 ^ 63 - 1) div 2 then Inr m else Inl (ResampleSize n i o'))"
proof (cases "n = 0")
  case False
  note pos = supported_positive [OF assms(1)] supported_positive [OF assms(2)]
  let ?m = "ceil_ratio n (nat o') (nat i)"
  let ?w = "int n div i * o'" and ?p = "int n mod i * o'"
  let ?r = "?p div i + (if ?p mod i \<noteq> 0 then 1 else 0)"
  have top: "int (n * nat o' + nat i - 1) = int n * o' + i - 1"
    using pos by (subst of_nat_diff) auto
  have "int ?m = int (n * nat o' + nat i - 1) div i"
    using pos False by (simp add: ceil_ratio_def zdiv_int)
  then have "int ?m = (int n * o' + i - 1) div i" by (simp only: top)
  then have m: "int ?m = ?w + ?r" using ceil_parts [of i o' "int n"] pos by simp
  have "0 \<le> ?r" using pos by (simp add: pos_imp_zdiv_nonneg_iff)
  moreover have "int n div i \<le> (2 ^ 64 - 1) div o' \<longleftrightarrow> ?w \<le> 2 ^ 64 - 1"
    using pos by (intro le_quotient) simp
  ultimately have
    "(if int n div i > (2 ^ 64 - 1) div o' then Inl (ResampleSize n i o')
      else if ?w > 2 ^ 64 - 1 - ?r then Inl (ResampleSize n i o')
      else if ?w + ?r > (2 ^ 63 - 1) div 2 then Inl (ResampleSize n i o') else Inr (nat (?w + ?r)))
     = (if int ?m \<le> (2 ^ 63 - 1) div 2 then Inr ?m else Inl (ResampleSize n i o'))"
    using m by (intro guard_chain) simp_all
  then show ?thesis
    using False unfolding resample_output_length_def Let_def by (simp only: if_False)
qed (simp add: resample_output_length_def ceil_ratio_def)

text \<open>The conversion is the output of every position, when its length can be allocated.\<close>

lemma position_index_less:
  "supported_rate i \<Longrightarrow> supported_rate o' \<Longrightarrow> k < ceil_ratio n (nat o') (nat i) \<Longrightarrow>
   position_index (nat i) (nat o') k < n"
  using below_ceil_ratio [of "nat i" "nat o'" k n] supported_positive [of i] supported_positive [of o'] by simp

lemma output_at_same_rate:
  assumes "0 < i"
  shows "map (output_at i i F) [0..<ceil_ratio (length F) i i] = F"
proof -
  have idx: "position_index i i k = k" for k using assms by (simp add: position_index_def)
  then have "k < ceil_ratio (length F) i i \<longleftrightarrow> k < length F" for k
    using assms below_ceil_ratio [of i i k "length F"] by simp
  then have "ceil_ratio (length F) i i = length F" by (meson less_irrefl linorder_neqE_nat)
  moreover have "output_at i i F k = F ! k" for k
    using idx assms by (simp add: output_at_def interpolate_start)
  ultimately show ?thesis by (intro nth_equalityI) simp_all
qed

lemma resample_eq:
  assumes "supported_rate i" "supported_rate o'"
  shows "resample F i o' =
    (let m = ceil_ratio (length F) (nat o') (nat i)
     in if int m \<le> (2 ^ 63 - 1) div 2 then Inr (map (output_at (nat i) (nat o') F) [0..<m])
        else Inl (ResampleSize (length F) i o'))"
proof -
  let ?m = "ceil_ratio (length F) (nat o') (nat i)"
  note pos = supported_positive [OF assms(1)] supported_positive [OF assms(2)]
  have same: "i = o' \<Longrightarrow> map (output_at (nat i) (nat o') F) [0..<?m] = F"
    using output_at_same_rate [of "nat i" F] pos by simp
  have each: "(let position = k * nat i; j = position div nat o'; phase = position mod nat o';
                   last = length F - 1
               in if j \<ge> last then F ! last else interpolate_pcm16 (F ! j) (F ! (j + 1)) phase (nat o'))
              = output_at (nat i) (nat o') F k" if "k < ?m" for k
  proof -
    have *: "position_index (nat i) (nat o') k < length F"
      using that assms by (simp add: position_index_less)
    then have "k * nat i div nat o' \<ge> length F - 1 \<longleftrightarrow> k * nat i div nat o' + 1 \<ge> length F"
      "k * nat i div nat o' + 1 \<ge> length F \<Longrightarrow> k * nat i div nat o' = length F - 1"
      by (auto simp: position_index_def)
    then show ?thesis using pos
      unfolding output_at_def Let_def position_index_def
      by (cases "k * nat i div nat o' + 1 < length F") (simp_all add: interpolate_same)
  qed
  have "map (\<lambda>k. let position = k * nat i; j = position div nat o'; phase = position mod nat o';
                   last = length F - 1
               in if j \<ge> last then F ! last else interpolate_pcm16 (F ! j) (F ! (j + 1)) phase (nat o'))
        [0..<?m] = map (output_at (nat i) (nat o') F) [0..<?m]"
    by (rule map_cong [OF refl], rule each) simp
  moreover have "validate_resample_rate ''input'' i = None" "validate_resample_rate ''output'' o' = None"
    using assms by (simp_all add: validate_resample_rate_def)
  ultimately show ?thesis
    using same unfolding resample_def resample_length_exact [OF assms] Let_def
    by (cases "int ?m \<le> (2 ^ 63 - 1) div 2"; cases "?m = 0"; cases "i = o'") (simp_all only: option.case sum.case if_True if_False simp_thms upt_0 list.map)
qed

section \<open>The stream against the whole recording\<close>

text \<open>What the stream's source is after \<^verbatim>\<open>F\<close> raw samples, nothing trimmed.\<close>

definition recent :: "'a list \<Rightarrow> 'a list" where
  "recent xs = drop (length xs - downsample_taps) xs"

definition low_passed :: "low_pass \<Rightarrow> nat \<Rightarrow> nat \<Rightarrow> sample list \<Rightarrow> sample list" where
  "low_passed filt i o' F =
     (if o' < i then map (\<lambda>j. filt i o' (recent (take (Suc j) F))) [0..<length F] else F)"

lemma recent_snoc:
  "(if length (recent xs @ [x]) > downsample_taps then take downsample_taps (drop 1 (recent xs @ [x]))
    else recent xs @ [x]) = recent (xs @ [x])"
proof -
  have "Suc (length xs) - downsample_taps = Suc (length xs - downsample_taps)"
    if "downsample_taps \<le> length xs" using that by simp
  then show ?thesis
    by (auto simp: recent_def drop_Suc [symmetric] Suc_diff_le not_less min_def)
qed

lemma length_low_passed [simp]: "length (low_passed filt i o' F) = length F"
  by (simp add: low_passed_def)

lemma low_passed_snoc:
  "low_passed filt i o' (F @ [s]) =
   low_passed filt i o' F @ [if o' < i then filt i o' (recent (F @ [s])) else s]"
  by (auto simp: low_passed_def intro: map_cong)

lemma low_passed_append: "\<exists>H. low_passed filt i o' (F @ G) = low_passed filt i o' F @ H"
proof (induction G rule: rev_induct)
  case (snoc s G)
  then show ?case using low_passed_snoc [of filt i o' "F @ G" s] by auto
qed simp

definition stream_inv :: "low_pass \<Rightarrow> nat \<Rightarrow> nat \<Rightarrow> sample list \<Rightarrow> resampler \<Rightarrow> bool" where
  "stream_inv filt i o' F r \<longleftrightarrow>
     rs_input_rate r = i \<and> rs_output_rate r = o' \<and> rs_low_pass r = (o' < i) \<and>
     (o' < i \<longrightarrow> rs_history r = recent F) \<and>
     rs_source r = drop (rs_base r) (low_passed filt i o' F) \<and> rs_base r \<le> length F \<and>
     rs_base r \<le> position_index i o' (rs_next r)"

lemma push_source_inv:
  "stream_inv filt i o' F r \<Longrightarrow> stream_inv filt i o' (F @ [s]) (push_source filt s r) \<and>
   rs_total (push_source filt s r) = rs_total r \<and> rs_ended (push_source filt s r) = rs_ended r \<and>
   rs_next (push_source filt s r) = rs_next r"
  using recent_snoc [of F s]
  by (auto simp: stream_inv_def push_source_def low_passed_snoc Let_def simp del: take_drop split del: if_split)

lemma push_all_inv:
  "stream_inv filt i o' F r \<Longrightarrow> stream_inv filt i o' (F @ input) (fold (push_source filt) input r) \<and>
   rs_total (fold (push_source filt) input r) = rs_total r \<and>
   rs_ended (fold (push_source filt) input r) = rs_ended r \<and>
   rs_next (fold (push_source filt) input r) = rs_next r"
proof (induction input arbitrary: F r)
  case (Cons s input)
  then show ?case using push_source_inv [OF Cons.prems, of s] Cons.IH [of "F @ [s]" "push_source filt s r"]
    by simp
qed simp

lemma source_at_inv:
  "stream_inv filt i o' F r \<Longrightarrow> rs_base r \<le> j \<Longrightarrow>
   source_at j r = (if j < length F then Some (low_passed filt i o' F ! j) else None)"
  by (auto simp: stream_inv_def source_at_def)

lemma trim_source_inv:
  "stream_inv filt i o' F r \<Longrightarrow> stream_inv filt i o' F (trim_source r) \<and>
   rs_total (trim_source r) = rs_total r \<and> rs_ended (trim_source r) = rs_ended r \<and>
   rs_next (trim_source r) = rs_next r"
  by (auto simp: stream_inv_def trim_source_def Let_def position_index_def min_def algebra_simps)

lemma stream_inv_next:
  "stream_inv filt i o' F r \<Longrightarrow> stream_inv filt i o' F (r\<lparr>rs_next := rs_next r + 1\<rparr>)"
proof -
  have "k * i div o' \<le> (k + 1) * i div o'" for k by (rule div_le_mono) simp
  then show "stream_inv filt i o' F r \<Longrightarrow> ?thesis"
    unfolding stream_inv_def position_index_def using order_trans by auto
qed

text \<open>An output that no later sample can change, and when the loop makes one.\<close>

definition output_settled :: "nat \<Rightarrow> nat \<Rightarrow> nat \<Rightarrow> nat \<Rightarrow> bool" where
  "output_settled i o' n k \<longleftrightarrow>
     position_index i o' k < n \<and> (position_index i o' k + 1 < n \<or> k * i mod o' = 0)"

lemma settled_output_stable:
  "output_settled i o' (length F) k \<Longrightarrow> 0 < o' \<Longrightarrow> output_at i o' (F @ G) k = output_at i o' F k"
  by (auto simp: output_settled_def output_at_def Let_def nth_append interpolate_start)

lemma resample_loop_open:
  assumes "stream_inv filt i o' F r" "0 < o'"
  shows "\<exists>m. rs_next r \<le> m \<and>
    resample_loop False target r =
      (map (output_at i o' (low_passed filt i o' F)) [rs_next r..<m], r\<lparr>rs_next := m\<rparr>) \<and>
    stream_inv filt i o' F (r\<lparr>rs_next := m\<rparr>) \<and>
    (\<forall>k\<in>{rs_next r..<m}. output_settled i o' (length F) k)"
  using assms
proof (induction "False" target r rule: resample_loop.induct)
  case (1 target r)
  let ?j = "rs_next r * i div o'"
  have r: "rs_input_rate r = i" "rs_output_rate r = o'" "rs_base r \<le> ?j"
    using "1.prems" by (simp_all add: stream_inv_def position_index_def)
  note at = source_at_inv [OF "1.prems"(1), of ?j] source_at_inv [OF "1.prems"(1), of "?j + 1"]
  show ?case
  proof (cases "int (rs_next r) < target \<and> output_settled i o' (length F) (rs_next r)")
    case False
    then have "resample_loop False target r = ([], r)"
      using r at by (subst resample_loop.simps) (auto simp: Let_def output_settled_def position_index_def)
    then show ?thesis using "1.prems" by (intro exI [of _ "rs_next r"]) simp
  next
    case True
    then have j: "?j < length F" "?j + 1 < length F \<or> rs_next r * i mod o' = 0"
      by (auto simp: output_settled_def position_index_def)
    let ?r = "r\<lparr>rs_next := rs_next r + 1\<rparr>"
    obtain m where m: "rs_next r + 1 \<le> m"
      "resample_loop False target ?r =
        (map (output_at i o' (low_passed filt i o' F)) [rs_next r + 1..<m], ?r\<lparr>rs_next := m\<rparr>)"
      "stream_inv filt i o' F (?r\<lparr>rs_next := m\<rparr>)"
      "\<forall>k\<in>{rs_next r + 1..<m}. output_settled i o' (length F) k"
      using "1.hyps" [OF _ refl refl refl _ _] "1.prems" stream_inv_next [OF "1.prems"(1)] True at j r
      by (fastforce simp: position_index_def split: if_splits)
    have "resample_loop False target r =
        (output_at i o' (low_passed filt i o' F) (rs_next r) # fst (resample_loop False target ?r),
         snd (resample_loop False target ?r))"
      using True r at j
      by (subst resample_loop.simps) (auto simp: Let_def output_at_def position_index_def split: prod.split)
    then show ?thesis
      using m True by (intro exI [of _ m]) (auto simp: upt_rec [of "rs_next r"] Suc_le_eq le_eq_less_or_eq)
  qed
qed

lemma resample_loop_end:
  assumes "stream_inv filt i o' F r" "0 < o'" "0 < i" "rs_next r \<le> ceil_ratio (length F) o' i"
  shows "fst (resample_loop True (int (ceil_ratio (length F) o' i)) r) =
    map (output_at i o' (low_passed filt i o' F)) [rs_next r..<ceil_ratio (length F) o' i]"
  using assms
proof (induction "True" "int (ceil_ratio (length F) o' i)" r rule: resample_loop.induct)
  case (1 r)
  let ?j = "rs_next r * i div o'"
  let ?M = "ceil_ratio (length F) o' i"
  have r: "rs_input_rate r = i" "rs_output_rate r = o'" "rs_base r \<le> ?j"
    using "1.prems" by (simp_all add: stream_inv_def position_index_def)
  note at = source_at_inv [OF "1.prems"(1), of ?j] source_at_inv [OF "1.prems"(1), of "?j + 1"]
  show ?case
  proof (cases "rs_next r < ?M")
    case False
    then show ?thesis using "1.prems" by (subst resample_loop.simps) simp
  next
    case True
    then have j: "?j < length F"
      using below_ceil_ratio [of i o' "rs_next r"] "1.prems" by (simp add: position_index_def)
    let ?r = "r\<lparr>rs_next := rs_next r + 1\<rparr>"
    have "fst (resample_loop True (int ?M) ?r) =
        map (output_at i o' (low_passed filt i o' F)) [rs_next r + 1..<?M]"
      using "1.hyps" [OF _ refl refl refl _ _] "1.prems" stream_inv_next [OF "1.prems"(1)] True at j r
      by (fastforce split: if_splits)
    moreover have "fst (resample_loop True (int ?M) r) =
        output_at i o' (low_passed filt i o' F) (rs_next r) # fst (resample_loop True (int ?M) ?r)"
      using True r at j
      by (subst resample_loop.simps) (auto simp: Let_def output_at_def position_index_def split: prod.split)
    ultimately show ?thesis using True by (simp add: upt_rec [of "rs_next r"])
  qed
qed

text \<open>The state between chunks: every output made so far is settled.\<close>

definition stream_state :: "low_pass \<Rightarrow> nat \<Rightarrow> nat \<Rightarrow> sample list \<Rightarrow> resampler \<Rightarrow> bool" where
  "stream_state filt i o' F r \<longleftrightarrow>
     stream_inv filt i o' F r \<and> \<not> rs_ended r \<and> rs_total r = length F \<and>
     (\<forall>k < rs_next r. output_settled i o' (length F) k)"

lemma output_settled_mono: "output_settled i o' n k \<Longrightarrow> n \<le> m \<Longrightarrow> output_settled i o' m k"
  by (auto simp: output_settled_def)

lemma output_settled_below:
  "output_settled i o' n k \<Longrightarrow> 0 < i \<Longrightarrow> 0 < o' \<Longrightarrow> k < ceil_ratio n o' i"
  by (simp add: output_settled_def below_ceil_ratio)

lemma process_stream_open:
  assumes "stream_state filt i o' F r" "0 < i" "0 < o'" "i \<noteq> o'"
  shows "\<exists>m r'. rs_next r \<le> m \<and> process_stream filt input False r =
      (Inr (map (output_at i o' (low_passed filt i o' (F @ input))) [rs_next r..<m]), r') \<and>
    stream_state filt i o' (F @ input) r' \<and> rs_next r' = m"
proof -
  let ?p = "fold (push_source filt) input r"
  let ?q = "?p\<lparr>rs_total := rs_total ?p + length input, rs_ended := rs_ended ?p \<or> False\<rparr>"
  have r: "stream_inv filt i o' F r" "\<not> rs_ended r" "rs_total r = length F"
    "\<forall>k < rs_next r. output_settled i o' (length F) k"
    "rs_input_rate r = i" "rs_output_rate r = o'"
    using assms by (simp_all add: stream_state_def stream_inv_def)
  note p = push_all_inv [OF r(1), of input]
  have q: "stream_inv filt i o' (F @ input) ?q" using conjunct1 [OF p] by (simp add: stream_inv_def)
  obtain m where m: "rs_next ?q \<le> m" "resample_loop False (2 ^ 64 - 1) ?q =
      (map (output_at i o' (low_passed filt i o' (F @ input))) [rs_next ?q..<m], ?q\<lparr>rs_next := m\<rparr>)"
    "stream_inv filt i o' (F @ input) (?q\<lparr>rs_next := m\<rparr>)"
    "\<forall>k\<in>{rs_next ?q..<m}. output_settled i o' (length (F @ input)) k"
    using resample_loop_open [OF q assms(3), of "2 ^ 64 - 1"] by blast
  let ?t = "trim_source (?q\<lparr>rs_next := m\<rparr>)"
  note t = trim_source_inv [OF m(3)]
  have "\<forall>k < m. output_settled i o' (length (F @ input)) k"
  proof (intro allI impI)
    fix k assume "k < m"
    then show "output_settled i o' (length (F @ input)) k"
      using m(4) r(4) p output_settled_mono [of i o' "length F" k "length (F @ input)"]
      by (cases "k < rs_next r") simp_all
  qed
  then have "stream_state filt i o' (F @ input) ?t"
    using t p r by (simp add: stream_state_def)
  moreover have "process_stream filt input False r = (Inr (map (output_at i o' (low_passed filt i o' (F @ input))) [rs_next r..<m]), ?t)"
    using r assms m p unfolding process_stream_def Let_def by simp
  ultimately show ?thesis using m(1) p t by auto
qed

lemma process_stream_end:
  assumes "stream_state filt i o' F r" "0 < i" "0 < o'" "i \<noteq> o'"
  shows "fst (process_stream filt input True r) =
    Inr (map (output_at i o' (low_passed filt i o' (F @ input)))
           [rs_next r..<ceil_ratio (length (F @ input)) o' i])"
proof -
  let ?p = "fold (push_source filt) input r"
  let ?q = "?p\<lparr>rs_total := rs_total ?p + length input, rs_ended := rs_ended ?p \<or> True\<rparr>"
  have r: "stream_inv filt i o' F r" "\<not> rs_ended r" "rs_total r = length F"
    "\<forall>k < rs_next r. output_settled i o' (length F) k"
    "rs_input_rate r = i" "rs_output_rate r = o'"
    using assms by (simp_all add: stream_state_def stream_inv_def)
  note p = push_all_inv [OF r(1), of input]
  have q: "stream_inv filt i o' (F @ input) ?q" using conjunct1 [OF p] by (simp add: stream_inv_def)
  have "rs_next r \<le> ceil_ratio (length (F @ input)) o' i"
  proof (cases "rs_next r")
    case (Suc k)
    then have "output_settled i o' (length (F @ input)) k"
      using r(4) output_settled_mono [of i o' "length F" k "length (F @ input)"] by simp
    then show ?thesis using Suc output_settled_below assms(2,3) by (simp add: Suc_le_eq)
  qed simp
  then have "fst (resample_loop True (int (ceil_ratio (length (F @ input)) o' i)) ?q) =
      map (output_at i o' (low_passed filt i o' (F @ input))) [rs_next r..<ceil_ratio (length (F @ input)) o' i]"
    using resample_loop_end [OF q assms(3,2)] p by simp
  moreover have "rs_input_rate ?p = i" "rs_output_rate ?p = o'"
    using conjunct1 [OF p] by (simp_all add: stream_inv_def)
  ultimately show ?thesis
    using r assms p unfolding process_stream_def Let_def by (auto split: prod.split)
qed

text \<open>A caller of the stream: chunks in order, the last one with the end.\<close>

fun run_stream :: "low_pass \<Rightarrow> resampler \<Rightarrow> sample list list \<Rightarrow> sample list \<Rightarrow> resample_error + sample list" where
  "run_stream filt r [] final = fst (process_stream filt final True r)"
| "run_stream filt r (c # cs) final =
     (case process_stream filt c False r of
        (Inl e, _) \<Rightarrow> Inl e
      | (Inr out, r') \<Rightarrow> map_sum id (\<lambda>rest. out @ rest) (run_stream filt r' cs final))"

lemma output_at_grows:
  assumes "output_settled i o' (length F) k" "0 < o'"
  shows "output_at i o' (low_passed filt i o' (F @ G)) k = output_at i o' (low_passed filt i o' F) k"
proof -
  obtain H where "low_passed filt i o' (F @ G) = low_passed filt i o' F @ H"
    using low_passed_append by blast
  then show ?thesis using settled_output_stable [of i o' "low_passed filt i o' F" k H] assms by simp
qed

lemma run_stream_state:
  assumes "stream_state filt i o' F r" "0 < i" "0 < o'" "i \<noteq> o'"
  shows "run_stream filt r chunks final =
    Inr (map (output_at i o' (low_passed filt i o' (F @ concat chunks @ final)))
           [rs_next r..<ceil_ratio (length (F @ concat chunks @ final)) o' i])"
  using assms(1)
proof (induction chunks arbitrary: F r)
  case Nil
  then show ?case using process_stream_end [OF _ assms(2-4)] by simp
next
  case (Cons c cs)
  let ?all = "F @ concat (c # cs) @ final"
  obtain m r' where m: "rs_next r \<le> m" "process_stream filt c False r =
      (Inr (map (output_at i o' (low_passed filt i o' (F @ c))) [rs_next r..<m]), r')"
    "stream_state filt i o' (F @ c) r'" "rs_next r' = m"
    using process_stream_open [OF Cons.prems assms(2-4), of c] by blast
  have settled: "output_settled i o' (length (F @ c)) k" if "k < m" for k
    using that m(3,4) by (simp add: stream_state_def)
  have same: "map (output_at i o' (low_passed filt i o' (F @ c))) [rs_next r..<m] =
      map (output_at i o' (low_passed filt i o' ?all)) [rs_next r..<m]"
    using output_at_grows [OF settled assms(3), of _ filt "concat cs @ final"] by (intro map_cong) simp_all
  have "m \<le> ceil_ratio (length ?all) o' i"
  proof (cases m)
    case (Suc k)
    then have "output_settled i o' (length ?all) k"
      using settled [of k] output_settled_mono [of i o' "length (F @ c)" k "length ?all"] by simp
    then show ?thesis using Suc output_settled_below assms(2,3) by (simp add: Suc_le_eq)
  qed simp
  then have "[rs_next r..<ceil_ratio (length ?all) o' i] = [rs_next r..<m] @ [m..<ceil_ratio (length ?all) o' i]"
    using m(1) by (metis le_add_diff_inverse upt_add_eq_append)
  then show ?case using m Cons.IH [OF m(3)] same by simp
qed

lemma new_resampler_state:
  "new_resampler i o' = Inr r \<Longrightarrow> supported_rate i \<and> supported_rate o' \<and>
   stream_state filt (nat i) (nat o') [] r \<and> rs_next r = 0 \<and> (rs_input_rate r = rs_output_rate r) = (i = o')"
  by (auto simp: new_resampler_def reset_resampler_def validate_resample_rate_def stream_state_def
      stream_inv_def recent_def low_passed_def supported_rate_def split: if_splits)

lemma run_stream_identity:
  assumes "rs_input_rate r = rs_output_rate r" "\<not> rs_ended r"
  shows "run_stream filt r chunks final = Inr (concat chunks @ final)"
  using assms by (induction chunks arbitrary: r) (simp_all add: process_stream_def)

section \<open>Properties\<close>

text \<open>
  C19: a stream cut into any chunks is the whole recording at once. Whatever the chunks, the conversion of a
  stream that is then ended makes exactly the samples \<^verbatim>\<open>Resample\<close> makes of the stream's source, which is the
  recording itself when the rate does not fall and its low-passed samples when it does; in particular two
  ways of cutting a stream make the same sound, with no seam, lost or repeated sample.
\<close>

theorem stream_equals_batch:
  assumes "new_resampler i o' = Inr r"
    "resample (low_passed filt (nat i) (nat o') (concat chunks @ final)) i o' = Inr out"
  shows "run_stream filt r chunks final = Inr out"
proof -
  note st = new_resampler_state [OF assms(1), of filt]
  show ?thesis
  proof (cases "i = o'")
    case True
    then have "out = concat chunks @ final"
      using st assms(2) resample_eq [of i i "concat chunks @ final"] output_at_same_rate [of "nat i" "concat chunks @ final"]
        supported_positive [of i]
      by (auto simp: low_passed_def Let_def split: if_splits)
    then show ?thesis
      using True st run_stream_identity [of r] by (simp add: stream_state_def)
  next
    case False
    note pos = supported_positive [of i] supported_positive [of o']
    then have ne: "0 < nat i" "0 < nat o'" "nat i \<noteq> nat o'" using st False by auto
    have "out = map (output_at (nat i) (nat o') (low_passed filt (nat i) (nat o') (concat chunks @ final)))
        [0..<ceil_ratio (length (concat chunks @ final)) (nat o') (nat i)]"
      using assms(2) st resample_eq [of i o'] by (auto simp: Let_def split: if_splits)
    moreover have "stream_state filt (nat i) (nat o') [] r" "rs_next r = 0" using st by simp_all
    ultimately show ?thesis
      using run_stream_state [of filt "nat i" "nat o'" "[]" r chunks final] ne by simp
  qed
qed

theorem stream_equals_batch_witness:
  "\<exists>r. new_resampler 16000 24000 = Inr r \<and>
     run_stream (\<lambda>_ _ _. 0) r [[3], [], [9, - 7]] [100] = Inr [3, 7, 4, - 7, 64, 100]"
proof -
  obtain r where r: "new_resampler 16000 24000 = Inr r" by (simp add: new_resampler_def reset_resampler_def
      validate_resample_rate_def supported_rate_def)
  moreover have "resample (low_passed (\<lambda>_ _ _. 0) (nat 16000) (nat 24000) (concat [[3], [], [9, - 7]] @ [100]))
      16000 24000 = Inr [3, 7, 4, - 7, 64, 100]"
    by (simp add: resample_def supported_rate_def validate_resample_rate_def resample_output_length_def upt_rec_numeral upt_rec interpolate_pcm16_def saturate_pcm16_def Let_def low_passed_def)
  ultimately show ?thesis using stream_equals_batch [OF r] by blast
qed

text \<open>
  C20: converting up to a multiple of the rate and back returns every sample as it was, the zero of
  \<^verbatim>\<open>MaxResampleRoundTripErrorLSB\<close>, whenever the first conversion succeeded: 16 kHz or 24 kHz through 48 kHz
  (and a rate through itself).
\<close>

theorem resample_roundtrip:
  assumes "resample F i o' = Inr t" "i dvd o'" "supported_rate i"
  shows "resample t o' i = Inr F"
proof -
  have o: "supported_rate o'"
    using assms by (auto simp: resample_def validate_resample_rate_def split: if_splits)
  note pos = supported_positive [OF assms(3)] supported_positive [OF o]
  have "nat i dvd nat o'" using assms(2) pos by (simp flip: int_dvd_int_iff)
  then obtain c where c: "nat o' = nat i * c" by (elim dvdE)
  then have c0: "0 < c" using pos by (cases c) auto
  let ?m = "ceil_ratio (length F) (nat o') (nat i)"
  have t: "t = map (output_at (nat i) (nat o') F) [0..<?m]" "int ?m \<le> (2 ^ 63 - 1) div 2"
    using assms(1) resample_eq [OF assms(3) o, of F] by (auto simp: Let_def split: if_splits)
  have m: "k < ?m \<longleftrightarrow> k < length F * c" for k
    using below_ceil_ratio [of "nat i" "nat o'" k "length F"] pos c c0
    by (simp add: position_index_def div_less_iff_less_mult mult.commute mult.left_commute)
  then have len: "?m = length F * c" by (meson less_irrefl linorder_neqE_nat)
  have "k < ceil_ratio (length t) (nat i) (nat o') \<longleftrightarrow> k < length F" for k
    using below_ceil_ratio [of "nat o'" "nat i" k "length t"] pos c c0 len t(1)
    by (simp add: position_index_def mult.commute mult.left_commute)
  then have len_back: "ceil_ratio (length t) (nat i) (nat o') = length F" by (meson less_irrefl linorder_neqE_nat)
  have "output_at (nat o') (nat i) t k = F ! k" if "k < length F" for k
  proof -
    have k: "position_index (nat o') (nat i) k = k * c" "k * nat o' mod nat i = 0"
      using c pos by (simp_all add: position_index_def mult.left_commute [of k])
    then have "output_at (nat o') (nat i) t k = t ! (k * c)"
      using pos by (simp add: output_at_def interpolate_start)
    also have "\<dots> = output_at (nat i) (nat o') F (k * c)" using t(1) that len c0 by simp
    also have "\<dots> = F ! k"
      using c c0 pos by (simp add: output_at_def position_index_def mult.commute mult.left_commute interpolate_start)
    finally show ?thesis .
  qed
  then have "map (output_at (nat o') (nat i) t) [0..<length F] = F" by (intro nth_equalityI) simp_all
  moreover have "int (length F) \<le> (2 ^ 63 - 1) div 2"
  proof -
    have "length F \<le> ?m" unfolding len using c0 by (cases c) simp_all
    then show ?thesis using t(2) by linarith
  qed
  ultimately show ?thesis using resample_eq [OF o assms(3), of t] len_back by (simp add: Let_def)
qed

theorem resample_roundtrip_witness:
  "resample [0, 100, 50, - 32768] 16000 48000 = Inr [0, 33, 67, 100, 83, 67, 50, - 10889, - 21829, - 32768, - 32768, - 32768] \<and>
   resample [0, 33, 67, 100, 83, 67, 50, - 10889, - 21829, - 32768, - 32768, - 32768] 48000 16000
     = Inr [0, 100, 50, - 32768]"
proof -
  have "resample [0, 100, 50, - 32768] 16000 48000 =
      Inr [0, 33, 67, 100, 83, 67, 50, - 10889, - 21829, - 32768, - 32768, - 32768]"
    by (simp add: resample_def supported_rate_def validate_resample_rate_def resample_output_length_def upt_rec_numeral upt_rec interpolate_pcm16_def saturate_pcm16_def Let_def low_passed_def)
  from this resample_roundtrip [OF this] show ?thesis by (simp add: supported_rate_def)
qed

end
