(* ===== verification/Spec2Isabelle.thy ===== *)
theory Spec2Isabelle
  imports Tool_Order Typed_Buffer Coordinator Session_Ingress Session_State Participants Tool_Runner Model_Inference Engine Session_Outbox Runner_Laws Runner_Total Runner_Control Mixer Clock Accumulator Resample
begin

text \<open>
  A verification library of the agent loop of go-agent-harness (\<^verbatim>\<open>go-agent-loop/pkg\<close>) and of the
  bounded media path under it (\<^verbatim>\<open>go-audio/pkg\<close>).

  The program. An agent loop joins participants (a user, a kernel, a model, a tool runner, an
  interaction) by bounded buffers of messages and deltas. Its engine runs in ticks: it takes one
  item from one inbox, numbers it and folds it into the history, then runs every subsystem in a
  fixed order of groups; the subsystems read the state and write requests to outboxes. A model is
  either asked turn by turn (the inference runner) or held in a provider session (the session
  runner), which has its own goroutine, an ordered ingress, a lifecycle state and an outbox. Audio
  travels in bounded frame buffers with epochs, and a room mixes several inputs at a cadence.

  Values and buffers.
  \<^item> \<^verbatim>\<open>Prelude\<close>: errors, contexts, results and the generic facts; \<^verbatim>\<open>Go_Text\<close>, \<^verbatim>\<open>Go_Format\<close>: what the code
    uses of strings and fmt.
  \<^item> \<^verbatim>\<open>Messages\<close> (messages/agent_messages.go and the other value files), \<^verbatim>\<open>Tool_Order\<close> (tool_order.go),
    \<^verbatim>\<open>Reconstruction\<close> (reconstruction.go): the message values, the canonical tool order, and how
    streamed deltas become messages.
  \<^item> \<^verbatim>\<open>Fifo\<close>: the interface of a bounded queue as a locale, with the laws of a whole run of puts and
    gets. It is interpreted on the typed buffers (\<^verbatim>\<open>Typed_Buffer\<close>, messages/buffers.go), the frame
    buffer and the command queue (\<^verbatim>\<open>Frame_Buffer\<close>, audio/buffer.go and control.go) and the session
    ingress.
  \<^item> \<^verbatim>\<open>Event_Sink\<close>: the interface of a place events are sent to, extended by \<^verbatim>\<open>result_sink\<close> and
    \<^verbatim>\<open>roomy_sink\<close> in \<^verbatim>\<open>Forwarder\<close> and by \<^verbatim>\<open>warning_sink\<close> in \<^verbatim>\<open>Subsystems\<close>; interpreted on the ingress and on the user's and
    the interaction's outboxes.

  The loop.
  \<^item> \<^verbatim>\<open>Loop_State\<close> (state/state_loop.go): one record; the inboxes and outboxes the loop writes are
    request logs, in the order of the writes, what a write does to a channel being \<^verbatim>\<open>Typed_Buffer\<close>.
  \<^item> \<^verbatim>\<open>Ordering\<close> (engine/ordering.go, ordering_history.go): receiving one item, its numbers, the
    delta windows and the bounded history.
  \<^item> \<^verbatim>\<open>Interrupt\<close>, \<^verbatim>\<open>Coordinator\<close>, \<^verbatim>\<open>Forwarder\<close>, \<^verbatim>\<open>Subsystems\<close>, \<^verbatim>\<open>Audio_Ports\<close> (subsystems/): one function per
    subsystem, the whole Execute of each.
  \<^item> \<^verbatim>\<open>Engine\<close> (engine/engine.go, tick.go, state.go; agentloop's wiring): the tick, the hot loop up to
    its settling exit, the manual drivers.

  The participants.
  \<^item> \<^verbatim>\<open>Participants\<close> (participants/runner.go, kernel_runner.go), \<^verbatim>\<open>Tool_Runner\<close> (tool_runner.go),
    \<^verbatim>\<open>Model_Inference\<close> (model_runner_inference.go).
  \<^item> The session: \<^verbatim>\<open>Session_Link\<close> (messages/session.go), \<^verbatim>\<open>Session_Ingress\<close> (model_runner_ingress.go),
    \<^verbatim>\<open>Session_State\<close> (internal/sessionstate), \<^verbatim>\<open>Session_Outbox\<close> (model_runner_session_outbox.go) and
    \<^verbatim>\<open>Session_Runner\<close> (model_runner.go, model_runner_session.go, model_runner_control.go,
    model_runner_session_tools.go). What all of the runner's functions preserve is proved once,
    in the locales of \<^verbatim>\<open>Runner_Effects\<close>; \<^verbatim>\<open>Runner_Laws\<close>, \<^verbatim>\<open>Runner_Total\<close> and \<^verbatim>\<open>Runner_Control\<close> interpret them
    on the runner for refinement, conservation and termination.

  The media path.
  \<^item> \<^verbatim>\<open>Pcm_Timing\<close> (audio/format.go, pcm16_frame_size.go), \<^verbatim>\<open>Pcm_Codec\<close> (codec/pcm16.go), \<^verbatim>\<open>Pcm_Mix\<close>
    (mixer/pcm_mix.go): sizes, durations, bytes, base64 and mixing at their widths.
  \<^item> \<^verbatim>\<open>Mixer_Input\<close> and \<^verbatim>\<open>Mixer\<close> (mixer/format.go, input.go, mixer.go, stream.go): the room mixer over
    the frame buffers.
  \<^item> \<^verbatim>\<open>Int64\<close>: sums, products and quotients of 64-bit integers that fit. \<^verbatim>\<open>Timer_Heap\<close> and \<^verbatim>\<open>Clock\<close>
    (clock/timer_heap.go, deterministic_timer.go, clock.go): the virtual clock; a timer is the
    index of its record, as the heap and its owner share it, and a notification channel a number.
  \<^item> \<^verbatim>\<open>Accumulator\<close> (mixer/accumulator.go, accumulator_output.go): the recorder that places frames
    and sources on one timeline; its slice keeps the capacity the code grows it to.
  \<^item> \<^verbatim>\<open>Resample\<close> (wavio/resample.go, streaming_resample.go): sample rate conversion, at once and in
    chunks.

  Conventions. A Go error is a value of \<^verbatim>\<open>go_error\<close>, a call that returns (x, err) a sum, a call
  that may wait returns an option (None: it has not returned) and takes what happened while it
  waited as a list of rounds. The picks of a select, the arrivals from a provider, schedules and
  clock readings are arguments. Code outside src/ and injected functions (a model, a
  tool executor, a token counter, a recorder, the text of an error) are parameters. Sequence
  and global indexes, the sequence of a timer and the sample counts of a resampled stream are nat
  (the code counts up from 0 in int or uint64, and no run reaches the wrap); other integers whose overflow the code meets are
  words: 64 bits for int, int64, uint64 and time.Duration, 16 for a sample, 8 for a byte. Strings
  are the bytes of the Go string.

  What the lemmas show. Conservation: no user turn, user audio or must-deliver delta is lost or
  repeated across ticks, interleavings and interrupts. Identity: tool calls run once, results are
  forwarded once, responses end once and speech cancels one once. Order: indexes are gap free, a cancel
  overtakes audio only, streams are reassembled from exactly their deltas. Errors: refused results,
  overflows and failed responses end the way their callers rely on. Termination: every pass of the
  session loop, and every call in it, returns. Media: mixing, reframing and the codecs are exact,
  without wrap-around, and the mixed stream is one timeline; a recording is the clipped sum of what
  was recorded, a resampled stream has no seams, and a virtual clock fires every due timer once and
  in order.

  Fuel. \<^verbatim>\<open>Session_Runner\<close> closes the recursion between messages and control events, and the loop
  over inputs, by fuel: one more than the messages and inputs at hand. \<^verbatim>\<open>Runner_Total\<close> proves that it is always
  enough, as an observed message is gone for good. \<^verbatim>\<open>tick_n\<close> and the hot loop run over a finite list of
  worlds, one per tick. The loop of a resampled stream stops at its target (at most the largest uint64), and
  the loop that fires timers at an empty heap. All other recursions are structural or have a measure.

  Not modelled: goroutine start-up and teardown that changes no modelled state, JSON tags and wire
  formats, logging, metrics, transcripts and replay, float DSP (voice levels enter as the outcome
  of their comparison), file and device I/O, provider adapters, the runtime services around the
  loop, and the command line. PROJECT.json lists them with the reason.
\<close>

end
